(* ===== verification/Redis_Prelude.thy ===== *)
theory Redis_Prelude
  imports Main "HOL-Library.Word" "HOL-Library.Monad_Syntax"
begin

unbundle bit_operations_syntax

text \<open>
  Shared vocabulary of the development: machine types, the memory model the byte-level
  components work on, and the generic lemmas they share.

  A C buffer is a list of bytes, one element per allocated byte.  Every access goes through
  \<open>mem_read\<close>, \<open>mem_write\<close> or \<open>mem_move\<close>, which are \<open>None\<close> when the access leaves the
  allocation; a failed \<open>assert\<close> and a dereference of a null pointer are \<open>None\<close> as well.  A theorem that
  says an operation returns \<open>Some\<close> is therefore also a memory-safety theorem.  Bytes that
  \<open>realloc\<close> adds have contents the program does not choose: they are read from a function
  \<open>fresh\<close> that every theorem quantifies over.
\<close>

named_theorems mem_simps \<open>successful accesses to a buffer\<close>
named_theorems le_simps \<open>little-endian encodings\<close>

section \<open>Machine types\<close>

type_synonym byte = "8 word"
type_synonym u16 = "16 word"
type_synonym u32 = "32 word"
type_synonym u64 = "64 word"

abbreviation (input) INT16_MIN :: int where "INT16_MIN \<equiv> - 32768"
abbreviation (input) INT16_MAX :: int where "INT16_MAX \<equiv> 32767"
abbreviation (input) INT32_MIN :: int where "INT32_MIN \<equiv> - 2147483648"
abbreviation (input) INT32_MAX :: int where "INT32_MAX \<equiv> 2147483647"
abbreviation (input) INT64_MIN :: int where "INT64_MIN \<equiv> - 9223372036854775808"
abbreviation (input) INT64_MAX :: int where "INT64_MAX \<equiv> 9223372036854775807"

definition int64 :: "int \<Rightarrow> bool" where
  "int64 v \<longleftrightarrow> INT64_MIN \<le> v \<and> v \<le> INT64_MAX"

definition require :: "bool \<Rightarrow> unit option" where
  "require b = (if b then Some () else None)"

lemma require_simps [simp]: "require True = Some ()" "require False = None"
  by (simp_all add: require_def)

lemma require_eq_Some [simp]: "require b = Some u \<longleftrightarrow> b"
  by (simp add: require_def)

section \<open>Buffers\<close>

definition mem_read :: "byte list \<Rightarrow> nat \<Rightarrow> nat \<Rightarrow> byte list option" where
  "mem_read buf off n = (if off + n \<le> length buf then Some (take n (drop off buf)) else None)"

definition mem_write :: "byte list \<Rightarrow> nat \<Rightarrow> byte list \<Rightarrow> byte list option" where
  "mem_write buf off bs =
     (if off + length bs \<le> length buf
      then Some (take off buf @ bs @ drop (off + length bs) buf) else None)"

definition mem_move :: "byte list \<Rightarrow> nat \<Rightarrow> nat \<Rightarrow> nat \<Rightarrow> byte list option" where
  "mem_move buf dst src n = do { bs \<leftarrow> mem_read buf src n; mem_write buf dst bs }"

definition mem_resize :: "(nat \<Rightarrow> byte) \<Rightarrow> byte list \<Rightarrow> nat \<Rightarrow> byte list" where
  "mem_resize fresh buf n = take n buf @ map fresh [length buf..<n]"

lemma length_mem_resize [simp]: "length (mem_resize fresh buf n) = n"
  by (simp add: mem_resize_def)

lemma take_mem_resize [simp]: "n \<le> m \<Longrightarrow> n \<le> length buf \<Longrightarrow> take n (mem_resize fresh buf m) = take n buf"
  by (simp add: mem_resize_def)

lemma mem_read_ok [mem_simps]:
  "off + n \<le> length buf \<Longrightarrow> mem_read buf off n = Some (take n (drop off buf))"
  by (simp add: mem_read_def)

lemma mem_write_ok [mem_simps]:
  "off + length bs \<le> length buf \<Longrightarrow>
   mem_write buf off bs = Some (take off buf @ bs @ drop (off + length bs) buf)"
  by (simp add: mem_write_def)

lemma mem_move_ok [mem_simps]:
  "src + n \<le> length buf \<Longrightarrow> dst + n \<le> length buf \<Longrightarrow>
   mem_move buf dst src n = Some (take dst buf @ take n (drop src buf) @ drop (dst + n) buf)"
  by (simp add: mem_move_def mem_read_def mem_write_def)

lemma mem_read_length: "mem_read buf off n = Some bs \<Longrightarrow> length bs = n"
  by (auto simp: mem_read_def split: if_splits)

lemma mem_write_length: "mem_write buf off bs = Some buf' \<Longrightarrow> length buf' = length buf"
  by (auto simp: mem_write_def split: if_splits)

section \<open>Little-endian encodings\<close>

text \<open>
  \<open>le_bytes n v\<close> is the memory image of the low \<open>n\<close> bytes of the two's complement integer
  \<open>v\<close>; \<open>le_uint\<close> and \<open>le_sint\<close> read an image back as an unsigned and as a signed value.
\<close>

primrec le_bytes :: "nat \<Rightarrow> int \<Rightarrow> byte list" where
  "le_bytes 0 v = []"
| "le_bytes (Suc n) v = word_of_int v # le_bytes n (v div 256)"

primrec le_uint :: "byte list \<Rightarrow> int" where
  "le_uint [] = 0"
| "le_uint (b # bs) = uint b + 256 * le_uint bs"

definition le_sint :: "byte list \<Rightarrow> int" where
  "le_sint bs = (if 256 ^ length bs \<le> 2 * le_uint bs then le_uint bs - 256 ^ length bs else le_uint bs)"

lemma length_le_bytes [simp]: "length (le_bytes n v) = n"
  by (induction n arbitrary: v) auto

lemma uint_word_of_int_byte: "uint (word_of_int v :: byte) = v mod 256"
  by (simp add: uint_word_of_int)

lemma le_uint_le_bytes [le_simps]: "le_uint (le_bytes n v) = v mod 256 ^ n"
proof (induction n arbitrary: v)
  case (Suc n)
  have "v mod 256 + 256 * (v div 256 mod 256 ^ n) = v mod (256 * 256 ^ n)"
    by (metis (no_types) add.commute mod_mult2_eq' zmod_zmult2_eq zero_le_numeral zero_le_power)
  then show ?case
    by (simp add: Suc.IH uint_word_of_int_byte)
qed simp

lemma le_uint_nonneg [simp]: "0 \<le> le_uint bs"
  by (induction bs) auto

lemma le_uint_bound: "le_uint bs < 256 ^ length bs"
proof (induction bs)
  case (Cons b bs)
  have "uint b < 256" using uint_lt2p [of b] by simp
  with Cons show ?case by simp
qed simp

lemma le_bytes_le_uint [le_simps]: "le_bytes (length bs) (le_uint bs) = bs"
proof (induction bs)
  case (Cons b bs)
  have b: "uint b < 256" using uint_lt2p [of b] by simp
  then have "(uint b + 256 * le_uint bs) div 256 = le_uint bs" by simp
  moreover have "word_of_int (uint b + 256 * le_uint bs) = b"
  proof (rule word_uint_eqI)
    show "uint (word_of_int (uint b + 256 * le_uint bs) :: byte) = uint b"
      unfolding uint_word_of_int_byte using b by simp
  qed
  ultimately show ?case using Cons by simp
qed simp

lemma le_sint_le_bytes [le_simps]:
  assumes "- (256 ^ n) \<le> 2 * v" and "2 * v < 256 ^ n"
  shows "le_sint (le_bytes n v) = v"
proof -
  define m :: int where "m = 256 ^ n"
  have m: "0 < m" by (simp add: m_def)
  show ?thesis
  proof (cases "0 \<le> v")
    case True
    then have "v mod m = v" using assms m unfolding m_def [symmetric] by (intro mod_pos_pos_trivial) auto
    then show ?thesis using assms(2) by (simp add: le_sint_def le_uint_le_bytes m_def [symmetric])
  next
    case False
    then have "v mod m = (v + m) mod m" by simp
    also have "\<dots> = v + m"
      using False assms m unfolding m_def [symmetric] by (intro mod_pos_pos_trivial) auto
    finally show ?thesis
      using False assms(1) by (simp add: le_sint_def le_uint_le_bytes m_def [symmetric])
  qed
qed

lemma le_sint_bounds: "- (256 ^ length bs) \<le> 2 * le_sint bs \<and> 2 * le_sint bs < 256 ^ length bs"
proof -
  have "0 \<le> 2 * le_uint bs" and "(0::int) < 256 ^ length bs" by simp_all
  with le_uint_bound [of bs] show ?thesis by (auto simp: le_sint_def simp del: le_uint_nonneg)
qed

section \<open>Buffers as arrays of fixed-width slots\<close>

definition slot :: "nat \<Rightarrow> byte list \<Rightarrow> nat \<Rightarrow> byte list" where
  "slot w buf i = take w (drop (i * w) buf)"

definition splice :: "byte list \<Rightarrow> nat \<Rightarrow> byte list \<Rightarrow> byte list" where
  "splice buf d bs = take d buf @ bs @ drop (d + length bs) buf"

lemma length_splice: "d + length bs \<le> length buf \<Longrightarrow> length (splice buf d bs) = length buf"
  by (simp add: splice_def)

lemma nth_splice:
  assumes "d + length bs \<le> length buf" and "x < length buf"
  shows "splice buf d bs ! x = (if d \<le> x \<and> x < d + length bs then bs ! (x - d) else buf ! x)"
proof (cases "x < d")
  case False
  then show ?thesis using assms
    by (cases "x < d + length bs") (auto simp: splice_def nth_append min_def intro!: arg_cong [of _ _ "nth buf"])
qed (use assms in \<open>auto simp: splice_def nth_append\<close>)

lemma slot_in_range: "i < k \<Longrightarrow> i * w + w \<le> k * (w::nat)"
  using mult_le_mono1 [of "Suc i" k w] by simp

lemma length_slot: "i < k \<Longrightarrow> k * w \<le> length buf \<Longrightarrow> length (slot w buf i) = w"
  using slot_in_range [of i k w] by (simp add: slot_def)

lemma nth_slot: "i < k \<Longrightarrow> k * w \<le> length buf \<Longrightarrow> x < w \<Longrightarrow> slot w buf i ! x = buf ! (i * w + x)"
  using slot_in_range [of i k w] by (simp add: slot_def)

lemma slot_splice:
  assumes buf: "n * w \<le> length buf" and bs: "length bs = k * w" and "i + k \<le> n" and "j < n"
  shows "slot w (splice buf (i * w) bs) j = (if i \<le> j \<and> j < i + k then slot w bs (j - i) else slot w buf j)"
proof (rule nth_equalityI)
  have fits: "i * w + length bs \<le> length buf"
    using mult_le_mono1 [OF \<open>i + k \<le> n\<close>, of w] buf bs by (simp add: algebra_simps)
  have len: "n * w \<le> length (splice buf (i * w) bs)"
    using fits buf by (simp add: length_splice)
  show "length (slot w (splice buf (i * w) bs) j)
      = length (if i \<le> j \<and> j < i + k then slot w bs (j - i) else slot w buf j)"
    using assms len by (auto simp: length_slot [of j n] length_slot [of "j - i" k])
  fix x assume "x < length (slot w (splice buf (i * w) bs) j)"
  then have x: "x < w" using assms len by (simp add: length_slot [of j n])
  have jx: "j * w + x < length buf"
    using slot_in_range [OF \<open>j < n\<close>, of w] x buf by linarith
  have "slot w (splice buf (i * w) bs) j ! x = splice buf (i * w) bs ! (j * w + x)"
    using assms len x by (simp add: nth_slot [of j n])
  also have "\<dots> = (if i * w \<le> j * w + x \<and> j * w + x < i * w + k * w
                   then bs ! (j * w + x - i * w) else buf ! (j * w + x))"
    using nth_splice [OF fits jx] bs by simp
  also have "\<dots> = (if i \<le> j \<and> j < i + k then slot w bs (j - i) else slot w buf j) ! x"
  proof (cases "i \<le> j \<and> j < i + k")
    case True
    then have "(j - i) * w + w \<le> k * w" by (intro slot_in_range) linarith
    moreover have "i * w \<le> j * w + x" using True by (simp add: trans_le_add1)
    ultimately show ?thesis using True x bs
      by (auto simp: nth_slot [of "j - i" k] diff_mult_distrib)
  next
    case False
    then consider "j < i" | "i + k \<le> j" by linarith
    then have "\<not> (i * w \<le> j * w + x \<and> j * w + x < i * w + k * w)"
    proof cases
      case 1
      then show ?thesis using slot_in_range [OF 1, of w] x by linarith
    next
      case 2
      then have "(i + k) * w \<le> j * w" by simp
      then show ?thesis by (simp add: algebra_simps)
    qed
    then show ?thesis using False x assms nth_slot [of j n w buf x] by auto
  qed
  finally show "slot w (splice buf (i * w) bs) j ! x
      = (if i \<le> j \<and> j < i + k then slot w bs (j - i) else slot w buf j) ! x" .
qed

lemma slot_take_drop:
  assumes "i + k \<le> n" and "n * w \<le> length buf" and "j < k"
  shows "slot w (take (k * w) (drop (i * w) buf)) j = slot w buf (i + j)"
proof -
  have "j * w + w \<le> k * w" using slot_in_range [OF \<open>j < k\<close>] .
  then show ?thesis
    by (simp add: slot_def take_drop drop_drop min_def algebra_simps)
qed

lemma slot_single [simp]: "length bs = w \<Longrightarrow> slot w bs 0 = bs"
  by (simp add: slot_def)

lemma slot_mem_resize:
  assumes "i < k" and "k * w \<le> length buf" and "k * w \<le> n"
  shows "slot w (mem_resize fresh buf n) i = slot w buf i"
proof -
  have "i * w + w \<le> k * w" using slot_in_range [OF \<open>i < k\<close>] .
  then have "take (i * w + w) (mem_resize fresh buf n) = take (i * w + w) buf"
    using assms by (intro take_mem_resize) auto
  then show ?thesis by (simp add: slot_def take_drop add.commute)
qed

lemma slot_splice_below:
  assumes "i * w + w \<le> d" and "d \<le> length buf"
  shows "slot w (splice buf d bs) i = slot w buf i"
proof -
  have "take (i * w + w) (splice buf d bs) = take (i * w + w) buf"
    using assms by (simp add: splice_def min_def)
  then show ?thesis by (simp add: slot_def take_drop add.commute)
qed

section \<open>Bounded quantifiers over positions\<close>

lemma all_from_Suc:
  assumes "i < (n::nat)"
  shows "(\<forall>j. i \<le> j \<and> j < n \<longrightarrow> P j) \<longleftrightarrow> P i \<and> (\<forall>j. i + 1 \<le> j \<and> j < n \<longrightarrow> P j)" (is "?L \<longleftrightarrow> ?R")
proof
  assume R: ?R
  show ?L
  proof (intro allI impI)
    fix j assume "i \<le> j \<and> j < n"
    then show "P j" using R by (cases "j = i") auto
  qed
qed (use assms in auto)

lemma all_pred_Suc:
  "(\<forall>i. Suc i < n \<longrightarrow> P i (Suc i)) \<longleftrightarrow> (\<forall>j. 1 \<le> j \<and> j < n \<longrightarrow> P (j - 1) j)" (is "?L \<longleftrightarrow> ?R")
proof
  assume L: ?L
  show ?R
  proof (intro allI impI)
    fix j assume "1 \<le> j \<and> j < n"
    then show "P (j - 1) j" using L [rule_format, of "j - 1"] by simp
  qed
next
  assume R: ?R
  show ?L
  proof (intro allI impI)
    fix i assume "Suc i < n"
    then show "P i (Suc i)" using R [rule_format, of "Suc i"] by simp
  qed
qed

end
