(* ===== verification/Set_Interface.thy ===== *)
theory Set_Interface
  imports Redis_Prelude
begin

text \<open>
  The interface of the containers that store a set: what a client of an integer set, of a hash
  table used as a set, or of a set object may rely on.  Every operation returns the updated
  container, because even a lookup in a hash table may move entries.  The laws hold below a
  capacity, which is where the sizes kept in the representation stop being exact.
\<close>

section \<open>Loops of the clients\<close>

text \<open>Adding (removing) the elements of a sequence one by one, counting how many were new (present).\<close>

fun add_all :: "('s \<Rightarrow> 'a \<Rightarrow> ('s \<times> bool) option) \<Rightarrow> 'a list \<Rightarrow> 's \<Rightarrow> nat \<Rightarrow> ('s \<times> nat) option" where
  "add_all add [] s n = Some (s, n)"
| "add_all add (x # xs) s n = do { (s', b) \<leftarrow> add s x; add_all add xs s' (if b then n + 1 else n) }"

fun remove_all :: "('s \<Rightarrow> 'a \<Rightarrow> ('s \<times> bool) option) \<Rightarrow> 'a list \<Rightarrow> 's \<Rightarrow> nat \<Rightarrow> ('s \<times> nat) option" where
  "remove_all remove [] s n = Some (s, n)"
| "remove_all remove (x # xs) s n = do { (s', b) \<leftarrow> remove s x; remove_all remove xs s' (if b then n - 1 else n) }"

text \<open>Adding elements that must all be new: a failed addition is a failed assertion.\<close>

fun add_all_new :: "('s \<Rightarrow> 'a \<Rightarrow> ('s \<times> bool) option) \<Rightarrow> 'a list \<Rightarrow> 's \<Rightarrow> 's option" where
  "add_all_new add [] s = Some s"
| "add_all_new add (x # xs) s = do { (s', b) \<leftarrow> add s x; require b; add_all_new add xs s' }"

text \<open>
  A client's session: any sequence of additions, removals and membership tests, with the list of
  their results, and the same session on a mathematical set.
\<close>

datatype 'a set_op = OpAdd 'a | OpRemove 'a | OpMember 'a

primrec op_arg :: "'a set_op \<Rightarrow> 'a" where
  "op_arg (OpAdd x) = x"
| "op_arg (OpRemove x) = x"
| "op_arg (OpMember x) = x"

fun run_op :: "('s \<Rightarrow> 'a \<Rightarrow> ('s \<times> bool) option) \<Rightarrow> ('s \<Rightarrow> 'a \<Rightarrow> ('s \<times> bool) option)
    \<Rightarrow> ('s \<Rightarrow> 'a \<Rightarrow> ('s \<times> bool) option) \<Rightarrow> 'a set_op \<Rightarrow> 's \<Rightarrow> ('s \<times> bool) option" where
  "run_op add remove member (OpAdd x) s = add s x"
| "run_op add remove member (OpRemove x) s = remove s x"
| "run_op add remove member (OpMember x) s = member s x"

fun run_ops :: "('s \<Rightarrow> 'a \<Rightarrow> ('s \<times> bool) option) \<Rightarrow> ('s \<Rightarrow> 'a \<Rightarrow> ('s \<times> bool) option)
    \<Rightarrow> ('s \<Rightarrow> 'a \<Rightarrow> ('s \<times> bool) option) \<Rightarrow> 'a set_op list \<Rightarrow> 's \<Rightarrow> ('s \<times> bool list) option" where
  "run_ops add remove member [] s = Some (s, [])"
| "run_ops add remove member (op # ops) s = do {
     (s', b) \<leftarrow> run_op add remove member op s;
     (s'', bs) \<leftarrow> run_ops add remove member ops s';
     Some (s'', b # bs)
   }"

fun spec_op :: "'a set_op \<Rightarrow> 'a set \<Rightarrow> 'a set \<times> bool" where
  "spec_op (OpAdd x) A = (insert x A, x \<notin> A)"
| "spec_op (OpRemove x) A = (A - {x}, x \<in> A)"
| "spec_op (OpMember x) A = (A, x \<in> A)"

fun spec_ops :: "'a set_op list \<Rightarrow> 'a set \<Rightarrow> 'a set \<times> bool list" where
  "spec_ops [] A = (A, [])"
| "spec_ops (op # ops) A = (let (A', b) = spec_op op A; (A'', bs) = spec_ops ops A' in (A'', b # bs))"

lemma spec_op_card: "finite A \<Longrightarrow> card (fst (spec_op op A)) \<le> Suc (card A)"
proof (cases op)
  case (OpAdd x)
  then show "finite A \<Longrightarrow> ?thesis" using card_insert_le_m1 [of "Suc (card A)" A x] by simp
next
  case (OpRemove x)
  then show ?thesis using card_Diff1_le [of A x] by simp
qed simp

section \<open>The interface\<close>

locale set_store =
  fixes inv :: "'s \<Rightarrow> bool" and elems :: "'s \<Rightarrow> 'a set" and ok :: "'a \<Rightarrow> bool" and cap :: nat
    and add :: "'s \<Rightarrow> 'a \<Rightarrow> ('s \<times> bool) option"
    and remove :: "'s \<Rightarrow> 'a \<Rightarrow> ('s \<times> bool) option"
    and member :: "'s \<Rightarrow> 'a \<Rightarrow> ('s \<times> bool) option"
  assumes finite_elems: "inv s \<Longrightarrow> finite (elems s)"
    and add_law: "inv s \<Longrightarrow> ok x \<Longrightarrow> card (elems s) < cap
      \<Longrightarrow> \<exists>s'. add s x = Some (s', x \<notin> elems s) \<and> inv s' \<and> elems s' = insert x (elems s)"
    and remove_law: "inv s \<Longrightarrow> ok x \<Longrightarrow> card (elems s) < cap
      \<Longrightarrow> \<exists>s'. remove s x = Some (s', x \<in> elems s) \<and> inv s' \<and> elems s' = elems s - {x}"
    and member_law: "inv s \<Longrightarrow> ok x \<Longrightarrow> card (elems s) < cap
      \<Longrightarrow> \<exists>s'. member s x = Some (s', x \<in> elems s) \<and> inv s' \<and> elems s' = elems s"
begin

lemma add_all_law:
  assumes "inv s" and "\<forall>x \<in> set xs. ok x" and "card (elems s \<union> set xs) < cap"
  shows "\<exists>s'. add_all add xs s n = Some (s', n + card (set xs - elems s)) \<and> inv s' \<and> elems s' = elems s \<union> set xs"
  using assms
proof (induction xs arbitrary: s n)
  case (Cons x xs)
  have fin: "finite (elems s)" using finite_elems [OF Cons.prems(1)] .
  then have "card (elems s) \<le> card (elems s \<union> set (x # xs))" by (intro card_mono) auto
  then obtain s1 where s1: "add s x = Some (s1, x \<notin> elems s)" "inv s1" "elems s1 = insert x (elems s)"
    using add_law [OF Cons.prems(1), of x] Cons.prems(2,3) by auto
  have "elems s1 \<union> set xs = elems s \<union> set (x # xs)" using s1(3) by auto
  then obtain s2 where s2: "add_all add xs s1 (if x \<notin> elems s then n + 1 else n)
        = Some (s2, (if x \<notin> elems s then n + 1 else n) + card (set xs - elems s1))"
      "inv s2" "elems s2 = elems s \<union> set (x # xs)"
    using Cons.IH [OF s1(2), of "if x \<notin> elems s then n + 1 else n"] Cons.prems(2,3) by auto
  have "(if x \<notin> elems s then n + 1 else n) + card (set xs - elems s1) = n + card (set (x # xs) - elems s)"
  proof (cases "x \<in> elems s")
    case True
    then have "set (x # xs) - elems s = set xs - elems s1" using s1(3) by auto
    then show ?thesis using True by simp
  next
    case False
    then have "set (x # xs) - elems s = insert x (set xs - elems s1)" "x \<notin> set xs - elems s1" using s1(3) by auto
    then show ?thesis using False by simp
  qed
  then show ?case using s1(1) s2 by simp
qed simp

lemma remove_all_law:
  assumes "inv s" and "\<forall>x \<in> set xs. ok x" and "card (elems s) < cap"
  shows "\<exists>s'. remove_all remove xs s (card (elems s)) = Some (s', card (elems s'))
     \<and> inv s' \<and> elems s' = elems s - set xs"
  using assms
proof (induction xs arbitrary: s)
  case (Cons x xs)
  have fin: "finite (elems s)" using finite_elems [OF Cons.prems(1)] .
  obtain s1 where s1: "remove s x = Some (s1, x \<in> elems s)" "inv s1" "elems s1 = elems s - {x}"
    using remove_law [OF Cons.prems(1), of x] Cons.prems(2,3) by auto
  have c: "(if x \<in> elems s then card (elems s) - 1 else card (elems s)) = card (elems s1)"
    using s1(3) fin by simp
  have "card (elems s1) \<le> card (elems s)" using s1(3) fin by (intro card_mono) auto
  then have "card (elems s1) < cap" using Cons.prems(3) by linarith
  then obtain s2 where "remove_all remove xs s1 (card (elems s1)) = Some (s2, card (elems s2))" "inv s2" "elems s2 = elems s1 - set xs"
    using Cons.IH [OF s1(2)] Cons.prems(2) by auto
  then show ?case using s1 c by auto
qed auto

lemma add_all_new_law:
  assumes "inv s" and "\<forall>x \<in> set xs. ok x" and "card (elems s \<union> set xs) < cap"
    and "distinct xs" and "set xs \<inter> elems s = {}"
  shows "\<exists>s'. add_all_new add xs s = Some s' \<and> inv s' \<and> elems s' = elems s \<union> set xs"
  using assms
proof (induction xs arbitrary: s)
  case (Cons x xs)
  have "card (elems s) \<le> card (elems s \<union> set (x # xs))" using finite_elems [OF Cons.prems(1)] by (intro card_mono) auto
  then obtain s1 where s1: "add s x = Some (s1, True)" "inv s1" "elems s1 = insert x (elems s)"
    using add_law [OF Cons.prems(1), of x] Cons.prems(2,3,5) by auto
  have "elems s1 \<union> set xs = elems s \<union> set (x # xs)" using s1(3) by auto
  then show ?case using Cons.IH [OF s1(2)] Cons.prems s1 by auto
qed simp

lemma run_op_law:
  assumes "inv s" and "ok (op_arg op)" and "card (elems s) < cap"
  shows "\<exists>s'. run_op add remove member op s = Some (s', snd (spec_op op (elems s)))
     \<and> inv s' \<and> elems s' = fst (spec_op op (elems s))"
  using add_law [OF assms(1)] remove_law [OF assms(1)] member_law [OF assms(1)] assms(2,3) by (cases op) auto

lemma run_ops_law:
  assumes "inv s" and "\<forall>op \<in> set ops. ok (op_arg op)" and "card (elems s) + length ops \<le> cap"
  shows "\<exists>s'. run_ops add remove member ops s = Some (s', snd (spec_ops ops (elems s)))
     \<and> inv s' \<and> elems s' = fst (spec_ops ops (elems s))"
  using assms
proof (induction ops arbitrary: s)
  case (Cons op ops)
  obtain s1 where s1: "run_op add remove member op s = Some (s1, snd (spec_op op (elems s)))"
      "inv s1" "elems s1 = fst (spec_op op (elems s))"
    using run_op_law [OF Cons.prems(1), of op] Cons.prems(2,3) by auto
  have "card (elems s1) \<le> Suc (card (elems s))" using s1(3) spec_op_card finite_elems [OF Cons.prems(1)] by simp
  then obtain s2 where "run_ops add remove member ops s1 = Some (s2, snd (spec_ops ops (elems s1)))"
      "inv s2" "elems s2 = fst (spec_ops ops (elems s1))"
    using Cons.IH [OF s1(2)] Cons.prems(2,3) by auto
  then show ?case using s1 by (auto simp: split_def Let_def)
qed simp

end

text \<open>A set one can also measure and iterate over.\<close>

locale set_object = set_store inv elems ok cap add remove member
  for inv :: "'s \<Rightarrow> bool" and elems :: "'s \<Rightarrow> 'a set" and ok :: "'a \<Rightarrow> bool" and cap :: nat
    and add :: "'s \<Rightarrow> 'a \<Rightarrow> ('s \<times> bool) option"
    and remove :: "'s \<Rightarrow> 'a \<Rightarrow> ('s \<times> bool) option"
    and member :: "'s \<Rightarrow> 'a \<Rightarrow> ('s \<times> bool) option" +
  fixes size_of :: "'s \<Rightarrow> nat" and elements :: "'s \<Rightarrow> 'a list option"
  assumes elems_ok: "inv s \<Longrightarrow> x \<in> elems s \<Longrightarrow> ok x"
    and size_law: "inv s \<Longrightarrow> size_of s = card (elems s)"
    and elements_law: "inv s \<Longrightarrow> \<exists>xs. elements s = Some xs \<and> distinct xs \<and> set xs = elems s"
begin

text \<open>
  Copying the elements of one object into another one of the same kind.\<close>

lemma add_elements_law:
  assumes "inv s" and "inv t" and "card (elems s \<union> elems t) < cap"
  shows "\<exists>xs s'. elements t = Some xs \<and> add_all add xs s n = Some (s', n + card (elems t - elems s))
     \<and> inv s' \<and> elems s' = elems s \<union> elems t"
proof -
  obtain xs where xs: "elements t = Some xs" "set xs = elems t" using elements_law [OF assms(2)] by blast
  then show ?thesis using add_all_law [OF assms(1), of xs n] elems_ok [OF assms(2)] assms(3) by auto
qed

lemma remove_elements_law:
  assumes "inv s" and "inv t" and "card (elems s) < cap"
  shows "\<exists>xs s'. elements t = Some xs \<and> remove_all remove xs s (card (elems s)) = Some (s', card (elems s'))
     \<and> inv s' \<and> elems s' = elems s - elems t"
proof -
  obtain xs where xs: "elements t = Some xs" "set xs = elems t" using elements_law [OF assms(2)] by blast
  then show ?thesis using remove_all_law [OF assms(1), of xs] elems_ok [OF assms(2)] assms(3) by auto
qed

end

end
