(* ===== verification/Intset.thy ===== *)
theory Intset
  imports Set_Interface
begin

text \<open>
  The integer set of \<open>src/redis-6.2.0/src/intset.c\<close>: a header with the encoding (the width in
  bytes of every element: 2, 4 or 8) and the element count, followed by the elements in increasing
  order, little endian.  \<open>is_contents\<close> is the flexible array member byte by byte, so the in-place
  upgrade of \<open>intsetUpgradeAndAdd\<close> and the overlapping \<open>memmove\<close> of \<open>intsetMoveTail\<close> act on the same
  bytes they act on in C.  \<open>uint32_t\<close> results are reduced modulo \<open>2 ^ 32\<close>.

  The lemmas show that every operation keeps the invariant \<open>intset_wf\<close> and acts on the abstract
  list \<open>intset_elems\<close> as insertion into, deletion from and search in a sorted list without duplicates.
\<close>

section \<open>Model\<close>

record intset =
  is_encoding :: nat
  is_length :: nat
  is_contents :: "byte list"

definition uint32 :: "nat \<Rightarrow> nat" where
  "uint32 n = n mod 4294967296"

definition INTSET_ENC_INT16 :: nat where "INTSET_ENC_INT16 = 2"
definition INTSET_ENC_INT32 :: nat where "INTSET_ENC_INT32 = 4"
definition INTSET_ENC_INT64 :: nat where "INTSET_ENC_INT64 = 8"

lemmas intset_encs = INTSET_ENC_INT16_def INTSET_ENC_INT32_def INTSET_ENC_INT64_def

definition intsetValueEncoding :: "int \<Rightarrow> nat" where
  "intsetValueEncoding v =
     (if v < INT32_MIN \<or> v > INT32_MAX then INTSET_ENC_INT64
      else if v < INT16_MIN \<or> v > INT16_MAX then INTSET_ENC_INT32
      else INTSET_ENC_INT16)"

definition intsetGetEncoded :: "intset \<Rightarrow> int \<Rightarrow> nat \<Rightarrow> int option" where
  "intsetGetEncoded is pos enc = do {
     require (0 \<le> pos);
     if enc = INTSET_ENC_INT64 then map_option le_sint (mem_read (is_contents is) (nat pos * 8) 8)
     else if enc = INTSET_ENC_INT32 then map_option le_sint (mem_read (is_contents is) (nat pos * 4) 4)
     else map_option le_sint (mem_read (is_contents is) (nat pos * 2) 2)
   }"

definition intsetGet_raw :: "intset \<Rightarrow> int \<Rightarrow> int option" where
  "intsetGet_raw is pos = intsetGetEncoded is pos (is_encoding is)"

definition intsetSet :: "intset \<Rightarrow> int \<Rightarrow> int \<Rightarrow> intset option" where
  "intsetSet is pos value = do {
     require (0 \<le> pos);
     buf \<leftarrow>
       (if is_encoding is = INTSET_ENC_INT64 then mem_write (is_contents is) (nat pos * 8) (le_bytes 8 value)
        else if is_encoding is = INTSET_ENC_INT32 then mem_write (is_contents is) (nat pos * 4) (le_bytes 4 value)
        else mem_write (is_contents is) (nat pos * 2) (le_bytes 2 value));
     Some (is\<lparr>is_contents := buf\<rparr>)
   }"

definition intsetNew :: intset where
  "intsetNew = \<lparr>is_encoding = INTSET_ENC_INT16, is_length = 0, is_contents = []\<rparr>"

definition intsetResize :: "(nat \<Rightarrow> byte) \<Rightarrow> intset \<Rightarrow> nat \<Rightarrow> intset" where
  "intsetResize fresh is len =
     (let size = uint32 (len * is_encoding is)
      in is\<lparr>is_contents := mem_resize fresh (is_contents is) size\<rparr>)"

partial_function (option) intsetSearch_loop ::
  "intset \<Rightarrow> int \<Rightarrow> int \<Rightarrow> int \<Rightarrow> int \<Rightarrow> int \<Rightarrow> (int \<times> int \<times> int) option" where
  "intsetSearch_loop is value lo hi mid cur =
     (if hi \<ge> lo then do {
        let mid' = ((lo + hi) mod 4294967296) div 2;
        cur' \<leftarrow> intsetGet_raw is mid';
        if value > cur' then intsetSearch_loop is value (mid' + 1) hi mid' cur'
        else if value < cur' then intsetSearch_loop is value lo (mid' - 1) mid' cur'
        else Some (lo, mid', cur')
      } else Some (lo, mid, cur))"

definition intsetSearch :: "intset \<Rightarrow> int \<Rightarrow> (bool \<times> nat) option" where
  "intsetSearch is value =
     (let hi = int (is_length is) - 1 in
      if is_length is = 0 then Some (False, 0)
      else do {
        last \<leftarrow> intsetGet_raw is hi;
        if value > last then Some (False, is_length is)
        else do {
          first \<leftarrow> intsetGet_raw is 0;
          if value < first then Some (False, 0)
          else do {
            (lo, mid, cur) \<leftarrow> intsetSearch_loop is value 0 hi (-1) (-1);
            if value = cur then Some (True, nat mid) else Some (False, nat lo)
          }
        }
      })"

primrec intsetUpgrade_loop :: "nat \<Rightarrow> nat \<Rightarrow> nat \<Rightarrow> intset \<Rightarrow> intset option" where
  "intsetUpgrade_loop 0 prepend curenc is = Some is"
| "intsetUpgrade_loop (Suc len) prepend curenc is = do {
     v \<leftarrow> intsetGetEncoded is (int len) curenc;
     is' \<leftarrow> intsetSet is (int (len + prepend)) v;
     intsetUpgrade_loop len prepend curenc is'
   }"

definition intsetUpgradeAndAdd :: "(nat \<Rightarrow> byte) \<Rightarrow> intset \<Rightarrow> int \<Rightarrow> intset option" where
  "intsetUpgradeAndAdd fresh is value =
     (let curenc = is_encoding is;
          newenc = intsetValueEncoding value;
          len = is_length is;
          prepend = (if value < 0 then 1 else 0);
          is1 = is\<lparr>is_encoding := newenc\<rparr>;
          is2 = intsetResize fresh is1 (uint32 (is_length is1 + 1))
      in do {
        is3 \<leftarrow> intsetUpgrade_loop len prepend curenc is2;
        is4 \<leftarrow> (if prepend \<noteq> 0 then intsetSet is3 0 value
                else intsetSet is3 (int (is_length is3)) value);
        Some (is4\<lparr>is_length := uint32 (is_length is4 + 1)\<rparr>)
      })"

definition intsetMoveTail :: "intset \<Rightarrow> nat \<Rightarrow> nat \<Rightarrow> intset option" where
  "intsetMoveTail is from to =
     (let elems = (is_length is + 4294967296 - from) mod 4294967296;
          w = (if is_encoding is = INTSET_ENC_INT64 then 8
               else if is_encoding is = INTSET_ENC_INT32 then 4 else 2);
          bytes = uint32 (elems * w)
      in do {
        buf \<leftarrow> mem_move (is_contents is) (to * w) (from * w) bytes;
        Some (is\<lparr>is_contents := buf\<rparr>)
      })"

definition intsetAdd :: "(nat \<Rightarrow> byte) \<Rightarrow> intset \<Rightarrow> int \<Rightarrow> (intset \<times> bool) option" where
  "intsetAdd fresh is value =
     (let valenc = intsetValueEncoding value in
      if valenc > is_encoding is
      then map_option (\<lambda>is'. (is', True)) (intsetUpgradeAndAdd fresh is value)
      else do {
        (found, pos) \<leftarrow> intsetSearch is value;
        if found then Some (is, False)
        else do {
          let is1 = intsetResize fresh is (uint32 (is_length is + 1));
          is2 \<leftarrow> (if pos < is_length is1 then intsetMoveTail is1 pos (pos + 1) else Some is1);
          is3 \<leftarrow> intsetSet is2 (int pos) value;
          Some (is3\<lparr>is_length := uint32 (is_length is3 + 1)\<rparr>, True)
        }
      })"

definition intsetRemove :: "(nat \<Rightarrow> byte) \<Rightarrow> intset \<Rightarrow> int \<Rightarrow> (intset \<times> bool) option" where
  "intsetRemove fresh is value =
     (let valenc = intsetValueEncoding value in
      if valenc \<le> is_encoding is then do {
        (found, pos) \<leftarrow> intsetSearch is value;
        if found then do {
          let len = is_length is;
          is1 \<leftarrow> (if pos < len - 1 then intsetMoveTail is (pos + 1) pos else Some is);
          let is2 = intsetResize fresh is1 (len - 1);
          Some (is2\<lparr>is_length := len - 1\<rparr>, True)
        } else Some (is, False)
      } else Some (is, False))"

definition intsetFind :: "intset \<Rightarrow> int \<Rightarrow> bool option" where
  "intsetFind is value =
     (if intsetValueEncoding value \<le> is_encoding is
      then map_option fst (intsetSearch is value) else Some False)"

definition intsetRandom :: "intset \<Rightarrow> nat \<Rightarrow> int option" where
  "intsetRandom is rand = do {
     require (is_length is \<noteq> 0);
     intsetGet_raw is (int (rand mod is_length is))
   }"

definition intsetGet :: "intset \<Rightarrow> nat \<Rightarrow> int option option" where
  "intsetGet is pos =
     (if pos < is_length is then map_option Some (intsetGet_raw is (int pos)) else Some None)"

definition intsetLen :: "intset \<Rightarrow> nat" where
  "intsetLen is = is_length is"

definition intsetBlobLen :: "intset \<Rightarrow> nat" where
  "intsetBlobLen is = 8 + uint32 (is_length is * is_encoding is)"

text \<open>
  \<open>intsetValidateIntegrity\<close> is handed \<open>size\<close> bytes at \<open>p\<close>; \<open>intset_of_blob\<close> is the cast of \<open>p\<close> to
  \<open>intset *\<close>.
\<close>

definition intset_of_blob :: "byte list \<Rightarrow> intset" where
  "intset_of_blob p =
     \<lparr>is_encoding = nat (le_uint (take 4 p)), is_length = nat (le_uint (take 4 (drop 4 p))),
      is_contents = drop 8 p\<rparr>"

function intsetValidate_loop :: "intset \<Rightarrow> nat \<Rightarrow> nat \<Rightarrow> int \<Rightarrow> bool option" where
  "intsetValidate_loop is i count prev =
     (if i < count then
        (case intsetGet_raw is (int i) of None \<Rightarrow> None
         | Some cur \<Rightarrow> if cur \<le> prev then Some False else intsetValidate_loop is (i + 1) count cur)
      else Some True)"
  by pat_completeness auto
termination
  by (relation "measure (\<lambda>(is, i, count, prev). count - i)") auto

definition intsetValidateIntegrity :: "byte list \<Rightarrow> bool \<Rightarrow> bool option" where
  "intsetValidateIntegrity p deep =
     (if length p < 8 then Some False
      else let is = intset_of_blob p; encoding = is_encoding is in
        if encoding \<noteq> INTSET_ENC_INT64 \<and> encoding \<noteq> INTSET_ENC_INT32 \<and> encoding \<noteq> INTSET_ENC_INT16
        then Some False
        else let count = is_length is in
          if 8 + count * encoding \<noteq> length p then Some False
          else if count = 0 then Some False
          else if \<not> deep then Some True
          else do { prev \<leftarrow> intsetGet_raw is 0; intsetValidate_loop is 1 count prev })"

declare intsetValidate_loop.simps [simp del]

section \<open>Abstraction and invariant\<close>

definition intset_elems :: "intset \<Rightarrow> int list" where
  "intset_elems is = map (\<lambda>i. le_sint (slot (is_encoding is) (is_contents is) i)) [0..<is_length is]"

definition enc_ok :: "nat \<Rightarrow> bool" where
  "enc_ok w \<longleftrightarrow> w = 2 \<or> w = 4 \<or> w = 8"

definition intset_wf :: "intset \<Rightarrow> bool" where
  "intset_wf is \<longleftrightarrow> enc_ok (is_encoding is)
     \<and> length (is_contents is) = is_length is * is_encoding is
     \<and> sorted_wrt (<) (intset_elems is)"

text \<open>One more element can be stored at any width without \<open>uint32_t\<close> wrap-around.\<close>

definition intset_room :: "intset \<Rightarrow> bool" where
  "intset_room is \<longleftrightarrow> (is_length is + 1) * 8 < 4294967296"

definition enc_range :: "nat \<Rightarrow> int \<Rightarrow> bool" where
  "enc_range w v \<longleftrightarrow> - (256 ^ w) \<le> 2 * v \<and> 2 * v < 256 ^ w"

lemma length_intset_elems [simp]: "length (intset_elems is) = is_length is"
  by (simp add: intset_elems_def)

lemma nth_intset_elems [simp]:
  "i < is_length is \<Longrightarrow> intset_elems is ! i = le_sint (slot (is_encoding is) (is_contents is) i)"
  by (simp add: intset_elems_def)

lemma enc_range_iff:
  "int64 v \<Longrightarrow> enc_ok w \<Longrightarrow> enc_range w v \<longleftrightarrow> intsetValueEncoding v \<le> w"
  by (auto simp: enc_ok_def enc_range_def intsetValueEncoding_def intset_encs int64_def)

lemma enc_range_mono:
  assumes "enc_range w v" and "w \<le> w'" shows "enc_range w' v"
proof -
  have "(256::int) ^ w \<le> 256 ^ w'" using \<open>w \<le> w'\<close> by (simp add: power_increasing)
  then show ?thesis using assms(1) unfolding enc_range_def by linarith
qed

lemma enc_range_le_sint: "enc_range (length bs) (le_sint bs)"
  using le_sint_bounds [of bs] by (simp add: enc_range_def)

lemma enc_ok_valueEncoding [simp]: "enc_ok (intsetValueEncoding v)"
  by (simp add: enc_ok_def intsetValueEncoding_def intset_encs)

lemma le_sint_enc: "enc_range w v \<Longrightarrow> le_sint (le_bytes w v) = v"
  by (simp add: enc_range_def le_sint_le_bytes)

lemma intsetGetEncoded_eq:
  "enc_ok w \<Longrightarrow> intsetGetEncoded is (int p) w = map_option le_sint (mem_read (is_contents is) (p * w) w)"
  by (auto simp: intsetGetEncoded_def enc_ok_def intset_encs)

lemma intsetGetEncoded_slot:
  assumes "enc_ok w" and "p < n" and "n * w \<le> length (is_contents is)"
  shows "intsetGetEncoded is (int p) w = Some (le_sint (slot w (is_contents is) p))"
  using assms slot_in_range [of p n w] by (simp add: intsetGetEncoded_eq mem_read_ok slot_def)

lemma intsetSet_splice:
  assumes "enc_ok (is_encoding is)" and "p < n" and "n * is_encoding is \<le> length (is_contents is)"
  shows "intsetSet is (int p) v = Some (is\<lparr>is_contents :=
           splice (is_contents is) (p * is_encoding is) (le_bytes (is_encoding is) v)\<rparr>)"
  using assms slot_in_range [of p n "is_encoding is"]
  by (auto simp: intsetSet_def enc_ok_def intset_encs mem_write_ok splice_def)

lemma intsetGet_raw_wf:
  assumes "intset_wf is" and "i < is_length is"
  shows "intsetGet_raw is (int i) = Some (intset_elems is ! i)"
  using assms unfolding intsetGet_raw_def
  by (subst intsetGetEncoded_slot [where n = "is_length is"]) (auto simp: intset_wf_def)

lemma intset_elems_range:
  assumes "intset_wf is" and "v \<in> set (intset_elems is)"
  shows "enc_range (is_encoding is) v"
proof -
  obtain i where i: "i < is_length is" and v: "v = le_sint (slot (is_encoding is) (is_contents is) i)"
    using assms(2) by (auto simp: intset_elems_def)
  have "length (slot (is_encoding is) (is_contents is) i) = is_encoding is"
    using assms(1) i by (simp add: intset_wf_def length_slot [of i "is_length is"])
  then show ?thesis using enc_range_le_sint v by metis
qed

section \<open>Search\<close>

text \<open>\<open>split_at v xs p\<close>: position \<open>p\<close> separates the elements below \<open>v\<close> from those above it.\<close>

definition split_at :: "int \<Rightarrow> int list \<Rightarrow> nat \<Rightarrow> bool" where
  "split_at v xs p \<longleftrightarrow> p \<le> length xs \<and> (\<forall>i < p. xs ! i < v) \<and> (\<forall>i. p \<le> i \<and> i < length xs \<longrightarrow> v < xs ! i)"

definition search_result :: "int list \<Rightarrow> int \<Rightarrow> bool \<times> nat \<Rightarrow> bool" where
  "search_result xs v r \<longleftrightarrow>
     (if fst r then snd r < length xs \<and> xs ! snd r = v else split_at v xs (snd r))"

lemma sorted_wrt_less_nth: "sorted_wrt (<) xs \<Longrightarrow> i < j \<Longrightarrow> j < length xs \<Longrightarrow> xs ! i < xs ! (j::nat)"
  by (rule sorted_wrt_nth_less)

lemma split_at_notin: "split_at v xs p \<Longrightarrow> v \<notin> set xs"
  by (auto simp: split_at_def in_set_conv_nth) (metis less_irrefl not_le)

lemma intsetSearch_loop_correct:
  assumes wf: "intset_wf is" and small: "is_length is \<le> 2147483648"
    and "0 \<le> lo" and "hi < int (is_length is)" and "lo \<le> hi + 1" and "lo \<le> hi \<or> cur \<noteq> v"
    and below: "\<And>i. int i < lo \<Longrightarrow> intset_elems is ! i < v"
    and above: "\<And>i. hi < int i \<Longrightarrow> i < is_length is \<Longrightarrow> v < intset_elems is ! i"
  shows "\<exists>lo' mid' cur'. intsetSearch_loop is v lo hi mid cur = Some (lo', mid', cur')
     \<and> search_result (intset_elems is) v (if v = cur' then (True, nat mid') else (False, nat lo'))"
  using assms(3-)
proof (induction "nat (hi + 1 - lo)" arbitrary: lo hi mid cur rule: less_induct)
  case less
  let ?xs = "intset_elems is"
  show ?case
  proof (cases "lo \<le> hi")
    case False
    then have hi: "hi = lo - 1" using less.prems(3) by simp
    then have "split_at v ?xs (nat lo)"
      using less.prems by (auto simp: split_at_def)
    then show ?thesis using False less.prems(4)
      by (subst intsetSearch_loop.simps) (simp add: search_result_def)
  next
    case True
    define m where "m = (lo + hi) div 2"
    have m: "lo \<le> m" "m \<le> hi" using True by (auto simp: m_def)
    have "(lo + hi) mod 4294967296 = lo + hi"
      using less.prems(1,2) True small by (intro mod_pos_pos_trivial) auto
    then have mid: "((lo + hi) mod 4294967296) div 2 = m" by (simp add: m_def)
    have mn: "nat m < is_length is" "int (nat m) = m" using m less.prems(1,2) by auto
    define c where "c = ?xs ! nat m"
    have get: "intsetGet_raw is m = Some c"
      using intsetGet_raw_wf [OF wf mn(1)] mn(2) by (simp add: c_def)
    have sorted: "sorted_wrt (<) ?xs" using wf by (simp add: intset_wf_def)
    consider "c < v" | "v < c" | "v = c" by linarith
    then show ?thesis
    proof cases
      case 1
      have "?xs ! i < v" if "int i < m + 1" for i
      proof (cases "i = nat m")
        case False
        then have "?xs ! i < c" unfolding c_def
          using that mn by (intro sorted_wrt_less_nth [OF sorted]) auto
        then show ?thesis using 1 by simp
      qed (use 1 c_def in simp)
      then have "\<exists>lo' mid' cur'. intsetSearch_loop is v (m + 1) hi m c = Some (lo', mid', cur')
          \<and> search_result ?xs v (if v = cur' then (True, nat mid') else (False, nat lo'))"
        using less.prems m 1 by (intro less.hyps) auto
      then show ?thesis using True 1 by (subst intsetSearch_loop.simps) (simp add: mid get)
    next
      case 2
      have "v < ?xs ! i" if "m - 1 < int i" "i < is_length is" for i
      proof (cases "i = nat m")
        case False
        then have "c < ?xs ! i" unfolding c_def
          using that mn by (intro sorted_wrt_less_nth [OF sorted]) auto
        then show ?thesis using 2 by simp
      qed (use 2 c_def in simp)
      then have "\<exists>lo' mid' cur'. intsetSearch_loop is v lo (m - 1) m c = Some (lo', mid', cur')
          \<and> search_result ?xs v (if v = cur' then (True, nat mid') else (False, nat lo'))"
        using less.prems m 2 by (intro less.hyps) auto
      then show ?thesis using True 2 by (subst intsetSearch_loop.simps) (simp add: mid get)
    next
      case 3
      then show ?thesis using True mn
        by (subst intsetSearch_loop.simps) (simp add: mid get search_result_def c_def [symmetric])
    qed
  qed
qed

lemma intsetSearch_ex:
  assumes wf: "intset_wf is" and small: "is_length is \<le> 2147483648"
  shows "\<exists>r. intsetSearch is v = Some r \<and> search_result (intset_elems is) v r"
proof (cases "is_length is = 0")
  case True
  then show ?thesis
    by (simp add: intsetSearch_def search_result_def split_at_def)
next
  case False
  let ?xs = "intset_elems is" and ?n = "is_length is"
  have sorted: "sorted_wrt (<) ?xs" using wf by (simp add: intset_wf_def)
  have last: "intsetGet_raw is (int ?n - 1) = Some (?xs ! (?n - 1))"
    using intsetGet_raw_wf [OF wf, of "?n - 1"] False by (simp add: of_nat_diff)
  have first: "intsetGet_raw is 0 = Some (?xs ! 0)"
    using intsetGet_raw_wf [OF wf, of 0] False by simp
  have le_last: "?xs ! i \<le> ?xs ! (?n - 1)" if "i < ?n" for i
    using sorted_wrt_less_nth [OF sorted, of i "?n - 1"] that
    by (cases "i < ?n - 1") (auto simp: le_less not_less_eq less_Suc_eq simp del: nth_intset_elems
        intro!: arg_cong [of _ _ "nth ?xs"])
  have ge_first: "?xs ! 0 \<le> ?xs ! i" if "i < ?n" for i
    using sorted_wrt_less_nth [OF sorted, of 0 i] that
    by (cases "i = 0") (auto simp del: nth_intset_elems)
  consider "v > ?xs ! (?n - 1)" | "v \<le> ?xs ! (?n - 1)" "v < ?xs ! 0"
    | "v \<le> ?xs ! (?n - 1)" "?xs ! 0 \<le> v" by linarith
  then show ?thesis
  proof cases
    case 1
    then have "split_at v ?xs ?n" using le_last by (force simp: split_at_def simp del: nth_intset_elems)
    then show ?thesis using 1 False last by (simp add: intsetSearch_def search_result_def del: nth_intset_elems)
  next
    case 2
    then have "split_at v ?xs 0" using ge_first by (force simp: split_at_def simp del: nth_intset_elems)
    then show ?thesis using 2 False last first
      by (simp add: intsetSearch_def search_result_def del: nth_intset_elems)
  next
    case 3
    have "\<exists>lo' mid' cur'. intsetSearch_loop is v 0 (int ?n - 1) (-1) (-1) = Some (lo', mid', cur')
     \<and> search_result ?xs v (if v = cur' then (True, nat mid') else (False, nat lo'))"
      using False by (intro intsetSearch_loop_correct [OF wf small]) auto
    then obtain lo' mid' cur' where
        "intsetSearch_loop is v 0 (int ?n - 1) (-1) (-1) = Some (lo', mid', cur')"
      and "search_result ?xs v (if v = cur' then (True, nat mid') else (False, nat lo'))"
      by blast
    then show ?thesis using 3 False last first
      by (intro exI [of _ "if v = cur' then (True, nat mid') else (False, nat lo')"])
        (simp add: intsetSearch_def del: nth_intset_elems)
  qed
qed

section \<open>Insertion and removal\<close>

text \<open>
  The abstract effect of an insertion or a deletion at a position found by the search.\<close>

lemma split_at_sorted:
  assumes "sorted_wrt (<) xs" and "split_at v xs p"
  shows "sorted_wrt (<) (take p xs @ v # drop p xs)"
proof -
  have "\<forall>x \<in> set (take p xs). x < v" and "\<forall>x \<in> set (drop p xs). v < x"
    using assms(2) by (auto simp: split_at_def in_set_conv_nth)
  moreover have "sorted_wrt (<) (take p xs @ drop p xs)" using assms(1) by simp
  ultimately show ?thesis unfolding sorted_wrt_append by force
qed

lemma set_take_drop_insert: "p \<le> length xs \<Longrightarrow> set (take p xs @ v # drop p xs) = insert v (set xs)"
  using set_append [of "take p xs" "drop p xs"] by auto

lemma sorted_delete_nth:
  assumes "sorted_wrt (<) xs" and "p < length (xs :: int list)"
  shows "sorted_wrt (<) (take p xs @ drop (Suc p) xs)"
    and "set (take p xs @ drop (Suc p) xs) = set xs - {xs ! p}"
proof -
  have xs: "xs = take p xs @ xs ! p # drop (Suc p) xs"
    using assms(2) by (rule id_take_nth_drop)
  have "sorted_wrt (<) (take p xs @ xs ! p # drop (Suc p) xs)" using assms(1) xs by simp
  then have "sorted_wrt (<) (take p xs @ drop (Suc p) xs)"
    and "xs ! p \<notin> set (take p xs @ drop (Suc p) xs)"
    by (auto simp: sorted_wrt_append)
  moreover have "set xs = insert (xs ! p) (set (take p xs @ drop (Suc p) xs))"
    by (subst xs) auto
  ultimately show "sorted_wrt (<) (take p xs @ drop (Suc p) xs)"
    and "set (take p xs @ drop (Suc p) xs) = set xs - {xs ! p}" by auto
qed

lemma intset_elems_eqI:
  assumes "is_length is = length xs"
    and "\<And>i. i < length xs \<Longrightarrow> le_sint (slot (is_encoding is) (is_contents is) i) = xs ! i"
  shows "intset_elems is = xs"
  using assms by (intro nth_equalityI) auto

lemma intsetMoveTail_splice:
  assumes "enc_ok (is_encoding is)" and "from \<le> is_length is" and "is_length is * 8 < 4294967296"
    and "is_length is * is_encoding is \<le> length (is_contents is)"
    and "(to + (is_length is - from)) * is_encoding is \<le> length (is_contents is)"
  shows "intsetMoveTail is from to = Some (is\<lparr>is_contents := splice (is_contents is) (to * is_encoding is)
      (take ((is_length is - from) * is_encoding is) (drop (from * is_encoding is) (is_contents is)))\<rparr>)"
proof -
  let ?w = "is_encoding is" and ?k = "is_length is - from"
  have w: "(if ?w = INTSET_ENC_INT64 then 8 else if ?w = INTSET_ENC_INT32 then 4 else 2) = ?w"
    using assms(1) by (auto simp: enc_ok_def intset_encs)
  have "is_length is + 4294967296 - from = ?k + 4294967296" and "?k < 4294967296"
    using assms(2,3) by linarith+
  then have "(is_length is + 4294967296 - from) mod 4294967296 = ?k"
    by (simp only: mod_add_self2 mod_less)
  moreover have "?k * ?w \<le> is_length is * 8"
    using assms(1) by (intro mult_le_mono) (auto simp: enc_ok_def)
  then have "uint32 (?k * ?w) = ?k * ?w"
    using assms(3) by (simp add: uint32_def)
  moreover have src: "from * ?w + ?k * ?w \<le> length (is_contents is)"
    using assms(2,4) by (simp add: add_mult_distrib [symmetric])
  moreover have "to * ?w + ?k * ?w \<le> length (is_contents is)"
    using assms(5) by (simp add: add_mult_distrib)
  ultimately show ?thesis
    by (simp add: intsetMoveTail_def Let_def w mem_move_ok splice_def)
qed

lemma intset_insert_at:
  assumes wf: "intset_wf is" and room: "intset_room is"
    and v: "enc_range (is_encoding is) v" and p: "split_at v (intset_elems is) p"
  shows "\<exists>is'. do {
          let is1 = intsetResize fresh is (uint32 (is_length is + 1));
          is2 \<leftarrow> (if p < is_length is1 then intsetMoveTail is1 p (p + 1) else Some is1);
          is3 \<leftarrow> intsetSet is2 (int p) v;
          Some (is3\<lparr>is_length := uint32 (is_length is3 + 1)\<rparr>, True)
        } = Some (is', True) \<and> is_encoding is' = is_encoding is
        \<and> length (is_contents is') = is_length is' * is_encoding is'
        \<and> intset_elems is' = take p (intset_elems is) @ v # drop p (intset_elems is)"
proof -
  let ?w = "is_encoding is" and ?n = "is_length is" and ?xs = "intset_elems is"
  have w: "enc_ok ?w" and len: "length (is_contents is) = ?n * ?w"
    using wf by (auto simp: intset_wf_def)
  have pn: "p \<le> ?n" using p by (simp add: split_at_def)
  have "(?n + 1) * ?w \<le> (?n + 1) * 8" using w by (auto simp: enc_ok_def)
  with room have sz: "uint32 (uint32 (?n + 1) * ?w) = (?n + 1) * ?w" and n1: "uint32 (?n + 1) = ?n + 1"
    by (auto simp: intset_room_def uint32_def)
  define b1 where "b1 = mem_resize fresh (is_contents is) ((?n + 1) * ?w)"
  have b1: "length b1 = (?n + 1) * ?w" by (simp add: b1_def)
  have slot1: "slot ?w b1 i = slot ?w (is_contents is) i" if "i < ?n" for i
    unfolding b1_def using that len by (intro slot_mem_resize [of _ ?n]) auto
  have is1: "intsetResize fresh is (uint32 (?n + 1)) = is\<lparr>is_contents := b1\<rparr>"
    by (simp only: intsetResize_def sz b1_def Let_def)
  define tl where "tl = take ((?n - p) * ?w) (drop (p * ?w) b1)"
  have "p * ?w + (?n - p) * ?w \<le> (?n + 1) * ?w" using pn by (simp add: add_mult_distrib [symmetric])
  then have ltl: "length tl = (?n - p) * ?w" using b1 by (simp add: tl_def)
  define b2 where "b2 = splice b1 ((p + 1) * ?w) tl"
  have "(p + 1) * ?w + (?n - p) * ?w \<le> (?n + 1) * ?w" using pn by (simp add: add_mult_distrib [symmetric])
  then have b2: "length b2 = (?n + 1) * ?w" unfolding b2_def using b1 ltl by (subst length_splice) auto
  have move: "(if p < ?n then intsetMoveTail (is\<lparr>is_contents := b1\<rparr>) p (p + 1) else Some (is\<lparr>is_contents := b1\<rparr>))
      = Some (is\<lparr>is_contents := b2\<rparr>)"
  proof (cases "p < ?n")
    case True
    then show ?thesis using w room b1
      by (subst intsetMoveTail_splice) (auto simp: intset_room_def b2_def tl_def)
  next
    case False
    then have "b2 = b1" using ltl pn by (simp add: b2_def splice_def tl_def)
    with False show ?thesis by simp
  qed
  define b3 where "b3 = splice b2 (p * ?w) (le_bytes ?w v)"
  have set: "intsetSet (is\<lparr>is_contents := b2\<rparr>) (int p) v = Some (is\<lparr>is_contents := b3\<rparr>)"
    using w pn b2 by (subst intsetSet_splice [where n = "?n + 1"]) (auto simp: b3_def)
  have b3: "length b3 = (?n + 1) * ?w"
    unfolding b3_def using b2 slot_in_range [of p "?n + 1" ?w] pn by (subst length_splice) auto
  have slot3: "slot ?w b3 i = (if i = p then le_bytes ?w v
      else if i < p then slot ?w (is_contents is) i else slot ?w (is_contents is) (i - 1))" if i: "i \<le> ?n" for i
  proof -
    have "slot ?w b3 i = (if i = p then le_bytes ?w v else slot ?w b2 i)"
      unfolding b3_def using slot_splice [of "?n + 1" ?w b2 "le_bytes ?w v" 1 p i] b2 pn i by auto
    moreover have "slot ?w b2 i = (if p < i then slot ?w tl (i - (p + 1)) else slot ?w b1 i)"
      unfolding b2_def using slot_splice [of "?n + 1" ?w b1 tl "?n - p" "p + 1" i] b1 ltl pn i by auto
    moreover have "p < i \<Longrightarrow> slot ?w tl (i - (p + 1)) = slot ?w b1 (i - 1)"
      unfolding tl_def using slot_take_drop [of p "?n - p" "?n + 1" ?w b1 "i - (p + 1)"] b1 pn i by auto
    ultimately show ?thesis using slot1 pn i by auto
  qed
  define is' where "is' = is\<lparr>is_contents := b3, is_length := ?n + 1\<rparr>"
  have "intset_elems is' = take p ?xs @ v # drop p ?xs"
  proof (rule intset_elems_eqI)
    show "is_length is' = length (take p ?xs @ v # drop p ?xs)" using pn by (simp add: is'_def)
    fix i assume "i < length (take p ?xs @ v # drop p ?xs)"
    then have i: "i \<le> ?n" using pn by simp
    show "le_sint (slot (is_encoding is') (is_contents is') i) = (take p ?xs @ v # drop p ?xs) ! i"
      using slot3 [OF i] pn i v by (auto simp: is'_def le_sint_enc nth_append nth_Cons' min_def)
  qed
  then show ?thesis using is1 move set b3 n1
    by (intro exI [of _ is']) (simp add: is'_def)
qed

text \<open>
  The upgrade loop reads element \<open>i\<close> at the old width and writes it back at the new one, from the
  last element down, in the same buffer: what is still unread is never overwritten.
\<close>

lemma intsetUpgrade_loop_correct:
  assumes "enc_ok cur" and "enc_ok (is_encoding is)" and "cur \<le> is_encoding is"
    and "n + prepend \<le> N" and "N * is_encoding is \<le> length (is_contents is)"
  shows "\<exists>buf. intsetUpgrade_loop n prepend cur is = Some (is\<lparr>is_contents := buf\<rparr>)
     \<and> length buf = length (is_contents is)
     \<and> (\<forall>i < n. le_sint (slot (is_encoding is) buf (i + prepend)) = le_sint (slot cur (is_contents is) i))
     \<and> (\<forall>j < N. n + prepend \<le> j \<longrightarrow> slot (is_encoding is) buf j = slot (is_encoding is) (is_contents is) j)"
  using assms(4,5) assms(2,3)
proof (induction n arbitrary: "is")
  case 0
  then show ?case by (auto intro!: exI [of _ "is_contents is"])
next
  case (Suc n)
  let ?w = "is_encoding is" and ?b = "is_contents is"
  have le: "Suc n * cur \<le> N * ?w" using Suc.prems by (intro mult_le_mono) auto
  define v where "v = le_sint (slot cur ?b n)"
  have get: "intsetGetEncoded is (int n) cur = Some v"
    unfolding v_def using le Suc.prems assms(1) by (intro intsetGetEncoded_slot [where n = "Suc n"]) auto
  define b1 where "b1 = splice ?b ((n + prepend) * ?w) (le_bytes ?w v)"
  have set: "intsetSet is (int (n + prepend)) v = Some (is\<lparr>is_contents := b1\<rparr>)"
    unfolding b1_def using Suc.prems by (intro intsetSet_splice [where n = N]) auto
  have fits: "(n + prepend) * ?w + ?w \<le> length ?b"
    using slot_in_range [of "n + prepend" N ?w] Suc.prems by auto
  then have b1: "length b1 = length ?b" unfolding b1_def by (subst length_splice) auto
  have "length (slot cur ?b n) = cur" using le Suc.prems by (intro length_slot [of _ "Suc n"]) auto
  then have "enc_range ?w v" unfolding v_def
    using enc_range_le_sint [of "slot cur ?b n"] enc_range_mono Suc.prems by simp
  then have rd: "le_sint (le_bytes ?w v) = v" by (rule le_sint_enc)
  have new: "slot ?w b1 j = (if j = n + prepend then le_bytes ?w v else slot ?w ?b j)" if "j < N" for j
    unfolding b1_def using slot_splice [of N ?w ?b "le_bytes ?w v" 1 "n + prepend" j] that Suc.prems by auto
  have old: "slot cur b1 i = slot cur ?b i" if "i < n" for i
    unfolding b1_def
  proof (rule slot_splice_below)
    have "i * cur + cur \<le> n * cur" using slot_in_range [OF that] .
    also have "\<dots> \<le> (n + prepend) * ?w" using Suc.prems by (intro mult_le_mono) auto
    finally show "i * cur + cur \<le> (n + prepend) * ?w" .
  qed (use fits in simp)
  obtain buf where buf: "intsetUpgrade_loop n prepend cur (is\<lparr>is_contents := b1\<rparr>) = Some (is\<lparr>is_contents := buf\<rparr>)"
    and "length buf = length b1"
    and lo: "\<forall>i < n. le_sint (slot ?w buf (i + prepend)) = le_sint (slot cur b1 i)"
    and hi: "\<forall>j < N. n + prepend \<le> j \<longrightarrow> slot ?w buf j = slot ?w b1 j"
    using Suc.IH [of "is\<lparr>is_contents := b1\<rparr>"] Suc.prems b1 by auto
  have "le_sint (slot ?w buf (i + prepend)) = le_sint (slot cur ?b i)" if "i < Suc n" for i
  proof (cases "i = n")
    case True
    then show ?thesis using hi new rd Suc.prems by (simp add: v_def)
  qed (use that lo old in auto)
  then show ?case using get set buf b1 \<open>length buf = length b1\<close> hi new
    by (intro exI [of _ buf]) auto
qed

lemma intsetUpgradeAndAdd_correct:
  assumes wf: "intset_wf is" and room: "intset_room is" and v: "int64 v"
    and up: "is_encoding is < intsetValueEncoding v"
  shows "\<exists>is'. intsetUpgradeAndAdd fresh is v = Some is'
     \<and> is_encoding is' = intsetValueEncoding v
     \<and> length (is_contents is') = is_length is' * is_encoding is'
     \<and> intset_elems is' = (if v < 0 then v # intset_elems is else intset_elems is @ [v])"
proof -
  let ?w = "intsetValueEncoding v" and ?n = "is_length is" and ?c = "is_encoding is" and ?xs = "intset_elems is"
  define pre :: nat where "pre = (if v < 0 then 1 else 0)"
  then have pre: "pre \<le> 1" by simp
  have c: "enc_ok ?c" and len: "length (is_contents is) = ?n * ?c" using wf by (auto simp: intset_wf_def)
  have "(?n + 1) * ?w \<le> (?n + 1) * 8"
    using enc_ok_valueEncoding [of v] unfolding enc_ok_def by (intro mult_le_mono) auto
  with room have sz: "uint32 (uint32 (?n + 1) * ?w) = (?n + 1) * ?w" and n1: "uint32 (?n + 1) = ?n + 1"
    by (auto simp: intset_room_def uint32_def)
  define b1 where "b1 = mem_resize fresh (is_contents is) ((?n + 1) * ?w)"
  have b1: "length b1 = (?n + 1) * ?w" by (simp add: b1_def)
  define is2 where "is2 = is\<lparr>is_encoding := ?w, is_contents := b1\<rparr>"
  have is2: "intsetResize fresh (is\<lparr>is_encoding := ?w\<rparr>) (uint32 (is_length (is\<lparr>is_encoding := ?w\<rparr>) + 1)) = is2"
    using sz by (simp add: intsetResize_def is2_def b1_def)
  have "?n * ?c \<le> (?n + 1) * ?w" using up by (intro mult_le_mono) auto
  then have slot1: "slot ?c b1 i = slot ?c (is_contents is) i" if "i < ?n" for i
    unfolding b1_def using that len by (intro slot_mem_resize [of _ ?n]) auto
  obtain b2 where loop: "intsetUpgrade_loop ?n pre ?c is2 = Some (is2\<lparr>is_contents := b2\<rparr>)"
    and b2: "length b2 = (?n + 1) * ?w"
    and el: "\<forall>i < ?n. le_sint (slot ?w b2 (i + pre)) = le_sint (slot ?c b1 i)"
    using intsetUpgrade_loop_correct [of ?c is2 ?n pre "?n + 1"] c up b1 pre by (auto simp: is2_def)
  define p where "p = (if v < 0 then 0 else ?n)"
  define b3 where "b3 = splice b2 (p * ?w) (le_bytes ?w v)"
  have set: "intsetSet (is2\<lparr>is_contents := b2\<rparr>) (int p) v = Some (is2\<lparr>is_contents := b3\<rparr>)"
    using b2 unfolding b3_def by (subst intsetSet_splice [where n = "?n + 1"]) (auto simp: is2_def p_def)
  have b3: "length b3 = (?n + 1) * ?w"
    unfolding b3_def using b2 slot_in_range [of p "?n + 1" ?w] by (subst length_splice) (auto simp: p_def)
  have slot3: "slot ?w b3 j = (if j = p then le_bytes ?w v else slot ?w b2 j)" if "j \<le> ?n" for j
    unfolding b3_def using slot_splice [of "?n + 1" ?w b2 "le_bytes ?w v" 1 p j] b2 that by (auto simp: p_def)
  have rd: "le_sint (le_bytes ?w v) = v"
    using enc_range_iff [OF v, of ?w] by (intro le_sint_enc) simp
  define is' where "is' = is2\<lparr>is_contents := b3, is_length := ?n + 1\<rparr>"
  have "intset_elems is' = (if v < 0 then v # ?xs else ?xs @ [v])"
  proof (rule intset_elems_eqI)
    fix i assume "i < length (if v < 0 then v # ?xs else ?xs @ [v])"
    then have i: "i \<le> ?n" by (auto split: if_splits)
    have "le_sint (slot ?w b2 i) = ?xs ! (i - pre)" if "i \<noteq> p"
      using el [rule_format, of "i - pre"] slot1 [of "i - pre"] that i by (auto simp: pre_def p_def split: if_splits)
    then show "le_sint (slot (is_encoding is') (is_contents is') i) = (if v < 0 then v # ?xs else ?xs @ [v]) ! i"
      using slot3 [OF i] i rd by (auto simp: is'_def is2_def p_def pre_def nth_Cons' nth_append)
  qed (auto simp: is'_def)
  moreover have "intsetUpgradeAndAdd fresh is v = Some is'"
    using is2 loop set n1 by (auto simp: intsetUpgradeAndAdd_def Let_def pre_def p_def is'_def is2_def)
  ultimately show ?thesis using b3 by (auto simp: is'_def is2_def)
qed

lemma intset_wf_upgraded:
  assumes wf: "intset_wf is" and "int64 v" and up: "is_encoding is < intsetValueEncoding v"
  shows "v \<notin> set (intset_elems is)"
    and "sorted_wrt (<) (if v < 0 then v # intset_elems is else intset_elems is @ [v])"
proof -
  let ?w = "is_encoding is"
  have ok: "enc_ok ?w" and sorted: "sorted_wrt (<) (intset_elems is)" using wf by (auto simp: intset_wf_def)
  have out: "\<not> enc_range ?w v" using enc_range_iff [OF \<open>int64 v\<close> ok] up by simp
  have el: "enc_range ?w x" if "x \<in> set (intset_elems is)" for x
    using intset_elems_range [OF wf that] .
  show "v \<notin> set (intset_elems is)" using el out by blast
  have "\<forall>x \<in> set (intset_elems is). v < 0 \<longrightarrow> v < x" and "\<forall>x \<in> set (intset_elems is). \<not> v < 0 \<longrightarrow> x < v"
    using el out by (fastforce simp: enc_range_def)+
  then show "sorted_wrt (<) (if v < 0 then v # intset_elems is else intset_elems is @ [v])"
    using sorted by (auto simp: sorted_wrt_append)
qed

lemma intset_room_small: "intset_room is \<Longrightarrow> is_length is \<le> 2147483648"
  by (simp add: intset_room_def)

lemma intsetAdd_ok:
  assumes wf: "intset_wf is" and room: "intset_room is" and v: "int64 v"
  shows "\<exists>is'. intsetAdd fresh is v = Some (is', v \<notin> set (intset_elems is))
     \<and> intset_wf is' \<and> set (intset_elems is') = insert v (set (intset_elems is))"
proof (cases "is_encoding is < intsetValueEncoding v")
  case True
  then show ?thesis
    using intsetUpgradeAndAdd_correct [OF wf room v True, of fresh] intset_wf_upgraded [OF wf v True]
    by (auto simp: intsetAdd_def intset_wf_def)
next
  case False
  let ?xs = "intset_elems is"
  have ok: "enc_ok (is_encoding is)" and sorted: "sorted_wrt (<) ?xs" using wf by (auto simp: intset_wf_def)
  then have rng: "enc_range (is_encoding is) v" using False enc_range_iff [OF v] by simp
  obtain found p where s: "intsetSearch is v = Some (found, p)" and r: "search_result ?xs v (found, p)"
    using intsetSearch_ex [OF wf intset_room_small [OF room], of v] by (metis surj_pair)
  show ?thesis
  proof (cases found)
    case True
    then have "v \<in> set ?xs" using r by (auto simp: search_result_def simp del: nth_intset_elems)
    then show ?thesis using True False s wf by (auto simp: intsetAdd_def)
  next
    case nf: False
    then have p: "split_at v ?xs p" using r by (simp add: search_result_def)
    have "v \<notin> set ?xs" using split_at_notin [OF p] .
    moreover have "p \<le> length ?xs" using p by (simp add: split_at_def)
    ultimately show ?thesis
      using intset_insert_at [OF wf room rng p, of fresh] nf False s ok
        split_at_sorted [OF sorted p] set_take_drop_insert [of p ?xs v]
      by (auto simp: intsetAdd_def intset_wf_def)
  qed
qed

text \<open>
  C34: \<open>intsetAdd\<close> on a well-formed set of 64-bit integers never leaves its buffer, returns a
  well-formed set whose elements are the old ones and the new value, and reports success exactly
  when the value was not present.  This covers the encoding upgrade, the insertion in the middle
  and both ends.
\<close>

theorem intsetAdd_correct:
  assumes "intset_wf is" and "intset_room is" and "int64 v"
  shows "\<exists>is'. intsetAdd fresh is v = Some (is', v \<notin> set (intset_elems is))
     \<and> intset_wf is' \<and> set (intset_elems is') = insert v (set (intset_elems is))"
  using assms by (rule intsetAdd_ok)

theorem intsetAdd_correct_witness:
  "\<exists>is'. intsetAdd (\<lambda>_. 7) intsetNew 100000 = Some (is', True)
     \<and> intset_wf is' \<and> set (intset_elems is') = {100000}"
proof -
  have e: "intset_elems intsetNew = []" by (simp add: intset_elems_def intsetNew_def)
  have "intset_wf intsetNew" by (simp add: intset_wf_def e) (simp add: intsetNew_def enc_ok_def intset_encs)
  moreover have "intset_room intsetNew" by (simp add: intset_room_def intsetNew_def)
  moreover have "int64 100000" by (simp add: int64_def)
  ultimately show ?thesis using intsetAdd_correct [of intsetNew 100000 "\<lambda>_. 7"] e by simp
qed

lemma intset_delete_at:
  assumes wf: "intset_wf is" and room: "intset_room is" and p: "p < is_length is"
  shows "\<exists>is'. do {
          is1 \<leftarrow> (if p < is_length is - 1 then intsetMoveTail is (p + 1) p else Some is);
          let is2 = intsetResize fresh is1 (is_length is - 1);
          Some (is2\<lparr>is_length := is_length is - 1\<rparr>, True)
        } = Some (is', True) \<and> is_encoding is' = is_encoding is
        \<and> length (is_contents is') = is_length is' * is_encoding is'
        \<and> intset_elems is' = take p (intset_elems is) @ drop (Suc p) (intset_elems is)"
proof -
  let ?w = "is_encoding is" and ?n = "is_length is" and ?xs = "intset_elems is" and ?b = "is_contents is"
  have w: "enc_ok ?w" and len: "length ?b = ?n * ?w" using wf by (auto simp: intset_wf_def)
  have "(?n - 1) * ?w \<le> (?n + 1) * 8" using w by (intro mult_le_mono) (auto simp: enc_ok_def)
  with room have sz: "uint32 ((?n - 1) * ?w) = (?n - 1) * ?w" by (auto simp: intset_room_def uint32_def)
  define tl where "tl = take ((?n - (p + 1)) * ?w) (drop ((p + 1) * ?w) ?b)"
  have fit: "(p + 1) * ?w + (?n - (p + 1)) * ?w \<le> ?n * ?w"
    using p by (simp only: add_mult_distrib [symmetric]) simp
  then have ltl: "length tl = (?n - (p + 1)) * ?w" using len by (simp add: tl_def)
  define b1 where "b1 = splice ?b (p * ?w) tl"
  have fit': "p * ?w + (?n - (p + 1)) * ?w \<le> ?n * ?w" using fit by simp
  then have b1: "length b1 = ?n * ?w" unfolding b1_def using len ltl by (subst length_splice) auto
  have move: "(if p < ?n - 1 then intsetMoveTail is (p + 1) p else Some is) = Some (is\<lparr>is_contents := b1\<rparr>)"
  proof (cases "p < ?n - 1")
    case True
    have "(p + (?n - (p + 1))) * ?w \<le> ?n * ?w" using p by (intro mult_le_mono1) simp
    then show ?thesis using True w room len p unfolding b1_def tl_def
      by (subst intsetMoveTail_splice) (auto simp: intset_room_def)
  next
    case False
    then have "tl = []" using p by (simp add: tl_def)
    then have "b1 = ?b" by (simp add: b1_def splice_def)
    then show ?thesis using False by simp
  qed
  have slot1: "slot ?w b1 i = slot ?w ?b (if i < p then i else Suc i)" if "i < ?n - 1" for i
  proof -
    have "slot ?w b1 i = (if p \<le> i then slot ?w tl (i - p) else slot ?w ?b i)"
      unfolding b1_def using slot_splice [of ?n ?w ?b tl "?n - (p + 1)" p i] len ltl p that by auto
    moreover have "p \<le> i \<Longrightarrow> slot ?w tl (i - p) = slot ?w ?b (Suc i)"
      unfolding tl_def using slot_take_drop [of "p + 1" "?n - (p + 1)" ?n ?w ?b "i - p"] len p that by auto
    ultimately show ?thesis by auto
  qed
  define b2 where "b2 = mem_resize fresh b1 ((?n - 1) * ?w)"
  have slot2: "slot ?w b2 i = slot ?w b1 i" if "i < ?n - 1" for i
    unfolding b2_def using that b1 by (intro slot_mem_resize [of _ "?n - 1"]) (auto simp: diff_mult_distrib)
  define is' where "is' = is\<lparr>is_contents := b2, is_length := ?n - 1\<rparr>"
  have "intset_elems is' = take p ?xs @ drop (Suc p) ?xs"
  proof (rule intset_elems_eqI)
    show "is_length is' = length (take p ?xs @ drop (Suc p) ?xs)" using p by (simp add: is'_def)
    fix i assume "i < length (take p ?xs @ drop (Suc p) ?xs)"
    then have i: "i < ?n - 1" using p by simp
    show "le_sint (slot (is_encoding is') (is_contents is') i) = (take p ?xs @ drop (Suc p) ?xs) ! i"
      using slot2 [OF i] slot1 [OF i] p i by (auto simp: is'_def nth_append min_def)
  qed
  then show ?thesis using move sz
    by (intro exI [of _ is']) (simp add: is'_def intsetResize_def b2_def)
qed

lemma intsetRemove_ok:
  assumes wf: "intset_wf is" and room: "intset_room is" and v: "int64 v"
  shows "\<exists>is'. intsetRemove fresh is v = Some (is', v \<in> set (intset_elems is))
     \<and> intset_wf is' \<and> set (intset_elems is') = set (intset_elems is) - {v}"
proof -
  let ?xs = "intset_elems is"
  have ok: "enc_ok (is_encoding is)" and sorted: "sorted_wrt (<) ?xs" using wf by (auto simp: intset_wf_def)
  show ?thesis
  proof (cases "intsetValueEncoding v \<le> is_encoding is")
    case False
    then have "v \<notin> set ?xs" using intset_elems_range [OF wf] enc_range_iff [OF v ok] by blast
    then show ?thesis using False wf by (auto simp: intsetRemove_def)
  next
    case True
    obtain found p where s: "intsetSearch is v = Some (found, p)" and r: "search_result ?xs v (found, p)"
      using intsetSearch_ex [OF wf intset_room_small [OF room], of v] by (metis surj_pair)
    show ?thesis
    proof (cases found)
      case False
      then have "v \<notin> set ?xs" using r split_at_notin by (auto simp: search_result_def)
      then show ?thesis using True False s wf by (auto simp: intsetRemove_def)
    next
      case f: True
      then have p: "p < is_length is" and vp: "v = ?xs ! p" using r by (auto simp: search_result_def)
      have "v \<in> set ?xs" using p vp by (simp del: nth_intset_elems)
      then show ?thesis
        using intset_delete_at [OF wf room p, of fresh] f True s ok p vp
          sorted_delete_nth [OF sorted, of p]
        by (auto simp: intsetRemove_def intset_wf_def simp del: nth_intset_elems)
    qed
  qed
qed

text \<open>
  \<open>intsetRemove\<close> never leaves the buffer, removes exactly the given value, keeps the set well
  formed and reports success exactly when the value was present.
\<close>

theorem intsetRemove_correct:
  assumes "intset_wf is" and "intset_room is" and "int64 v"
  shows "\<exists>is'. intsetRemove fresh is v = Some (is', v \<in> set (intset_elems is))
     \<and> intset_wf is' \<and> set (intset_elems is') = set (intset_elems is) - {v}"
  using assms by (rule intsetRemove_ok)

theorem intsetRemove_correct_witness:
  "\<exists>is'. intsetRemove (\<lambda>_. 7) \<lparr>is_encoding = 2, is_length = 1, is_contents = [5, 0]\<rparr> 5 = Some (is', True)
     \<and> intset_wf is' \<and> set (intset_elems is') = {}"
proof -
  let ?is = "\<lparr>is_encoding = 2, is_length = 1, is_contents = [5, 0]\<rparr>"
  have e: "intset_elems ?is = [5]" by (simp add: intset_elems_def slot_def le_sint_def)
  have "intset_wf ?is" unfolding intset_wf_def e by (simp add: enc_ok_def)
  moreover have "intset_room ?is" by (simp add: intset_room_def)
  moreover have "int64 5" by (simp add: int64_def)
  ultimately show ?thesis using intsetRemove_correct [of ?is 5 "\<lambda>_. 7"] e by simp
qed

section \<open>Queries and validation\<close>

lemma intsetFind_ok:
  assumes wf: "intset_wf is" and small: "is_length is \<le> 2147483648" and v: "int64 v"
  shows "intsetFind is v = Some (v \<in> set (intset_elems is))"
proof (cases "intsetValueEncoding v \<le> is_encoding is")
  case False
  have "enc_ok (is_encoding is)" using wf by (simp add: intset_wf_def)
  then have "v \<notin> set (intset_elems is)"
    using False intset_elems_range [OF wf] enc_range_iff [OF v] by blast
  then show ?thesis using False by (simp add: intsetFind_def)
next
  case True
  obtain found p where s: "intsetSearch is v = Some (found, p)"
    and r: "search_result (intset_elems is) v (found, p)"
    using intsetSearch_ex [OF wf small, of v] by (metis surj_pair)
  then have "found \<longleftrightarrow> v \<in> set (intset_elems is)"
    by (cases found) (auto simp: search_result_def simp del: nth_intset_elems dest: split_at_notin)
  then show ?thesis using True s by (simp add: intsetFind_def)
qed

text \<open>
  \<open>intsetFind\<close> decides membership: the binary search with its two boundary shortcuts and the
  encoding shortcut agrees with a linear search, and terminates without an access outside the set.
\<close>

theorem intsetFind_correct:
  assumes "intset_wf is" and "is_length is \<le> 2147483648" and "int64 v"
  shows "intsetFind is v = Some (v \<in> set (intset_elems is))"
  using assms by (rule intsetFind_ok)

theorem intsetFind_correct_witness:
  "intsetFind \<lparr>is_encoding = 2, is_length = 2, is_contents = [255, 255, 5, 0]\<rparr> (-1) = Some True"
proof -
  let ?is = "\<lparr>is_encoding = 2, is_length = 2, is_contents = [255, 255, 5, 0]\<rparr>"
  have e: "intset_elems ?is = [-1, 5]" by (simp add: intset_elems_def slot_def le_sint_def upt_rec)
  have "intset_wf ?is" by (simp add: intset_wf_def e) (simp add: enc_ok_def)
  then show ?thesis using intsetFind_correct [of ?is "-1"] e by (simp add: int64_def)
qed

lemma intsetValidate_loop_correct:
  assumes "enc_ok (is_encoding is)" and "length (is_contents is) = is_length is * is_encoding is"
    and "0 < i" and "i \<le> is_length is"
  shows "intsetValidate_loop is i (is_length is) (intset_elems is ! (i - 1))
     = Some (\<forall>j. i \<le> j \<and> j < is_length is \<longrightarrow> intset_elems is ! (j - 1) < intset_elems is ! j)"
  using assms(3,4)
proof (induction "is_length is - i" arbitrary: i)
  case 0
  then show ?case by (subst intsetValidate_loop.simps) auto
next
  case (Suc k)
  let ?xs = "intset_elems is"
  have i: "i < is_length is" using Suc.hyps(2) by linarith
  have get: "intsetGet_raw is (int i) = Some (?xs ! i)"
    unfolding intsetGet_raw_def using assms(1,2) i
    by (subst intsetGetEncoded_slot [where n = "is_length is"]) auto
  have "intsetValidate_loop is (i + 1) (is_length is) (?xs ! i)
     = Some (\<forall>j. i + 1 \<le> j \<and> j < is_length is \<longrightarrow> ?xs ! (j - 1) < ?xs ! j)"
    using Suc.hyps(1) [of "i + 1"] Suc.hyps(2) i by (simp del: nth_intset_elems)
  moreover have "(\<forall>j. i \<le> j \<and> j < is_length is \<longrightarrow> ?xs ! (j - 1) < ?xs ! j)
     \<longleftrightarrow> ?xs ! (i - 1) < ?xs ! i \<and> (\<forall>j. i + 1 \<le> j \<and> j < is_length is \<longrightarrow> ?xs ! (j - 1) < ?xs ! j)"
    using i by (rule all_from_Suc)
  ultimately show ?case using i get
    by (subst intsetValidate_loop.simps) (auto simp del: nth_intset_elems)
qed

lemma intset_validate_deep:
  "intsetValidateIntegrity p True =
     Some (8 \<le> length p \<and> intset_wf (intset_of_blob p) \<and> is_length (intset_of_blob p) \<noteq> 0)"
proof -
  let ?is = "intset_of_blob p"
  let ?xs = "intset_elems ?is"
  have len: "length (is_contents ?is) = length p - 8" by (simp add: intset_of_blob_def)
  have chain: "sorted_wrt (<) ?xs \<longleftrightarrow> (\<forall>j. 1 \<le> j \<and> j < is_length ?is \<longrightarrow> ?xs ! (j - 1) < ?xs ! j)"
    unfolding sorted_wrt_iff_nth_Suc_transp [OF transp_on_less] length_intset_elems
    by (rule all_pred_Suc)
  show ?thesis
  proof (cases "8 \<le> length p \<and> enc_ok (is_encoding ?is) \<and> 8 + is_length ?is * is_encoding ?is = length p
      \<and> is_length ?is \<noteq> 0")
    case True
    then have ok: "enc_ok (is_encoding ?is)" and l: "length (is_contents ?is) = is_length ?is * is_encoding ?is"
      using len by auto
    have "intsetGet_raw ?is 0 = Some (?xs ! 0)"
      unfolding intsetGet_raw_def using ok l True
      by (subst intsetGetEncoded_slot [where p = 0 and n = "is_length ?is", simplified]) auto
    then show ?thesis
      using True intsetValidate_loop_correct [OF ok l, of 1] ok l chain
      by (auto simp: intsetValidateIntegrity_def intset_wf_def enc_ok_def intset_encs Let_def
          simp del: nth_intset_elems)
  next
    case False
    then show ?thesis using len
      by (auto simp: intsetValidateIntegrity_def intset_wf_def enc_ok_def intset_encs Let_def)
  qed
qed


lemma intsetGet_correct:
  assumes "intset_wf is"
  shows "intsetGet is pos = Some (if pos < is_length is then Some (intset_elems is ! pos) else None)"
  using intsetGet_raw_wf [OF assms, of pos] by (simp add: intsetGet_def del: nth_intset_elems)

lemma intsetRandom_correct:
  assumes "intset_wf is" and "is_length is \<noteq> 0"
  shows "\<exists>v \<in> set (intset_elems is). intsetRandom is r = Some v"
  using intsetGet_raw_wf [OF assms(1), of "r mod is_length is"] assms(2)
  by (auto simp: intsetRandom_def simp del: nth_intset_elems of_nat_mod intro!: bexI [of _ "intset_elems is ! (r mod is_length is)"])

section \<open>The set interface\<close>

lemma card_intset_elems: "intset_wf is \<Longrightarrow> card (set (intset_elems is)) = is_length is"
  by (subst distinct_card) (auto simp: intset_wf_def intset_elems_def strict_sorted_iff)

interpretation iset: set_store intset_wf "\<lambda>is. set (intset_elems is)" int64 536870911
  "intsetAdd fresh" "intsetRemove fresh" "\<lambda>is v. map_option (\<lambda>b. (is, b)) (intsetFind is v)" for fresh
proof unfold_locales
  fix "is" :: intset and v :: int
  assume wf: "intset_wf is" and v: "int64 v" and c: "card (set (intset_elems is)) < 536870911"
  then have room: "intset_room is" using card_intset_elems [OF wf] by (simp add: intset_room_def)
  show "\<exists>is'. intsetAdd fresh is v = Some (is', v \<notin> set (intset_elems is)) \<and> intset_wf is'
      \<and> set (intset_elems is') = insert v (set (intset_elems is))"
    using intsetAdd_ok [OF wf room v] .
  show "\<exists>is'. intsetRemove fresh is v = Some (is', v \<in> set (intset_elems is)) \<and> intset_wf is'
      \<and> set (intset_elems is') = set (intset_elems is) - {v}"
    using intsetRemove_ok [OF wf room v] .
  have "is_length is \<le> 2147483648" using c card_intset_elems [OF wf] by simp
  then show "\<exists>is'. map_option (\<lambda>b. (is, b)) (intsetFind is v) = Some (is', v \<in> set (intset_elems is)) \<and> intset_wf is'
      \<and> set (intset_elems is') = set (intset_elems is)"
    using intsetFind_ok [OF wf _ v] wf by simp
qed simp

section \<open>Requests beyond the 32-bit size\<close>

text \<open>
  The number of bytes of the array is computed in \<open>uint32_t\<close>.  With \<open>2 ^ 29\<close> elements of 8 bytes it wraps
  to zero and the array is released down to the header; only the configured maximal number of
  entries, which can be set to a larger value, keeps sets below that size.
\<close>

theorem intsetResize_wraps:
  "is_contents (intsetResize fresh (is\<lparr>is_encoding := INTSET_ENC_INT64\<rparr>) 536870912) = []"
  by (simp add: intsetResize_def uint32_def INTSET_ENC_INT64_def mem_resize_def)

end
