(* ===== verification/Adlist.thy ===== *)
theory Adlist
  imports Redis_Prelude
begin

text \<open>
  The generic doubly linked list of \<open>src/redis-6.2.0/src/adlist.c\<close>, on an explicit heap of nodes: a
  pointer is an address or null (\<open>addr option\<close>), every dereference of an unallocated address or of
  null is \<open>None\<close>.  The address \<open>zmalloc\<close> returns is an argument (\<open>None\<close> for a failed allocation),
  the values handed to the list's \<open>free\<close> method are recorded in \<open>freed\<close>.

  The lemmas relate the heap to a sequence of node addresses (\<open>dlist\<close>) and show that each
  operation is the corresponding operation on that sequence: head and tail insertion, insertion
  before and after a node, removal, both rotations, concatenation, indexing from either end,
  search, traversal and duplication.
\<close>

section \<open>Model\<close>

type_synonym addr = nat

record 'v listNode =
  ln_prev :: "addr option"
  ln_next :: "addr option"
  ln_value :: 'v

type_synonym 'v nheap = "addr \<rightharpoonup> 'v listNode"

record 'v list_store =
  heap :: "'v nheap"
  freed :: "'v list"

record 'v adlist =
  al_head :: "addr option"
  al_tail :: "addr option"
  al_dup :: "('v \<Rightarrow> 'v option) option"
  al_free :: bool
  al_match :: "('v \<Rightarrow> 'v \<Rightarrow> bool) option"
  al_len :: nat

datatype direction = AL_START_HEAD | AL_START_TAIL

record listIter =
  it_next :: "addr option"
  it_direction :: direction

definition deref :: "'v nheap \<Rightarrow> addr option \<Rightarrow> 'v listNode option" where
  "deref h p = Option.bind p h"

definition set_next :: "'v nheap \<Rightarrow> addr option \<Rightarrow> addr option \<Rightarrow> 'v nheap option" where
  "set_next h p q = do { a \<leftarrow> p; n \<leftarrow> h a; Some (h(a \<mapsto> n\<lparr>ln_next := q\<rparr>)) }"

definition set_prev :: "'v nheap \<Rightarrow> addr option \<Rightarrow> addr option \<Rightarrow> 'v nheap option" where
  "set_prev h p q = do { a \<leftarrow> p; n \<leftarrow> h a; Some (h(a \<mapsto> n\<lparr>ln_prev := q\<rparr>)) }"

definition listCreate :: "'v adlist" where
  "listCreate = \<lparr>al_head = None, al_tail = None, al_dup = None, al_free = False, al_match = None, al_len = 0\<rparr>"

definition free_value :: "'v adlist \<Rightarrow> 'v \<Rightarrow> 'v list_store \<Rightarrow> 'v list_store" where
  "free_value l v st = (if al_free l then st\<lparr>freed := freed st @ [v]\<rparr> else st)"

primrec listEmpty_loop :: "nat \<Rightarrow> 'v adlist \<Rightarrow> addr option \<Rightarrow> 'v list_store \<Rightarrow> 'v list_store option" where
  "listEmpty_loop 0 l current st = Some st"
| "listEmpty_loop (Suc len) l current st = do {
     a \<leftarrow> current;
     n \<leftarrow> heap st a;
     let st' = free_value l (ln_value n) st;
     listEmpty_loop len l (ln_next n) (st'\<lparr>heap := (heap st')(a := None)\<rparr>)
   }"

definition listEmpty :: "'v list_store \<Rightarrow> 'v adlist \<Rightarrow> ('v list_store \<times> 'v adlist) option" where
  "listEmpty st l = do {
     st' \<leftarrow> listEmpty_loop (al_len l) l (al_head l) st;
     Some (st', l\<lparr>al_head := None, al_tail := None, al_len := 0\<rparr>)
   }"

definition listRelease :: "'v list_store \<Rightarrow> 'v adlist \<Rightarrow> 'v list_store option" where
  "listRelease st l = map_option fst (listEmpty st l)"

definition listAddNodeHead ::
  "addr option \<Rightarrow> 'v list_store \<Rightarrow> 'v adlist \<Rightarrow> 'v \<Rightarrow> ('v list_store \<times> 'v adlist) option option" where
  "listAddNodeHead mal st l v =
     (case mal of None \<Rightarrow> Some None
      | Some node \<Rightarrow>
          if al_len l = 0 then
            Some (Some (st\<lparr>heap := (heap st)(node \<mapsto> \<lparr>ln_prev = None, ln_next = None, ln_value = v\<rparr>)\<rparr>,
                        l\<lparr>al_head := Some node, al_tail := Some node, al_len := al_len l + 1\<rparr>))
          else do {
            let h1 = (heap st)(node \<mapsto> \<lparr>ln_prev = None, ln_next = al_head l, ln_value = v\<rparr>);
            h2 \<leftarrow> set_prev h1 (al_head l) (Some node);
            Some (Some (st\<lparr>heap := h2\<rparr>, l\<lparr>al_head := Some node, al_len := al_len l + 1\<rparr>))
          })"

definition listAddNodeTail ::
  "addr option \<Rightarrow> 'v list_store \<Rightarrow> 'v adlist \<Rightarrow> 'v \<Rightarrow> ('v list_store \<times> 'v adlist) option option" where
  "listAddNodeTail mal st l v =
     (case mal of None \<Rightarrow> Some None
      | Some node \<Rightarrow>
          if al_len l = 0 then
            Some (Some (st\<lparr>heap := (heap st)(node \<mapsto> \<lparr>ln_prev = None, ln_next = None, ln_value = v\<rparr>)\<rparr>,
                        l\<lparr>al_head := Some node, al_tail := Some node, al_len := al_len l + 1\<rparr>))
          else do {
            let h1 = (heap st)(node \<mapsto> \<lparr>ln_prev = al_tail l, ln_next = None, ln_value = v\<rparr>);
            h2 \<leftarrow> set_next h1 (al_tail l) (Some node);
            Some (Some (st\<lparr>heap := h2\<rparr>, l\<lparr>al_tail := Some node, al_len := al_len l + 1\<rparr>))
          })"

definition listInsertNode ::
  "addr option \<Rightarrow> 'v list_store \<Rightarrow> 'v adlist \<Rightarrow> addr \<Rightarrow> 'v \<Rightarrow> bool
     \<Rightarrow> ('v list_store \<times> 'v adlist) option option" where
  "listInsertNode mal st l old_node v after =
     (case mal of None \<Rightarrow> Some None
      | Some node \<Rightarrow> do {
          old \<leftarrow> heap st old_node;
          let (prv, nxt) = (if after then (Some old_node, ln_next old) else (ln_prev old, Some old_node));
          let l1 = (if after then (if al_tail l = Some old_node then l\<lparr>al_tail := Some node\<rparr> else l)
                    else (if al_head l = Some old_node then l\<lparr>al_head := Some node\<rparr> else l));
          let h1 = (heap st)(node \<mapsto> \<lparr>ln_prev = prv, ln_next = nxt, ln_value = v\<rparr>);
          h2 \<leftarrow> (if prv \<noteq> None then set_next h1 prv (Some node) else Some h1);
          h3 \<leftarrow> (if nxt \<noteq> None then set_prev h2 nxt (Some node) else Some h2);
          Some (Some (st\<lparr>heap := h3\<rparr>, l1\<lparr>al_len := al_len l1 + 1\<rparr>))
        })"

definition listDelNode :: "'v list_store \<Rightarrow> 'v adlist \<Rightarrow> addr \<Rightarrow> ('v list_store \<times> 'v adlist) option" where
  "listDelNode st l node = do {
     n \<leftarrow> heap st node;
     (h1, l1) \<leftarrow>
       (if ln_prev n \<noteq> None then map_option (\<lambda>h. (h, l)) (set_next (heap st) (ln_prev n) (ln_next n))
        else Some (heap st, l\<lparr>al_head := ln_next n\<rparr>));
     (h2, l2) \<leftarrow>
       (if ln_next n \<noteq> None then map_option (\<lambda>h. (h, l1)) (set_prev h1 (ln_next n) (ln_prev n))
        else Some (h1, l1\<lparr>al_tail := ln_prev n\<rparr>));
     let st' = free_value l (ln_value n) st;
     Some (st'\<lparr>heap := h2(node := None)\<rparr>, l2\<lparr>al_len := al_len l2 - 1\<rparr>)
   }"

definition listGetIterator :: "'v adlist \<Rightarrow> direction \<Rightarrow> listIter" where
  "listGetIterator l d =
     \<lparr>it_next = (if d = AL_START_HEAD then al_head l else al_tail l), it_direction = d\<rparr>"

definition listRewind :: "'v adlist \<Rightarrow> listIter" where
  "listRewind l = \<lparr>it_next = al_head l, it_direction = AL_START_HEAD\<rparr>"

definition listRewindTail :: "'v adlist \<Rightarrow> listIter" where
  "listRewindTail l = \<lparr>it_next = al_tail l, it_direction = AL_START_TAIL\<rparr>"

definition listNext :: "'v nheap \<Rightarrow> listIter \<Rightarrow> (addr option \<times> listIter) option" where
  "listNext h iter =
     (case it_next iter of
        None \<Rightarrow> Some (None, iter)
      | Some current \<Rightarrow> do {
          n \<leftarrow> h current;
          Some (Some current,
                iter\<lparr>it_next := (if it_direction iter = AL_START_HEAD then ln_next n else ln_prev n)\<rparr>)
        })"

definition dup_value :: "'v adlist \<Rightarrow> 'v \<Rightarrow> 'v option" where
  "dup_value l v = (case al_dup l of Some dup \<Rightarrow> dup v | None \<Rightarrow> Some v)"

partial_function (option) listDup_loop ::
  "('v nheap \<Rightarrow> addr option) \<Rightarrow> listIter \<Rightarrow> 'v list_store \<Rightarrow> 'v adlist
     \<Rightarrow> ('v list_store \<times> 'v adlist option) option" where
  "listDup_loop alloc iter st copy = do {
     (node, iter') \<leftarrow> listNext (heap st) iter;
     (case node of
        None \<Rightarrow> Some (st, Some copy)
      | Some a \<Rightarrow> do {
          n \<leftarrow> heap st a;
          (case dup_value copy (ln_value n) of
             None \<Rightarrow> map_option (\<lambda>st'. (st', None)) (listRelease st copy)
           | Some value \<Rightarrow> do {
               r \<leftarrow> listAddNodeTail (alloc (heap st)) st copy value;
               (case r of
                  None \<Rightarrow> map_option (\<lambda>st'. (st', None)) (listRelease st copy)
                | Some (st', copy') \<Rightarrow> listDup_loop alloc iter' st' copy')
             })
        })
   }"

definition listDup ::
  "('v nheap \<Rightarrow> addr option) \<Rightarrow> 'v list_store \<Rightarrow> 'v adlist \<Rightarrow> ('v list_store \<times> 'v adlist option) option" where
  "listDup alloc st orig =
     (let copy = listCreate\<lparr>al_dup := al_dup orig, al_free := al_free orig, al_match := al_match orig\<rparr>
      in listDup_loop alloc (listRewind orig) st copy)"

definition list_matches :: "'v adlist \<Rightarrow> 'v \<Rightarrow> 'v \<Rightarrow> bool" where
  "list_matches l key v = (case al_match l of Some m \<Rightarrow> m v key | None \<Rightarrow> key = v)"

partial_function (option) listSearchKey_loop ::
  "'v nheap \<Rightarrow> 'v adlist \<Rightarrow> 'v \<Rightarrow> listIter \<Rightarrow> addr option option" where
  "listSearchKey_loop h l key iter = do {
     (node, iter') \<leftarrow> listNext h iter;
     (case node of
        None \<Rightarrow> Some None
      | Some a \<Rightarrow> do {
          n \<leftarrow> h a;
          if list_matches l key (ln_value n)
          then Some (Some a) else listSearchKey_loop h l key iter'
        })
   }"

definition listSearchKey :: "'v nheap \<Rightarrow> 'v adlist \<Rightarrow> 'v \<Rightarrow> addr option option" where
  "listSearchKey h l key = listSearchKey_loop h l key (listRewind l)"

primrec listIndex_walk :: "nat \<Rightarrow> ('v listNode \<Rightarrow> addr option) \<Rightarrow> 'v nheap \<Rightarrow> addr option \<Rightarrow> addr option option" where
  "listIndex_walk 0 f h n = Some n"
| "listIndex_walk (Suc index) f h n =
     (case n of None \<Rightarrow> Some None | Some a \<Rightarrow> do { x \<leftarrow> h a; listIndex_walk index f h (f x) })"

definition listIndex :: "'v nheap \<Rightarrow> 'v adlist \<Rightarrow> int \<Rightarrow> addr option option" where
  "listIndex h l index =
     (if index < 0 then listIndex_walk (nat ((- index) - 1)) ln_prev h (al_tail l)
      else listIndex_walk (nat index) ln_next h (al_head l))"

definition listRotateTailToHead :: "'v nheap \<Rightarrow> 'v adlist \<Rightarrow> ('v nheap \<times> 'v adlist) option" where
  "listRotateTailToHead h l =
     (if al_len l \<le> 1 then Some (h, l)
      else do {
        let tail = al_tail l;
        t \<leftarrow> deref h tail;
        let l1 = l\<lparr>al_tail := ln_prev t\<rparr>;
        h1 \<leftarrow> set_next h (al_tail l1) None;
        h2 \<leftarrow> set_prev h1 (al_head l1) tail;
        h3 \<leftarrow> set_prev h2 tail None;
        h4 \<leftarrow> set_next h3 tail (al_head l1);
        Some (h4, l1\<lparr>al_head := tail\<rparr>)
      })"

definition listRotateHeadToTail :: "'v nheap \<Rightarrow> 'v adlist \<Rightarrow> ('v nheap \<times> 'v adlist) option" where
  "listRotateHeadToTail h l =
     (if al_len l \<le> 1 then Some (h, l)
      else do {
        let head = al_head l;
        n \<leftarrow> deref h head;
        let l1 = l\<lparr>al_head := ln_next n\<rparr>;
        h1 \<leftarrow> set_prev h (al_head l1) None;
        h2 \<leftarrow> set_next h1 (al_tail l1) head;
        h3 \<leftarrow> set_next h2 head None;
        h4 \<leftarrow> set_prev h3 head (al_tail l1);
        Some (h4, l1\<lparr>al_tail := head\<rparr>)
      })"

definition listJoin :: "'v nheap \<Rightarrow> 'v adlist \<Rightarrow> 'v adlist \<Rightarrow> ('v nheap \<times> 'v adlist \<times> 'v adlist) option" where
  "listJoin h l o2 =
     (if al_len o2 = 0 then Some (h, l, o2)
      else do {
        h1 \<leftarrow> set_prev h (al_head o2) (al_tail l);
        (h2, l1) \<leftarrow> (if al_tail l \<noteq> None then map_option (\<lambda>h. (h, l)) (set_next h1 (al_tail l) (al_head o2))
                     else Some (h1, l\<lparr>al_head := al_head o2\<rparr>));
        let l2 = l1\<lparr>al_tail := al_tail o2, al_len := al_len l1 + al_len o2\<rparr>;
        Some (h2, l2, o2\<lparr>al_head := None, al_tail := None, al_len := 0\<rparr>)
      })"

section \<open>Abstraction: the heap holds a sequence of nodes\<close>

definition hd_or :: "('a \<times> 'v) list \<Rightarrow> 'a option \<Rightarrow> 'a option" where
  "hd_or xs q = (case xs of [] \<Rightarrow> q | x # _ \<Rightarrow> Some (fst x))"

definition last_or :: "'a option \<Rightarrow> ('a \<times> 'v) list \<Rightarrow> 'a option" where
  "last_or p xs = (if xs = [] then p else Some (fst (last xs)))"

primrec seg :: "'v nheap \<Rightarrow> addr option \<Rightarrow> (addr \<times> 'v) list \<Rightarrow> addr option \<Rightarrow> bool" where
  "seg h p [] q \<longleftrightarrow> True"
| "seg h p (x # xs) q \<longleftrightarrow>
     h (fst x) = Some \<lparr>ln_prev = p, ln_next = hd_or xs q, ln_value = snd x\<rparr> \<and> seg h (Some (fst x)) xs q"

abbreviation addrs :: "(addr \<times> 'v) list \<Rightarrow> addr set" where
  "addrs xs \<equiv> fst ` set xs"

definition dlist :: "'v nheap \<Rightarrow> 'v adlist \<Rightarrow> (addr \<times> 'v) list \<Rightarrow> bool" where
  "dlist h l xs \<longleftrightarrow> seg h None xs None \<and> distinct (map fst xs)
     \<and> al_head l = hd_or xs None \<and> al_tail l = last_or None xs \<and> al_len l = length xs"

definition same_outside :: "addr set \<Rightarrow> 'v nheap \<Rightarrow> 'v nheap \<Rightarrow> bool" where
  "same_outside A h h' \<longleftrightarrow> (\<forall>b. b \<notin> A \<longrightarrow> h' b = h b)"

lemma hd_or_simps [simp]:
  "hd_or [] q = q" "hd_or (x # xs) q = Some (fst x)" "hd_or (xs @ ys) q = hd_or xs (hd_or ys q)"
  by (simp_all add: hd_or_def split: list.splits)

lemma last_or_simps [simp]:
  "last_or p [] = p" "last_or p (x # xs) = last_or (Some (fst x)) xs"
  "last_or p (xs @ ys) = last_or (last_or p xs) ys"
  by (simp_all add: last_or_def)

lemma hd_or_SomeD: "hd_or xs q = Some a \<Longrightarrow> a \<in> addrs xs \<or> q = Some a"
  by (cases xs) auto

lemma seg_append [simp]: "seg h p (xs @ ys) q \<longleftrightarrow> seg h p xs (hd_or ys q) \<and> seg h (last_or p xs) ys q"
  by (induction xs arbitrary: p) auto

lemma seg_frame [simp]: "a \<notin> addrs xs \<Longrightarrow> seg (h(a := x)) p xs q = seg h p xs q"
  by (induction xs arbitrary: p) auto

lemma seg_cong: "(\<And>a. a \<in> addrs xs \<Longrightarrow> h' a = h a) \<Longrightarrow> seg h' p xs q = seg h p xs q"
  by (induction xs arbitrary: p) auto

lemma seg_allocated: "seg h p xs q \<Longrightarrow> a \<in> addrs xs \<Longrightarrow> h a \<noteq> None"
  by (induction xs arbitrary: p) auto

lemma set_next_Some [simp]: "h a = Some n \<Longrightarrow> set_next h (Some a) q = Some (h(a \<mapsto> n\<lparr>ln_next := q\<rparr>))"
  by (simp add: set_next_def)

lemma set_prev_Some [simp]: "h a = Some n \<Longrightarrow> set_prev h (Some a) q = Some (h(a \<mapsto> n\<lparr>ln_prev := q\<rparr>))"
  by (simp add: set_prev_def)

lemma dlist_create: "dlist h listCreate []"
  by (simp add: dlist_def listCreate_def)

lemma dlist_frame:
  "dlist h l xs \<Longrightarrow> same_outside A h h' \<Longrightarrow> A \<inter> addrs xs = {} \<Longrightarrow> dlist h' l xs"
  unfolding dlist_def same_outside_def using seg_cong [of xs h' h] by (metis disjoint_iff)

lemma rev_pair_cases:
  obtains "xs = []" | ys a v where "xs = ys @ [(a, v)]"
  by (cases xs rule: rev_cases) auto

lemma pair_cases:
  obtains "xs = []" | a v ys where "xs = (a, v) # ys"
  by (cases xs) auto

text \<open>A two-element list \<open>10, 20\<close> at addresses 5 and 6, used to exercise the theorems below.\<close>

definition ex_heap :: "int nheap" where
  "ex_heap = [5 \<mapsto> \<lparr>ln_prev = None, ln_next = Some 6, ln_value = 10\<rparr>,
              6 \<mapsto> \<lparr>ln_prev = Some 5, ln_next = None, ln_value = 20\<rparr>]"

definition ex_list :: "int adlist" where
  "ex_list = listCreate\<lparr>al_head := Some 5, al_tail := Some 6, al_len := 2\<rparr>"

definition ex_store :: "int list_store" where
  "ex_store = \<lparr>heap = ex_heap, freed = []\<rparr>"

lemma ex_dlist: "dlist ex_heap ex_list [(5, 10), (6, 20)]"
  by (simp add: dlist_def ex_heap_def ex_list_def listCreate_def last_or_def)

section \<open>Insertion and removal\<close>

lemma listAddNodeHead_dlist:
  assumes "dlist (heap st) l xs" and "heap st a = None"
  shows "\<exists>st' l'. listAddNodeHead (Some a) st l v = Some (Some (st', l')) \<and> freed st' = freed st
     \<and> dlist (heap st') l' ((a, v) # xs) \<and> same_outside (insert a (addrs xs)) (heap st) (heap st')"
proof -
  have "a \<notin> addrs xs" using assms seg_allocated [of "heap st" None xs None a] by (auto simp: dlist_def)
  then show ?thesis using assms
    by (cases xs rule: pair_cases)
      (auto simp: listAddNodeHead_def dlist_def same_outside_def)
qed

lemma listAddNodeTail_dlist:
  assumes "dlist (heap st) l xs" and "heap st a = None"
  shows "\<exists>st' l'. listAddNodeTail (Some a) st l v = Some (Some (st', l')) \<and> freed st' = freed st
     \<and> dlist (heap st') l' (xs @ [(a, v)]) \<and> same_outside (insert a (addrs xs)) (heap st) (heap st')
     \<and> al_dup l' = al_dup l \<and> al_free l' = al_free l \<and> al_match l' = al_match l"
proof -
  have "a \<notin> addrs xs" using assms seg_allocated [of "heap st" None xs None a] by (auto simp: dlist_def)
  then show ?thesis using assms
    by (cases xs rule: rev_pair_cases)
      (auto simp: listAddNodeTail_def dlist_def same_outside_def)
qed

text \<open>
  inserting next to any node of a list, or at either end, yields the list with the new value
  at exactly that place: forward and backward links, head, tail and length all agree, and no
  other heap cell changes.
\<close>

theorem listInsertNode_correct:
  assumes "dlist (heap st) l (ys @ (o1, w) # zs)" and "heap st a = None"
  shows "\<exists>st' l'. listInsertNode (Some a) st l o1 v after = Some (Some (st', l')) \<and> freed st' = freed st
     \<and> dlist (heap st') l' (if after then ys @ (o1, w) # (a, v) # zs else ys @ (a, v) # (o1, w) # zs)
     \<and> same_outside (insert a (addrs (ys @ (o1, w) # zs))) (heap st) (heap st')"
proof -
  have "a \<notin> addrs (ys @ (o1, w) # zs)"
    using assms seg_allocated [of "heap st" None "ys @ (o1, w) # zs" None a] by (auto simp: dlist_def)
  then show ?thesis using assms
    by (cases ys rule: rev_pair_cases; cases zs rule: pair_cases; cases after)
      (auto simp: listInsertNode_def dlist_def same_outside_def last_or_def image_Un dest: hd_or_SomeD)
qed

theorem listInsertNode_correct_witness:
  "\<exists>st' l'. listInsertNode (Some 7) ex_store ex_list 5 15 True = Some (Some (st', l')) \<and> freed st' = freed ex_store
     \<and> dlist (heap st') l' [(5, 10), (7, 15), (6, 20)]
     \<and> same_outside {5, 6, 7} (heap ex_store) (heap st')"
  using listInsertNode_correct [of ex_store ex_list "[]" 5 10 "[(6, 20)]" 7 15 True] ex_dlist
  by (simp add: ex_store_def insert_commute) (simp add: ex_heap_def)

text \<open>
  \<open>listDelNode\<close> unlinks exactly the given node, wherever it stands, frees its cell, hands its
  value to the free method when there is one, and leaves every cell outside the list alone.
\<close>

theorem listDelNode_correct:
  assumes "dlist (heap st) l (ys @ (a, v) # zs)"
  shows "\<exists>st' l'. listDelNode st l a = Some (st', l') \<and> dlist (heap st') l' (ys @ zs)
     \<and> heap st' a = None \<and> same_outside (addrs (ys @ (a, v) # zs)) (heap st) (heap st')
     \<and> freed st' = freed st @ (if al_free l then [v] else [])"
  using assms
  by (cases ys rule: rev_pair_cases; cases zs rule: pair_cases)
    (auto simp: listDelNode_def dlist_def same_outside_def last_or_def free_value_def image_Un)

theorem listDelNode_correct_witness:
  "\<exists>st' l'. listDelNode ex_store ex_list 6 = Some (st', l') \<and> dlist (heap st') l' [(5, 10)]
     \<and> heap st' 6 = None \<and> same_outside {5, 6} (heap ex_store) (heap st') \<and> freed st' = []"
  using listDelNode_correct [of ex_store ex_list "[(5, 10)]" 6 20 "[]"] ex_dlist
  by (simp add: ex_store_def ex_list_def listCreate_def)

lemma listEmpty_loop_seg:
  assumes "seg (heap st) p xs None" and "distinct (map fst xs)"
  shows "\<exists>st'. listEmpty_loop (length xs) l (hd_or xs None) st = Some st'
     \<and> (\<forall>a. heap st' a = (if a \<in> addrs xs then None else heap st a))
     \<and> freed st' = freed st @ (if al_free l then map snd xs else [])"
  using assms
proof (induction xs arbitrary: p st)
  case (Cons x xs)
  define st1 where "st1 = (free_value l (snd x) st)\<lparr>heap := (heap st)(fst x := None)\<rparr>"
  have "seg (heap st1) (Some (fst x)) xs None" using Cons.prems by (simp add: st1_def)
  then obtain st' where "listEmpty_loop (length xs) l (hd_or xs None) st1 = Some st'"
    and "\<forall>a. heap st' a = (if a \<in> addrs xs then None else heap st1 a)"
    and "freed st' = freed st1 @ (if al_free l then map snd xs else [])"
    using Cons.IH Cons.prems(2) by fastforce
  then show ?case using Cons.prems by (auto simp: st1_def free_value_def)
qed auto

lemma listEmpty_dlist:
  assumes "dlist (heap st) l xs"
  shows "\<exists>st' l'. listEmpty st l = Some (st', l') \<and> dlist (heap st') l' []
     \<and> (\<forall>a. heap st' a = (if a \<in> addrs xs then None else heap st a))
     \<and> freed st' = freed st @ (if al_free l then map snd xs else [])"
  using assms listEmpty_loop_seg [of st None xs l]
  by (auto simp: listEmpty_def dlist_def)

lemma listRelease_dlist:
  assumes "dlist (heap st) l xs"
  shows "\<exists>st'. listRelease st l = Some st'
     \<and> (\<forall>a. heap st' a = (if a \<in> addrs xs then None else heap st a))"
  using listEmpty_dlist [OF assms] by (auto simp: listRelease_def)

section \<open>Rotation and concatenation\<close>

text \<open>
  the two rotations move the last node to the front and the first node to the back of the
  list, in place: the sequence of nodes is rotated by one and every link is consistent again.
\<close>

theorem listRotate_correct:
  "(dlist h l (xs @ [x]) \<longrightarrow>
      (\<exists>h' l'. listRotateTailToHead h l = Some (h', l') \<and> dlist h' l' (x # xs)
        \<and> same_outside (addrs (xs @ [x])) h h')) \<and>
   (dlist h l (x # xs) \<longrightarrow>
      (\<exists>h' l'. listRotateHeadToTail h l = Some (h', l') \<and> dlist h' l' (xs @ [x])
        \<and> same_outside (addrs (x # xs)) h h'))"
proof (cases xs)
  case Nil
  then show ?thesis
    by (auto simp: listRotateTailToHead_def listRotateHeadToTail_def dlist_def same_outside_def)
next
  case (Cons y ys)
  then show ?thesis
    by (cases ys rule: rev_cases; cases x; cases y)
      (auto simp: listRotateTailToHead_def listRotateHeadToTail_def dlist_def same_outside_def
        deref_def image_Un Let_def)
qed

theorem listRotate_correct_witness:
  "\<exists>h' l'. listRotateTailToHead ex_heap ex_list = Some (h', l') \<and> dlist h' l' [(6, 20), (5, 10)]
     \<and> same_outside {5, 6} ex_heap h'"
  using listRotate_correct [of ex_heap ex_list "[(5, 10)]" "(6, 20)"] ex_dlist by simp

text \<open>
  \<open>listJoin\<close> appends the nodes of the second list to the first without copying and leaves the
  second list empty but valid.
\<close>

theorem listJoin_correct:
  assumes "dlist h l xs" and "dlist h o2 ys" and "addrs xs \<inter> addrs ys = {}"
  shows "\<exists>h' l' o2'. listJoin h l o2 = Some (h', l', o2') \<and> dlist h' l' (xs @ ys) \<and> dlist h' o2' []
     \<and> same_outside (addrs xs \<union> addrs ys) h h'"
  using assms
  by (cases xs rule: rev_pair_cases; cases ys rule: pair_cases)
    (auto simp: listJoin_def dlist_def same_outside_def image_Un)

theorem listJoin_correct_witness:
  "\<exists>h' l' o2'. listJoin ex_heap listCreate ex_list = Some (h', l', o2')
     \<and> dlist h' l' [(5, 10), (6, 20)] \<and> dlist h' o2' [] \<and> same_outside {5, 6} ex_heap h'"
  using listJoin_correct [of ex_heap listCreate "[]" ex_list "[(5, 10), (6, 20)]"] ex_dlist dlist_create [of ex_heap]
  by simp

section \<open>Indexing, search and duplication\<close>

lemma walk_next:
  "seg h p xs None \<Longrightarrow> listIndex_walk k ln_next h (hd_or xs None)
     = Some (if k < length xs then Some (fst (xs ! k)) else None)"
proof (induction k arbitrary: p xs)
  case (Suc k)
  then show ?case by (cases xs) auto
qed (auto simp: hd_or_def split: list.splits)

lemma walk_prev:
  "seg h None xs q \<Longrightarrow> listIndex_walk k ln_prev h (last_or None xs)
     = Some (if k < length xs then Some (fst (rev xs ! k)) else None)"
proof (induction k arbitrary: q xs)
  case 0
  then show ?case by (cases xs rule: rev_cases) auto
next
  case (Suc k)
  then show ?case by (cases xs rule: rev_cases) auto
qed

text \<open>
  \<open>listIndex\<close> returns the node at a non-negative index counted from the head, at a negative
  one counted from the tail (\<open>-1\<close> is the last), and null exactly when the index is out of range.
\<close>

theorem listIndex_correct:
  assumes "dlist h l xs"
  shows "listIndex h l i = Some
     (if 0 \<le> i \<and> i < int (length xs) then Some (fst (xs ! nat i))
      else if - int (length xs) \<le> i \<and> i < 0 then Some (fst (xs ! nat (int (length xs) + i)))
      else None)"
proof -
  have seg: "seg h None xs None" and ends: "al_head l = hd_or xs None" "al_tail l = last_or None xs"
    using assms by (auto simp: dlist_def)
  have "rev xs ! nat (- i - 1) = xs ! nat (int (length xs) + i)" if "- int (length xs) \<le> i" "i < 0"
    using that by (subst rev_nth) (auto intro!: arg_cong [of _ _ "nth xs"])
  then show ?thesis
    using walk_next [OF seg, of "nat i"] walk_prev [OF seg, of "nat (- i - 1)"] ends
    by (auto simp: listIndex_def)
qed

theorem listIndex_correct_witness: "listIndex ex_heap ex_list (-2) = Some (Some 5)"
  using listIndex_correct [of ex_heap ex_list "[(5, 10), (6, 20)]" "-2"] ex_dlist by simp

lemma listSearchKey_loop_seg:
  "seg h p xs None \<Longrightarrow> listSearchKey_loop h l key \<lparr>it_next = hd_or xs None, it_direction = AL_START_HEAD\<rparr>
     = Some (map_option fst (find (\<lambda>x. list_matches l key (snd x)) xs))"
proof (induction xs arbitrary: p)
  case Nil
  show ?case by (subst listSearchKey_loop.simps) (simp add: listNext_def)
next
  case (Cons x xs)
  then show ?case
    by (subst listSearchKey_loop.simps) (auto simp: listNext_def)
qed

text \<open>
  \<open>listSearchKey\<close> terminates and returns the first node, from the head, whose value the match
  method (or plain equality without one) accepts, and null when there is none.
\<close>

theorem listSearchKey_correct:
  assumes "dlist h l xs"
  shows "listSearchKey h l key = Some (map_option fst (find (\<lambda>x. list_matches l key (snd x)) xs))"
  using assms listSearchKey_loop_seg [of h None xs l key]
  by (simp add: listSearchKey_def listRewind_def dlist_def)

theorem listSearchKey_correct_witness: "listSearchKey ex_heap ex_list 20 = Some (Some 6)"
  using listSearchKey_correct [of ex_heap ex_list "[(5, 10), (6, 20)]" 20] ex_dlist
  by (simp add: list_matches_def ex_list_def listCreate_def)

text \<open>What the copy relies on \<open>zmalloc\<close> for: an address it returns was not allocated.\<close>

definition alloc_fresh :: "('v nheap \<Rightarrow> addr option) \<Rightarrow> bool" where
  "alloc_fresh alloc \<longleftrightarrow> (\<forall>h a. alloc h = Some a \<longrightarrow> h a = None)"

text \<open>
  The state of the duplication loop: \<open>ys\<close> are the copied nodes, all allocated since the call
  started in heap \<open>h0\<close>, which is otherwise unchanged.
\<close>

definition dup_state :: "'v nheap \<Rightarrow> 'v nheap \<Rightarrow> 'v adlist \<Rightarrow> (addr \<times> 'v) list \<Rightarrow> bool" where
  "dup_state h0 h copy ys \<longleftrightarrow> dlist h copy ys \<and> same_outside (addrs ys) h0 h \<and> (\<forall>a \<in> addrs ys. h0 a = None)"

lemma dup_state_release:
  assumes "dup_state h0 (heap st) copy ys"
  shows "\<exists>st'. listRelease st copy = Some st' \<and> heap st' = h0"
  using listRelease_dlist [of st copy ys] assms by (fastforce simp: dup_state_def same_outside_def)

lemma dup_state_add:
  assumes "dup_state h0 (heap st) copy ys" and "heap st a = None"
  shows "\<exists>st' copy'. listAddNodeTail (Some a) st copy v = Some (Some (st', copy'))
     \<and> dup_state h0 (heap st') copy' (ys @ [(a, v)]) \<and> al_dup copy' = al_dup copy"
proof -
  have copy: "dlist (heap st) copy ys" using assms(1) by (simp add: dup_state_def)
  then have a: "a \<notin> addrs ys"
    using assms(2) seg_allocated [of "heap st" None ys None a] by (auto simp: dlist_def)
  show ?thesis using listAddNodeTail_dlist [OF copy assms(2), of v] assms a
    by (fastforce simp: dup_state_def same_outside_def)
qed

lemma listDup_loop_correct:
  assumes fresh: "alloc_fresh alloc"
    and "seg h0 p todo None" and "dup_state h0 (heap st) copy ys" and "al_dup copy = al_dup l"
  shows "\<exists>st' r. listDup_loop alloc \<lparr>it_next = hd_or todo None, it_direction = AL_START_HEAD\<rparr> st copy = Some (st', r)
     \<and> (case r of None \<Rightarrow> heap st' = h0
        | Some copy' \<Rightarrow> \<exists>zs. dup_state h0 (heap st') copy' (ys @ zs)
            \<and> map (Some \<circ> snd) zs = map (dup_value l \<circ> snd) todo)"
  using assms(2-)
proof (induction todo arbitrary: p st copy ys)
  case Nil
  then show ?case by (subst listDup_loop.simps) (auto simp: listNext_def intro!: exI [of _ "[]"])
next
  case (Cons x todo)
  have hx: "h0 (fst x) = Some \<lparr>ln_prev = p, ln_next = hd_or todo None, ln_value = snd x\<rparr>"
    and tl: "seg h0 (Some (fst x)) todo None" using Cons.prems(1) by auto
  have "fst x \<notin> addrs ys" using hx Cons.prems(2) by (auto simp: dup_state_def)
  then have sx: "heap st (fst x) = Some \<lparr>ln_prev = p, ln_next = hd_or todo None, ln_value = snd x\<rparr>"
    using hx Cons.prems(2) by (auto simp: dup_state_def same_outside_def)
  have dv: "dup_value copy = dup_value l" using Cons.prems(3) by (simp add: fun_eq_iff dup_value_def)
  obtain str where rel: "listRelease st copy = Some str" "heap str = h0"
    using dup_state_release [OF Cons.prems(2)] by blast
  note unfold = listDup_loop.simps [of alloc "\<lparr>it_next = hd_or (x # todo) None, it_direction = AL_START_HEAD\<rparr>" st copy]
  show ?case
  proof (cases "dup_value l (snd x)")
    case None
    then show ?thesis using rel sx dv unfolding unfold
      by (simp add: listNext_def)
  next
    case (Some v)
    show ?thesis
    proof (cases "alloc (heap st)")
      case None
      then show ?thesis using rel sx Some dv unfolding unfold
        by (simp add: listNext_def listAddNodeTail_def)
    next
      case alloc: (Some a)
      obtain st1 copy1 where add: "listAddNodeTail (Some a) st copy v = Some (Some (st1, copy1))"
        and d1: "dup_state h0 (heap st1) copy1 (ys @ [(a, v)])" and "al_dup copy1 = al_dup l"
        using dup_state_add [OF Cons.prems(2), of a v] alloc fresh Cons.prems(3) by (auto simp: alloc_fresh_def)
      then obtain st' r where loop:
          "listDup_loop alloc \<lparr>it_next = hd_or todo None, it_direction = AL_START_HEAD\<rparr> st1 copy1 = Some (st', r)"
        and r: "case r of None \<Rightarrow> heap st' = h0
            | Some copy' \<Rightarrow> \<exists>zs. dup_state h0 (heap st') copy' ((ys @ [(a, v)]) @ zs)
                \<and> map (Some \<circ> snd) zs = map (dup_value l \<circ> snd) todo"
        using Cons.IH [OF tl d1] by blast
      have "listDup_loop alloc \<lparr>it_next = hd_or (x # todo) None, it_direction = AL_START_HEAD\<rparr> st copy = Some (st', r)"
        using sx Some alloc add loop dv unfolding unfold by (simp add: listNext_def)
      moreover have "case r of None \<Rightarrow> heap st' = h0
            | Some copy' \<Rightarrow> \<exists>zs. dup_state h0 (heap st') copy' (ys @ zs)
                \<and> map (Some \<circ> snd) zs = map (dup_value l \<circ> snd) (x # todo)"
      proof (cases r)
        case r': (Some c)
        then obtain zs where "dup_state h0 (heap st') c (ys @ (a, v) # zs)"
          and "map (Some \<circ> snd) zs = map (dup_value l \<circ> snd) todo" using r by auto
        then show ?thesis using r' Some by (auto intro!: exI [of _ "(a, v) # zs"])
      qed (use r in simp)
      ultimately show ?thesis by blast
    qed
  qed
qed

text \<open>
  \<open>listDup\<close> terminates and leaves the original list as it was.  When it returns a list, that
  list consists of newly allocated nodes holding the duplicated values in the same order; when an
  allocation or the duplication method fails it returns null and has released every node it
  allocated, so that the heap is the one it started from.
\<close>

theorem listDup_correct:
  assumes fresh: "alloc_fresh alloc" and orig: "dlist (heap st) l xs"
  shows "\<exists>st' r. listDup alloc st l = Some (st', r) \<and> dlist (heap st') l xs
     \<and> (case r of None \<Rightarrow> heap st' = heap st
        | Some copy \<Rightarrow> \<exists>ys. dlist (heap st') copy ys \<and> addrs ys \<inter> addrs xs = {}
            \<and> map (Some \<circ> snd) ys = map (dup_value l \<circ> snd) xs)"
proof -
  let ?copy = "listCreate\<lparr>al_dup := al_dup l, al_free := al_free l, al_match := al_match l\<rparr>"
  have seg: "seg (heap st) None xs None" using orig by (simp add: dlist_def)
  have "dup_state (heap st) (heap st) ?copy []"
    by (simp add: dup_state_def dlist_def listCreate_def same_outside_def)
  moreover have "al_dup ?copy = al_dup l" by (simp add: listCreate_def)
  ultimately obtain st' r where
      loop: "listDup_loop alloc \<lparr>it_next = hd_or xs None, it_direction = AL_START_HEAD\<rparr> st ?copy = Some (st', r)"
    and r: "case r of None \<Rightarrow> heap st' = heap st
        | Some copy' \<Rightarrow> \<exists>zs. dup_state (heap st) (heap st') copy' ([] @ zs)
            \<and> map (Some \<circ> snd) zs = map (dup_value l \<circ> snd) xs"
    using listDup_loop_correct [OF fresh seg, of st ?copy "[]" l] by blast
  have dup: "listDup alloc st l = Some (st', r)"
    using loop orig by (simp add: listDup_def listRewind_def dlist_def)
  show ?thesis
  proof (cases r)
    case None
    then show ?thesis using dup r orig by simp
  next
    case (Some copy)
    then obtain zs where z: "dup_state (heap st) (heap st') copy zs"
      and vals: "map (Some \<circ> snd) zs = map (dup_value l \<circ> snd) xs" using r by auto
    have disj: "addrs zs \<inter> addrs xs = {}"
      using z seg_allocated [OF seg] by (fastforce simp: dup_state_def)
    have "dlist (heap st') l xs"
      using dlist_frame [OF orig _ disj] z by (simp add: dup_state_def)
    then show ?thesis using dup Some z disj vals by (auto simp: dup_state_def)
  qed
qed

theorem listDup_correct_witness:
  "\<exists>st' r. listDup (\<lambda>h. if h 7 = None then Some 7 else if h 8 = None then Some 8 else None) ex_store ex_list
        = Some (st', r) \<and> dlist (heap st') ex_list [(5, 10), (6, 20)]
     \<and> (case r of None \<Rightarrow> heap st' = heap ex_store
        | Some copy \<Rightarrow> \<exists>ys. dlist (heap st') copy ys \<and> addrs ys \<inter> addrs [(5 :: nat, 10 :: int), (6, 20)] = {}
            \<and> map (Some \<circ> snd) ys = map (dup_value ex_list \<circ> snd) [(5 :: nat, 10 :: int), (6, 20)])"
proof -
  have "alloc_fresh (\<lambda>h :: int nheap. if h 7 = None then Some 7 else if h 8 = None then Some 8 else None)"
    by (simp add: alloc_fresh_def)
  moreover have "dlist (heap ex_store) ex_list [(5, 10), (6, 20)]" using ex_dlist by (simp add: ex_store_def)
  ultimately show ?thesis by (rule listDup_correct)
qed

end
