(* ===== verification/Dict.thy ===== *)
theory Dict
  imports Redis_Prelude "HOL-Library.Multiset"
begin

text \<open>
  The hash table with incremental rehashing of \<open>src/redis-6.2.0/src/dict.c\<close>.  A bucket chain is
  the list of its entries in chain order; a null table is the empty list.  \<open>None\<close> is an access
  outside a table or a failed assertion.  The type's callbacks (hash, comparison, duplication,
  permission to expand) are fields of \<open>dictType\<close>; the global \<open>dict_can_resize\<close> is an argument of the
  operations that read it.  An entry pointer is a triple of table, bucket and position in the
  chain, valid until the dictionary changes.

  Sizes and counters are natural numbers (they count live heap objects); hashes, masks and scan
  cursors are 64-bit words.
\<close>

section \<open>Model: data\<close>

record ('k, 'v) dictEntry =
  de_key :: 'k
  de_val :: "'v option"

record ('k, 'v) dictType =
  hashFunction :: "'k \<Rightarrow> u64"
  keyDup :: "('k \<Rightarrow> 'k) option"
  valDup :: "('v \<Rightarrow> 'v) option"
  keyCompare :: "('k \<Rightarrow> 'k \<Rightarrow> bool) option"
  expandAllowed :: "(nat \<Rightarrow> nat \<Rightarrow> nat \<Rightarrow> bool) option"

record ('k, 'v) dictht =
  ht_table :: "('k, 'v) dictEntry list list"
  ht_size :: nat
  ht_sizemask :: u64
  ht_used :: nat

record ('k, 'v) dict =
  d_type :: "('k, 'v) dictType"
  d_ht0 :: "('k, 'v) dictht"
  d_ht1 :: "('k, 'v) dictht"
  d_rehashidx :: int
  d_pauserehash :: int

type_synonym entry_ref = "nat \<times> nat \<times> nat"

definition DICT_HT_INITIAL_SIZE :: nat where "DICT_HT_INITIAL_SIZE = 4"
definition dict_force_resize_ratio :: nat where "dict_force_resize_ratio = 5"

definition dictIsRehashing :: "('k, 'v) dict \<Rightarrow> bool" where
  "dictIsRehashing d \<longleftrightarrow> d_rehashidx d \<noteq> -1"

definition dictSize :: "('k, 'v) dict \<Rightarrow> nat" where
  "dictSize d = ht_used (d_ht0 d) + ht_used (d_ht1 d)"

definition dictCompareKeys :: "('k, 'v) dict \<Rightarrow> 'k \<Rightarrow> 'k \<Rightarrow> bool" where
  "dictCompareKeys d k1 k2 = (case keyCompare (d_type d) of Some cmp \<Rightarrow> cmp k1 k2 | None \<Rightarrow> k1 = k2)"

definition dictHashKey :: "('k, 'v) dict \<Rightarrow> 'k \<Rightarrow> u64" where
  "dictHashKey d k = hashFunction (d_type d) k"

definition dict_ht :: "('k, 'v) dict \<Rightarrow> nat \<Rightarrow> ('k, 'v) dictht" where
  "dict_ht d t = (if t = 0 then d_ht0 d else d_ht1 d)"

definition dict_set_ht :: "('k, 'v) dict \<Rightarrow> nat \<Rightarrow> ('k, 'v) dictht \<Rightarrow> ('k, 'v) dict" where
  "dict_set_ht d t ht = (if t = 0 then d\<lparr>d_ht0 := ht\<rparr> else d\<lparr>d_ht1 := ht\<rparr>)"

definition bucket :: "('k, 'v) dictht \<Rightarrow> nat \<Rightarrow> ('k, 'v) dictEntry list option" where
  "bucket ht i = (if i < length (ht_table ht) then Some (ht_table ht ! i) else None)"

definition dictSetVal :: "('k, 'v) dict \<Rightarrow> entry_ref \<Rightarrow> 'v \<Rightarrow> ('k, 'v) dict option" where
  "dictSetVal d ref v = (case ref of (t, i, j) \<Rightarrow> do {
     let ht = dict_ht d t;
     chain \<leftarrow> bucket ht i;
     require (j < length chain);
     let v' = (case valDup (d_type d) of Some dup \<Rightarrow> dup v | None \<Rightarrow> v);
     Some (dict_set_ht d t (ht\<lparr>ht_table := (ht_table ht)[i := chain[j := (chain ! j)\<lparr>de_val := Some v'\<rparr>]]\<rparr>))
   })"

section \<open>Model: creation and expansion\<close>

definition dictReset :: "('k, 'v) dictht" where
  "dictReset = \<lparr>ht_table = [], ht_size = 0, ht_sizemask = 0, ht_used = 0\<rparr>"

definition dictInit :: "('k, 'v) dictType \<Rightarrow> ('k, 'v) dict" where
  "dictInit type = \<lparr>d_type = type, d_ht0 = dictReset, d_ht1 = dictReset, d_rehashidx = -1, d_pauserehash = 0\<rparr>"

definition dictCreate :: "('k, 'v) dictType \<Rightarrow> ('k, 'v) dict" where
  "dictCreate type = dictInit type"

partial_function (option) dictNextPower_loop :: "nat \<Rightarrow> nat \<Rightarrow> nat option" where
  "dictNextPower_loop i sz = (if i \<ge> sz then Some i else dictNextPower_loop (i * 2) sz)"

definition dictNextPower :: "nat \<Rightarrow> nat option" where
  "dictNextPower sz =
     (if sz \<ge> 9223372036854775807 then Some 9223372036854775808
      else dictNextPower_loop DICT_HT_INITIAL_SIZE sz)"

text \<open>
  \<open>try_ok\<close> is \<open>None\<close> when the caller passes no \<open>malloc_failed\<close> pointer (\<open>zcalloc\<close> then returns or the
  server aborts), and otherwise says whether \<open>ztrycalloc\<close> succeeds.  The number of bytes requested,
  \<open>realsize * sizeof(dictEntry*)\<close>, is computed in \<open>size_t\<close> and wraps modulo \<open>2 ^ 64\<close>.  The result is the
  dictionary, whether \<open>DICT_OK\<close> is returned, and \<open>*malloc_failed\<close>.
\<close>

definition dictExpand_gen ::
  "bool option \<Rightarrow> ('k, 'v) dict \<Rightarrow> nat \<Rightarrow> (('k, 'v) dict \<times> bool \<times> bool) option" where
  "dictExpand_gen try_ok d sz =
     (if dictIsRehashing d \<or> ht_used (d_ht0 d) > sz then Some (d, False, False)
      else do {
        realsize \<leftarrow> dictNextPower sz;
        if realsize = ht_size (d_ht0 d) then Some (d, False, False)
        else if try_ok = Some False then Some (d, False, True)
        else do {
          let n = \<lparr>ht_table = replicate (((realsize * 8) mod 18446744073709551616) div 8) [],
                   ht_size = realsize, ht_sizemask = word_of_nat (realsize - 1), ht_used = 0\<rparr>;
          if ht_table (d_ht0 d) = [] then Some (d\<lparr>d_ht0 := n\<rparr>, True, False)
          else Some (d\<lparr>d_ht1 := n, d_rehashidx := 0\<rparr>, True, False)
        }
      })"

definition dictExpand :: "('k, 'v) dict \<Rightarrow> nat \<Rightarrow> (('k, 'v) dict \<times> bool) option" where
  "dictExpand d sz = map_option (\<lambda>(d', ok, _). (d', ok)) (dictExpand_gen None d sz)"

definition dictTryExpand :: "bool \<Rightarrow> ('k, 'v) dict \<Rightarrow> nat \<Rightarrow> (('k, 'v) dict \<times> bool) option" where
  "dictTryExpand alloc_ok d sz = map_option (\<lambda>(d', _, failed). (d', \<not> failed)) (dictExpand_gen (Some alloc_ok) d sz)"

definition dictResize :: "bool \<Rightarrow> ('k, 'v) dict \<Rightarrow> (('k, 'v) dict \<times> bool) option" where
  "dictResize can_resize d =
     (if \<not> can_resize \<or> dictIsRehashing d then Some (d, False)
      else let minimal = ht_used (d_ht0 d);
               minimal' = (if minimal < DICT_HT_INITIAL_SIZE then DICT_HT_INITIAL_SIZE else minimal)
           in dictExpand d minimal')"

section \<open>Model: incremental rehashing\<close>

text \<open>
  The scan over empty buckets: the new \<open>rehashidx\<close>, the visits left and whether the budget of
  empty visits ran out.
\<close>

function skip_empty :: "('k, 'v) dictEntry list list \<Rightarrow> nat \<Rightarrow> int \<Rightarrow> (nat \<times> int \<times> bool) option" where
  "skip_empty tbl idx ev =
     (if idx < length tbl then
        (if tbl ! idx = [] then
           (if ev - 1 = 0 then Some (idx + 1, ev - 1, True) else skip_empty tbl (idx + 1) (ev - 1))
         else Some (idx, ev, False))
      else None)"
  by pat_completeness auto
termination
  by (relation "measure (\<lambda>(tbl, idx, ev). length tbl - idx)") auto

declare skip_empty.simps [simp del]

fun move_chain :: "('k, 'v) dict \<Rightarrow> ('k, 'v) dictEntry list \<Rightarrow> ('k, 'v) dict option" where
  "move_chain d [] = Some d"
| "move_chain d (de # rest) = do {
     let h = unat (dictHashKey d (de_key de) AND ht_sizemask (d_ht1 d));
     chain \<leftarrow> bucket (d_ht1 d) h;
     let ht0 = (d_ht0 d)\<lparr>ht_used := ht_used (d_ht0 d) - 1\<rparr>;
     let ht1 = (d_ht1 d)\<lparr>ht_table := (ht_table (d_ht1 d))[h := de # chain], ht_used := ht_used (d_ht1 d) + 1\<rparr>;
     move_chain (d\<lparr>d_ht0 := ht0, d_ht1 := ht1\<rparr>) rest
   }"

primrec dictRehash_loop :: "nat \<Rightarrow> int \<Rightarrow> ('k, 'v) dict \<Rightarrow> (('k, 'v) dict \<times> bool) option" where
  "dictRehash_loop 0 ev d = Some (d, False)"
| "dictRehash_loop (Suc n) ev d =
     (if ht_used (d_ht0 d) = 0 then Some (d, False)
      else do {
        require (int (ht_size (d_ht0 d)) > d_rehashidx d);
        (idx, ev', stop) \<leftarrow> skip_empty (ht_table (d_ht0 d)) (nat (d_rehashidx d)) ev;
        let d1 = d\<lparr>d_rehashidx := int idx\<rparr>;
        if stop then Some (d1, True)
        else do {
          d2 \<leftarrow> move_chain d1 (ht_table (d_ht0 d1) ! idx);
          let d3 = d2\<lparr>d_ht0 := (d_ht0 d2)\<lparr>ht_table := (ht_table (d_ht0 d2))[idx := []]\<rparr>,
                      d_rehashidx := d_rehashidx d2 + 1\<rparr>;
          dictRehash_loop n ev' d3
        }
      })"

definition dictRehash :: "('k, 'v) dict \<Rightarrow> nat \<Rightarrow> (('k, 'v) dict \<times> bool) option" where
  "dictRehash d n =
     (if \<not> dictIsRehashing d then Some (d, False)
      else do {
        (d', stop) \<leftarrow> dictRehash_loop n (int n * 10) d;
        if stop then Some (d', True)
        else if ht_used (d_ht0 d') = 0
        then Some (d'\<lparr>d_ht0 := d_ht1 d', d_ht1 := dictReset, d_rehashidx := -1\<rparr>, False)
        else Some (d', True)
      })"

definition dictRehashStep :: "('k, 'v) dict \<Rightarrow> ('k, 'v) dict option" where
  "dictRehashStep d = (if d_pauserehash d = 0 then map_option fst (dictRehash d 1) else Some d)"

definition rehash_if_needed :: "('k, 'v) dict \<Rightarrow> ('k, 'v) dict option" where
  "rehash_if_needed d = (if dictIsRehashing d then dictRehashStep d else Some d)"

section \<open>Model: lookup, insertion, deletion\<close>

definition dictTypeExpandAllowed :: "('k, 'v) dict \<Rightarrow> bool option" where
  "dictTypeExpandAllowed d =
     (case expandAllowed (d_type d) of
        None \<Rightarrow> Some True
      | Some f \<Rightarrow> do {
          p \<leftarrow> dictNextPower (ht_used (d_ht0 d) + 1);
          Some (f (p * 8) (ht_used (d_ht0 d)) (ht_size (d_ht0 d)))
        })"

definition dictExpandIfNeeded :: "bool \<Rightarrow> ('k, 'v) dict \<Rightarrow> (('k, 'v) dict \<times> bool) option" where
  "dictExpandIfNeeded can_resize d =
     (if dictIsRehashing d then Some (d, True)
      else if ht_size (d_ht0 d) = 0 then dictExpand d DICT_HT_INITIAL_SIZE
      else if ht_used (d_ht0 d) \<ge> ht_size (d_ht0 d)
              \<and> (can_resize \<or> ht_used (d_ht0 d) div ht_size (d_ht0 d) > dict_force_resize_ratio)
      then do {
        allowed \<leftarrow> dictTypeExpandAllowed d;
        if allowed then dictExpand d (ht_used (d_ht0 d) + 1) else Some (d, True)
      }
      else Some (d, True))"

definition same_key :: "('k, 'v) dict \<Rightarrow> 'k \<Rightarrow> 'k \<Rightarrow> bool" where
  "same_key d k k' \<longleftrightarrow> k = k' \<or> dictCompareKeys d k k'"

fun chain_find :: "('k, 'v) dict \<Rightarrow> 'k \<Rightarrow> ('k, 'v) dictEntry list \<Rightarrow> nat option" where
  "chain_find d key [] = None"
| "chain_find d key (he # next) =
     (if same_key d key (de_key he) then Some 0 else map_option Suc (chain_find d key next))"

text \<open>
  The loop over the tables shared by \<open>dictFind\<close>, \<open>_dictKeyIndex\<close> and \<open>dictGenericDelete\<close>: the entry
  found, if any, and the bucket index of the last table looked at.
\<close>

definition dict_search :: "('k, 'v) dict \<Rightarrow> 'k \<Rightarrow> u64 \<Rightarrow> (entry_ref option \<times> nat) option" where
  "dict_search d key hash = do {
     let idx = unat (hash AND ht_sizemask (d_ht0 d));
     chain \<leftarrow> bucket (d_ht0 d) idx;
     (case chain_find d key chain of
        Some j \<Rightarrow> Some (Some (0, idx, j), idx)
      | None \<Rightarrow>
          if \<not> dictIsRehashing d then Some (None, idx)
          else do {
            let idx1 = unat (hash AND ht_sizemask (d_ht1 d));
            chain1 \<leftarrow> bucket (d_ht1 d) idx1;
            (case chain_find d key chain1 of
               Some j \<Rightarrow> Some (Some (1, idx1, j), idx1)
             | None \<Rightarrow> Some (None, idx1))
          })
   }"

text \<open>\<open>Inl\<close> is the result \<open>-1\<close> with what \<open>*existing\<close> is set to, \<open>Inr\<close> a free slot.\<close>

definition dictKeyIndex ::
  "bool \<Rightarrow> ('k, 'v) dict \<Rightarrow> 'k \<Rightarrow> u64 \<Rightarrow> (('k, 'v) dict \<times> (entry_ref option + nat)) option" where
  "dictKeyIndex can_resize d key hash = do {
     (d', ok) \<leftarrow> dictExpandIfNeeded can_resize d;
     if \<not> ok then Some (d', Inl None)
     else do {
       (found, idx) \<leftarrow> dict_search d' key hash;
       (case found of Some ref \<Rightarrow> Some (d', Inl (Some ref)) | None \<Rightarrow> Some (d', Inr idx))
     }
   }"

definition dictSetKey :: "('k, 'v) dict \<Rightarrow> 'k \<Rightarrow> 'k" where
  "dictSetKey d key = (case keyDup (d_type d) of Some dup \<Rightarrow> dup key | None \<Rightarrow> key)"

text \<open>\<open>Inl\<close> is a null result with \<open>*existing\<close>, \<open>Inr\<close> the new entry, whose value is not set yet.\<close>

definition dictAddRaw ::
  "bool \<Rightarrow> ('k, 'v) dict \<Rightarrow> 'k \<Rightarrow> (('k, 'v) dict \<times> (entry_ref option + entry_ref)) option" where
  "dictAddRaw can_resize d key = do {
     d1 \<leftarrow> rehash_if_needed d;
     (d2, index) \<leftarrow> dictKeyIndex can_resize d1 key (dictHashKey d1 key);
     (case index of
        Inl existing \<Rightarrow> Some (d2, Inl existing)
      | Inr i \<Rightarrow> do {
          let t = (if dictIsRehashing d2 then 1 else 0);
          let ht = dict_ht d2 t;
          chain \<leftarrow> bucket ht i;
          let entry = \<lparr>de_key = dictSetKey d2 key, de_val = None\<rparr>;
          let ht' = ht\<lparr>ht_table := (ht_table ht)[i := entry # chain], ht_used := ht_used ht + 1\<rparr>;
          Some (dict_set_ht d2 t ht', Inr (t, i, 0))
        })
   }"

definition dictAdd :: "bool \<Rightarrow> ('k, 'v) dict \<Rightarrow> 'k \<Rightarrow> 'v \<Rightarrow> (('k, 'v) dict \<times> bool) option" where
  "dictAdd can_resize d key v = do {
     (d', r) \<leftarrow> dictAddRaw can_resize d key;
     (case r of
        Inl _ \<Rightarrow> Some (d', False)
      | Inr ref \<Rightarrow> map_option (\<lambda>d''. (d'', True)) (dictSetVal d' ref v))
   }"

definition dictReplace :: "bool \<Rightarrow> ('k, 'v) dict \<Rightarrow> 'k \<Rightarrow> 'v \<Rightarrow> (('k, 'v) dict \<times> bool) option" where
  "dictReplace can_resize d key v = do {
     (d', r) \<leftarrow> dictAddRaw can_resize d key;
     (case r of
        Inr ref \<Rightarrow> map_option (\<lambda>d''. (d'', True)) (dictSetVal d' ref v)
      | Inl (Some ref) \<Rightarrow> map_option (\<lambda>d''. (d'', False)) (dictSetVal d' ref v)
      | Inl None \<Rightarrow> None)
   }"

definition dictAddOrFind :: "bool \<Rightarrow> ('k, 'v) dict \<Rightarrow> 'k \<Rightarrow> (('k, 'v) dict \<times> entry_ref option) option" where
  "dictAddOrFind can_resize d key = do {
     (d', r) \<leftarrow> dictAddRaw can_resize d key;
     (case r of Inr ref \<Rightarrow> Some (d', Some ref) | Inl existing \<Rightarrow> Some (d', existing))
   }"

definition dict_entry :: "('k, 'v) dict \<Rightarrow> entry_ref \<Rightarrow> ('k, 'v) dictEntry option" where
  "dict_entry d ref = (case ref of (t, i, j) \<Rightarrow> do {
     chain \<leftarrow> bucket (dict_ht d t) i;
     require (j < length chain);
     Some (chain ! j)
   })"

definition dictGenericDelete :: "('k, 'v) dict \<Rightarrow> 'k \<Rightarrow> (('k, 'v) dict \<times> ('k, 'v) dictEntry option) option" where
  "dictGenericDelete d key =
     (if ht_used (d_ht0 d) = 0 \<and> ht_used (d_ht1 d) = 0 then Some (d, None)
      else do {
        d1 \<leftarrow> rehash_if_needed d;
        (found, _) \<leftarrow> dict_search d1 key (dictHashKey d1 key);
        (case found of
           None \<Rightarrow> Some (d1, None)
         | Some (t, i, j) \<Rightarrow> do {
             let ht = dict_ht d1 t;
             chain \<leftarrow> bucket ht i;
             he \<leftarrow> dict_entry d1 (t, i, j);
             let ht' = ht\<lparr>ht_table := (ht_table ht)[i := take j chain @ drop (Suc j) chain],
                          ht_used := ht_used ht - 1\<rparr>;
             Some (dict_set_ht d1 t ht', Some he)
           })
      })"

definition dictDelete :: "('k, 'v) dict \<Rightarrow> 'k \<Rightarrow> (('k, 'v) dict \<times> bool) option" where
  "dictDelete d key = map_option (\<lambda>(d', he). (d', he \<noteq> None)) (dictGenericDelete d key)"

definition dictUnlink :: "('k, 'v) dict \<Rightarrow> 'k \<Rightarrow> (('k, 'v) dict \<times> ('k, 'v) dictEntry option) option" where
  "dictUnlink d key = dictGenericDelete d key"

definition dictFind :: "('k, 'v) dict \<Rightarrow> 'k \<Rightarrow> (('k, 'v) dict \<times> entry_ref option) option" where
  "dictFind d key =
     (if dictSize d = 0 then Some (d, None)
      else do {
        d1 \<leftarrow> rehash_if_needed d;
        (found, _) \<leftarrow> dict_search d1 key (dictHashKey d1 key);
        Some (d1, found)
      })"

definition dictFetchValue :: "('k, 'v) dict \<Rightarrow> 'k \<Rightarrow> (('k, 'v) dict \<times> 'v option) option" where
  "dictFetchValue d key = do {
     (d1, he) \<leftarrow> dictFind d key;
     (case he of
        None \<Rightarrow> Some (d1, None)
      | Some ref \<Rightarrow> do { e \<leftarrow> dict_entry d1 ref; Some (d1, de_val e) })
   }"

text \<open>\<open>_dictClear\<close> destroys the entries of a table bucket by bucket until none is counted any more.\<close>

function dictClear_loop :: "('k, 'v) dictEntry list list \<Rightarrow> nat \<Rightarrow> nat \<Rightarrow> nat \<Rightarrow> ('k, 'v) dictEntry list \<Rightarrow> ('k, 'v) dictEntry list option" where
  "dictClear_loop tbl sz i used destroyed =
     (if i < sz \<and> used > 0 then
        (if i < length tbl
         then dictClear_loop tbl sz (i + 1) (used - length (tbl ! i)) (destroyed @ tbl ! i)
         else None)
      else Some destroyed)"
  by pat_completeness auto
termination
  by (relation "measure (\<lambda>(tbl, sz, i, used, destroyed). sz - i)") auto

declare dictClear_loop.simps [simp del]

definition dictClear :: "('k, 'v) dictht \<Rightarrow> (('k, 'v) dictht \<times> ('k, 'v) dictEntry list) option" where
  "dictClear ht = do {
     destroyed \<leftarrow> dictClear_loop (ht_table ht) (ht_size ht) 0 (ht_used ht) [];
     Some (dictReset, destroyed)
   }"

definition dictEmpty :: "('k, 'v) dict \<Rightarrow> (('k, 'v) dict \<times> ('k, 'v) dictEntry list) option" where
  "dictEmpty d = do {
     (ht0, x) \<leftarrow> dictClear (d_ht0 d);
     (ht1, y) \<leftarrow> dictClear (d_ht1 d);
     Some (d\<lparr>d_ht0 := ht0, d_ht1 := ht1, d_rehashidx := -1, d_pauserehash := 0\<rparr>, x @ y)
   }"

definition dictRelease :: "('k, 'v) dict \<Rightarrow> ('k, 'v) dictEntry list option" where
  "dictRelease d = do {
     (ht0, x) \<leftarrow> dictClear (d_ht0 d);
     (ht1, y) \<leftarrow> dictClear (d_ht1 d);
     Some (x @ y)
   }"

section \<open>Invariant and abstraction\<close>

text \<open>
  The abstract value of a dictionary is the multiset of its entries; the invariant says that both
  tables have a power-of-two size and matching mask and counter, that every entry sits in the
  bucket its hash selects, that the buckets below \<open>rehashidx\<close> are empty while rehashing, and that
  no two entries have the same key.
\<close>

definition type_ok :: "('k, 'v) dictType \<Rightarrow> bool" where
  "type_ok ty \<longleftrightarrow> (case keyCompare ty of None \<Rightarrow> True
     | Some cmp \<Rightarrow> equivp cmp \<and> (\<forall>k k'. cmp k k' \<longrightarrow> hashFunction ty k = hashFunction ty k'))
   \<and> (case keyDup ty of None \<Rightarrow> True
     | Some dup \<Rightarrow> (\<forall>k. case keyCompare ty of None \<Rightarrow> dup k = k | Some cmp \<Rightarrow> cmp k (dup k)))"

definition ht_entries :: "('k, 'v) dictht \<Rightarrow> ('k, 'v) dictEntry multiset" where
  "ht_entries ht = mset (concat (ht_table ht))"

definition dict_entries :: "('k, 'v) dict \<Rightarrow> ('k, 'v) dictEntry multiset" where
  "dict_entries d = ht_entries (d_ht0 d) + ht_entries (d_ht1 d)"

definition placed :: "('k \<Rightarrow> u64) \<Rightarrow> ('k, 'v) dictht \<Rightarrow> bool" where
  "placed hash ht \<longleftrightarrow> (\<forall>i < length (ht_table ht). \<forall>e \<in> set (ht_table ht ! i).
     unat (hash (de_key e) AND ht_sizemask ht) = i)"

definition ht_alloc :: "('k \<Rightarrow> u64) \<Rightarrow> ('k, 'v) dictht \<Rightarrow> bool" where
  "ht_alloc hash ht \<longleftrightarrow> (\<exists>k \<le> 60. ht_size ht = 2 ^ k \<and> ht_sizemask ht = mask k)
     \<and> length (ht_table ht) = ht_size ht \<and> ht_used ht = size (ht_entries ht) \<and> placed hash ht"

definition keys_unique :: "('k, 'v) dict \<Rightarrow> bool" where
  "keys_unique d \<longleftrightarrow> (\<forall>k. size (filter_mset (\<lambda>e. same_key d k (de_key e)) (dict_entries d)) \<le> 1)"

definition dict_wf :: "('k, 'v) dict \<Rightarrow> bool" where
  "dict_wf d \<longleftrightarrow> type_ok (d_type d) \<and> keys_unique d
     \<and> (if dictIsRehashing d
        then ht_alloc (dictHashKey d) (d_ht0 d) \<and> ht_alloc (dictHashKey d) (d_ht1 d)
          \<and> 0 \<le> d_rehashidx d
          \<and> (\<forall>i < length (ht_table (d_ht0 d)). int i < d_rehashidx d \<longrightarrow> ht_table (d_ht0 d) ! i = [])
        else (d_ht0 d = dictReset \<or> ht_alloc (dictHashKey d) (d_ht0 d)) \<and> d_ht1 d = dictReset)"

lemma unat_and_mask_less: "unat (w AND mask k :: u64) < 2 ^ k"
  unfolding unat_eq_nat_uint using and_mask_lt_2p [of w k] by (subst nat_less_iff) auto

lemma ht_index_less: "ht_alloc hash ht \<Longrightarrow> unat (h AND ht_sizemask ht) < length (ht_table ht)"
  using unat_and_mask_less by (auto simp: ht_alloc_def)

lemma bucket_ok [simp]: "i < length (ht_table ht) \<Longrightarrow> bucket ht i = Some (ht_table ht ! i)"
  by (simp add: bucket_def)

lemma filter_mset_empty: "filter_mset P M = {#} \<Longrightarrow> \<forall>x \<in># M. \<not> P x"
  by (induction M) (auto split: if_splits)

lemma mset_concat_update:
  assumes "i < length t"
  shows "mset (concat (t[i := xs])) + mset (t ! i) = mset (concat t) + mset xs"
proof -
  have "mset (concat (t[i := xs])) = mset (concat (take i t)) + mset xs + mset (concat (drop (Suc i) t))"
    using assms by (simp add: upd_conv_take_nth_drop)
  moreover have "mset (concat t) = mset (concat (take i t)) + mset (t ! i) + mset (concat (drop (Suc i) t))"
    by (subst id_take_nth_drop [OF assms]) (simp add: ac_simps)
  ultimately show ?thesis by (simp add: ac_simps)
qed

lemma ht_entries_update:
  assumes "i < length (ht_table ht)"
  shows "ht_entries (ht\<lparr>ht_table := (ht_table ht)[i := xs], ht_used := u\<rparr>) + mset (ht_table ht ! i)
     = ht_entries ht + mset xs"
  using mset_concat_update [OF assms] by (simp add: ht_entries_def)

lemma placed_update:
  assumes "placed hash ht" and "\<forall>e \<in> set xs. unat (hash (de_key e) AND ht_sizemask ht) = i"
  shows "placed hash (ht\<lparr>ht_table := (ht_table ht)[i := xs], ht_used := u\<rparr>)"
  unfolding placed_def
proof (intro allI impI ballI)
  let ?ht' = "ht\<lparr>ht_table := (ht_table ht)[i := xs], ht_used := u\<rparr>"
  fix j e assume "j < length (ht_table ?ht')" and "e \<in> set (ht_table ?ht' ! j)"
  then show "unat (hash (de_key e) AND ht_sizemask ?ht') = j"
    using assms by (cases "j = i") (auto simp: placed_def)
qed

lemma ht_alloc_update:
  assumes "ht_alloc hash ht" and "i < length (ht_table ht)"
    and "\<forall>e \<in> set xs. unat (hash (de_key e) AND ht_sizemask ht) = i"
    and "u + length (ht_table ht ! i) = ht_used ht + length xs"
  shows "ht_alloc hash (ht\<lparr>ht_table := (ht_table ht)[i := xs], ht_used := u\<rparr>)"
proof -
  let ?ht' = "ht\<lparr>ht_table := (ht_table ht)[i := xs], ht_used := u\<rparr>"
  have "size (ht_entries ?ht') + length (ht_table ht ! i) = size (ht_entries ht) + length xs"
    using arg_cong [OF ht_entries_update [OF assms(2), where xs = xs and u = u], of size] by simp
  then have "u = size (ht_entries ?ht')" using assms(1,4) by (simp add: ht_alloc_def)
  then show ?thesis using assms placed_update [where hash = hash and ht = ht and xs = xs and i = i and u = u] by (simp add: ht_alloc_def)
qed

lemma chain_le_used:
  assumes "ht_alloc hash ht" and "i < length (ht_table ht)"
  shows "length (ht_table ht ! i) \<le> ht_used ht"
proof -
  have "size (mset (ht_table ht ! i)) \<le> size (mset (concat (ht_table ht)))"
    using arg_cong [OF mset_concat_update [OF assms(2), of "[]"], of size] by simp
  then show ?thesis using assms(1) by (simp add: ht_alloc_def ht_entries_def)
qed

lemma set_ht_entries: "e \<in># ht_entries ht \<longleftrightarrow> (\<exists>i < length (ht_table ht). e \<in> set (ht_table ht ! i))"
  by (auto simp: ht_entries_def in_set_conv_nth) (metis in_set_conv_nth nth_mem)+

lemma ht_entries_reset [simp]: "ht_entries dictReset = {#}"
  by (simp add: ht_entries_def dictReset_def)

lemma ht_reset_used [simp]: "ht_used dictReset = 0" "ht_size dictReset = 0" "ht_table dictReset = []"
    "ht_sizemask dictReset = 0"
  by (simp_all add: dictReset_def)

subsection \<open>Keys\<close>

lemma same_key_equivp: "type_ok (d_type d) \<Longrightarrow> equivp (same_key d)"
proof (cases "keyCompare (d_type d)")
  case None
  then have "same_key d = (=)" by (simp add: fun_eq_iff same_key_def dictCompareKeys_def)
  then show ?thesis by (simp add: identity_equivp)
next
  case (Some cmp)
  assume "type_ok (d_type d)"
  then have "equivp cmp" using Some by (simp add: type_ok_def)
  moreover then have "same_key d = cmp"
    using Some equivp_reflp by (fastforce simp: fun_eq_iff same_key_def dictCompareKeys_def)
  ultimately show ?thesis by simp
qed

lemma same_key_refl [simp]: "same_key d k k"
  by (simp add: same_key_def)

lemma same_key_sym: "type_ok (d_type d) \<Longrightarrow> same_key d k k' \<Longrightarrow> same_key d k' k"
  using same_key_equivp equivp_symp by fastforce

lemma same_key_trans: "type_ok (d_type d) \<Longrightarrow> same_key d a b \<Longrightarrow> same_key d b c \<Longrightarrow> same_key d a c"
  using same_key_equivp equivp_transp by fastforce

lemma same_key_hash: "type_ok (d_type d) \<Longrightarrow> same_key d k k' \<Longrightarrow> dictHashKey d k = dictHashKey d k'"
  by (auto simp: same_key_def dictCompareKeys_def dictHashKey_def type_ok_def split: option.splits)

lemma same_key_dup: "type_ok (d_type d) \<Longrightarrow> same_key d k (dictSetKey d k)"
  by (fastforce simp: same_key_def dictCompareKeys_def dictSetKey_def type_ok_def split: option.splits)

lemma dictHashKey_eq: "dictHashKey d = hashFunction (d_type d)"
  by (simp add: fun_eq_iff dictHashKey_def)

lemma same_key_cong: "d_type d' = d_type d \<Longrightarrow> same_key d' = same_key d"
  by (simp add: fun_eq_iff same_key_def dictCompareKeys_def)

lemma dictHashKey_cong: "d_type d' = d_type d \<Longrightarrow> dictHashKey d' = dictHashKey d"
  by (simp add: fun_eq_iff dictHashKey_def)

lemma keys_unique_cong:
  "d_type d' = d_type d \<Longrightarrow> dict_entries d' = dict_entries d \<Longrightarrow> keys_unique d' = keys_unique d"
  by (simp add: keys_unique_def same_key_cong [of d' d])

subsection \<open>Rehashing\<close>

lemma move_chain_correct:
  assumes "ht_alloc (dictHashKey d) (d_ht1 d)"
  shows "\<exists>ht1. move_chain d es = Some (d\<lparr>d_ht0 := (d_ht0 d)\<lparr>ht_used := ht_used (d_ht0 d) - length es\<rparr>, d_ht1 := ht1\<rparr>)
     \<and> ht_alloc (dictHashKey d) ht1 \<and> ht_entries ht1 = ht_entries (d_ht1 d) + mset es"
  using assms
proof (induction es arbitrary: d)
  case (Cons e es)
  let ?ht1 = "d_ht1 d"
  define h where "h = unat (dictHashKey d (de_key e) AND ht_sizemask ?ht1)"
  have h: "h < length (ht_table ?ht1)" unfolding h_def using Cons.prems by (rule ht_index_less)
  define ht' where "ht' = ?ht1\<lparr>ht_table := (ht_table ?ht1)[h := e # ht_table ?ht1 ! h], ht_used := ht_used ?ht1 + 1\<rparr>"
  have "\<forall>x \<in> set (ht_table ?ht1 ! h). unat (dictHashKey d (de_key x) AND ht_sizemask ?ht1) = h"
    using Cons.prems h by (simp add: ht_alloc_def placed_def)
  then have alloc: "ht_alloc (dictHashKey d) ht'"
    unfolding ht'_def using Cons.prems h by (intro ht_alloc_update) (auto simp: h_def)
  have ent: "ht_entries ht' = ht_entries ?ht1 + {#e#}"
    using ht_entries_update [OF h, where xs = "e # ht_table ?ht1 ! h" and u = "ht_used ?ht1 + 1"] by (simp add: ht'_def)
  define d' where "d' = d\<lparr>d_ht0 := (d_ht0 d)\<lparr>ht_used := ht_used (d_ht0 d) - 1\<rparr>, d_ht1 := ht'\<rparr>"
  have "dictHashKey d' = dictHashKey d" by (rule dictHashKey_cong) (simp add: d'_def)
  then obtain ht1 where "move_chain d' es
        = Some (d'\<lparr>d_ht0 := (d_ht0 d')\<lparr>ht_used := ht_used (d_ht0 d') - length es\<rparr>, d_ht1 := ht1\<rparr>)"
    and "ht_alloc (dictHashKey d) ht1" and "ht_entries ht1 = ht_entries ht' + mset es"
    using Cons.IH [of d'] alloc by (auto simp: d'_def)
  moreover have "move_chain d (e # es) = move_chain d' es"
    using h by (simp add: h_def [symmetric] ht'_def d'_def)
  ultimately show ?case using ent by (intro exI [of _ ht1]) (simp add: d'_def)
qed (auto intro!: exI [of _ "d_ht1 _"])

lemma skip_empty_correct:
  assumes "idx \<le> i" and "i < length tbl" and "tbl ! i \<noteq> []" and "0 < ev"
  shows "\<exists>idx' ev' stop. skip_empty tbl idx ev = Some (idx', ev', stop) \<and> idx \<le> idx' \<and> idx' \<le> i
     \<and> (\<forall>j. idx \<le> j \<and> j < idx' \<longrightarrow> tbl ! j = []) \<and> (\<not> stop \<longrightarrow> tbl ! idx' \<noteq> [] \<and> 0 < ev')"
  using assms
proof (induction tbl idx ev rule: skip_empty.induct)
  case (1 tbl idx ev)
  show ?case
  proof (cases "tbl ! idx = []")
    case False
    then show ?thesis using "1.prems" by (subst skip_empty.simps) auto
  next
    case True
    then have lt: "idx < i" using "1.prems" by (metis le_neq_implies_less)
    then have len: "idx < length tbl" using "1.prems" by simp
    show ?thesis
    proof (cases "ev - 1 = 0")
      case stop: True
      have "\<forall>j. idx \<le> j \<and> j < idx + 1 \<longrightarrow> tbl ! j = []" using True by (auto simp: less_Suc_eq_le)
      then show ?thesis using stop True lt len by (subst skip_empty.simps) auto
    next
      case False
      then obtain idx' ev' stop where r: "skip_empty tbl (idx + 1) (ev - 1) = Some (idx', ev', stop)"
        and "idx + 1 \<le> idx'" "idx' \<le> i" "\<forall>j. idx + 1 \<le> j \<and> j < idx' \<longrightarrow> tbl ! j = []"
        and "\<not> stop \<longrightarrow> tbl ! idx' \<noteq> [] \<and> 0 < ev'"
        using "1.IH" [OF len True] "1.prems" lt by auto
      moreover from this True have "\<forall>j. idx \<le> j \<and> j < idx' \<longrightarrow> tbl ! j = []"
        using all_from_Suc [of idx idx' "\<lambda>j. tbl ! j = []"] by auto
      ultimately show ?thesis using False True len by (subst skip_empty.simps) auto
    qed
  qed
qed

text \<open>The part of the invariant that concerns a dictionary in the middle of a rehash.\<close>

definition rehash_inv :: "('k, 'v) dict \<Rightarrow> bool" where
  "rehash_inv d \<longleftrightarrow> ht_alloc (dictHashKey d) (d_ht0 d) \<and> ht_alloc (dictHashKey d) (d_ht1 d)
     \<and> 0 \<le> d_rehashidx d
     \<and> (\<forall>i < length (ht_table (d_ht0 d)). int i < d_rehashidx d \<longrightarrow> ht_table (d_ht0 d) ! i = [])"

definition same_dict :: "('k, 'v) dict \<Rightarrow> ('k, 'v) dict \<Rightarrow> bool" where
  "same_dict d d' \<longleftrightarrow> d_type d' = d_type d \<and> d_pauserehash d' = d_pauserehash d \<and> dict_entries d' = dict_entries d"

lemma same_dict_refl [simp]: "same_dict d d"
  by (simp add: same_dict_def)

lemma same_dict_trans: "same_dict a b \<Longrightarrow> same_dict b c \<Longrightarrow> same_dict a c"
  by (simp add: same_dict_def)

lemma rehash_inv_nonempty:
  assumes "rehash_inv d" and "ht_used (d_ht0 d) \<noteq> 0"
  obtains i where "i < length (ht_table (d_ht0 d))" "ht_table (d_ht0 d) ! i \<noteq> []" "d_rehashidx d \<le> int i"
proof -
  have "ht_entries (d_ht0 d) \<noteq> {#}" using assms by (auto simp: rehash_inv_def ht_alloc_def)
  then obtain e where "e \<in># ht_entries (d_ht0 d)" by blast
  then obtain i where "i < length (ht_table (d_ht0 d))" "e \<in> set (ht_table (d_ht0 d) ! i)"
    by (auto simp: set_ht_entries)
  moreover from this have "ht_table (d_ht0 d) ! i \<noteq> []" by auto
  ultimately show ?thesis using that assms(1) by (force simp: rehash_inv_def)
qed

text \<open>
  Moving one bucket: the step at the heart of the rehash loop.\<close>

lemma rehash_bucket:
  assumes inv: "rehash_inv d" and idx: "idx < length (ht_table (d_ht0 d))" and "d_rehashidx d \<le> int idx"
    and empty: "\<And>j. d_rehashidx d \<le> int j \<Longrightarrow> j < idx \<Longrightarrow> ht_table (d_ht0 d) ! j = []"
  shows "\<exists>d2. move_chain (d\<lparr>d_rehashidx := int idx\<rparr>) (ht_table (d_ht0 d) ! idx) = Some d2 \<and>
     (let d3 = d2\<lparr>d_ht0 := (d_ht0 d2)\<lparr>ht_table := (ht_table (d_ht0 d2))[idx := []]\<rparr>, d_rehashidx := d_rehashidx d2 + 1\<rparr>
      in rehash_inv d3 \<and> same_dict d d3)"
proof -
  let ?d1 = "d\<lparr>d_rehashidx := int idx\<rparr>" and ?ht0 = "d_ht0 d" and ?es = "ht_table (d_ht0 d) ! idx"
  have hk: "dictHashKey (d\<lparr>d_rehashidx := r, d_ht0 := a, d_ht1 := b\<rparr>) = dictHashKey d" for r a b
    by (rule dictHashKey_cong) simp
  have hk1: "dictHashKey ?d1 = dictHashKey d" by (rule dictHashKey_cong) simp
  have a0: "ht_alloc (dictHashKey d) ?ht0" and a1: "ht_alloc (dictHashKey d) (d_ht1 d)"
    using inv by (auto simp: rehash_inv_def)
  obtain ht1 where mv: "move_chain ?d1 ?es
        = Some (?d1\<lparr>d_ht0 := ?ht0\<lparr>ht_used := ht_used ?ht0 - length ?es\<rparr>, d_ht1 := ht1\<rparr>)"
    and alloc1: "ht_alloc (dictHashKey d) ht1" and ent1: "ht_entries ht1 = ht_entries (d_ht1 d) + mset ?es"
    using move_chain_correct [of ?d1 ?es] a1 hk1 by auto
  define ht0' where "ht0' = ?ht0\<lparr>ht_table := (ht_table ?ht0)[idx := []], ht_used := ht_used ?ht0 - length ?es\<rparr>"
  have ent0: "ht_entries ht0' + mset ?es = ht_entries ?ht0"
    using ht_entries_update [OF idx, where xs = "[]" and u = "ht_used ?ht0 - length ?es"] by (simp add: ht0'_def)
  have "length ?es \<le> ht_used ?ht0"
    using arg_cong [OF ent0, of size] a0 by (simp add: ht_alloc_def)
  then have alloc0: "ht_alloc (dictHashKey d) ht0'"
    unfolding ht0'_def using a0 idx by (intro ht_alloc_update) auto
  define d3 where "d3 = d\<lparr>d_rehashidx := int idx + 1, d_ht0 := ht0', d_ht1 := ht1\<rparr>"
  have "ht_table ht0' ! i = []" if "i < length (ht_table ht0')" "int i < int idx + 1" for i
  proof (cases "int i < d_rehashidx d")
    case True
    then show ?thesis using inv that by (cases "i = idx") (auto simp: rehash_inv_def ht0'_def)
  next
    case False
    then show ?thesis using empty [of i] that by (cases "i = idx") (auto simp: ht0'_def)
  qed
  then have "rehash_inv d3"
    using alloc0 alloc1 by (auto simp: rehash_inv_def d3_def hk)
  moreover have "same_dict d d3"
    using ent0 ent1 by (auto simp: same_dict_def d3_def dict_entries_def ac_simps)
  moreover have "d\<lparr>d_ht1 := ht1, d_ht0 := ?ht0\<lparr>ht_used := ht_used ?ht0 - length ?es,
      ht_table := (ht_table ?ht0)[idx := []]\<rparr>, d_rehashidx := int idx + 1\<rparr> = d3"
    unfolding d3_def ht0'_def by (rule dict.equality) simp_all
  ultimately show ?thesis using mv by (simp add: Let_def)
qed

lemma dictRehash_loop_correct:
  assumes "rehash_inv d" and "n = 0 \<or> 0 < ev"
  shows "\<exists>d' stop. dictRehash_loop n ev d = Some (d', stop) \<and> rehash_inv d' \<and> same_dict d d'
     \<and> (stop \<longrightarrow> ht_used (d_ht0 d') \<noteq> 0)"
  using assms
proof (induction n arbitrary: d ev)
  case (Suc n)
  show ?case
  proof (cases "ht_used (d_ht0 d) = 0")
    case False
    let ?t = "ht_table (d_ht0 d)" and ?r = "nat (d_rehashidx d)"
    have r0: "0 \<le> d_rehashidx d" using Suc.prems(1) by (simp add: rehash_inv_def)
    obtain i where i: "i < length ?t" "?t ! i \<noteq> []" "d_rehashidx d \<le> int i"
      using rehash_inv_nonempty [OF Suc.prems(1) False] .
    have guard: "int (ht_size (d_ht0 d)) > d_rehashidx d"
      using i Suc.prems(1) by (auto simp: rehash_inv_def ht_alloc_def)
    obtain idx ev' stop where skip: "skip_empty ?t ?r ev = Some (idx, ev', stop)" and ge: "?r \<le> idx" "idx \<le> i"
      and emp: "\<forall>j. ?r \<le> j \<and> j < idx \<longrightarrow> ?t ! j = []" and ne: "\<not> stop \<longrightarrow> ?t ! idx \<noteq> [] \<and> 0 < ev'"
      using skip_empty_correct [of ?r i ?t ev] i r0 Suc.prems(2) by (auto simp: nat_le_iff)
    have emp': "\<And>j. d_rehashidx d \<le> int j \<Longrightarrow> j < idx \<Longrightarrow> ?t ! j = []" using emp r0 by auto
    have ge': "d_rehashidx d \<le> int idx" and lt: "idx < length ?t" using ge i r0 by auto
    show ?thesis
    proof (cases stop)
      case True
      have "rehash_inv (d\<lparr>d_rehashidx := int idx\<rparr>)"
        using Suc.prems(1) emp' dictHashKey_cong [of "d\<lparr>d_rehashidx := int idx\<rparr>" d]
        by (auto simp: rehash_inv_def)
      then show ?thesis using True False guard skip
        by (auto simp: same_dict_def dict_entries_def)
    next
      case f: False
      obtain d2 where mv: "move_chain (d\<lparr>d_rehashidx := int idx\<rparr>) (?t ! idx) = Some d2"
        and inv3: "rehash_inv (d2\<lparr>d_ht0 := (d_ht0 d2)\<lparr>ht_table := (ht_table (d_ht0 d2))[idx := []]\<rparr>, d_rehashidx := d_rehashidx d2 + 1\<rparr>)"
        and same3: "same_dict d (d2\<lparr>d_ht0 := (d_ht0 d2)\<lparr>ht_table := (ht_table (d_ht0 d2))[idx := []]\<rparr>, d_rehashidx := d_rehashidx d2 + 1\<rparr>)"
        using rehash_bucket [OF Suc.prems(1) lt ge' emp'] by (auto simp: Let_def)
      obtain d' stop' where "dictRehash_loop n ev' (d2\<lparr>d_ht0 := (d_ht0 d2)\<lparr>ht_table := (ht_table (d_ht0 d2))[idx := []]\<rparr>, d_rehashidx := d_rehashidx d2 + 1\<rparr>) = Some (d', stop')"
        and "rehash_inv d'" and "same_dict d d'" and "stop' \<longrightarrow> ht_used (d_ht0 d') \<noteq> 0"
        using Suc.IH [OF inv3, of ev'] ne f same_dict_trans [OF same3] by blast
      then show ?thesis using False guard skip f mv by (auto simp: Let_def)
    qed
  qed (use Suc.prems in auto)
qed (auto)

lemma dict_wf_rehashing:
  "dictIsRehashing d \<Longrightarrow> dict_wf d \<longleftrightarrow> type_ok (d_type d) \<and> keys_unique d \<and> rehash_inv d"
  by (auto simp: dict_wf_def rehash_inv_def)

lemma rehash_inv_rehashing: "rehash_inv d \<Longrightarrow> dictIsRehashing d"
  by (auto simp: rehash_inv_def dictIsRehashing_def)

lemma same_dict_type: "same_dict d d' \<Longrightarrow> d_type d' = d_type d"
  by (simp add: same_dict_def)

lemma same_dict_unique: "same_dict d d' \<Longrightarrow> keys_unique d' = keys_unique d"
  by (simp add: same_dict_def keys_unique_cong [of d' d])

lemma ht_used_zero: "ht_alloc hash ht \<Longrightarrow> ht_used ht = 0 \<Longrightarrow> ht_entries ht = {#}"
  by (simp add: ht_alloc_def)

lemma dictRehash_wf:
  assumes wf: "dict_wf d"
  shows "\<exists>d' more. dictRehash d n = Some (d', more) \<and> dict_wf d' \<and> same_dict d d'
     \<and> (more \<longleftrightarrow> dictIsRehashing d')"
proof (cases "dictIsRehashing d")
  case False
  then show ?thesis using wf by (auto simp: dictRehash_def)
next
  case True
  then have inv: "rehash_inv d" using wf by (simp add: dict_wf_rehashing)
  have "n = 0 \<or> 0 < int n * 10" by auto
  then obtain d1 stop where loop: "dictRehash_loop n (int n * 10) d = Some (d1, stop)"
    and inv1: "rehash_inv d1" and same: "same_dict d d1" and st: "stop \<longrightarrow> ht_used (d_ht0 d1) \<noteq> 0"
    using dictRehash_loop_correct [OF inv] by blast
  have wf1: "dict_wf d1"
    using wf inv1 same by (simp add: dict_wf_rehashing rehash_inv_rehashing same_dict_type same_dict_unique)
      (simp add: dict_wf_def)
  show ?thesis
  proof (cases "ht_used (d_ht0 d1) = 0")
    case False
    then show ?thesis using True loop wf1 same rehash_inv_rehashing [OF inv1]
      by (cases stop) (auto simp: dictRehash_def)
  next
    case used: True
    let ?d2 = "d1\<lparr>d_ht0 := d_ht1 d1, d_ht1 := dictReset, d_rehashidx := -1\<rparr>"
    have "ht_entries (d_ht0 d1) = {#}"
      using used inv1 ht_used_zero by (auto simp: rehash_inv_def)
    then have same2: "same_dict d ?d2" using same by (simp add: same_dict_def dict_entries_def)
    moreover have "dict_wf ?d2"
      using wf inv1 same_dict_unique [OF same2] same_dict_type [OF same]
      by (auto simp: dict_wf_def rehash_inv_def dictIsRehashing_def dictHashKey_eq)
    ultimately show ?thesis using True loop used st
      by (auto simp: dictRehash_def dictIsRehashing_def)
  qed
qed

lemma rehash_if_needed_wf:
  assumes "dict_wf d"
  shows "\<exists>d'. rehash_if_needed d = Some d' \<and> dict_wf d' \<and> same_dict d d'"
  using dictRehash_wf [OF assms, of 1] assms
  by (auto simp: rehash_if_needed_def dictRehashStep_def)

subsection \<open>Expansion\<close>

lemma dictNextPower_loop_correct:
  assumes "j \<le> N" and "sz \<le> 2 ^ N" and "j = 2 \<or> 2 ^ (j - 1) < sz"
  shows "\<exists>k. dictNextPower_loop (2 ^ j) sz = Some (2 ^ k) \<and> j \<le> k \<and> k \<le> N \<and> sz \<le> 2 ^ k
     \<and> (k = 2 \<or> 2 ^ (k - 1) < sz)"
  using assms
proof (induction "N - j" arbitrary: j)
  case 0
  then have "j = N" by simp
  with 0 show ?case by (subst dictNextPower_loop.simps) auto
next
  case (Suc m)
  show ?case
  proof (cases "sz \<le> 2 ^ j")
    case True
    then show ?thesis using Suc.prems by (subst dictNextPower_loop.simps) auto
  next
    case False
    have "m = N - Suc j" "Suc j \<le> N" using Suc.hyps(2) by linarith+
    then have "\<exists>k. dictNextPower_loop (2 ^ Suc j) sz = Some (2 ^ k) \<and> Suc j \<le> k \<and> k \<le> N \<and> sz \<le> 2 ^ k
      \<and> (k = 2 \<or> 2 ^ (k - 1) < sz)"
      using Suc.hyps(1) [of "Suc j"] Suc.prems False by simp
    then obtain k where "dictNextPower_loop (2 ^ Suc j) sz = Some (2 ^ k)" "Suc j \<le> k" "k \<le> N" "sz \<le> 2 ^ k"
      "k = 2 \<or> 2 ^ (k - 1) < sz" by blast
    moreover from False have "dictNextPower_loop (2 ^ j) sz = dictNextPower_loop (2 ^ Suc j) sz"
      by (subst dictNextPower_loop.simps) (simp add: mult.commute)
    ultimately show ?thesis by auto
  qed
qed

text \<open>
  \<open>_dictNextPower\<close> returns the smallest power of two that is at least the requested size and
  at least the initial size of four.
\<close>

theorem dictNextPower_correct:
  assumes "sz \<le> 2 ^ N" and "2 \<le> N" and "N \<le> 62"
  shows "\<exists>k. dictNextPower sz = Some (2 ^ k) \<and> 2 \<le> k \<and> k \<le> N \<and> sz \<le> 2 ^ k
     \<and> (k = 2 \<or> 2 ^ (k - 1) < sz)"
proof -
  have "(2::nat) ^ N \<le> 2 ^ 62" using assms(3) by (intro power_increasing) auto
  then have "\<not> sz \<ge> 9223372036854775807" using assms(1) by simp
  then show ?thesis
    using dictNextPower_loop_correct [of 2 N sz] assms
    by (simp add: dictNextPower_def DICT_HT_INITIAL_SIZE_def)
qed

theorem dictNextPower_correct_witness:
  "\<exists>k. dictNextPower 1000 = Some (2 ^ k) \<and> 2 \<le> k \<and> k \<le> 10 \<and> 1000 \<le> (2::nat) ^ k
     \<and> (k = 2 \<or> (2::nat) ^ (k - 1) < 1000)"
  using dictNextPower_correct [of 1000 10] by simp

lemma next_power_60:
  assumes "sz \<le> 2 ^ 60"
  obtains k where "dictNextPower sz = Some (2 ^ k)" "2 \<le> k" "k \<le> 60" "sz \<le> 2 ^ k"
proof -
  have "\<not> sz \<ge> 9223372036854775807" using assms by simp
  then show ?thesis
    using dictNextPower_loop_correct [of 2 60 sz] assms that
    by (auto simp: dictNextPower_def DICT_HT_INITIAL_SIZE_def)
qed

lemma ht_alloc_fresh:
  assumes "k \<le> 60"
  shows "ht_alloc hash \<lparr>ht_table = replicate (((2 ^ k * 8) mod 18446744073709551616) div 8) [],
     ht_size = 2 ^ k, ht_sizemask = word_of_nat (2 ^ k - 1), ht_used = 0\<rparr>"
proof -
  have "(2::nat) ^ k \<le> 2 ^ 60" using assms by (intro power_increasing) auto
  then have "((2 ^ k * 8) mod 18446744073709551616) div 8 = (2::nat) ^ k" by simp
  moreover have "word_of_nat (2 ^ k - 1) = (mask k :: u64)"
    by (simp add: mask_eq_decr_exp of_nat_diff)
  moreover have "concat (replicate n []) = []" for n by (induction n) auto
  ultimately show ?thesis
    using assms by (auto simp: ht_alloc_def ht_entries_def placed_def)
qed

lemma dictExpand_gen_wf:
  assumes wf: "dict_wf d" and sz: "sz \<le> 2 ^ 60"
  shows "\<exists>d' ok failed. dictExpand_gen try_ok d sz = Some (d', ok, failed) \<and> dict_wf d' \<and> same_dict d d'
     \<and> (ht_table (d_ht0 d) \<noteq> [] \<longrightarrow> ht_table (d_ht0 d') \<noteq> [])
     \<and> (ht_table (d_ht0 d) = [] \<and> try_ok = None \<longrightarrow> ok \<and> ht_table (d_ht0 d') \<noteq> [])
     \<and> (\<not> dictIsRehashing d \<and> ht_used (d_ht0 d) \<le> sz \<and> ht_size (d_ht0 d) < sz \<and> try_ok = None \<longrightarrow> ok)
     \<and> (ok \<longrightarrow> (if ht_table (d_ht0 d) = [] then ht_size (d_ht0 d') \<ge> sz
         else dictIsRehashing d' \<and> ht_size (d_ht1 d') \<ge> sz))"
proof (cases "dictIsRehashing d \<or> ht_used (d_ht0 d) > sz")
  case True
  have "ht_table (d_ht0 d) \<noteq> []"
    using True wf by (auto simp: dict_wf_def ht_alloc_def split: if_splits)
  moreover have "dictExpand_gen try_ok d sz = Some (d, False, False)"
    unfolding dictExpand_gen_def using True by simp
  moreover have "\<not> (\<not> dictIsRehashing d \<and> ht_used (d_ht0 d) \<le> sz)" using True by auto
  ultimately show ?thesis using wf
    by (intro exI [of _ d] exI [of _ False]) (simp, blast)
next
  case False
  obtain k where k: "dictNextPower sz = Some (2 ^ k)" "2 \<le> k" "k \<le> 60" "sz \<le> 2 ^ k"
    using next_power_60 [OF sz] .
  define n where "n = \<lparr>ht_table = replicate (((2 ^ k * 8) mod 18446744073709551616) div 8) [] :: ('a, 'b) dictEntry list list,
     ht_size = 2 ^ k, ht_sizemask = word_of_nat (2 ^ k - 1), ht_used = 0\<rparr>"
  have n: "ht_alloc (dictHashKey d) n" unfolding n_def using k(3) by (rule ht_alloc_fresh)
  then have ne: "ht_entries n = {#}" by (rule ht_used_zero) (simp add: n_def)
  have tne: "ht_table n \<noteq> []" using n by (auto simp: ht_alloc_def)
  have ns: "ht_size n = 2 ^ k" by (simp add: n_def)
  have nr: "\<not> dictIsRehashing d" and h1: "d_ht1 d = dictReset" using False wf by (auto simp: dict_wf_def)
  show ?thesis
  proof (cases "ht_table (d_ht0 d) = []")
    case True
    then have h0: "d_ht0 d = dictReset" using wf nr by (auto simp: dict_wf_def ht_alloc_def)
    let ?d' = "d\<lparr>d_ht0 := n\<rparr>"
    have same: "same_dict d ?d'" using h0 ne by (simp add: same_dict_def dict_entries_def)
    have wf': "dict_wf ?d'"
      using wf nr h1 n same_dict_unique [OF same] by (auto simp: dict_wf_def dictIsRehashing_def dictHashKey_eq)
    have eq: "dictExpand_gen try_ok d sz
        = (if try_ok = Some False then Some (d, False, True) else Some (?d', True, False))"
      using False True k(1) h0 by (simp add: dictExpand_gen_def n_def)
    show ?thesis
    proof (cases "try_ok = Some False")
      case t: True
      show ?thesis using t wf eq True
        by (intro exI [of _ d] exI [of _ False] exI [of _ True]) simp
    next
      case f: False
      show ?thesis using f True k(4) same tne ns wf' eq
        by (intro exI [of _ ?d'] exI [of _ True] exI [of _ False]) simp
    qed
  next
    case nonempty: False
    let ?d' = "d\<lparr>d_ht1 := n, d_rehashidx := 0\<rparr>"
    have same: "same_dict d ?d'" using h1 ne by (simp add: same_dict_def dict_entries_def)
    have "ht_alloc (dictHashKey d) (d_ht0 d)" using wf nr nonempty by (auto simp: dict_wf_def)
    then have wf': "dict_wf ?d'"
      using wf n same_dict_unique [OF same] by (auto simp: dict_wf_def dictIsRehashing_def dictHashKey_eq)
    have eq: "dictExpand_gen try_ok d sz
        = (if 2 ^ k = ht_size (d_ht0 d) then Some (d, False, False)
           else if try_ok = Some False then Some (d, False, True) else Some (?d', True, False))"
      using False nonempty k(1) by (simp add: dictExpand_gen_def n_def)
    have re: "dictIsRehashing ?d'" by (simp add: dictIsRehashing_def)
    consider "2 ^ k = ht_size (d_ht0 d)" | "2 ^ k \<noteq> ht_size (d_ht0 d)" "try_ok = Some False"
      | "2 ^ k \<noteq> ht_size (d_ht0 d)" "try_ok \<noteq> Some False" by blast
    then show ?thesis
    proof cases
      case 1
      then show ?thesis using wf eq nonempty k(4)
        by (intro exI [of _ d] exI [of _ False]) simp
    next
      case 2
      then show ?thesis using wf eq nonempty
        by (intro exI [of _ d] exI [of _ False] exI [of _ True]) simp
    next
      case 3
      then show ?thesis using wf' eq nonempty same re k(4) ns
        by (intro exI [of _ ?d'] exI [of _ True] exI [of _ False]) simp
    qed
  qed
qed

definition dict_room :: "('k, 'v) dict \<Rightarrow> bool" where
  "dict_room d \<longleftrightarrow> size (dict_entries d) < 2 ^ 60"

lemma dict_wf_unique: "dict_wf d \<Longrightarrow> keys_unique d"
  by (simp add: dict_wf_def)

lemma dict_wf_used0: "dict_wf d \<Longrightarrow> ht_used (d_ht0 d) = size (ht_entries (d_ht0 d))"
  by (auto simp: dict_wf_def ht_alloc_def split: if_splits)

lemma dict_wf_used1: "dict_wf d \<Longrightarrow> ht_used (d_ht1 d) = size (ht_entries (d_ht1 d))"
  by (auto simp: dict_wf_def ht_alloc_def split: if_splits)

lemma dictSize_entries: "dict_wf d \<Longrightarrow> dictSize d = size (dict_entries d)"
  by (simp add: dictSize_def dict_entries_def dict_wf_used0 dict_wf_used1)

lemma dictNextPower_total: "sz \<le> 2 ^ 60 \<Longrightarrow> \<exists>p. dictNextPower sz = Some p"
  by (rule next_power_60 [of sz]) auto

lemma dictExpandIfNeeded_wf:
  assumes wf: "dict_wf d" and room: "dict_room d"
  shows "\<exists>d'. dictExpandIfNeeded can_resize d = Some (d', True) \<and> dict_wf d' \<and> same_dict d d'
     \<and> ht_table (d_ht0 d') \<noteq> []"
proof -
  have used: "ht_used (d_ht0 d) + 1 \<le> 2 ^ 60"
    using room dict_wf_used0 [OF wf] by (simp add: dict_room_def dict_entries_def)
  have size0: "ht_size (d_ht0 d) = 0 \<longleftrightarrow> ht_table (d_ht0 d) = []"
    using wf by (auto simp: dict_wf_def ht_alloc_def split: if_splits)
  show ?thesis
  proof (cases "dictIsRehashing d")
    case True
    then show ?thesis using wf by (auto simp: dictExpandIfNeeded_def dict_wf_def ht_alloc_def)
  next
    case nr: False
    show ?thesis
    proof (cases "ht_size (d_ht0 d) = 0")
      case True
      then show ?thesis using dictExpand_gen_wf [OF wf, of DICT_HT_INITIAL_SIZE None] size0 nr
        by (auto simp: dictExpandIfNeeded_def dictExpand_def DICT_HT_INITIAL_SIZE_def)
    next
      case nz: False
      obtain allowed where al: "dictTypeExpandAllowed d = Some allowed"
        using dictNextPower_total [OF used]
        by (cases "expandAllowed (d_type d)") (auto simp: dictTypeExpandAllowed_def)
      have "\<exists>d'. dictExpand d (ht_used (d_ht0 d) + 1) = Some (d', True) \<and> dict_wf d' \<and> same_dict d d'
          \<and> ht_table (d_ht0 d') \<noteq> []" if "ht_used (d_ht0 d) \<ge> ht_size (d_ht0 d)"
        using dictExpand_gen_wf [OF wf used, of None] that nr nz size0 by (auto simp: dictExpand_def)
      then show ?thesis using nr nz al wf size0 by (auto simp: dictExpandIfNeeded_def)
    qed
  qed
qed

subsection \<open>Search\<close>

lemma chain_find_Some:
  "chain_find d key chain = Some j \<Longrightarrow> j < length chain \<and> same_key d key (de_key (chain ! j))"
  by (induction chain arbitrary: j) (auto split: if_splits)

lemma chain_find_None: "chain_find d key chain = None \<longleftrightarrow> (\<forall>e \<in> set chain. \<not> same_key d key (de_key e))"
  by (induction chain) auto

definition valid_ref :: "('k, 'v) dict \<Rightarrow> entry_ref \<Rightarrow> bool" where
  "valid_ref d ref = (case ref of (t, i, j) \<Rightarrow>
     (t = 0 \<or> t = 1 \<and> dictIsRehashing d) \<and> i < length (ht_table (dict_ht d t))
     \<and> j < length (ht_table (dict_ht d t) ! i))"

lemma dict_entry_valid:
  "valid_ref d (t, i, j) \<Longrightarrow> dict_entry d (t, i, j) = Some (ht_table (dict_ht d t) ! i ! j)"
  by (auto simp: valid_ref_def dict_entry_def)

lemma valid_ref_in: "valid_ref d (t, i, j) \<Longrightarrow> ht_table (dict_ht d t) ! i ! j \<in># dict_entries d"
  by (auto simp: valid_ref_def dict_ht_def dict_entries_def set_ht_entries)

definition absent :: "('k, 'v) dict \<Rightarrow> 'k \<Rightarrow> bool" where
  "absent d key \<longleftrightarrow> (\<forall>e \<in># dict_entries d. \<not> same_key d key (de_key e))"

lemma dict_wf_alloc0: "dict_wf d \<Longrightarrow> ht_table (d_ht0 d) \<noteq> [] \<Longrightarrow> ht_alloc (dictHashKey d) (d_ht0 d)"
  by (auto simp: dict_wf_def split: if_splits)

lemma dict_wf_alloc1: "dict_wf d \<Longrightarrow> dictIsRehashing d \<Longrightarrow> ht_alloc (dictHashKey d) (d_ht1 d)"
  by (auto simp: dict_wf_def split: if_splits)

lemma dict_wf_alloc:
  assumes "dict_wf d" and "t = 0 \<or> t = 1 \<and> dictIsRehashing d" and "i < length (ht_table (dict_ht d t))"
  shows "ht_alloc (dictHashKey d) (dict_ht d t)"
proof (cases "t = 0")
  case True
  then have "ht_table (d_ht0 d) \<noteq> []" using assms(3) by (auto simp: dict_ht_def)
  then show ?thesis using dict_wf_alloc0 [OF assms(1)] True by (simp add: dict_ht_def)
next
  case False
  then show ?thesis using dict_wf_alloc1 [OF assms(1)] assms(2) by (simp add: dict_ht_def)
qed

lemma not_in_bucket:
  assumes ok: "type_ok (d_type d)" and alloc: "ht_alloc (dictHashKey d) ht"
    and none: "chain_find d key (ht_table ht ! unat (dictHashKey d key AND ht_sizemask ht)) = None"
    and e: "e \<in># ht_entries ht"
  shows "\<not> same_key d key (de_key e)"
proof
  assume k: "same_key d key (de_key e)"
  obtain i where i: "i < length (ht_table ht)" "e \<in> set (ht_table ht ! i)" using e by (auto simp: set_ht_entries)
  then have "i = unat (dictHashKey d (de_key e) AND ht_sizemask ht)"
    using alloc by (auto simp: ht_alloc_def placed_def)
  then show False using k none i same_key_hash [OF ok k] by (auto simp: chain_find_None)
qed

lemma dict_search_correct:
  assumes wf: "dict_wf d" and tbl: "ht_table (d_ht0 d) \<noteq> []"
  shows "\<exists>found idx. dict_search d key (dictHashKey d key) = Some (found, idx)
     \<and> (case found of
          Some ref \<Rightarrow> \<exists>t i j. ref = (t, i, j) \<and> valid_ref d ref \<and> same_key d key (de_key (ht_table (dict_ht d t) ! i ! j))
        | None \<Rightarrow> absent d key)
     \<and> (let ht = dict_ht d (if dictIsRehashing d then 1 else 0) in
          found = None \<longrightarrow> idx = unat (dictHashKey d key AND ht_sizemask ht) \<and> idx < length (ht_table ht))"
proof -
  have ok: "type_ok (d_type d)" using wf by (simp add: dict_wf_def)
  have a0: "ht_alloc (dictHashKey d) (d_ht0 d)" using dict_wf_alloc0 [OF wf tbl] .
  define i0 where "i0 = unat (dictHashKey d key AND ht_sizemask (d_ht0 d))"
  have i0: "i0 < length (ht_table (d_ht0 d))" unfolding i0_def using a0 by (rule ht_index_less)
  show ?thesis
  proof (cases "chain_find d key (ht_table (d_ht0 d) ! i0)")
    case (Some j)
    then show ?thesis using chain_find_Some [OF Some] i0
      by (simp add: dict_search_def i0_def [symmetric] valid_ref_def dict_ht_def)
  next
    case None
    then have n0: "\<not> same_key d key (de_key e)" if "e \<in># ht_entries (d_ht0 d)" for e
      using not_in_bucket [OF ok a0 _ that] by (simp add: i0_def)
    show ?thesis
    proof (cases "dictIsRehashing d")
      case False
      then have "ht_entries (d_ht1 d) = {#}" using wf by (simp add: dict_wf_def)
      then have "absent d key" using n0 by (simp add: absent_def dict_entries_def)
      then show ?thesis using None False i0
        by (simp add: dict_search_def i0_def [symmetric] dict_ht_def Let_def)
    next
      case True
      have a1: "ht_alloc (dictHashKey d) (d_ht1 d)" using dict_wf_alloc1 [OF wf True] .
      define i1 where "i1 = unat (dictHashKey d key AND ht_sizemask (d_ht1 d))"
      have i1: "i1 < length (ht_table (d_ht1 d))" unfolding i1_def using a1 by (rule ht_index_less)
      show ?thesis
      proof (cases "chain_find d key (ht_table (d_ht1 d) ! i1)")
        case (Some j)
        then show ?thesis using chain_find_Some [OF Some] i0 i1 None True
          by (simp add: dict_search_def i0_def [symmetric] i1_def [symmetric] valid_ref_def dict_ht_def)
      next
        case none1: None
        then have "\<not> same_key d key (de_key e)" if "e \<in># ht_entries (d_ht1 d)" for e
          using not_in_bucket [OF ok a1 _ that] by (simp add: i1_def)
        then have "absent d key" using n0 by (auto simp: absent_def dict_entries_def)
        then show ?thesis using None none1 True i0 i1
          by (simp add: dict_search_def i0_def [symmetric] i1_def [symmetric] dict_ht_def Let_def)
      qed
    qed
  qed
qed

subsection \<open>Changing one bucket\<close>

text \<open>
  Replacing the chain of one bucket, with the counter adjusted by the change in length, is what
  insertion, deletion and assignment of a value do.
\<close>

definition put_chain :: "('k, 'v) dict \<Rightarrow> nat \<Rightarrow> nat \<Rightarrow> ('k, 'v) dictEntry list \<Rightarrow> nat \<Rightarrow> ('k, 'v) dict" where
  "put_chain d t i xs u = dict_set_ht d t ((dict_ht d t)\<lparr>ht_table := (ht_table (dict_ht d t))[i := xs], ht_used := u\<rparr>)"

lemma put_chain_entries:
  assumes "t = 0 \<or> t = 1" and "i < length (ht_table (dict_ht d t))"
  shows "dict_entries (put_chain d t i xs u) + mset (ht_table (dict_ht d t) ! i) = dict_entries d + mset xs"
proof -
  have "ht_entries ((dict_ht d t)\<lparr>ht_table := (ht_table (dict_ht d t))[i := xs], ht_used := u\<rparr>)
      + mset (ht_table (dict_ht d t) ! i) = ht_entries (dict_ht d t) + mset xs"
    by (rule ht_entries_update [OF assms(2)])
  then show ?thesis using assms(1)
    by (auto simp: put_chain_def dict_entries_def dict_set_ht_def dict_ht_def ac_simps)
qed

lemma put_chain_frame [simp]:
  "d_type (put_chain d t i xs u) = d_type d" "d_pauserehash (put_chain d t i xs u) = d_pauserehash d"
  "dictIsRehashing (put_chain d t i xs u) = dictIsRehashing d"
  "d_rehashidx (put_chain d t i xs u) = d_rehashidx d"
  by (simp_all add: put_chain_def dict_set_ht_def dictIsRehashing_def)

lemma put_chain_wf:
  assumes wf: "dict_wf d" and t: "t = 0 \<or> t = 1 \<and> dictIsRehashing d"
    and i: "i < length (ht_table (dict_ht d t))"
    and pl: "\<forall>e \<in> set xs. unat (dictHashKey d (de_key e) AND ht_sizemask (dict_ht d t)) = i"
    and u: "u + length (ht_table (dict_ht d t) ! i) = ht_used (dict_ht d t) + length xs"
    and old: "t = 0 \<and> dictIsRehashing d \<longrightarrow> ht_table (dict_ht d t) ! i \<noteq> []"
    and uniq: "keys_unique (put_chain d t i xs u)"
  shows "dict_wf (put_chain d t i xs u)"
proof -
  let ?ht = "dict_ht d t" and ?d' = "put_chain d t i xs u"
  let ?ht' = "?ht\<lparr>ht_table := (ht_table ?ht)[i := xs], ht_used := u\<rparr>"
  have alloc: "ht_alloc (dictHashKey d) ?ht" using dict_wf_alloc [OF wf t i] .
  have alloc': "ht_alloc (dictHashKey d) ?ht'" by (rule ht_alloc_update [OF alloc i pl u])
  have hk: "dictHashKey ?d' = dictHashKey d" by (simp add: dictHashKey_eq)
  show ?thesis
  proof (cases "dictIsRehashing d")
    case False
    then have t0: "t = 0" using t by simp
    then have "d_ht0 ?d' = ?ht'" and "d_ht1 ?d' = d_ht1 d"
      by (simp_all add: put_chain_def dict_set_ht_def)
    then show ?thesis using wf uniq False alloc' hk by (auto simp: dict_wf_def)
  next
    case True
    have inv: "rehash_inv d" using wf True by (simp add: dict_wf_rehashing)
    have "rehash_inv ?d'"
    proof (cases "t = 0")
      case t0: True
      have "\<not> int i < d_rehashidx d" using old t0 True inv i by (auto simp: rehash_inv_def dict_ht_def)
      then have "(ht_table ?ht)[i := xs] ! j = []" if "j < length (ht_table ?ht)" "int j < d_rehashidx d" for j
        using that inv t0 by (cases "j = i") (auto simp: rehash_inv_def dict_ht_def)
      moreover have "d_ht0 ?d' = ?ht'" and "d_ht1 ?d' = d_ht1 d"
        using t0 by (simp_all add: put_chain_def dict_set_ht_def)
      ultimately show ?thesis using inv alloc' t0 hk by (auto simp: rehash_inv_def dict_ht_def)
    next
      case False
      then have "d_ht0 ?d' = d_ht0 d" and "d_ht1 ?d' = ?ht'"
        by (simp_all add: put_chain_def dict_set_ht_def)
      then show ?thesis using inv alloc' hk by (auto simp: rehash_inv_def)
    qed
    then show ?thesis using wf True uniq by (simp add: dict_wf_rehashing)
  qed
qed

lemma keys_unique_submset:
  assumes "keys_unique d" and "d_type d' = d_type d" and "dict_entries d' \<subseteq># dict_entries d"
  shows "keys_unique d'"
  unfolding keys_unique_def same_key_cong [OF assms(2)]
proof
  fix k
  have "filter_mset (\<lambda>e. same_key d k (de_key e)) (dict_entries d')
      \<subseteq># filter_mset (\<lambda>e. same_key d k (de_key e)) (dict_entries d)"
    by (rule multiset_filter_mono [OF assms(3)])
  then show "size (filter_mset (\<lambda>e. same_key d k (de_key e)) (dict_entries d')) \<le> 1"
    using assms(1) size_mset_mono unfolding keys_unique_def by (metis le_trans)
qed

lemma keys_unique_add:
  assumes ok: "type_ok (d_type d)" and uniq: "keys_unique d" and "d_type d' = d_type d"
    and ent: "dict_entries d' = add_mset e (dict_entries d)" and abs: "absent d key" and "same_key d key (de_key e)"
  shows "keys_unique d'"
  unfolding keys_unique_def same_key_cong [OF assms(3)]
proof
  fix k
  show "size (filter_mset (\<lambda>e. same_key d k (de_key e)) (dict_entries d')) \<le> 1"
  proof (cases "same_key d k (de_key e)")
    case True
    have "filter_mset (\<lambda>x. same_key d k (de_key x)) (dict_entries d) = {#}"
    proof (rule ccontr)
      assume "filter_mset (\<lambda>x. same_key d k (de_key x)) (dict_entries d) \<noteq> {#}"
      then obtain x where x: "x \<in># dict_entries d" "same_key d k (de_key x)"
        using multiset_nonemptyE by fastforce
      then have "same_key d key (de_key x)"
        using True assms(6) same_key_sym [OF ok] same_key_trans [OF ok] by blast
      then show False using abs x by (simp add: absent_def)
    qed
    then show ?thesis using ent True by simp
  next
    case False
    then show ?thesis using ent uniq by (simp add: keys_unique_def)
  qed
qed

lemma keys_unique_setval:
  assumes uniq: "keys_unique d" and "d_type d' = d_type d"
    and ent: "dict_entries d' + {#e#} = dict_entries d + {#e'#}" and "de_key e' = de_key e"
  shows "keys_unique d'"
  unfolding keys_unique_def same_key_cong [OF assms(2)]
proof
  fix k
  let ?f = "filter_mset (\<lambda>e. same_key d k (de_key e))"
  have "?f (dict_entries d' + {#e#}) = ?f (dict_entries d + {#e'#})" using ent by simp
  then have "size (?f (dict_entries d' + {#e#})) = size (?f (dict_entries d + {#e'#}))" by simp
  then have "size (?f (dict_entries d')) = size (?f (dict_entries d))"
    using assms(4) by (simp split: if_splits)
  then show "size (?f (dict_entries d')) \<le> 1" using uniq by (simp add: keys_unique_def)
qed

section \<open>The operations implement a finite map\<close>

definition new_entry :: "('k, 'v) dict \<Rightarrow> 'k \<Rightarrow> 'v option \<Rightarrow> ('k, 'v) dictEntry" where
  "new_entry d key v = \<lparr>de_key = dictSetKey d key, de_val = v\<rparr>"

definition dup_val :: "('k, 'v) dict \<Rightarrow> 'v \<Rightarrow> 'v" where
  "dup_val d v = (case valDup (d_type d) of Some dup \<Rightarrow> dup v | None \<Rightarrow> v)"

lemma absent_cong: "same_dict d d' \<Longrightarrow> absent d' key = absent d key"
  by (simp add: absent_def same_dict_def same_key_cong [of d' d])

lemma dictSetKey_cong: "d_type d' = d_type d \<Longrightarrow> dictSetKey d' key = dictSetKey d key"
  by (simp add: dictSetKey_def)

lemma dictSetVal_put_chain:
  assumes "valid_ref d (t, i, j)"
  shows "dictSetVal d (t, i, j) v = Some (put_chain d t i
     ((ht_table (dict_ht d t) ! i)[j := (ht_table (dict_ht d t) ! i ! j)\<lparr>de_val := Some (dup_val d v)\<rparr>])
     (ht_used (dict_ht d t)))"
  using assms
  by (auto simp: dictSetVal_def valid_ref_def put_chain_def dup_val_def Let_def
      intro!: arg_cong [of _ _ "dict_set_ht d _"])

lemma mset_list_update_nth:
  "j < length xs \<Longrightarrow> mset (xs[j := y]) + {#xs ! j#} = mset xs + {#y#}"
  by (simp add: mset_update)

lemma dictSetVal_wf:
  assumes wf: "dict_wf d" and ref: "valid_ref d (t, i, j)"
  defines "e \<equiv> ht_table (dict_ht d t) ! i ! j"
  shows "\<exists>d'. dictSetVal d (t, i, j) v = Some d' \<and> dict_wf d' \<and> d_type d' = d_type d
     \<and> dict_entries d' + {#e#} = dict_entries d + {#e\<lparr>de_val := Some (dup_val d v)\<rparr>#}"
proof -
  let ?ch = "ht_table (dict_ht d t) ! i" and ?u = "ht_used (dict_ht d t)"
  let ?e' = "e\<lparr>de_val := Some (dup_val d v)\<rparr>"
  let ?d' = "put_chain d t i (?ch[j := ?e']) ?u"
  have r: "t = 0 \<or> t = 1 \<and> dictIsRehashing d" "i < length (ht_table (dict_ht d t))" "j < length ?ch"
    using ref by (auto simp: valid_ref_def)
  have eq: "dictSetVal d (t, i, j) v = Some ?d'"
    using dictSetVal_put_chain [OF ref, of v] by (simp add: e_def)
  have "dict_entries ?d' + mset ?ch = dict_entries d + mset (?ch[j := ?e'])"
    using r by (intro put_chain_entries) auto
  then have "(dict_entries ?d' + {#e#}) + mset ?ch = dict_entries d + (mset (?ch[j := ?e']) + {#?ch ! j#})"
    by (simp add: e_def ac_simps)
  also have "\<dots> = (dict_entries d + {#?e'#}) + mset ?ch"
    using mset_list_update_nth [OF r(3), of ?e'] by (simp add: ac_simps)
  finally have ent: "dict_entries ?d' + {#e#} = dict_entries d + {#?e'#}" by simp
  have alloc: "placed (dictHashKey d) (dict_ht d t)"
    using dict_wf_alloc [OF wf r(1,2)] by (simp add: ht_alloc_def)
  then have pl: "\<forall>x \<in> set ?ch. unat (dictHashKey d (de_key x) AND ht_sizemask (dict_ht d t)) = i"
    using r by (simp add: placed_def)
  moreover have "e \<in> set ?ch" using r by (simp add: e_def)
  ultimately have "\<forall>x \<in> set (?ch[j := ?e']). unat (dictHashKey d (de_key x) AND ht_sizemask (dict_ht d t)) = i"
    using set_update_subset_insert [of ?ch j ?e'] by auto
  moreover have "keys_unique ?d'"
    by (rule keys_unique_setval [OF dict_wf_unique [OF wf] _ ent]) simp_all
  ultimately have "dict_wf ?d'" using r by (intro put_chain_wf [OF wf]) auto
  then show ?thesis using eq ent by auto
qed

lemma dictAddRaw_correct:
  assumes wf: "dict_wf d" and room: "dict_room d"
  shows "\<exists>d' r. dictAddRaw cr d key = Some (d', r) \<and> dict_wf d' \<and> d_type d' = d_type d \<and>
     (case r of
        Inl ex \<Rightarrow> \<not> absent d key \<and> dict_entries d' = dict_entries d
          \<and> (\<exists>t i j. ex = Some (t, i, j) \<and> valid_ref d' (t, i, j)
               \<and> same_key d key (de_key (ht_table (dict_ht d' t) ! i ! j)))
      | Inr ref \<Rightarrow> absent d key \<and> dict_entries d' = add_mset (new_entry d key None) (dict_entries d)
          \<and> (\<exists>t i j. ref = (t, i, j) \<and> valid_ref d' (t, i, j)
               \<and> ht_table (dict_ht d' t) ! i ! j = new_entry d key None))"
proof -
  obtain d1 where d1: "rehash_if_needed d = Some d1" and wf1: "dict_wf d1" and s1: "same_dict d d1"
    using rehash_if_needed_wf [OF wf] by blast
  have "dict_room d1" using room s1 by (simp add: dict_room_def same_dict_def)
  then obtain d2 where d2: "dictExpandIfNeeded cr d1 = Some (d2, True)" and wf2: "dict_wf d2"
    and s2: "same_dict d1 d2" and tbl: "ht_table (d_ht0 d2) \<noteq> []"
    using dictExpandIfNeeded_wf [OF wf1] by blast
  have s: "same_dict d d2" using same_dict_trans [OF s1 s2] .
  have hk: "dictHashKey d1 = dictHashKey d2" using s2 by (simp add: dictHashKey_eq same_dict_def)
  have sk: "same_key d2 = same_key d" using s by (intro same_key_cong) (simp add: same_dict_def)
  obtain found idx where search: "dict_search d2 key (dictHashKey d2 key) = Some (found, idx)"
    and f: "case found of
          Some ref \<Rightarrow> \<exists>t i j. ref = (t, i, j) \<and> valid_ref d2 ref \<and> same_key d2 key (de_key (ht_table (dict_ht d2 t) ! i ! j))
        | None \<Rightarrow> absent d2 key"
    and ix: "let ht = dict_ht d2 (if dictIsRehashing d2 then 1 else 0) in
          found = None \<longrightarrow> idx = unat (dictHashKey d2 key AND ht_sizemask ht) \<and> idx < length (ht_table ht)"
    using dict_search_correct [OF wf2 tbl, of key] by blast
  show ?thesis
  proof (cases found)
    case (Some ref)
    then obtain t i j where r: "ref = (t, i, j)" "valid_ref d2 (t, i, j)"
      "same_key d2 key (de_key (ht_table (dict_ht d2 t) ! i ! j))" using f by auto
    then have "\<not> absent d2 key" using valid_ref_in [OF r(2)] by (auto simp: absent_def)
    then have "\<not> absent d key" using absent_cong [OF s] by simp
    moreover have "dictAddRaw cr d key = Some (d2, Inl (Some ref))"
      using d1 d2 hk search Some by (simp add: dictAddRaw_def dictKeyIndex_def)
    moreover have "same_key d key (de_key (ht_table (dict_ht d2 t) ! i ! j))" using r(3) sk by simp
    moreover have "d_type d2 = d_type d" "dict_entries d2 = dict_entries d" using s by (simp_all add: same_dict_def)
    ultimately show ?thesis using wf2 r(1,2)
      by (intro exI [of _ d2] exI [of _ "Inl (Some ref)"]) simp
  next
    case None
    define t :: nat where "t = (if dictIsRehashing d2 then 1 else 0)"
    define e where "e = new_entry d key None"
    let ?ht = "dict_ht d2 t" and ?ch = "ht_table (dict_ht d2 t) ! idx"
    have tt: "t = 0 \<or> t = 1 \<and> dictIsRehashing d2" by (simp add: t_def)
    have idx: "idx = unat (dictHashKey d2 key AND ht_sizemask ?ht)" "idx < length (ht_table ?ht)"
      using ix None by (auto simp: t_def Let_def)
    have ab: "absent d2 key" using f None by simp
    have ok: "type_ok (d_type d2)" using wf2 by (simp add: dict_wf_def)
    let ?d' = "put_chain d2 t idx (e # ?ch) (ht_used ?ht + 1)"
    have key: "same_key d2 key (de_key e)"
      using same_key_dup [OF ok, of key] s by (simp add: e_def new_entry_def dictSetKey_def same_dict_def)
    have ent: "dict_entries ?d' = add_mset e (dict_entries d2)"
      using put_chain_entries [of t idx d2 "e # ?ch" "ht_used ?ht + 1"] tt idx by auto
    have "placed (dictHashKey d2) ?ht"
      using dict_wf_alloc [OF wf2 tt idx(2)] by (simp add: ht_alloc_def)
    then have "\<forall>x \<in> set (e # ?ch). unat (dictHashKey d2 (de_key x) AND ht_sizemask ?ht) = idx"
      using idx same_key_hash [OF ok key] by (auto simp: placed_def)
    moreover have "keys_unique ?d'"
      by (rule keys_unique_add [OF ok dict_wf_unique [OF wf2] _ ent ab key]) simp
    ultimately have "dict_wf ?d'" using tt idx
      by (intro put_chain_wf [OF wf2]) (auto simp: t_def)
    moreover have "dictAddRaw cr d key = Some (?d', Inr (t, idx, 0))"
      using d1 d2 hk search None idx s
      by (simp add: dictAddRaw_def dictKeyIndex_def t_def [symmetric] put_chain_def e_def new_entry_def
          dictSetKey_def same_dict_def Let_def)
    moreover have "valid_ref ?d' (t, idx, 0)" and "ht_table (dict_ht ?d' t) ! idx ! 0 = e"
      using tt idx by (auto simp: valid_ref_def put_chain_def dict_ht_def dict_set_ht_def dictIsRehashing_def)
    moreover have "absent d key" "d_type ?d' = d_type d" "dict_entries d2 = dict_entries d"
      using ab absent_cong [OF s] s by (simp_all add: same_dict_def)
    ultimately show ?thesis using ent
      by (intro exI [of _ ?d'] exI [of _ "Inr (t, idx, 0)"]) (simp add: e_def)
  qed
qed

lemma dictAdd_ok:
  assumes wf: "dict_wf d" and room: "dict_room d"
  shows "\<exists>d'. dictAdd cr d key v = Some (d', absent d key) \<and> dict_wf d' \<and> d_type d' = d_type d
     \<and> dict_entries d' = (if absent d key then add_mset (new_entry d key (Some (dup_val d v))) (dict_entries d)
                           else dict_entries d)"
proof -
  obtain d1 r where raw: "dictAddRaw cr d key = Some (d1, r)" and wf1: "dict_wf d1" and ty: "d_type d1 = d_type d"
    and r: "case r of
        Inl ex \<Rightarrow> \<not> absent d key \<and> dict_entries d1 = dict_entries d
          \<and> (\<exists>t i j. ex = Some (t, i, j) \<and> valid_ref d1 (t, i, j)
               \<and> same_key d key (de_key (ht_table (dict_ht d1 t) ! i ! j)))
      | Inr ref \<Rightarrow> absent d key \<and> dict_entries d1 = add_mset (new_entry d key None) (dict_entries d)
          \<and> (\<exists>t i j. ref = (t, i, j) \<and> valid_ref d1 (t, i, j)
               \<and> ht_table (dict_ht d1 t) ! i ! j = new_entry d key None)"
    using dictAddRaw_correct [OF wf room, of cr key] by blast
  show ?thesis
  proof (cases r)
    case (Inl ex)
    then show ?thesis using raw wf1 ty r by (simp add: dictAdd_def)
  next
    case (Inr ref)
    then obtain t i j where ref: "ref = (t, i, j)" "valid_ref d1 (t, i, j)"
      and e: "ht_table (dict_ht d1 t) ! i ! j = new_entry d key None"
      and ab: "absent d key" and ent: "dict_entries d1 = add_mset (new_entry d key None) (dict_entries d)"
      using r by auto
    obtain d2 where "dictSetVal d1 (t, i, j) v = Some d2" "dict_wf d2" "d_type d2 = d_type d1"
      and "dict_entries d2 + {#new_entry d key None#}
        = dict_entries d1 + {#(new_entry d key None)\<lparr>de_val := Some (dup_val d1 v)\<rparr>#}"
      using dictSetVal_wf [OF wf1 ref(2), of v] e by auto
    then show ?thesis using raw Inr ref ab ent ty
      by (auto simp: dictAdd_def new_entry_def dup_val_def)
  qed
qed

text \<open>
  C30: \<open>dictAdd\<close> adds a key that is not there with its value and rejects one that is, whatever the
  state of the incremental rehash: the lookup step of the rehash, the expansion of the table and
  the insertion in the right table and bucket together never fault, keep the invariant, and
  change the multiset of entries by exactly the new entry.
\<close>

theorem dictAdd_correct:
  assumes "dict_wf d" and "dict_room d"
  shows "\<exists>d'. dictAdd cr d key v = Some (d', absent d key) \<and> dict_wf d' \<and> d_type d' = d_type d
     \<and> dict_entries d' = (if absent d key then add_mset (new_entry d key (Some (dup_val d v))) (dict_entries d)
                           else dict_entries d)"
  using assms by (rule dictAdd_ok)

text \<open>
  \<open>dictReplace\<close> sets the value of a key, adding the key when it is new: afterwards there is
  exactly one entry for it, with the given value, and every other entry is as before.
\<close>

theorem dictReplace_correct:
  assumes wf: "dict_wf d" and room: "dict_room d"
  shows "\<exists>d' e. dictReplace cr d key v = Some (d', absent d key) \<and> dict_wf d' \<and> d_type d' = d_type d
     \<and> same_key d key (de_key e) \<and> de_val e = Some (dup_val d v)
     \<and> (if absent d key then dict_entries d' = add_mset e (dict_entries d)
        else \<exists>old \<in># dict_entries d. same_key d key (de_key old)
               \<and> dict_entries d' = add_mset e (dict_entries d - {#old#}))"
proof -
  obtain d1 r where raw: "dictAddRaw cr d key = Some (d1, r)" and wf1: "dict_wf d1" and ty: "d_type d1 = d_type d"
    and r: "case r of
        Inl ex \<Rightarrow> \<not> absent d key \<and> dict_entries d1 = dict_entries d
          \<and> (\<exists>t i j. ex = Some (t, i, j) \<and> valid_ref d1 (t, i, j)
               \<and> same_key d key (de_key (ht_table (dict_ht d1 t) ! i ! j)))
      | Inr ref \<Rightarrow> absent d key \<and> dict_entries d1 = add_mset (new_entry d key None) (dict_entries d)
          \<and> (\<exists>t i j. ref = (t, i, j) \<and> valid_ref d1 (t, i, j)
               \<and> ht_table (dict_ht d1 t) ! i ! j = new_entry d key None)"
    using dictAddRaw_correct [OF wf room, of cr key] by blast
  have dv: "dup_val d1 v = dup_val d v" using ty by (simp add: dup_val_def)
  obtain t i j where ref: "valid_ref d1 (t, i, j)" and sel: "r = Inr (t, i, j) \<or> r = Inl (Some (t, i, j))"
    using r by (cases r) auto
  define old where "old = ht_table (dict_ht d1 t) ! i ! j"
  define e where "e = old\<lparr>de_val := Some (dup_val d v)\<rparr>"
  obtain d2 where set: "dictSetVal d1 (t, i, j) v = Some d2" "dict_wf d2" "d_type d2 = d_type d1"
    and ent: "dict_entries d2 + {#old#} = dict_entries d1 + {#e#}"
    using dictSetVal_wf [OF wf1 ref, of v] dv by (auto simp: old_def e_def)
  have old_in: "old \<in># dict_entries d1" unfolding old_def using valid_ref_in [OF ref] .
  have key: "same_key d key (de_key old)"
  proof -
    have ok: "type_ok (d_type d)" using wf by (simp add: dict_wf_def)
    show ?thesis using r sel same_key_dup [OF ok, of key] by (auto simp: old_def new_entry_def)
  qed
  have rep: "dictReplace cr d key v = Some (d2, absent d key)"
    using raw sel set r by (auto simp: dictReplace_def)
  have d2: "dict_entries d2 = add_mset e (dict_entries d1 - {#old#})"
    using ent old_in by (metis add_mset_add_single add_mset_remove_trivial diff_union_swap2 union_single_eq_diff)
  show ?thesis
  proof (cases "absent d key")
    case True
    then have "dict_entries d1 = add_mset old (dict_entries d)" using r sel by (auto simp: old_def)
    then show ?thesis using True rep set ty d2 key by (intro exI [of _ d2] exI [of _ e]) (simp add: e_def)
  next
    case False
    then have "dict_entries d1 = dict_entries d" using r sel by auto
    then show ?thesis using False rep set ty d2 key old_in
      by (intro exI [of _ d2] exI [of _ e]) (auto simp: e_def)
  qed
qed

lemma dictGenericDelete_ok:
  assumes wf: "dict_wf d"
  shows "\<exists>d' r. dictGenericDelete d key = Some (d', r) \<and> dict_wf d' \<and> d_type d' = d_type d
     \<and> (case r of None \<Rightarrow> absent d key \<and> dict_entries d' = dict_entries d
        | Some e \<Rightarrow> e \<in># dict_entries d \<and> same_key d key (de_key e)
            \<and> dict_entries d' = dict_entries d - {#e#} \<and> absent d' key)"
proof (cases "dict_entries d = {#}")
  case True
  then have "ht_used (d_ht0 d) = 0 \<and> ht_used (d_ht1 d) = 0"
    using dict_wf_used0 [OF wf] dict_wf_used1 [OF wf] by (simp add: dict_entries_def)
  then show ?thesis using True wf by (auto simp: dictGenericDelete_def absent_def)
next
  case False
  then have ne: "\<not> (ht_used (d_ht0 d) = 0 \<and> ht_used (d_ht1 d) = 0)"
    using dict_wf_used0 [OF wf] dict_wf_used1 [OF wf] by (auto simp: dict_entries_def)
  obtain d1 where d1: "rehash_if_needed d = Some d1" and wf1: "dict_wf d1" and s: "same_dict d d1"
    using rehash_if_needed_wf [OF wf] by blast
  have ent: "dict_entries d1 = dict_entries d" and ty: "d_type d1 = d_type d" using s by (simp_all add: same_dict_def)
  have sk: "same_key d1 = same_key d" using same_key_cong [OF ty] .
  have "ht_table (d_ht0 d1) \<noteq> []"
  proof
    assume "ht_table (d_ht0 d1) = []"
    then have "dict_entries d1 = {#}"
      using wf1 by (auto simp: dict_wf_def ht_alloc_def dict_entries_def ht_entries_def split: if_splits)
    then show False using False ent by simp
  qed
  then obtain found idx where search: "dict_search d1 key (dictHashKey d1 key) = Some (found, idx)"
    and f: "case found of
          Some ref \<Rightarrow> \<exists>t i j. ref = (t, i, j) \<and> valid_ref d1 ref \<and> same_key d1 key (de_key (ht_table (dict_ht d1 t) ! i ! j))
        | None \<Rightarrow> absent d1 key"
    using dict_search_correct [OF wf1, of key] by blast
  show ?thesis
  proof (cases found)
    case None
    then show ?thesis using ne d1 search f wf wf1 ent ty absent_cong [OF s] by (simp add: dictGenericDelete_def)
  next
    case (Some ref)
    then obtain t i j where ref: "ref = (t, i, j)" "valid_ref d1 (t, i, j)"
      and key: "same_key d1 key (de_key (ht_table (dict_ht d1 t) ! i ! j))" using f by auto
    let ?ht = "dict_ht d1 t" and ?ch = "ht_table (dict_ht d1 t) ! i"
    let ?xs = "take j ?ch @ drop (Suc j) ?ch" and ?e = "ht_table (dict_ht d1 t) ! i ! j"
    let ?d' = "put_chain d1 t i ?xs (ht_used ?ht - 1)"
    have r: "t = 0 \<or> t = 1 \<and> dictIsRehashing d1" "i < length (ht_table ?ht)" "j < length ?ch"
      using ref(2) by (auto simp: valid_ref_def)
    have ch: "mset ?ch = add_mset ?e (mset ?xs)"
      by (subst id_take_nth_drop [OF r(3)]) simp
    have "dict_entries ?d' + mset ?ch = dict_entries d1 + mset ?xs"
      using r by (intro put_chain_entries) auto
    then have e': "add_mset ?e (dict_entries ?d') = dict_entries d1" unfolding ch by simp
    then have ent': "dict_entries ?d' = dict_entries d1 - {#?e#}" by (metis add_mset_remove_trivial)
    have uniq: "keys_unique ?d'"
    proof (rule keys_unique_submset [OF dict_wf_unique [OF wf1]])
      show "dict_entries ?d' \<subseteq># dict_entries d1" unfolding ent' by (rule diff_subset_eq_self)
    qed simp
    have alloc: "ht_alloc (dictHashKey d1) ?ht" using dict_wf_alloc [OF wf1 r(1,2)] .
    then have "\<forall>x \<in> set ?xs. unat (dictHashKey d1 (de_key x) AND ht_sizemask ?ht) = i"
      using r by (auto simp: ht_alloc_def placed_def dest: in_set_takeD in_set_dropD)
    moreover have "ht_used ?ht - 1 + length ?ch = ht_used ?ht + length ?xs"
      using r chain_le_used [OF alloc r(2)] by simp
    moreover have "?ch \<noteq> []" using r(3) by auto
    ultimately have wf': "dict_wf ?d'"
      using r uniq by (intro put_chain_wf [OF wf1]) auto
    have "size (filter_mset (\<lambda>e. same_key d1 key (de_key e)) (add_mset ?e (dict_entries ?d'))) \<le> 1"
      using dict_wf_unique [OF wf1] unfolding e' keys_unique_def by blast
    then have "filter_mset (\<lambda>e. same_key d1 key (de_key e)) (dict_entries ?d') = {#}" using key by simp
    then have ab: "absent ?d' key"
      using same_key_cong [of ?d' d1] filter_mset_empty [where M = "dict_entries ?d'"]
      by (simp add: absent_def del: One_nat_def)
    have "dictGenericDelete d key = Some (?d', Some ?e)"
      using ne d1 search Some ref r dict_entry_valid [OF ref(2)]
      by (simp add: dictGenericDelete_def put_chain_def Let_def)
    then show ?thesis using wf' ty ent ent' key sk ab valid_ref_in [OF ref(2)]
      by (intro exI [of _ ?d'] exI [of _ "Some ?e"]) simp
  qed
qed

text \<open>
  \<open>dictGenericDelete\<close>, and with it \<open>dictDelete\<close> and \<open>dictUnlink\<close>, removes the entry of a key
  when there is one and returns it, and otherwise removes nothing.
\<close>

theorem dictGenericDelete_correct:
  assumes "dict_wf d"
  shows "\<exists>d' r. dictGenericDelete d key = Some (d', r) \<and> dict_wf d' \<and> d_type d' = d_type d
     \<and> (case r of None \<Rightarrow> absent d key \<and> dict_entries d' = dict_entries d
        | Some e \<Rightarrow> e \<in># dict_entries d \<and> same_key d key (de_key e)
            \<and> dict_entries d' = dict_entries d - {#e#} \<and> absent d' key)"
  using assms by (rule dictGenericDelete_ok)

lemma dict_table_nonempty:
  assumes wf: "dict_wf d" and "dict_entries d \<noteq> {#}"
  shows "ht_table (d_ht0 d) \<noteq> []"
proof
  assume "ht_table (d_ht0 d) = []"
  then have "dict_entries d = {#}"
    using wf by (auto simp: dict_wf_def ht_alloc_def dict_entries_def ht_entries_def split: if_splits)
  then show False using assms(2) by simp
qed

lemma dictFind_ok:
  assumes wf: "dict_wf d"
  shows "\<exists>d' r. dictFind d key = Some (d', r) \<and> dict_wf d' \<and> same_dict d d'
     \<and> (case r of None \<Rightarrow> absent d key
        | Some ref \<Rightarrow> \<exists>e. dict_entry d' ref = Some e \<and> e \<in># dict_entries d \<and> same_key d key (de_key e))"
proof (cases "dict_entries d = {#}")
  case True
  then show ?thesis using wf dictSize_entries [OF wf] by (auto simp: dictFind_def absent_def)
next
  case False
  obtain d1 where d1: "rehash_if_needed d = Some d1" and wf1: "dict_wf d1" and s: "same_dict d d1"
    using rehash_if_needed_wf [OF wf] by blast
  have ent: "dict_entries d1 = dict_entries d" and sk: "same_key d1 = same_key d"
    using s same_key_cong [of d1 d] by (simp_all add: same_dict_def)
  obtain found idx where search: "dict_search d1 key (dictHashKey d1 key) = Some (found, idx)"
    and f: "case found of
          Some ref \<Rightarrow> \<exists>t i j. ref = (t, i, j) \<and> valid_ref d1 ref \<and> same_key d1 key (de_key (ht_table (dict_ht d1 t) ! i ! j))
        | None \<Rightarrow> absent d1 key"
    using dict_search_correct [OF wf1 dict_table_nonempty [OF wf1], of key] False ent by auto
  have "dictFind d key = Some (d1, found)"
    using False d1 search dictSize_entries [OF wf] by (simp add: dictFind_def)
  moreover have "case found of None \<Rightarrow> absent d key
      | Some ref \<Rightarrow> \<exists>e. dict_entry d1 ref = Some e \<and> e \<in># dict_entries d \<and> same_key d key (de_key e)"
    using f absent_cong [OF s] ent sk dict_entry_valid valid_ref_in
    by (fastforce split: option.splits)
  ultimately show ?thesis using wf1 s by blast
qed

text \<open>
  \<open>dictFind\<close> finds the entry of a key exactly when there is one, through both tables while a
  rehash is in progress; the rehash step it performs changes no entry.
\<close>

theorem dictFind_correct:
  assumes "dict_wf d"
  shows "\<exists>d' r. dictFind d key = Some (d', r) \<and> dict_wf d' \<and> same_dict d d'
     \<and> (case r of None \<Rightarrow> absent d key
        | Some ref \<Rightarrow> \<exists>e. dict_entry d' ref = Some e \<and> e \<in># dict_entries d \<and> same_key d key (de_key e))"
  using assms by (rule dictFind_ok)

text \<open>
  C31: an incremental rehash step is invisible: any number of steps from any well-formed state
  neither faults (the assertion on \<open>rehashidx\<close> holds, no bucket outside a table is read) nor loses,
  duplicates or changes an entry, and the result says whether rehashing is still in progress.
\<close>

theorem dictRehash_correct:
  assumes "dict_wf d"
  shows "\<exists>d' more. dictRehash d n = Some (d', more) \<and> dict_wf d' \<and> dict_entries d' = dict_entries d
     \<and> (more \<longleftrightarrow> dictIsRehashing d')"
  using dictRehash_wf [OF assms, of n] by (auto simp: same_dict_def)

lemma dictClear_loop_correct:
  assumes "length tbl = sz" and "used = size (mset (concat (drop i tbl)))" and "i \<le> sz"
  shows "\<exists>xs. dictClear_loop tbl sz i used destroyed = Some (destroyed @ xs) \<and> mset xs = mset (concat (drop i tbl))"
  using assms
proof (induction tbl sz i used destroyed rule: dictClear_loop.induct)
  case (1 tbl sz i used destroyed)
  show ?case
  proof (cases "i < sz \<and> used > 0")
    case False
    then have "concat (drop i tbl) = []" using "1.prems" by (cases "i < sz") auto
    then show ?thesis using False by (subst dictClear_loop.simps) auto
  next
    case True
    then have i: "i < length tbl" using "1.prems" by simp
    have split: "drop i tbl = tbl ! i # drop (Suc i) tbl" using i by (rule Cons_nth_drop_Suc [symmetric])
    obtain xs where "dictClear_loop tbl sz (i + 1) (used - length (tbl ! i)) (destroyed @ tbl ! i)
        = Some ((destroyed @ tbl ! i) @ xs)" and "mset xs = mset (concat (drop (i + 1) tbl))"
      using "1.IH" [OF True i] "1.prems" True split by auto
    then show ?thesis using True i split
      by (subst dictClear_loop.simps) (auto intro!: exI [of _ "tbl ! i @ xs"])
  qed
qed

lemma dictClear_correct:
  assumes "ht = dictReset \<or> ht_alloc hash ht"
  shows "\<exists>xs. dictClear ht = Some (dictReset, xs) \<and> mset xs = ht_entries ht"
proof -
  have "length (ht_table ht) = ht_size ht" and "ht_used ht = size (ht_entries ht)"
    using assms by (auto simp: ht_alloc_def)
  then show ?thesis
    using dictClear_loop_correct [of "ht_table ht" "ht_size ht" "ht_used ht" 0 "[]"]
    by (auto simp: dictClear_def ht_entries_def)
qed

text \<open>
  \<open>dictEmpty\<close> leaves an empty dictionary and destroys every entry exactly once, also in the
  middle of a rehash, although it stops looking at buckets as soon as the counter reaches zero.
\<close>

theorem dictEmpty_correct:
  assumes wf: "dict_wf d"
  shows "\<exists>d' xs. dictEmpty d = Some (d', xs) \<and> dict_wf d' \<and> dict_entries d' = {#} \<and> mset xs = dict_entries d"
proof -
  have "d_ht0 d = dictReset \<or> ht_alloc (dictHashKey d) (d_ht0 d)"
    and "d_ht1 d = dictReset \<or> ht_alloc (dictHashKey d) (d_ht1 d)"
    using wf by (auto simp: dict_wf_def split: if_splits)
  then obtain xs ys where "dictClear (d_ht0 d) = Some (dictReset, xs)" "mset xs = ht_entries (d_ht0 d)"
    and "dictClear (d_ht1 d) = Some (dictReset, ys)" "mset ys = ht_entries (d_ht1 d)"
    using dictClear_correct by metis
  then show ?thesis using wf
    by (auto simp: dictEmpty_def dict_entries_def dict_wf_def keys_unique_def dictIsRehashing_def)
qed

lemma dictExpand_wf:
  assumes "dict_wf d" and "sz \<le> 2 ^ 60"
  shows "\<exists>d' ok. dictExpand d sz = Some (d', ok) \<and> dict_wf d' \<and> same_dict d d'"
  using dictExpand_gen_wf [OF assms, of None] by (auto simp: dictExpand_def)

lemma dictResize_wf:
  assumes "dict_wf d" and "size (dict_entries d) \<le> 2 ^ 60"
  shows "\<exists>d' ok. dictResize can_resize d = Some (d', ok) \<and> dict_wf d' \<and> same_dict d d'"
proof -
  have "ht_used (d_ht0 d) \<le> 2 ^ 60" using dict_wf_used0 [OF assms(1)] assms(2) by (simp add: dict_entries_def)
  then show ?thesis
    using assms(1) dictExpand_wf [OF assms(1), of "max DICT_HT_INITIAL_SIZE (ht_used (d_ht0 d))"]
    by (auto simp: dictResize_def Let_def DICT_HT_INITIAL_SIZE_def max_def split: if_splits)
qed

section \<open>Examples\<close>

definition ex_type :: "(nat, int) dictType" where
  "ex_type = \<lparr>hashFunction = word_of_nat, keyDup = None, valDup = None, keyCompare = None, expandAllowed = None\<rparr>"

lemma ex_dict_wf: "dict_wf (dictCreate ex_type)" "dict_room (dictCreate ex_type)" "dict_entries (dictCreate ex_type) = {#}"
  by (simp_all add: dict_wf_def dictCreate_def dictInit_def dictIsRehashing_def ex_type_def type_ok_def
      keys_unique_def dict_entries_def dict_room_def)

theorem dictAdd_correct_witness:
  "\<exists>d'. dictAdd True (dictCreate ex_type) 7 42 = Some (d', True) \<and> dict_wf d' \<and> d_type d' = ex_type
     \<and> dict_entries d' = {#\<lparr>de_key = 7, de_val = Some 42\<rparr>#}"
proof -
  have "absent (dictCreate ex_type) 7" by (simp add: absent_def ex_dict_wf)
  then show ?thesis using dictAdd_correct [OF ex_dict_wf(1,2), of True 7 42]
    by (simp add: ex_dict_wf(3) new_entry_def dictSetKey_def dup_val_def)
      (simp add: dictCreate_def dictInit_def ex_type_def)
qed

lemma placed_enumerate: "placed hash ht \<longleftrightarrow>
  list_all (\<lambda>(i, ch). \<forall>e \<in> set ch. unat (hash (de_key e) AND ht_sizemask ht) = i) (enumerate 0 (ht_table ht))"
  by (simp add: placed_def list_all_length nth_enumerate_eq)

text \<open>A dictionary in the middle of a rehash from 4 to 8 buckets.\<close>

definition ex_dict :: "(nat, int) dict" where
  "ex_dict = \<lparr>d_type = ex_type,
     d_ht0 = \<lparr>ht_table = [[], [], [\<lparr>de_key = 6, de_val = Some 60\<rparr>, \<lparr>de_key = 10, de_val = Some 100\<rparr>], []],
              ht_size = 4, ht_sizemask = 3, ht_used = 2\<rparr>,
     d_ht1 = \<lparr>ht_table = [[], [\<lparr>de_key = 9, de_val = Some 90\<rparr>], [], [], [], [], [], []],
              ht_size = 8, ht_sizemask = 7, ht_used = 1\<rparr>,
     d_rehashidx = 2, d_pauserehash = 0\<rparr>"

lemma ex_dict_entries: "dict_entries ex_dict =
  {#\<lparr>de_key = 6, de_val = Some 60\<rparr>, \<lparr>de_key = 10, de_val = Some 100\<rparr>, \<lparr>de_key = 9, de_val = Some 90\<rparr>#}"
  by (simp add: ex_dict_def dict_entries_def ht_entries_def)

lemma ex_dict_same_key: "same_key ex_dict k k' \<longleftrightarrow> k = k'"
  by (simp add: same_key_def dictCompareKeys_def ex_dict_def ex_type_def)

lemma ex_dict_ok: "dict_wf ex_dict" "dict_room ex_dict"
proof -
  have "ht_alloc (dictHashKey ex_dict) (d_ht0 ex_dict)"
    unfolding ht_alloc_def
  proof (intro conjI exI [of _ 2])
    show "placed (dictHashKey ex_dict) (d_ht0 ex_dict)"
      by (simp add: placed_enumerate ex_dict_def dictHashKey_def ex_type_def)
  qed (simp_all add: ex_dict_def ht_entries_def mask_eq_exp_minus_1)
  moreover have "ht_alloc (dictHashKey ex_dict) (d_ht1 ex_dict)"
    unfolding ht_alloc_def
  proof (intro conjI exI [of _ 3])
    show "placed (dictHashKey ex_dict) (d_ht1 ex_dict)"
      by (simp add: placed_enumerate ex_dict_def dictHashKey_def ex_type_def)
  qed (simp_all add: ex_dict_def ht_entries_def mask_eq_exp_minus_1)
  moreover have "keys_unique ex_dict" by (simp add: keys_unique_def ex_dict_entries ex_dict_same_key)
  moreover have "type_ok (d_type ex_dict)" by (simp add: ex_dict_def ex_type_def type_ok_def)
  ultimately show "dict_wf ex_dict"
    by (simp add: dict_wf_def) (simp add: ex_dict_def dictIsRehashing_def nth_Cons split: nat.split)
  show "dict_room ex_dict" by (simp add: dict_room_def ex_dict_entries)
qed

theorem dictReplace_correct_witness:
  "\<exists>d'. dictReplace True ex_dict 10 5 = Some (d', False) \<and> dict_wf d'"
  using dictReplace_correct [OF ex_dict_ok, of True 10 5]
  by (auto simp: absent_def ex_dict_entries ex_dict_same_key)

theorem dictGenericDelete_correct_witness:
  "\<exists>d' e. dictGenericDelete ex_dict 10 = Some (d', Some e) \<and> de_key e = 10 \<and> absent d' 10"
  using dictGenericDelete_correct [OF ex_dict_ok(1), of 10]
  by (auto simp: absent_def [of ex_dict] ex_dict_entries ex_dict_same_key split: option.splits)

theorem dictFind_correct_witness:
  "\<exists>d' ref e. dictFind ex_dict 9 = Some (d', Some ref) \<and> dict_entry d' ref = Some e \<and> de_key e = 9"
  using dictFind_correct [OF ex_dict_ok(1), of 9]
  by (fastforce simp: absent_def ex_dict_entries ex_dict_same_key split: option.splits)

theorem dictRehash_correct_witness:
  "\<exists>d' more. dictRehash ex_dict 2 = Some (d', more) \<and> dict_wf d' \<and> dict_entries d' = dict_entries ex_dict"
  using dictRehash_correct [OF ex_dict_ok(1), of 2] by blast

theorem dictEmpty_correct_witness:
  "\<exists>d' xs. dictEmpty ex_dict = Some (d', xs) \<and> dict_entries d' = {#} \<and> mset xs = dict_entries ex_dict"
  using dictEmpty_correct [OF ex_dict_ok(1)] by blast

section \<open>Requests beyond the address space\<close>

text \<open>
  The byte count of a new table is not checked for overflow.  A request for \<open>2 ^ 63\<close> buckets, as a
  length field of a serialized value can cause, succeeds: the multiplication wraps to zero, no
  bucket is allocated, and the table claims \<open>2 ^ 63\<close> of them, so that the next insertion accesses
  memory outside it.
\<close>

theorem dictTryExpand_wraps:
  "\<exists>d'. dictTryExpand True (dictCreate ex_type) 9223372036854775808 = Some (d', True)
     \<and> ht_size (d_ht0 d') = 9223372036854775808 \<and> ht_table (d_ht0 d') = []
     \<and> dictAdd True d' 7 42 = None"
proof -
  define d' where "d' = dictCreate ex_type\<lparr>d_ht0 := \<lparr>ht_table = [], ht_size = 9223372036854775808,
     ht_sizemask = word_of_nat 9223372036854775807, ht_used = 0\<rparr>\<rparr>"
  have "dictTryExpand True (dictCreate ex_type) 9223372036854775808 = Some (d', True)"
    by (simp add: dictTryExpand_def dictExpand_gen_def dictCreate_def dictInit_def dictIsRehashing_def dictNextPower_def
        Let_def d'_def)
  moreover have "dictAdd True d' 7 42 = None"
    by (simp add: dictAdd_def dictAddRaw_def rehash_if_needed_def dictKeyIndex_def dictExpandIfNeeded_def d'_def
        dictCreate_def dictInit_def dictIsRehashing_def dict_search_def bucket_def)
  ultimately show ?thesis by (simp add: d'_def)
qed

end
