(* ===== verification/Dict_Scan.thy ===== *)
theory Dict_Scan
  imports Dict
begin

text \<open>
  The stateless cursor iteration \<open>dictScan\<close> of \<open>src/redis-6.2.0/src/dict.c\<close> and the bit reversal it
  rests on.  The callbacks are recorded as the sequence of events they are called with.  The main
  theorem is the guarantee clients of SCAN rely on: whatever resizes and rehashes happen between
  the calls, a full iteration reports every key that is there all the time.
\<close>

section \<open>Model\<close>

text \<open>\<open>s\<close> is the bit size, halved in every round; the loop ends when it reaches zero.\<close>

fun rev_loop :: "nat \<Rightarrow> u64 \<Rightarrow> u64 \<Rightarrow> u64" where
  "rev_loop s msk v =
     (let s' = s div 2 in
      if s' > 0 then
        let msk' = msk XOR push_bit s' msk;
            v' = (drop_bit s' v AND msk') OR (push_bit s' v AND NOT msk')
        in rev_loop s' msk' v'
      else v)"

declare rev_loop.simps [simp del]

definition rev_bits :: "u64 \<Rightarrow> u64" where
  "rev_bits v = rev_loop 64 (NOT 0) v"

datatype ('k, 'v) scan_event =
  ScanBucket nat nat
| ScanEntry "('k, 'v) dictEntry"

text \<open>Emission of one bucket: the optional bucket callback, then the entry callback along the chain.\<close>

definition scan_bucket :: "bool \<Rightarrow> ('k, 'v) dict \<Rightarrow> nat \<Rightarrow> u64 \<Rightarrow> ('k, 'v) scan_event list option" where
  "scan_bucket bucketfn d t v = do {
     let ht = dict_ht d t;
     let i = unat (v AND ht_sizemask ht);
     chain \<leftarrow> bucket ht i;
     Some ((if bucketfn then [ScanBucket t i] else []) @ map ScanEntry chain)
   }"

definition scan_advance :: "u64 \<Rightarrow> u64 \<Rightarrow> u64" where
  "scan_advance m v = rev_bits (rev_bits (v OR NOT m) + 1)"

partial_function (option) dictScan_loop ::
  "bool \<Rightarrow> ('k, 'v) dict \<Rightarrow> nat \<Rightarrow> u64 \<Rightarrow> u64 \<Rightarrow> u64 \<Rightarrow> ('k, 'v) scan_event list \<Rightarrow> (('k, 'v) scan_event list \<times> u64) option" where
  "dictScan_loop bucketfn d t m0 m1 v out = do {
     evs \<leftarrow> scan_bucket bucketfn d t v;
     let v' = scan_advance m1 v;
     if v' AND (m0 XOR m1) \<noteq> 0 then dictScan_loop bucketfn d t m0 m1 v' (out @ evs)
     else Some (out @ evs, v')
   }"

definition dictScan ::
  "bool \<Rightarrow> ('k, 'v) dict \<Rightarrow> u64 \<Rightarrow> (('k, 'v) dict \<times> ('k, 'v) scan_event list \<times> u64) option" where
  "dictScan bucketfn d v =
     (if dictSize d = 0 then Some (d, [], 0)
      else do {
        let d1 = d\<lparr>d_pauserehash := d_pauserehash d + 1\<rparr>;
        (evs, v') \<leftarrow>
          (if \<not> dictIsRehashing d1 then do {
             evs \<leftarrow> scan_bucket bucketfn d1 0 v;
             Some (evs, scan_advance (ht_sizemask (d_ht0 d1)) v)
           }
           else do {
             let (t0, t1) = (if ht_size (d_ht0 d1) > ht_size (d_ht1 d1) then (1, 0) else (0, 1));
             let m0 = ht_sizemask (dict_ht d1 t0);
             let m1 = ht_sizemask (dict_ht d1 t1);
             evs \<leftarrow> scan_bucket bucketfn d1 t0 v;
             dictScan_loop bucketfn d1 t1 m0 m1 v evs
           });
        Some (d1\<lparr>d_pauserehash := d_pauserehash d1 - 1\<rparr>, evs, v')
      })"

section \<open>The bit reversal\<close>

definition rev_step :: "nat \<Rightarrow> u64 \<Rightarrow> u64 \<Rightarrow> u64" where
  "rev_step s m v = (drop_bit s v AND m) OR (push_bit s v AND NOT m)"

lemma rev_loop_round:
  assumes "1 < s"
  shows "rev_loop s msk v = (let m = msk XOR push_bit (s div 2) msk in rev_loop (s div 2) m (rev_step (s div 2) m v))"
proof -
  have "s div 2 > 0" using assms by simp
  then show ?thesis by (subst rev_loop.simps) (simp add: rev_step_def Let_def)
qed

lemma rev_halves: "64 div 2 = (32::nat)" "32 div 2 = (16::nat)" "16 div 2 = (8::nat)"
    "8 div 2 = (4::nat)" "4 div 2 = (2::nat)" "2 div 2 = (1::nat)"
  by simp_all

lemma rev_masks:
  "NOT 0 XOR push_bit 32 (NOT 0) = (0x00000000FFFFFFFF :: u64)"
  "0x00000000FFFFFFFF XOR push_bit 16 0x00000000FFFFFFFF = (0x0000FFFF0000FFFF :: u64)"
  "0x0000FFFF0000FFFF XOR push_bit 8 0x0000FFFF0000FFFF = (0x00FF00FF00FF00FF :: u64)"
  "0x00FF00FF00FF00FF XOR push_bit 4 0x00FF00FF00FF00FF = (0x0F0F0F0F0F0F0F0F :: u64)"
  "0x0F0F0F0F0F0F0F0F XOR push_bit 2 0x0F0F0F0F0F0F0F0F = (0x3333333333333333 :: u64)"
  "0x3333333333333333 XOR push_bit 1 0x3333333333333333 = (0x5555555555555555 :: u64)"
  by code_simp+

lemma rev_loop_rounds:
  "rev_loop 64 (NOT 0) v = rev_loop 32 0x00000000FFFFFFFF (rev_step 32 0x00000000FFFFFFFF v)"
  "rev_loop 32 0x00000000FFFFFFFF v = rev_loop 16 0x0000FFFF0000FFFF (rev_step 16 0x0000FFFF0000FFFF v)"
  "rev_loop 16 0x0000FFFF0000FFFF v = rev_loop 8 0x00FF00FF00FF00FF (rev_step 8 0x00FF00FF00FF00FF v)"
  "rev_loop 8 0x00FF00FF00FF00FF v = rev_loop 4 0x0F0F0F0F0F0F0F0F (rev_step 4 0x0F0F0F0F0F0F0F0F v)"
  "rev_loop 4 0x0F0F0F0F0F0F0F0F v = rev_loop 2 0x3333333333333333 (rev_step 2 0x3333333333333333 v)"
  "rev_loop 2 0x3333333333333333 v = rev_loop 1 0x5555555555555555 (rev_step 1 0x5555555555555555 v)"
  by (rule trans [OF rev_loop_round], simp, simp only: Let_def rev_halves rev_masks)+

lemma rev_loop_end: "rev_loop 1 m v = v"
  by (subst rev_loop.simps) simp

lemma rev_bits_steps:
  "rev_bits v = rev_step 1 0x5555555555555555 (rev_step 2 0x3333333333333333 (rev_step 4 0x0F0F0F0F0F0F0F0F
     (rev_step 8 0x00FF00FF00FF00FF (rev_step 16 0x0000FFFF0000FFFF (rev_step 32 0x00000000FFFFFFFF v)))))"
  unfolding rev_bits_def rev_loop_rounds rev_loop_end ..

definition swap_index :: "nat \<Rightarrow> nat \<Rightarrow> nat" where
  "swap_index s i = (if even (i div s) then i + s else i - s)"

definition block_mask :: "nat \<Rightarrow> u64 \<Rightarrow> bool" where
  "block_mask s m \<longleftrightarrow> list_all (\<lambda>i. bit m i = even (i div s) \<and> swap_index s i < 64) [0..<64]"

lemma bit_rev_step:
  assumes "block_mask s m" and "i < 64" and "s > 0"
  shows "bit (rev_step s m v) i = bit v (swap_index s i)"
proof -
  have b: "bit m i = even (i div s)" and "swap_index s i < 64"
    using assms(1,2) by (auto simp: block_mask_def list_all_iff)
  moreover have "s \<le> i" if "odd (i div s)" using that by (cases "i < s") auto
  ultimately show ?thesis using assms(2,3)
    by (auto simp: rev_step_def swap_index_def bit_simps bit_drop_bit_eq add.commute)
qed

lemma block_masks:
  "block_mask 1 0x5555555555555555" "block_mask 2 0x3333333333333333" "block_mask 4 0x0F0F0F0F0F0F0F0F"
  "block_mask 8 0x00FF00FF00FF00FF" "block_mask 16 0x0000FFFF0000FFFF" "block_mask 32 0x00000000FFFFFFFF"
  by code_simp+

lemma swap_index_all: "list_all (\<lambda>i.
    swap_index 1 i < 64 \<and> swap_index 2 (swap_index 1 i) < 64 \<and> swap_index 4 (swap_index 2 (swap_index 1 i)) < 64
  \<and> swap_index 8 (swap_index 4 (swap_index 2 (swap_index 1 i))) < 64
  \<and> swap_index 16 (swap_index 8 (swap_index 4 (swap_index 2 (swap_index 1 i)))) < 64
  \<and> swap_index 32 (swap_index 16 (swap_index 8 (swap_index 4 (swap_index 2 (swap_index 1 i))))) = 63 - i) [0..<64]"
  by code_simp

lemma bit_rev_bits: "i < 64 \<Longrightarrow> bit (rev_bits v) i = bit v (63 - i)"
proof -
  assume i: "i < 64"
  then show ?thesis using swap_index_all block_masks
    by (simp add: rev_bits_steps bit_rev_step list_all_iff)
qed

lemma rev_bits_rev_bits [simp]: "rev_bits (rev_bits v) = v"
  by (rule bit_word_eqI) (simp add: bit_rev_bits)

section \<open>Cursors in the reversed order\<close>

text \<open>
  Seen through the bit reversal a cursor is a number that only grows: advancing it with a mask of
  \<open>k\<close> bits rounds it up to the next multiple of \<open>2 ^ (64 - k)\<close>, and a bucket of a table of \<open>2 ^ k\<close>
  buckets holds exactly the hashes of one aligned interval of that width.
\<close>

definition rpos :: "u64 \<Rightarrow> nat" where
  "rpos v = unat (rev_bits v)"

definition round_up :: "nat \<Rightarrow> nat \<Rightarrow> nat" where
  "round_up w r = (r div w + 1) * w"

lemma rpos_less: "rpos v < 18446744073709551616"
  using unsigned_less [of "rev_bits v"] by (simp add: rpos_def)

lemma rev_bits_0 [simp]: "rev_bits 0 = 0"
  by (rule bit_word_eqI) (simp add: bit_rev_bits)

lemma rpos_eq_0_iff [simp]: "rpos v = 0 \<longleftrightarrow> v = 0"
  by (metis rev_bits_0 rev_bits_rev_bits rpos_def unat_eq_zero)

lemma rpos_0 [simp]: "rpos 0 = 0"
  by simp

lemma rev_bits_or_not_mask:
  "k \<le> 64 \<Longrightarrow> rev_bits (v OR NOT (mask k)) = rev_bits v OR mask (64 - k)"
  by (rule bit_word_eqI) (auto simp: bit_rev_bits bit_simps)

lemma nat_or_mask: "(r :: nat) OR mask n = r div 2 ^ n * 2 ^ n + (2 ^ n - 1)"
proof -
  have "r OR mask n = push_bit n (drop_bit n (r OR mask n)) + take_bit n (r OR mask n)"
    by (rule bits_ident [symmetric])
  also have "drop_bit n (r OR mask n) = drop_bit n r"
    by (rule bit_eqI) (simp add: bit_simps)
  also have "take_bit n (r OR mask n) = mask n"
    by (rule bit_eqI) (auto simp: bit_simps)
  finally show ?thesis by (simp add: push_bit_eq_mult drop_bit_eq_div mask_eq_exp_minus_1)
qed

lemma rpos_scan_advance:
  assumes "k \<le> 64"
  shows "rpos (scan_advance (mask k) v) = round_up (2 ^ (64 - k)) (rpos v) mod 18446744073709551616"
proof -
  have "unat (rev_bits v OR mask (64 - k)) = rpos v OR mask (64 - k)"
    unfolding rpos_def by (rule bit_eqI) (auto simp: bit_simps bit_unsigned_iff)
  also have "\<dots> + 1 = round_up (2 ^ (64 - k)) (rpos v)"
    by (simp add: nat_or_mask round_up_def)
  finally have "unat (rev_bits v OR mask (64 - k)) + 1 = round_up (2 ^ (64 - k)) (rpos v)" .
  then show ?thesis
    using assms by (simp add: rpos_def scan_advance_def rev_bits_or_not_mask unat_word_ariths)
qed

lemma mask_eq_iff_rpos:
  assumes "k \<le> 64"
  shows "v AND mask k = h AND mask k \<longleftrightarrow> rpos v div 2 ^ (64 - k) = rpos h div 2 ^ (64 - k)"
proof -
  have "rpos v div 2 ^ (64 - k) = rpos h div 2 ^ (64 - k)
      \<longleftrightarrow> drop_bit (64 - k) (rev_bits v) = drop_bit (64 - k) (rev_bits h)"
    by (simp add: rpos_def unat_drop_bit_eq word_unat_eq_iff flip: drop_bit_eq_div)
  also have "\<dots> \<longleftrightarrow> (\<forall>i < k. bit v i = bit h i)"
  proof (rule iffI, intro allI impI)
    fix i assume eq: "drop_bit (64 - k) (rev_bits v) = drop_bit (64 - k) (rev_bits h)" and "i < k"
    then have "bit (drop_bit (64 - k) (rev_bits v)) (k - 1 - i) = bit (drop_bit (64 - k) (rev_bits h)) (k - 1 - i)"
      by simp
    moreover have "64 - k + (k - 1 - i) = 63 - i" using \<open>i < k\<close> assms by linarith
    ultimately show "bit v i = bit h i" using \<open>i < k\<close> assms by (simp add: bit_drop_bit_eq bit_rev_bits)
  next
    assume eq: "\<forall>i < k. bit v i = bit h i"
    show "drop_bit (64 - k) (rev_bits v) = drop_bit (64 - k) (rev_bits h)"
    proof (rule bit_word_eqI)
      fix j :: nat assume "j < LENGTH(64)"
      show "bit (drop_bit (64 - k) (rev_bits v)) j = bit (drop_bit (64 - k) (rev_bits h)) j"
      proof (cases "64 - k + j < 64")
        case True
        then have "63 - (64 - k + j) < k" using assms by linarith
        then show ?thesis using eq True by (simp add: bit_drop_bit_eq bit_rev_bits)
      qed (auto simp: bit_drop_bit_eq dest: bit_imp_le_length)
    qed
  qed
  also have "\<dots> \<longleftrightarrow> v AND mask k = h AND mask k"
    using assms by (auto simp: bit_eq_iff bit_simps) (meson less_le_trans)+
  finally show ?thesis ..
qed

lemma scan_continue_iff:
  assumes "k0 \<le> k1" and "k1 \<le> 64" and "2 ^ (64 - k1) dvd rpos v"
  shows "v AND (mask k0 XOR mask k1) = 0 \<longleftrightarrow> 2 ^ (64 - k0) dvd rpos v"
proof -
  have low: "\<not> bit (rpos v) j" if "j < 64 - k1" for j
    using assms(3) that bit_take_bit_iff [of "64 - k1" "rpos v" j] by (simp flip: take_bit_eq_0_iff)
  have "2 ^ (64 - k0) dvd rpos v \<longleftrightarrow> take_bit (64 - k0) (rpos v) = 0" by (simp add: take_bit_eq_0_iff)
  also have "\<dots> \<longleftrightarrow> (\<forall>j < 64 - k0. \<not> bit (rpos v) j)" by (auto simp: bit_eq_iff bit_simps)
  also have "\<dots> \<longleftrightarrow> (\<forall>j < 64 - k0. j \<ge> 64 - k1 \<longrightarrow> \<not> bit v (63 - j))"
    using low by (auto simp: rpos_def bit_unsigned_iff bit_rev_bits not_less dest: leI)
  also have "\<dots> \<longleftrightarrow> (\<forall>i. k0 \<le> i \<and> i < k1 \<longrightarrow> \<not> bit v i)"
  proof (intro iffI allI impI)
    fix i assume "\<forall>j < 64 - k0. j \<ge> 64 - k1 \<longrightarrow> \<not> bit v (63 - j)" and i: "k0 \<le> i \<and> i < k1"
    then show "\<not> bit v i" using assms(2) by (auto dest!: spec [of _ "63 - i"])
  next
    fix j assume "\<forall>i. k0 \<le> i \<and> i < k1 \<longrightarrow> \<not> bit v i" and "j < 64 - k0" and "64 - k1 \<le> j"
    moreover then have "k0 \<le> 63 - j \<and> 63 - j < k1" using assms(2) by linarith
    ultimately show "\<not> bit v (63 - j)" by blast
  qed
  also have "\<dots> \<longleftrightarrow> v AND (mask k0 XOR mask k1) = 0"
    using assms(1,2) by (auto simp: bit_eq_iff bit_simps) (meson leD less_le_trans not_le)+
  finally show ?thesis ..
qed

lemma less_round_up: "0 < w \<Longrightarrow> r < round_up w r"
  by (simp add: round_up_def) (metis add.commute dividend_less_times_div mult.commute mult_Suc)

lemma dvd_round_up: "w dvd round_up w r"
  by (simp add: round_up_def del: mult_Suc add_2_eq_Suc)

lemma round_up_least:
  assumes "0 < w" and "w dvd m" and "r < m"
  shows "round_up w r \<le> m"
proof -
  have "r div w < m div w" using assms by (simp add: less_mult_imp_div_less)
  then have "(r div w + 1) * w \<le> m div w * w" by (intro mult_le_mono) auto
  then show ?thesis using assms by (simp add: round_up_def)
qed

lemma round_up_same:
  assumes "0 < w" and "r \<le> r'" and "r' < round_up w r"
  shows "round_up w r' = round_up w r"
  using assms round_up_least [OF assms(1) dvd_round_up assms(3)]
    round_up_least [OF assms(1) dvd_round_up le_less_trans [OF assms(2) less_round_up [OF assms(1)]]] by linarith

lemma round_up_coarser:
  assumes "0 < w0" and "w1 dvd w0"
  shows "round_up w1 r \<le> round_up w0 r" and "w0 dvd round_up w1 r \<Longrightarrow> round_up w1 r = round_up w0 r"
proof -
  have w1: "0 < w1" using assms by (metis dvd_0_left_iff gr0I)
  show le: "round_up w1 r \<le> round_up w0 r"
    using round_up_least [OF w1 dvd_trans [OF assms(2) dvd_round_up] less_round_up [OF assms(1)]] .
  show "w0 dvd round_up w1 r \<Longrightarrow> round_up w1 r = round_up w0 r"
    using round_up_least [OF assms(1) _ less_round_up [OF w1]] le by (metis le_antisym)
qed

lemma round_up_bound:
  assumes "k \<le> 64"
  shows "round_up (2 ^ (64 - k)) (rpos v) \<le> 18446744073709551616"
proof (rule round_up_least)
  have "(2 :: nat) ^ (64 - k) dvd 2 ^ 64" by (rule le_imp_power_dvd) simp
  then show "(2 :: nat) ^ (64 - k) dvd 18446744073709551616" by simp
qed (simp_all add: rpos_less)

lemma div_eq_interval:
  "0 < (w :: nat) \<Longrightarrow> a div w = r div w \<longleftrightarrow> r div w * w \<le> a \<and> a < round_up w r"
  by (auto simp: round_up_def div_nat_eqI dividend_less_div_times mult.commute
      intro: div_nat_eqI) (metis dividend_less_div_times mult.commute div_times_less_eq_dividend)+

section \<open>What a call emits\<close>

fun scan_entries :: "('k, 'v) scan_event list \<Rightarrow> ('k, 'v) dictEntry list" where
  "scan_entries [] = []"
| "scan_entries (ScanBucket t i # evs) = scan_entries evs"
| "scan_entries (ScanEntry e # evs) = e # scan_entries evs"

lemma scan_entries_append [simp]: "scan_entries (xs @ ys) = scan_entries xs @ scan_entries ys"
  by (induction xs rule: scan_entries.induct) auto

lemma scan_entries_map [simp]: "scan_entries (map ScanEntry es) = es"
  by (induction es) auto

definition entry_pos :: "('k, 'v) dict \<Rightarrow> ('k, 'v) dictEntry \<Rightarrow> nat" where
  "entry_pos d e = rpos (dictHashKey d (de_key e))"

lemma filter_mset_concat_nth:
  assumes "\<forall>j < length t. \<forall>e \<in> set (t ! j). f e = j" and "i < length t"
  shows "filter_mset (\<lambda>e. f e = i) (mset (concat t)) = mset (t ! i)"
proof -
  have out: "filter_mset (\<lambda>e. f e = i) (mset (concat xs)) = {#}"
    if "\<forall>x \<in> set xs. \<exists>j < length t. j \<noteq> i \<and> x = t ! j" for xs
    using that assms(1) by (induction xs) auto
  have "filter_mset (\<lambda>e. f e = i) (mset (t ! i)) = mset (t ! i)"
    using assms by (simp add: filter_mset_eq_conv)
  moreover have "\<forall>x \<in> set (take i t). \<exists>j < length t. j \<noteq> i \<and> x = t ! j"
    using assms(2) by (auto simp: in_set_conv_nth) (metis less_trans nat_neq_iff)
  moreover have "\<forall>x \<in> set (drop (Suc i) t). \<exists>j < length t. j \<noteq> i \<and> x = t ! j"
    by (auto simp: in_set_conv_nth) (metis add_Suc less_diff_conv add.commute not_add_less1 lessI less_irrefl_nat add_Suc_right)
  ultimately show ?thesis using out
    by (subst id_take_nth_drop [OF assms(2)]) simp
qed

lemma scan_bucket_emits:
  assumes alloc: "ht_alloc (dictHashKey d) (dict_ht d t)" and m: "ht_sizemask (dict_ht d t) = mask k" and k: "k \<le> 64"
  shows "\<exists>evs. scan_bucket b d t v = Some evs
     \<and> mset (scan_entries evs) = filter_mset (\<lambda>e. rpos v div 2 ^ (64 - k) * 2 ^ (64 - k) \<le> entry_pos d e
         \<and> entry_pos d e < round_up (2 ^ (64 - k)) (rpos v)) (ht_entries (dict_ht d t))"
proof -
  let ?ht = "dict_ht d t" and ?h = "\<lambda>e. dictHashKey d (de_key e)"
  let ?i = "unat (v AND mask k)"
  have i: "?i < length (ht_table ?ht)" using ht_index_less [OF alloc, of v] m by simp
  have "filter_mset (\<lambda>e. unat (?h e AND mask k) = ?i) (mset (concat (ht_table ?ht))) = mset (ht_table ?ht ! ?i)"
    using alloc i m by (intro filter_mset_concat_nth) (auto simp: ht_alloc_def placed_def)
  moreover have "unat (?h e AND mask k) = ?i \<longleftrightarrow> rpos v div 2 ^ (64 - k) * 2 ^ (64 - k) \<le> entry_pos d e
         \<and> entry_pos d e < round_up (2 ^ (64 - k)) (rpos v)" for e
    using mask_eq_iff_rpos [OF k, of "?h e" v] div_eq_interval [of "2 ^ (64 - k)" "entry_pos d e" "rpos v"]
    by (simp add: entry_pos_def word_unat_eq_iff)
  ultimately show ?thesis using i m
    by (simp add: scan_bucket_def Let_def ht_entries_def)
qed

lemma filter_mset_split:
  "filter_mset (\<lambda>e. a \<le> f e \<and> f e < c) M = filter_mset (\<lambda>e. a \<le> f e \<and> f e < b) M + filter_mset (\<lambda>e. b \<le> f e \<and> f e < c) M"
  if "(a :: nat) \<le> b" and "b \<le> c"
  using that by (induction M) auto

lemma dictScan_loop_emits:
  assumes alloc: "ht_alloc (dictHashKey d) (dict_ht d t)" and m: "ht_sizemask (dict_ht d t) = mask k1"
    and k: "k0 \<le> k1" "k1 \<le> 64"
  shows "\<exists>evs v'. dictScan_loop b d t (mask k0) (mask k1) v out = Some (out @ evs, v')
     \<and> rpos v' = round_up (2 ^ (64 - k0)) (rpos v) mod 18446744073709551616
     \<and> mset (scan_entries evs) = filter_mset (\<lambda>e. rpos v div 2 ^ (64 - k1) * 2 ^ (64 - k1) \<le> entry_pos d e
         \<and> entry_pos d e < round_up (2 ^ (64 - k0)) (rpos v)) (ht_entries (dict_ht d t))"
proof (induction "round_up (2 ^ (64 - k0)) (rpos v) - rpos v" arbitrary: v out rule: less_induct)
  case less
  let ?w0 = "2 ^ (64 - k0) :: nat" and ?w1 = "2 ^ (64 - k1) :: nat" and ?M = "18446744073709551616 :: nat"
  let ?r1 = "round_up ?w1 (rpos v)" and ?E = "round_up ?w0 (rpos v)" and ?v' = "scan_advance (mask k1) v"
  have w: "?w1 dvd ?w0" "0 < ?w0" "0 < ?w1" using k by (auto intro: le_imp_power_dvd)
  have wM: "?w0 dvd ?M" "?w1 dvd ?M" using le_imp_power_dvd [of "64 - k0" 64 "2 :: nat"] le_imp_power_dvd [of "64 - k1" 64 "2 :: nat"] by simp_all
  obtain evs where evs: "scan_bucket b d t v = Some evs"
    and em: "mset (scan_entries evs) = filter_mset (\<lambda>e. rpos v div ?w1 * ?w1 \<le> entry_pos d e \<and> entry_pos d e < ?r1) (ht_entries (dict_ht d t))"
    using scan_bucket_emits [OF alloc m k(2)] by blast
  have r': "rpos ?v' = ?r1 mod ?M" using rpos_scan_advance [OF k(2)] .
  have le: "?r1 \<le> ?E" using round_up_coarser(1) [OF w(2,1)] .
  have EM: "?E \<le> ?M" using round_up_bound k by simp
  have stop: "?v' AND (mask k0 XOR mask k1) = 0 \<longleftrightarrow> ?w0 dvd ?r1"
    using scan_continue_iff [OF k, of ?v'] wM dvd_round_up [of ?w1 "rpos v"] by (simp add: r' dvd_mod_iff)
  show ?case
  proof (cases "?w0 dvd ?r1")
    case True
    then have eq: "?r1 = ?E" using round_up_coarser(2) [OF w(2,1)] by blast
    have "dictScan_loop b d t (mask k0) (mask k1) v out = Some (out @ evs, ?v')"
      using True stop evs by (subst dictScan_loop.simps) simp
    then show ?thesis using r' em eq by auto
  next
    case False
    then have lt: "?r1 < ?E" using le dvd_round_up [of ?w0 "rpos v"] by (metis nat_less_le)
    then have rv: "rpos ?v' = ?r1" using r' EM by simp
    have same: "round_up ?w0 ?r1 = ?E"
      using round_up_same [OF w(2) _ lt] less_round_up [OF w(3), of "rpos v"] by (simp add: less_imp_le)
    have dec: "?E - ?r1 < ?E - rpos v" using lt less_round_up [OF w(3), of "rpos v"] by linarith
    have "?r1 div ?w1 * ?w1 = ?r1" using dvd_round_up [of ?w1] by (rule dvd_div_mult_self)
    then obtain evs' v' where IH: "dictScan_loop b d t (mask k0) (mask k1) ?v' (out @ evs) = Some ((out @ evs) @ evs', v')"
      and rv': "rpos v' = ?E mod ?M"
      and em': "mset (scan_entries evs') = filter_mset (\<lambda>e. ?r1 \<le> entry_pos d e \<and> entry_pos d e < ?E) (ht_entries (dict_ht d t))"
      using less [of ?v' "out @ evs"] rv same dec by auto
    have "rpos v div ?w1 * ?w1 \<le> ?r1" by (simp add: round_up_def)
    then have "mset (scan_entries (evs @ evs')) = filter_mset (\<lambda>e. rpos v div ?w1 * ?w1 \<le> entry_pos d e
         \<and> entry_pos d e < ?E) (ht_entries (dict_ht d t))"
      unfolding scan_entries_append mset_append em em' using le by (rule filter_mset_split [symmetric])
    moreover have "dictScan_loop b d t (mask k0) (mask k1) v out = dictScan_loop b d t (mask k0) (mask k1) ?v' (out @ evs)"
      using False stop evs by (subst dictScan_loop.simps) simp
    then have "dictScan_loop b d t (mask k0) (mask k1) v out = Some (out @ evs @ evs', v')" using IH by simp
    ultimately show ?thesis using rv' by blast
  qed
qed

text \<open>
  One call: the cursor advances to an end position \<open>E\<close>, a multiple of the width of the smaller
  table's buckets, and everything between the cursor and \<open>E\<close> is emitted.
\<close>

definition scan_covers :: "('k, 'v) dict \<Rightarrow> u64 \<Rightarrow> ('k, 'v) scan_event list \<Rightarrow> u64 \<Rightarrow> nat \<Rightarrow> bool" where
  "scan_covers d v evs v' E \<longleftrightarrow> rpos v < E \<and> E \<le> 18446744073709551616
     \<and> rpos v' = E mod 18446744073709551616
     \<and> (\<forall>K \<le> 64. ht_size (d_ht0 d) \<le> 2 ^ K \<longrightarrow> 2 ^ (64 - K) dvd E)
     \<and> (\<forall>e \<in># dict_entries d. rpos v \<le> entry_pos d e \<and> entry_pos d e < E \<longrightarrow> e \<in> set (scan_entries evs))
     \<and> set (scan_entries evs) \<subseteq> set_mset (dict_entries d)"

lemma scan_paused:
  "dict_ht (d\<lparr>d_pauserehash := p\<rparr>) t = dict_ht d t"
  "dictHashKey (d\<lparr>d_pauserehash := p\<rparr>) = dictHashKey d"
  "entry_pos (d\<lparr>d_pauserehash := p\<rparr>) = entry_pos d"
  by (simp_all add: fun_eq_iff dict_ht_def dictHashKey_def entry_pos_def)

lemma dictScan_static:
  assumes wf: "dict_wf d" and ne: "dict_entries d \<noteq> {#}" and norehash: "\<not> dictIsRehashing d"
    and k: "ht_size (d_ht0 d) = 2 ^ k" "ht_sizemask (d_ht0 d) = mask k" "k \<le> 64"
  shows "\<exists>evs. dictScan b d v = Some (d, evs, scan_advance (mask k) v)
     \<and> mset (scan_entries evs) = filter_mset (\<lambda>e. rpos v div 2 ^ (64 - k) * 2 ^ (64 - k) \<le> entry_pos d e
         \<and> entry_pos d e < round_up (2 ^ (64 - k)) (rpos v)) (dict_entries d)"
proof -
  let ?d1 = "d\<lparr>d_pauserehash := d_pauserehash d + 1\<rparr>"
  have n0: "dictSize d \<noteq> 0" using ne dictSize_entries [OF wf] by simp
  have alloc: "ht_alloc (dictHashKey d) (dict_ht d 0)"
    using dict_wf_alloc0 [OF wf dict_table_nonempty [OF wf ne]] by (simp add: dict_ht_def)
  then obtain evs where evs: "scan_bucket b ?d1 0 v = Some evs"
    and em: "mset (scan_entries evs) = filter_mset (\<lambda>e. rpos v div 2 ^ (64 - k) * 2 ^ (64 - k) \<le> entry_pos d e
         \<and> entry_pos d e < round_up (2 ^ (64 - k)) (rpos v)) (ht_entries (dict_ht d 0))"
    using scan_bucket_emits [of ?d1 0 k b v] k by (auto simp: scan_paused dict_ht_def)
  have "d_ht1 d = dictReset" using wf norehash by (simp add: dict_wf_def)
  then have "dict_entries d = ht_entries (dict_ht d 0)" by (simp add: dict_entries_def dict_ht_def)
  moreover have "dictScan b d v = Some (d, evs, scan_advance (mask k) v)"
    using n0 norehash evs k(2) by (simp add: dictScan_def dictIsRehashing_def dict_ht_def)
  ultimately show ?thesis using em by simp
qed

lemma dictScan_rehashing:
  assumes wf: "dict_wf d" and ne: "dict_entries d \<noteq> {#}" and rehash: "dictIsRehashing d"
  shows "\<exists>evs v' k0 k1. dictScan b d v = Some (d, evs, v') \<and> k0 \<le> k1 \<and> k1 \<le> 60 \<and> 2 ^ k0 \<le> ht_size (d_ht0 d)
     \<and> rpos v' = round_up (2 ^ (64 - k0)) (rpos v) mod 18446744073709551616
     \<and> (\<exists>t0 t1. {t0, t1} = {0, 1} \<and> mset (scan_entries evs)
         = filter_mset (\<lambda>e. rpos v div 2 ^ (64 - k0) * 2 ^ (64 - k0) \<le> entry_pos d e
             \<and> entry_pos d e < round_up (2 ^ (64 - k0)) (rpos v)) (ht_entries (dict_ht d t0))
         + filter_mset (\<lambda>e. rpos v div 2 ^ (64 - k1) * 2 ^ (64 - k1) \<le> entry_pos d e
             \<and> entry_pos d e < round_up (2 ^ (64 - k0)) (rpos v)) (ht_entries (dict_ht d t1)))"
proof -
  let ?d1 = "d\<lparr>d_pauserehash := d_pauserehash d + 1\<rparr>"
  define t0 t1 :: nat where "t0 = (if ht_size (d_ht0 d) > ht_size (d_ht1 d) then 1 else 0)" and "t1 = 1 - t0"
  have t: "(if ht_size (d_ht0 d) > ht_size (d_ht1 d) then (1, 0) else (0, 1)) = (t0, t1)" "{t0, t1} = {0, 1}"
    by (auto simp: t0_def t1_def)
  have n0: "dictSize d \<noteq> 0" using ne dictSize_entries [OF wf] by simp
  have alloc: "ht_alloc (dictHashKey d) (dict_ht d t)" for t
    using wf rehash by (simp add: dict_wf_def dict_ht_def)
  obtain k0 where k0: "k0 \<le> 60" "ht_size (dict_ht d t0) = 2 ^ k0" "ht_sizemask (dict_ht d t0) = mask k0"
    using alloc [of t0] by (auto simp: ht_alloc_def)
  obtain k1 where k1: "k1 \<le> 60" "ht_size (dict_ht d t1) = 2 ^ k1" "ht_sizemask (dict_ht d t1) = mask k1"
    using alloc [of t1] by (auto simp: ht_alloc_def)
  have "ht_size (dict_ht d t0) \<le> ht_size (dict_ht d t1)" "ht_size (dict_ht d t0) \<le> ht_size (d_ht0 d)"
    by (auto simp: t0_def t1_def dict_ht_def)
  then have le: "k0 \<le> k1" "2 ^ k0 \<le> ht_size (d_ht0 d)" using k0 k1 by simp_all
  obtain evs where evs: "scan_bucket b ?d1 t0 v = Some evs"
    and em: "mset (scan_entries evs) = filter_mset (\<lambda>e. rpos v div 2 ^ (64 - k0) * 2 ^ (64 - k0) \<le> entry_pos d e
         \<and> entry_pos d e < round_up (2 ^ (64 - k0)) (rpos v)) (ht_entries (dict_ht d t0))"
    using scan_bucket_emits [of ?d1 t0 k0 b v] alloc k0 by (auto simp: scan_paused)
  obtain evs' v' where evs': "dictScan_loop b ?d1 t1 (mask k0) (mask k1) v evs = Some (evs @ evs', v')"
    and rv: "rpos v' = round_up (2 ^ (64 - k0)) (rpos v) mod 18446744073709551616"
    and em': "mset (scan_entries evs') = filter_mset (\<lambda>e. rpos v div 2 ^ (64 - k1) * 2 ^ (64 - k1) \<le> entry_pos d e
         \<and> entry_pos d e < round_up (2 ^ (64 - k0)) (rpos v)) (ht_entries (dict_ht d t1))"
    using dictScan_loop_emits [of ?d1 t1 k1 k0 b v evs] alloc k1 le by (auto simp: scan_paused)
  have "dictScan b d v = Some (d, evs @ evs', v')"
    using n0 rehash evs evs' k0(3) k1(3) t(1) by (simp add: dictScan_def dictIsRehashing_def scan_paused)
  moreover have "mset (scan_entries (evs @ evs')) = mset (scan_entries evs) + mset (scan_entries evs')" by simp
  ultimately show ?thesis using le k1(1) rv t(2) unfolding em em' by blast
qed

lemma scan_covers_intro:
  assumes "k \<le> 64" and "2 ^ k \<le> ht_size (d_ht0 d)"
    and "rpos v' = round_up (2 ^ (64 - k)) (rpos v) mod 18446744073709551616"
    and "\<And>e. e \<in># dict_entries d \<Longrightarrow> rpos v \<le> entry_pos d e \<Longrightarrow> entry_pos d e < round_up (2 ^ (64 - k)) (rpos v)
           \<Longrightarrow> e \<in> set (scan_entries evs)"
    and "set (scan_entries evs) \<subseteq> set_mset (dict_entries d)"
  shows "scan_covers d v evs v' (round_up (2 ^ (64 - k)) (rpos v))"
proof -
  have "2 ^ (64 - K) dvd round_up (2 ^ (64 - k)) (rpos v)" if "ht_size (d_ht0 d) \<le> 2 ^ K" for K
  proof -
    have "(2 :: nat) ^ k \<le> 2 ^ K" using assms(2) that by (rule le_trans)
    then show ?thesis by (auto intro!: dvd_trans [OF le_imp_power_dvd dvd_round_up])
  qed
  then show ?thesis using assms round_up_bound [OF assms(1), of v] less_round_up [of "2 ^ (64 - k)" "rpos v"]
    by (simp add: scan_covers_def)
qed

lemma dictScan_step:
  assumes wf: "dict_wf d"
  shows "\<exists>evs v' E. dictScan b d v = Some (d, evs, v') \<and> scan_covers d v evs v' E"
proof (cases "dict_entries d = {#}")
  case True
  then show ?thesis using dictSize_entries [OF wf] rpos_less [of v]
    by (auto simp: dictScan_def scan_covers_def intro!: exI [of _ 18446744073709551616]
        intro: le_imp_power_dvd [of _ 64 "2 :: nat", simplified])
next
  case ne: False
  have low: "r div w * w \<le> x" if "r \<le> x" for r w x :: nat using that div_times_less_eq_dividend [of r w] by linarith
  show ?thesis
  proof (cases "dictIsRehashing d")
    case False
    obtain k where k: "ht_size (d_ht0 d) = 2 ^ k" "ht_sizemask (d_ht0 d) = mask k" "k \<le> 64"
      using dict_wf_alloc0 [OF wf dict_table_nonempty [OF wf ne]] by (auto simp: ht_alloc_def)
    obtain evs where evs: "dictScan b d v = Some (d, evs, scan_advance (mask k) v)"
      and em: "mset (scan_entries evs) = filter_mset (\<lambda>e. rpos v div 2 ^ (64 - k) * 2 ^ (64 - k) \<le> entry_pos d e
         \<and> entry_pos d e < round_up (2 ^ (64 - k)) (rpos v)) (dict_entries d)"
      using dictScan_static [OF wf ne False k] by blast
    have "scan_covers d v evs (scan_advance (mask k) v) (round_up (2 ^ (64 - k)) (rpos v))"
      using k rpos_scan_advance [OF k(3)] low arg_cong [OF em, of set_mset] by (intro scan_covers_intro) auto
    then show ?thesis using evs by blast
  next
    case True
    obtain evs v' k0 k1 t0 t1 where sc: "dictScan b d v = Some (d, evs, v')" and k: "k0 \<le> k1" "k1 \<le> 60" "2 ^ k0 \<le> ht_size (d_ht0 d)"
     and rv: "rpos v' = round_up (2 ^ (64 - k0)) (rpos v) mod 18446744073709551616" and t: "{t0, t1} = {0, 1 :: nat}"
     and em: "mset (scan_entries evs)
         = filter_mset (\<lambda>e. rpos v div 2 ^ (64 - k0) * 2 ^ (64 - k0) \<le> entry_pos d e
             \<and> entry_pos d e < round_up (2 ^ (64 - k0)) (rpos v)) (ht_entries (dict_ht d t0))
         + filter_mset (\<lambda>e. rpos v div 2 ^ (64 - k1) * 2 ^ (64 - k1) \<le> entry_pos d e
             \<and> entry_pos d e < round_up (2 ^ (64 - k0)) (rpos v)) (ht_entries (dict_ht d t1))"
      using dictScan_rehashing [OF wf ne True, of b v] by blast
    have "dict_entries d = ht_entries (dict_ht d t0) + ht_entries (dict_ht d t1)"
      using t by (auto simp: dict_entries_def dict_ht_def doubleton_eq_iff)
    then have "scan_covers d v evs v' (round_up (2 ^ (64 - k0)) (rpos v))"
      using k rv low arg_cong [OF em, of set_mset] by (intro scan_covers_intro) auto
    then show ?thesis using sc by blast
  qed
qed

section \<open>Full iterations\<close>

text \<open>
  A client calls \<open>dictScan\<close> with the cursor the previous call returned until it gets back zero; between two
  calls the dictionary may have changed in any way, so a run is given by the list of dictionaries
  the calls see.  The result is what was emitted and the last cursor.
\<close>

fun scan_calls :: "bool \<Rightarrow> ('k, 'v) dict list \<Rightarrow> u64 \<Rightarrow> (('k, 'v) dictEntry list \<times> u64) option" where
  "scan_calls b [] v = Some ([], v)"
| "scan_calls b (d # ds) v = do {
     (_, evs, v') \<leftarrow> dictScan b d v;
     if v' = 0 then Some (scan_entries evs, 0)
     else do {
       (rest, u) \<leftarrow> scan_calls b ds v';
       Some (scan_entries evs @ rest, u)
     }
   }"

lemma scan_calls_covers:
  assumes "\<forall>d \<in> set ds. dict_wf d \<and> dictHashKey d = hash" and "ds \<noteq> []"
  shows "\<exists>es u. scan_calls b ds v = Some (es, u)
     \<and> (u = 0 \<longrightarrow> (\<forall>k. rpos v \<le> rpos (hash k) \<and> (\<forall>d \<in> set ds. \<exists>e \<in># dict_entries d. de_key e = k) \<longrightarrow> (\<exists>e \<in> set es. de_key e = k)))"
  using assms
proof (induction ds arbitrary: v)
  case (Cons d ds)
  obtain evs v' E where sc: "dictScan b d v = Some (d, evs, v')" and cov: "scan_covers d v evs v' E"
    using dictScan_step Cons.prems(1) by (metis list.set_intros(1))
  have emit: "\<exists>e \<in> set (scan_entries evs). de_key e = k"
    if "rpos v \<le> rpos (hash k)" "rpos (hash k) < E" "\<exists>e \<in># dict_entries d. de_key e = k" for k
    using that cov Cons.prems(1) by (auto simp: scan_covers_def entry_pos_def)
  show ?case
  proof (cases "v' = 0")
    case True
    then have "E = 18446744073709551616" using cov rpos_eq_0_iff [of v'] by (auto simp: scan_covers_def elim: dvdE)
    then have "\<exists>e \<in> set (scan_entries evs). de_key e = k"
      if "rpos v \<le> rpos (hash k)" "\<forall>d' \<in> set (d # ds). \<exists>e \<in># dict_entries d'. de_key e = k" for k
      using that emit rpos_less by auto
    then show ?thesis using sc True by auto
  next
    case False
    then have E: "rpos v' = E" using cov rpos_eq_0_iff [of v'] by (cases "E = 18446744073709551616") (auto simp: scan_covers_def)
    show ?thesis
    proof (cases "ds = []")
      case True
      then show ?thesis using sc False by simp
    next
      case ne: False
      then obtain es u where "scan_calls b ds v' = Some (es, u)"
        and IH: "u = 0 \<Longrightarrow> rpos v' \<le> rpos (hash k) \<Longrightarrow> \<forall>d \<in> set ds. \<exists>e \<in># dict_entries d. de_key e = k \<Longrightarrow> \<exists>e \<in> set es. de_key e = k" for k
        using Cons.IH [of v'] Cons.prems(1) by auto
      then have "scan_calls b (d # ds) v = Some (scan_entries evs @ es, u)" using sc False by simp
      moreover have "\<exists>e \<in> set (scan_entries evs @ es). de_key e = k"
        if "u = 0" "rpos v \<le> rpos (hash k)" "\<forall>d' \<in> set (d # ds). \<exists>e \<in># dict_entries d'. de_key e = k" for k
        using that emit [of k] IH [of k] E by (cases "rpos (hash k) < E") auto
      ultimately show ?thesis by blast
    qed
  qed
qed simp

lemma scan_calls_sound:
  "\<forall>d \<in> set ds. dict_wf d \<Longrightarrow> scan_calls b ds v = Some (es, u) \<Longrightarrow> e \<in> set es \<Longrightarrow> \<exists>d \<in> set ds. e \<in># dict_entries d"
proof (induction ds arbitrary: v es)
  case (Cons d ds)
  obtain evs v' E where sc: "dictScan b d v = Some (d, evs, v')" and cov: "scan_covers d v evs v' E"
    using dictScan_step Cons.prems(1) by (metis list.set_intros(1))
  have "e \<in># dict_entries d" if "e \<in> set (scan_entries evs)" using cov that by (auto simp: scan_covers_def)
  then show ?case using Cons.prems Cons.IH [of v'] sc by (fastforce split: if_splits bind_splits)
qed simp

text \<open>
  C32: the guarantee of SCAN.  Take any sequence of calls of \<open>dictScan\<close> that starts with cursor 0 and
  passes each returned cursor to the next call, on dictionaries that may have been modified,
  expanded, shrunk or (partly) rehashed arbitrarily between the calls.  No call faults, the loop over
  the larger table always ends, only entries of the dictionary are passed to the callback, and if
  the last cursor is 0 then every key that was in the dictionary during all the calls has been
  passed to it at least once.
\<close>

theorem dictScan_complete:
  assumes "\<forall>d \<in> set ds. dict_wf d \<and> dictHashKey d = hash" and "ds \<noteq> []"
  shows "\<exists>es u. scan_calls b ds 0 = Some (es, u) \<and> (\<forall>e \<in> set es. \<exists>d \<in> set ds. e \<in># dict_entries d)
     \<and> (u = 0 \<longrightarrow> (\<forall>k. (\<forall>d \<in> set ds. \<exists>e \<in># dict_entries d. de_key e = k) \<longrightarrow> (\<exists>e \<in> set es. de_key e = k)))"
proof -
  obtain es u where "scan_calls b ds 0 = Some (es, u)"
    and "u = 0 \<longrightarrow> (\<forall>k. (\<forall>d \<in> set ds. \<exists>e \<in># dict_entries d. de_key e = k) \<longrightarrow> (\<exists>e \<in> set es. de_key e = k))"
    using scan_calls_covers [OF assms, of b 0] by auto
  then show ?thesis using scan_calls_sound [of ds b 0 es u] assms(1) by blast
qed

lemma scan_calls_ends:
  assumes "\<forall>d \<in> set ds. dict_wf d \<and> ht_size (d_ht0 d) \<le> 2 ^ K" and "K \<le> 64"
    and "2 ^ (64 - K) dvd rpos v" and "18446744073709551616 - rpos v \<le> length ds * 2 ^ (64 - K)"
  shows "\<exists>es. scan_calls b ds v = Some (es, 0)"
  using assms
proof (induction ds arbitrary: v)
  case Nil
  then show ?case using rpos_less [of v] by simp
next
  case (Cons d ds)
  let ?w = "2 ^ (64 - K) :: nat"
  obtain evs v' E where sc: "dictScan b d v = Some (d, evs, v')" and cov: "scan_covers d v evs v' E"
    using dictScan_step Cons.prems(1) by (metis list.set_intros(1))
  show ?case
  proof (cases "v' = 0")
    case False
    then have E: "rpos v' = E" using cov rpos_eq_0_iff [of v'] by (cases "E = 18446744073709551616") (auto simp: scan_covers_def)
    have dvd: "?w dvd E" and gt: "rpos v < E" using cov Cons.prems(1,2) by (auto simp: scan_covers_def)
    then have "?w dvd E - rpos v" using Cons.prems(3) by (simp add: dvd_diff_nat)
    then have "?w \<le> E - rpos v" using gt by (intro dvd_imp_le) auto
    moreover have "18446744073709551616 - rpos v \<le> ?w + length ds * ?w" using Cons.prems(4) by simp
    ultimately have "18446744073709551616 - rpos v' \<le> length ds * ?w" using E gt by linarith
    then obtain es where "scan_calls b ds v' = Some (es, 0)" using Cons.IH [of v'] Cons.prems(1,2) dvd E by auto
    then show ?thesis using sc False by simp
  qed (use sc in simp)
qed

text \<open>
  C33: a full iteration ends.  As long as the main table never has more than \<open>2 ^ K\<close> buckets, at
  most \<open>2 ^ K\<close> calls bring the cursor back to zero, whatever else happens in between.
\<close>

theorem dictScan_terminates:
  assumes "\<forall>d \<in> set ds. dict_wf d \<and> ht_size (d_ht0 d) \<le> 2 ^ K" and "K \<le> 64" and "2 ^ K \<le> length ds"
  shows "\<exists>es. scan_calls b ds 0 = Some (es, 0)"
proof (rule scan_calls_ends [OF assms(1,2)])
  have "(2 :: nat) ^ K * 2 ^ (64 - K) = 2 ^ 64" using assms(2) by (simp flip: power_add)
  then show "18446744073709551616 - rpos 0 \<le> length ds * 2 ^ (64 - K)"
    using mult_le_mono1 [OF assms(3), of "2 ^ (64 - K)"] by simp
qed simp

lemma scan_static_exact:
  assumes wf: "dict_wf d" and ne: "dict_entries d \<noteq> {#}" and norehash: "\<not> dictIsRehashing d"
    and k: "ht_size (d_ht0 d) = 2 ^ k" "ht_sizemask (d_ht0 d) = mask k" "k \<le> 64"
    and "rpos v + n * 2 ^ (64 - k) = 18446744073709551616" and "2 ^ (64 - k) dvd rpos v"
  shows "\<exists>es. scan_calls b (replicate n d) v = Some (es, 0)
     \<and> mset es = filter_mset (\<lambda>e. rpos v \<le> entry_pos d e \<and> entry_pos d e < 18446744073709551616) (dict_entries d)"
  using assms(7,8)
proof (induction n arbitrary: v)
  case 0
  then show ?case using rpos_less [of v] by simp
next
  case (Suc n)
  let ?w = "2 ^ (64 - k) :: nat" and ?v' = "scan_advance (mask k) v"
  have r: "rpos v div ?w * ?w = rpos v" and up: "round_up ?w (rpos v) = rpos v + ?w"
    using Suc.prems(2) by (auto simp: round_up_def)
  obtain evs where sc: "dictScan b d v = Some (d, evs, ?v')"
    and em: "mset (scan_entries evs) = filter_mset (\<lambda>e. rpos v \<le> entry_pos d e \<and> entry_pos d e < rpos v + ?w) (dict_entries d)"
    using dictScan_static [OF wf ne norehash k, of b v] unfolding r up by blast
  have rv: "rpos ?v' = (rpos v + ?w) mod 18446744073709551616" using rpos_scan_advance [OF k(3), of v] up by simp
  show ?case
  proof (cases n)
    case 0
    then have "rpos v + ?w = 18446744073709551616" using Suc.prems(1) by simp
    moreover then have "?v' = 0" using rv rpos_eq_0_iff [of ?v'] by simp
    ultimately show ?thesis using sc em 0 by simp
  next
    case (Suc m)
    then have "rpos v + (?w + (?w + m * ?w)) = 18446744073709551616" using Suc.prems(1) by simp
    moreover have "0 < ?w" by simp
    ultimately have "rpos v + ?w < 18446744073709551616" by linarith
    then have rv': "rpos ?v' = rpos v + ?w" using rv by simp
    then have nz: "?v' \<noteq> 0" using rpos_0 by force
    obtain es where "scan_calls b (replicate n d) ?v' = Some (es, 0)"
      and "mset es = filter_mset (\<lambda>e. rpos v + ?w \<le> entry_pos d e \<and> entry_pos d e < 18446744073709551616) (dict_entries d)"
      using Suc.IH [of ?v'] Suc.prems rv' by auto
    then show ?thesis
      using sc nz em filter_mset_split [of "rpos v" "rpos v + ?w" 18446744073709551616 "entry_pos d" "dict_entries d"]
        \<open>rpos v + ?w < 18446744073709551616\<close> by simp
  qed
qed

text \<open>
  on a dictionary that does not change and is not being rehashed, a full iteration takes
  exactly as many calls as there are buckets and emits every entry exactly once.
\<close>

theorem dictScan_exactly_once:
  assumes wf: "dict_wf d" and "dict_entries d \<noteq> {#}" and "\<not> dictIsRehashing d"
  shows "\<exists>es. scan_calls b (replicate (ht_size (d_ht0 d)) d) 0 = Some (es, 0) \<and> mset es = dict_entries d"
proof -
  obtain k where k: "ht_size (d_ht0 d) = 2 ^ k" "ht_sizemask (d_ht0 d) = mask k" "k \<le> 64"
    using dict_wf_alloc0 [OF wf dict_table_nonempty [OF assms(1,2)]] by (auto simp: ht_alloc_def)
  have "(2 :: nat) ^ k * 2 ^ (64 - k) = 2 ^ 64" using k(3) by (simp flip: power_add)
  then obtain es where "scan_calls b (replicate (2 ^ k) d) 0 = Some (es, 0)"
    and "mset es = filter_mset (\<lambda>e. 0 \<le> entry_pos d e \<and> entry_pos d e < 18446744073709551616) (dict_entries d)"
    using scan_static_exact [OF assms k, of 0 "2 ^ k" b] by auto
  moreover have "entry_pos d e < 18446744073709551616" for e by (simp add: entry_pos_def rpos_less)
  ultimately show ?thesis using k(1) by simp
qed

section \<open>Examples\<close>

text \<open>The example dictionary before its rehash, in the middle of it, and after it.\<close>

definition ex_dict0 :: "(nat, int) dict" where
  "ex_dict0 = \<lparr>d_type = ex_type,
     d_ht0 = \<lparr>ht_table = [[], [\<lparr>de_key = 9, de_val = Some 90\<rparr>],
                [\<lparr>de_key = 6, de_val = Some 60\<rparr>, \<lparr>de_key = 10, de_val = Some 100\<rparr>], []],
              ht_size = 4, ht_sizemask = 3, ht_used = 3\<rparr>,
     d_ht1 = dictReset, d_rehashidx = -1, d_pauserehash = 0\<rparr>"

lemma ex_dict0_entries: "dict_entries ex_dict0 = dict_entries ex_dict"
  by (simp add: ex_dict_entries) (simp add: ex_dict0_def dict_entries_def ht_entries_def dictReset_def)

lemma ex_dict0_wf: "dict_wf ex_dict0" "\<not> dictIsRehashing ex_dict0"
proof -
  have "ht_alloc (dictHashKey ex_dict0) (d_ht0 ex_dict0)"
    unfolding ht_alloc_def
  proof (intro conjI exI [of _ 2])
    show "placed (dictHashKey ex_dict0) (d_ht0 ex_dict0)"
      by (simp add: placed_enumerate ex_dict0_def dictHashKey_def ex_type_def)
  qed (simp_all add: ex_dict0_def ht_entries_def mask_eq_exp_minus_1)
  moreover have "keys_unique ex_dict0"
    using ex_dict_ok(1) keys_unique_cong [of ex_dict0 ex_dict] ex_dict0_entries
    by (simp add: dict_wf_def) (simp add: ex_dict0_def ex_dict_def)
  ultimately show "dict_wf ex_dict0"
    by (simp add: dict_wf_def) (simp add: ex_dict0_def dictIsRehashing_def ex_type_def type_ok_def)
  show "\<not> dictIsRehashing ex_dict0" by (simp add: ex_dict0_def dictIsRehashing_def)
qed

theorem dictScan_complete_witness:
  "\<exists>es u. scan_calls False ([ex_dict0, ex_dict] @ replicate 6 ex_dict) 0 = Some (es, u)
     \<and> (u = 0 \<longrightarrow> (\<exists>e \<in> set es. de_key e = 10))"
proof -
  have "dictHashKey ex_dict0 = word_of_nat" "dictHashKey ex_dict = word_of_nat"
    by (simp_all add: fun_eq_iff dictHashKey_def ex_dict0_def ex_dict_def ex_type_def)
  then obtain es u where "scan_calls False ([ex_dict0, ex_dict] @ replicate 6 ex_dict) 0 = Some (es, u)"
    and "u = 0 \<Longrightarrow> \<forall>k. (\<forall>d \<in> set ([ex_dict0, ex_dict] @ replicate 6 ex_dict). \<exists>e \<in># dict_entries d. de_key e = k)
           \<longrightarrow> (\<exists>e \<in> set es. de_key e = k)"
    using dictScan_complete [of "[ex_dict0, ex_dict] @ replicate 6 ex_dict" word_of_nat False]
      ex_dict_ok(1) ex_dict0_wf(1) by auto
  then show ?thesis by (auto simp: ex_dict0_entries ex_dict_entries dest: spec [of _ 10])
qed

theorem dictScan_terminates_witness:
  "\<exists>es. scan_calls False [ex_dict0, ex_dict, ex_dict, ex_dict] 0 = Some (es, 0)"
proof -
  have "ht_size (d_ht0 ex_dict0) = 4" "ht_size (d_ht0 ex_dict) = 4" by (simp_all add: ex_dict0_def ex_dict_def)
  then show ?thesis using dictScan_terminates [of "[ex_dict0, ex_dict, ex_dict, ex_dict]" 2 False]
      ex_dict_ok(1) ex_dict0_wf(1) by simp
qed

theorem dictScan_exactly_once_witness:
  "\<exists>es. scan_calls False (replicate (ht_size (d_ht0 ex_dict0)) ex_dict0) 0 = Some (es, 0) \<and> mset es = dict_entries ex_dict0"
  using dictScan_exactly_once [OF ex_dict0_wf(1) _ ex_dict0_wf(2), of False] by (simp add: ex_dict0_entries ex_dict_entries)

end
