(* ===== verification/Dict_Iter.thy ===== *)
theory Dict_Iter
  imports Dict
begin

text \<open>
  Iterators and random sampling of \<open>src/redis-6.2.0/src/dict.c\<close>: \<open>dictGetIterator\<close>,
  \<open>dictGetSafeIterator\<close>, \<open>dictNext\<close>, \<open>dictReleaseIterator\<close>, \<open>dictFingerprint\<close>, \<open>dictGetRandomKey\<close>,
  \<open>dictGetSomeKeys\<close> and \<open>dictGetFairRandomKey\<close>.  The fields \<open>entry\<close> and \<open>nextEntry\<close> of an iterator are the
  current entry and the rest of its chain as it was when the entry was returned.  The addresses of
  the two tables, which only the fingerprint uses, are arguments.  A source of random numbers is
  a function from the number of the draw to its value, with the number of draws so far threaded
  through.
\<close>

section \<open>Model: iterators\<close>

record ('k, 'v) dictIterator =
  it_index :: int
  it_table :: nat
  it_safe :: bool
  it_entry :: "('k, 'v) dictEntry option"
  it_nextEntry :: "('k, 'v) dictEntry list"
  it_fingerprint :: u64

definition fingerprint_mix :: "u64 \<Rightarrow> u64 \<Rightarrow> u64" where
  "fingerprint_mix h x =
     (let h = h + x;
          h = NOT h + push_bit 21 h;
          h = h XOR signed_drop_bit 24 h;
          h = (h + push_bit 3 h) + push_bit 8 h;
          h = h XOR signed_drop_bit 14 h;
          h = (h + push_bit 2 h) + push_bit 4 h;
          h = h XOR signed_drop_bit 28 h
      in h + push_bit 31 h)"

definition dictFingerprint :: "u64 \<times> u64 \<Rightarrow> ('k, 'v) dict \<Rightarrow> u64" where
  "dictFingerprint addr d = foldl fingerprint_mix 0
     [fst addr, word_of_nat (ht_size (d_ht0 d)), word_of_nat (ht_used (d_ht0 d)),
      snd addr, word_of_nat (ht_size (d_ht1 d)), word_of_nat (ht_used (d_ht1 d))]"

definition dictGetIterator :: "('k, 'v) dictIterator" where
  "dictGetIterator = \<lparr>it_index = -1, it_table = 0, it_safe = False, it_entry = None, it_nextEntry = [], it_fingerprint = 0\<rparr>"

definition dictGetSafeIterator :: "('k, 'v) dictIterator" where
  "dictGetSafeIterator = dictGetIterator\<lparr>it_safe := True\<rparr>"

text \<open>What the first call of \<open>dictNext\<close> does before it looks at a bucket.\<close>

definition dictNext_start ::
  "u64 \<times> u64 \<Rightarrow> ('k, 'v) dict \<Rightarrow> ('k, 'v) dictIterator \<Rightarrow> ('k, 'v) dict \<times> ('k, 'v) dictIterator" where
  "dictNext_start addr d it =
     (if it_index it = -1 \<and> it_table it = 0 then
        (if it_safe it then (d\<lparr>d_pauserehash := d_pauserehash d + 1\<rparr>, it)
         else (d, it\<lparr>it_fingerprint := dictFingerprint addr d\<rparr>))
      else (d, it))"

text \<open>
  One round of the loop of \<open>dictNext\<close> up to the test of \<open>iter->entry\<close>: the chain starting at the new
  \<open>iter->entry\<close>, or \<open>None\<close> for the \<open>break\<close>.
\<close>

definition dictNext_round ::
  "u64 \<times> u64 \<Rightarrow> ('k, 'v) dict \<Rightarrow> ('k, 'v) dictIterator
     \<Rightarrow> (('k, 'v) dict \<times> ('k, 'v) dictIterator \<times> ('k, 'v) dictEntry list option) option" where
  "dictNext_round addr d it =
     (if it_entry it = None then do {
        let (d, it) = dictNext_start addr d it;
        let ht = dict_ht d (it_table it);
        let it = it\<lparr>it_index := it_index it + 1\<rparr>;
        if it_index it \<ge> int (ht_size ht) then
          if dictIsRehashing d \<and> it_table it = 0 then do {
            let it = it\<lparr>it_table := 1, it_index := 0\<rparr>;
            chain \<leftarrow> bucket (d_ht1 d) 0;
            Some (d, it, Some chain)
          }
          else Some (d, it, None)
        else do {
          require (it_index it \<ge> 0);
          chain \<leftarrow> bucket ht (nat (it_index it));
          Some (d, it, Some chain)
        }
      }
      else Some (d, it, Some (it_nextEntry it)))"

definition iter_left :: "('k, 'v) dict \<Rightarrow> ('k, 'v) dictIterator \<Rightarrow> nat" where
  "iter_left d it = (if it_table it = 0 then nat (int (ht_size (d_ht0 d)) - it_index it) + ht_size (d_ht1 d) + 1
     else nat (int (ht_size (d_ht1 d)) - it_index it))"

function dictNext ::
  "u64 \<times> u64 \<Rightarrow> ('k, 'v) dict \<Rightarrow> ('k, 'v) dictIterator
     \<Rightarrow> (('k, 'v) dict \<times> ('k, 'v) dictIterator \<times> ('k, 'v) dictEntry option) option" where
  "dictNext addr d it =
     (case dictNext_round addr d it of
        None \<Rightarrow> None
      | Some (d1, it1, None) \<Rightarrow> Some (d1, it1, None)
      | Some (d1, it1, Some []) \<Rightarrow> dictNext addr d1 (it1\<lparr>it_entry := None\<rparr>)
      | Some (d1, it1, Some (e # rest)) \<Rightarrow> Some (d1, it1\<lparr>it_entry := Some e, it_nextEntry := rest\<rparr>, Some e))"
  by pat_completeness auto
termination
proof (relation "measure (\<lambda>(addr, d, it). 2 * iter_left d it + (if it_entry it = None then 0 else 1))", goal_cases)
  case (2 addr d it r d1 it1 c)
  then show ?case
    by (auto simp: dictNext_round_def dictNext_start_def iter_left_def dict_ht_def Let_def require_def split: if_splits bind_splits)
qed simp

declare dictNext.simps [simp del]

definition dictReleaseIterator :: "u64 \<times> u64 \<Rightarrow> ('k, 'v) dict \<Rightarrow> ('k, 'v) dictIterator \<Rightarrow> ('k, 'v) dict option" where
  "dictReleaseIterator addr d it =
     (if \<not> (it_index it = -1 \<and> it_table it = 0) then
        if it_safe it then Some (d\<lparr>d_pauserehash := d_pauserehash d - 1\<rparr>)
        else if it_fingerprint it = dictFingerprint addr d then Some d else None
      else Some d)"

text \<open>The usual client: \<open>while((de = dictNext(di)) != NULL) ...\<close>.\<close>

partial_function (option) iterate ::
  "u64 \<times> u64 \<Rightarrow> ('k, 'v) dict \<Rightarrow> ('k, 'v) dictIterator \<Rightarrow> ('k, 'v) dictEntry list
     \<Rightarrow> (('k, 'v) dict \<times> ('k, 'v) dictIterator \<times> ('k, 'v) dictEntry list) option" where
  "iterate addr d it acc = do {
     (d', it', r) \<leftarrow> dictNext addr d it;
     (case r of None \<Rightarrow> Some (d', it', acc) | Some e \<Rightarrow> iterate addr d' it' (acc @ [e]))
   }"

section \<open>Model: random sampling\<close>

definition dictSlots :: "('k, 'v) dict \<Rightarrow> nat" where
  "dictSlots d = ht_size (d_ht0 d) + ht_size (d_ht1 d)"

text \<open>The bucket one draw selects.\<close>

definition random_bucket :: "('k, 'v) dict \<Rightarrow> u64 \<Rightarrow> ('k, 'v) dictEntry list option" where
  "random_bucket d r =
     (if dictIsRehashing d then do {
        let idx = (word_of_int (d_rehashidx d) :: u64);
        let range = word_of_nat (dictSlots d) - idx;
        require (range \<noteq> 0);
        let h = unat (idx + r mod range);
        if h \<ge> ht_size (d_ht0 d) then bucket (d_ht1 d) (h - ht_size (d_ht0 d)) else bucket (d_ht0 d) h
      }
      else bucket (d_ht0 d) (unat (r AND ht_sizemask (d_ht0 d))))"

partial_function (option) random_bucket_loop ::
  "(nat \<Rightarrow> u64) \<Rightarrow> ('k, 'v) dict \<Rightarrow> nat \<Rightarrow> (('k, 'v) dictEntry list \<times> nat) option" where
  "random_bucket_loop rnd d p = do {
     he \<leftarrow> random_bucket d (rnd p);
     if he = [] then random_bucket_loop rnd d (p + 1) else Some (he, p + 1)
   }"

definition dictGetRandomKey ::
  "(nat \<Rightarrow> u64) \<Rightarrow> ('k, 'v) dict \<Rightarrow> nat \<Rightarrow> (('k, 'v) dict \<times> ('k, 'v) dictEntry option \<times> nat) option" where
  "dictGetRandomKey rnd d p =
     (if dictSize d = 0 then Some (d, None, p)
      else do {
        d1 \<leftarrow> rehash_if_needed d;
        (he, p1) \<leftarrow> random_bucket_loop rnd d1 p;
        let listele = unat (rnd p1) mod length he;
        Some (d1, Some (he ! listele), p1 + 1)
      })"

primrec someKeys_rehash :: "nat \<Rightarrow> ('k, 'v) dict \<Rightarrow> ('k, 'v) dict option" where
  "someKeys_rehash 0 d = Some d"
| "someKeys_rehash (Suc n) d =
     (if dictIsRehashing d then do { d' \<leftarrow> dictRehashStep d; someKeys_rehash n d' } else Some d)"

text \<open>Collection of a chain into \<open>des\<close>; the flag says that \<open>count\<close> entries are stored.\<close>

fun collect_chain :: "nat \<Rightarrow> ('k, 'v) dictEntry list \<Rightarrow> ('k, 'v) dictEntry list \<Rightarrow> ('k, 'v) dictEntry list \<times> bool" where
  "collect_chain cnt [] des = (des, False)"
| "collect_chain cnt (he # next) des =
     (let des = des @ [he] in if length des = cnt then (des, True) else collect_chain cnt next des)"

record ('k, 'v) sampling =
  sk_i :: u64
  sk_emptylen :: nat
  sk_des :: "('k, 'v) dictEntry list"
  sk_draws :: nat

text \<open>
  Buckets of the first table below the rehash index are empty: they are skipped, or the index jumps
  over them when it is out of range for the second table too.
\<close>

definition someKeys_jump ::
  "('k, 'v) dict \<Rightarrow> nat \<Rightarrow> nat \<Rightarrow> ('k, 'v) sampling \<Rightarrow> bool \<times> ('k, 'v) sampling" where
  "someKeys_jump d tables j st =
     (if tables = 2 \<and> j = 0 \<and> sk_i st < word_of_int (d_rehashidx d) then
        if unat (sk_i st) \<ge> ht_size (d_ht1 d) then (False, st\<lparr>sk_i := word_of_int (d_rehashidx d)\<rparr>)
        else (True, st)
      else (False, st))"

definition someKeys_visit ::
  "(nat \<Rightarrow> u64) \<Rightarrow> nat \<Rightarrow> u64 \<Rightarrow> ('k, 'v) dictEntry list \<Rightarrow> ('k, 'v) sampling \<Rightarrow> ('k, 'v) sampling \<times> bool" where
  "someKeys_visit rnd cnt maxmask he st =
     (if he = [] then
        let st = st\<lparr>sk_emptylen := sk_emptylen st + 1\<rparr> in
        if sk_emptylen st \<ge> 5 \<and> sk_emptylen st > cnt
        then (st\<lparr>sk_i := rnd (sk_draws st) AND maxmask, sk_emptylen := 0, sk_draws := sk_draws st + 1\<rparr>, False)
        else (st, False)
      else
        let (des, full) = collect_chain cnt he (sk_des st)
        in (st\<lparr>sk_emptylen := 0, sk_des := des\<rparr>, full))"

fun someKeys_tables ::
  "(nat \<Rightarrow> u64) \<Rightarrow> ('k, 'v) dict \<Rightarrow> nat \<Rightarrow> nat \<Rightarrow> u64 \<Rightarrow> nat list \<Rightarrow> ('k, 'v) sampling \<Rightarrow> (('k, 'v) sampling \<times> bool) option" where
  "someKeys_tables rnd d cnt tables maxmask [] st = Some (st, False)"
| "someKeys_tables rnd d cnt tables maxmask (j # js) st =
     (let (skip, st) = someKeys_jump d tables j st in
      if skip \<or> unat (sk_i st) \<ge> ht_size (dict_ht d j) then someKeys_tables rnd d cnt tables maxmask js st
      else do {
        he \<leftarrow> bucket (dict_ht d j) (unat (sk_i st));
        let (st, full) = someKeys_visit rnd cnt maxmask he st;
        if full then Some (st, True) else someKeys_tables rnd d cnt tables maxmask js st
      })"

primrec someKeys_loop ::
  "(nat \<Rightarrow> u64) \<Rightarrow> ('k, 'v) dict \<Rightarrow> nat \<Rightarrow> nat \<Rightarrow> u64 \<Rightarrow> nat \<Rightarrow> ('k, 'v) sampling \<Rightarrow> ('k, 'v) sampling option" where
  "someKeys_loop rnd d cnt tables maxmask 0 st = Some st"
| "someKeys_loop rnd d cnt tables maxmask (Suc maxsteps) st =
     (if length (sk_des st) < cnt then do {
        (st, full) \<leftarrow> someKeys_tables rnd d cnt tables maxmask [0..<tables] st;
        if full then Some st
        else someKeys_loop rnd d cnt tables maxmask maxsteps (st\<lparr>sk_i := (sk_i st + 1) AND maxmask\<rparr>)
      }
      else Some st)"

definition dictGetSomeKeys ::
  "(nat \<Rightarrow> u64) \<Rightarrow> ('k, 'v) dict \<Rightarrow> nat \<Rightarrow> nat \<Rightarrow> (('k, 'v) dict \<times> ('k, 'v) dictEntry list \<times> nat) option" where
  "dictGetSomeKeys rnd d cnt p = do {
     let cnt = (if dictSize d < cnt then dictSize d else cnt);
     let maxsteps = (cnt * 10) mod 4294967296;
     d1 \<leftarrow> someKeys_rehash cnt d;
     let tables = (if dictIsRehashing d1 then 2 else 1);
     let maxmask = (if tables > 1 \<and> ht_sizemask (d_ht0 d1) < ht_sizemask (d_ht1 d1)
                    then ht_sizemask (d_ht1 d1) else ht_sizemask (d_ht0 d1));
     st \<leftarrow> someKeys_loop rnd d1 cnt tables maxmask maxsteps
             \<lparr>sk_i = rnd p AND maxmask, sk_emptylen = 0, sk_des = [], sk_draws = p + 1\<rparr>;
     Some (d1, sk_des st, sk_draws st)
   }"

definition dictGetFairRandomKey ::
  "(nat \<Rightarrow> u64) \<Rightarrow> ('k, 'v) dict \<Rightarrow> nat \<Rightarrow> (('k, 'v) dict \<times> ('k, 'v) dictEntry option \<times> nat) option" where
  "dictGetFairRandomKey rnd d p = do {
     (d1, entries, p1) \<leftarrow> dictGetSomeKeys rnd d 15 p;
     if length entries = 0 then dictGetRandomKey rnd d1 p1
     else Some (d1, Some (entries ! (unat (rnd p1) mod length entries)), p1 + 1)
   }"

section \<open>Iteration visits everything once\<close>

text \<open>The entries an iterator has still to return, in the order in which it returns them.\<close>

definition iter_rest :: "('k, 'v) dict \<Rightarrow> ('k, 'v) dictIterator \<Rightarrow> ('k, 'v) dictEntry list" where
  "iter_rest d it = (if it_entry it = None then [] else it_nextEntry it)
     @ concat (drop (nat (it_index it + 1)) (ht_table (dict_ht d (it_table it))))
     @ (if it_table it = 0 \<and> dictIsRehashing d then concat (ht_table (d_ht1 d)) else [])"

text \<open>
  The state of an iteration over the dictionary \<open>d0\<close>: before the first call nothing has changed;
  afterwards a safe iterator has paused rehashing and an unsafe one has recorded the fingerprint.
\<close>

definition iter_inv :: "u64 \<times> u64 \<Rightarrow> ('k, 'v) dict \<Rightarrow> ('k, 'v) dict \<Rightarrow> ('k, 'v) dictIterator \<Rightarrow> bool" where
  "iter_inv addr d0 d it \<longleftrightarrow> it_index it \<ge> -1 \<and> (it_table it = 0 \<or> it_table it = 1 \<and> dictIsRehashing d \<and> it_index it \<ge> 0)
     \<and> (if it_index it = -1 then d = d0 \<and> it_entry it = None
        else if it_safe it then d = d0\<lparr>d_pauserehash := d_pauserehash d0 + 1\<rparr>
        else d = d0 \<and> it_fingerprint it = dictFingerprint addr d0)"

definition sizes_ok :: "('k, 'v) dict \<Rightarrow> bool" where
  "sizes_ok d \<longleftrightarrow> length (ht_table (d_ht0 d)) = ht_size (d_ht0 d) \<and> length (ht_table (d_ht1 d)) = ht_size (d_ht1 d)
     \<and> (dictIsRehashing d \<longrightarrow> ht_size (d_ht1 d) > 0)"

lemma dict_wf_sizes_ok: "dict_wf d \<Longrightarrow> sizes_ok d"
  by (auto simp: sizes_ok_def dict_wf_def ht_alloc_def split: if_splits)

lemma sizes_ok_pause [simp]: "sizes_ok (d\<lparr>d_pauserehash := p\<rparr>) = sizes_ok d"
  by (simp add: sizes_ok_def dictIsRehashing_def)

lemma dictNext_start_spec:
  assumes inv: "iter_inv addr d0 d it" and st: "dictNext_start addr d it = (d1, it1)"
  shows "it_index it1 = it_index it" "it_table it1 = it_table it" "it_entry it1 = it_entry it"
    "d_ht0 d1 = d_ht0 d" "d_ht1 d1 = d_ht1 d" "dictIsRehashing d1 = dictIsRehashing d"
    and "i \<ge> 0 \<Longrightarrow> t = 0 \<or> t = 1 \<and> dictIsRehashing d
      \<Longrightarrow> iter_inv addr d0 d1 (it1\<lparr>it_index := i, it_table := t, it_entry := e, it_nextEntry := rest\<rparr>)"
    and "i \<ge> 0 \<Longrightarrow> iter_inv addr d0 d1 (it1\<lparr>it_index := i, it_entry := e, it_nextEntry := rest\<rparr>)"
  using assms by (auto simp: dictNext_start_def iter_inv_def dictIsRehashing_def split: if_splits)

lemma iter_inv_tables: "iter_inv addr d0 d it \<Longrightarrow> sizes_ok d0 \<Longrightarrow> sizes_ok d"
  by (auto simp: iter_inv_def split: if_splits)

lemma dictNext_round_spec:
  assumes ok: "sizes_ok d0" and inv: "iter_inv addr d0 d it"
  shows "\<exists>d1 it1 c. dictNext_round addr d it = Some (d1, it1, c)
     \<and> (case c of None \<Rightarrow> iter_rest d it = [] \<and> iter_inv addr d0 d1 it1 \<and> it_index it1 \<noteq> -1
        | Some ch \<Rightarrow> iter_rest d it = ch @ iter_rest d1 (it1\<lparr>it_entry := None\<rparr>) \<and> it_index it1 \<noteq> -1
            \<and> (\<forall>e rest. iter_inv addr d0 d1 (it1\<lparr>it_entry := e, it_nextEntry := rest\<rparr>)))"
proof (cases "it_entry it = None")
  case False
  then show ?thesis using inv by (auto simp: dictNext_round_def iter_rest_def iter_inv_def)
next
  case True
  obtain d1 it1 where st: "dictNext_start addr d it = (d1, it1)" by force
  note s = dictNext_start_spec [OF inv st]
  let ?i = "it_index it + 1" and ?t = "it_table it"
  have i: "?i \<ge> 0" and t: "?t = 0 \<or> ?t = 1 \<and> dictIsRehashing d" using inv by (auto simp: iter_inv_def)
  have sz: "sizes_ok d" using iter_inv_tables [OF inv ok] .
  have ht: "dict_ht d1 ?t = dict_ht d ?t" using s by (simp add: dict_ht_def)
  have len: "length (ht_table (dict_ht d ?t)) = ht_size (dict_ht d ?t)" using sz by (simp add: sizes_ok_def dict_ht_def)
  have inv1: "iter_inv addr d0 d1 (it1\<lparr>it_index := ?i, it_entry := e, it_nextEntry := rest\<rparr>)" for e rest
    using s(8) [OF i] .
  consider (more) "?i < int (ht_size (dict_ht d ?t))"
    | (switch) "?i \<ge> int (ht_size (dict_ht d ?t))" "dictIsRehashing d" "?t = 0"
    | (stop) "?i \<ge> int (ht_size (dict_ht d ?t))" "\<not> (dictIsRehashing d \<and> ?t = 0)" by linarith
  then show ?thesis
  proof cases
    case more
    then have n: "nat ?i < length (ht_table (dict_ht d ?t))" using i len by simp
    then have "dictNext_round addr d it
        = Some (d1, it1\<lparr>it_index := ?i\<rparr>, Some (ht_table (dict_ht d ?t) ! nat ?i))"
      using True st s more i ht by (simp add: dictNext_round_def)
    moreover have "nat (?i + 1) = Suc (nat ?i)" using i by simp
    ultimately show ?thesis using True s n i inv1 ht Cons_nth_drop_Suc [OF n, symmetric]
      by (simp add: iter_rest_def)
  next
    case switch
    have n: "0 < length (ht_table (d_ht1 d))" using sz switch by (simp add: sizes_ok_def)
    then have "dictNext_round addr d it = Some (d1, it1\<lparr>it_index := 0, it_table := 1\<rparr>, Some (ht_table (d_ht1 d) ! 0))"
      using True st s switch ht by (simp add: dictNext_round_def)
    moreover have "drop (nat ?i) (ht_table (dict_ht d ?t)) = []" using switch(1) i len by simp
    moreover have "ht_table (d_ht1 d) = ht_table (d_ht1 d) ! 0 # drop 1 (ht_table (d_ht1 d))"
      using n by (cases "ht_table (d_ht1 d)") auto
    ultimately show ?thesis using True s switch s(7) [of 0 1]
      by (simp add: iter_rest_def dict_ht_def) (metis concat.simps(2))
  next
    case stop
    then have "dictNext_round addr d it = Some (d1, it1\<lparr>it_index := ?i\<rparr>, None)"
      using True st s(1-6) ht by (auto simp: dictNext_round_def Let_def)
    moreover have "iter_inv addr d0 d1 (it1\<lparr>it_index := ?i\<rparr>)"
      using inv1 [of "it_nextEntry it1" "it_entry it1"] by simp
    ultimately show ?thesis using True stop i len by (auto simp: iter_rest_def)
  qed
qed

lemma dictNext_spec:
  assumes "sizes_ok d0" and "iter_inv addr d0 d it"
  shows "\<exists>d1 it1 r. dictNext addr d it = Some (d1, it1, r) \<and> iter_inv addr d0 d1 it1 \<and> it_index it1 \<noteq> -1
     \<and> iter_rest d it = (case r of None \<Rightarrow> [] | Some e \<Rightarrow> e # iter_rest d1 it1)"
  using assms(2)
proof (induction addr d it rule: dictNext.induct)
  case (1 addr d it)
  obtain d1 it1 c where rd: "dictNext_round addr d it = Some (d1, it1, c)"
    and c: "case c of None \<Rightarrow> iter_rest d it = [] \<and> iter_inv addr d0 d1 it1 \<and> it_index it1 \<noteq> -1
        | Some ch \<Rightarrow> iter_rest d it = ch @ iter_rest d1 (it1\<lparr>it_entry := None\<rparr>) \<and> it_index it1 \<noteq> -1
            \<and> (\<forall>e rest. iter_inv addr d0 d1 (it1\<lparr>it_entry := e, it_nextEntry := rest\<rparr>))"
    using dictNext_round_spec [OF assms(1) "1.prems"] by blast
  show ?case
  proof (cases c)
    case None
    then show ?thesis using rd c by (subst dictNext.simps) simp
  next
    case (Some ch)
    show ?thesis
    proof (cases ch)
      case Nil
      have "iter_inv addr d0 d1 (it1\<lparr>it_entry := None\<rparr>)"
        using c Some by simp (metis dictIterator.surjective dictIterator.update_convs(4,5))
      then show ?thesis using "1.IH" [OF rd refl refl] rd c Some Nil by (subst dictNext.simps) simp
    next
      case (Cons e rest)
      then show ?thesis using rd c Some by (subst dictNext.simps) (simp add: iter_rest_def)
    qed
  qed
qed

lemma iterate_spec:
  assumes "sizes_ok d0" and "iter_inv addr d0 d it"
  shows "\<exists>d1 it1. iterate addr d it acc = Some (d1, it1, acc @ iter_rest d it) \<and> iter_inv addr d0 d1 it1 \<and> it_index it1 \<noteq> -1"
  using assms(2)
proof (induction "iter_rest d it" arbitrary: d it acc)
  case Nil
  then show ?case using dictNext_spec [OF assms(1) Nil.prems]
    by (subst iterate.simps) (auto split: option.splits)
next
  case (Cons e es)
  obtain d1 it1 where "dictNext addr d it = Some (d1, it1, Some e)" "iter_inv addr d0 d1 it1" "es = iter_rest d1 it1"
    using dictNext_spec [OF assms(1) Cons.prems] Cons.hyps(2) by (auto split: option.splits)
  then show ?case using Cons.hyps(1) [of d1 it1 "acc @ [e]"] Cons.hyps(2)
    by (subst iterate.simps) auto
qed

text \<open>
  iteration with \<open>dictNext\<close>, with a safe or an unsafe iterator, in any state of the rehash,
  ends, returns every entry of the dictionary exactly once, and releasing the iterator afterwards
  passes the fingerprint assertion and restores the dictionary, with its count of pauses.
\<close>

theorem dictNext_visits_all:
  assumes wf: "dict_wf d"
  shows "\<exists>d' it' es. iterate addr d (if safe then dictGetSafeIterator else dictGetIterator) [] = Some (d', it', es)
     \<and> mset es = dict_entries d \<and> dictReleaseIterator addr d' it' = Some d"
proof -
  let ?it = "if safe then dictGetSafeIterator else dictGetIterator :: ('a, 'b) dictIterator"
  have "iter_inv addr d d ?it" by (simp add: iter_inv_def dictGetSafeIterator_def dictGetIterator_def)
  then obtain d1 it1 where it: "iterate addr d ?it [] = Some (d1, it1, iter_rest d ?it)" "iter_inv addr d d1 it1" "it_index it1 \<noteq> -1"
    using iterate_spec [OF dict_wf_sizes_ok [OF wf], of addr d ?it "[]"] by auto
  have "d_ht1 d = dictReset" if "\<not> dictIsRehashing d" using wf that by (simp add: dict_wf_def)
  then have "mset (iter_rest d ?it) = dict_entries d"
    by (auto simp: iter_rest_def dictGetSafeIterator_def dictGetIterator_def dict_ht_def dict_entries_def ht_entries_def)
  moreover have "dictReleaseIterator addr d1 it1 = Some d"
    using it(2,3) by (auto simp: dictReleaseIterator_def iter_inv_def)
  ultimately show ?thesis using it(1) by blast
qed

theorem dictNext_visits_all_witness:
  "\<exists>d' it' es. iterate (16, 32) ex_dict dictGetSafeIterator [] = Some (d', it', es)
     \<and> mset es = dict_entries ex_dict \<and> dictReleaseIterator (16, 32) d' it' = Some ex_dict"
  using dictNext_visits_all [OF ex_dict_ok(1), of "(16, 32)" True] by simp

section \<open>Random sampling stays inside the dictionary\<close>

lemma someKeys_rehash_wf:
  "dict_wf d \<Longrightarrow> \<exists>d'. someKeys_rehash n d = Some d' \<and> dict_wf d' \<and> same_dict d d'"
proof (induction n arbitrary: d)
  case (Suc n)
  show ?case
  proof (cases "dictIsRehashing d")
    case True
    then obtain d1 where "dictRehashStep d = Some d1" "dict_wf d1" "same_dict d d1"
      using rehash_if_needed_wf [OF Suc.prems] by (auto simp: rehash_if_needed_def)
    then show ?thesis using True Suc.IH [of d1] by (auto simp: same_dict_def)
  qed (use Suc.prems in simp)
qed simp

lemma collect_chain_spec:
  "collect_chain cnt he des = (des', full) \<Longrightarrow> length des < cnt
     \<Longrightarrow> length des' \<le> cnt \<and> set des' \<subseteq> set des \<union> set he \<and> (full \<or> length des' < cnt)"
  by (induction cnt he des rule: collect_chain.induct) (auto simp: Let_def split: if_splits)

definition sample_ok :: "('k, 'v) dict \<Rightarrow> nat \<Rightarrow> ('k, 'v) sampling \<Rightarrow> bool" where
  "sample_ok d cnt st \<longleftrightarrow> length (sk_des st) < cnt \<and> set (sk_des st) \<subseteq> set_mset (dict_entries d)"

lemma bucket_subset: "bucket (dict_ht d t) i = Some he \<Longrightarrow> set he \<subseteq> set_mset (dict_entries d)"
  using set_ht_entries [of _ "dict_ht d t"]
  by (auto simp: bucket_def dict_entries_def dict_ht_def split: if_splits)

lemma someKeys_jump_ok: "someKeys_jump d tables j st = (skip, st') \<Longrightarrow> sample_ok d cnt st' = sample_ok d cnt st"
  by (auto simp: someKeys_jump_def sample_ok_def split: if_splits)

lemma someKeys_visit_ok:
  assumes "someKeys_visit rnd cnt m he st = (st', full)" and "sample_ok d cnt st" and "set he \<subseteq> set_mset (dict_entries d)"
  shows "if full then length (sk_des st') \<le> cnt \<and> set (sk_des st') \<subseteq> set_mset (dict_entries d) else sample_ok d cnt st'"
  using assms collect_chain_spec [of cnt he "sk_des st"]
  by (fastforce simp: someKeys_visit_def sample_ok_def Let_def split: if_splits prod.splits)

lemma someKeys_tables_ok:
  assumes "sizes_ok d" and "sample_ok d cnt st"
  shows "\<exists>st' full. someKeys_tables rnd d cnt tables m js st = Some (st', full)
     \<and> (if full then length (sk_des st') \<le> cnt \<and> set (sk_des st') \<subseteq> set_mset (dict_entries d) else sample_ok d cnt st')"
  using assms
proof (induction js arbitrary: st)
  case (Cons j js)
  obtain skip st1 where jump: "someKeys_jump d tables j st = (skip, st1)" by force
  then have ok1: "sample_ok d cnt st1" using Cons.prems someKeys_jump_ok by blast
  show ?case
  proof (cases "skip \<or> unat (sk_i st1) \<ge> ht_size (dict_ht d j)")
    case True
    then show ?thesis using Cons.IH [OF Cons.prems(1) ok1] jump by simp
  next
    case False
    then have "unat (sk_i st1) < length (ht_table (dict_ht d j))"
      using Cons.prems(1) by (auto simp: sizes_ok_def dict_ht_def split: if_splits)
    then obtain he where he: "bucket (dict_ht d j) (unat (sk_i st1)) = Some he" by simp
    obtain st2 full where v: "someKeys_visit rnd cnt m he st1 = (st2, full)" by force
    note ok2 = someKeys_visit_ok [OF v ok1 bucket_subset [OF he]]
    show ?thesis
    proof (cases full)
      case True
      then show ?thesis using False jump he v ok2 by (intro exI [of _ st2] exI [of _ True]) simp
    next
      case notfull: False
      then show ?thesis using False jump he v ok2 Cons.IH [OF Cons.prems(1), of st2] by simp
    qed
  qed
qed (auto intro: exI [of _ False])

lemma someKeys_loop_ok:
  assumes "sizes_ok d"
  shows "length (sk_des st) \<le> cnt \<Longrightarrow> set (sk_des st) \<subseteq> set_mset (dict_entries d)
     \<Longrightarrow> \<exists>st'. someKeys_loop rnd d cnt tables m n st = Some st'
       \<and> length (sk_des st') \<le> cnt \<and> set (sk_des st') \<subseteq> set_mset (dict_entries d)"
proof (induction n arbitrary: st)
  case (Suc n)
  show ?case
  proof (cases "length (sk_des st) < cnt")
    case True
    then obtain st1 full where st1: "someKeys_tables rnd d cnt tables m [0..<tables] st = Some (st1, full)"
      and ok: "if full then length (sk_des st1) \<le> cnt \<and> set (sk_des st1) \<subseteq> set_mset (dict_entries d) else sample_ok d cnt st1"
      using someKeys_tables_ok [OF assms, of cnt st rnd tables m "[0..<tables]"] Suc.prems by (auto simp: sample_ok_def)
    show ?thesis
    proof (cases full)
      case False
      then show ?thesis using True st1 ok Suc.IH [of "st1\<lparr>sk_i := (sk_i st1 + 1) AND m\<rparr>"]
        by (simp add: sample_ok_def)
    qed (use True st1 ok in simp)
  qed (use Suc.prems in simp)
qed simp

text \<open>
  for every outcome of the random numbers \<open>dictGetSomeKeys\<close> ends without reading outside the
  tables, stores at most \<open>count\<close> entries (and at most as many as there are) in the caller's array, all of
  them entries of the dictionary, and leaves the dictionary unchanged up to rehashing.
\<close>

theorem dictGetSomeKeys_safe:
  assumes wf: "dict_wf d"
  shows "\<exists>d' des p'. dictGetSomeKeys rnd d cnt p = Some (d', des, p') \<and> dict_wf d' \<and> same_dict d d'
     \<and> length des \<le> min cnt (size (dict_entries d)) \<and> set des \<subseteq> set_mset (dict_entries d)"
proof -
  define c where "c = (if dictSize d < cnt then dictSize d else cnt)"
  have c: "c = min cnt (size (dict_entries d))" using dictSize_entries [OF wf] by (simp add: c_def min_def)
  obtain d1 where d1: "someKeys_rehash c d = Some d1" "dict_wf d1" "same_dict d d1" using someKeys_rehash_wf [OF wf] by blast
  then have ent: "dict_entries d1 = dict_entries d" by (simp add: same_dict_def)
  define tables :: nat where "tables = (if dictIsRehashing d1 then 2 else 1)"
  define m where "m = (if tables > 1 \<and> ht_sizemask (d_ht0 d1) < ht_sizemask (d_ht1 d1)
                    then ht_sizemask (d_ht1 d1) else ht_sizemask (d_ht0 d1))"
  let ?st = "\<lparr>sk_i = rnd p AND m, sk_emptylen = 0, sk_des = [], sk_draws = p + 1\<rparr>"
  obtain st where "someKeys_loop rnd d1 c tables m ((c * 10) mod 4294967296) ?st = Some st"
    and "length (sk_des st) \<le> c" "set (sk_des st) \<subseteq> set_mset (dict_entries d1)"
    using someKeys_loop_ok [OF dict_wf_sizes_ok [OF d1(2)], of ?st c rnd tables m "(c * 10) mod 4294967296"] by auto
  then have "dictGetSomeKeys rnd d cnt p = Some (d1, sk_des st, sk_draws st)"
    using d1(1) unfolding m_def tables_def c_def by (simp add: dictGetSomeKeys_def Let_def del: One_nat_def)
  then show ?thesis using d1 c ent \<open>length (sk_des st) \<le> c\<close> \<open>set (sk_des st) \<subseteq> set_mset (dict_entries d1)\<close> by auto
qed

theorem dictGetSomeKeys_safe_witness:
  "\<exists>d' des p'. dictGetSomeKeys (\<lambda>i. word_of_nat (7 * i)) ex_dict 2 0 = Some (d', des, p') \<and> length des \<le> 2"
  using dictGetSomeKeys_safe [OF ex_dict_ok(1), of "\<lambda>i. word_of_nat (7 * i)" 2 0] by auto

end
