(* ===== verification/Util.thy ===== *)
theory Util
  imports Redis_Prelude "HOL-Library.Sublist"
begin

text \<open>
  The string utilities of \<open>src/redis-6.2.0/src/util.c\<close>: conversions between integers and their
  decimal representation, character sets and glob-style pattern matching.  Strings are lists of
  bytes; a pattern is a buffer with an explicit length because \<open>stringmatchlen\<close> looks at the byte
  after it.  \<open>None\<close> is an access outside a buffer, or, for the parsers, the result 0.
\<close>

section \<open>Model: integers and strings\<close>

function digits10 :: "nat \<Rightarrow> nat" where
  "digits10 v =
     (if v < 10 then 1
      else if v < 100 then 2
      else if v < 1000 then 3
      else if v < 1000000000000 then
        (if v < 100000000 then
           (if v < 1000000 then
              (if v < 10000 then 4 else 5 + (if v \<ge> 100000 then 1 else 0))
            else 7 + (if v \<ge> 10000000 then 1 else 0))
         else if v < 10000000000 then 9 + (if v \<ge> 1000000000 then 1 else 0)
         else 11 + (if v \<ge> 100000000000 then 1 else 0))
      else 12 + digits10 (v div 1000000000000))"
  by pat_completeness auto
termination
  by (relation "measure id") auto

declare digits10.simps [simp del]

text \<open>The magnitude of a \<open>long long\<close>, with the special case for \<open>LLONG_MIN\<close>.\<close>

definition ll_magnitude :: "int \<Rightarrow> nat" where
  "ll_magnitude v = (if v < 0 then (if v \<noteq> INT64_MIN then nat (- v) else nat (INT64_MAX + 1)) else nat v)"

definition sdigits10 :: "int \<Rightarrow> nat" where
  "sdigits10 v = (if v < 0 then digits10 (ll_magnitude v) + 1 else digits10 (ll_magnitude v))"

definition ll2string_table :: "byte list" where
  "ll2string_table = map of_char
     (''0001020304050607080910111213141516171819'' @
      ''2021222324252627282930313233343536373839'' @
      ''4041424344454647484950515253545556575859'' @
      ''6061626364656667686970717273747576777879'' @
      ''8081828384858687888990919293949596979899'')"

text \<open>Subtraction on \<open>uint32_t\<close>.\<close>

definition u32_sub :: "nat \<Rightarrow> nat \<Rightarrow> nat" where
  "u32_sub a b = (a + 4294967296 - b) mod 4294967296"

definition write_pair :: "byte list \<Rightarrow> nat \<Rightarrow> nat \<Rightarrow> byte list option" where
  "write_pair dst next i = do {
     dst \<leftarrow> mem_write dst next [ll2string_table ! (i + 1)];
     mem_write dst (u32_sub next 1) [ll2string_table ! i]
   }"

function ll2string_loop :: "nat \<Rightarrow> nat \<Rightarrow> byte list \<Rightarrow> (nat \<times> nat \<times> byte list) option" where
  "ll2string_loop value next dst =
     (if value \<ge> 100 then do {
        dst \<leftarrow> write_pair dst next ((value mod 100) * 2);
        ll2string_loop (value div 100) (u32_sub next 2) dst
      }
      else Some (value, next, dst))"
  by pat_completeness auto
termination
  by (relation "measure fst") auto

declare ll2string_loop.simps [simp del]

definition ll2string_last :: "nat \<Rightarrow> nat \<Rightarrow> byte list \<Rightarrow> byte list option" where
  "ll2string_last value next dst =
     (if value < 10 then mem_write dst next [48 + word_of_nat value]
      else write_pair dst next (value * 2))"

text \<open>The buffer and the length returned, 0 when the buffer of \<open>dstlen\<close> bytes is too small.\<close>

definition ll2string :: "byte list \<Rightarrow> nat \<Rightarrow> int \<Rightarrow> (byte list \<times> nat) option" where
  "ll2string dst dstlen svalue = do {
     let value = ll_magnitude svalue;
     let negative = (if svalue < 0 then 1 else 0);
     let len = digits10 value + negative;
     if len \<ge> dstlen then Some (dst, 0)
     else do {
       dst \<leftarrow> mem_write dst len [0];
       (value, next, dst) \<leftarrow> ll2string_loop value (u32_sub len 1) dst;
       dst \<leftarrow> ll2string_last value next dst;
       dst \<leftarrow> (if negative = 1 then mem_write dst 0 [45] else Some dst);
       Some (dst, len)
     }
   }"

definition is_digit :: "byte \<Rightarrow> bool" where
  "is_digit c \<longleftrightarrow> 48 \<le> unat c \<and> unat c \<le> 57"

text \<open>The digits after the first one: \<open>None\<close> on overflow of \<open>unsigned long long\<close>.\<close>

fun string2ll_loop :: "nat \<Rightarrow> byte list \<Rightarrow> (nat \<times> byte list) option" where
  "string2ll_loop v [] = Some (v, [])"
| "string2ll_loop v (c # p) =
     (if is_digit c then
        if v > 18446744073709551615 div 10 then None
        else if v * 10 > 18446744073709551615 - (unat c - 48) then None
        else string2ll_loop (v * 10 + (unat c - 48)) p
      else Some (v, c # p))"

definition string2ll :: "byte list \<Rightarrow> int option" where
  "string2ll s =
     (if s = [] then None
      else if length s = 1 \<and> hd s = 48 then Some 0
      else do {
        let negative = (hd s = 45);
        let p = (if negative then tl s else s);
        require (p \<noteq> []);
        require (49 \<le> unat (hd p) \<and> unat (hd p) \<le> 57);
        (v, rest) \<leftarrow> string2ll_loop (unat (hd p) - 48) (tl p);
        require (rest = []);
        if negative then do { require (v \<le> 9223372036854775808); Some (- int v) }
        else do { require (v \<le> 9223372036854775807); Some (int v) }
      })"

text \<open>\<open>long\<close> and \<open>long long\<close> are both 64 bits wide, so the range check never fails.\<close>

definition string2l :: "byte list \<Rightarrow> int option" where
  "string2l s = do {
     v \<leftarrow> string2ll s;
     require (INT64_MIN \<le> v \<and> v \<le> INT64_MAX);
     Some v
   }"

definition mempbrk :: "byte list \<Rightarrow> byte list \<Rightarrow> nat option" where
  "mempbrk s chars = List.find (\<lambda>j. list_ex (\<lambda>c. s ! j = c) chars) [0..<length s]"

fun mapchar :: "byte \<Rightarrow> (byte \<times> byte) list \<Rightarrow> byte" where
  "mapchar c [] = c"
| "mapchar c ((f, t) # m) = (if c = f then t else mapchar c m)"

definition memmapchars :: "byte list \<Rightarrow> byte list \<Rightarrow> byte list \<Rightarrow> byte list" where
  "memmapchars s from to = map (\<lambda>c. mapchar c (zip from to)) s"

section \<open>Decimal representation\<close>

text \<open>The specification: the canonical decimal representation of a number.\<close>

fun dec_nat :: "nat \<Rightarrow> byte list" where
  "dec_nat n = (if n < 10 then [48 + word_of_nat n] else dec_nat (n div 10) @ [48 + word_of_nat (n mod 10)])"

declare dec_nat.simps [simp del]

definition dec_int :: "int \<Rightarrow> byte list" where
  "dec_int v = (if v < 0 then 45 # dec_nat (nat (- v)) else dec_nat (nat v))"

lemma dec_nat_small: "n < 10 \<Longrightarrow> dec_nat n = [48 + word_of_nat n]"
  by (simp add: dec_nat.simps)

lemma dec_nat_snoc: "n \<ge> 10 \<Longrightarrow> dec_nat n = dec_nat (n div 10) @ [48 + word_of_nat (n mod 10)]"
  by (subst dec_nat.simps) simp

lemma length_dec_nat_le: "length (dec_nat n) \<le> k \<longleftrightarrow> n < 10 ^ k \<and> k > 0"
proof (induction k arbitrary: n)
  case 0
  then show ?case by (cases "n < 10") (simp_all add: dec_nat_small dec_nat_snoc)
next
  case (Suc k)
  show ?case
  proof (cases "n < 10")
    case True
    then have "n < 10 * 10 ^ k" by (metis less_le_trans mult.right_neutral mult_le_mono2 one_le_numeral one_le_power)
    then show ?thesis using True by (simp add: dec_nat_small)
  next
    case False
    then have "n < 10 * 10 ^ k \<longleftrightarrow> n div 10 < 10 ^ k" by (simp add: less_mult_imp_div_less div_less_iff_less_mult mult.commute)
    moreover have "k > 0" if "n div 10 < 10 ^ k" using that False by (cases k) auto
    ultimately show ?thesis using False Suc.IH by (auto simp: dec_nat_snoc)
  qed
qed

lemma length_dec_nat_eq: "10 ^ k \<le> n \<Longrightarrow> n < 10 ^ Suc k \<Longrightarrow> length (dec_nat n) = Suc k"
  using length_dec_nat_le [of n k] length_dec_nat_le [of n "Suc k"] by (cases "k = 0") (auto simp: le_Suc_eq)

lemma length_dec_nat_div: "n \<ge> 10 ^ k \<Longrightarrow> length (dec_nat n) = k + length (dec_nat (n div 10 ^ k))"
proof (induction k arbitrary: n)
  case (Suc k)
  then have n: "10 \<le> n" "10 ^ k \<le> n div 10"
    using div_le_mono [OF Suc.prems, of 10] by (simp_all add: order_trans [OF _ Suc.prems])
  then show ?case using Suc.IH [of "n div 10"] by (simp add: dec_nat_snoc [of n] div_mult2_eq)
qed simp

lemma digits10_length: "digits10 n = length (dec_nat n)"
proof (induction n rule: digits10.induct)
  case (1 n)
  consider "n < 10" | k where "k \<in> {1..11}" "10 ^ k \<le> n" "n < 10 ^ Suc k" | "1000000000000 \<le> n"
  proof (cases "n < 10 \<or> 1000000000000 \<le> n")
    case False
    then have "1 < length (dec_nat n)" "length (dec_nat n) \<le> 12"
      using length_dec_nat_le [of n 1] length_dec_nat_le [of n 12] by auto
    moreover define k where "k = length (dec_nat n) - 1"
    ultimately have "k \<in> {1..11}" "10 ^ k \<le> n" "n < 10 ^ Suc k"
      using length_dec_nat_le [of n k] length_dec_nat_le [of n "Suc k"] by auto
    then show ?thesis using that by blast
  qed (use that in blast)
  then show ?case
  proof cases
    case 1
    then show ?thesis by (subst digits10.simps) (simp add: dec_nat_small)
  next
    case (2 k)
    have "k = 1 \<or> k = 2 \<or> k = 3 \<or> k = 4 \<or> k = 5 \<or> k = 6 \<or> k = 7 \<or> k = 8 \<or> k = 9 \<or> k = 10 \<or> k = 11"
      using 2(1) by (simp, arith)
    then have "digits10 n = Suc k"
      using 2(2,3) by (subst digits10.simps) (elim disjE; simp)
    then show ?thesis using length_dec_nat_eq [OF 2(2,3)] by simp
  next
    case 3
    have "length (dec_nat n) = 12 + length (dec_nat (n div 1000000000000))"
      using length_dec_nat_div [of 12 n] 3 by simp
    moreover have "digits10 n = 12 + digits10 (n div 1000000000000)"
      using 3 by (subst digits10.simps) simp
    ultimately show ?thesis using 1 3 by simp
  qed
qed

lemma table_pairs:
  "ll2string_table = concat (map (\<lambda>i. [48 + word_of_nat (i div 10), 48 + word_of_nat (i mod 10)]) [0..<100])"
  by code_simp

lemma length_concat_pairs: "length (concat (map (\<lambda>i. [f i, g i]) [0..<n])) = n * 2"
  by (induction n) auto

lemma nth_concat_pairs:
  "i < n \<Longrightarrow> concat (map (\<lambda>i. [f i, g i]) [0..<n]) ! (i * 2) = f i \<and> concat (map (\<lambda>i. [f i, g i]) [0..<n]) ! (i * 2 + 1) = g i"
proof (induction n)
  case (Suc n)
  then show ?case using length_concat_pairs [of f g n]
    by (cases "i = n") (simp_all add: nth_append)
qed simp

lemma table_pair:
  assumes "i < 100"
  shows "ll2string_table ! (i * 2) = 48 + word_of_nat (i div 10)" "ll2string_table ! (i * 2 + 1) = 48 + word_of_nat (i mod 10)"
  using nth_concat_pairs [OF assms] unfolding table_pairs by metis+

lemma write_pair_ok:
  assumes "i < 100" and "1 \<le> nxt" and "nxt < length dst" and "nxt < 4294967296"
  shows "write_pair dst nxt (i * 2)
    = Some (take (nxt - 1) dst @ [48 + word_of_nat (i div 10), 48 + word_of_nat (i mod 10)] @ drop (nxt + 1) dst)"
proof -
  have n: "u32_sub nxt 1 = nxt - 1" using assms(2,4) by (simp add: u32_sub_def le_mod_geq)
  have "take (Suc (nxt - 1)) dst = take nxt dst" using assms(2) by simp
  moreover have "drop nxt (take nxt dst @ xs) = xs" for xs using assms(3) by simp
  ultimately show ?thesis using assms(2,3) n
    by (simp add: write_pair_def table_pair [OF assms(1)] table_pair [OF assms(1), simplified] mem_write_def min_def)
qed

lemma dec_nat_pair:
  assumes "v \<ge> 100"
  shows "dec_nat v = dec_nat (v div 100) @ [48 + word_of_nat (v mod 100 div 10), 48 + word_of_nat (v mod 100 mod 10)]"
proof -
  have "v mod 100 = 10 * (v div 10 mod 10) + v mod 10" using mod_mult2_eq [of v 10 10] by simp
  then have "v div 10 mod 10 = v mod 100 div 10" "v mod 10 = v mod 100 mod 10" by simp_all
  moreover have "10 \<le> v div 10" using div_le_mono [OF assms, of 10] by simp
  moreover have "v div 10 div 10 = v div 100" by (simp flip: div_mult2_eq)
  ultimately show ?thesis using assms by (simp add: dec_nat_snoc [of v] dec_nat_snoc [of "v div 10"])
qed

lemma ll2string_digits:
  assumes "length (dec_nat vl) + off = nxt + 1" and "nxt < length dst" and "nxt < 4294967296"
  shows "do { (v, n, d) \<leftarrow> ll2string_loop vl nxt dst; ll2string_last v n d }
    = Some (take off dst @ dec_nat vl @ drop (nxt + 1) dst)"
  using assms
proof (induction vl nxt dst rule: ll2string_loop.induct)
  case (1 vl nxt dst)
  show ?case
  proof (cases "vl \<ge> 100")
    case True
    note dec = dec_nat_pair [OF True]
    have "length (dec_nat (vl div 100)) \<ge> 1" using length_dec_nat_le [of "vl div 100" 0] by linarith
    then have nx: "2 \<le> nxt" "off \<le> nxt - 2" using "1.prems"(1) dec by simp_all
    let ?d = "take (nxt - 1) dst @ [48 + word_of_nat (vl mod 100 div 10), 48 + word_of_nat (vl mod 100 mod 10)] @ drop (nxt + 1) dst"
    have w: "write_pair dst nxt (vl mod 100 * 2) = Some ?d" using "1.prems" nx by (intro write_pair_ok) auto
    have sub: "u32_sub nxt 2 = nxt - 2" using nx(1) "1.prems"(3) by (simp add: u32_sub_def le_mod_geq)
    have "do { (v, n, d) \<leftarrow> ll2string_loop (vl div 100) (nxt - 2) ?d; ll2string_last v n d }
        = Some (take off ?d @ dec_nat (vl div 100) @ drop (nxt - 2 + 1) ?d)"
      using "1.IH" [OF True w] "1.prems" nx dec unfolding sub by simp
    moreover have "off \<le> nxt - 1" using nx(2) by linarith
    then have "take off ?d = take off dst" using "1.prems"(2) by (auto simp: min_def)
    moreover have "drop (nxt - 2 + 1) ?d = drop (nxt - 1) ?d" using nx(1) by (simp add: Suc_diff_le numeral_2_eq_2)
    moreover have "ll2string_loop vl nxt dst = ll2string_loop (vl div 100) (nxt - 2) ?d"
      using True w sub by (subst ll2string_loop.simps) simp
    ultimately show ?thesis using dec "1.prems" by simp
  next
    case False
    show ?thesis
    proof (cases "vl < 10")
      case True
      then show ?thesis using "1.prems" by (subst ll2string_loop.simps) (simp add: ll2string_last_def dec_nat_small mem_write_def)
    next
      case ge: False
      then have "dec_nat vl = [48 + word_of_nat (vl div 10), 48 + word_of_nat (vl mod 10)]"
        using False by (simp add: dec_nat_snoc dec_nat_small)
      moreover then have "off = nxt - 1" using "1.prems"(1) by simp
      ultimately show ?thesis using False ge "1.prems" write_pair_ok [of vl nxt dst]
        by (subst ll2string_loop.simps) (simp add: ll2string_last_def)
    qed
  qed
qed

lemma ll_magnitude_abs: "int64 v \<Longrightarrow> ll_magnitude v = nat \<bar>v\<bar>"
  by (auto simp: ll_magnitude_def int64_def)

lemma length_dec_int: "int64 v \<Longrightarrow> length (dec_int v) = digits10 (ll_magnitude v) + (if v < 0 then 1 else 0)"
  by (simp add: dec_int_def digits10_length ll_magnitude_abs)

lemma dec_int_short: "int64 v \<Longrightarrow> length (dec_int v) \<le> 20"
  using length_dec_nat_le [of "nat \<bar>v\<bar>" 19] by (auto simp: dec_int_def int64_def)

lemma ll2string_dec:
  assumes v: "int64 v" and dst: "dstlen \<le> length dst"
  shows "ll2string dst dstlen v =
     (if length (dec_int v) < dstlen
      then Some (dec_int v @ [0] @ drop (length (dec_int v) + 1) dst, length (dec_int v))
      else Some (dst, 0))"
proof (cases "length (dec_int v) < dstlen")
  case False
  then show ?thesis using length_dec_int [OF v] by (auto simp: ll2string_def Let_def)
next
  case True
  define off :: nat where "off = (if v < 0 then 1 else 0)"
  define n where "n = ll_magnitude v"
  define len where "len = length (dec_int v)"
  have len: "len = length (dec_nat n) + off" using length_dec_int [OF v] by (simp add: digits10_length off_def n_def len_def)
  have pos: "length (dec_nat n) \<ge> 1" using length_dec_nat_le [of n 0] by linarith
  have bnd: "len \<le> 20" "len < length dst" using dec_int_short [OF v] True dst by (simp_all add: len_def)
  let ?d = "take len dst @ [0] @ drop (len + 1) dst"
  have "u32_sub len 1 = len - 1" using pos len bnd(1) by (simp add: u32_sub_def le_mod_geq)
  moreover have "do { (v, n, d) \<leftarrow> ll2string_loop n (len - 1) ?d; ll2string_last v n d }
      = Some (take off ?d @ dec_nat n @ drop (len - 1 + 1) ?d)"
    using len pos bnd by (intro ll2string_digits) auto
  moreover have "drop (len - 1 + 1) ?d = [0] @ drop (len + 1) dst" using pos len bnd by simp
  ultimately have res: "do { (v, m, d) \<leftarrow> ll2string_loop n (u32_sub len 1) ?d; ll2string_last v m d }
      = Some (take off ?d @ dec_nat n @ [0] @ drop (len + 1) dst)" by simp
  have "mem_write dst len [0] = Some ?d" using bnd by (simp add: mem_write_def)
  moreover have "digits10 n + off = len" using len by (simp add: digits10_length)
  ultimately have "ll2string dst dstlen v = (do {
      d \<leftarrow> do { (v, m, d) \<leftarrow> ll2string_loop n (u32_sub len 1) ?d; ll2string_last v m d };
      d \<leftarrow> (if off = 1 then mem_write d 0 [45] else Some d);
      Some (d, len) })"
    using True by (simp add: ll2string_def Let_def n_def off_def len_def split_def bind_assoc)
  also have "\<dots> = Some (dec_int v @ [0] @ drop (len + 1) dst, len)"
    unfolding res using bnd len v
    by (auto simp: off_def dec_int_def n_def ll_magnitude_abs mem_write_def drop_take take_Suc_conv_app_nth)
  finally show ?thesis using True by (simp add: len_def)
qed

text \<open>
  \<open>ll2string\<close> prints the canonical decimal representation of every 64-bit integer, followed by a
  zero byte and two digits at a time from its table, without writing outside the buffer or past the
  terminator, and refuses exactly when the buffer is too small.
\<close>

theorem ll2string_correct:
  assumes "int64 v" and "dstlen \<le> length dst"
  shows "ll2string dst dstlen v =
     (if length (dec_int v) < dstlen
      then Some (dec_int v @ [0] @ drop (length (dec_int v) + 1) dst, length (dec_int v))
      else Some (dst, 0))"
  using assms by (rule ll2string_dec)

theorem ll2string_correct_witness:
  "ll2string (replicate 6 0) 6 (-1234) = Some ([45, 49, 50, 51, 52, 0], 5)"
proof -
  have "dec_int (-1234) = [45, 49, 50, 51, 52]" by (simp add: dec_int_def dec_nat.simps)
  then show ?thesis using ll2string_correct [of "-1234" 6 "replicate 6 0"] by (simp add: int64_def)
qed

subsection \<open>Parsing\<close>

definition digits_value :: "nat \<Rightarrow> byte list \<Rightarrow> nat" where
  "digits_value v p = foldl (\<lambda>v c. v * 10 + (unat c - 48)) v p"

lemma digits_value_simps [simp]:
  "digits_value v [] = v" "digits_value v (c # p) = digits_value (v * 10 + (unat c - 48)) p"
  by (simp_all add: digits_value_def)

lemma digits_value_snoc: "digits_value v (p @ [c]) = digits_value v p * 10 + (unat c - 48)"
  by (simp add: digits_value_def)

lemma digits_value_mono: "v \<le> digits_value v p"
proof (induction p arbitrary: v)
  case (Cons c p)
  show ?case using Cons [of "v * 10 + (unat c - 48)"] by simp
qed simp

lemma string2ll_loop_iff:
  "v \<le> 18446744073709551615 \<Longrightarrow> string2ll_loop v p = Some (w, [])
     \<longleftrightarrow> list_all is_digit p \<and> w = digits_value v p \<and> w \<le> 18446744073709551615"
proof (induction v p rule: string2ll_loop.induct)
  case (2 v c p)
  let ?v = "v * 10 + (unat c - 48)"
  show ?case
  proof (cases "is_digit c \<and> ?v \<le> 18446744073709551615")
    case True
    then show ?thesis using "2.IH" by auto
  next
    case False
    then show ?thesis using digits_value_mono [of ?v p] by (auto simp: is_digit_def)
  qed
qed auto

lemma digit_byte: "is_digit c \<Longrightarrow> 48 + word_of_nat (unat c - 48) = c"
  by (simp add: is_digit_def word_unat_eq_iff unat_word_ariths unsigned_of_nat take_bit_eq_mod)

lemma byte_digit: "n < 10 \<Longrightarrow> unat (48 + word_of_nat n :: byte) = 48 + n"
  by (simp add: unat_word_ariths unsigned_of_nat take_bit_eq_mod)

lemma dec_nat_digits_value:
  "0 < v \<Longrightarrow> list_all is_digit p \<Longrightarrow> dec_nat (digits_value v p) = dec_nat v @ p"
proof (induction p rule: rev_induct)
  case (snoc c p)
  let ?v = "digits_value v p" and ?d = "unat c - 48"
  have d: "?d < 10" and c: "is_digit c" using snoc.prems by (auto simp: is_digit_def)
  have "0 < ?v" using digits_value_mono [of v p] snoc.prems(1) by linarith
  then have "?v * 10 + ?d \<ge> 10" by simp
  then have "dec_nat (?v * 10 + ?d) = dec_nat ?v @ [48 + word_of_nat ?d]"
    using d dec_nat_snoc [of "?v * 10 + ?d"] by simp
  then show ?case using snoc digit_byte [OF c] by (simp add: digits_value_snoc)
qed simp

lemma dec_nat_head:
  "0 < n \<Longrightarrow> \<exists>c p. dec_nat n = c # p \<and> 49 \<le> unat c \<and> unat c \<le> 57 \<and> list_all is_digit p \<and> digits_value (unat c - 48) p = n"
proof (induction n rule: dec_nat.induct)
  case (1 n)
  show ?case
  proof (cases "n < 10")
    case True
    then show ?thesis using 1 by (simp add: dec_nat_small byte_digit)
  next
    case False
    then have "0 < n div 10" by (simp add: div_greater_zero_iff)
    then obtain c p where cp: "dec_nat (n div 10) = c # p" "49 \<le> unat c" "unat c \<le> 57" "list_all is_digit p"
        "digits_value (unat c - 48) p = n div 10" using 1 False by auto
    have "is_digit (48 + word_of_nat (n mod 10))" using byte_digit [of "n mod 10"] by (simp add: is_digit_def)
    then show ?thesis using False cp byte_digit [of "n mod 10"]
      by (intro exI [of _ c] exI [of _ "p @ [48 + word_of_nat (n mod 10)]"])
        (simp add: dec_nat_snoc digits_value_snoc)
  qed
qed

lemma dec_nat_0 [simp]: "dec_nat 0 = [48]"
  by (simp add: dec_nat_small)

text \<open>
  The digits of a positive number, as the parser sees them.\<close>

lemma parse_digits:
  "(p \<noteq> [] \<and> 49 \<le> unat (hd p) \<and> unat (hd p) \<le> 57 \<and> string2ll_loop (unat (hd p) - 48) (tl p) = Some (n, []))
     \<longleftrightarrow> 0 < n \<and> n \<le> 18446744073709551615 \<and> p = dec_nat n" (is "?L \<longleftrightarrow> ?R")
proof
  assume L: ?L
  then obtain c q where p: "p = c # q" by (cases p) auto
  have c: "is_digit c" "0 < unat c - 48" "unat c - 48 \<le> 18446744073709551615" using L p by (auto simp: is_digit_def)
  then have q: "list_all is_digit q" "n = digits_value (unat c - 48) q" "n \<le> 18446744073709551615"
    using L p string2ll_loop_iff by auto
  have "unat c - 48 < 10" using c(1) by (auto simp: is_digit_def)
  then have "dec_nat (unat c - 48) = [c]" unfolding dec_nat_small [OF \<open>unat c - 48 < 10\<close>] digit_byte [OF c(1)] by simp
  then show ?R using q dec_nat_digits_value [OF c(2) q(1)] digits_value_mono [of "unat c - 48" q] c(2) p by auto
next
  assume R: ?R
  then obtain c q where "dec_nat n = c # q" "49 \<le> unat c" "unat c \<le> 57" "list_all is_digit q" "digits_value (unat c - 48) q = n"
    using dec_nat_head by blast
  then show ?L using R string2ll_loop_iff [of "unat c - 48" q n] by auto
qed

lemma dec_nat_eq_zero: "dec_nat n = [48] \<longleftrightarrow> n = 0"
  using dec_nat_head [of n] by (cases "n = 0") auto

lemma dec_nat_no_minus: "dec_nat n \<noteq> 45 # p"
  using dec_nat_head [of n] by (cases "n = 0") auto

lemma dec_int_minus: "dec_int v = 45 # p \<longleftrightarrow> v < 0 \<and> p = dec_nat (nat (- v))"
  using dec_nat_no_minus by (auto simp: dec_int_def)

lemma parse_digits_bind:
  "do { require (p \<noteq> []);
        require (49 \<le> unat (hd p) \<and> unat (hd p) \<le> 57);
        (n, rest) \<leftarrow> string2ll_loop (unat (hd p) - 48) (tl p);
        require (rest = []);
        k n } = Some v
     \<longleftrightarrow> (\<exists>n. 0 < n \<and> n \<le> 18446744073709551615 \<and> p = dec_nat n \<and> k n = Some v)" (is "?P = Some v \<longleftrightarrow> _")
proof -
  have "?P = Some v \<longleftrightarrow> (\<exists>n. (p \<noteq> [] \<and> 49 \<le> unat (hd p) \<and> unat (hd p) \<le> 57
      \<and> string2ll_loop (unat (hd p) - 48) (tl p) = Some (n, [])) \<and> k n = Some v)"
    by (auto simp: require_def bind_eq_Some_conv split: if_splits)
  then show ?thesis unfolding parse_digits by simp
qed

lemma string2ll_canonical: "string2ll s = Some v \<longleftrightarrow> int64 v \<and> s = dec_int v"
proof -
  consider "s = []" | "s = [48]" | p where "s = 45 # p" | "s \<noteq> []" "s \<noteq> [48]" "hd s \<noteq> 45" by (cases s) auto
  then show ?thesis
  proof cases
    case 1
    then show ?thesis using dec_nat_head [of "nat v"] by (cases "v = 0") (auto simp: string2ll_def dec_int_def)
  next
    case 2
    have "dec_int v = [48] \<longleftrightarrow> v = 0" using dec_nat_eq_zero [of "nat v"] by (auto simp: dec_int_def)
    then show ?thesis using 2 by (auto simp: string2ll_def int64_def)
  next
    case (3 p)
    then have "string2ll s = Some v \<longleftrightarrow> (\<exists>n. 0 < n \<and> n \<le> 18446744073709551615 \<and> p = dec_nat n
        \<and> do { require (n \<le> 9223372036854775808); Some (- int n) } = Some v)"
      unfolding parse_digits_bind [symmetric] by (simp add: string2ll_def)
    also have "\<dots> \<longleftrightarrow> int64 v \<and> v < 0 \<and> p = dec_nat (nat (- v))"
      by (auto simp: int64_def require_def bind_eq_Some_conv intro!: exI [of _ "nat (- v)"])
    finally show ?thesis using 3 dec_int_minus [of v p] by auto
  next
    case 4
    then have "string2ll s = Some v \<longleftrightarrow> (\<exists>n. 0 < n \<and> n \<le> 18446744073709551615 \<and> s = dec_nat n
        \<and> do { require (n \<le> 9223372036854775807); Some (int n) } = Some v)"
      unfolding parse_digits_bind [symmetric] by (cases s) (auto simp: string2ll_def)
    also have "\<dots> \<longleftrightarrow> int64 v \<and> 0 < v \<and> s = dec_nat (nat v)"
      by (auto simp: int64_def require_def bind_eq_Some_conv intro!: exI [of _ "nat v"])
    also have "\<dots> \<longleftrightarrow> int64 v \<and> s = dec_int v"
      using 4 by (cases "v = 0") (auto simp: dec_int_def)
    finally show ?thesis .
  qed
qed

text \<open>
  C38: \<open>string2ll\<close> accepts exactly the canonical decimal representations of the 64-bit integers (no
  spaces, no leading zeroes, no \<open>-0\<close>, no overflow) and returns the number represented.
\<close>

theorem string2ll_iff: "string2ll s = Some v \<longleftrightarrow> int64 v \<and> s = dec_int v"
  by (rule string2ll_canonical)

end
