(* ===== verification/Glob.thy ===== *)
theory Glob
  imports Redis_Prelude "HOL-Library.Sublist"
begin

text \<open>
  Glob-style matching, \<open>stringmatchlen\<close> of \<open>src/redis-6.2.0/src/util.c\<close>.  The pattern is a buffer with a
  position and the length the program keeps in \<open>patternLen\<close>; the program reads one byte past that
  length and relies on a terminator there, so a read outside the buffer is \<open>None\<close>.  The string is
  the list of the bytes left of it.  \<open>char\<close> is signed.
\<close>

section \<open>Model\<close>

definition tolower :: "int \<Rightarrow> int" where
  "tolower c = (if 65 \<le> c \<and> c \<le> 90 then c + 32 else c)"

definition rd :: "byte list \<Rightarrow> nat \<Rightarrow> byte option" where
  "rd P i = (if i < length P then Some (P ! i) else None)"

definition char_match :: "bool \<Rightarrow> byte \<Rightarrow> byte \<Rightarrow> bool" where
  "char_match nocase a b = (if \<not> nocase then a = b else tolower (sint a) = tolower (sint b))"

definition range_match :: "bool \<Rightarrow> byte \<Rightarrow> byte \<Rightarrow> byte \<Rightarrow> bool" where
  "range_match nocase lo hi ch =
     (let start = sint lo; fin = sint hi; c = sint ch;
          (start, fin) = (if start > fin then (fin, start) else (start, fin));
          (start, fin, c) = (if nocase then (tolower start, tolower fin, tolower c) else (start, fin, c))
      in start \<le> c \<and> c \<le> fin)"

text \<open>The loop over a bracket expression, up to its closing bracket or the end of the pattern.\<close>

function bracket_loop :: "byte list \<Rightarrow> nat \<Rightarrow> int \<Rightarrow> bool \<Rightarrow> byte \<Rightarrow> bool \<Rightarrow> (nat \<times> int \<times> bool) option" where
  "bracket_loop P p plen nocase ch m = do {
     c \<leftarrow> rd P p;
     if c = 92 \<and> plen \<ge> 2 then do {
       e \<leftarrow> rd P (p + 1);
       bracket_loop P (p + 2) (plen - 2) nocase ch (m \<or> e = ch)
     }
     else if c = 93 then Some (p, plen, m)
     else if plen = 0 then Some (p - 1, plen + 1, m)
     else do {
       range \<leftarrow> (if plen \<ge> 3 then do { d \<leftarrow> rd P (p + 1); Some (d = 45) } else Some False);
       if range then do {
         e \<leftarrow> rd P (p + 2);
         bracket_loop P (p + 3) (plen - 3) nocase ch (m \<or> range_match nocase c e ch)
       }
       else bracket_loop P (p + 1) (plen - 1) nocase ch (m \<or> char_match nocase c ch)
     }
   }"
  by pat_completeness auto
termination
  by (relation "measure (\<lambda>(P, p, _). length P - p)") (auto simp: rd_def split: if_splits)

declare bracket_loop.simps [simp del]

text \<open>
  One element of the pattern against one character: \<open>None\<close> inside is the early \<open>return 0\<close>, otherwise the
  position and length after the element.
\<close>

definition match_one :: "byte list \<Rightarrow> nat \<Rightarrow> int \<Rightarrow> byte \<Rightarrow> bool \<Rightarrow> (nat \<times> int) option option" where
  "match_one P p plen ch nocase = do {
     c \<leftarrow> rd P p;
     if c = 63 then Some (Some (p + 1, plen - 1))
     else if c = 91 then do {
       let (p, plen) = (p + 1, plen - 1);
       d \<leftarrow> rd P p;
       let neg = (d = 94);
       let (p, plen) = (if neg then (p + 1, plen - 1) else (p, plen));
       (p, plen, m) \<leftarrow> bracket_loop P p plen nocase ch False;
       if (if neg then \<not> m else m) then Some (Some (p + 1, plen - 1)) else Some None
     }
     else do {
       let (p, plen) = (if c = 92 \<and> plen \<ge> 2 then (p + 1, plen - 1) else (p, plen));
       c \<leftarrow> rd P p;
       if char_match nocase c ch then Some (Some (p + 1, plen - 1)) else Some None
     }
   }"

function skip_stars :: "byte list \<Rightarrow> nat \<Rightarrow> int \<Rightarrow> (nat \<times> int) option" where
  "skip_stars P p plen =
     (if plen \<noteq> 0 then do {
        d \<leftarrow> rd P (p + 1);
        if d = 42 then skip_stars P (p + 1) (plen - 1) else Some (p, plen)
      }
      else Some (p, plen))"
  by pat_completeness auto
termination
  by (relation "measure (\<lambda>(P, p, _). length P - p)") (auto simp: rd_def split: if_splits)

declare skip_stars.simps [simp del]

function trailing_stars :: "byte list \<Rightarrow> nat \<Rightarrow> int \<Rightarrow> (nat \<times> int) option" where
  "trailing_stars P p plen = do {
     c \<leftarrow> rd P p;
     if c = 42 then trailing_stars P (p + 1) (plen - 1) else Some (p, plen)
   }"
  by pat_completeness auto
termination
  by (relation "measure (\<lambda>(P, p, _). length P - p)") (auto simp: rd_def split: if_splits)

declare trailing_stars.simps [simp del]

lemma skip_stars_mono: "skip_stars P p plen = Some (p', plen') \<Longrightarrow> p \<le> p'"
proof (induction P p plen rule: skip_stars.induct)
  case (1 P p plen)
  then show ?case by (subst (asm) skip_stars.simps) (auto split: if_splits bind_splits)
qed

function stringmatchlen :: "byte list \<Rightarrow> nat \<Rightarrow> int \<Rightarrow> byte list \<Rightarrow> bool \<Rightarrow> bool option"
  and star_loop :: "byte list \<Rightarrow> nat \<Rightarrow> int \<Rightarrow> byte list \<Rightarrow> bool \<Rightarrow> bool option" where
  "stringmatchlen P p plen s nocase =
     (if plen \<noteq> 0 \<and> s \<noteq> [] then
        (case rd P p of
           None \<Rightarrow> None
         | Some c \<Rightarrow>
             if c = 42 then
               (case skip_stars P p plen of
                  None \<Rightarrow> None
                | Some (p', plen') \<Rightarrow> if plen' = 1 then Some True else star_loop P p' plen' s nocase)
             else
               (case match_one P p plen (hd s) nocase of
                  None \<Rightarrow> None
                | Some None \<Rightarrow> Some False
                | Some (Some (p', plen')) \<Rightarrow>
                    if tl s = [] then map_option (\<lambda>(p'', plen''). plen'' = 0) (trailing_stars P p' plen')
                    else stringmatchlen P p' plen' (tl s) nocase))
      else Some (plen = 0 \<and> s = []))"
| "star_loop P p plen s nocase =
     (if s \<noteq> [] then
        (if p < length P then
           (case stringmatchlen P (p + 1) (plen - 1) s nocase of
              None \<Rightarrow> None
            | Some r \<Rightarrow> if r then Some True else star_loop P p plen (tl s) nocase)
         else None)
      else Some False)"
  by pat_completeness auto
termination
  by (relation "inv_image (less_than <*lex*> less_than <*lex*> less_than)
        (case_sum (\<lambda>(P, p, plen, s, nocase). (length s, length P - p, 1 :: nat))
                  (\<lambda>(P, p, plen, s, nocase). (length s, length P - p, 0)))")
    (auto dest: skip_stars_mono split: if_splits)

declare stringmatchlen.simps [simp del]
declare star_loop.simps [simp del]

text \<open>On C strings, which carry their terminator.\<close>

definition stringmatch :: "byte list \<Rightarrow> byte list \<Rightarrow> bool \<Rightarrow> bool option" where
  "stringmatch pattern s nocase =
     (let pat = takeWhile (\<lambda>c. c \<noteq> 0) pattern
      in stringmatchlen pattern 0 (int (length pat)) (takeWhile (\<lambda>c. c \<noteq> 0) s) nocase)"

section \<open>Specification\<close>

text \<open>A bracket expression: whether it contains the character, and the pattern after it.\<close>

fun glob_class :: "bool \<Rightarrow> byte \<Rightarrow> byte list \<Rightarrow> bool \<Rightarrow> bool \<times> byte list" where
  "glob_class nocase ch [] m = (m, [])"
| "glob_class nocase ch (c # ps) m =
     (if c = 92 \<and> ps \<noteq> [] then glob_class nocase ch (tl ps) (m \<or> hd ps = ch)
      else if c = 93 then (m, ps)
      else if length ps \<ge> 2 \<and> hd ps = 45
      then glob_class nocase ch (tl (tl ps)) (m \<or> range_match nocase c (hd (tl ps)) ch)
      else glob_class nocase ch ps (m \<or> char_match nocase c ch))"

lemma glob_class_length: "length (snd (glob_class nocase ch ps m)) \<le> length ps"
proof (induction nocase ch ps m rule: glob_class.induct)
  case (2 nocase ch c ps m)
  then show ?case by (cases ps) (auto simp: le_SucI)
qed simp

text \<open>
  The meaning of a pattern: \<open>*\<close> stands for any string, \<open>?\<close> for any character, a bracket expression for
  one character of the set or, after \<open>^\<close>, of its complement, and everything else for itself.
\<close>

function glob :: "bool \<Rightarrow> byte list \<Rightarrow> byte list \<Rightarrow> bool" where
  "glob nocase [] s \<longleftrightarrow> s = []"
| "glob nocase (c # ps) s \<longleftrightarrow>
     (if c = 42 then list_ex (\<lambda>t. glob nocase ps t) (suffixes s)
      else if s = [] then False
      else if c = 63 then glob nocase ps (tl s)
      else if c = 91 then
        (let neg = (ps \<noteq> [] \<and> hd ps = 94);
             (m, rest) = glob_class nocase (hd s) (if neg then tl ps else ps) False
         in m \<noteq> neg \<and> glob nocase rest (tl s))
      else if c = 92 \<and> ps \<noteq> [] then char_match nocase (hd ps) (hd s) \<and> glob nocase (tl ps) (tl s)
      else char_match nocase c (hd s) \<and> glob nocase ps (tl s))"
  by pat_completeness auto
termination
proof (relation "measure (\<lambda>(nocase, ps, s). length ps)", goal_cases)
  case (4 nocase c ps s x x' m rest)
  then show ?case using glob_class_length [of nocase "hd s" "if x then tl ps else ps" False]
    by (auto simp: prod_eq_iff split: if_splits)
qed auto

section \<open>The matcher implements the specification\<close>

lemma rd_pat [simp]: "p < length pat \<Longrightarrow> rd (pat @ [0]) p = Some (pat ! p)"
  by (simp add: rd_def nth_append)

lemma rd_end [simp]: "rd (pat @ [0]) (length pat) = Some 0"
  by (simp add: rd_def)

lemma drop_nth: "p < length pat \<Longrightarrow> drop p pat = pat ! p # drop (Suc p) pat"
  by (rule Cons_nth_drop_Suc [symmetric])

lemma bracket_loop_correct:
  assumes "0 < p" and "p \<le> length pat"
  shows "\<exists>q < length pat. bracket_loop (pat @ [0]) p (int (length pat) - int p) nocase ch m
       = Some (q, int (length pat) - int q, fst (glob_class nocase ch (drop p pat) m))
     \<and> snd (glob_class nocase ch (drop p pat) m) = drop (Suc q) pat"
  using assms
proof (induction "length pat - p" arbitrary: p m rule: less_induct)
  case less
  show ?case
  proof (cases "p = length pat")
    case True
    then show ?thesis using less.prems by (subst bracket_loop.simps) (auto intro!: exI [of _ "length pat - 1"] simp: of_nat_diff Suc_leI)
  next
    case False
    then have p: "p < length pat" using less.prems by simp
    let ?n = "int (length pat)" and ?c = "pat ! p"
    have tl: "drop (Suc p) pat \<noteq> [] \<longleftrightarrow> ?n - int p \<ge> 2" "length (drop (Suc p) pat) \<ge> 2 \<longleftrightarrow> ?n - int p \<ge> 3"
      using p by auto
    consider (esc) "?c = 92" "?n - int p \<ge> 2" | (close) "?c = 93"
      | (range) "\<not> (?c = 92 \<and> ?n - int p \<ge> 2)" "?c \<noteq> 93" "?n - int p \<ge> 3" "pat ! (p + 1) = 45"
      | (single) "\<not> (?c = 92 \<and> ?n - int p \<ge> 2)" "?c \<noteq> 93" "\<not> (?n - int p \<ge> 3 \<and> pat ! (p + 1) = 45)" by blast
    then show ?thesis
    proof cases
      case esc
      then show ?thesis
        using less.hyps [of "p + 2" "m \<or> pat ! (p + 1) = ch"] p tl(1)
        by (subst (1) bracket_loop.simps) (simp add: drop_nth [OF p] drop_nth [of "Suc p"] algebra_simps del: drop_eq_Nil)
    next
      case close
      then show ?thesis using p tl by (subst bracket_loop.simps) (auto simp: drop_nth [OF p])
    next
      case range
      then show ?thesis
        using less.hyps [of "p + 3" "m \<or> range_match nocase ?c (pat ! (p + 2)) ch"] p tl
        by (subst (1) bracket_loop.simps)
          (simp add: drop_nth [OF p] drop_nth [of "Suc p"] drop_nth [of "Suc (Suc p)"] numeral_3_eq_3 algebra_simps del: drop_eq_Nil)
    next
      case single
      then show ?thesis
        using less.hyps [of "p + 1" "m \<or> char_match nocase ?c ch"] p tl
        by (subst (1) bracket_loop.simps) (auto simp: drop_nth [OF p] hd_drop_conv_nth algebra_simps)
    qed
  qed
qed

lemma bracket_not_any: "(91 :: byte) \<noteq> 63"
  by simp

lemma match_one_correct:
  assumes p: "p < length pat" and nostar: "pat ! p \<noteq> 42"
  shows "\<exists>r. match_one (pat @ [0]) p (int (length pat) - int p) ch nocase = Some r
     \<and> (case r of None \<Rightarrow> \<forall>s. \<not> glob nocase (drop p pat) (ch # s)
        | Some (q, n) \<Rightarrow> q \<le> length pat \<and> n = int (length pat) - int q
            \<and> (\<forall>s. glob nocase (drop p pat) (ch # s) = glob nocase (drop q pat) s))"
proof -
  let ?c = "pat ! p" and ?n = "int (length pat)"
  have tl: "drop (Suc p) pat \<noteq> [] \<longleftrightarrow> ?n - int p \<ge> 2" using p by auto
  consider (any) "?c = 63" | (set) "?c = 91" | (esc) "?c = 92" "Suc p < length pat"
    | (lit) "?c \<noteq> 63" "?c \<noteq> 91" "\<not> (?c = 92 \<and> Suc p < length pat)" by blast
  then show ?thesis
  proof cases
    case any
    then show ?thesis using p by (auto simp: match_one_def drop_nth [OF p])
  next
    case set
    define neg where "neg \<longleftrightarrow> Suc p < length pat \<and> pat ! Suc p = 94"
    define p' where "p' = (if neg then Suc (Suc p) else Suc p)"
    have p': "0 < p'" "p' \<le> length pat" using p by (auto simp: p'_def neg_def)
    obtain q where q: "q < length pat" and br: "bracket_loop (pat @ [0]) p' (?n - int p') nocase ch False
         = Some (q, ?n - int q, fst (glob_class nocase ch (drop p' pat) False))"
      and rest: "snd (glob_class nocase ch (drop p' pat) False) = drop (Suc q) pat"
      using bracket_loop_correct [OF p'] by blast
    define m where "m = fst (glob_class nocase ch (drop p' pat) False)"
    obtain d where d: "rd (pat @ [0]) (Suc p) = Some d" "d = 94 \<longleftrightarrow> neg"
      using p by (cases "Suc p < length pat") (auto simp: neg_def le_less_Suc_eq Suc_leI dest!: Suc_lessI)
    have "match_one (pat @ [0]) p (?n - int p) ch nocase
        = Some (if m \<noteq> neg then Some (q + 1, ?n - int (q + 1)) else None)"
      using set p d br by (cases neg) (simp_all add: match_one_def p'_def m_def algebra_simps bracket_not_any del: word_eq_numeral_iff_iszero)
    moreover have "glob nocase (drop p pat) (ch # s) \<longleftrightarrow> m \<noteq> neg \<and> glob nocase (drop (Suc q) pat) s" for s
    proof -
      have "(drop (Suc p) pat \<noteq> [] \<and> hd (drop (Suc p) pat) = 94) = neg"
        by (auto simp: neg_def hd_drop_conv_nth)
      moreover have "(if neg then tl (drop (Suc p) pat) else drop (Suc p) pat) = drop p' pat"
        by (simp add: p'_def drop_Suc tl_drop)
      moreover have "glob_class nocase ch (drop p' pat) False = (m, drop (Suc q) pat)"
        using rest by (simp add: m_def prod_eq_iff)
      ultimately show ?thesis using set by (simp add: drop_nth [OF p])
    qed
    ultimately show ?thesis using q by (intro exI [of _ "if m \<noteq> neg then Some (q + 1, ?n - int (q + 1)) else None"]) auto
  next
    case esc
    let ?r = "if char_match nocase (pat ! Suc p) ch then Some (Suc (Suc p), ?n - int (Suc (Suc p))) else None"
    have "match_one (pat @ [0]) p (?n - int p) ch nocase = Some ?r"
      using esc p by (simp add: match_one_def)
    moreover have "glob nocase (drop p pat) (ch # s) \<longleftrightarrow> char_match nocase (pat ! Suc p) ch \<and> glob nocase (drop (Suc (Suc p)) pat) s" for s
      using esc by (simp add: drop_nth [OF p] drop_nth [OF esc(2)])
    ultimately show ?thesis using esc(2) by (intro exI [of _ ?r]) auto
  next
    case lit
    let ?r = "if char_match nocase ?c ch then Some (Suc p, ?n - int (Suc p)) else None"
    have "match_one (pat @ [0]) p (?n - int p) ch nocase = Some ?r"
      using lit p tl nostar by (auto simp: match_one_def)
    moreover have "glob nocase (drop p pat) (ch # s) \<longleftrightarrow> char_match nocase ?c ch \<and> glob nocase (drop (Suc p) pat) s" for s
      using lit tl nostar by (auto simp: drop_nth [OF p])
    ultimately show ?thesis using p by (intro exI [of _ ?r]) auto
  qed
qed

lemma glob_star_star: "glob nocase (42 # 42 # ps) s = glob nocase (42 # ps) s"
  by (auto simp: list_ex_iff)

lemma skip_stars_correct:
  assumes "p < length pat" and "pat ! p = 42"
  shows "\<exists>q < length pat. skip_stars (pat @ [0]) p (int (length pat) - int p) = Some (q, int (length pat) - int q)
     \<and> pat ! q = 42 \<and> (Suc q < length pat \<longrightarrow> pat ! Suc q \<noteq> 42)
     \<and> (\<forall>s. glob nocase (drop p pat) s = glob nocase (drop q pat) s)"
  using assms
proof (induction "length pat - p" arbitrary: p rule: less_induct)
  case less
  note p = less.prems(1)
  show ?case
  proof (cases "Suc p < length pat")
    case last: False
    then have "Suc p = length pat" using p by simp
    then show ?thesis using less.prems by (subst skip_stars.simps) (auto simp: rd_def nth_append)
  next
    case True
    show ?thesis
    proof (cases "pat ! Suc p = 42")
      case False
      then show ?thesis using True less.prems by (subst skip_stars.simps) auto
    next
      case star: True
      have "glob nocase (drop p pat) s = glob nocase (drop (Suc p) pat) s" for s
        using glob_star_star less.prems star by (simp only: drop_nth [OF p] drop_nth [OF True])
      moreover have "skip_stars (pat @ [0]) p (int (length pat) - int p) = skip_stars (pat @ [0]) (Suc p) (int (length pat) - int (Suc p))"
        using True star p by (subst skip_stars.simps) (simp add: algebra_simps)
      ultimately show ?thesis using less.hyps [of "Suc p"] True star by auto
    qed
  qed
qed

lemma trailing_stars_correct:
  assumes "p \<le> length pat"
  shows "\<exists>q n. trailing_stars (pat @ [0]) p (int (length pat) - int p) = Some (q, n) \<and> (n = 0 \<longleftrightarrow> glob nocase (drop p pat) [])"
  using assms
proof (induction "length pat - p" arbitrary: p rule: less_induct)
  case less
  show ?case
  proof (cases "p < length pat")
    case False
    then show ?thesis using less.prems by (subst trailing_stars.simps) (simp add: rd_def nth_append)
  next
    case p: True
    show ?thesis
    proof (cases "pat ! p = 42")
      case True
      then have "trailing_stars (pat @ [0]) p (int (length pat) - int p) = trailing_stars (pat @ [0]) (Suc p) (int (length pat) - int (Suc p))"
        using p by (subst trailing_stars.simps) (simp add: algebra_simps)
      then show ?thesis using less.hyps [of "Suc p"] p True by (simp add: drop_nth [OF p])
    next
      case False
      then show ?thesis using p by (subst trailing_stars.simps) (simp add: drop_nth [OF p])
    qed
  qed
qed

lemma stringmatchlen_one:
  assumes p: "p < length pat" "pat ! p \<noteq> 42"
    and IH: "\<And>q. s \<noteq> [] \<Longrightarrow> q \<le> length pat
      \<Longrightarrow> stringmatchlen (pat @ [0]) q (int (length pat) - int q) s nocase = Some (glob nocase (drop q pat) s)"
  shows "stringmatchlen (pat @ [0]) p (int (length pat) - int p) (ch # s) nocase = Some (glob nocase (drop p pat) (ch # s))"
proof -
  obtain r where r: "match_one (pat @ [0]) p (int (length pat) - int p) ch nocase = Some r"
    and g: "case r of None \<Rightarrow> \<forall>s. \<not> glob nocase (drop p pat) (ch # s)
        | Some (q, n) \<Rightarrow> q \<le> length pat \<and> n = int (length pat) - int q
            \<and> (\<forall>s. glob nocase (drop p pat) (ch # s) = glob nocase (drop q pat) s)"
    using match_one_correct [OF p] by blast
  show ?thesis
  proof (cases r)
    case None
    then show ?thesis using p r g by (subst stringmatchlen.simps) simp
  next
    case (Some qn)
    then obtain q where q: "r = Some (q, int (length pat) - int q)" "q \<le> length pat"
        "\<And>s. glob nocase (drop p pat) (ch # s) = glob nocase (drop q pat) s" using g by (cases qn) auto
    obtain q' n' where "trailing_stars (pat @ [0]) q (int (length pat) - int q) = Some (q', n')" "n' = 0 \<longleftrightarrow> glob nocase (drop q pat) []"
      using trailing_stars_correct [OF q(2)] by blast
    then show ?thesis using p r q IH [of q] by (subst stringmatchlen.simps) simp
  qed
qed

lemma glob_not_empty: "p < length pat \<Longrightarrow> pat ! p \<noteq> 42 \<Longrightarrow> \<not> glob nocase (drop p pat) []"
  by (simp add: drop_nth)

lemma stringmatchlen_suffix:
  "(s \<noteq> [] \<longrightarrow> (\<forall>p \<le> length pat. stringmatchlen (pat @ [0]) p (int (length pat) - int p) s nocase = Some (glob nocase (drop p pat) s)))
   \<and> (\<forall>p. Suc p < length pat \<and> pat ! p = 42 \<and> pat ! Suc p \<noteq> 42
        \<longrightarrow> star_loop (pat @ [0]) p (int (length pat) - int p) s nocase = Some (glob nocase (drop p pat) s))"
proof (induction s)
  case Nil
  show ?case
  proof (intro conjI impI allI)
    fix p assume p: "Suc p < length pat \<and> pat ! p = 42 \<and> pat ! Suc p \<noteq> 42"
    then show "star_loop (pat @ [0]) p (int (length pat) - int p) [] nocase = Some (glob nocase (drop p pat) [])"
      using glob_not_empty [of "Suc p"] by (subst star_loop.simps) (simp add: drop_nth [of p])
  qed simp
next
  case (Cons ch s)
  have star: "star_loop (pat @ [0]) p (int (length pat) - int p) (ch # s) nocase = Some (glob nocase (drop p pat) (ch # s))"
    if p: "Suc p < length pat" "pat ! p = 42" "pat ! Suc p \<noteq> 42" for p
  proof -
    have "stringmatchlen (pat @ [0]) (Suc p) (int (length pat) - int (Suc p)) (ch # s) nocase = Some (glob nocase (drop (Suc p) pat) (ch # s))"
      using p Cons.IH by (intro stringmatchlen_one) auto
    moreover have "star_loop (pat @ [0]) p (int (length pat) - int p) s nocase = Some (glob nocase (drop p pat) s)"
      using p Cons.IH by blast
    ultimately show ?thesis using p by (subst star_loop.simps) (simp add: drop_nth [of p] algebra_simps)
  qed
  have "stringmatchlen (pat @ [0]) p (int (length pat) - int p) (ch # s) nocase = Some (glob nocase (drop p pat) (ch # s))"
    if p: "p \<le> length pat" for p
  proof -
    consider "p = length pat" | "p < length pat" "pat ! p \<noteq> 42" | "p < length pat" "pat ! p = 42" using p by linarith
    then show ?thesis
    proof cases
      case 1
      then show ?thesis by (subst stringmatchlen.simps) simp
    next
      case 2
      then show ?thesis using Cons.IH by (intro stringmatchlen_one) auto
    next
      case 3
      obtain q where q: "q < length pat" "skip_stars (pat @ [0]) p (int (length pat) - int p) = Some (q, int (length pat) - int q)"
        "pat ! q = 42" "Suc q < length pat \<Longrightarrow> pat ! Suc q \<noteq> 42"
        "\<And>s. glob nocase (drop p pat) s = glob nocase (drop q pat) s"
        using skip_stars_correct [OF 3] by blast
      show ?thesis
      proof (cases "Suc q < length pat")
        case True
        then show ?thesis using 3 q star [OF True q(3)] by (subst stringmatchlen.simps) simp
      next
        case False
        then have n: "Suc q = length pat" using q(1) by simp
        then have "glob nocase (drop q pat) (ch # s)" using q by (simp add: drop_nth [of q] list_ex_iff)
        then show ?thesis using 3 q n by (subst stringmatchlen.simps) simp
      qed
    qed
  qed
  then show ?case using star by blast
qed


text \<open>
  The pattern made of one star, which should match everything, does not match the empty string.\<close>

theorem stringmatchlen_star_empty: "stringmatchlen [42, 0] 0 1 [] False = Some False \<and> glob False [42] []"
  by (subst stringmatchlen.simps) simp

end
