(* ===== verification/Sds.thy ===== *)
theory Sds
  imports Redis_Prelude
begin

text \<open>
  Simple dynamic strings, \<open>src/redis-6.2.0/src/sds.c\<close> and \<open>sds.h\<close>.  A string is its header (type, and
  the length and allocation fields, which are stored truncated to the width of the type) and the
  bytes from the start of the text to the end of the heap block.  The allocator is described by
  the number of usable bytes of a block as a function of the number requested (\<open>usable\<close>) and by the
  contents of new memory (\<open>fresh\<close>); \<open>s_malloc\<close> and \<open>s_realloc\<close> do not return when memory is exhausted,
  \<open>s_trymalloc\<close> may fail.  \<open>None\<close> is an access outside the block or a failed assertion.
\<close>

section \<open>Model: headers\<close>

datatype sds_type = SDS_TYPE_5 | SDS_TYPE_8 | SDS_TYPE_16 | SDS_TYPE_32 | SDS_TYPE_64

record sds =
  s_type :: sds_type
  s_len :: nat
  s_alloc :: nat
  s_buf :: "byte list"

primrec sdsHdrSize :: "sds_type \<Rightarrow> nat" where
  "sdsHdrSize SDS_TYPE_5 = 1"
| "sdsHdrSize SDS_TYPE_8 = 3"
| "sdsHdrSize SDS_TYPE_16 = 5"
| "sdsHdrSize SDS_TYPE_32 = 9"
| "sdsHdrSize SDS_TYPE_64 = 17"

definition sdsReqType :: "nat \<Rightarrow> sds_type" where
  "sdsReqType n =
     (if n < 32 then SDS_TYPE_5
      else if n < 256 then SDS_TYPE_8
      else if n < 65536 then SDS_TYPE_16
      else if n < 4294967296 then SDS_TYPE_32
      else SDS_TYPE_64)"

primrec sdsTypeMaxSize :: "sds_type \<Rightarrow> nat" where
  "sdsTypeMaxSize SDS_TYPE_5 = 31"
| "sdsTypeMaxSize SDS_TYPE_8 = 255"
| "sdsTypeMaxSize SDS_TYPE_16 = 65535"
| "sdsTypeMaxSize SDS_TYPE_32 = 4294967295"
| "sdsTypeMaxSize SDS_TYPE_64 = 18446744073709551615"

definition sdslen :: "sds \<Rightarrow> nat" where
  "sdslen s = s_len s"

text \<open>\<open>alloc - len\<close> is computed in a wider type and returned as \<open>size_t\<close>.\<close>

definition sdsavail :: "sds \<Rightarrow> nat" where
  "sdsavail s = (if s_type s = SDS_TYPE_5 then 0
     else (s_alloc s + 18446744073709551616 - s_len s) mod 18446744073709551616)"

definition sdsalloc :: "sds \<Rightarrow> nat" where
  "sdsalloc s = (if s_type s = SDS_TYPE_5 then s_len s else s_alloc s)"

text \<open>The fields are truncated to the width of the header.\<close>

definition sdssetlen :: "sds \<Rightarrow> nat \<Rightarrow> sds" where
  "sdssetlen s newlen = s\<lparr>s_len := newlen mod (sdsTypeMaxSize (s_type s) + 1)\<rparr>"

definition sdssetalloc :: "sds \<Rightarrow> nat \<Rightarrow> sds" where
  "sdssetalloc s newlen = (if s_type s = SDS_TYPE_5 then s
     else s\<lparr>s_alloc := newlen mod (sdsTypeMaxSize (s_type s) + 1)\<rparr>)"

definition sdsinclen :: "sds \<Rightarrow> nat \<Rightarrow> sds" where
  "sdsinclen s inc = sdssetlen s (s_len s + inc)"

text \<open>A store to the text.\<close>

definition sds_write :: "sds \<Rightarrow> nat \<Rightarrow> byte list \<Rightarrow> sds option" where
  "sds_write s off bs = map_option (\<lambda>b. s\<lparr>s_buf := b\<rparr>) (mem_write (s_buf s) off bs)"

section \<open>Model: creation\<close>

datatype sds_init = NoInit | ZeroInit | Bytes "byte list"

definition sds_usable :: "sds_type \<Rightarrow> nat \<Rightarrow> nat" where
  "sds_usable type n = min (n - sdsHdrSize type - 1) (sdsTypeMaxSize type)"

text \<open>
  \<open>ok\<close> says whether the allocation succeeds (always, unless \<open>trymalloc\<close>); the inner \<open>None\<close> is the null
  result.  \<open>Bytes bs\<close> is an initial text of at least \<open>initlen\<close> bytes.
\<close>

definition sdsnewlen_gen :: "(nat \<Rightarrow> byte) \<Rightarrow> (nat \<Rightarrow> nat) \<Rightarrow> bool \<Rightarrow> sds_init \<Rightarrow> nat \<Rightarrow> sds option option" where
  "sdsnewlen_gen fresh usable ok init initlen = do {
     let type = sdsReqType initlen;
     let type = (if type = SDS_TYPE_5 \<and> initlen = 0 then SDS_TYPE_8 else type);
     let hdrlen = sdsHdrSize type;
     require ((initlen + hdrlen + 1) mod 18446744073709551616 > initlen);
     if \<not> ok then Some None
     else do {
       let us = usable (hdrlen + initlen + 1);
       let mem = map (\<lambda>i. if init = ZeroInit \<and> i < initlen + 1 then 0 else fresh i) [0..<us - hdrlen];
       let s = \<lparr>s_type = type, s_len = 0, s_alloc = 0, s_buf = mem\<rparr>;
       let s = sdssetalloc (sdssetlen s initlen) (sds_usable type us);
       s \<leftarrow> (case init of Bytes bs \<Rightarrow> do { require (initlen \<le> length bs); sds_write s 0 (take initlen bs) } | _ \<Rightarrow> Some s);
       s \<leftarrow> sds_write s initlen [0];
       Some (Some s)
     }
   }"

definition sdsnewlen :: "(nat \<Rightarrow> byte) \<Rightarrow> (nat \<Rightarrow> nat) \<Rightarrow> sds_init \<Rightarrow> nat \<Rightarrow> sds option" where
  "sdsnewlen fresh usable init initlen = Option.bind (sdsnewlen_gen fresh usable True init initlen) id"

definition sdstrynewlen :: "(nat \<Rightarrow> byte) \<Rightarrow> (nat \<Rightarrow> nat) \<Rightarrow> bool \<Rightarrow> sds_init \<Rightarrow> nat \<Rightarrow> sds option option" where
  "sdstrynewlen fresh usable ok init initlen = sdsnewlen_gen fresh usable ok init initlen"

definition sdsempty :: "(nat \<Rightarrow> byte) \<Rightarrow> (nat \<Rightarrow> nat) \<Rightarrow> sds option" where
  "sdsempty fresh usable = sdsnewlen fresh usable (Bytes []) 0"

definition sdsnew :: "(nat \<Rightarrow> byte) \<Rightarrow> (nat \<Rightarrow> nat) \<Rightarrow> byte list option \<Rightarrow> sds option" where
  "sdsnew fresh usable init =
     (case init of
        None \<Rightarrow> sdsnewlen fresh usable ZeroInit 0
      | Some str \<Rightarrow> let t = takeWhile (\<lambda>c. c \<noteq> 0) str in sdsnewlen fresh usable (Bytes t) (length t))"

definition sdsdup :: "(nat \<Rightarrow> byte) \<Rightarrow> (nat \<Rightarrow> nat) \<Rightarrow> sds \<Rightarrow> sds option" where
  "sdsdup fresh usable s = sdsnewlen fresh usable (Bytes (s_buf s)) (sdslen s)"

definition sdsclear :: "sds \<Rightarrow> sds option" where
  "sdsclear s = sds_write (sdssetlen s 0) 0 [0]"

definition sdsupdatelen :: "sds \<Rightarrow> sds option" where
  "sdsupdatelen s = do {
     require (0 \<in> set (s_buf s));
     Some (sdssetlen s (length (takeWhile (\<lambda>c. c \<noteq> 0) (s_buf s))))
   }"

section \<open>Model: growing and shrinking\<close>

definition SDS_MAX_PREALLOC :: nat where "SDS_MAX_PREALLOC = 1024 * 1024"

text \<open>The greedy preallocation, in \<open>size_t\<close> arithmetic.\<close>

definition sds_prealloc :: "nat \<Rightarrow> nat" where
  "sds_prealloc newlen =
     (if newlen < SDS_MAX_PREALLOC then newlen * 2 else newlen + SDS_MAX_PREALLOC) mod 18446744073709551616"

text \<open>Type 5 cannot remember free space and is not used for strings one appends to.\<close>

definition sds_append_type :: "nat \<Rightarrow> sds_type" where
  "sds_append_type newlen = (let type = sdsReqType newlen in if type = SDS_TYPE_5 then SDS_TYPE_8 else type)"

text \<open>The copy to a new block with a header of another type and room for \<open>cap\<close> bytes after it.\<close>

definition sds_move :: "(nat \<Rightarrow> byte) \<Rightarrow> sds \<Rightarrow> sds_type \<Rightarrow> nat \<Rightarrow> sds option" where
  "sds_move fresh s type cap = do {
     bs \<leftarrow> mem_read (s_buf s) 0 (sdslen s + 1);
     buf \<leftarrow> mem_write (map fresh [0..<cap]) 0 bs;
     Some (sdssetlen (s\<lparr>s_type := type, s_buf := buf\<rparr>) (sdslen s))
   }"

definition sdsMakeRoomFor :: "(nat \<Rightarrow> byte) \<Rightarrow> (nat \<Rightarrow> nat) \<Rightarrow> sds \<Rightarrow> nat \<Rightarrow> sds option" where
  "sdsMakeRoomFor fresh usable s addlen =
     (if sdsavail s \<ge> addlen then Some s
      else do {
        let len = sdslen s;
        let newlen = (len + addlen) mod 18446744073709551616;
        require (newlen > len);
        let newlen = sds_prealloc newlen;
        let type = sds_append_type newlen;
        let hdrlen = sdsHdrSize type;
        let request = (hdrlen + newlen + 1) mod 18446744073709551616;
        require (request > len);
        let us = usable request;
        s \<leftarrow> (if s_type s = type then Some (s\<lparr>s_buf := mem_resize fresh (s_buf s) (us - hdrlen)\<rparr>)
              else sds_move fresh s type (us - hdrlen));
        Some (sdssetalloc s (sds_usable type us))
      })"

definition sds_type_ord :: "sds_type \<Rightarrow> nat" where
  "sds_type_ord t = (case t of SDS_TYPE_5 \<Rightarrow> 0 | SDS_TYPE_8 \<Rightarrow> 1 | SDS_TYPE_16 \<Rightarrow> 2 | SDS_TYPE_32 \<Rightarrow> 3 | SDS_TYPE_64 \<Rightarrow> 4)"

definition sdsRemoveFreeSpace :: "(nat \<Rightarrow> byte) \<Rightarrow> (nat \<Rightarrow> nat) \<Rightarrow> sds \<Rightarrow> sds option" where
  "sdsRemoveFreeSpace fresh usable s =
     (if sdsavail s = 0 then Some s
      else do {
        let len = sdslen s;
        let type = sdsReqType len;
        let oldhdrlen = sdsHdrSize (s_type s);
        let hdrlen = sdsHdrSize type;
        s \<leftarrow> (if s_type s = type \<or> sds_type_ord type > sds_type_ord SDS_TYPE_8
              then Some (s\<lparr>s_buf := mem_resize fresh (s_buf s) (usable (oldhdrlen + len + 1) - oldhdrlen)\<rparr>)
              else sds_move fresh s type (usable (hdrlen + len + 1) - hdrlen));
        Some (sdssetalloc s len)
      })"

definition sdsAllocSize :: "sds \<Rightarrow> nat" where
  "sdsAllocSize s = sdsHdrSize (s_type s) + sdsalloc s + 1"

text \<open>Some of the comparisons cast the increment to \<open>unsigned int\<close>.\<close>

definition sdsIncrLen :: "sds \<Rightarrow> int \<Rightarrow> sds option" where
  "sdsIncrLen s incr = do {
     let room = int (s_alloc s) - int (s_len s);
     let dec = (if s_type s = SDS_TYPE_64 then - incr else (- incr) mod 4294967296);
     require (case s_type s of
         SDS_TYPE_5 \<Rightarrow> (incr > 0 \<and> int (s_len s) + incr < 32) \<or> (incr < 0 \<and> int (s_len s) \<ge> dec)
       | SDS_TYPE_32 \<Rightarrow> (incr \<ge> 0 \<and> room \<ge> incr mod 4294967296) \<or> (incr < 0 \<and> int (s_len s) \<ge> dec)
       | _ \<Rightarrow> (incr \<ge> 0 \<and> room \<ge> incr) \<or> (incr < 0 \<and> int (s_len s) \<ge> dec));
     let s = sdssetlen s (nat ((int (s_len s) + incr) mod 18446744073709551616));
     sds_write s (s_len s) [0]
   }"

definition sdsgrowzero :: "(nat \<Rightarrow> byte) \<Rightarrow> (nat \<Rightarrow> nat) \<Rightarrow> sds \<Rightarrow> nat \<Rightarrow> sds option" where
  "sdsgrowzero fresh usable s len =
     (let curlen = sdslen s in
      if len \<le> curlen then Some s
      else do {
        s \<leftarrow> sdsMakeRoomFor fresh usable s (len - curlen);
        s \<leftarrow> sds_write s curlen (replicate (len - curlen + 1) 0);
        Some (sdssetlen s len)
      })"

definition sdscatlen :: "(nat \<Rightarrow> byte) \<Rightarrow> (nat \<Rightarrow> nat) \<Rightarrow> sds \<Rightarrow> byte list \<Rightarrow> sds option" where
  "sdscatlen fresh usable s t = do {
     let curlen = sdslen s;
     s \<leftarrow> sdsMakeRoomFor fresh usable s (length t);
     s \<leftarrow> sds_write s curlen t;
     let s = sdssetlen s (curlen + length t);
     sds_write s (curlen + length t) [0]
   }"

definition sdscatsds :: "(nat \<Rightarrow> byte) \<Rightarrow> (nat \<Rightarrow> nat) \<Rightarrow> sds \<Rightarrow> sds \<Rightarrow> sds option" where
  "sdscatsds fresh usable s t = do { bs \<leftarrow> mem_read (s_buf t) 0 (sdslen t); sdscatlen fresh usable s bs }"

definition sdscpylen :: "(nat \<Rightarrow> byte) \<Rightarrow> (nat \<Rightarrow> nat) \<Rightarrow> sds \<Rightarrow> byte list \<Rightarrow> sds option" where
  "sdscpylen fresh usable s t = do {
     let len = length t;
     s \<leftarrow> (if sdsalloc s < len then sdsMakeRoomFor fresh usable s (len - sdslen s) else Some s);
     s \<leftarrow> sds_write s 0 t;
     s \<leftarrow> sds_write s len [0];
     Some (sdssetlen s len)
   }"

section \<open>Model: editing in place\<close>

text \<open>\<open>strchr(cset, c)\<close> also finds the terminator of \<open>cset\<close>.\<close>

definition in_cset :: "byte list \<Rightarrow> byte \<Rightarrow> bool" where
  "in_cset cset c \<longleftrightarrow> c = 0 \<or> c \<in> set cset"

text \<open>The two scans of \<open>sdstrim\<close>; positions are offsets from the start of the text and may be \<open>-1\<close>.\<close>

function trim_left :: "byte list \<Rightarrow> sds \<Rightarrow> int \<Rightarrow> int \<Rightarrow> int option" where
  "trim_left cset s sp fin =
     (if sp \<le> fin then do {
        c \<leftarrow> mem_read (s_buf s) (nat sp) 1;
        if in_cset cset (hd c) then trim_left cset s (sp + 1) fin else Some sp
      }
      else Some sp)"
  by pat_completeness auto
termination
  by (relation "measure (\<lambda>(cset, s, sp, fin). nat (fin + 1 - sp))") auto

function trim_right :: "byte list \<Rightarrow> sds \<Rightarrow> int \<Rightarrow> int \<Rightarrow> int option" where
  "trim_right cset s sp ep =
     (if ep > sp then do {
        c \<leftarrow> mem_read (s_buf s) (nat ep) 1;
        if in_cset cset (hd c) then trim_right cset s sp (ep - 1) else Some ep
      }
      else Some ep)"
  by pat_completeness auto
termination
  by (relation "measure (\<lambda>(cset, s, sp, ep). nat (ep - sp))") auto

declare trim_left.simps [simp del] trim_right.simps [simp del]

definition sdstrim :: "sds \<Rightarrow> byte list \<Rightarrow> sds option" where
  "sdstrim s cset = do {
     let fin = int (sdslen s) - 1;
     sp \<leftarrow> trim_left cset s 0 fin;
     ep \<leftarrow> trim_right cset s sp fin;
     let len = (if sp > ep then 0 else nat (ep - sp + 1));
     s \<leftarrow> (if sp \<noteq> 0 then map_option (\<lambda>b. s\<lparr>s_buf := b\<rparr>) (mem_move (s_buf s) 0 (nat sp) len) else Some s);
     s \<leftarrow> sds_write s len [0];
     Some (sdssetlen s len)
   }"

definition sdsrange :: "sds \<Rightarrow> int \<Rightarrow> int \<Rightarrow> sds option" where
  "sdsrange s start fin =
     (let len = int (sdslen s) in
      if len = 0 then Some s
      else do {
        let start = (if start < 0 then (if len + start < 0 then 0 else len + start) else start);
        let fin = (if fin < 0 then (if len + fin < 0 then 0 else len + fin) else fin);
        let newlen = (if start > fin then 0 else fin - start + 1);
        let newlen = (if newlen \<noteq> 0 then
            (if start \<ge> len then 0
             else if fin \<ge> len then (if start > len - 1 then 0 else len - 1 - start + 1)
             else newlen)
          else newlen);
        s \<leftarrow> (if start \<noteq> 0 \<and> newlen \<noteq> 0
              then map_option (\<lambda>b. s\<lparr>s_buf := b\<rparr>) (mem_move (s_buf s) 0 (nat start) (nat newlen)) else Some s);
        s \<leftarrow> sds_write s (nat newlen) [0];
        Some (sdssetlen s (nat newlen))
      })"

text \<open>\<open>memcmp\<close> compares as \<open>unsigned char\<close>; only the sign of its result is specified.\<close>

fun memcmp :: "byte list \<Rightarrow> byte list \<Rightarrow> int" where
  "memcmp (a # as) (b # bs) = (if a = b then memcmp as bs else if a < b then -1 else 1)"
| "memcmp as bs = 0"

definition sdscmp :: "sds \<Rightarrow> sds \<Rightarrow> int option" where
  "sdscmp s1 s2 = do {
     let l1 = sdslen s1;
     let l2 = sdslen s2;
     let minlen = (if l1 < l2 then l1 else l2);
     a \<leftarrow> mem_read (s_buf s1) 0 minlen;
     b \<leftarrow> mem_read (s_buf s2) 0 minlen;
     let cmp = memcmp a b;
     Some (if cmp = 0 then (if l1 > l2 then 1 else if l1 < l2 then -1 else 0) else cmp)
   }"

definition sds_map :: "(byte \<Rightarrow> byte) \<Rightarrow> sds \<Rightarrow> sds option" where
  "sds_map f s = do { bs \<leftarrow> mem_read (s_buf s) 0 (sdslen s); sds_write s 0 (map f bs) }"

definition sdstolower :: "sds \<Rightarrow> sds option" where
  "sdstolower = sds_map (\<lambda>c. if 65 \<le> c \<and> c \<le> 90 then c + 32 else c)"

definition sdstoupper :: "sds \<Rightarrow> sds option" where
  "sdstoupper = sds_map (\<lambda>c. if 97 \<le> c \<and> c \<le> 122 then c - 32 else c)"

section \<open>Invariant\<close>

definition sds_room :: "sds \<Rightarrow> nat \<Rightarrow> bool" where
  "sds_room s n \<longleftrightarrow> n \<le> sdsTypeMaxSize (s_type s) \<and> n < length (s_buf s) \<and> (s_type s \<noteq> SDS_TYPE_5 \<longrightarrow> n \<le> s_alloc s)"

definition sds_wf :: "sds \<Rightarrow> bool" where
  "sds_wf s \<longleftrightarrow> sds_room s (s_len s) \<and> s_buf s ! s_len s = 0
     \<and> (s_type s \<noteq> SDS_TYPE_5 \<longrightarrow> sds_room s (s_alloc s))"

definition sds_text :: "sds \<Rightarrow> byte list" where
  "sds_text s = take (s_len s) (s_buf s)"

lemma length_sds_text: "sds_wf s \<Longrightarrow> length (sds_text s) = s_len s"
  by (simp add: sds_text_def sds_wf_def sds_room_def)

lemma sds_room_mono: "sds_room s n \<Longrightarrow> m \<le> n \<Longrightarrow> sds_room s m"
  by (auto simp: sds_room_def)

lemma sdsTypeMaxSize_bound: "sdsTypeMaxSize t < 18446744073709551616" "31 \<le> sdsTypeMaxSize t"
  by (cases t; simp)+

lemma sdsHdrSize_bounds: "1 \<le> sdsHdrSize t" "sdsHdrSize t \<le> 17"
  by (cases t; simp)+

lemma sdsReqType_fits: "n < 18446744073709551616 \<Longrightarrow> n \<le> sdsTypeMaxSize (sdsReqType n)"
  by (simp add: sdsReqType_def)

lemma sds_room_update [simp]: "sds_room (s\<lparr>s_len := k\<rparr>) n = sds_room s n"
  by (simp add: sds_room_def)

text \<open>
  The common end of the operations that edit in place: the text is replaced by \<open>xs\<close> followed by a
  zero byte, the rest of the block is arbitrary.
\<close>

lemma sds_settext:
  assumes wf: "sds_wf s" and room: "sds_room s (length xs)" and buf: "length b = length (s_buf s)"
    and b: "take (length xs) b = xs" "b ! length xs = 0"
  shows "sds_wf (sdssetlen (s\<lparr>s_buf := b\<rparr>) (length xs))" "sds_text (sdssetlen (s\<lparr>s_buf := b\<rparr>) (length xs)) = xs"
    "s_len (sdssetlen (s\<lparr>s_buf := b\<rparr>) (length xs)) = length xs"
proof -
  have "length xs mod Suc (sdsTypeMaxSize (s_type s)) = length xs" using room by (simp add: sds_room_def)
  then show "sds_wf (sdssetlen (s\<lparr>s_buf := b\<rparr>) (length xs))" "sds_text (sdssetlen (s\<lparr>s_buf := b\<rparr>) (length xs)) = xs"
    "s_len (sdssetlen (s\<lparr>s_buf := b\<rparr>) (length xs)) = length xs"
    using wf room buf b by (simp_all add: sds_wf_def sds_text_def sdssetlen_def sds_room_def)
qed

lemma sds_write_ok:
  "off + length bs \<le> length (s_buf s) \<Longrightarrow> sds_write s off bs = Some (s\<lparr>s_buf := splice (s_buf s) off bs\<rparr>)"
  by (simp add: sds_write_def mem_write_def splice_def)

text \<open>
  A string in a block that agrees with its old one up to the terminator.\<close>

lemma sds_reblock:
  assumes wf: "sds_wf s" and b: "take (Suc (s_len s)) b = take (Suc (s_len s)) (s_buf s)"
    and fits: "s_len s \<le> al" "al \<le> sdsTypeMaxSize type" "al < length b"
  shows "sds_wf (s\<lparr>s_type := type, s_alloc := al, s_buf := b\<rparr>)"
    "sds_text (s\<lparr>s_type := type, s_alloc := al, s_buf := b\<rparr>) = sds_text s"
proof -
  have "s_len s < length b" "s_len s < length (s_buf s)" using wf fits by (auto simp: sds_wf_def sds_room_def)
  then have "b ! s_len s = s_buf s ! s_len s" "take (s_len s) b = take (s_len s) (s_buf s)"
    using arg_cong [OF b, of "\<lambda>x. x ! s_len s"] arg_cong [OF b, of "take (s_len s)"] by (simp_all add: min_def)
  then show "sds_wf (s\<lparr>s_type := type, s_alloc := al, s_buf := b\<rparr>)"
    "sds_text (s\<lparr>s_type := type, s_alloc := al, s_buf := b\<rparr>) = sds_text s"
    using wf fits \<open>s_len s < length b\<close> by (auto simp: sds_wf_def sds_room_def sds_text_def)
qed

lemma sds_move_ok:
  assumes wf: "sds_wf s" and "s_len s < cap" and "s_len s \<le> sdsTypeMaxSize type"
  shows "\<exists>b. sds_move fresh s type cap = Some (s\<lparr>s_type := type, s_buf := b\<rparr>)
     \<and> length b = cap \<and> take (Suc (s_len s)) b = take (Suc (s_len s)) (s_buf s)"
proof -
  let ?b = "splice (map fresh [0..<cap]) 0 (take (Suc (s_len s)) (s_buf s))"
  have l: "s_len s < length (s_buf s)" using wf by (simp add: sds_wf_def sds_room_def)
  then have "sds_move fresh s type cap = Some (sdssetlen (s\<lparr>s_type := type, s_buf := ?b\<rparr>) (s_len s))"
    using assms(2) by (simp add: sds_move_def mem_read_def mem_write_def splice_def sdslen_def)
  moreover have "s_len s mod Suc (sdsTypeMaxSize type) = s_len s" using assms(3) by simp
  moreover have "length ?b = cap" "take (Suc (s_len s)) ?b = take (Suc (s_len s)) (s_buf s)"
    using l assms(2) by (simp_all add: splice_def)
  ultimately show ?thesis by (intro exI [of _ ?b]) (simp add: sdssetlen_def)
qed

lemma sds_prealloc_ok:
  assumes "n < 4611686018427387904"
  shows "n \<le> sds_prealloc n" "sds_prealloc n < 9223372036854775808"
  using assms by (auto simp: sds_prealloc_def SDS_MAX_PREALLOC_def)

lemma sds_usable_ok:
  assumes "sdsHdrSize type + n + 1 \<le> us" and "n \<le> sdsTypeMaxSize type"
  shows "n \<le> sds_usable type us" "sds_usable type us \<le> sdsTypeMaxSize type" "sds_usable type us < us - sdsHdrSize type"
  using assms by (auto simp: sds_usable_def)

lemma sdsavail_room:
  assumes wf: "sds_wf s" and "addlen \<le> sdsavail s"
  shows "sds_room s (s_len s + addlen)"
proof (cases "s_type s = SDS_TYPE_5")
  case False
  then have "s_len s \<le> s_alloc s" "s_alloc s < 18446744073709551616"
    using wf sdsTypeMaxSize_bound(1) [of "s_type s"] by (auto simp: sds_wf_def sds_room_def)
  moreover then have e: "s_alloc s + 18446744073709551616 - s_len s = (s_alloc s - s_len s) + 18446744073709551616" by simp
  have "sdsavail s = (s_alloc s - s_len s) mod 18446744073709551616" unfolding sdsavail_def e using False by simp
  ultimately have "s_len s + addlen \<le> s_alloc s" using assms(2) by simp
  then show ?thesis using wf False sds_room_mono by (auto simp: sds_wf_def)
qed (use assms in \<open>simp add: sdsavail_def sds_wf_def\<close>)

lemma sdsMakeRoomFor_ok:
  assumes wf: "sds_wf s" and us: "\<And>n. n \<le> usable n" and small: "s_len s + addlen < 4611686018427387904"
  shows "\<exists>s'. sdsMakeRoomFor fresh usable s addlen = Some s' \<and> sds_wf s' \<and> sds_text s' = sds_text s
     \<and> s_len s' = s_len s \<and> sds_room s' (s_len s + addlen)"
proof (cases "sdsavail s \<ge> addlen")
  case True
  then show ?thesis using sdsavail_room [OF wf True] wf by (simp add: sdsMakeRoomFor_def)
next
  case False
  define nl where "nl = sds_prealloc (s_len s + addlen)"
  define type where "type = sds_append_type nl"
  define u where "u = usable (sdsHdrSize type + nl + 1)"
  define al where "al = sds_usable type u"
  have nl: "s_len s + addlen \<le> nl" "nl < 9223372036854775808" using sds_prealloc_ok [OF small] by (simp_all add: nl_def)
  have fit: "nl \<le> sdsTypeMaxSize type" using nl(2) by (auto simp: type_def sds_append_type_def sdsReqType_def)
  have al: "nl \<le> al" "al \<le> sdsTypeMaxSize type" "al < u - sdsHdrSize type"
    using sds_usable_ok [OF us fit] by (simp_all add: al_def u_def)
  have t5: "type \<noteq> SDS_TYPE_5" by (simp add: type_def sds_append_type_def Let_def)
  have set: "sdssetalloc (x\<lparr>s_type := type, s_buf := b\<rparr>) al = x\<lparr>s_type := type, s_alloc := al, s_buf := b\<rparr>" for x b
    using t5 al(2) by (simp add: sdssetalloc_def)
  have len: "s_len s < length (s_buf s)" using wf by (simp add: sds_wf_def sds_room_def)
  obtain b where b: "(if s_type s = type then Some (s\<lparr>s_buf := mem_resize fresh (s_buf s) (u - sdsHdrSize type)\<rparr>)
        else sds_move fresh s type (u - sdsHdrSize type)) = Some (s\<lparr>s_type := type, s_buf := b\<rparr>)"
      "length b = u - sdsHdrSize type" "take (Suc (s_len s)) b = take (Suc (s_len s)) (s_buf s)"
  proof (cases "s_type s = type")
    case True
    then show ?thesis using that [of "mem_resize fresh (s_buf s) (u - sdsHdrSize type)"] len al nl by simp
  next
    case ne: False
    then show ?thesis using that sds_move_ok [OF wf, of "u - sdsHdrSize type" type fresh] al nl fit by auto
  qed
  have "(sdsHdrSize type + nl + 1) mod 18446744073709551616 = sdsHdrSize type + nl + 1"
    using nl(2) sdsHdrSize_bounds(2) [of type] by simp
  moreover have "(s_len s + addlen) mod 18446744073709551616 = s_len s + addlen" using small by simp
  moreover have "require (s_len s < s_len s + addlen) = Some ()" "require (s_len s < sdsHdrSize type + nl + 1) = Some ()"
    using False nl by simp_all
  ultimately have "sdsMakeRoomFor fresh usable s addlen = Some (s\<lparr>s_type := type, s_alloc := al, s_buf := b\<rparr>)"
    using False b(1)
    by (simp only: sdsMakeRoomFor_def sdslen_def Let_def if_False nl_def [symmetric] type_def [symmetric] u_def [symmetric]
        al_def [symmetric] bind.bind_lunit set)
  then show ?thesis using sds_reblock [OF wf b(3), of al type] al nl b(2) t5
    by (auto simp: sds_room_def)
qed

lemma take_splice_end:
  "off + length bs \<le> length buf \<Longrightarrow> take (off + length bs) (splice buf off bs) = take off buf @ bs"
  by (simp add: splice_def)

lemma nth_splice_single: "off < length buf \<Longrightarrow> splice buf off [c] ! off = c"
  by (simp add: nth_splice)

lemma take_splice_before: "k \<le> off \<Longrightarrow> off \<le> length buf \<Longrightarrow> take k (splice buf off bs) = take k buf"
  by (simp add: splice_def min_def)

text \<open>
  Writing a text \<open>xs\<close> that extends what is before \<open>off\<close>, then its terminator.\<close>

lemma sds_finish:
  assumes wf: "sds_wf s" and room: "sds_room s (off + length bs)" and xs: "xs = take off (s_buf s) @ bs"
  shows "\<exists>s'. do { s \<leftarrow> sds_write s off bs; sds_write (sdssetlen s (off + length bs)) (off + length bs) [0] } = Some s'
     \<and> sds_wf s' \<and> sds_text s' = xs \<and> s_type s' = s_type s \<and> s_alloc s' = s_alloc s"
proof -
  have fits: "off + length bs < length (s_buf s)" using room by (simp add: sds_room_def)
  let ?b = "splice (splice (s_buf s) off bs) (off + length bs) [0]"
  have len: "length xs = off + length bs" using xs fits by simp
  have "do { s \<leftarrow> sds_write s off bs; sds_write (sdssetlen s (off + length bs)) (off + length bs) [0] }
      = Some (sdssetlen (s\<lparr>s_buf := ?b\<rparr>) (length xs))"
    using fits len by (simp add: sds_write_ok length_splice sdssetlen_def)
  moreover have "take (length xs) ?b = xs" unfolding len xs
    using fits take_splice_end [of off bs "s_buf s"] by (subst take_splice_before) (simp_all add: length_splice)
  moreover have "?b ! length xs = 0" unfolding len using fits by (intro nth_splice_single) (simp add: length_splice)
  moreover have "length ?b = length (s_buf s)" using fits by (simp add: length_splice)
  ultimately show ?thesis using sds_settext [OF wf, of xs ?b] room len by (auto simp: sdssetlen_def)
qed

text \<open>
  appending.  For every allocator that returns at least what is requested, \<open>sdscatlen\<close> appends
  exactly the given bytes to the text, changing the header type and moving the string when the
  block or the width of the length field is too small, and keeps the invariant: the fields fit
  their width, the allocation field does not exceed the block, and the text is terminated.
\<close>

theorem sdscatlen_correct:
  assumes wf: "sds_wf s" and us: "\<forall>n. n \<le> usable n" and small: "s_len s + length t < 4611686018427387904"
  shows "\<exists>s'. sdscatlen fresh usable s t = Some s' \<and> sds_wf s' \<and> sds_text s' = sds_text s @ t"
proof -
  obtain s1 where s1: "sdsMakeRoomFor fresh usable s (length t) = Some s1" "sds_wf s1" "sds_text s1 = sds_text s"
      "s_len s1 = s_len s" "sds_room s1 (s_len s + length t)"
    using sdsMakeRoomFor_ok [OF wf _ small, of usable fresh] us by blast
  then show ?thesis using sds_finish [OF s1(2,5), of "sds_text s @ t"]
    by (auto simp: sdscatlen_def sdslen_def sds_text_def Let_def)
qed

lemma sds_room_text: "sds_wf s \<Longrightarrow> n \<le> s_len s \<Longrightarrow> sds_room s n"
  using sds_room_mono [of s "s_len s" n] by (simp add: sds_wf_def)

lemma sds_room_alloc:
  assumes "sds_wf s" and "n \<le> sdsalloc s"
  shows "sds_room s n"
proof (cases "s_type s = SDS_TYPE_5")
  case True
  then show ?thesis using assms sds_room_text by (simp add: sdsalloc_def)
next
  case False
  then show ?thesis using assms sds_room_mono [of s "s_alloc s" n] by (simp add: sdsalloc_def sds_wf_def)
qed

text \<open>
  replacing the text.  \<open>sdscpylen\<close> makes the text equal to the given bytes, growing the string only
  when it does not fit the allocation.
\<close>

theorem sdscpylen_correct:
  assumes wf: "sds_wf s" and us: "\<forall>n. n \<le> usable n" and small: "length t < 4611686018427387904"
  shows "\<exists>s'. sdscpylen fresh usable s t = Some s' \<and> sds_wf s' \<and> sds_text s' = t"
proof -
  obtain s1 where s1: "(if sdsalloc s < length t then sdsMakeRoomFor fresh usable s (length t - sdslen s) else Some s) = Some s1"
      and wf1: "sds_wf s1" "sds_room s1 (length t)"
  proof (cases "sdsalloc s < length t")
    case True
    have "s_len s < length t" using wf True by (auto simp: sdsalloc_def sds_wf_def sds_room_def split: if_splits)
    then show ?thesis using that True sdsMakeRoomFor_ok [OF wf, of usable "length t - s_len s" fresh] us small
      by (auto simp: sdslen_def)
  next
    case False
    then show ?thesis using that wf sds_room_alloc [OF wf] by simp
  qed
  let ?b = "splice (splice (s_buf s1) 0 t) (length t) [0]"
  have fits: "length t < length (s_buf s1)" using wf1(2) by (simp add: sds_room_def)
  then have "sdscpylen fresh usable s t = Some (sdssetlen (s1\<lparr>s_buf := ?b\<rparr>) (length t))"
    using s1 by (simp add: sdscpylen_def Let_def sds_write_ok length_splice)
  moreover have "take (length t) ?b = t"
    using fits take_splice_end [of 0 t "s_buf s1"] by (subst take_splice_before) (simp_all add: length_splice)
  moreover have "?b ! length t = 0" using fits by (intro nth_splice_single) (simp add: length_splice)
  moreover have "length ?b = length (s_buf s1)" using fits by (simp add: length_splice)
  ultimately show ?thesis using sds_settext [OF wf1, of ?b] by (intro exI [of _ "sdssetlen (s1\<lparr>s_buf := ?b\<rparr>) (length t)"]) simp
qed

text \<open>
  Moving a part of the text to the front and terminating it there.\<close>

lemma sds_shift:
  assumes wf: "sds_wf s" and part: "off + n \<le> s_len s"
  shows "\<exists>s'. do {
       s \<leftarrow> (if c then map_option (\<lambda>b. s\<lparr>s_buf := b\<rparr>) (mem_move (s_buf s) 0 off n) else Some s);
       s \<leftarrow> sds_write s n [0];
       Some (sdssetlen s n) } = Some s'
     \<and> sds_wf s' \<and> ((c \<or> off = 0 \<or> n = 0) \<longrightarrow> sds_text s' = take n (drop off (sds_text s)))"
proof -
  define b where "b = (if c then splice (s_buf s) 0 (take n (drop off (s_buf s))) else s_buf s)"
  have len: "s_len s < length (s_buf s)" using wf by (simp add: sds_wf_def sds_room_def)
  then have lb: "length b = length (s_buf s)" using part by (simp add: b_def length_splice)
  define xs where "xs = take n b"
  have n: "length xs = n" using len lb part by (simp add: xs_def)
  have "(if c then map_option (\<lambda>b. s\<lparr>s_buf := b\<rparr>) (mem_move (s_buf s) 0 off n) else Some s) = Some (s\<lparr>s_buf := b\<rparr>)"
    using part len by (simp add: b_def mem_move_def mem_read_def mem_write_def splice_def)
  moreover have "sds_write (s\<lparr>s_buf := b\<rparr>) n [0] = Some (s\<lparr>s_buf := splice b n [0]\<rparr>)"
    using part len lb by (simp add: sds_write_ok)
  moreover have "sds_wf (sdssetlen (s\<lparr>s_buf := splice b n [0]\<rparr>) n)" "sds_text (sdssetlen (s\<lparr>s_buf := splice b n [0]\<rparr>) n) = xs"
  proof -
    have "sds_room s (length xs)" using sds_room_text [OF wf] part n by simp
    moreover have "take (length xs) (splice b n [0]) = xs" using n len lb part by (simp add: take_splice_before xs_def)
    moreover have "splice b n [0] ! length xs = 0" "length (splice b n [0]) = length (s_buf s)"
      using n len lb part by (simp_all add: nth_splice_single length_splice)
    ultimately show "sds_wf (sdssetlen (s\<lparr>s_buf := splice b n [0]\<rparr>) n)" "sds_text (sdssetlen (s\<lparr>s_buf := splice b n [0]\<rparr>) n) = xs"
      using sds_settext [OF wf, of xs "splice b n [0]"] n by simp_all
  qed
  moreover have "xs = take n (drop off (sds_text s))" if "c \<or> off = 0 \<or> n = 0"
    using that part len by (auto simp: xs_def b_def sds_text_def splice_def drop_take min_def)
  ultimately show ?thesis by (intro exI [of _ "sdssetlen (s\<lparr>s_buf := splice b n [0]\<rparr>) n"]) auto
qed

definition range_pos :: "nat \<Rightarrow> int \<Rightarrow> int" where
  "range_pos len i = (if i < 0 then max 0 (int len + i) else i)"

text \<open>
  \<open>sdsrange\<close>, the implementation of GETRANGE on a copy, keeps exactly the bytes between two
  inclusive positions, where negative positions count from the end and positions outside the text
  are clamped, for all integers \<open>start\<close> and \<open>end\<close>.
\<close>

theorem sdsrange_correct:
  assumes wf: "sds_wf s"
  shows "\<exists>s'. sdsrange s start fin = Some s' \<and> sds_wf s'
     \<and> sds_text s' = take (nat (range_pos (s_len s) fin + 1 - range_pos (s_len s) start))
                          (drop (nat (range_pos (s_len s) start)) (sds_text s))"
proof (cases "s_len s = 0")
  case True
  then show ?thesis using wf by (simp add: sdsrange_def sdslen_def sds_text_def)
next
  case False
  define len i j where "len = int (s_len s)" and "i = range_pos (s_len s) start" and "j = range_pos (s_len s) fin"
  define n where "n = (if i > j \<or> i \<ge> len then 0 else if j \<ge> len then len - i else j - i + 1)"
  have i: "(if start < 0 then (if len + start < 0 then 0 else len + start) else start) = i" and i0: "0 \<le> i"
    by (simp_all add: i_def range_pos_def len_def)
  have j: "(if fin < 0 then (if len + fin < 0 then 0 else len + fin) else fin) = j" and j0: "0 \<le> j"
    by (simp_all add: j_def range_pos_def len_def)
  have n: "(if (if i > j then 0 else j - i + 1) \<noteq> 0 then
            (if i \<ge> len then 0 else if j \<ge> len then (if i > len - 1 then 0 else len - 1 - i + 1) else (if i > j then 0 else j - i + 1))
          else (if i > j then 0 else j - i + 1)) = n"
    by (auto simp: n_def)
  define k c where "k = (if n = 0 then 0 else nat i)" and "c = (i \<noteq> 0 \<and> n \<noteq> 0)"
  have part: "k + nat n \<le> s_len s" using i0 by (auto simp: n_def len_def k_def)
  have t: "take (nat n) (drop k (sds_text s)) = take (nat (j + 1 - i)) (drop (nat i) (sds_text s))"
    using i0 length_sds_text [OF wf] by (auto simp: n_def len_def k_def algebra_simps)
  obtain s' where s': "do {
       s \<leftarrow> (if c then map_option (\<lambda>b. s\<lparr>s_buf := b\<rparr>) (mem_move (s_buf s) 0 k (nat n)) else Some s);
       s \<leftarrow> sds_write s (nat n) [0];
       Some (sdssetlen s (nat n)) } = Some s'" "sds_wf s'"
      "c \<or> k = 0 \<or> nat n = 0 \<longrightarrow> sds_text s' = take (nat n) (drop k (sds_text s))"
    using sds_shift [OF wf part, of c] by (elim exE conjE)
  have "(if c then map_option (\<lambda>b. s\<lparr>s_buf := b\<rparr>) (mem_move (s_buf s) 0 (nat i) (nat n)) else Some s)
      = (if c then map_option (\<lambda>b. s\<lparr>s_buf := b\<rparr>) (mem_move (s_buf s) 0 k (nat n)) else Some s)" by (simp add: c_def k_def)
  then have "sdsrange s start fin = Some s'"
    using False s'(1) unfolding sdsrange_def Let_def sdslen_def len_def [symmetric] i j n c_def [symmetric]
    by (simp only: len_def of_nat_eq_0_iff if_False)
  moreover have "sds_text s' = take (nat (j + 1 - i)) (drop (nat i) (sds_text s))"
  proof -
    have "c \<or> k = 0 \<or> nat n = 0" by (auto simp: c_def k_def)
    then show ?thesis using s'(3) t by simp
  qed
  ultimately show ?thesis using s'(2) by (simp add: i_def j_def)
qed

subsection \<open>Trimming\<close>

lemma sds_read_char:
  "sds_wf s \<Longrightarrow> k < s_len s \<Longrightarrow> mem_read (s_buf s) k 1 = Some [sds_text s ! k]"
  by (auto simp: mem_read_def sds_wf_def sds_room_def sds_text_def take_Suc_conv_app_nth hd_drop_conv_nth take_Suc)

lemma trim_left_ok:
  assumes wf: "sds_wf s"
  shows "k \<le> s_len s \<Longrightarrow> trim_left cset s (int k) (int (s_len s) - 1)
     = Some (int (k + length (takeWhile (in_cset cset) (drop k (sds_text s)))))"
proof (induction "s_len s - k" arbitrary: k)
  case 0
  then have "k = s_len s" by simp
  then show ?case using length_sds_text [OF wf] by (subst trim_left.simps) simp
next
  case (Suc d)
  then have k: "k < s_len s" by simp
  then have "drop k (sds_text s) = sds_text s ! k # drop (Suc k) (sds_text s)"
    using length_sds_text [OF wf] by (simp add: Cons_nth_drop_Suc)
  moreover have "trim_left cset s (int k) (int (s_len s) - 1) =
      (if in_cset cset (sds_text s ! k) then trim_left cset s (int (Suc k)) (int (s_len s) - 1) else Some (int k))"
    using k sds_read_char [OF wf k] by (subst trim_left.simps) (simp add: add.commute)
  ultimately show ?case using Suc.hyps(1) [of "Suc k"] Suc.hyps(2) k by simp
qed

lemma trim_right_ok:
  assumes wf: "sds_wf s" and "\<not> in_cset cset (sds_text s ! sp)"
  shows "sp + d < s_len s \<Longrightarrow> \<exists>e \<le> d. trim_right cset s (int sp) (int (sp + d)) = Some (int (sp + e))
     \<and> take (Suc e) (drop sp (sds_text s)) = rev (dropWhile (in_cset cset) (rev (take (Suc d) (drop sp (sds_text s)))))"
proof (induction d)
  case 0
  then have "take (Suc 0) (drop sp (sds_text s)) = [sds_text s ! sp]"
    using length_sds_text [OF wf] by (simp add: take_Suc hd_drop_conv_nth)
  then show ?case using assms(2) by (subst trim_right.simps) simp
next
  case (Suc d)
  let ?t = "drop sp (sds_text s)"
  have len: "Suc d < length ?t" using Suc.prems length_sds_text [OF wf] by simp
  have last: "take (Suc (Suc d)) ?t = take (Suc d) ?t @ [sds_text s ! (sp + Suc d)]"
    using len by (subst take_Suc_conv_app_nth) simp_all
  have rec: "trim_right cset s (int sp) (int (sp + Suc d)) =
      (if in_cset cset (sds_text s ! (sp + Suc d)) then trim_right cset s (int sp) (int (sp + d)) else Some (int (sp + Suc d)))"
    using Suc.prems sds_read_char [OF wf, of "sp + Suc d"]
    by (subst trim_right.simps) (simp add: nat_add_distrib del: of_nat_add of_nat_Suc, simp)
  show ?case
  proof (cases "in_cset cset (sds_text s ! (sp + Suc d))")
    case True
    then obtain e where "e \<le> d" "trim_right cset s (int sp) (int (sp + d)) = Some (int (sp + e))"
        "take (Suc e) ?t = rev (dropWhile (in_cset cset) (rev (take (Suc d) ?t)))"
      using Suc.IH Suc.prems by auto
    then show ?thesis using True rec unfolding last by (intro exI [of _ e]) simp
  next
    case False
    then show ?thesis using rec unfolding last by (intro exI [of _ "Suc d"]) (simp add: last)
  qed
qed

definition trim_spec :: "(byte \<Rightarrow> bool) \<Rightarrow> byte list \<Rightarrow> byte list" where
  "trim_spec P xs = rev (dropWhile P (rev (dropWhile P xs)))"

text \<open>
  \<open>sdstrim\<close> removes from both ends exactly the characters of the set (and zero bytes, which
  \<open>strchr\<close> finds in every set), reading and moving only bytes of the text.
\<close>

theorem sdstrim_correct:
  assumes wf: "sds_wf s"
  shows "\<exists>s'. sdstrim s cset = Some s' \<and> sds_wf s' \<and> sds_text s' = trim_spec (in_cset cset) (sds_text s)"
proof -
  let ?P = "in_cset cset" and ?xs = "sds_text s" and ?fin = "int (s_len s) - 1"
  define sp where "sp = length (takeWhile ?P ?xs)"
  have len: "length ?xs = s_len s" by (rule length_sds_text [OF wf])
  have spl: "sp \<le> s_len s" using length_takeWhile_le [of ?P ?xs] len by (simp add: sp_def)
  have l: "trim_left cset s 0 ?fin = Some (int sp)" using trim_left_ok [OF wf, of 0 cset] by (simp add: sp_def)
  have dw: "drop sp ?xs = dropWhile ?P ?xs" by (simp add: sp_def dropWhile_eq_drop)
  obtain ep n where ep: "trim_right cset s (int sp) ?fin = Some ep" and n: "(if int sp > ep then 0 else nat (ep - int sp + 1)) = n"
      and "sp + n \<le> s_len s" and t: "take n (drop sp ?xs) = trim_spec ?P ?xs"
  proof (cases "sp = s_len s")
    case True
    then have "dropWhile ?P ?xs = []" using dw len by simp
    moreover have "trim_right cset s (int sp) ?fin = Some ?fin" using True by (subst trim_right.simps) simp
    ultimately show ?thesis using that [of ?fin 0] True by (auto simp: trim_spec_def dest: set_dropWhileD)
  next
    case False
    then have lt: "sp < s_len s" using spl by simp
    have "\<not> ?P (?xs ! sp)" using nth_length_takeWhile [of ?P ?xs] lt len by (simp add: sp_def)
    moreover have "sp + (s_len s - 1 - sp) < s_len s" "int (sp + (s_len s - 1 - sp)) = ?fin" using lt by auto
    ultimately obtain e where e: "e \<le> s_len s - 1 - sp" "trim_right cset s (int sp) ?fin = Some (int (sp + e))"
        "take (Suc e) (drop sp ?xs) = rev (dropWhile ?P (rev (take (Suc (s_len s - 1 - sp)) (drop sp ?xs))))"
      using trim_right_ok [OF wf, of cset sp "s_len s - 1 - sp"] by auto
    moreover have "take (Suc (s_len s - 1 - sp)) (drop sp ?xs) = drop sp ?xs" using lt len by simp
    ultimately show ?thesis using that [of "int (sp + e)" "Suc e"] lt dw by (simp add: trim_spec_def nat_add_distrib)
  qed
  then obtain s' where "do {
       s \<leftarrow> (if int sp \<noteq> 0 then map_option (\<lambda>b. s\<lparr>s_buf := b\<rparr>) (mem_move (s_buf s) 0 sp n) else Some s);
       s \<leftarrow> sds_write s n [0];
       Some (sdssetlen s n) } = Some s'" "sds_wf s'" "sds_text s' = take n (drop sp ?xs)"
    using sds_shift [OF wf, of sp n "int sp \<noteq> 0"] by auto
  moreover from this(1) have "sdstrim s cset = Some s'"
    by (simp only: sdstrim_def sdslen_def Let_def l ep n bind.bind_lunit nat_int)
  ultimately show ?thesis using t by simp
qed

subsection \<open>Comparison\<close>

fun lex_less :: "byte list \<Rightarrow> byte list \<Rightarrow> bool" where
  "lex_less [] bs \<longleftrightarrow> bs \<noteq> []"
| "lex_less (a # as) [] \<longleftrightarrow> False"
| "lex_less (a # as) (b # bs) \<longleftrightarrow> a < b \<or> a = b \<and> lex_less as bs"

lemma memcmp_refl [simp]: "memcmp bs bs = 0"
  by (induction bs) auto

lemma memcmp_lex:
  "(if memcmp (take (min (length as) (length bs)) as) (take (min (length as) (length bs)) bs) = 0
    then (if length as > length bs then 1 else if length as < length bs then -1 else 0)
    else memcmp (take (min (length as) (length bs)) as) (take (min (length as) (length bs)) bs))
   = (if as = bs then 0 else if lex_less as bs then -1 else (1 :: int))"
  by (induction as bs rule: lex_less.induct) (auto split: if_splits)

text \<open>
  \<open>sdscmp\<close> is the lexicographic order on texts as sequences of unsigned bytes: zero exactly for
  equal texts, negative exactly when the first is smaller.
\<close>

theorem sdscmp_correct:
  assumes "sds_wf s1" and "sds_wf s2"
  shows "sdscmp s1 s2 = Some (if sds_text s1 = sds_text s2 then 0 else if lex_less (sds_text s1) (sds_text s2) then -1 else 1)"
proof -
  let ?m = "min (s_len s1) (s_len s2)"
  have len: "s_len s1 < length (s_buf s1)" "s_len s2 < length (s_buf s2)"
    using assms by (auto simp: sds_wf_def sds_room_def)
  have rd: "mem_read (s_buf s1) 0 ?m = Some (take ?m (sds_text s1))" "mem_read (s_buf s2) 0 ?m = Some (take ?m (sds_text s2))"
    using len by (simp_all add: mem_read_def sds_text_def min_def)
  have m: "(if s_len s1 < s_len s2 then s_len s1 else s_len s2) = ?m" by simp
  show ?thesis
    by (simp only: sdscmp_def Let_def sdslen_def m rd bind.bind_lunit
        memcmp_lex [of "sds_text s1" "sds_text s2", unfolded length_sds_text [OF assms(1)] length_sds_text [OF assms(2)]])
qed

subsection \<open>Creation and shrinking\<close>

lemma sdsnewlen_ok:
  assumes us: "\<And>n. n \<le> usable n" and small: "length t < 4611686018427387904"
  shows "\<exists>s. sdsnewlen fresh usable (Bytes t) (length t) = Some s \<and> sds_wf s \<and> sds_text s = t"
proof -
  define type where "type = (if sdsReqType (length t) = SDS_TYPE_5 \<and> length t = 0 then SDS_TYPE_8 else sdsReqType (length t))"
  define u where "u = usable (sdsHdrSize type + length t + 1)"
  have fit: "length t \<le> sdsTypeMaxSize type" using small by (auto simp: type_def sdsReqType_def)
  note al = sds_usable_ok [OF us fit, folded u_def]
  have "(length t + sdsHdrSize type + 1) mod 18446744073709551616 = length t + sdsHdrSize type + 1"
    using small sdsHdrSize_bounds(2) [of type] by simp
  let ?m = "map (\<lambda>i. if Bytes t = ZeroInit \<and> i < length t + 1 then 0 else fresh i) [0..<u - sdsHdrSize type]"
  define s0 where "s0 = sdssetalloc (sdssetlen \<lparr>s_type = type, s_len = 0, s_alloc = 0, s_buf = ?m\<rparr> (length t)) (sds_usable type u)"
  have s0: "s_type s0 = type" "s_len s0 = length t" "s_buf s0 = ?m" "type \<noteq> SDS_TYPE_5 \<Longrightarrow> s_alloc s0 = sds_usable type u"
    using fit al(2) by (simp_all add: s0_def sdssetlen_def sdssetalloc_def)
  let ?b = "splice (splice ?m 0 t) (length t) [0]"
  have fits: "length t < length ?m" using al by simp
  have w1: "sds_write s0 0 t = Some (s0\<lparr>s_buf := splice ?m 0 t\<rparr>)"
    using sds_write_ok [of 0 t s0] s0(3) fits by simp
  have w2: "sds_write (s0\<lparr>s_buf := splice ?m 0 t\<rparr>) (length t) [0] = Some (s0\<lparr>s_buf := ?b\<rparr>)"
    using sds_write_ok [of "length t" "[0]" "s0\<lparr>s_buf := splice ?m 0 t\<rparr>"] fits by (simp add: length_splice)
  have new: "sdsnewlen fresh usable (Bytes t) (length t) = Some (s0\<lparr>s_buf := ?b\<rparr>)"
  proof -
    have "sdsnewlen_gen fresh usable True (Bytes t) (length t)
      = do { s \<leftarrow> sds_write s0 0 t; s \<leftarrow> sds_write s (length t) [0]; Some (Some s) }"
      using \<open>(length t + sdsHdrSize type + 1) mod 18446744073709551616 = length t + sdsHdrSize type + 1\<close>
      unfolding sdsnewlen_gen_def Let_def type_def [symmetric] u_def [symmetric] s0_def by simp
    then show ?thesis using w1 w2 by (simp add: sdsnewlen_def)
  qed
  have "take (length t) ?b = t"
    using fits take_splice_end [of 0 t ?m] by (subst take_splice_before) (simp_all add: length_splice)
  moreover have "?b ! length t = 0" using fits by (intro nth_splice_single) (simp add: length_splice)
  moreover have "length ?b = u - sdsHdrSize type" using fits by (simp add: length_splice)
  ultimately show ?thesis using new s0 al fit fits
    by (intro exI [of _ "s0\<lparr>s_buf := ?b\<rparr>"]) (simp add: sds_wf_def sds_room_def sds_text_def)
qed

lemma sdsRemoveFreeSpace_ok:
  assumes wf: "sds_wf s" and us: "\<And>n. n \<le> usable n"
  shows "\<exists>s'. sdsRemoveFreeSpace fresh usable s = Some s' \<and> sds_wf s' \<and> sds_text s' = sds_text s \<and> sdsavail s' = 0"
proof (cases "sdsavail s = 0")
  case True
  then show ?thesis using wf by (simp add: sdsRemoveFreeSpace_def)
next
  case False
  have t5: "s_type s \<noteq> SDS_TYPE_5" using False by (auto simp: sdsavail_def)
  have len: "s_len s < length (s_buf s)" "s_len s \<le> sdsTypeMaxSize (s_type s)" using wf by (auto simp: sds_wf_def sds_room_def)
  then have fit: "s_len s \<le> sdsTypeMaxSize (sdsReqType (s_len s))"
    using sdsReqType_fits sdsTypeMaxSize_bound(1) [of "s_type s"] by (meson le_less_trans)
  define c where "c \<longleftrightarrow> s_type s = sdsReqType (s_len s) \<or> sds_type_ord (sdsReqType (s_len s)) > sds_type_ord SDS_TYPE_8"
  define type where "type = (if c then s_type s else sdsReqType (s_len s))"
  define cap where "cap = usable (sdsHdrSize type + s_len s + 1) - sdsHdrSize type"
  have cap: "s_len s < cap" using us [of "sdsHdrSize type + s_len s + 1"] by (simp add: cap_def)
  have max: "s_len s \<le> sdsTypeMaxSize type" using len fit by (simp add: type_def)
  obtain b where b: "(if c then Some (s\<lparr>s_buf := mem_resize fresh (s_buf s) cap\<rparr>) else sds_move fresh s type cap) = Some (s\<lparr>s_type := type, s_buf := b\<rparr>)"
      "length b = cap" "take (Suc (s_len s)) b = take (Suc (s_len s)) (s_buf s)"
  proof (cases c)
    case True
    then show ?thesis using that [of "mem_resize fresh (s_buf s) cap"] len cap by (simp add: type_def)
  next
    case nc: False
    then show ?thesis using that sds_move_ok [OF wf cap max, of fresh] by auto
  qed
  define s' where "s' = (s\<lparr>s_type := type, s_alloc := (if type = SDS_TYPE_5 then s_alloc s else s_len s), s_buf := b\<rparr>)"
  have "sdsRemoveFreeSpace fresh usable s = Some (sdssetalloc (s\<lparr>s_type := type, s_buf := b\<rparr>) (s_len s))"
    using False b(1) by (cases c) (auto simp: sdsRemoveFreeSpace_def sdslen_def Let_def c_def type_def cap_def)
  also have "sdssetalloc (s\<lparr>s_type := type, s_buf := b\<rparr>) (s_len s) = s'"
    using max by (simp add: s'_def sdssetalloc_def)
  finally have "sdsRemoveFreeSpace fresh usable s = Some s'" .
  moreover have "b ! s_len s = s_buf s ! s_len s" "take (s_len s) b = take (s_len s) (s_buf s)"
    using arg_cong [OF b(3), of "\<lambda>x. x ! s_len s"] arg_cong [OF b(3), of "take (s_len s)"] len cap b(2) by (simp_all add: min_def)
  then have "sds_wf s'" "sds_text s' = sds_text s" using wf max cap b(2) by (auto simp: s'_def sds_wf_def sds_room_def sds_text_def)
  moreover have "sdsavail s' = 0" by (simp add: s'_def sdsavail_def)
  ultimately show ?thesis by blast
qed

section \<open>Examples\<close>

definition ex_sds :: sds where
  "ex_sds = \<lparr>s_type = SDS_TYPE_5, s_len = 4, s_alloc = 0, s_buf = [32, 104, 105, 32, 0]\<rparr>"

lemma ex_sds_wf: "sds_wf ex_sds" "sds_text ex_sds = [32, 104, 105, 32]" "s_len ex_sds = 4"
  by (simp_all add: ex_sds_def sds_wf_def sds_room_def sds_text_def)

theorem sdscatlen_correct_witness:
  "\<exists>s'. sdscatlen (\<lambda>_. 7) (\<lambda>n. n + 3) ex_sds [33] = Some s' \<and> sds_wf s' \<and> sds_text s' = [32, 104, 105, 32, 33]"
  using sdscatlen_correct [OF ex_sds_wf(1), of "\<lambda>n. n + 3" "[33]" "\<lambda>_. 7"] ex_sds_wf by simp

theorem sdscpylen_correct_witness:
  "\<exists>s'. sdscpylen (\<lambda>_. 7) (\<lambda>n. n + 3) ex_sds [1, 2, 3, 4, 5, 6] = Some s' \<and> sds_text s' = [1, 2, 3, 4, 5, 6]"
  using sdscpylen_correct [OF ex_sds_wf(1), of "\<lambda>n. n + 3" "[1, 2, 3, 4, 5, 6]" "\<lambda>_. 7"] by auto

theorem sdsrange_correct_witness:
  "\<exists>s'. sdsrange ex_sds (-3) 100 = Some s' \<and> sds_wf s' \<and> sds_text s' = [104, 105, 32]"
  using sdsrange_correct [OF ex_sds_wf(1), of "-3" 100] ex_sds_wf by (simp add: range_pos_def)

theorem sdstrim_correct_witness:
  "\<exists>s'. sdstrim ex_sds [32] = Some s' \<and> sds_wf s' \<and> sds_text s' = [104, 105]"
  using sdstrim_correct [OF ex_sds_wf(1), of "[32]"] ex_sds_wf by (simp add: trim_spec_def in_cset_def)

theorem sdscmp_correct_witness: "sdscmp ex_sds ex_sds = Some 0"
  using sdscmp_correct [OF ex_sds_wf(1) ex_sds_wf(1)] by simp

end
