(* ===== verification/Sds_Text.thy ===== *)
theory Sds_Text
  imports Sds Util
begin

text \<open>
  The functions of \<open>src/redis-6.2.0/src/sds.c\<close> that take strings apart and put them together:
  splitting and joining, quoting (\<open>sdscatrepr\<close>), the argument parser \<open>sdssplitargs\<close>, integers and
  character maps.  Here a dynamic string is its text; that appending with \<open>sdscatlen\<close> appends to the text
  is shown in the theory of dynamic strings.  A C string is a list whose first zero byte, or
  end, is the terminator.
\<close>

section \<open>Model: splitting and joining\<close>

text \<open>
  The tokens found so far are kept with the number of slots allocated for them; storing a token
  beyond them is \<open>None\<close>.
\<close>

definition sep_at :: "byte list \<Rightarrow> byte list \<Rightarrow> nat \<Rightarrow> bool" where
  "sep_at s sep j \<longleftrightarrow> (length sep = 1 \<and> s ! j = sep ! 0) \<or> memcmp (take (length sep) (drop j s)) sep = 0"

function split_loop :: "byte list \<Rightarrow> byte list \<Rightarrow> nat \<Rightarrow> nat \<Rightarrow> byte list list \<Rightarrow> nat \<Rightarrow> byte list list option" where
  "split_loop s sep j start tokens slots =
     (if sep \<noteq> [] \<and> int j < int (length s) - (int (length sep) - 1) then
        let slots = (if slots < length tokens + 2 then slots * 2 else slots) in
        if sep_at s sep j then
          (if length tokens < slots
           then split_loop s sep (j + length sep) (j + length sep) (tokens @ [take (j - start) (drop start s)]) slots
           else None)
        else split_loop s sep (j + 1) start tokens slots
      else if length tokens < slots then Some (tokens @ [drop start s]) else None)"
  by pat_completeness auto
termination
proof (relation "measure (\<lambda>(s, sep, j, start, tokens, slots). Suc (length s) - j)", goal_cases)
  case (2 s sep j start tokens slots x)
  then have "0 < length sep" "j < Suc (length s)" by auto
  then show ?case unfolding in_measure prod.case by linarith
qed auto

declare split_loop.simps [simp del]

text \<open>The inner \<open>None\<close> is the null result for an empty separator.\<close>

definition sdssplitlen :: "byte list \<Rightarrow> byte list \<Rightarrow> byte list list option option" where
  "sdssplitlen s sep =
     (if length sep < 1 then Some None
      else if length s = 0 then Some (Some [])
      else map_option Some (split_loop s sep 0 0 [] 5))"

fun join_loop :: "byte list list \<Rightarrow> byte list \<Rightarrow> byte list \<Rightarrow> byte list" where
  "join_loop [] sep join = join"
| "join_loop (a # rest) sep join =
     (let join = join @ a in
      let join = (if rest \<noteq> [] then join @ sep else join)
      in join_loop rest sep join)"

definition sdsjoinsds :: "byte list list \<Rightarrow> byte list \<Rightarrow> byte list" where
  "sdsjoinsds argv sep = join_loop argv sep []"

definition cstr :: "byte list \<Rightarrow> byte list" where
  "cstr s = takeWhile (\<lambda>c. c \<noteq> 0) s"

definition sdsjoin :: "byte list list \<Rightarrow> byte list \<Rightarrow> byte list" where
  "sdsjoin argv sep = join_loop (map cstr argv) (cstr sep) []"

definition sdsmapchars :: "byte list \<Rightarrow> byte list \<Rightarrow> byte list \<Rightarrow> byte list" where
  "sdsmapchars s from to = memmapchars s from to"

section \<open>Model: integers\<close>

function ull_digits :: "nat \<Rightarrow> byte list" where
  "ull_digits v = (48 + word_of_nat (v mod 10)) # (if v div 10 \<noteq> 0 then ull_digits (v div 10) else [])"
  by pat_completeness auto
termination
  by (relation "measure id") auto

declare ull_digits.simps [simp del]

text \<open>
  The digits are produced in reverse and the buffer is then reversed in place by exchanging the
  ends, moving inwards.
\<close>

function reverse_loop :: "byte list \<Rightarrow> nat \<Rightarrow> nat \<Rightarrow> byte list" where
  "reverse_loop b i j = (if i < j \<and> j < length b then reverse_loop (b[i := b ! j, j := b ! i]) (i + 1) (j - 1) else b)"
  by pat_completeness auto
termination
  by (relation "measure (\<lambda>(b, i, j). j - i)") auto

declare reverse_loop.simps [simp del]

definition sdsull2str :: "nat \<Rightarrow> byte list" where
  "sdsull2str v = (let b = ull_digits v in reverse_loop b 0 (length b - 1))"

text \<open>\<open>-value\<close> wraps for \<open>LLONG_MIN\<close> and is then read as unsigned.\<close>

definition sdsll2str :: "int \<Rightarrow> byte list" where
  "sdsll2str v =
     (let u = (if v < 0 then nat ((- v) mod 18446744073709551616) else nat v);
          b = ull_digits u @ (if v < 0 then [45] else [])
      in reverse_loop b 0 (length b - 1))"

section \<open>Model: quoting and argument parsing\<close>

definition hex_char :: "nat \<Rightarrow> byte" where
  "hex_char n = (if n < 10 then 48 + word_of_nat n else 87 + word_of_nat n)"

definition isprint :: "byte \<Rightarrow> bool" where
  "isprint c \<longleftrightarrow> 32 \<le> c \<and> c \<le> 126"

definition isspace :: "byte \<Rightarrow> bool" where
  "isspace c \<longleftrightarrow> c = 32 \<or> c = 9 \<or> c = 10 \<or> c = 11 \<or> c = 12 \<or> c = 13"

definition repr_char :: "byte \<Rightarrow> byte list" where
  "repr_char c =
     (if c = 92 \<or> c = 34 then [92, c]
      else if c = 10 then [92, 110]
      else if c = 13 then [92, 114]
      else if c = 9 then [92, 116]
      else if c = 7 then [92, 97]
      else if c = 8 then [92, 98]
      else if isprint c then [c]
      else [92, 120, hex_char (unat c div 16), hex_char (unat c mod 16)])"

definition sdscatrepr :: "byte list \<Rightarrow> byte list \<Rightarrow> byte list" where
  "sdscatrepr s p = s @ [34] @ concat (map repr_char p) @ [34]"

definition is_hex_digit :: "byte \<Rightarrow> bool" where
  "is_hex_digit c \<longleftrightarrow> (48 \<le> c \<and> c \<le> 57) \<or> (97 \<le> c \<and> c \<le> 102) \<or> (65 \<le> c \<and> c \<le> 70)"

definition hex_digit_to_int :: "byte \<Rightarrow> nat" where
  "hex_digit_to_int c =
     (if 48 \<le> c \<and> c \<le> 57 then unat c - 48
      else if 97 \<le> c \<and> c \<le> 102 then unat c - 87
      else if 65 \<le> c \<and> c \<le> 70 then unat c - 55
      else 0)"

text \<open>The character at an offset of the rest of the line; zero at its end.\<close>

definition at :: "byte list \<Rightarrow> nat \<Rightarrow> byte" where
  "at p i = (if i < length p then p ! i else 0)"

definition unescape :: "byte \<Rightarrow> byte" where
  "unescape c =
     (if c = 110 then 10 else if c = 114 then 13 else if c = 116 then 9 else if c = 98 then 8
      else if c = 97 then 7 else c)"

text \<open>One round of the token loop inside double quotes, inside single quotes, and outside of quotes.\<close>

datatype round = Err | Done "byte list" | More bool bool "byte list" "byte list"

definition round_inq :: "byte list \<Rightarrow> byte list \<Rightarrow> round" where
  "round_inq p cur =
     (if at p 0 = 92 \<and> at p 1 = 120 \<and> is_hex_digit (at p 2) \<and> is_hex_digit (at p 3)
      then More True False (drop 4 p) (cur @ [word_of_nat (hex_digit_to_int (at p 2) * 16 + hex_digit_to_int (at p 3))])
      else if at p 0 = 92 \<and> at p 1 \<noteq> 0 then More True False (drop 2 p) (cur @ [unescape (at p 1)])
      else if at p 0 = 34 then (if at p 1 \<noteq> 0 \<and> \<not> isspace (at p 1) then Err else Done (drop 1 p))
      else if at p 0 = 0 then Err
      else More True False (drop 1 p) (cur @ [at p 0]))"

definition round_insq :: "byte list \<Rightarrow> byte list \<Rightarrow> round" where
  "round_insq p cur =
     (if at p 0 = 92 \<and> at p 1 = 39 then More False True (drop 2 p) (cur @ [39])
      else if at p 0 = 39 then (if at p 1 \<noteq> 0 \<and> \<not> isspace (at p 1) then Err else Done (drop 1 p))
      else if at p 0 = 0 then Err
      else More False True (drop 1 p) (cur @ [at p 0]))"

definition round_plain :: "byte list \<Rightarrow> byte list \<Rightarrow> round" where
  "round_plain p cur =
     (if at p 0 = 32 \<or> at p 0 = 10 \<or> at p 0 = 13 \<or> at p 0 = 9 \<or> at p 0 = 0 then Done (drop 1 p)
      else if at p 0 = 34 then More True False (drop 1 p) cur
      else if at p 0 = 39 then More False True (drop 1 p) cur
      else More False False (drop 1 p) (cur @ [at p 0]))"

definition token_round :: "bool \<Rightarrow> bool \<Rightarrow> byte list \<Rightarrow> byte list \<Rightarrow> round" where
  "token_round inq insq p cur =
     (if inq then round_inq p cur else if insq then round_insq p cur else round_plain p cur)"

lemma token_round_shorter:
  "token_round inq insq p cur = More inq' insq' p' cur' \<Longrightarrow> length p' < length p"
  by (auto simp: token_round_def round_inq_def round_insq_def round_plain_def at_def split: if_splits)

lemma token_round_done: "token_round inq insq p cur = Done p' \<Longrightarrow> p \<noteq> [] \<Longrightarrow> length p' < length p"
  by (auto simp: token_round_def round_inq_def round_insq_def round_plain_def split: if_splits)

text \<open>The rest of the line after a token and the token; \<open>None\<close> is unbalanced quotes.\<close>

function token_loop :: "bool \<Rightarrow> bool \<Rightarrow> byte list \<Rightarrow> byte list \<Rightarrow> (byte list \<times> byte list) option" where
  "token_loop inq insq p cur =
     (case token_round inq insq p cur of
        Err \<Rightarrow> None
      | Done p' \<Rightarrow> Some (p', cur)
      | More inq' insq' p' cur' \<Rightarrow> token_loop inq' insq' p' cur')"
  by pat_completeness auto
termination
  by (relation "measure (\<lambda>(inq, insq, p, cur). length p)") (auto dest: token_round_shorter)

declare token_loop.simps [simp del]

lemma token_loop_shorter: "token_loop inq insq p cur = Some (p', tok) \<Longrightarrow> p \<noteq> [] \<Longrightarrow> length p' < length p"
proof (induction inq insq p cur rule: token_loop.induct)
  case (1 inq insq p cur)
  show ?case
  proof (cases "token_round inq insq p cur")
    case (More inq' insq' q cur')
    note sh = token_round_shorter [OF More]
    have rec: "token_loop inq' insq' q cur' = Some (p', tok)"
      using "1.prems"(1) More by (subst (asm) token_loop.simps) simp
    show ?thesis
    proof (cases "q = []")
      case True
      then have "length p' \<le> 0" using rec
        by (subst (asm) token_loop.simps) (auto simp: token_round_def round_inq_def round_insq_def round_plain_def at_def split: if_splits round.splits)
      then show ?thesis using "1.prems"(2) by simp
    qed (use "1.IH" [OF More] rec sh in simp)
  qed (use "1.prems" in \<open>auto simp: token_loop.simps [of inq insq p cur] dest: token_round_done\<close>)
qed

function splitargs_loop :: "byte list \<Rightarrow> byte list list \<Rightarrow> byte list list option" where
  "splitargs_loop p vector =
     (let p = dropWhile isspace p in
      if p \<noteq> [] then
        (case token_loop False False p [] of
           None \<Rightarrow> None
         | Some (p', tok) \<Rightarrow> splitargs_loop p' (vector @ [tok]))
      else Some vector)"
  by pat_completeness auto
termination
  by (relation "measure (\<lambda>(p, vector). length p)") (auto dest!: token_loop_shorter intro: less_le_trans [OF _ length_dropWhile_le])

declare splitargs_loop.simps [simp del]

definition sdssplitargs :: "byte list \<Rightarrow> byte list list option" where
  "sdssplitargs line = splitargs_loop (cstr line) []"

section \<open>Splitting and joining are inverse\<close>

lemma memcmp_eq_0: "length as = length bs \<Longrightarrow> memcmp as bs = 0 \<longleftrightarrow> as = bs"
  by (induction as bs rule: list_induct2) auto

lemma sep_at_iff:
  assumes "j + length sep \<le> length s"
  shows "sep_at s sep j \<longleftrightarrow> take (length sep) (drop j s) = sep"
proof -
  have "take (length sep) (drop j s) = sep" if "length sep = 1" "s ! j = sep ! 0"
    using that assms by (cases sep) (auto simp: take_Suc hd_drop_conv_nth)
  then show ?thesis using assms memcmp_eq_0 [of "take (length sep) (drop j s)" sep] by (auto simp: sep_at_def)
qed

lemma join_loop_snoc:
  "join_loop (ts @ [t]) sep acc = acc @ concat (map (\<lambda>t. t @ sep) ts) @ t"
  by (induction ts arbitrary: acc) (auto simp: Let_def)

text \<open>No occurrence of the separator starts at one of the positions from \<open>start\<close> up to \<open>j\<close>.\<close>

definition no_sep :: "byte list \<Rightarrow> byte list \<Rightarrow> nat \<Rightarrow> nat \<Rightarrow> bool" where
  "no_sep s sep start j \<longleftrightarrow> (\<forall>i. start \<le> i \<and> i < j \<longrightarrow> take (length sep) (drop i s) \<noteq> sep)"

lemma no_sep_token:
  assumes "no_sep s sep start j" and "start \<le> j" and "sep \<noteq> []"
  shows "\<not> sublist sep (take (j - start) (drop start s))"
proof
  assume "sublist sep (take (j - start) (drop start s))"
  then obtain xs ys where t: "take (j - start) (drop start s) = xs @ sep @ ys" by (auto simp: sublist_def)
  have "length (take (j - start) (drop start s)) \<le> j - start" by simp
  then have len: "length xs + length sep \<le> j - start" unfolding t by simp
  have "take (length sep) (drop (start + length xs) s) = take (length sep) (drop (length xs) (take (j - start) (drop start s)))"
    using len by (simp add: drop_take add.commute min_def)
  also have "\<dots> = sep" using t by simp
  finally have "take (length sep) (drop (start + length xs) s) = sep" .
  moreover have "start + length xs < j" using len assms(2,3) by (cases sep) auto
  ultimately show False using assms(1) by (auto simp: no_sep_def)
qed

lemma split_loop_correct:
  assumes "sep \<noteq> []"
  shows "start \<le> j \<Longrightarrow> j \<le> length s \<Longrightarrow> length tokens < slots \<Longrightarrow> no_sep s sep start j
     \<Longrightarrow> concat (map (\<lambda>t. t @ sep) tokens) @ drop start s = s
     \<Longrightarrow> \<exists>ts t. split_loop s sep j start tokens slots = Some (tokens @ ts @ [t])
       \<and> concat (map (\<lambda>t. t @ sep) (tokens @ ts)) @ t = s \<and> (\<forall>x \<in> set (ts @ [t]). \<not> sublist sep x)"
  using assms
proof (induction s sep j start tokens slots rule: split_loop.induct)
  case (1 s sep j start tokens slots)
  let ?slots = "if slots < length tokens + 2 then slots * 2 else slots"
  show ?case
  proof (cases "int j < int (length s) - (int (length sep) - 1)")
    case False
    have "no_sep s sep start (length s)"
      unfolding no_sep_def
    proof (intro allI impI notI)
      fix i assume i: "start \<le> i \<and> i < length s" and eq: "take (length sep) (drop i s) = sep"
      have "length (take (length sep) (drop i s)) = length sep" unfolding eq ..
      then have "i + length sep \<le> length s" using i by (simp add: min_def split: if_splits)
      then show False using i eq False "1.prems"(4) by (cases "i < j") (auto simp: no_sep_def)
    qed
    then have "\<not> sublist sep (drop start s)" using no_sep_token [of s sep start "length s"] "1.prems" by simp
    then show ?thesis using False "1.prems" by (subst split_loop.simps) auto
  next
    case True
    have fits: "j + length sep \<le> length s" using True by simp
    have sl: "length tokens + 2 \<le> ?slots" using "1.prems"(3) by simp
    show ?thesis
    proof (cases "sep_at s sep j")
      case sep: True
      then have eq: "take (length sep) (drop j s) = sep" using sep_at_iff [OF fits] by simp
      let ?t = "take (j - start) (drop start s)"
      have nt: "\<not> sublist sep ?t" using no_sep_token "1.prems" by blast
      have "drop start s = ?t @ drop j s" using "1.prems"(1)
        by (metis append_take_drop_id drop_drop le_add_diff_inverse2)
      also have "drop j s = sep @ drop (j + length sep) s"
        using eq by (metis append_take_drop_id drop_drop add.commute)
      finally have "concat (map (\<lambda>t. t @ sep) (tokens @ [?t])) @ drop (j + length sep) s = s" using "1.prems"(5) by simp
      then obtain ts t where "split_loop s sep (j + length sep) (j + length sep) (tokens @ [?t]) ?slots = Some ((tokens @ [?t]) @ ts @ [t])"
          "concat (map (\<lambda>t. t @ sep) ((tokens @ [?t]) @ ts)) @ t = s" "\<forall>x \<in> set (ts @ [t]). \<not> sublist sep x"
        using "1.IH"(1) [of ?slots] True sep fits sl "1.prems" by (auto simp: no_sep_def)
      then show ?thesis using True sep sl nt "1.prems"(6)
        by (subst split_loop.simps) (auto simp: Let_def intro!: exI [of _ "?t # ts"] exI [of _ t])
    next
      case nosep: False
      then have "no_sep s sep start (j + 1)"
        using "1.prems"(4) sep_at_iff [OF fits] by (auto simp: no_sep_def less_Suc_eq)
      moreover have "j + 1 \<le> length s" using True "1.prems"(6) by (cases sep) auto
      ultimately obtain ts t where "split_loop s sep (j + 1) start tokens ?slots = Some (tokens @ ts @ [t])"
          "concat (map (\<lambda>t. t @ sep) (tokens @ ts)) @ t = s" "\<forall>x \<in> set (ts @ [t]). \<not> sublist sep x"
        using "1.IH"(2) [of ?slots] True nosep sl "1.prems" by auto
      then show ?thesis using True nosep "1.prems"(6) by (subst split_loop.simps) (auto simp: Let_def)
    qed
  qed
qed

text \<open>
  \<open>sdssplitlen\<close> with a non-empty separator splits a string into tokens that do not contain the
  separator and that, joined with it by \<open>sdsjoinsds\<close>, give the string back; the array of tokens is
  always large enough for the token stored.
\<close>

theorem sdssplitlen_join:
  assumes "sep \<noteq> []"
  shows "\<exists>tokens. sdssplitlen s sep = Some (Some tokens) \<and> sdsjoinsds tokens sep = s \<and> (\<forall>t \<in> set tokens. \<not> sublist sep t)"
proof (cases "s = []")
  case True
  then show ?thesis using assms by (cases sep) (auto simp: sdssplitlen_def sdsjoinsds_def)
next
  case False
  obtain ts t where "split_loop s sep 0 0 [] 5 = Some (ts @ [t])" "concat (map (\<lambda>t. t @ sep) ts) @ t = s"
      "\<forall>x \<in> set (ts @ [t]). \<not> sublist sep x"
    using split_loop_correct [OF assms, of 0 0 s "[]" 5] by (auto simp: no_sep_def)
  then show ?thesis using False assms join_loop_snoc [of ts t sep "[]"]
    by (cases sep) (auto simp: sdssplitlen_def sdsjoinsds_def)
qed

theorem sdssplitlen_join_witness:
  "\<exists>tokens. sdssplitlen [1, 2, 9, 9, 3] [9, 9] = Some (Some tokens) \<and> sdsjoinsds tokens [9, 9] = [1, 2, 9, 9, 3]"
  using sdssplitlen_join [of "[9, 9]" "[1, 2, 9, 9, 3]"] by auto

section \<open>Integers\<close>

lemma length_reverse_loop [simp]: "length (reverse_loop b i j) = length b"
proof (induction b i j rule: reverse_loop.induct)
  case (1 b i j)
  then show ?case by (subst reverse_loop.simps) auto
qed

lemma nth_reverse_loop:
  "j < length b \<Longrightarrow> k < length b \<Longrightarrow> reverse_loop b i j ! k = (if i \<le> k \<and> k \<le> j then b ! (i + j - k) else b ! k)"
proof (induction b i j rule: reverse_loop.induct)
  case (1 b i j)
  show ?case
  proof (cases "i < j")
    case False
    then have "b ! k = b ! (i + j - k)" if "i \<le> k \<and> k \<le> j"
      using that by (auto intro!: arg_cong [of _ _ "nth b"])
    then show ?thesis using False by (subst reverse_loop.simps) auto
  next
    case True
    let ?b = "b[i := b ! j, j := b ! i]"
    have "reverse_loop b i j ! k = (if i + 1 \<le> k \<and> k \<le> j - 1 then ?b ! (i + 1 + (j - 1) - k) else ?b ! k)"
      using True "1.prems" "1.IH" by (subst reverse_loop.simps) simp
    also have "\<dots> = (if i \<le> k \<and> k \<le> j then b ! (i + j - k) else b ! k)"
      using True "1.prems" by (auto simp: nth_list_update)
    finally show ?thesis .
  qed
qed

lemma reverse_loop_rev: "reverse_loop b 0 (length b - 1) = rev b"
proof (cases "b = []")
  case False
  then show ?thesis by (intro nth_equalityI) (auto simp: nth_reverse_loop rev_nth intro!: arg_cong [of _ _ "nth b"])
qed (simp add: reverse_loop.simps)

lemma ull_digits_dec: "ull_digits v = rev (dec_nat v)"
proof (induction v rule: ull_digits.induct)
  case (1 v)
  show ?case
  proof (cases "v < 10")
    case True
    then show ?thesis by (subst ull_digits.simps) (simp add: dec_nat_small)
  next
    case False
    then have "v div 10 \<noteq> 0" by (simp add: div_eq_0_iff)
    then show ?thesis using 1 False by (subst ull_digits.simps) (simp add: dec_nat_snoc [of v])
  qed
qed

lemma sdsll2str_dec: "int64 v \<Longrightarrow> sdsll2str v = dec_int v"
  unfolding sdsll2str_def Let_def reverse_loop_rev by (auto simp: dec_int_def ull_digits_dec int64_def)

text \<open>
  \<open>sdsll2str\<close> prints the canonical decimal representation of every 64-bit integer, \<open>LLONG_MIN\<close>
  included; it agrees with \<open>ll2string\<close>.
\<close>

theorem sdsll2str_correct: "int64 v \<Longrightarrow> sdsll2str v = dec_int v"
  by (rule sdsll2str_dec)

theorem sdsll2str_correct_witness: "sdsll2str (-9223372036854775808) = dec_int (-9223372036854775808)"
  using sdsll2str_correct [of "-9223372036854775808"] by (simp add: int64_def)

section \<open>Quoting is inverted by the argument parser\<close>

lemma at_simps [simp]: "at (c # p) 0 = c" "at (c # p) (Suc n) = at p n" "at [] n = 0"
  "at (c # p) (numeral k) = at p (pred_numeral k)"
  by (simp_all add: at_def numeral_eq_Suc)

lemma hex_char_digit: "n < 16 \<Longrightarrow> is_hex_digit (hex_char n) \<and> hex_digit_to_int (hex_char n) = n"
proof -
  have "list_all (\<lambda>n. is_hex_digit (hex_char n) \<and> hex_digit_to_int (hex_char n) = n) [0..<16]" by code_simp
  then show "n < 16 \<Longrightarrow> ?thesis" by (simp add: list_all_iff)
qed

lemma nibble_less: "unat (c :: byte) div 16 < 16"
proof -
  have "unat c < 2 ^ LENGTH(8)" by (rule unsigned_less)
  then show ?thesis by simp
qed

lemma token_loop_more:
  "token_round inq insq p cur = More inq' insq' p' cur' \<Longrightarrow> token_loop inq insq p cur = token_loop inq' insq' p' cur'"
  by (subst token_loop.simps) simp

lemma round_hex:
  assumes "unat c = a * 16 + b" and "a < 16" and "b < 16"
  shows "round_inq ([92, 120, hex_char a, hex_char b] @ rest) cur = More True False rest (cur @ [c])"
proof -
  have "word_of_nat (a * 16 + b) = c" unfolding assms(1) [symmetric] by simp
  then show ?thesis using hex_char_digit [OF assms(2)] hex_char_digit [OF assms(3)] by (simp add: round_inq_def)
qed

lemma round_escape: "e \<noteq> 0 \<Longrightarrow> e \<noteq> 120 \<Longrightarrow> round_inq ([92, e] @ rest) cur = More True False rest (cur @ [unescape e])"
  by (simp add: round_inq_def)

lemma round_literal: "c \<noteq> 92 \<Longrightarrow> c \<noteq> 34 \<Longrightarrow> c \<noteq> 0 \<Longrightarrow> round_inq ([c] @ rest) cur = More True False rest (cur @ [c])"
  by (simp add: round_inq_def)

lemma token_repr_char: "token_loop True False (repr_char c @ rest) cur = token_loop True False rest (cur @ [c])"
proof (rule token_loop_more)
  have n0: "c \<noteq> 0" if "isprint c" using that by (auto simp: isprint_def)
  have "round_inq (repr_char c @ rest) cur = More True False rest (cur @ [c])"
  proof -
    consider (q) "c = 92" | (d) "c = 34" | (n) "c = 10" | (r) "c = 13" | (t) "c = 9" | (a) "c = 7" | (b) "c = 8"
      | (p) "isprint c" "c \<notin> {92, 34, 10, 13, 9, 7, 8}" | (x) "\<not> isprint c" "c \<notin> {92, 34, 10, 13, 9, 7, 8}" by blast
    then show ?thesis
    proof cases
      case p
      then show ?thesis using round_literal [of c rest cur] n0 by (simp add: repr_char_def)
    next
      case x
      then have "repr_char c = [92, 120, hex_char (unat c div 16), hex_char (unat c mod 16)]" by (simp add: repr_char_def)
      then show ?thesis using round_hex [of c "unat c div 16" "unat c mod 16" rest cur] nibble_less [of c] by simp
    qed (simp_all add: repr_char_def round_escape [simplified] unescape_def)
  qed
  then show "token_round True False (repr_char c @ rest) cur = More True False rest (cur @ [c])"
    by (simp add: token_round_def)
qed

lemma token_repr:
  "token_loop True False (concat (map repr_char p) @ [34, 32] @ rest) cur = Some (32 # rest, cur @ p)"
proof (induction p arbitrary: cur)
  case Nil
  show ?case by (subst token_loop.simps) (simp add: token_round_def round_inq_def isspace_def)
next
  case (Cons c p)
  then show ?case by (simp add: token_repr_char)
qed

lemma repr_char_nonzero: "0 \<notin> set (repr_char c)"
proof -
  have "hex_char n \<noteq> 0" if "n < 16" for n
  proof -
    have "list_all (\<lambda>n. hex_char n \<noteq> 0) [0..<16]" by code_simp
    then show ?thesis using that by (simp add: list_all_iff)
  qed
  moreover note nibble_less [of c]
  moreover have "c \<noteq> 0" if "isprint c" using that by (auto simp: isprint_def)
  ultimately show ?thesis by (auto simp: repr_char_def)
qed

lemma splitargs_repr:
  "splitargs_loop (concat (map (\<lambda>p. sdscatrepr [] p @ [32]) ps)) vec = Some (vec @ ps)"
proof (induction ps arbitrary: vec)
  case Nil
  show ?case by (subst splitargs_loop.simps) simp
next
  case (Cons p ps)
  let ?rest = "concat (map (\<lambda>p. sdscatrepr [] p @ [32]) ps)"
  have "token_loop False False (34 # concat (map repr_char p) @ [34, 32] @ ?rest) [] = Some (32 # ?rest, p)"
    using token_repr [of p ?rest "[]"]
    by (subst token_loop_more [of _ _ _ _ True False "concat (map repr_char p) @ [34, 32] @ ?rest" "[]"])
      (simp_all add: token_round_def round_plain_def)
  moreover have "dropWhile isspace (concat (map (\<lambda>p. sdscatrepr [] p @ [32]) (p # ps)))
      = 34 # concat (map repr_char p) @ [34, 32] @ ?rest" by (simp add: sdscatrepr_def isspace_def)
  moreover have "splitargs_loop (32 # ?rest) (vec @ [p]) = splitargs_loop ?rest (vec @ [p])"
    by (subst (1 2) splitargs_loop.simps) (simp add: isspace_def)
  ultimately show ?case using Cons by (subst splitargs_loop.simps) simp
qed

text \<open>
  C40: the argument parser inverts quoting: any list of binary strings, each quoted by \<open>sdscatrepr\<close>
  and followed by a space, is parsed by \<open>sdssplitargs\<close> back into exactly those strings.
\<close>

theorem sdssplitargs_sdscatrepr:
  "sdssplitargs (concat (map (\<lambda>p. sdscatrepr [] p @ [32]) ps)) = Some ps"
proof -
  have "0 \<notin> set (concat (map (\<lambda>p. sdscatrepr [] p @ [32]) ps))"
    using repr_char_nonzero by (auto simp: sdscatrepr_def)
  then have "cstr (concat (map (\<lambda>p. sdscatrepr [] p @ [32]) ps)) = concat (map (\<lambda>p. sdscatrepr [] p @ [32]) ps)"
    unfolding cstr_def by (intro takeWhile_eq_all_conv [THEN iffD2]) auto
  then show ?thesis using splitargs_repr [of ps "[]"] by (simp add: sdssplitargs_def)
qed

end
