(* ===== verification/Set_Type.thy ===== *)
theory Set_Type
  imports Intset Dict_Iter Sds_Text
begin

text \<open>
  The set data type, \<open>src/redis-6.2.0/src/t_set.c\<close>: an object that is encoded as an integer set while
  all its elements are canonical integers and there are not too many of them, and as a hash table
  otherwise.  Elements are texts of dynamic strings.  What the functions read from the server (the
  hash function, the contents of new memory, whether hash tables may be resized, the configured
  limit, the addresses of tables that fingerprints mention) is the environment \<open>set_env\<close>.
\<close>

section \<open>Model: the set object\<close>

record set_env =
  env_hash :: "byte list \<Rightarrow> u64"
  env_fresh :: "nat \<Rightarrow> byte"
  env_can_resize :: bool
  env_max_intset :: nat
  env_addr :: "u64 \<times> u64"

definition dictSdsKeyCompare :: "byte list \<Rightarrow> byte list \<Rightarrow> bool" where
  "dictSdsKeyCompare a b = (if length a \<noteq> length b then False else memcmp a b = 0)"

definition setDictType :: "(byte list \<Rightarrow> u64) \<Rightarrow> (byte list, unit) dictType" where
  "setDictType h = \<lparr>hashFunction = h, keyDup = None, valDup = None, keyCompare = Some dictSdsKeyCompare, expandAllowed = None\<rparr>"

datatype setobj =
  is_OBJ_ENCODING_INTSET: OBJ_ENCODING_INTSET intset
| OBJ_ENCODING_HT "(byte list, unit) dict"

definition createSetObject :: "set_env \<Rightarrow> setobj" where
  "createSetObject env = OBJ_ENCODING_HT (dictCreate (setDictType (env_hash env)))"

definition createIntsetObject :: setobj where
  "createIntsetObject = OBJ_ENCODING_INTSET intsetNew"

definition isSdsRepresentableAsLongLong :: "byte list \<Rightarrow> int option" where
  "isSdsRepresentableAsLongLong s = string2ll s"

definition setTypeCreate :: "set_env \<Rightarrow> byte list \<Rightarrow> setobj" where
  "setTypeCreate env v = (if isSdsRepresentableAsLongLong v \<noteq> None then createIntsetObject else createSetObject env)"

definition setTypeSize :: "setobj \<Rightarrow> nat" where
  "setTypeSize subject = (case subject of OBJ_ENCODING_HT d \<Rightarrow> dictSize d | OBJ_ENCODING_INTSET is \<Rightarrow> intsetLen is)"

section \<open>Model: iteration\<close>

datatype set_iter = IterHT "(byte list, unit) dictIterator" | IterIntset nat

datatype set_elem = ElemStr "byte list" | ElemInt int

definition setTypeInitIterator :: "setobj \<Rightarrow> set_iter" where
  "setTypeInitIterator subject =
     (case subject of OBJ_ENCODING_HT d \<Rightarrow> IterHT dictGetIterator | OBJ_ENCODING_INTSET is \<Rightarrow> IterIntset 0)"

text \<open>\<open>None\<close> in the last component is the result \<open>-1\<close>; an iterator on another encoding is a crash.\<close>

definition setTypeNext :: "set_env \<Rightarrow> setobj \<Rightarrow> set_iter \<Rightarrow> (setobj \<times> set_iter \<times> set_elem option) option" where
  "setTypeNext env subject si =
     (case (subject, si) of
        (OBJ_ENCODING_HT d, IterHT di) \<Rightarrow> do {
          (d', di', de) \<leftarrow> dictNext (env_addr env) d di;
          Some (OBJ_ENCODING_HT d', IterHT di', map_option (\<lambda>e. ElemStr (de_key e)) de)
        }
      | (OBJ_ENCODING_INTSET is, IterIntset ii) \<Rightarrow> do {
          v \<leftarrow> intsetGet is ii;
          Some (OBJ_ENCODING_INTSET is, IterIntset (ii + 1), map_option ElemInt v)
        }
      | _ \<Rightarrow> None)"

definition elem_sds :: "set_elem \<Rightarrow> byte list" where
  "elem_sds e = (case e of ElemInt v \<Rightarrow> sdsll2str v | ElemStr s \<Rightarrow> s)"

definition setTypeNextObject :: "set_env \<Rightarrow> setobj \<Rightarrow> set_iter \<Rightarrow> (setobj \<times> set_iter \<times> byte list option) option" where
  "setTypeNextObject env subject si = do {
     (subject', si', e) \<leftarrow> setTypeNext env subject si;
     Some (subject', si', map_option elem_sds e)
   }"

definition setTypeReleaseIterator :: "set_env \<Rightarrow> setobj \<Rightarrow> set_iter \<Rightarrow> setobj option" where
  "setTypeReleaseIterator env subject si =
     (case (subject, si) of
        (OBJ_ENCODING_HT d, IterHT di) \<Rightarrow> map_option OBJ_ENCODING_HT (dictReleaseIterator (env_addr env) d di)
      | _ \<Rightarrow> Some subject)"

text \<open>
  The loop of all clients: initialise an iterator, run a body on every element, release the
  iterator.  The body works on another object, the state \<open>st\<close>.
\<close>

partial_function (option) foreach_loop ::
  "set_env \<Rightarrow> (set_elem \<Rightarrow> 'b \<Rightarrow> 'b option) \<Rightarrow> setobj \<Rightarrow> set_iter \<Rightarrow> 'b \<Rightarrow> (setobj \<times> set_iter \<times> 'b) option" where
  "foreach_loop env body subject si st = do {
     (subject', si', e) \<leftarrow> setTypeNext env subject si;
     (case e of
        None \<Rightarrow> Some (subject', si', st)
      | Some e \<Rightarrow> do { st' \<leftarrow> body e st; foreach_loop env body subject' si' st' })
   }"

definition foreach :: "set_env \<Rightarrow> (set_elem \<Rightarrow> 'b \<Rightarrow> 'b option) \<Rightarrow> setobj \<Rightarrow> 'b \<Rightarrow> (setobj \<times> 'b) option" where
  "foreach env body subject st = do {
     (subject', si', st') \<leftarrow> foreach_loop env body subject (setTypeInitIterator subject) st;
     subject'' \<leftarrow> setTypeReleaseIterator env subject' si';
     Some (subject'', st')
   }"

section \<open>Model: conversion, insertion, removal, lookup\<close>

definition setTypeConvert :: "set_env \<Rightarrow> setobj \<Rightarrow> setobj option" where
  "setTypeConvert env subject =
     (case subject of
        OBJ_ENCODING_HT _ \<Rightarrow> None
      | OBJ_ENCODING_INTSET is \<Rightarrow> do {
          (d, _) \<leftarrow> dictExpand (dictCreate (setDictType (env_hash env))) (intsetLen is);
          (_, d) \<leftarrow> foreach env
            (\<lambda>e d. do { (d', ok) \<leftarrow> dictAdd (env_can_resize env) d (elem_sds e) (); require ok; Some d' }) subject d;
          Some (OBJ_ENCODING_HT d)
        })"

text \<open>
  In a hash table the key of the new entry is a copy of the value, which has the same text, and
  the entry gets a null value.
\<close>

definition setTypeAdd :: "set_env \<Rightarrow> setobj \<Rightarrow> byte list \<Rightarrow> (setobj \<times> bool) option" where
  "setTypeAdd env subject value =
     (case subject of
        OBJ_ENCODING_HT ht \<Rightarrow> do {
          (ht', r) \<leftarrow> dictAddRaw (env_can_resize env) ht value;
          (case r of
             Inr de \<Rightarrow> do { ht'' \<leftarrow> dictSetVal ht' de (); Some (OBJ_ENCODING_HT ht'', True) }
           | Inl _ \<Rightarrow> Some (OBJ_ENCODING_HT ht', False))
        }
      | OBJ_ENCODING_INTSET is \<Rightarrow>
          (case isSdsRepresentableAsLongLong value of
             Some llval \<Rightarrow> do {
               (is', success) \<leftarrow> intsetAdd (env_fresh env) is llval;
               if success then
                 if intsetLen is' > env_max_intset env
                 then map_option (\<lambda>o'. (o', True)) (setTypeConvert env (OBJ_ENCODING_INTSET is'))
                 else Some (OBJ_ENCODING_INTSET is', True)
               else Some (OBJ_ENCODING_INTSET is', False)
             }
           | None \<Rightarrow> do {
               o' \<leftarrow> setTypeConvert env subject;
               (case o' of
                  OBJ_ENCODING_HT ht \<Rightarrow> do {
                    (ht', ok) \<leftarrow> dictAdd (env_can_resize env) ht value ();
                    require ok;
                    Some (OBJ_ENCODING_HT ht', True)
                  }
                | OBJ_ENCODING_INTSET _ \<Rightarrow> None)
             }))"

definition HASHTABLE_MIN_FILL :: nat where "HASHTABLE_MIN_FILL = 10"

definition htNeedsResize :: "('k, 'v) dict \<Rightarrow> bool" where
  "htNeedsResize d = (dictSlots d > DICT_HT_INITIAL_SIZE \<and> dictSize d * 100 div dictSlots d < HASHTABLE_MIN_FILL)"

definition setTypeRemove :: "set_env \<Rightarrow> setobj \<Rightarrow> byte list \<Rightarrow> (setobj \<times> bool) option" where
  "setTypeRemove env setobj value =
     (case setobj of
        OBJ_ENCODING_HT ht \<Rightarrow> do {
          (ht', deleted) \<leftarrow> dictDelete ht value;
          if deleted then
            if htNeedsResize ht'
            then do { (ht'', _) \<leftarrow> dictResize (env_can_resize env) ht'; Some (OBJ_ENCODING_HT ht'', True) }
            else Some (OBJ_ENCODING_HT ht', True)
          else Some (OBJ_ENCODING_HT ht', False)
        }
      | OBJ_ENCODING_INTSET is \<Rightarrow>
          (case isSdsRepresentableAsLongLong value of
             Some llval \<Rightarrow> do {
               (is', success) \<leftarrow> intsetRemove (env_fresh env) is llval;
               Some (OBJ_ENCODING_INTSET is', success)
             }
           | None \<Rightarrow> Some (setobj, False)))"

definition setTypeIsMember :: "setobj \<Rightarrow> byte list \<Rightarrow> (setobj \<times> bool) option" where
  "setTypeIsMember subject value =
     (case subject of
        OBJ_ENCODING_HT ht \<Rightarrow> do { (ht', de) \<leftarrow> dictFind ht value; Some (OBJ_ENCODING_HT ht', de \<noteq> None) }
      | OBJ_ENCODING_INTSET is \<Rightarrow>
          (case isSdsRepresentableAsLongLong value of
             Some llval \<Rightarrow> map_option (\<lambda>b. (subject, b)) (intsetFind is llval)
           | None \<Rightarrow> Some (subject, False)))"

text \<open>A random element; \<open>rnd\<close> is the source of random numbers and \<open>p\<close> the number of draws so far.\<close>

definition setTypeRandomElement :: "(nat \<Rightarrow> u64) \<Rightarrow> setobj \<Rightarrow> nat \<Rightarrow> (setobj \<times> set_elem \<times> nat) option" where
  "setTypeRandomElement rnd setobj p =
     (case setobj of
        OBJ_ENCODING_HT d \<Rightarrow> do {
          (d', de, p') \<leftarrow> dictGetFairRandomKey rnd d p;
          e \<leftarrow> de;
          Some (OBJ_ENCODING_HT d', ElemStr (de_key e), p')
        }
      | OBJ_ENCODING_INTSET is \<Rightarrow> do {
          v \<leftarrow> intsetRandom is (unat (rnd p));
          Some (setobj, ElemInt v, p + 1)
        })"

definition setTypeDup :: "set_env \<Rightarrow> setobj \<Rightarrow> (setobj \<times> setobj) option" where
  "setTypeDup env subject =
     (case subject of
        OBJ_ENCODING_INTSET is \<Rightarrow> Some (subject, OBJ_ENCODING_INTSET is)
      | OBJ_ENCODING_HT d \<Rightarrow> do {
          (d', _) \<leftarrow> dictExpand (dictCreate (setDictType (env_hash env))) (dictSize d);
          foreach env (\<lambda>e set. map_option fst (setTypeAdd env set (elem_sds e))) subject (OBJ_ENCODING_HT d')
        })"

section \<open>The hash table as a set\<close>

definition dset_inv :: "(byte list \<Rightarrow> u64) \<Rightarrow> (byte list, unit) dict \<Rightarrow> bool" where
  "dset_inv h d \<longleftrightarrow> dict_wf d \<and> d_type d = setDictType h"

definition dict_keys :: "('k, 'v) dict \<Rightarrow> 'k set" where
  "dict_keys d = de_key ` set_mset (dict_entries d)"

lemma dictSdsKeyCompare_eq [simp]: "dictSdsKeyCompare a b \<longleftrightarrow> a = b"
  by (auto simp: dictSdsKeyCompare_def memcmp_eq_0)

lemma setDictType_ok: "type_ok (setDictType h)"
proof -
  have "dictSdsKeyCompare = (=)" by (simp add: fun_eq_iff)
  then show ?thesis by (simp add: type_ok_def setDictType_def identity_equivp)
qed

lemma dset_same_key: "dset_inv h d \<Longrightarrow> same_key d k k' \<longleftrightarrow> k = k'"
  by (simp add: dset_inv_def same_key_def dictCompareKeys_def setDictType_def)

lemma dset_absent: "dset_inv h d \<Longrightarrow> absent d k \<longleftrightarrow> k \<notin> dict_keys d"
  by (auto simp: absent_def dset_same_key dict_keys_def)

lemma card_unique_keys:
  "(\<And>k. size (filter_mset (\<lambda>e. f e = k) M) \<le> 1) \<Longrightarrow> card (f ` set_mset M) = size M"
proof (induction M)
  case (add x M)
  have "size (filter_mset (\<lambda>e. f e = f x) (add_mset x M)) \<le> 1" using add.prems .
  then have "f x \<notin> f ` set_mset M" by auto
  moreover have "size (filter_mset (\<lambda>e. f e = k) M) \<le> 1" for k
    by (rule le_trans [OF size_mset_mono [OF multiset_filter_mono] add.prems [of k]]) simp
  ultimately show ?case using add.IH by simp
qed simp

lemma dset_card: "dset_inv h d \<Longrightarrow> card (dict_keys d) = size (dict_entries d)"
  unfolding dict_keys_def
proof (rule card_unique_keys)
  fix k assume inv: "dset_inv h d"
  then have "size (filter_mset (\<lambda>e. same_key d k (de_key e)) (dict_entries d)) \<le> 1"
    using dict_wf_unique [of d] by (simp add: dset_inv_def keys_unique_def)
  then show "size (filter_mset (\<lambda>e. de_key e = k) (dict_entries d)) \<le> 1"
    using inv by (simp add: dset_same_key eq_commute)
qed

lemma dset_create: "dset_inv h (dictCreate (setDictType h))" "dict_keys (dictCreate (setDictType h)) = {}"
  by (simp_all add: dset_inv_def dict_wf_def dictCreate_def dictInit_def dictIsRehashing_def setDictType_ok
      keys_unique_def dict_entries_def dict_keys_def)

lemma dset_same_dict: "dset_inv h d \<Longrightarrow> same_dict d d' \<Longrightarrow> dict_wf d' \<Longrightarrow> dset_inv h d' \<and> dict_keys d' = dict_keys d"
  by (simp add: dset_inv_def same_dict_def dict_keys_def)

lemma dset_add:
  assumes inv: "dset_inv h d" and room: "card (dict_keys d) < 2 ^ 60"
  shows "\<exists>d'. dictAdd cr d k () = Some (d', k \<notin> dict_keys d) \<and> dset_inv h d' \<and> dict_keys d' = insert k (dict_keys d)"
proof -
  have wf: "dict_wf d" "dict_room d" using inv room dset_card [OF inv] by (auto simp: dset_inv_def dict_room_def)
  obtain d' where d': "dictAdd cr d k () = Some (d', absent d k)" "dict_wf d'" "d_type d' = d_type d"
      "dict_entries d' = (if absent d k then add_mset (new_entry d k (Some (dup_val d ()))) (dict_entries d) else dict_entries d)"
    using dictAdd_ok [OF wf, of cr k "()"] by blast
  have "de_key (new_entry d k x) = k" for x
    using inv by (simp add: new_entry_def dictSetKey_def dset_inv_def setDictType_def)
  then have "dict_keys d' = insert k (dict_keys d)"
    using d'(4) dset_absent [OF inv, of k] by (auto simp: dict_keys_def)
  then show ?thesis using d' inv dset_absent [OF inv, of k] by (simp add: dset_inv_def)
qed

lemma dset_delete:
  assumes inv: "dset_inv h d"
  shows "\<exists>d'. dictDelete d k = Some (d', k \<in> dict_keys d) \<and> dset_inv h d' \<and> dict_keys d' = dict_keys d - {k}"
proof -
  obtain d' r where g: "dictGenericDelete d k = Some (d', r)" "dict_wf d'" "d_type d' = d_type d"
    and r: "case r of None \<Rightarrow> absent d k \<and> dict_entries d' = dict_entries d
        | Some e \<Rightarrow> e \<in># dict_entries d \<and> same_key d k (de_key e)
            \<and> dict_entries d' = dict_entries d - {#e#} \<and> absent d' k"
    using dictGenericDelete_ok [of d k] inv by (auto simp: dset_inv_def)
  have inv': "dset_inv h d'" using g inv by (simp add: dset_inv_def)
  show ?thesis
  proof (cases r)
    case None
    then show ?thesis using g r inv' dset_absent [OF inv] by (simp add: dictDelete_def dict_keys_def)
  next
    case (Some e)
    then have e: "e \<in># dict_entries d" "de_key e = k" "dict_entries d = add_mset e (dict_entries d')" "k \<notin> dict_keys d'"
      using r dset_same_key [OF inv] dset_absent [OF inv'] by auto
    then have "dict_keys d = insert k (dict_keys d')" by (simp add: dict_keys_def)
    then show ?thesis using g Some inv' e(4) by (simp add: dictDelete_def)
  qed
qed

lemma dset_find:
  assumes inv: "dset_inv h d"
  shows "\<exists>d' r. dictFind d k = Some (d', r) \<and> (r \<noteq> None \<longleftrightarrow> k \<in> dict_keys d) \<and> dset_inv h d' \<and> dict_keys d' = dict_keys d"
proof -
  obtain d' r where f: "dictFind d k = Some (d', r)" "dict_wf d'" "same_dict d d'"
    and r: "case r of None \<Rightarrow> absent d k
        | Some ref \<Rightarrow> \<exists>e. dict_entry d' ref = Some e \<and> e \<in># dict_entries d \<and> same_key d k (de_key e)"
    using dictFind_ok [of d k] inv by (auto simp: dset_inv_def)
  have "r \<noteq> None \<longleftrightarrow> k \<in> dict_keys d"
    using r dset_absent [OF inv, of k] dset_same_key [OF inv] by (auto simp: dict_keys_def split: option.splits)
  then show ?thesis using f dset_same_dict [OF inv f(3,2)] by blast
qed

interpretation dset: set_store "dset_inv h" dict_keys "\<lambda>_. True" "2 ^ 60"
  "\<lambda>d k. dictAdd cr d k ()" dictDelete
  "\<lambda>d k. map_option (\<lambda>(d', r). (d', r \<noteq> None)) (dictFind d k)" for h cr
proof unfold_locales
  fix d :: "(byte list, unit) dict" and k
  assume inv: "dset_inv h d"
  show "finite (dict_keys d)" by (simp add: dict_keys_def)
  show "\<exists>d'. dictDelete d k = Some (d', k \<in> dict_keys d) \<and> dset_inv h d' \<and> dict_keys d' = dict_keys d - {k}"
    using dset_delete [OF inv] .
  show "\<exists>d'. map_option (\<lambda>(d', r). (d', r \<noteq> None)) (dictFind d k) = Some (d', k \<in> dict_keys d)
      \<and> dset_inv h d' \<and> dict_keys d' = dict_keys d"
    using dset_find [OF inv, of k] by auto
  assume "card (dict_keys d) < 2 ^ 60"
  then show "\<exists>d'. dictAdd cr d k () = Some (d', k \<notin> dict_keys d) \<and> dset_inv h d' \<and> dict_keys d' = insert k (dict_keys d)"
    using dset_add [OF inv] by blast
qed

section \<open>Iteration visits every element once\<close>

definition set_elems :: "setobj \<Rightarrow> byte list set" where
  "set_elems s = (case s of OBJ_ENCODING_INTSET is \<Rightarrow> dec_int ` set (intset_elems is) | OBJ_ENCODING_HT d \<Rightarrow> dict_keys d)"

definition set_rep :: "set_env \<Rightarrow> setobj \<Rightarrow> bool" where
  "set_rep env s = (case s of OBJ_ENCODING_INTSET is \<Rightarrow> intset_wf is | OBJ_ENCODING_HT d \<Rightarrow> dset_inv (env_hash env) d)"

definition set_inv :: "set_env \<Rightarrow> setobj \<Rightarrow> bool" where
  "set_inv env s \<longleftrightarrow> env_max_intset env < 536870911 \<and> set_rep env s
     \<and> (case s of OBJ_ENCODING_INTSET is \<Rightarrow> is_length is < 536870911 | _ \<Rightarrow> True)"

text \<open>The elements in the order in which an iterator returns them.\<close>

definition set_list :: "setobj \<Rightarrow> set_elem list" where
  "set_list s = (case s of
       OBJ_ENCODING_INTSET is \<Rightarrow> map ElemInt (intset_elems is)
     | OBJ_ENCODING_HT d \<Rightarrow> map (\<lambda>e. ElemStr (de_key e)) (iter_rest d dictGetIterator))"

fun each :: "('a \<Rightarrow> 'b \<Rightarrow> 'b option) \<Rightarrow> 'a list \<Rightarrow> 'b \<Rightarrow> 'b option" where
  "each body [] st = Some st"
| "each body (x # xs) st = do { st' \<leftarrow> body x st; each body xs st' }"

text \<open>
  \<open>yields env so si es\<close>: an iterator \<open>si\<close> on \<open>so\<close> will return exactly the elements \<open>es\<close>, in this order,
  leaving the object alone, and can then be released.
\<close>

inductive yields :: "set_env \<Rightarrow> setobj \<Rightarrow> set_iter \<Rightarrow> set_elem list \<Rightarrow> bool" for env so where
  yields_end: "setTypeNext env so si = Some (so, si', None) \<Longrightarrow> setTypeReleaseIterator env so si' = Some so
     \<Longrightarrow> yields env so si []"
| yields_next: "setTypeNext env so si = Some (so, si', Some e) \<Longrightarrow> yields env so si' es \<Longrightarrow> yields env so si (e # es)"

lemma dictNext_round_safe: "dictNext_round addr d it = Some (d1, it1, c) \<Longrightarrow> it_safe it1 = it_safe it"
  by (auto simp: dictNext_round_def dictNext_start_def Let_def require_def split: if_splits bind_splits)

lemma dictNext_safe: "dictNext addr d it = Some (d1, it1, r) \<Longrightarrow> it_safe it1 = it_safe it"
proof (induction addr d it rule: dictNext.induct)
  case (1 addr d it)
  have run: "(case dictNext_round addr d it of
        None \<Rightarrow> None
      | Some (d1, it1, None) \<Rightarrow> Some (d1, it1, None)
      | Some (d1, it1, Some []) \<Rightarrow> dictNext addr d1 (it1\<lparr>it_entry := None\<rparr>)
      | Some (d1, it1, Some (e # rest)) \<Rightarrow> Some (d1, it1\<lparr>it_entry := Some e, it_nextEntry := rest\<rparr>, Some e)) = Some (d1, it1, r)"
    using "1.prems" by (subst (asm) dictNext.simps)
  obtain d2 it2 c where rd: "dictNext_round addr d it = Some (d2, it2, c)" using run by (auto split: option.splits)
  consider "c = None" | "c = Some []" | e rest where "c = Some (e # rest)" by (metis list.exhaust option.exhaust)
  then show ?case
  proof cases
    case 2
    then show ?thesis using run rd "1.IH" [OF rd refl refl 2] dictNext_round_safe [OF rd] by simp
  qed (use run rd dictNext_round_safe [OF rd] in auto)
qed

lemma yields_ht:
  assumes "sizes_ok d" and "iter_inv (env_addr env) d d it" and "\<not> it_safe it"
  shows "yields env (OBJ_ENCODING_HT d) (IterHT it) (map (\<lambda>e. ElemStr (de_key e)) (iter_rest d it))"
  using assms(2,3)
proof (induction "iter_rest d it" arbitrary: it)
  case Nil
  obtain d1 it1 r where n: "dictNext (env_addr env) d it = Some (d1, it1, r)" "iter_inv (env_addr env) d d1 it1" "it_index it1 \<noteq> -1"
      "iter_rest d it = (case r of None \<Rightarrow> [] | Some e \<Rightarrow> e # iter_rest d1 it1)"
    using dictNext_spec [OF assms(1) Nil.prems(1)] by blast
  have "\<not> it_safe it1" using dictNext_safe [OF n(1)] Nil.prems(2) by simp
  then have "d1 = d" "r = None" "setTypeReleaseIterator env (OBJ_ENCODING_HT d) (IterHT it1) = Some (OBJ_ENCODING_HT d)"
    using n(2-4) Nil.hyps by (auto simp: iter_inv_def setTypeReleaseIterator_def dictReleaseIterator_def split: option.splits)
  then show ?case using n(1) Nil.hyps yields_end [of env "OBJ_ENCODING_HT d" "IterHT it" "IterHT it1"] by (simp add: setTypeNext_def)
next
  case (Cons e es)
  obtain d1 it1 r where n: "dictNext (env_addr env) d it = Some (d1, it1, r)" "iter_inv (env_addr env) d d1 it1" "it_index it1 \<noteq> -1"
      "iter_rest d it = (case r of None \<Rightarrow> [] | Some e \<Rightarrow> e # iter_rest d1 it1)"
    using dictNext_spec [OF assms(1) Cons.prems(1)] by blast
  have safe: "\<not> it_safe it1" using dictNext_safe [OF n(1)] Cons.prems(2) by simp
  then have eq: "d1 = d" "r = Some e" "es = iter_rest d it1" using n(2-4) Cons.hyps(2) by (auto simp: iter_inv_def split: option.splits)
  have "yields env (OBJ_ENCODING_HT d) (IterHT it1) (map (\<lambda>e. ElemStr (de_key e)) es)"
    using Cons.hyps(1) [OF eq(3)] n(2) safe eq by simp
  moreover have "setTypeNext env (OBJ_ENCODING_HT d) (IterHT it) = Some (OBJ_ENCODING_HT d, IterHT it1, Some (ElemStr (de_key e)))"
    using n(1) eq by (simp add: setTypeNext_def)
  ultimately show ?case unfolding Cons.hyps(2) [symmetric] by (simp add: yields_next)
qed

lemma yields_intset:
  assumes wf: "intset_wf is"
  shows "ii \<le> is_length is \<Longrightarrow> yields env (OBJ_ENCODING_INTSET is) (IterIntset ii) (map ElemInt (drop ii (intset_elems is)))"
proof (induction "is_length is - ii" arbitrary: ii)
  case 0
  then show ?case using intsetGet_correct [OF wf, of ii] yields_end [of env "OBJ_ENCODING_INTSET is" "IterIntset ii" "IterIntset (ii + 1)"]
    by (simp add: setTypeNext_def setTypeReleaseIterator_def)
next
  case (Suc n)
  then have ii: "ii < is_length is" by simp
  then have "drop ii (intset_elems is) = intset_elems is ! ii # drop (Suc ii) (intset_elems is)"
    by (simp add: Cons_nth_drop_Suc del: nth_intset_elems)
  moreover have "is_length is - Suc ii = n" using Suc.hyps(2) by simp
  ultimately show ?case using ii intsetGet_correct [OF wf, of ii] Suc.hyps(1) [of "Suc ii"]
      yields_next [of env "OBJ_ENCODING_INTSET is" "IterIntset ii" "IterIntset (ii + 1)" "ElemInt (intset_elems is ! ii)"]
    by (simp add: setTypeNext_def del: nth_intset_elems)
qed

lemma set_iterator_yields:
  assumes "set_rep env s"
  shows "yields env s (setTypeInitIterator s) (set_list s)"
proof (cases s)
  case (OBJ_ENCODING_INTSET "is")
  then show ?thesis using assms yields_intset [of "is" 0 env]
    by (simp add: set_rep_def setTypeInitIterator_def set_list_def)
next
  case (OBJ_ENCODING_HT d)
  then have "sizes_ok d" using assms by (auto simp: set_rep_def dset_inv_def intro: dict_wf_sizes_ok)
  then show ?thesis using OBJ_ENCODING_HT yields_ht [of d env dictGetIterator]
    by (simp add: setTypeInitIterator_def set_list_def iter_inv_def dictGetIterator_def)
qed

lemma foreach_spec:
  assumes "set_rep env s"
  shows "foreach env body s st = map_option (\<lambda>st'. (s, st')) (each body (set_list s) st)"
proof -
  have "(do { (s', si', st') \<leftarrow> foreach_loop env body s si st; s'' \<leftarrow> setTypeReleaseIterator env s' si'; Some (s'', st') })
      = map_option (\<lambda>st'. (s, st')) (each body es st)" if "yields env s si es" for si es st
    using that
  proof (induction arbitrary: st)
    case (yields_next si si' e es)
    then show ?case by (subst foreach_loop.simps) (cases "body e st"; simp)
  qed (subst foreach_loop.simps; simp)
  then show ?thesis using set_iterator_yields [OF assms] by (simp add: foreach_def)
qed

lemma intset_elems_int64: "intset_wf is \<Longrightarrow> v \<in> set (intset_elems is) \<Longrightarrow> int64 v"
  using intset_elems_range [of "is" v] by (auto simp: intset_wf_def enc_ok_def intset_encs enc_range_def int64_def)

lemma string2ll_dec_int: "int64 v \<Longrightarrow> string2ll (dec_int v) = Some v"
  by (simp add: string2ll_canonical)

lemma dec_int_inj: "int64 v \<Longrightarrow> int64 w \<Longrightarrow> dec_int v = dec_int w \<Longrightarrow> v = w"
  by (metis string2ll_dec_int option.inject)

lemma set_list_texts:
  assumes "set_rep env s"
  shows "distinct (map elem_sds (set_list s))" "set (map elem_sds (set_list s)) = set_elems s"
proof -
  have "distinct (map elem_sds (set_list s)) \<and> set (map elem_sds (set_list s)) = set_elems s"
  proof (cases s)
    case (OBJ_ENCODING_INTSET "is")
    then have wf: "intset_wf is" using assms by (simp add: set_rep_def)
    have m: "map elem_sds (set_list s) = map dec_int (intset_elems is)"
      using OBJ_ENCODING_INTSET intset_elems_int64 [OF wf] by (simp add: set_list_def elem_sds_def sdsll2str_dec)
    have "distinct (intset_elems is)" using wf by (simp add: intset_wf_def strict_sorted_iff)
    moreover have "inj_on dec_int (set (intset_elems is))"
      using dec_int_inj intset_elems_int64 [OF wf] by (intro inj_onI) blast
    ultimately show ?thesis unfolding m using OBJ_ENCODING_INTSET by (simp add: distinct_map set_elems_def)
  next
    case (OBJ_ENCODING_HT d)
    then have inv: "dset_inv (env_hash env) d" using assms by (simp add: set_rep_def)
    have "d_ht1 d = dictReset" if "\<not> dictIsRehashing d" using inv that by (simp add: dict_wf_def dset_inv_def)
    then have es: "mset (iter_rest d dictGetIterator) = dict_entries d"
      by (auto simp: iter_rest_def dictGetIterator_def dict_ht_def dict_entries_def ht_entries_def)
    have m: "map elem_sds (set_list s) = map de_key (iter_rest d dictGetIterator)"
      using OBJ_ENCODING_HT by (simp add: set_list_def elem_sds_def)
    have "set (map de_key (iter_rest d dictGetIterator)) = dict_keys d"
      using arg_cong [OF es, of set_mset] by (simp add: dict_keys_def)
    moreover have "length (map de_key (iter_rest d dictGetIterator)) = card (dict_keys d)"
      using arg_cong [OF es, of size] dset_card [OF inv] by simp
    ultimately show ?thesis unfolding m using OBJ_ENCODING_HT
      by (auto intro!: card_distinct simp: set_elems_def)
  qed
  then show "distinct (map elem_sds (set_list s))" "set (map elem_sds (set_list s)) = set_elems s" by blast+
qed

lemma each_add_all_new:
  "each (\<lambda>e d. do { (d', ok) \<leftarrow> add d (f e); require ok; Some d' }) xs d = add_all_new add (map f xs) d"
proof (induction xs arbitrary: d)
  case (Cons x xs)
  show ?case
  proof (cases "add d (f x)")
    case (Some r)
    obtain d' ok where "r = (d', ok)" by (cases r)
    then show ?thesis using Some Cons.IH [of d'] by (cases ok) simp_all
  qed simp
qed simp

section \<open>The set object implements the set interface\<close>

lemma finite_set_elems: "finite (set_elems s)"
  by (auto simp: set_elems_def dict_keys_def split: setobj.splits)

lemma card_set_elems:
  assumes "set_rep env s"
  shows "card (set_elems s) = setTypeSize s"
proof (cases s)
  case (OBJ_ENCODING_INTSET "is")
  then have wf: "intset_wf is" using assms by (simp add: set_rep_def)
  have "inj_on dec_int (set (intset_elems is))"
    using dec_int_inj intset_elems_int64 [OF wf] by (intro inj_onI) blast
  then show ?thesis using OBJ_ENCODING_INTSET card_intset_elems [OF wf]
    by (simp add: set_elems_def setTypeSize_def intsetLen_def card_image)
next
  case (OBJ_ENCODING_HT d)
  then have inv: "dset_inv (env_hash env) d" using assms by (simp add: set_rep_def)
  then show ?thesis using OBJ_ENCODING_HT dset_card [OF inv] dictSize_entries [of d]
    by (simp add: set_elems_def setTypeSize_def dset_inv_def)
qed

lemma setTypeConvert_ok:
  assumes rep: "set_rep env (OBJ_ENCODING_INTSET is)" and small: "is_length is < 2 ^ 60"
  shows "\<exists>d. setTypeConvert env (OBJ_ENCODING_INTSET is) = Some (OBJ_ENCODING_HT d)
     \<and> dset_inv (env_hash env) d \<and> dict_keys d = set_elems (OBJ_ENCODING_INTSET is)"
proof -
  let ?s = "OBJ_ENCODING_INTSET is" and ?h = "env_hash env"
  have "dict_wf (dictCreate (setDictType ?h))" using dset_create [of ?h] by (simp add: dset_inv_def)
  then obtain d0 b where d0: "dictExpand (dictCreate (setDictType ?h)) (is_length is) = Some (d0, b)" "dict_wf d0"
      "same_dict (dictCreate (setDictType ?h)) d0"
    using dictExpand_wf small by (metis less_imp_le)
  have inv: "dset_inv ?h d0" "dict_keys d0 = {}" using dset_same_dict [OF dset_create(1) d0(3,2)] dset_create(2) by auto
  have "card (dict_keys d0 \<union> set (map elem_sds (set_list ?s))) < 2 ^ 60"
    using small inv(2) set_list_texts(2) [OF rep] card_set_elems [OF rep] by (simp add: setTypeSize_def intsetLen_def)
  then obtain d1 where "add_all_new (\<lambda>d k. dictAdd (env_can_resize env) d k ()) (map elem_sds (set_list ?s)) d0 = Some d1"
      "dset_inv ?h d1" "dict_keys d1 = set_elems ?s"
    using dset.add_all_new_law [OF inv(1), of "map elem_sds (set_list ?s)" "env_can_resize env"]
      set_list_texts [OF rep] inv(2) by auto
  then show ?thesis using d0(1)
    by (simp add: setTypeConvert_def intsetLen_def foreach_spec [OF rep]
        each_add_all_new [of "\<lambda>d k. dictAdd (env_can_resize env) d k ()" elem_sds])
qed

lemma setTypeAdd_ht:
  "setTypeAdd env (OBJ_ENCODING_HT ht) v
   = map_option (\<lambda>(ht', ok). (OBJ_ENCODING_HT ht', ok)) (dictAdd (env_can_resize env) ht v ())"
proof (cases "dictAddRaw (env_can_resize env) ht v")
  case (Some r)
  obtain ht' e where r: "r = (ht', e)" by (cases r)
  show ?thesis
  proof (cases e)
    case (Inr de)
    then show ?thesis using Some r by (cases "dictSetVal ht' de ()") (auto simp: setTypeAdd_def dictAdd_def)
  qed (use Some r in \<open>auto simp: setTypeAdd_def dictAdd_def\<close>)
qed (simp add: setTypeAdd_def dictAdd_def)

lemma set_inv_ht: "dset_inv (env_hash env) d \<Longrightarrow> env_max_intset env < 536870911 \<Longrightarrow> set_inv env (OBJ_ENCODING_HT d)"
  by (simp add: set_inv_def set_rep_def)

lemma intset_text_elem:
  assumes "intset_wf is"
  shows "v \<in> set_elems (OBJ_ENCODING_INTSET is) \<longleftrightarrow> (\<exists>n. string2ll v = Some n \<and> n \<in> set (intset_elems is))"
  using intset_elems_int64 [OF assms] by (auto simp: set_elems_def string2ll_canonical)

lemma set_inv_intset:
  assumes "set_inv env (OBJ_ENCODING_INTSET is)"
  shows "intset_wf is" "card (set (intset_elems is)) < 536870911" "is_length is < 536870911"
    "env_max_intset env < 536870911" "set_rep env (OBJ_ENCODING_INTSET is)"
  using assms card_intset_elems [of "is"] by (auto simp: set_inv_def set_rep_def)

lemma setTypeAdd_intset_int:
  assumes inv: "set_inv env (OBJ_ENCODING_INTSET is)" and v: "string2ll v = Some n"
  shows "\<exists>s'. setTypeAdd env (OBJ_ENCODING_INTSET is) v = Some (s', v \<notin> set_elems (OBJ_ENCODING_INTSET is))
     \<and> set_inv env s' \<and> set_elems s' = insert v (set_elems (OBJ_ENCODING_INTSET is))"
proof -
  note i = set_inv_intset [OF inv]
  have n: "int64 n" "v = dec_int n" using v by (auto simp: string2ll_canonical)
  have mem: "v \<in> set_elems (OBJ_ENCODING_INTSET is) \<longleftrightarrow> n \<in> set (intset_elems is)"
    using intset_text_elem [OF i(1)] v by simp
  obtain is' where is': "intsetAdd (env_fresh env) is n = Some (is', n \<notin> set (intset_elems is))" "intset_wf is'"
      "set (intset_elems is') = insert n (set (intset_elems is))"
    using iset.add_law [OF i(1) n(1) i(2)] by blast
  have elems: "set_elems (OBJ_ENCODING_INTSET is') = insert v (set_elems (OBJ_ENCODING_INTSET is))"
    using is'(3) n(2) by (simp add: set_elems_def)
  have rep: "set_rep env (OBJ_ENCODING_INTSET is')" using is'(2) by (simp add: set_rep_def)
  have len: "is_length is' = (if n \<in> set (intset_elems is) then is_length is else is_length is + 1)"
    using card_intset_elems [OF is'(2)] card_intset_elems [OF i(1)] is'(3) by (auto simp: insert_absorb)
  show ?thesis
  proof (cases "n \<notin> set (intset_elems is) \<and> is_length is' > env_max_intset env")
    case True
    obtain d where "setTypeConvert env (OBJ_ENCODING_INTSET is') = Some (OBJ_ENCODING_HT d)"
        "dset_inv (env_hash env) d" "dict_keys d = set_elems (OBJ_ENCODING_INTSET is')"
      using setTypeConvert_ok [OF rep] len i(3,4) by (auto split: if_splits)
    then show ?thesis using True is'(1) v mem elems set_inv_ht [OF _ i(4)]
      by (simp add: setTypeAdd_def isSdsRepresentableAsLongLong_def intsetLen_def set_elems_def)
  next
    case False
    then have "is_length is' < 536870911" using len i(3,4) by auto
    then have "set_inv env (OBJ_ENCODING_INTSET is')" using rep i(4) by (simp add: set_inv_def)
    then show ?thesis using False is'(1) v mem elems
      by (auto simp: setTypeAdd_def isSdsRepresentableAsLongLong_def intsetLen_def)
  qed
qed

lemma setTypeAdd_intset_text:
  assumes inv: "set_inv env (OBJ_ENCODING_INTSET is)" and v: "string2ll v = None"
  shows "\<exists>s'. setTypeAdd env (OBJ_ENCODING_INTSET is) v = Some (s', v \<notin> set_elems (OBJ_ENCODING_INTSET is))
     \<and> set_inv env s' \<and> set_elems s' = insert v (set_elems (OBJ_ENCODING_INTSET is))"
proof -
  note i = set_inv_intset [OF inv]
  have new: "v \<notin> set_elems (OBJ_ENCODING_INTSET is)" using intset_text_elem [OF i(1)] v by simp
  obtain d where d: "setTypeConvert env (OBJ_ENCODING_INTSET is) = Some (OBJ_ENCODING_HT d)"
      "dset_inv (env_hash env) d" "dict_keys d = set_elems (OBJ_ENCODING_INTSET is)"
    using setTypeConvert_ok [OF i(5)] i(3,4) by auto
  have "card (dict_keys d) < 2 ^ 60"
    using d(3) card_set_elems [OF i(5)] i(3,4) by (simp add: setTypeSize_def intsetLen_def)
  then obtain d' where "dictAdd (env_can_resize env) d v () = Some (d', True)" "dset_inv (env_hash env) d'"
      "dict_keys d' = insert v (set_elems (OBJ_ENCODING_INTSET is))"
    using dset_add [OF d(2), of "env_can_resize env" v] d(3) new by auto
  then show ?thesis using d(1) v new set_inv_ht [OF _ i(4)]
    by (simp add: setTypeAdd_def isSdsRepresentableAsLongLong_def set_elems_def)
qed

lemma set_add_law:
  assumes inv: "set_inv env s" and room: "card (set_elems s) < 2 ^ 60"
  shows "\<exists>s'. setTypeAdd env s v = Some (s', v \<notin> set_elems s) \<and> set_inv env s' \<and> set_elems s' = insert v (set_elems s)"
proof (cases s)
  case (OBJ_ENCODING_INTSET "is")
  then show ?thesis using setTypeAdd_intset_int setTypeAdd_intset_text inv by (cases "string2ll v") auto
next
  case (OBJ_ENCODING_HT d)
  then have d: "dset_inv (env_hash env) d" "env_max_intset env < 536870911" using inv by (simp_all add: set_inv_def set_rep_def)
  obtain d' where "dictAdd (env_can_resize env) d v () = Some (d', v \<notin> dict_keys d)" "dset_inv (env_hash env) d'"
      "dict_keys d' = insert v (dict_keys d)"
    using dset_add [OF d(1), of "env_can_resize env" v] OBJ_ENCODING_HT room by (auto simp: set_elems_def)
  then show ?thesis using OBJ_ENCODING_HT set_inv_ht [OF _ d(2)] by (simp add: setTypeAdd_ht set_elems_def)
qed

lemma set_remove_law:
  assumes inv: "set_inv env s" and room: "card (set_elems s) < 2 ^ 60"
  shows "\<exists>s'. setTypeRemove env s v = Some (s', v \<in> set_elems s) \<and> set_inv env s' \<and> set_elems s' = set_elems s - {v}"
proof (cases s)
  case (OBJ_ENCODING_INTSET "is")
  note i = set_inv_intset [OF inv [unfolded OBJ_ENCODING_INTSET]]
  show ?thesis
  proof (cases "string2ll v")
    case None
    then have "v \<notin> set_elems s" using intset_text_elem [OF i(1)] OBJ_ENCODING_INTSET by simp
    then show ?thesis using None OBJ_ENCODING_INTSET inv
      by (simp add: setTypeRemove_def isSdsRepresentableAsLongLong_def)
  next
    case (Some n)
    then have n: "int64 n" "v = dec_int n" by (auto simp: string2ll_canonical)
    obtain is' where is': "intsetRemove (env_fresh env) is n = Some (is', n \<in> set (intset_elems is))" "intset_wf is'"
        "set (intset_elems is') = set (intset_elems is) - {n}"
      using iset.remove_law [OF i(1) n(1) i(2)] by blast
    have "is_length is' \<le> is_length is"
      using card_intset_elems [OF is'(2)] card_intset_elems [OF i(1)] is'(3) card_Diff1_le [of "set (intset_elems is)" n] by simp
    then have "set_inv env (OBJ_ENCODING_INTSET is')" using is'(2) i(3,4) by (simp add: set_inv_def set_rep_def)
    moreover have "set_elems (OBJ_ENCODING_INTSET is') = set_elems s - {v}"
      using is'(3) n dec_int_inj [OF intset_elems_int64 [OF i(1)] n(1)] OBJ_ENCODING_INTSET by (auto simp: set_elems_def)
    ultimately show ?thesis using is'(1) Some OBJ_ENCODING_INTSET intset_text_elem [OF i(1)]
      by (simp add: setTypeRemove_def isSdsRepresentableAsLongLong_def)
  qed
next
  case (OBJ_ENCODING_HT d)
  then have d: "dset_inv (env_hash env) d" "env_max_intset env < 536870911" using inv by (simp_all add: set_inv_def set_rep_def)
  obtain d' where d': "dictDelete d v = Some (d', v \<in> dict_keys d)" "dset_inv (env_hash env) d'" "dict_keys d' = dict_keys d - {v}"
    using dset_delete [OF d(1), of v] by blast
  have "card (dict_keys d') \<le> card (dict_keys d)" using d'(3) card_Diff1_le [of "dict_keys d" v] by simp
  then have "size (dict_entries d') \<le> 2 ^ 60" using dset_card [OF d'(2)] room OBJ_ENCODING_HT by (simp add: set_elems_def)
  then obtain d'' b where d'': "dictResize (env_can_resize env) d' = Some (d'', b)" "dict_wf d''" "same_dict d' d''"
    using dictResize_wf [of d' "env_can_resize env"] d'(2) by (auto simp: dset_inv_def)
  then have "dset_inv (env_hash env) d'' \<and> dict_keys d'' = dict_keys d - {v}" using dset_same_dict [OF d'(2)] d'(3) by simp
  then show ?thesis using d' d''(1) OBJ_ENCODING_HT set_inv_ht [OF _ d(2)]
    by (simp add: setTypeRemove_def set_elems_def)
qed

lemma set_member_law:
  assumes inv: "set_inv env s" and room: "card (set_elems s) < 2 ^ 60"
  shows "\<exists>s'. setTypeIsMember s v = Some (s', v \<in> set_elems s) \<and> set_inv env s' \<and> set_elems s' = set_elems s"
proof (cases s)
  case (OBJ_ENCODING_INTSET "is")
  note i = set_inv_intset [OF inv [unfolded OBJ_ENCODING_INTSET]]
  show ?thesis
  proof (cases "string2ll v")
    case None
    then show ?thesis using inv OBJ_ENCODING_INTSET intset_text_elem [OF i(1)]
      by (simp add: setTypeIsMember_def isSdsRepresentableAsLongLong_def)
  next
    case (Some n)
    then have "int64 n" by (auto simp: string2ll_canonical)
    then have "intsetFind is n = Some (n \<in> set (intset_elems is))" using iset.member_law [OF i(1) _ i(2), of n] by auto
    then show ?thesis using inv Some OBJ_ENCODING_INTSET intset_text_elem [OF i(1)]
      by (simp add: setTypeIsMember_def isSdsRepresentableAsLongLong_def)
  qed
next
  case (OBJ_ENCODING_HT d)
  then have d: "dset_inv (env_hash env) d" "env_max_intset env < 536870911" using inv by (simp_all add: set_inv_def set_rep_def)
  obtain d' r where "dictFind d v = Some (d', r)" "r \<noteq> None \<longleftrightarrow> v \<in> dict_keys d" "dset_inv (env_hash env) d'" "dict_keys d' = dict_keys d"
    using dset_find [OF d(1), of v] by blast
  then show ?thesis using OBJ_ENCODING_HT set_inv_ht [OF _ d(2)] by (simp add: setTypeIsMember_def set_elems_def)
qed

text \<open>The elements of an object, as a client that iterates over it collects them.\<close>

definition set_texts :: "set_env \<Rightarrow> setobj \<Rightarrow> byte list list option" where
  "set_texts env s = map_option snd (foreach env (\<lambda>e xs. Some (xs @ [elem_sds e])) s [])"

lemma each_collect: "each (\<lambda>e xs. Some (xs @ [f e])) es ys = Some (ys @ map f es)"
  by (induction es arbitrary: ys) simp_all

lemma set_texts_list: "set_rep env s \<Longrightarrow> set_texts env s = Some (map elem_sds (set_list s))"
  by (simp add: set_texts_def foreach_spec each_collect)

interpretation sset: set_object "set_inv env" set_elems "\<lambda>_. True" "2 ^ 60"
  "setTypeAdd env" "setTypeRemove env" setTypeIsMember setTypeSize "set_texts env" for env
proof unfold_locales
  fix s :: setobj and v
  assume inv: "set_inv env s"
  then have rep: "set_rep env s" by (simp add: set_inv_def)
  show "finite (set_elems s)" by (rule finite_set_elems)
  show "setTypeSize s = card (set_elems s)" using card_set_elems [OF rep] by simp
  show "\<exists>xs. set_texts env s = Some xs \<and> distinct xs \<and> set xs = set_elems s"
    using set_texts_list [OF rep] set_list_texts [OF rep] by blast
  assume room: "card (set_elems s) < 2 ^ 60"
  show "\<exists>s'. setTypeAdd env s v = Some (s', v \<notin> set_elems s) \<and> set_inv env s' \<and> set_elems s' = insert v (set_elems s)"
    by (rule set_add_law [OF inv room])
  show "\<exists>s'. setTypeRemove env s v = Some (s', v \<in> set_elems s) \<and> set_inv env s' \<and> set_elems s' = set_elems s - {v}"
    by (rule set_remove_law [OF inv room])
  show "\<exists>s'. setTypeIsMember s v = Some (s', v \<in> set_elems s) \<and> set_inv env s' \<and> set_elems s' = set_elems s"
    by (rule set_member_law [OF inv room])
qed simp

section \<open>Properties\<close>

lemma intsetNew_wf: "intset_wf intsetNew" "intset_elems intsetNew = []"
proof -
  show e: "intset_elems intsetNew = []" by (simp add: intset_elems_def intsetNew_def)
  show "intset_wf intsetNew" by (simp add: intset_wf_def e) (simp add: intsetNew_def enc_ok_def intset_encs)
qed

lemma setTypeCreate_inv:
  assumes "env_max_intset env < 536870911"
  shows "set_inv env (setTypeCreate env v)" "set_elems (setTypeCreate env v) = {}"
  using assms intsetNew_wf dset_create [of "env_hash env"]
  by (auto simp: setTypeCreate_def createIntsetObject_def createSetObject_def set_inv_def set_rep_def set_elems_def)
    (simp add: intsetNew_def)

text \<open>
  C27: A set object implements a mathematical set of texts: every session of additions, removals and
  membership tests on a set created for its first value returns exactly the results of the same
  session on a set that starts empty, and ends in an object with exactly its elements, whatever
  conversions between the two encodings, resizes and rehashing steps happen on the way.  No
  operation fails an assertion or accesses memory outside an object.
\<close>

theorem setType_refines_set:
  assumes "env_max_intset env < 536870911" and "length ops \<le> 2 ^ 60"
  shows "\<exists>s. run_ops (setTypeAdd env) (setTypeRemove env) setTypeIsMember ops (setTypeCreate env v)
       = Some (s, snd (spec_ops ops {}))
     \<and> set_elems s = fst (spec_ops ops {}) \<and> setTypeSize s = card (fst (spec_ops ops {})) \<and> set_inv env s"
proof -
  note new = setTypeCreate_inv [OF assms(1), of v]
  obtain s where "run_ops (setTypeAdd env) (setTypeRemove env) setTypeIsMember ops (setTypeCreate env v)
       = Some (s, snd (spec_ops ops {}))" "set_inv env s" "set_elems s = fst (spec_ops ops {})"
    using sset.run_ops_law [OF new(1), of ops] assms(2) new(2) by auto
  then show ?thesis using sset.size_law by auto
qed

definition ex_env :: set_env where
  "ex_env = \<lparr>env_hash = \<lambda>k. 7, env_fresh = \<lambda>_. 0, env_can_resize = True, env_max_intset = 512, env_addr = (1, 2)\<rparr>"

theorem setType_refines_set_witness:
  "\<exists>s. run_ops (setTypeAdd ex_env) (setTypeRemove ex_env) setTypeIsMember
       [OpAdd [53], OpAdd [120], OpMember [53], OpAdd [53], OpRemove [53], OpMember [53]] (setTypeCreate ex_env [53])
       = Some (s, [True, True, True, False, True, False]) \<and> set_elems s = {[120]} \<and> setTypeSize s = 1"
  using setType_refines_set [of ex_env "[OpAdd [53], OpAdd [120], OpMember [53], OpAdd [53], OpRemove [53], OpMember [53]]" "[53]"]
  by (auto simp: ex_env_def)

lemma each_add_all:
  "each (\<lambda>e s. map_option fst (add s (f e))) xs s = map_option fst (add_all add (map f xs) s n)"
proof (induction xs arbitrary: s n)
  case (Cons x xs)
  show ?case
  proof (cases "add s (f x)")
    case (Some r)
    then show ?thesis using Cons.IH by (cases r) simp
  qed simp
qed simp

lemma add_all_ht: "add_all (setTypeAdd env) xs (OBJ_ENCODING_HT d) n = Some (t, m) \<Longrightarrow> \<not> is_OBJ_ENCODING_INTSET t"
proof (induction xs arbitrary: d n)
  case (Cons x xs)
  then show ?case by (cases "dictAdd (env_can_resize env) d x ()") (auto simp: setTypeAdd_ht)
qed auto

text \<open>
  \<open>setTypeDup\<close> returns a copy with the same elements and the same encoding and leaves the
  original as it was, also when the original is being rehashed.
\<close>

theorem setTypeDup_correct:
  assumes "set_inv env s" and "setTypeSize s < 2 ^ 60"
  shows "\<exists>t. setTypeDup env s = Some (s, t) \<and> set_inv env t \<and> set_elems t = set_elems s
     \<and> is_OBJ_ENCODING_INTSET t = is_OBJ_ENCODING_INTSET s"
proof (cases s)
  case (OBJ_ENCODING_INTSET "is")
  then show ?thesis using assms(1) by (simp add: setTypeDup_def)
next
  case (OBJ_ENCODING_HT d)
  have rep: "set_rep env s" and mx: "env_max_intset env < 536870911" using assms(1) by (simp_all add: set_inv_def)
  have card: "card (set_elems s) < 2 ^ 60" using card_set_elems [OF rep] assms(2) by simp
  let ?h = "env_hash env"
  have "dict_wf (dictCreate (setDictType ?h))" using dset_create [of ?h] by (simp add: dset_inv_def)
  then obtain d0 b where d0: "dictExpand (dictCreate (setDictType ?h)) (dictSize d) = Some (d0, b)" "dict_wf d0"
      "same_dict (dictCreate (setDictType ?h)) d0"
    using dictExpand_wf assms(2) OBJ_ENCODING_HT by (metis less_imp_le setTypeSize_def setobj.simps(6))
  have inv: "set_inv env (OBJ_ENCODING_HT d0)" "set_elems (OBJ_ENCODING_HT d0) = {}"
    using dset_same_dict [OF dset_create(1) d0(3,2)] dset_create(2) set_inv_ht [OF _ mx] by (auto simp: set_elems_def)
  obtain t where t: "add_all (setTypeAdd env) (map elem_sds (set_list s)) (OBJ_ENCODING_HT d0) 0 = Some (t, card (set_elems s))"
      "set_inv env t" "set_elems t = set_elems s"
    using sset.add_all_law [OF inv(1), of "map elem_sds (set_list s)" 0] set_list_texts [OF rep] inv(2) card by auto
  have "setTypeDup env s = Some (s, t)"
    using OBJ_ENCODING_HT d0(1) t(1)
    by (simp add: setTypeDup_def foreach_spec [OF rep [unfolded OBJ_ENCODING_HT]]
        each_add_all [where add = "setTypeAdd env" and f = elem_sds and n = 0])
  then show ?thesis using t OBJ_ENCODING_HT add_all_ht [OF t(1)] by simp
qed


theorem setTypeDup_correct_witness:
  "\<exists>s t. setTypeAdd ex_env (setTypeCreate ex_env [120]) [120] = Some (s, True)
     \<and> setTypeDup ex_env s = Some (s, t) \<and> set_elems t = {[120]} \<and> \<not> is_OBJ_ENCODING_INTSET t"
proof -
  have e: "env_max_intset ex_env < 536870911" "isSdsRepresentableAsLongLong [120] = None"
    by (simp_all add: ex_env_def isSdsRepresentableAsLongLong_def) code_simp
  obtain s where s: "setTypeAdd ex_env (setTypeCreate ex_env [120]) [120] = Some (s, True)" "set_inv ex_env s" "set_elems s = {[120]}"
    using set_add_law [OF setTypeCreate_inv(1) [OF e(1)], of "[120]" "[120]"] setTypeCreate_inv(2) [OF e(1), of "[120]"] by auto
  have "\<not> is_OBJ_ENCODING_INTSET s"
    using s(1) e(2) by (auto simp: setTypeCreate_def createSetObject_def setTypeAdd_ht)
  then show ?thesis using setTypeDup_correct [OF s(2)] s sset.size_law [OF s(2)] by auto
qed

end
