(* ===== verification/Keyspace.thy ===== *)
theory Keyspace
  imports Util
begin

text \<open>
  The keyspace of a database and its expiry rules, \<open>src/redis-6.2.0/src/db.c\<close> and the expire
  commands of \<open>src/redis-6.2.0/src/expire.c\<close>.  The two dictionaries of a \<open>redisDb\<close> are finite maps
  (the theory \<open>Dict\<close> shows that a \<open>dict\<close> behaves as one); the values are a type parameter.
  What the functions read of the server's configuration and of the clock is \<open>config\<close>; what they
  tell the rest of the server (replies, notifications, invalidation of watched keys, commands
  propagated to replicas and to the append-only file) is recorded in order.  A failed
  \<open>serverAssert\<close> is \<open>None\<close>.  Access times, statistics of memory, module callbacks and cluster slots are
  not part of the state.
\<close>

section \<open>Model: server state\<close>

type_synonym key = "byte list"

record client =
  c_is_master :: bool
  c_cmd_readonly :: "bool option"

text \<open>\<open>sv_clock\<close> is what \<open>mstime()\<close> returns, \<open>sv_mstime\<close> the time cached for the running command.\<close>

record config =
  sv_masterhost :: bool
  sv_loading :: bool
  sv_lua_caller :: bool
  sv_lua_time_start :: int
  sv_fixed_time_expire :: int
  sv_mstime :: int
  sv_clock :: int
  sv_paused :: bool
  sv_lazy_expire :: bool
  sv_lazy_server_del :: bool
  sv_lazy_user_del :: bool
  sv_repl_slave_ro :: bool
  sv_current_client :: "client option"

datatype notify_class = NOTIFY_GENERIC | NOTIFY_STRING | NOTIFY_SET | NOTIFY_EXPIRED | NOTIFY_KEY_MISS

datatype event =
  EvNotify notify_class string key
| EvModified key
| EvReady key
| EvPropagateDel bool key
| EvRewriteDel bool key
| EvRewrite string "byte list list"
| EvRememberSlaveKey key

datatype reply =
  ReplyInt int
| ReplyOk
| ReplyNull
| ReplyBulk "byte list"
| ReplyArrayLen int
| ReplySetLen int
| ReplyMapLen int
| ReplyError string

record 'v server =
  db_dict :: "key \<rightharpoonup> 'v"
  db_expires :: "key \<rightharpoonup> int"
  s_dirty :: int
  s_expiredkeys :: nat
  s_hits :: nat
  s_misses :: nat
  s_trace :: "event list"
  s_reply :: "reply list"

definition emit :: "event \<Rightarrow> 'v server \<Rightarrow> 'v server" where
  "emit e s = s\<lparr>s_trace := s_trace s @ [e]\<rparr>"

definition addReply :: "reply \<Rightarrow> 'v server \<Rightarrow> 'v server" where
  "addReply r s = s\<lparr>s_reply := s_reply s @ [r]\<rparr>"

abbreviation notifyKeyspaceEvent :: "notify_class \<Rightarrow> string \<Rightarrow> key \<Rightarrow> 'v server \<Rightarrow> 'v server" where
  "notifyKeyspaceEvent t ev k \<equiv> emit (EvNotify t ev k)"

abbreviation signalModifiedKey :: "key \<Rightarrow> 'v server \<Rightarrow> 'v server" where
  "signalModifiedKey k \<equiv> emit (EvModified k)"

definition add_dirty :: "int \<Rightarrow> 'v server \<Rightarrow> 'v server" where
  "add_dirty n s = s\<lparr>s_dirty := s_dirty s + n\<rparr>"

section \<open>Model: the database API\<close>

definition lookupKey :: "key \<Rightarrow> 'v server \<Rightarrow> 'v option" where
  "lookupKey key s = db_dict s key"

definition dbAdd :: "key \<Rightarrow> 'v \<Rightarrow> 'v server \<Rightarrow> 'v server option" where
  "dbAdd key val s = do {
     require (db_dict s key = None);
     Some (emit (EvReady key) (s\<lparr>db_dict := (db_dict s)(key \<mapsto> val)\<rparr>))
   }"

definition dbAddRDBLoad :: "key \<Rightarrow> 'v \<Rightarrow> 'v server \<Rightarrow> 'v server \<times> bool" where
  "dbAddRDBLoad key val s =
     (if db_dict s key \<noteq> None then (s, False) else (s\<lparr>db_dict := (db_dict s)(key \<mapsto> val)\<rparr>, True))"

definition dbOverwrite :: "key \<Rightarrow> 'v \<Rightarrow> 'v server \<Rightarrow> 'v server option" where
  "dbOverwrite key val s = do {
     require (db_dict s key \<noteq> None);
     Some (s\<lparr>db_dict := (db_dict s)(key \<mapsto> val)\<rparr>)
   }"

text \<open>
  Deletion.  The test whether the dictionary of expires is empty only saves a lookup.  The
  asynchronous variant differs in who releases the memory of the value.
\<close>

definition dbSyncDelete :: "key \<Rightarrow> 'v server \<Rightarrow> 'v server \<times> bool" where
  "dbSyncDelete key s =
     (let s1 = s\<lparr>db_expires := (db_expires s)(key := None)\<rparr> in
      case db_dict s1 key of
        Some _ \<Rightarrow> (s1\<lparr>db_dict := (db_dict s1)(key := None)\<rparr>, True)
      | None \<Rightarrow> (s1, False))"

definition dbAsyncDelete :: "key \<Rightarrow> 'v server \<Rightarrow> 'v server \<times> bool" where
  "dbAsyncDelete key s =
     (let s1 = s\<lparr>db_expires := (db_expires s)(key := None)\<rparr> in
      case db_dict s1 key of
        Some _ \<Rightarrow> (s1\<lparr>db_dict := (db_dict s1)(key := None)\<rparr>, True)
      | None \<Rightarrow> (s1, False))"

definition dbDelete :: "config \<Rightarrow> key \<Rightarrow> 'v server \<Rightarrow> 'v server \<times> bool" where
  "dbDelete cfg key s = (if sv_lazy_server_del cfg then dbAsyncDelete key s else dbSyncDelete key s)"

definition removeExpire :: "key \<Rightarrow> 'v server \<Rightarrow> ('v server \<times> bool) option" where
  "removeExpire key s = do {
     require (db_dict s key \<noteq> None);
     Some (s\<lparr>db_expires := (db_expires s)(key := None)\<rparr>, db_expires s key \<noteq> None)
   }"

definition setExpire :: "config \<Rightarrow> client option \<Rightarrow> key \<Rightarrow> int \<Rightarrow> 'v server \<Rightarrow> 'v server option" where
  "setExpire cfg c key when s = do {
     require (db_dict s key \<noteq> None);
     let s1 = s\<lparr>db_expires := (db_expires s)(key \<mapsto> when)\<rparr>;
     let writable_slave = (sv_masterhost cfg \<and> \<not> sv_repl_slave_ro cfg);
     Some (case c of
             Some c \<Rightarrow> if writable_slave \<and> \<not> c_is_master c then emit (EvRememberSlaveKey key) s1 else s1
           | None \<Rightarrow> s1)
   }"

definition getExpire :: "key \<Rightarrow> 'v server \<Rightarrow> int option" where
  "getExpire key s =
     (case db_expires s key of
        None \<Rightarrow> Some (-1)
      | Some when \<Rightarrow> do { require (db_dict s key \<noteq> None); Some when })"

definition keyIsExpired :: "config \<Rightarrow> key \<Rightarrow> 'v server \<Rightarrow> bool option" where
  "keyIsExpired cfg key s = do {
     when \<leftarrow> getExpire key s;
     Some (if when < 0 then False
           else if sv_loading cfg then False
           else let now = (if sv_lua_caller cfg then sv_lua_time_start cfg
                           else if sv_fixed_time_expire cfg > 0 then sv_mstime cfg
                           else sv_clock cfg)
                in now > when)
   }"

definition expireIfNeeded :: "config \<Rightarrow> key \<Rightarrow> 'v server \<Rightarrow> ('v server \<times> bool) option" where
  "expireIfNeeded cfg key s = do {
     expired \<leftarrow> keyIsExpired cfg key s;
     if \<not> expired then Some (s, False)
     else if sv_masterhost cfg then Some (s, True)
     else if sv_paused cfg then Some (s, True)
     else do {
       let s1 = s\<lparr>s_expiredkeys := s_expiredkeys s + 1\<rparr>;
       let s2 = emit (EvPropagateDel (sv_lazy_expire cfg) key) s1;
       let s3 = notifyKeyspaceEvent NOTIFY_EXPIRED ''expired'' key s2;
       let (s4, retval) = (if sv_lazy_expire cfg then dbAsyncDelete key s3 else dbSyncDelete key s3);
       Some (if retval then signalModifiedKey key s4 else s4, retval)
     }
   }"

section \<open>Model: lookups\<close>

definition keymiss :: "bool \<Rightarrow> key \<Rightarrow> 'v server \<Rightarrow> 'v server" where
  "keymiss nonotify key s =
     (if \<not> nonotify then notifyKeyspaceEvent NOTIFY_KEY_MISS ''keymiss'' key (s\<lparr>s_misses := s_misses s + 1\<rparr>) else s)"

definition readonly_caller :: "config \<Rightarrow> bool" where
  "readonly_caller cfg =
     (case sv_current_client cfg of
        None \<Rightarrow> False
      | Some c \<Rightarrow> \<not> c_is_master c \<and> c_cmd_readonly c = Some True)"

definition lookupKeyReadWithFlags :: "config \<Rightarrow> bool \<Rightarrow> key \<Rightarrow> 'v server \<Rightarrow> ('v server \<times> 'v option) option" where
  "lookupKeyReadWithFlags cfg nonotify key s = do {
     (s1, expired) \<leftarrow> expireIfNeeded cfg key s;
     if expired \<and> \<not> sv_masterhost cfg then Some (keymiss nonotify key s1, None)
     else if expired \<and> readonly_caller cfg then Some (keymiss nonotify key s1, None)
     else (case lookupKey key s1 of
             None \<Rightarrow> Some (keymiss nonotify key s1, None)
           | Some val \<Rightarrow> Some (s1\<lparr>s_hits := s_hits s1 + 1\<rparr>, Some val))
   }"

definition lookupKeyRead :: "config \<Rightarrow> key \<Rightarrow> 'v server \<Rightarrow> ('v server \<times> 'v option) option" where
  "lookupKeyRead cfg key s = lookupKeyReadWithFlags cfg False key s"

definition lookupKeyWrite :: "config \<Rightarrow> key \<Rightarrow> 'v server \<Rightarrow> ('v server \<times> 'v option) option" where
  "lookupKeyWrite cfg key s = do { (s1, _) \<leftarrow> expireIfNeeded cfg key s; Some (s1, lookupKey key s1) }"

definition lookupKeyReadOrReply :: "config \<Rightarrow> key \<Rightarrow> reply \<Rightarrow> 'v server \<Rightarrow> ('v server \<times> 'v option) option" where
  "lookupKeyReadOrReply cfg key reply s = do {
     (s1, o') \<leftarrow> lookupKeyRead cfg key s;
     Some (if o' = None then addReply reply s1 else s1, o')
   }"

definition lookupKeyWriteOrReply :: "config \<Rightarrow> key \<Rightarrow> reply \<Rightarrow> 'v server \<Rightarrow> ('v server \<times> 'v option) option" where
  "lookupKeyWriteOrReply cfg key reply s = do {
     (s1, o') \<leftarrow> lookupKeyWrite cfg key s;
     Some (if o' = None then addReply reply s1 else s1, o')
   }"

definition genericSetKey :: "config \<Rightarrow> key \<Rightarrow> 'v \<Rightarrow> bool \<Rightarrow> bool \<Rightarrow> 'v server \<Rightarrow> 'v server option" where
  "genericSetKey cfg key val keepttl signal s = do {
     (s1, old) \<leftarrow> lookupKeyWrite cfg key s;
     s2 \<leftarrow> (if old = None then dbAdd key val s1 else dbOverwrite key val s1);
     s3 \<leftarrow> (if \<not> keepttl then map_option fst (removeExpire key s2) else Some s2);
     Some (if signal then signalModifiedKey key s3 else s3)
   }"

definition setKey :: "config \<Rightarrow> key \<Rightarrow> 'v \<Rightarrow> 'v server \<Rightarrow> 'v server option" where
  "setKey cfg key val s = genericSetKey cfg key val False True s"

section \<open>Model: commands on keys\<close>

text \<open>Arguments are the texts of the string objects of the command; \<open>long long\<close> arithmetic wraps.\<close>

definition wrap64 :: "int \<Rightarrow> int" where
  "wrap64 x = (x + 9223372036854775808) mod 18446744073709551616 - 9223372036854775808"

definition cdiv :: "int \<Rightarrow> int \<Rightarrow> int" where
  "cdiv a b = sgn a * sgn b * (\<bar>a\<bar> div \<bar>b\<bar>)"

definition getLongLongFromObjectOrReply :: "byte list \<Rightarrow> 'v server \<Rightarrow> 'v server \<times> int option" where
  "getLongLongFromObjectOrReply o' s =
     (case string2ll o' of
        None \<Rightarrow> (addReply (ReplyError ''value is not an integer or out of range'') s, None)
      | Some v \<Rightarrow> (s, Some v))"

definition wrongtypeerr :: reply where
  "wrongtypeerr = ReplyError ''WRONGTYPE Operation against a key holding the wrong kind of value''"

text \<open>\<open>strcasecmp\<close> on C strings, here against a literal in lower case.\<close>

definition case_equal :: "byte list \<Rightarrow> string \<Rightarrow> bool" where
  "case_equal arg lit \<longleftrightarrow> map (\<lambda>c. if 65 \<le> c \<and> c \<le> 90 then c + 32 else c) (takeWhile (\<lambda>c. c \<noteq> 0) arg) = map of_char lit"

fun delGeneric_loop :: "config \<Rightarrow> bool \<Rightarrow> key list \<Rightarrow> nat \<Rightarrow> 'v server \<Rightarrow> ('v server \<times> nat) option" where
  "delGeneric_loop cfg lazy [] numdel s = Some (s, numdel)"
| "delGeneric_loop cfg lazy (key # keys) numdel s = do {
     (s1, _) \<leftarrow> expireIfNeeded cfg key s;
     let (s2, deleted) = (if lazy then dbAsyncDelete key s1 else dbSyncDelete key s1);
     if deleted
     then delGeneric_loop cfg lazy keys (numdel + 1)
            (add_dirty 1 (notifyKeyspaceEvent NOTIFY_GENERIC ''del'' key (signalModifiedKey key s2)))
     else delGeneric_loop cfg lazy keys numdel s2
   }"

definition delGenericCommand :: "config \<Rightarrow> bool \<Rightarrow> key list \<Rightarrow> 'v server \<Rightarrow> 'v server option" where
  "delGenericCommand cfg lazy keys s = do {
     (s1, numdel) \<leftarrow> delGeneric_loop cfg lazy keys 0 s;
     Some (addReply (ReplyInt (int numdel)) s1)
   }"

definition delCommand :: "config \<Rightarrow> key list \<Rightarrow> 'v server \<Rightarrow> 'v server option" where
  "delCommand cfg keys s = delGenericCommand cfg (sv_lazy_user_del cfg) keys s"

definition unlinkCommand :: "config \<Rightarrow> key list \<Rightarrow> 'v server \<Rightarrow> 'v server option" where
  "unlinkCommand cfg keys s = delGenericCommand cfg True keys s"

text \<open>\<open>EXISTS\<close> and \<open>TOUCH\<close> count the keys a read finds; they differ in the access times only.\<close>

fun exists_loop :: "config \<Rightarrow> key list \<Rightarrow> nat \<Rightarrow> 'v server \<Rightarrow> ('v server \<times> nat) option" where
  "exists_loop cfg [] n s = Some (s, n)"
| "exists_loop cfg (key # keys) n s = do {
     (s1, v) \<leftarrow> lookupKeyReadWithFlags cfg False key s;
     exists_loop cfg keys (if v \<noteq> None then n + 1 else n) s1
   }"

definition existsCommand :: "config \<Rightarrow> key list \<Rightarrow> 'v server \<Rightarrow> 'v server option" where
  "existsCommand cfg keys s = do { (s1, n) \<leftarrow> exists_loop cfg keys 0 s; Some (addReply (ReplyInt (int n)) s1) }"

definition touchCommand :: "config \<Rightarrow> key list \<Rightarrow> 'v server \<Rightarrow> 'v server option" where
  "touchCommand cfg keys s = do { (s1, n) \<leftarrow> exists_loop cfg keys 0 s; Some (addReply (ReplyInt (int n)) s1) }"

definition renameGenericCommand :: "config \<Rightarrow> client \<Rightarrow> bool \<Rightarrow> key \<Rightarrow> key \<Rightarrow> 'v server \<Rightarrow> 'v server option" where
  "renameGenericCommand cfg c nx src dst s = do {
     let samekey = (src = dst);
     (s1, o') \<leftarrow> lookupKeyWriteOrReply cfg src (ReplyError ''no such key'') s;
     (case o' of
        None \<Rightarrow> Some s1
      | Some val \<Rightarrow>
          if samekey then Some (addReply (if nx then ReplyInt 0 else ReplyOk) s1)
          else do {
            expire \<leftarrow> getExpire src s1;
            (s2, old) \<leftarrow> lookupKeyWrite cfg dst s1;
            if old \<noteq> None \<and> nx then Some (addReply (ReplyInt 0) s2)
            else do {
              let s3 = (if old \<noteq> None then fst (dbDelete cfg dst s2) else s2);
              s4 \<leftarrow> dbAdd dst val s3;
              s5 \<leftarrow> (if expire \<noteq> -1 then setExpire cfg (Some c) dst expire s4 else Some s4);
              let s6 = fst (dbDelete cfg src s5);
              let s7 = signalModifiedKey dst (signalModifiedKey src s6);
              let s8 = notifyKeyspaceEvent NOTIFY_GENERIC ''rename_from'' src s7;
              let s9 = notifyKeyspaceEvent NOTIFY_GENERIC ''rename_to'' dst s8;
              Some (addReply (if nx then ReplyInt 1 else ReplyOk) (add_dirty 1 s9))
            }
          })
   }"

definition checkAlreadyExpired :: "config \<Rightarrow> int \<Rightarrow> bool" where
  "checkAlreadyExpired cfg when \<longleftrightarrow> when \<le> sv_clock cfg \<and> \<not> sv_loading cfg \<and> \<not> sv_masterhost cfg"

datatype expire_unit = UNIT_SECONDS | UNIT_MILLISECONDS

text \<open>
  The deadline computed from the argument, \<open>None\<close> when an overflow is detected.
\<close>

definition expire_when :: "int \<Rightarrow> expire_unit \<Rightarrow> int \<Rightarrow> int option" where
  "expire_when basetime unit arg =
     (let negative_when = (arg < 0);
          when1 = (if unit = UNIT_SECONDS then wrap64 (arg * 1000) else arg);
          when2 = wrap64 (when1 + basetime)
      in if (when2 < 0 \<and> \<not> negative_when) \<or> (wrap64 (when2 - basetime) > 0 \<and> negative_when)
         then None else Some when2)"

definition expireGenericCommand :: "config \<Rightarrow> client \<Rightarrow> key \<Rightarrow> byte list \<Rightarrow> int \<Rightarrow> expire_unit \<Rightarrow> 'v server \<Rightarrow> 'v server option" where
  "expireGenericCommand cfg c key param basetime unit s =
     (case getLongLongFromObjectOrReply param s of
        (s1, None) \<Rightarrow> Some s1
      | (s1, Some arg) \<Rightarrow>
          (case expire_when basetime unit arg of
             None \<Rightarrow> Some (addReply (ReplyError ''invalid expire time'') s1)
           | Some when \<Rightarrow> do {
               (s2, v) \<leftarrow> lookupKeyWrite cfg key s1;
               if v = None then Some (addReply (ReplyInt 0) s2)
               else if checkAlreadyExpired cfg when then do {
                 let (s3, deleted) = (if sv_lazy_expire cfg then dbAsyncDelete key s2 else dbSyncDelete key s2);
                 require deleted;
                 let s4 = emit (EvRewriteDel (sv_lazy_expire cfg) key) (add_dirty 1 s3);
                 let s5 = notifyKeyspaceEvent NOTIFY_GENERIC ''del'' key (signalModifiedKey key s4);
                 Some (addReply (ReplyInt 1) s5)
               }
               else do {
                 s3 \<leftarrow> setExpire cfg (Some c) key when s2;
                 let s4 = signalModifiedKey key (addReply (ReplyInt 1) s3);
                 Some (add_dirty 1 (notifyKeyspaceEvent NOTIFY_GENERIC ''expire'' key s4))
               }
             }))"

definition expireCommand :: "config \<Rightarrow> client \<Rightarrow> key \<Rightarrow> byte list \<Rightarrow> 'v server \<Rightarrow> 'v server option" where
  "expireCommand cfg c key param s = expireGenericCommand cfg c key param (sv_clock cfg) UNIT_SECONDS s"

definition expireatCommand :: "config \<Rightarrow> client \<Rightarrow> key \<Rightarrow> byte list \<Rightarrow> 'v server \<Rightarrow> 'v server option" where
  "expireatCommand cfg c key param s = expireGenericCommand cfg c key param 0 UNIT_SECONDS s"

definition pexpireCommand :: "config \<Rightarrow> client \<Rightarrow> key \<Rightarrow> byte list \<Rightarrow> 'v server \<Rightarrow> 'v server option" where
  "pexpireCommand cfg c key param s = expireGenericCommand cfg c key param (sv_clock cfg) UNIT_MILLISECONDS s"

definition pexpireatCommand :: "config \<Rightarrow> client \<Rightarrow> key \<Rightarrow> byte list \<Rightarrow> 'v server \<Rightarrow> 'v server option" where
  "pexpireatCommand cfg c key param s = expireGenericCommand cfg c key param 0 UNIT_MILLISECONDS s"

definition ttlGenericCommand :: "config \<Rightarrow> bool \<Rightarrow> key \<Rightarrow> 'v server \<Rightarrow> 'v server option" where
  "ttlGenericCommand cfg output_ms key s = do {
     (s1, v) \<leftarrow> lookupKeyReadWithFlags cfg False key s;
     if v = None then Some (addReply (ReplyInt (-2)) s1)
     else do {
       expire \<leftarrow> getExpire key s1;
       let ttl = (if expire \<noteq> -1 then max 0 (wrap64 (expire - sv_clock cfg)) else -1);
       Some (addReply (ReplyInt (if ttl = -1 then -1 else if output_ms then ttl else cdiv (wrap64 (ttl + 500)) 1000)) s1)
     }
   }"

definition ttlCommand :: "config \<Rightarrow> key \<Rightarrow> 'v server \<Rightarrow> 'v server option" where
  "ttlCommand cfg key s = ttlGenericCommand cfg False key s"

definition pttlCommand :: "config \<Rightarrow> key \<Rightarrow> 'v server \<Rightarrow> 'v server option" where
  "pttlCommand cfg key s = ttlGenericCommand cfg True key s"

definition persistCommand :: "config \<Rightarrow> key \<Rightarrow> 'v server \<Rightarrow> 'v server option" where
  "persistCommand cfg key s = do {
     (s1, v) \<leftarrow> lookupKeyWrite cfg key s;
     if v \<noteq> None then do {
       (s2, removed) \<leftarrow> removeExpire key s1;
       if removed
       then Some (add_dirty 1 (addReply (ReplyInt 1)
              (notifyKeyspaceEvent NOTIFY_GENERIC ''persist'' key (signalModifiedKey key s2))))
       else Some (addReply (ReplyInt 0) s2)
     }
     else Some (addReply (ReplyInt 0) s1)
   }"

section \<open>The invariant of a database\<close>

text \<open>
  Every key with a deadline is a key of the database, and every value satisfies what the type of
  values demands.
\<close>

definition db_inv :: "('v \<Rightarrow> bool) \<Rightarrow> 'v server \<Rightarrow> bool" where
  "db_inv P s \<longleftrightarrow> dom (db_expires s) \<subseteq> dom (db_dict s) \<and> (\<forall>k v. db_dict s k = Some v \<longrightarrow> P v)"

text \<open>The time that decides about expiry, the keys past their deadline, and what a client sees.\<close>

definition expiry_now :: "config \<Rightarrow> int" where
  "expiry_now cfg = (if sv_lua_caller cfg then sv_lua_time_start cfg
     else if sv_fixed_time_expire cfg > 0 then sv_mstime cfg else sv_clock cfg)"

definition is_expired :: "config \<Rightarrow> 'v server \<Rightarrow> key \<Rightarrow> bool" where
  "is_expired cfg s key \<longleftrightarrow> \<not> sv_loading cfg \<and> (\<exists>when. db_expires s key = Some when \<and> 0 \<le> when \<and> when < expiry_now cfg)"

definition evicts :: "config \<Rightarrow> bool" where
  "evicts cfg \<longleftrightarrow> \<not> sv_masterhost cfg \<and> \<not> sv_paused cfg"

lemma db_invD:
  assumes "db_inv P s"
  shows "db_expires s k = Some when \<Longrightarrow> \<exists>v. db_dict s k = Some v" "db_dict s k = Some v \<Longrightarrow> P v"
  using assms by (auto simp: db_inv_def)

lemma db_inv_cong: "db_dict s' = db_dict s \<Longrightarrow> db_expires s' = db_expires s \<Longrightarrow> db_inv P s' = db_inv P s"
  by (simp add: db_inv_def)

lemma emit_sel [simp]:
  "db_dict (emit e s) = db_dict s" "db_expires (emit e s) = db_expires s" "s_reply (emit e s) = s_reply s"
  "s_dirty (emit e s) = s_dirty s" "s_trace (emit e s) = s_trace s @ [e]"
  by (simp_all add: emit_def)

lemma addReply_sel [simp]:
  "db_dict (addReply r s) = db_dict s" "db_expires (addReply r s) = db_expires s" "s_dirty (addReply r s) = s_dirty s"
  "s_reply (addReply r s) = s_reply s @ [r]" "s_trace (addReply r s) = s_trace s"
  by (simp_all add: addReply_def)

lemma add_dirty_sel [simp]:
  "db_dict (add_dirty n s) = db_dict s" "db_expires (add_dirty n s) = db_expires s" "s_dirty (add_dirty n s) = s_dirty s + n"
  "s_reply (add_dirty n s) = s_reply s" "s_trace (add_dirty n s) = s_trace s"
  by (simp_all add: add_dirty_def)

lemma keymiss_sel [simp]:
  "db_dict (keymiss b k s) = db_dict s" "db_expires (keymiss b k s) = db_expires s" "s_dirty (keymiss b k s) = s_dirty s"
  "s_reply (keymiss b k s) = s_reply s"
  by (simp_all add: keymiss_def)

lemma db_inv_simps [simp]:
  "db_inv P (emit e s) = db_inv P s" "db_inv P (addReply r s) = db_inv P s"
  "db_inv P (add_dirty n s) = db_inv P s" "db_inv P (keymiss b k s) = db_inv P s"
  by (simp_all add: db_inv_def)

section \<open>Deletion\<close>

definition delete_key :: "key \<Rightarrow> 'v server \<Rightarrow> 'v server" where
  "delete_key k s = s\<lparr>db_expires := (db_expires s)(k := None), db_dict := (db_dict s)(k := None)\<rparr>"

lemma delete_key_sel [simp]:
  "db_dict (delete_key k s) = (db_dict s)(k := None)" "db_expires (delete_key k s) = (db_expires s)(k := None)"
  "s_dirty (delete_key k s) = s_dirty s" "s_reply (delete_key k s) = s_reply s" "s_trace (delete_key k s) = s_trace s"
  by (simp_all add: delete_key_def)

lemma fun_upd_None_idem [simp]: "m k = None \<Longrightarrow> m(k := None) = m"
  by (simp add: fun_eq_iff)

lemma dbSyncDelete_eq [simp]: "dbSyncDelete k s = (delete_key k s, db_dict s k \<noteq> None)"
  by (auto simp: dbSyncDelete_def delete_key_def Let_def split: option.splits)

lemma dbAsyncDelete_eq [simp]: "dbAsyncDelete k s = (delete_key k s, db_dict s k \<noteq> None)"
  by (auto simp: dbAsyncDelete_def delete_key_def Let_def split: option.splits)

lemma dbDelete_eq [simp]: "dbDelete cfg k s = (delete_key k s, db_dict s k \<noteq> None)"
  by (simp add: dbDelete_def)

lemma db_inv_delete [simp]: "db_inv P s \<Longrightarrow> db_inv P (delete_key k s)"
  by (auto simp: db_inv_def dom_def split: if_splits)

section \<open>Expiry on access\<close>

text \<open>What remains of the state when a key is accessed: an expired key of a master is evicted.\<close>

definition evict :: "config \<Rightarrow> key \<Rightarrow> 'v server \<Rightarrow> 'v server" where
  "evict cfg k s = signalModifiedKey k (delete_key k (notifyKeyspaceEvent NOTIFY_EXPIRED ''expired'' k
     (emit (EvPropagateDel (sv_lazy_expire cfg) k) (s\<lparr>s_expiredkeys := s_expiredkeys s + 1\<rparr>))))"

definition access :: "config \<Rightarrow> key \<Rightarrow> 'v server \<Rightarrow> 'v server" where
  "access cfg k s = (if is_expired cfg s k \<and> evicts cfg then evict cfg k s else s)"

lemma access_sel [simp]:
  "db_dict (access cfg k s) = (if is_expired cfg s k \<and> evicts cfg then (db_dict s)(k := None) else db_dict s)"
  "db_expires (access cfg k s) = (if is_expired cfg s k \<and> evicts cfg then (db_expires s)(k := None) else db_expires s)"
  "s_dirty (access cfg k s) = s_dirty s" "s_reply (access cfg k s) = s_reply s"
  by (simp_all add: access_def evict_def)

lemma db_inv_access [simp]: "db_inv P s \<Longrightarrow> db_inv P (access cfg k s)"
  by (auto simp: db_inv_def dom_def split: if_splits)

lemma getExpire_ok: "db_inv P s \<Longrightarrow> getExpire k s = Some (case db_expires s k of None \<Rightarrow> -1 | Some w \<Rightarrow> w)"
  using db_invD(1) [of P s k] by (auto simp: getExpire_def split: option.splits)

lemma keyIsExpired_ok: "db_inv P s \<Longrightarrow> keyIsExpired cfg k s = Some (is_expired cfg s k)"
  by (auto simp: keyIsExpired_def getExpire_ok is_expired_def expiry_now_def Let_def split: option.splits)

lemma expireIfNeeded_ok:
  assumes "db_inv P s"
  shows "expireIfNeeded cfg k s = Some (access cfg k s, is_expired cfg s k)"
proof -
  have "\<exists>v. db_dict s k = Some v" if "is_expired cfg s k"
    using that db_invD(1) [OF assms] by (auto simp: is_expired_def)
  then show ?thesis
    by (auto simp: expireIfNeeded_def keyIsExpired_ok [OF assms] access_def evict_def evicts_def Let_def)
qed

lemma lookupKeyWrite_ok:
  "db_inv P s \<Longrightarrow> lookupKeyWrite cfg k s = Some (access cfg k s, db_dict (access cfg k s) k)"
  by (simp add: lookupKeyWrite_def expireIfNeeded_ok lookupKey_def)

text \<open>What a read returns: on a replica an expired key is hidden from clients that only read.\<close>

definition visible :: "config \<Rightarrow> 'v server \<Rightarrow> key \<Rightarrow> 'v option" where
  "visible cfg s k = (if is_expired cfg s k \<and> (\<not> sv_masterhost cfg \<or> readonly_caller cfg) then None else db_dict s k)"

lemma lookupKeyReadWithFlags_ok:
  assumes "db_inv P s"
  shows "\<exists>s'. lookupKeyReadWithFlags cfg b k s = Some (s', visible cfg s k)
     \<and> db_dict s' = db_dict (access cfg k s) \<and> db_expires s' = db_expires (access cfg k s)
     \<and> s_reply s' = s_reply s \<and> s_dirty s' = s_dirty s"
proof -
  let ?a = "access cfg k s"
  consider "is_expired cfg s k" "\<not> sv_masterhost cfg \<or> readonly_caller cfg"
    | "\<not> (is_expired cfg s k \<and> (\<not> sv_masterhost cfg \<or> readonly_caller cfg))" by blast
  then show ?thesis
  proof cases
    case 1
    then have "lookupKeyReadWithFlags cfg b k s = Some (keymiss b k ?a, None)"
      by (auto simp: lookupKeyReadWithFlags_def expireIfNeeded_ok [OF assms])
    then show ?thesis using 1 by (simp add: visible_def)
  next
    case 2
    then have d: "db_dict ?a = db_dict s" "visible cfg s k = db_dict s k" by (auto simp: visible_def evicts_def)
    show ?thesis
    proof (cases "db_dict s k")
      case None
      then have "lookupKeyReadWithFlags cfg b k s = Some (keymiss b k ?a, None)"
        using 2 d(1) by (auto simp: lookupKeyReadWithFlags_def expireIfNeeded_ok [OF assms] lookupKey_def)
      then show ?thesis using None d by (simp del: access_sel(1,2))
    next
      case (Some v)
      then have "lookupKeyReadWithFlags cfg b k s = Some (?a\<lparr>s_hits := s_hits ?a + 1\<rparr>, Some v)"
        using 2 d(1) by (auto simp: lookupKeyReadWithFlags_def expireIfNeeded_ok [OF assms] lookupKey_def)
      then show ?thesis using Some d by (simp del: access_sel(1,2))
    qed
  qed
qed

text \<open>
  The eviction of an expired key changes nothing that can be seen.\<close>

lemma visible_access:
  assumes "db_dict s' = db_dict (access cfg k s)" and "db_expires s' = db_expires (access cfg k s)"
  shows "visible cfg s' k' = visible cfg s k'"
proof (cases "is_expired cfg s k \<and> evicts cfg")
  case True
  then have "is_expired cfg s' k' \<longleftrightarrow> is_expired cfg s k' \<and> k' \<noteq> k" using assms(2) by (auto simp: is_expired_def)
  then show ?thesis using True assms(1) by (simp add: visible_def evicts_def)
next
  case False
  then have "is_expired cfg s' k' = is_expired cfg s k'" using assms(2) by (simp only: is_expired_def access_sel if_False)
  then show ?thesis using False assms(1) by (simp only: visible_def access_sel if_False)
qed

section \<open>Reads and writes of keys\<close>

text \<open>
  C36: A read of a key returns what the expiry rules make visible (on a master never a value past its
  deadline, on a replica none for a client that only reads), changes nothing that is visible for
  any key, keeps the invariant of the database and replies nothing.
\<close>

theorem lookupKeyRead_correct:
  assumes "db_inv P s"
  shows "\<exists>s'. lookupKeyRead cfg k s = Some (s', visible cfg s k) \<and> db_inv P s'
     \<and> (\<forall>k'. visible cfg s' k' = visible cfg s k') \<and> s_reply s' = s_reply s"
proof -
  obtain s' where s': "lookupKeyRead cfg k s = Some (s', visible cfg s k)" "db_dict s' = db_dict (access cfg k s)"
      "db_expires s' = db_expires (access cfg k s)" "s_reply s' = s_reply s"
    using lookupKeyReadWithFlags_ok [OF assms, of cfg False k] by (auto simp: lookupKeyRead_def)
  have "db_inv P s'" using db_inv_cong [OF s'(2,3)] assms by simp
  moreover have "visible cfg s' k' = visible cfg s k'" for k' by (rule visible_access [OF s'(2,3)])
  ultimately show ?thesis using s' by blast
qed

text \<open>A configuration and a database for the examples: key \<open>a\<close> expires at 100, key \<open>b\<close> never.\<close>

definition ex_client :: client where
  "ex_client = \<lparr>c_is_master = False, c_cmd_readonly = Some False\<rparr>"

definition ex_config :: config where
  "ex_config = \<lparr>sv_masterhost = False, sv_loading = False, sv_lua_caller = False, sv_lua_time_start = 0,
     sv_fixed_time_expire = 1, sv_mstime = 150, sv_clock = 150, sv_paused = False, sv_lazy_expire = False,
     sv_lazy_server_del = False, sv_lazy_user_del = False, sv_repl_slave_ro = True, sv_current_client = Some ex_client\<rparr>"

definition empty_server :: "'v server" where
  "empty_server = \<lparr>db_dict = Map.empty, db_expires = Map.empty, s_dirty = 0, s_expiredkeys = 0, s_hits = 0,
     s_misses = 0, s_trace = [], s_reply = []\<rparr>"

definition ex_server :: "nat server" where
  "ex_server = empty_server\<lparr>db_dict := [[97] \<mapsto> 1, [98] \<mapsto> 2], db_expires := [[97] \<mapsto> 100]\<rparr>"

lemma ex_server_expired: "is_expired ex_config ex_server k \<longleftrightarrow> k = [97]"
  by (auto simp: is_expired_def expiry_now_def ex_config_def ex_server_def split: if_splits)

lemma ex_server_inv: "db_inv (\<lambda>_. True) ex_server"
  by (simp add: db_inv_def ex_server_def)

theorem lookupKeyRead_correct_witness:
  "\<exists>s'. lookupKeyRead ex_config [97] ex_server = Some (s', None) \<and> visible ex_config s' [98] = Some 2"
proof -
  have "visible ex_config ex_server [97] = None" "visible ex_config ex_server [98] = Some 2"
    by (simp_all add: visible_def is_expired_def expiry_now_def ex_config_def ex_server_def)
  then show ?thesis using lookupKeyRead_correct [OF ex_server_inv, of ex_config "[97]"] by auto
qed

lemma setKey_ok:
  assumes "db_inv P s"
  shows "\<exists>s'. setKey cfg k v s = Some s' \<and> db_dict s' = (db_dict s)(k \<mapsto> v) \<and> db_expires s' = (db_expires s)(k := None)
     \<and> s_reply s' = s_reply s \<and> s_dirty s' = s_dirty s"
proof (cases "db_dict (access cfg k s) k")
  case None
  then show ?thesis using assms
    by (simp add: setKey_def genericSetKey_def lookupKeyWrite_ok dbAdd_def removeExpire_def)
next
  case (Some old)
  then have "\<not> (is_expired cfg s k \<and> evicts cfg)" by (auto split: if_splits)
  then show ?thesis using Some assms
    by (simp add: setKey_def genericSetKey_def lookupKeyWrite_ok dbOverwrite_def removeExpire_def)
qed

lemma db_inv_set: "db_inv P s \<Longrightarrow> P v \<Longrightarrow> db_dict s' = (db_dict s)(k \<mapsto> v)
    \<Longrightarrow> db_expires s' = (db_expires s)(k := None) \<Longrightarrow> db_inv P s'"
  by (auto simp: db_inv_def dom_def split: if_splits)

text \<open>
  \<open>setKey\<close> makes a key hold the new value without a deadline, whether the key was absent, present
  or expired, changes no other key and never aborts.
\<close>

theorem setKey_correct:
  assumes "db_inv P s" and "P v"
  shows "\<exists>s'. setKey cfg k v s = Some s' \<and> db_inv P s' \<and> visible cfg' s' k = Some v
     \<and> db_dict s' = (db_dict s)(k \<mapsto> v) \<and> db_expires s' = (db_expires s)(k := None)"
proof -
  obtain s' where "setKey cfg k v s = Some s'" "db_dict s' = (db_dict s)(k \<mapsto> v)" "db_expires s' = (db_expires s)(k := None)"
    using setKey_ok [OF assms(1)] by blast
  then show ?thesis using db_inv_set [OF assms] by (auto simp: visible_def is_expired_def)
qed

theorem setKey_correct_witness:
  "\<exists>s'. setKey ex_config [97] 5 ex_server = Some s' \<and> visible ex_config s' [97] = Some 5"
  using setKey_correct [OF ex_server_inv, where v = 5 and cfg = ex_config and k = "[97]" and cfg' = ex_config] by auto

section \<open>Renaming\<close>

lemma setExpire_ok:
  "db_dict s k \<noteq> None \<Longrightarrow> \<exists>s'. setExpire cfg c k w s = Some s' \<and> db_dict s' = db_dict s
     \<and> db_expires s' = (db_expires s)(k \<mapsto> w) \<and> s_reply s' = s_reply s \<and> s_dirty s' = s_dirty s"
  by (auto simp: setExpire_def Let_def split: option.splits)

lemma renameGenericCommand_ok:
  assumes inv: "db_inv P s" and src: "db_dict (access cfg src s) src = Some v" and ne: "src \<noteq> dst"
    and free: "nx \<longrightarrow> db_dict (access cfg dst s) dst = None"
  shows "\<exists>s'. renameGenericCommand cfg c nx src dst s = Some s' \<and> db_inv P s'
     \<and> db_dict s' = (db_dict s)(dst \<mapsto> v, src := None)
     \<and> db_expires s' = (db_expires s)(dst := (if db_expires s src = Some (-1) then None else db_expires s src), src := None)
     \<and> s_reply s' = s_reply s @ [if nx then ReplyInt 1 else ReplyOk]"
proof -
  let ?s1 = "access cfg src s"
  have keep: "?s1 = s" using src by (auto simp: access_def evict_def split: if_splits)
  then have v: "db_dict s src = Some v" using src by simp
  define s2 where "s2 = access cfg dst s"
  define s3 where "s3 = (if db_dict s2 dst \<noteq> None then fst (dbDelete cfg dst s2) else s2)"
  have inv3: "db_inv P s3" using inv by (simp add: s3_def s2_def del: access_sel)
  have d3: "db_dict s3 = (db_dict s)(dst := None)" by (auto simp: s3_def s2_def)
  have e3: "db_expires s3 dst = None" using db_invD(1) [OF inv3, of dst] d3 by (cases "db_expires s3 dst") auto
  have "db_expires s3 k = db_expires s k" if "k \<noteq> dst" for k using that by (simp add: s3_def s2_def)
  then have exp3: "db_expires s3 = (db_expires s)(dst := None)" using e3 by (auto simp: fun_eq_iff)
  define w where "w = (case db_expires s src of None \<Rightarrow> -1 | Some w \<Rightarrow> w)"
  define s4 where "s4 = emit (EvReady dst) (s3\<lparr>db_dict := (db_dict s3)(dst \<mapsto> v)\<rparr>)"
  have add: "dbAdd dst v s3 = Some s4" by (simp add: dbAdd_def s4_def d3)
  obtain s5 where s5: "(if w \<noteq> -1 then setExpire cfg (Some c) dst w s4 else Some s4) = Some s5"
      "db_dict s5 = db_dict s4" "db_expires s5 = (db_expires s4)(dst := (if w = -1 then None else Some w))" "s_reply s5 = s_reply s4"
  proof (cases "w = -1")
    case True
    then show ?thesis using that [of s4] e3 by (simp add: s4_def)
  next
    case False
    then show ?thesis using that setExpire_ok [of s4 dst cfg "Some c" w] by (auto simp: s4_def)
  qed
  have srcw: "lookupKeyWriteOrReply cfg src (ReplyError ''no such key'') s = Some (s, Some v)"
    using keep v by (simp add: lookupKeyWriteOrReply_def lookupKeyWrite_ok [OF inv] del: access_sel)
  have dstw: "lookupKeyWrite cfg dst s = Some (s2, db_dict s2 dst)"
    by (simp add: lookupKeyWrite_ok [OF inv] s2_def del: access_sel)
  have getw: "getExpire src s = Some w" using getExpire_ok [OF inv, of src] by (simp add: w_def)
  have nxd: "\<not> (db_dict s2 dst \<noteq> None \<and> nx)" using free by (auto simp: s2_def)
  define s' where "s' = addReply (if nx then ReplyInt 1 else ReplyOk) (add_dirty 1
     (notifyKeyspaceEvent NOTIFY_GENERIC ''rename_to'' dst (notifyKeyspaceEvent NOTIFY_GENERIC ''rename_from'' src
     (signalModifiedKey dst (signalModifiedKey src (delete_key src s5))))))"
  have run: "renameGenericCommand cfg c nx src dst s = Some s'"
    by (simp only: renameGenericCommand_def Let_def srcw getw dstw nxd ne s3_def [symmetric] add s5(1) s'_def
        bind.bind_lunit prod.case option.case if_False dbDelete_eq [of cfg src s5] fst_conv)
  have dict: "db_dict s' = (db_dict s)(dst \<mapsto> v, src := None)" using ne by (simp add: s'_def s5(2) s4_def d3)
  have exps: "db_expires s' = (db_expires s)(dst := (if db_expires s src = Some (-1) then None else db_expires s src), src := None)"
    using ne by (auto simp: s'_def s5(3) s4_def exp3 w_def fun_eq_iff split: option.splits)
  have "s_reply s' = s_reply s @ [if nx then ReplyInt 1 else ReplyOk]" by (simp add: s'_def s5(4) s4_def s3_def s2_def)
  moreover have "db_inv P s'" using inv v by (auto simp: db_inv_def dict exps dom_def split: if_splits)
  ultimately show ?thesis using run dict exps by blast
qed

text \<open>
  \<open>RENAME\<close> and \<open>RENAMENX\<close>: an absent source is an error; otherwise, unless the two names are equal
  or the destination exists and must not be overwritten, the destination afterwards holds the
  value and the deadline of the source, whatever it held before, the source is gone and no other
  key changes.  (A deadline of exactly -1, which only a replica can store, counts as none.)
\<close>

theorem renameGenericCommand_correct:
  assumes "db_inv P s" and "db_dict (access cfg src s) src = Some v" and "src \<noteq> dst"
    and "nx \<longrightarrow> db_dict (access cfg dst s) dst = None"
  shows "\<exists>s'. renameGenericCommand cfg c nx src dst s = Some s' \<and> db_inv P s'
     \<and> db_dict s' = (db_dict s)(dst \<mapsto> v, src := None)
     \<and> db_expires s' = (db_expires s)(dst := (if db_expires s src = Some (-1) then None else db_expires s src), src := None)
     \<and> s_reply s' = s_reply s @ [if nx then ReplyInt 1 else ReplyOk]"
  using assms by (rule renameGenericCommand_ok)

theorem renameGenericCommand_correct_witness:
  "\<exists>s'. renameGenericCommand ex_config ex_client False [98] [97] ex_server = Some s'
     \<and> db_dict s' [97] = Some 2 \<and> db_dict s' [98] = None \<and> db_expires s' [97] = None"
proof -
  have "db_dict (access ex_config [98] ex_server) [98] = Some 2"
    by (simp add: is_expired_def ex_server_def)
  then show ?thesis
    using renameGenericCommand_correct [OF ex_server_inv, of ex_config "[98]" 2 "[97]" False ex_client]
    by (auto simp: ex_server_def empty_server_def)
qed

section \<open>Deadlines\<close>

lemma wrap64_id: "int64 x \<Longrightarrow> wrap64 x = x"
  by (simp add: wrap64_def int64_def)

definition unit_ms :: "expire_unit \<Rightarrow> int" where
  "unit_ms unit = (if unit = UNIT_SECONDS then 1000 else 1)"

lemma expire_when_exact:
  assumes "0 \<le> base" and "int64 base" and "int64 (arg * unit_ms unit)" and "int64 (arg * unit_ms unit + base)"
  shows "expire_when base unit arg = Some (arg * unit_ms unit + base)"
proof -
  let ?w = "arg * unit_ms unit"
  have w1: "(if unit = UNIT_SECONDS then wrap64 (arg * 1000) else arg) = ?w"
    using assms(3) by (auto simp: unit_ms_def wrap64_id)
  have "\<not> (?w + base < 0 \<and> \<not> arg < 0)" "\<not> (?w > 0 \<and> arg < 0)"
    using assms(1) by (auto simp: unit_ms_def)
  then show ?thesis
    unfolding expire_when_def Let_def w1 using wrap64_id [OF assms(4)] wrap64_id [OF assms(3)] by simp
qed

lemma expireGenericCommand_ok:
  assumes inv: "db_inv P s" and arg: "string2ll param = Some arg" and "when": "expire_when base unit arg = Some w"
  shows "\<exists>s'. expireGenericCommand cfg c k param base unit s = Some s' \<and> db_inv P s'
     \<and> (case db_dict (access cfg k s) k of
          None \<Rightarrow> db_dict s' = db_dict (access cfg k s) \<and> db_expires s' = db_expires (access cfg k s)
            \<and> s_reply s' = s_reply s @ [ReplyInt 0]
        | Some v \<Rightarrow> db_dict s' = (if checkAlreadyExpired cfg w then (db_dict s)(k := None) else db_dict s)
            \<and> db_expires s' = (db_expires s)(k := (if checkAlreadyExpired cfg w then None else Some w))
            \<and> s_reply s' = s_reply s @ [ReplyInt 1])"
proof -
  have get: "getLongLongFromObjectOrReply param s = (s, Some arg)" using arg by (simp add: getLongLongFromObjectOrReply_def)
  note lk = lookupKeyWrite_ok [OF inv, of cfg k]
  note start = expireGenericCommand_def get "when" lk
  show ?thesis
  proof (cases "db_dict (access cfg k s) k")
    case None
    then have "expireGenericCommand cfg c k param base unit s = Some (addReply (ReplyInt 0) (access cfg k s))"
      by (simp add: start del: access_sel(1,2))
    then show ?thesis using inv None by (simp del: access_sel(1,2))
  next
    case (Some v)
    then have keep: "access cfg k s = s" by (auto simp: access_def evict_def split: if_splits)
    then have v: "db_dict s k = Some v" using Some by simp
    show ?thesis
    proof (cases "checkAlreadyExpired cfg w")
      case True
      then have run: "expireGenericCommand cfg c k param base unit s = Some (addReply (ReplyInt 1)
          (notifyKeyspaceEvent NOTIFY_GENERIC ''del'' k (signalModifiedKey k
            (emit (EvRewriteDel (sv_lazy_expire cfg) k) (add_dirty 1 (delete_key k s))))))"
        using v keep by (simp add: start Let_def del: access_sel)
      then show ?thesis using True inv v keep by (simp del: access_sel)
    next
      case False
      obtain s3 where s3: "setExpire cfg (Some c) k w s = Some s3" "db_dict s3 = db_dict s" "db_expires s3 = (db_expires s)(k \<mapsto> w)"
          "s_reply s3 = s_reply s"
        using setExpire_ok [of s k cfg "Some c" w] v by auto
      then have run: "expireGenericCommand cfg c k param base unit s = Some (add_dirty 1 (notifyKeyspaceEvent NOTIFY_GENERIC ''expire'' k
          (signalModifiedKey k (addReply (ReplyInt 1) s3))))"
        using False v keep by (simp add: start Let_def del: access_sel)
      have "db_inv P s3" using inv v by (auto simp: db_inv_def s3 dom_def split: if_splits)
      then show ?thesis using run False v keep s3 by (simp del: access_sel)
    qed
  qed
qed

text \<open>
  \<open>EXPIRE\<close>, \<open>PEXPIRE\<close>, \<open>EXPIREAT\<close> and \<open>PEXPIREAT\<close> set the deadline they are asked for and \<open>PTTL\<close> reads it
  back: for a key that exists and a deadline in the future whose computation does not overflow, the
  two commands reply 1 and the number of milliseconds left, and no value changes.
\<close>

theorem expire_pttl:
  assumes inv: "db_inv P s" and key: "db_dict (access cfg k s) k = Some v"
    and param: "string2ll param = Some arg" and base: "0 \<le> base" "int64 base"
    and fits: "int64 (arg * unit_ms unit)" "int64 (arg * unit_ms unit + base)"
    and future: "sv_clock cfg < arg * unit_ms unit + base" "0 \<le> sv_clock cfg" "expiry_now cfg \<le> sv_clock cfg"
  shows "\<exists>s1 s2. expireGenericCommand cfg c k param base unit s = Some s1 \<and> pttlCommand cfg k s1 = Some s2
     \<and> s_reply s2 = s_reply s @ [ReplyInt 1, ReplyInt (arg * unit_ms unit + base - sv_clock cfg)] \<and> db_dict s2 = db_dict s"
proof -
  define w where "w = arg * unit_ms unit + base"
  have wh: "expire_when base unit arg = Some w" unfolding w_def using expire_when_exact [OF base fits] .
  have "\<not> checkAlreadyExpired cfg w" using future(1) by (simp add: checkAlreadyExpired_def w_def)
  then obtain s1 where s1: "expireGenericCommand cfg c k param base unit s = Some s1" "db_inv P s1" "db_dict s1 = db_dict s"
      "db_expires s1 = (db_expires s)(k \<mapsto> w)" "s_reply s1 = s_reply s @ [ReplyInt 1]"
    using expireGenericCommand_ok [OF inv param wh, of cfg c k] key by (auto simp del: access_sel)
  have ne: "\<not> is_expired cfg s1 k" using future s1(4) by (auto simp: is_expired_def w_def)
  have dk: "db_dict s1 k = Some v" using key s1(3) by (auto split: if_splits)
  obtain s2 where s2: "lookupKeyReadWithFlags cfg False k s1 = Some (s2, visible cfg s1 k)" "db_dict s2 = db_dict s1"
      "db_expires s2 = db_expires s1" "s_reply s2 = s_reply s1"
    using lookupKeyReadWithFlags_ok [OF s1(2), of cfg False k] ne by auto
  have "visible cfg s1 k = Some v" using ne dk by (simp add: visible_def)
  moreover have "getExpire k s2 = Some w" using s2 s1 dk by (simp add: getExpire_def)
  moreover have "wrap64 (w - sv_clock cfg) = w - sv_clock cfg" using future fits(2) by (intro wrap64_id) (simp add: int64_def w_def)
  moreover have "w \<noteq> -1" "w - sv_clock cfg \<ge> 0" using future by (auto simp: w_def)
  ultimately have "pttlCommand cfg k s1 = Some (addReply (ReplyInt (w - sv_clock cfg)) s2)"
    using s2(1) by (simp add: pttlCommand_def ttlGenericCommand_def Let_def)
  then show ?thesis using s1 s2 by (auto simp: w_def)
qed

theorem expire_pttl_witness:
  "\<exists>s1 s2. pexpireCommand ex_config ex_client [98] [49, 48] ex_server = Some s1 \<and> pttlCommand ex_config [98] s1 = Some s2
     \<and> s_reply s2 = [ReplyInt 1, ReplyInt 10]"
proof -
  have "string2ll [49, 48] = Some 10" by (simp add: string2ll_canonical int64_def dec_int_def dec_nat.simps)
  moreover have "db_dict (access ex_config [98] ex_server) [98] = Some 2" by (simp add: is_expired_def ex_server_def)
  moreover have "sv_clock ex_config = 150" "expiry_now ex_config = 150" "s_reply ex_server = []"
    by (simp_all add: ex_config_def expiry_now_def ex_server_def empty_server_def)
  ultimately show ?thesis
    using expire_pttl [OF ex_server_inv, where cfg = ex_config and k = "[98]" and param = "[49, 48]" and arg = 10
        and base = 150 and unit = UNIT_MILLISECONDS and c = ex_client]
    by (auto simp: unit_ms_def int64_def pexpireCommand_def)
qed

text \<open>
  C37: The overflow test behind \<open>EXPIRE\<close> looks at signs only.  A number of seconds that wraps around once
  completely is not detected: 18446744073709552 seconds are 2 to the power 64 plus 384 milliseconds,
  and the key expires after less than half a second.
\<close>

theorem expire_overflow_undetected:
  assumes "db_inv P s" and "db_dict (access cfg k s) k = Some v" and "0 < sv_clock cfg" and "sv_clock cfg < 2 ^ 62"
  shows "\<exists>s'. expireCommand cfg c k (dec_int 18446744073709552) s = Some s'
     \<and> db_expires s' k = Some (sv_clock cfg + 384) \<and> s_reply s' = s_reply s @ [ReplyInt 1]"
proof -
  have p: "string2ll (dec_int 18446744073709552) = Some 18446744073709552"
    by (simp add: string2ll_canonical int64_def)
  have "expire_when (sv_clock cfg) UNIT_SECONDS 18446744073709552 = Some (384 + sv_clock cfg)"
    using assms(3,4) wrap64_id [of "384 + sv_clock cfg"] by (simp add: expire_when_def Let_def int64_def) (simp add: wrap64_def)
  moreover have "\<not> checkAlreadyExpired cfg (384 + sv_clock cfg)" by (simp add: checkAlreadyExpired_def)
  ultimately show ?thesis
    using expireGenericCommand_ok [OF assms(1) p, of "sv_clock cfg" UNIT_SECONDS "384 + sv_clock cfg" cfg c k] assms(2)
    by (auto simp: expireCommand_def add.commute simp del: access_sel)
qed

theorem expire_overflow_undetected_witness:
  "\<exists>s'. expireCommand ex_config ex_client [98] (dec_int 18446744073709552) ex_server = Some s'
     \<and> db_expires s' [98] = Some 534 \<and> s_reply s' = [ReplyInt 1]"
proof -
  have "db_dict (access ex_config [98] ex_server) [98] = Some 2" by (simp add: ex_server_expired) (simp add: ex_server_def)
  moreover have "sv_clock ex_config = 150" "s_reply ex_server = []" by (simp_all add: ex_config_def ex_server_def empty_server_def)
  ultimately show ?thesis using expire_overflow_undetected [OF ex_server_inv, of ex_config "[98]" 2 ex_client] by auto
qed

section \<open>Deleting and counting keys\<close>

definition present :: "config \<Rightarrow> 'v server \<Rightarrow> key \<Rightarrow> bool" where
  "present cfg s k \<longleftrightarrow> db_dict (access cfg k s) k \<noteq> None"

lemma present_iff: "present cfg s k \<longleftrightarrow> db_dict s k \<noteq> None \<and> \<not> (is_expired cfg s k \<and> evicts cfg)"
  by (simp add: present_def)

lemma delGeneric_loop_ok:
  assumes "db_inv P s"
  shows "\<exists>s'. delGeneric_loop cfg lazy keys m s = Some (s', m + card {k \<in> set keys. present cfg s k}) \<and> db_inv P s'
     \<and> db_dict s' = (\<lambda>k. if k \<in> set keys then None else db_dict s k)
     \<and> db_expires s' = (\<lambda>k. if k \<in> set keys then None else db_expires s k)
     \<and> s_reply s' = s_reply s"
  using assms
proof (induction keys arbitrary: m s)
  case (Cons k keys)
  let ?a = "access cfg k s"
  define s2 where "s2 = (if present cfg s k
     then add_dirty 1 (notifyKeyspaceEvent NOTIFY_GENERIC ''del'' k (signalModifiedKey k (delete_key k ?a)))
     else delete_key k ?a)"
  have step: "delGeneric_loop cfg lazy (k # keys) m s = delGeneric_loop cfg lazy keys (if present cfg s k then m + 1 else m) s2"
    by (simp add: expireIfNeeded_ok [OF Cons.prems] s2_def present_def Let_def del: access_sel)
  have inv2: "db_inv P s2" using Cons.prems by (simp add: s2_def del: access_sel)
  have f2: "db_dict s2 = (db_dict s)(k := None)" "db_expires s2 = (db_expires s)(k := None)" "s_reply s2 = s_reply s"
    by (auto simp: s2_def)
  have exp2: "is_expired cfg s2 k' = is_expired cfg s k'" if "k' \<noteq> k" for k' using that f2(2) by (simp add: is_expired_def)
  have rest: "{k' \<in> set (k # keys). present cfg s k'}
      = (if present cfg s k then insert k {k' \<in> set keys. present cfg s2 k'} else {k' \<in> set keys. present cfg s2 k'})"
    using exp2 by (auto simp: present_iff f2)
  have "\<not> present cfg s2 k" by (simp add: present_iff f2)
  then have "m + card {k' \<in> set (k # keys). present cfg s k'}
      = (if present cfg s k then m + 1 else m) + card {k' \<in> set keys. present cfg s2 k'}"
    unfolding rest by simp
  then show ?case using Cons.IH [OF inv2, of "if present cfg s k then m + 1 else m"] f2
    unfolding step by (auto simp: fun_eq_iff)
qed simp

text \<open>
  \<open>DEL\<close> and \<open>UNLINK\<close> remove the given keys with their deadlines and nothing else, and reply the
  number of different keys among them that existed and had not expired.
\<close>

theorem delGenericCommand_correct:
  assumes "db_inv P s"
  shows "\<exists>s'. delGenericCommand cfg lazy keys s = Some s' \<and> db_inv P s'
     \<and> db_dict s' = (\<lambda>k. if k \<in> set keys then None else db_dict s k)
     \<and> s_reply s' = s_reply s @ [ReplyInt (int (card {k \<in> set keys. present cfg s k}))]"
  using delGeneric_loop_ok [OF assms, of cfg lazy keys 0] by (auto simp: delGenericCommand_def)

theorem delGenericCommand_correct_witness:
  "\<exists>s'. delGenericCommand ex_config False [[97], [98], [98]] ex_server = Some s' \<and> s_reply s' = [ReplyInt 1]"
proof -
  have "{k \<in> set [[97], [98], [98]]. present ex_config ex_server k} = {[98]}"
    by (auto simp: present_iff ex_server_expired) (simp_all add: evicts_def ex_config_def ex_server_def)
  then show ?thesis using delGenericCommand_correct [OF ex_server_inv, of ex_config False "[[97], [98], [98]]"]
    by (auto simp: ex_server_def empty_server_def)
qed

section \<open>No command on keys aborts\<close>

text \<open>The shared contract of the commands: from a valid database they return, in a valid database.\<close>

definition db_safe :: "('v server \<Rightarrow> bool) \<Rightarrow> ('v server \<Rightarrow> 'v server option) \<Rightarrow> bool" where
  "db_safe Q run \<longleftrightarrow> (\<forall>s. Q s \<longrightarrow> (\<exists>s'. run s = Some s' \<and> Q s'))"

named_theorems db_safe_intros \<open>commands that never abort\<close>

lemma delGenericCommand_safe [db_safe_intros]: "db_safe (db_inv P) (delGenericCommand cfg lazy keys)"
  using delGeneric_loop_ok [of P _ cfg lazy keys 0] by (fastforce simp: db_safe_def delGenericCommand_def)

lemma exists_loop_ok: "db_inv P s \<Longrightarrow> \<exists>s' m. exists_loop cfg keys n s = Some (s', m) \<and> db_inv P s'"
proof (induction keys arbitrary: n s)
  case (Cons k keys)
  obtain s1 v where s1: "lookupKeyReadWithFlags cfg False k s = Some (s1, v)" "db_dict s1 = db_dict (access cfg k s)"
      "db_expires s1 = db_expires (access cfg k s)"
    using lookupKeyReadWithFlags_ok [OF Cons.prems, of cfg False k] by blast
  then have "db_inv P s1" using db_inv_cong [OF s1(2,3)] Cons.prems by simp
  then show ?case using Cons.IH s1(1) by simp
qed simp

lemma existsCommand_safe [db_safe_intros]: "db_safe (db_inv P) (existsCommand cfg keys)"
  using exists_loop_ok [of P _ cfg keys 0] by (fastforce simp: db_safe_def existsCommand_def)

lemma touchCommand_safe [db_safe_intros]: "db_safe (db_inv P) (touchCommand cfg keys)"
  using exists_loop_ok [of P _ cfg keys 0] by (fastforce simp: db_safe_def touchCommand_def)

lemma persistCommand_safe [db_safe_intros]: "db_safe (db_inv P) (persistCommand cfg k)"
  unfolding db_safe_def
proof (intro allI impI)
  fix s :: "'a server" assume inv: "db_inv P s"
  let ?a = "access cfg k s"
  have "db_inv P ?a" using inv by (rule db_inv_access)
  then have "db_inv P (?a\<lparr>db_expires := (db_expires ?a)(k := None)\<rparr>)" by (auto simp: db_inv_def dom_def split: if_splits)
  then show "\<exists>s'. persistCommand cfg k s = Some s' \<and> db_inv P s'" using inv
    by (cases "db_dict ?a k") (auto simp: persistCommand_def lookupKeyWrite_ok [OF inv] removeExpire_def simp del: access_sel)
qed

lemma ttlGenericCommand_safe [db_safe_intros]: "db_safe (db_inv P) (ttlGenericCommand cfg ms k)"
  unfolding db_safe_def
proof (intro allI impI)
  fix s :: "'a server" assume inv: "db_inv P s"
  obtain s1 v where s1: "lookupKeyReadWithFlags cfg False k s = Some (s1, v)" "db_dict s1 = db_dict (access cfg k s)"
      "db_expires s1 = db_expires (access cfg k s)"
    using lookupKeyReadWithFlags_ok [OF inv, of cfg False k] by blast
  then have inv1: "db_inv P s1" using db_inv_cong [OF s1(2,3)] inv by simp
  then show "\<exists>s'. ttlGenericCommand cfg ms k s = Some s' \<and> db_inv P s'"
    using s1(1) getExpire_ok [OF inv1, of k] by (simp add: ttlGenericCommand_def Let_def)
qed

lemma expireGenericCommand_safe [db_safe_intros]: "db_safe (db_inv P) (expireGenericCommand cfg c k param base unit)"
  unfolding db_safe_def
proof (intro allI impI)
  fix s :: "'a server" assume inv: "db_inv P s"
  consider "string2ll param = None" | arg where "string2ll param = Some arg" "expire_when base unit arg = None"
    | arg w where "string2ll param = Some arg" "expire_when base unit arg = Some w" by (metis option.exhaust)
  then show "\<exists>s'. expireGenericCommand cfg c k param base unit s = Some s' \<and> db_inv P s'"
  proof cases
    case 3
    then show ?thesis using expireGenericCommand_ok [OF inv] by blast
  qed (use inv in \<open>simp_all add: expireGenericCommand_def getLongLongFromObjectOrReply_def\<close>)
qed

lemma renameGenericCommand_safe [db_safe_intros]: "db_safe (db_inv P) (renameGenericCommand cfg c nx src dst)"
  unfolding db_safe_def
proof (intro allI impI)
  fix s :: "'a server" assume inv: "db_inv P s"
  note lk = lookupKeyWriteOrReply_def lookupKeyWrite_ok [OF inv]
  show "\<exists>s'. renameGenericCommand cfg c nx src dst s = Some s' \<and> db_inv P s'"
  proof (cases "db_dict (access cfg src s) src")
    case None
    then show ?thesis using inv by (simp add: renameGenericCommand_def lk del: access_sel)
  next
    case (Some v)
    then have keep: "access cfg src s = s" by (auto simp: access_def evict_def split: if_splits)
    consider "src = dst" | "src \<noteq> dst" "nx" "db_dict (access cfg dst s) dst \<noteq> None"
      | "src \<noteq> dst" "nx \<longrightarrow> db_dict (access cfg dst s) dst = None" by fast
    then show ?thesis
    proof cases
      case 1
      then show ?thesis using inv Some by (simp add: renameGenericCommand_def lk del: access_sel)
    next
      case 2
      then show ?thesis using inv Some keep getExpire_ok [OF inv]
        by (simp add: renameGenericCommand_def lk del: access_sel)
    next
      case 3
      then show ?thesis using renameGenericCommand_ok [OF inv Some] by blast
    qed
  qed
qed

end
