(* ===== verification/Set_Commands.thy ===== *)
theory Set_Commands
  imports Set_Type Keyspace
begin

text \<open>
  The commands on sets, \<open>src/redis-6.2.0/src/t_set.c\<close>, on a keyspace whose values are set objects or
  objects of other types.  A pointer to an object that a key holds is the key: two such pointers
  are equal exactly when the keys are.  The code changes objects in place, also when it only
  looks for an element (a lookup in a hash table may move entries), so every access writes the
  object back.
\<close>

section \<open>Model: objects in the keyspace\<close>

datatype robj = OBJ_SET setobj | OBJ_OTHER nat

definition checkType :: "robj option \<Rightarrow> bool" where
  "checkType o' = (case o' of Some (OBJ_OTHER _) \<Rightarrow> True | _ \<Rightarrow> False)"

definition get_set :: "key \<Rightarrow> robj server \<Rightarrow> setobj option" where
  "get_set k s = (case db_dict s k of Some (OBJ_SET so) \<Rightarrow> Some so | _ \<Rightarrow> None)"

definition put_set :: "key \<Rightarrow> setobj \<Rightarrow> robj server \<Rightarrow> robj server" where
  "put_set k so s = s\<lparr>db_dict := (db_dict s)(k \<mapsto> OBJ_SET so)\<rparr>"

definition is_member :: "key \<Rightarrow> byte list \<Rightarrow> robj server \<Rightarrow> (robj server \<times> bool) option" where
  "is_member k v s = do { so \<leftarrow> get_set k s; (so', b) \<leftarrow> setTypeIsMember so v; Some (put_set k so' s, b) }"

definition bulk_longlong :: "int \<Rightarrow> byte list option" where
  "bulk_longlong ll = do { (buf, len) \<leftarrow> ll2string (replicate 64 0) 64 ll; mem_read buf 0 len }"

definition elem_bulk :: "set_elem \<Rightarrow> byte list option" where
  "elem_bulk e = (case e of ElemInt v \<Rightarrow> bulk_longlong v | ElemStr x \<Rightarrow> Some x)"

section \<open>Model: SADD, SREM, SMOVE\<close>

definition saddCommand :: "config \<Rightarrow> set_env \<Rightarrow> key \<Rightarrow> byte list list \<Rightarrow> robj server \<Rightarrow> robj server option" where
  "saddCommand cfg env key args s = do {
     (s1, set) \<leftarrow> lookupKeyWrite cfg key s;
     if checkType set then Some (addReply wrongtypeerr s1)
     else do {
       s2 \<leftarrow> (if set = None then dbAdd key (OBJ_SET (setTypeCreate env (hd args))) s1 else Some s1);
       so \<leftarrow> get_set key s2;
       (so', added) \<leftarrow> add_all (setTypeAdd env) args so 0;
       let s3 = put_set key so' s2;
       let s4 = (if added > 0 then notifyKeyspaceEvent NOTIFY_SET ''sadd'' key (signalModifiedKey key s3) else s3);
       Some (addReply (ReplyInt (int added)) (add_dirty (int added) s4))
     }
   }"

fun srem_loop :: "set_env \<Rightarrow> byte list list \<Rightarrow> setobj \<Rightarrow> nat \<Rightarrow> (setobj \<times> nat \<times> bool) option" where
  "srem_loop env [] so deleted = Some (so, deleted, False)"
| "srem_loop env (v # args) so deleted = do {
     (so', b) \<leftarrow> setTypeRemove env so v;
     if b then
       if setTypeSize so' = 0 then Some (so', deleted + 1, True)
       else srem_loop env args so' (deleted + 1)
     else srem_loop env args so' deleted
   }"

definition sremCommand :: "config \<Rightarrow> set_env \<Rightarrow> key \<Rightarrow> byte list list \<Rightarrow> robj server \<Rightarrow> robj server option" where
  "sremCommand cfg env key args s = do {
     (s1, set) \<leftarrow> lookupKeyWriteOrReply cfg key (ReplyInt 0) s;
     if set = None then Some s1
     else if checkType set then Some (addReply wrongtypeerr s1)
     else do {
       so \<leftarrow> get_set key s1;
       (so', deleted, keyremoved) \<leftarrow> srem_loop env args so 0;
       let s2 = put_set key so' s1;
       let s3 = (if keyremoved then fst (dbDelete cfg key s2) else s2);
       let s4 = (if deleted > 0 then notifyKeyspaceEvent NOTIFY_SET ''srem'' key (signalModifiedKey key s3) else s3);
       let s5 = (if deleted > 0 \<and> keyremoved then notifyKeyspaceEvent NOTIFY_GENERIC ''del'' key s4 else s4);
       Some (addReply (ReplyInt (int deleted)) (if deleted > 0 then add_dirty (int deleted) s5 else s5))
     }
   }"

definition smoveCommand :: "config \<Rightarrow> set_env \<Rightarrow> key \<Rightarrow> key \<Rightarrow> byte list \<Rightarrow> robj server \<Rightarrow> robj server option" where
  "smoveCommand cfg env src dst ele s = do {
     (s1, srcset) \<leftarrow> lookupKeyWrite cfg src s;
     (s2, dstset) \<leftarrow> lookupKeyWrite cfg dst s1;
     if srcset = None then Some (addReply (ReplyInt 0) s2)
     else if checkType srcset then Some (addReply wrongtypeerr s2)
     else if checkType dstset then Some (addReply wrongtypeerr s2)
     else if dstset \<noteq> None \<and> src = dst then do {
       (s3, b) \<leftarrow> is_member src ele s2;
       Some (addReply (ReplyInt (if b then 1 else 0)) s3)
     }
     else do {
       so \<leftarrow> get_set src s2;
       (so', removed) \<leftarrow> setTypeRemove env so ele;
       let s3 = put_set src so' s2;
       if \<not> removed then Some (addReply (ReplyInt 0) s3)
       else do {
         let s4 = notifyKeyspaceEvent NOTIFY_SET ''srem'' src s3;
         let s5 = (if setTypeSize so' = 0
                   then notifyKeyspaceEvent NOTIFY_GENERIC ''del'' src (fst (dbDelete cfg src s4)) else s4);
         s6 \<leftarrow> (if dstset = None then dbAdd dst (OBJ_SET (setTypeCreate env ele)) s5 else Some s5);
         let s7 = add_dirty 1 (signalModifiedKey dst (signalModifiedKey src s6));
         dso \<leftarrow> get_set dst s7;
         (dso', added) \<leftarrow> setTypeAdd env dso ele;
         let s8 = put_set dst dso' s7;
         let s9 = (if added then notifyKeyspaceEvent NOTIFY_SET ''sadd'' dst (add_dirty 1 s8) else s8);
         Some (addReply (ReplyInt 1) s9)
       }
     }
   }"

section \<open>Model: SISMEMBER, SMISMEMBER, SCARD\<close>

definition sismemberCommand :: "config \<Rightarrow> key \<Rightarrow> byte list \<Rightarrow> robj server \<Rightarrow> robj server option" where
  "sismemberCommand cfg key v s = do {
     (s1, set) \<leftarrow> lookupKeyReadOrReply cfg key (ReplyInt 0) s;
     if set = None then Some s1
     else if checkType set then Some (addReply wrongtypeerr s1)
     else do { (s2, b) \<leftarrow> is_member key v s1; Some (addReply (ReplyInt (if b then 1 else 0)) s2) }
   }"

fun smismember_loop :: "bool \<Rightarrow> key \<Rightarrow> byte list list \<Rightarrow> robj server \<Rightarrow> robj server option" where
  "smismember_loop exists key [] s = Some s"
| "smismember_loop exists key (v # args) s =
     (if exists
      then do { (s1, b) \<leftarrow> is_member key v s; smismember_loop exists key args (addReply (ReplyInt (if b then 1 else 0)) s1) }
      else smismember_loop exists key args (addReply (ReplyInt 0) s))"

definition smismemberCommand :: "config \<Rightarrow> key \<Rightarrow> byte list list \<Rightarrow> robj server \<Rightarrow> robj server option" where
  "smismemberCommand cfg key args s = do {
     (s1, set) \<leftarrow> lookupKeyRead cfg key s;
     if set \<noteq> None \<and> checkType set then Some (addReply wrongtypeerr s1)
     else smismember_loop (set \<noteq> None) key args (addReply (ReplyArrayLen (int (length args))) s1)
   }"

definition scardCommand :: "config \<Rightarrow> key \<Rightarrow> robj server \<Rightarrow> robj server option" where
  "scardCommand cfg key s = do {
     (s1, set) \<leftarrow> lookupKeyReadOrReply cfg key (ReplyInt 0) s;
     if set = None then Some s1
     else if checkType set then Some (addReply wrongtypeerr s1)
     else do { so \<leftarrow> get_set key s1; Some (addReply (ReplyInt (int (setTypeSize so))) s1) }
   }"

section \<open>Model: iterating over the set of a key\<close>

partial_function (option) foreach_key ::
  "set_env \<Rightarrow> (set_elem \<Rightarrow> robj server \<times> 'b \<Rightarrow> (robj server \<times> 'b) option) \<Rightarrow> key \<Rightarrow> set_iter \<Rightarrow> robj server \<times> 'b
     \<Rightarrow> (robj server \<times> 'b) option" where
  "foreach_key env body k si st = do {
     so \<leftarrow> get_set k (fst st);
     (so', si', e) \<leftarrow> setTypeNext env so si;
     let s1 = put_set k so' (fst st);
     (case e of
        None \<Rightarrow> do { so'' \<leftarrow> setTypeReleaseIterator env so' si'; Some (put_set k so'' s1, snd st) }
      | Some e \<Rightarrow> do { st' \<leftarrow> body e (s1, snd st); foreach_key env body k si' st' })
   }"

definition iterate_key ::
  "set_env \<Rightarrow> (set_elem \<Rightarrow> robj server \<times> 'b \<Rightarrow> (robj server \<times> 'b) option) \<Rightarrow> key \<Rightarrow> robj server \<times> 'b \<Rightarrow> (robj server \<times> 'b) option" where
  "iterate_key env body k st = do { so \<leftarrow> get_set k (fst st); foreach_key env body k (setTypeInitIterator so) st }"

definition store_set :: "config \<Rightarrow> key \<Rightarrow> setobj \<Rightarrow> string \<Rightarrow> robj server \<Rightarrow> robj server option" where
  "store_set cfg dstkey dstset ev s =
     (if setTypeSize dstset > 0 then do {
        s1 \<leftarrow> setKey cfg dstkey (OBJ_SET dstset) s;
        let s2 = addReply (ReplyInt (int (setTypeSize dstset))) s1;
        Some (add_dirty 1 (notifyKeyspaceEvent NOTIFY_SET ev dstkey s2))
      }
      else do {
        let s1 = addReply (ReplyInt 0) s;
        let (s2, deleted) = dbDelete cfg dstkey s1;
        Some (if deleted then notifyKeyspaceEvent NOTIFY_GENERIC ''del'' dstkey (signalModifiedKey dstkey (add_dirty 1 s2)) else s2)
      })"

section \<open>Model: SINTER and SINTERSTORE\<close>

datatype lookups = AllSets | Missing | WrongType

definition lookup_for :: "config \<Rightarrow> bool \<Rightarrow> key \<Rightarrow> robj server \<Rightarrow> (robj server \<times> robj option) option" where
  "lookup_for cfg write k s = (if write then lookupKeyWrite cfg k s else lookupKeyRead cfg k s)"

fun sinter_lookup :: "config \<Rightarrow> bool \<Rightarrow> key list \<Rightarrow> robj server \<Rightarrow> (robj server \<times> lookups) option" where
  "sinter_lookup cfg write [] s = Some (s, AllSets)"
| "sinter_lookup cfg write (k # ks) s = do {
     (s1, o') \<leftarrow> lookup_for cfg write k s;
     if o' = None then Some (s1, Missing)
     else if checkType o' then Some (s1, WrongType)
     else sinter_lookup cfg write ks s1
   }"

definition key_size :: "robj server \<Rightarrow> key \<Rightarrow> nat" where
  "key_size s k = (case get_set k s of Some so \<Rightarrow> setTypeSize so | None \<Rightarrow> 0)"

text \<open>The test of one element against the other sets, which stops at the first that lacks it.\<close>

fun inter_test :: "key \<Rightarrow> set_elem \<Rightarrow> key list \<Rightarrow> robj server \<Rightarrow> (robj server \<times> bool) option" where
  "inter_test k0 e [] s = Some (s, True)"
| "inter_test k0 e (k # ks) s =
     (if k = k0 then inter_test k0 e ks s
      else do {
        so \<leftarrow> get_set k s;
        (s1, b) \<leftarrow> (case e of
            ElemInt v \<Rightarrow> (case so of
                OBJ_ENCODING_INTSET is \<Rightarrow> map_option (\<lambda>b. (s, b)) (intsetFind is v)
              | OBJ_ENCODING_HT _ \<Rightarrow> is_member k (sdsll2str v) s)
          | ElemStr x \<Rightarrow> is_member k x s);
        if b then inter_test k0 e ks s1 else Some (s1, False)
      })"

text \<open>One round; the state is the replies collected so far and the set to be stored.\<close>

definition inter_round :: "set_env \<Rightarrow> bool \<Rightarrow> key \<Rightarrow> key list \<Rightarrow> set_elem \<Rightarrow> robj server \<times> byte list list \<times> setobj
    \<Rightarrow> (robj server \<times> byte list list \<times> setobj) option" where
  "inter_round env store k0 ks e st = do {
     let (s, bulks, dstset) = st;
     (s1, all) \<leftarrow> inter_test k0 e ks s;
     if all then
       if \<not> store then do { b \<leftarrow> elem_bulk e; Some (s1, bulks @ [b], dstset) }
       else do { (dstset', _) \<leftarrow> setTypeAdd env dstset (elem_sds e); Some (s1, bulks, dstset') }
     else Some (s1, bulks, dstset)
   }"

text \<open>The length of the reply is known at the end only and written in front of the elements then.\<close>

definition sinterGenericCommand :: "config \<Rightarrow> set_env \<Rightarrow> key list \<Rightarrow> key option \<Rightarrow> robj server \<Rightarrow> robj server option" where
  "sinterGenericCommand cfg env setkeys dstkey s = do {
     (s1, r) \<leftarrow> sinter_lookup cfg (dstkey \<noteq> None) setkeys s;
     (case r of
        WrongType \<Rightarrow> Some (addReply wrongtypeerr s1)
      | Missing \<Rightarrow>
          (case dstkey of
             Some dst \<Rightarrow>
               let (s2, deleted) = dbDelete cfg dst s1
               in Some (addReply (ReplyInt 0) (if deleted then add_dirty 1 (signalModifiedKey dst s2) else s2))
           | None \<Rightarrow> Some (addReply (ReplySetLen 0) s1))
      | AllSets \<Rightarrow>
          (case sort_key (key_size s1) setkeys of
             [] \<Rightarrow> None
           | k0 # ks \<Rightarrow> do {
               (s2, bulks, dstset) \<leftarrow> iterate_key env (inter_round env (dstkey \<noteq> None) k0 ks) k0 (s1, [], createIntsetObject);
               (case dstkey of
                  Some dst \<Rightarrow> store_set cfg dst dstset ''sinterstore'' s2
                | None \<Rightarrow> Some (s2\<lparr>s_reply := s_reply s2 @ ReplySetLen (int (length bulks)) # map ReplyBulk bulks\<rparr>))
             }))
   }"

definition sinterCommand :: "config \<Rightarrow> set_env \<Rightarrow> key list \<Rightarrow> robj server \<Rightarrow> robj server option" where
  "sinterCommand cfg env keys s = sinterGenericCommand cfg env keys None s"

definition sinterstoreCommand :: "config \<Rightarrow> set_env \<Rightarrow> key \<Rightarrow> key list \<Rightarrow> robj server \<Rightarrow> robj server option" where
  "sinterstoreCommand cfg env dst keys s = sinterGenericCommand cfg env keys (Some dst) s"

section \<open>Model: SUNION, SDIFF and their STORE variants\<close>

datatype set_operation = SET_OP_UNION | SET_OP_DIFF

text \<open>The array of sets: \<open>None\<close> for a key that does not exist; the result is \<open>None\<close> on a wrong type.\<close>

fun union_lookup :: "config \<Rightarrow> bool \<Rightarrow> key list \<Rightarrow> robj server \<Rightarrow> (robj server \<times> key option list option) option" where
  "union_lookup cfg write [] s = Some (s, Some [])"
| "union_lookup cfg write (k # ks) s = do {
     (s1, o') \<leftarrow> lookup_for cfg write k s;
     if o' \<noteq> None \<and> checkType o' then Some (s1, None)
     else do {
       (s2, r) \<leftarrow> union_lookup cfg write ks s1;
       Some (s2, map_option (\<lambda>sets. (if o' = None then None else Some k) # sets) r)
     }
   }"

definition opt_size :: "robj server \<Rightarrow> key option \<Rightarrow> nat" where
  "opt_size s o' = (case o' of None \<Rightarrow> 0 | Some k \<Rightarrow> key_size s k)"

definition diff_algo :: "robj server \<Rightarrow> key option list \<Rightarrow> nat" where
  "diff_algo s sets =
     (let present = filter (\<lambda>o'. o' \<noteq> None) sets;
          algo_one_work = (\<Sum>o' \<leftarrow> present. opt_size s (hd sets)) div 2;
          algo_two_work = (\<Sum>o' \<leftarrow> present. opt_size s o')
      in if algo_one_work \<le> algo_two_work then 1 else 2)"

definition wrap32 :: "int \<Rightarrow> int" where
  "wrap32 x = (x + 2147483648) mod 4294967296 - 2147483648"

text \<open>The state of the loops is the server, the result set and the running cardinality, an \<open>int\<close>.\<close>

definition union_round :: "set_env \<Rightarrow> set_elem \<Rightarrow> robj server \<times> setobj \<times> int \<Rightarrow> (robj server \<times> setobj \<times> int) option" where
  "union_round env e st = do {
     let (s, dstset, cardinality) = st;
     (dstset', b) \<leftarrow> setTypeAdd env dstset (elem_sds e);
     Some (s, dstset', if b then wrap32 (cardinality + 1) else cardinality)
   }"

fun union_loop :: "set_env \<Rightarrow> key option list \<Rightarrow> robj server \<times> setobj \<times> int \<Rightarrow> (robj server \<times> setobj \<times> int) option" where
  "union_loop env [] st = Some st"
| "union_loop env (None # sets) st = union_loop env sets st"
| "union_loop env (Some k # sets) st = do { st' \<leftarrow> iterate_key env (union_round env) k st; union_loop env sets st' }"

fun diff1_test :: "key \<Rightarrow> byte list \<Rightarrow> key option list \<Rightarrow> robj server \<Rightarrow> (robj server \<times> bool) option" where
  "diff1_test k0 ele [] s = Some (s, True)"
| "diff1_test k0 ele (None # sets) s = diff1_test k0 ele sets s"
| "diff1_test k0 ele (Some k # sets) s =
     (if k = k0 then Some (s, False)
      else do { (s1, b) \<leftarrow> is_member k ele s; if b then Some (s1, False) else diff1_test k0 ele sets s1 })"

definition diff1_round :: "set_env \<Rightarrow> key \<Rightarrow> key option list \<Rightarrow> set_elem \<Rightarrow> robj server \<times> setobj \<times> int
    \<Rightarrow> (robj server \<times> setobj \<times> int) option" where
  "diff1_round env k0 sets e st = do {
     let (s, dstset, cardinality) = st;
     (s1, new) \<leftarrow> diff1_test k0 (elem_sds e) sets s;
     if new then do { (dstset', _) \<leftarrow> setTypeAdd env dstset (elem_sds e); Some (s1, dstset', wrap32 (cardinality + 1)) }
     else Some (s1, dstset, cardinality)
   }"

definition diff2_round :: "set_env \<Rightarrow> bool \<Rightarrow> set_elem \<Rightarrow> robj server \<times> setobj \<times> int \<Rightarrow> (robj server \<times> setobj \<times> int) option" where
  "diff2_round env first e st =
     (if first then union_round env e st
      else do {
        let (s, dstset, cardinality) = st;
        (dstset', b) \<leftarrow> setTypeRemove env dstset (elem_sds e);
        Some (s, dstset', if b then wrap32 (cardinality - 1) else cardinality)
      })"

fun diff2_loop :: "set_env \<Rightarrow> bool \<Rightarrow> key option list \<Rightarrow> robj server \<times> setobj \<times> int \<Rightarrow> (robj server \<times> setobj \<times> int) option" where
  "diff2_loop env first [] st = Some st"
| "diff2_loop env first (None # sets) st = diff2_loop env False sets st"
| "diff2_loop env first (Some k # sets) st = do {
     st' \<leftarrow> iterate_key env (diff2_round env first) k st;
     if snd (snd st') = 0 then Some st' else diff2_loop env False sets st'
   }"

definition sunionDiff_compute :: "set_env \<Rightarrow> set_operation \<Rightarrow> key option list \<Rightarrow> robj server
    \<Rightarrow> (robj server \<times> setobj \<times> int) option" where
  "sunionDiff_compute env op sets s =
     (let st = (s, createIntsetObject, 0) in
      case op of
        SET_OP_UNION \<Rightarrow> union_loop env sets st
      | SET_OP_DIFF \<Rightarrow>
          (case sets of
             Some k0 # rest \<Rightarrow>
               if diff_algo s sets = 1
               then iterate_key env (diff1_round env k0 (sort_key (\<lambda>o'. - int (opt_size s o')) rest)) k0 st
               else diff2_loop env True sets st
           | _ \<Rightarrow> Some st))"

definition sunionDiffGenericCommand :: "config \<Rightarrow> set_env \<Rightarrow> set_operation \<Rightarrow> key list \<Rightarrow> key option
    \<Rightarrow> robj server \<Rightarrow> robj server option" where
  "sunionDiffGenericCommand cfg env op setkeys dstkey s = do {
     (s1, r) \<leftarrow> union_lookup cfg (dstkey \<noteq> None) setkeys s;
     (case r of
        None \<Rightarrow> Some (addReply wrongtypeerr s1)
      | Some sets \<Rightarrow> do {
          (s2, dstset, cardinality) \<leftarrow> sunionDiff_compute env op sets s1;
          (case dstkey of
             None \<Rightarrow> do {
               let s3 = addReply (ReplySetLen cardinality) s2;
               bulks \<leftarrow> set_texts env dstset;
               Some (s3\<lparr>s_reply := s_reply s3 @ map ReplyBulk bulks\<rparr>)
             }
           | Some dst \<Rightarrow> store_set cfg dst dstset (if op = SET_OP_UNION then ''sunionstore'' else ''sdiffstore'') s2)
        })
   }"

definition sunionCommand :: "config \<Rightarrow> set_env \<Rightarrow> key list \<Rightarrow> robj server \<Rightarrow> robj server option" where
  "sunionCommand cfg env keys s = sunionDiffGenericCommand cfg env SET_OP_UNION keys None s"

definition sunionstoreCommand :: "config \<Rightarrow> set_env \<Rightarrow> key \<Rightarrow> key list \<Rightarrow> robj server \<Rightarrow> robj server option" where
  "sunionstoreCommand cfg env dst keys s = sunionDiffGenericCommand cfg env SET_OP_UNION keys (Some dst) s"

definition sdiffCommand :: "config \<Rightarrow> set_env \<Rightarrow> key list \<Rightarrow> robj server \<Rightarrow> robj server option" where
  "sdiffCommand cfg env keys s = sunionDiffGenericCommand cfg env SET_OP_DIFF keys None s"

definition sdiffstoreCommand :: "config \<Rightarrow> set_env \<Rightarrow> key \<Rightarrow> key list \<Rightarrow> robj server \<Rightarrow> robj server option" where
  "sdiffstoreCommand cfg env dst keys s = sunionDiffGenericCommand cfg env SET_OP_DIFF keys (Some dst) s"

section \<open>The invariant: no empty sets, every object well formed\<close>

definition robj_ok :: "set_env \<Rightarrow> robj \<Rightarrow> bool" where
  "robj_ok env o' = (case o' of
       OBJ_SET so \<Rightarrow> set_inv env so \<and> set_elems so \<noteq> {} \<and> card (set_elems so) < 2 ^ 60
     | OBJ_OTHER _ \<Rightarrow> True)"

definition srv_inv :: "set_env \<Rightarrow> robj server \<Rightarrow> bool" where
  "srv_inv env s \<longleftrightarrow> env_max_intset env < 536870911 \<and> db_inv (robj_ok env) s"

text \<open>The abstract keyspace: the set of texts each key holds.\<close>

definition set_at :: "robj server \<Rightarrow> key \<Rightarrow> byte list set" where
  "set_at s k = (case get_set k s of Some so \<Rightarrow> set_elems so | None \<Rightarrow> {})"

definition same_obj :: "robj option \<Rightarrow> robj option \<Rightarrow> bool" where
  "same_obj x y \<longleftrightarrow> x = y \<or> (\<exists>so so'. x = Some (OBJ_SET so) \<and> y = Some (OBJ_SET so') \<and> set_elems so' = set_elems so)"

text \<open>States that differ at most in the representation of the sets they hold.\<close>

definition same_sets :: "robj server \<Rightarrow> robj server \<Rightarrow> bool" where
  "same_sets s s' \<longleftrightarrow> db_expires s' = db_expires s \<and> s_reply s' = s_reply s \<and> s_dirty s' = s_dirty s \<and> s_trace s' = s_trace s
     \<and> (\<forall>k. same_obj (db_dict s k) (db_dict s' k))"

lemma srv_invD: "srv_inv env s \<Longrightarrow> db_inv (robj_ok env) s" "srv_inv env s \<Longrightarrow> env_max_intset env < 536870911"
  by (simp_all add: srv_inv_def)

lemma get_set_eq: "get_set k s = Some so \<longleftrightarrow> db_dict s k = Some (OBJ_SET so)"
  by (auto simp: get_set_def split: option.splits robj.splits)

lemma srv_inv_set:
  assumes "srv_inv env s" and "get_set k s = Some so"
  shows "set_inv env so" "set_elems so \<noteq> {}" "card (set_elems so) < 2 ^ 60" "set_rep env so"
  using assms db_invD(2) [of "robj_ok env" s k] by (auto simp: srv_inv_def get_set_eq robj_ok_def set_inv_def)

lemma put_set_same [simp]: "get_set k s = Some so \<Longrightarrow> put_set k so s = s"
  by (simp add: put_set_def get_set_eq) (metis (no_types, lifting) fun_upd_idem server.surjective server.update_convs(1))

lemma put_set_sel [simp]:
  "db_dict (put_set k so s) = (db_dict s)(k \<mapsto> OBJ_SET so)" "db_expires (put_set k so s) = db_expires s"
  "s_reply (put_set k so s) = s_reply s" "s_dirty (put_set k so s) = s_dirty s" "s_trace (put_set k so s) = s_trace s"
  by (simp_all add: put_set_def)

lemma get_set_simps [simp]:
  "get_set k (emit e s) = get_set k s" "get_set k (addReply r s) = get_set k s" "get_set k (add_dirty n s) = get_set k s"
  "get_set k (put_set k' so s) = (if k = k' then Some so else get_set k s)"
  "get_set k (delete_key k' s) = (if k = k' then None else get_set k s)"
  by (simp_all add: get_set_def)

lemma set_at_simps [simp]:
  "set_at (emit e s) k = set_at s k" "set_at (addReply r s) k = set_at s k" "set_at (add_dirty n s) k = set_at s k"
  "set_at (put_set k' so s) k = (if k = k' then set_elems so else set_at s k)"
  "set_at (delete_key k' s) k = (if k = k' then {} else set_at s k)"
  by (simp_all add: set_at_def)

lemma srv_inv_simps [simp]:
  "srv_inv env (emit e s) = srv_inv env s" "srv_inv env (addReply r s) = srv_inv env s"
  "srv_inv env (add_dirty n s) = srv_inv env s"
  by (simp_all add: srv_inv_def)

lemma same_obj_trans: "same_obj x y \<Longrightarrow> same_obj y z \<Longrightarrow> same_obj x z"
  by (auto simp: same_obj_def)

lemma same_sets_refl [simp]: "same_sets s s"
  by (simp add: same_sets_def same_obj_def)

lemma same_sets_trans: "same_sets s t \<Longrightarrow> same_sets t u \<Longrightarrow> same_sets s u"
  unfolding same_sets_def using same_obj_trans by metis

lemma same_sets_obj: "same_sets s s' \<Longrightarrow> same_obj (db_dict s k) (db_dict s' k)"
  by (simp add: same_sets_def)

lemma same_sets_at: "same_sets s s' \<Longrightarrow> set_at s' k = set_at s k"
  using same_sets_obj [of s s' k] by (auto simp: same_obj_def set_at_def get_set_def)

lemma same_sets_get: "same_sets s s' \<Longrightarrow> get_set k s' \<noteq> None \<longleftrightarrow> get_set k s \<noteq> None"
  using same_sets_obj [of s s' k] by (auto simp: same_obj_def get_set_def)

lemma srv_inv_put:
  assumes "srv_inv env s" and "get_set k s \<noteq> None" and "robj_ok env (OBJ_SET so)"
  shows "srv_inv env (put_set k so s)"
  using assms by (auto simp: srv_inv_def db_inv_def get_set_def dom_def split: if_splits option.splits)

lemma is_member_ok:
  assumes inv: "srv_inv env s" and so: "get_set k s = Some so"
  shows "\<exists>s'. is_member k v s = Some (s', v \<in> set_at s k) \<and> srv_inv env s' \<and> same_sets s s'
     \<and> (\<forall>k'. k' \<noteq> k \<longrightarrow> db_dict s' k' = db_dict s k')"
proof -
  note ok = srv_inv_set [OF inv so]
  obtain so' where so': "setTypeIsMember so v = Some (so', v \<in> set_elems so)" "set_inv env so'" "set_elems so' = set_elems so"
    using sset.member_law [OF ok(1) _ ok(3)] by blast
  have "srv_inv env (put_set k so' s)" using so' ok so by (intro srv_inv_put [OF inv]) (simp_all add: robj_ok_def)
  moreover have "same_sets s (put_set k so' s)" using so so'(3) by (auto simp: same_sets_def same_obj_def get_set_eq)
  moreover have "set_at s k = set_elems so" using so by (simp add: set_at_def)
  ultimately show ?thesis using so so'(1) by (auto simp: is_member_def)
qed

section \<open>Iteration over the set of a key\<close>

lemma iterate_key_spec:
  assumes get: "get_set k (fst st) = Some so" and rep: "set_rep env so"
    and frame: "\<And>e s b r. body e (s, b) = Some r \<Longrightarrow> db_dict (fst r) k = db_dict s k"
  shows "iterate_key env body k st = each body (set_list so) st"
proof -
  have "foreach_key env body k si st = each body es st" if "yields env so si es" "get_set k (fst st) = Some so" for si es st
    using that
  proof (induction arbitrary: st)
    case (yields_end si si')
    then show ?case by (subst foreach_key.simps) simp
  next
    case (yields_next si si' e es)
    show ?case
    proof (cases "body e st")
      case None
      then show ?thesis using yields_next by (subst foreach_key.simps) simp
    next
      case (Some st')
      then have "db_dict (fst st') k = db_dict (fst st) k" using frame by (metis prod.collapse)
      then have "get_set k (fst st') = Some so" using yields_next.prems by (simp add: get_set_def)
      then show ?thesis using Some yields_next by (subst foreach_key.simps) simp
    qed
  qed
  then show ?thesis using set_iterator_yields [OF rep] get by (simp add: iterate_key_def)
qed

text \<open>
  Running a body over a list: an invariant over the part of the list already processed.\<close>

lemma each_invariant:
  assumes "I [] st" and "\<And>ys y zs st. xs = ys @ y # zs \<Longrightarrow> I ys st \<Longrightarrow> \<exists>st'. body y st = Some st' \<and> I (ys @ [y]) st'"
  shows "\<exists>st'. each body xs st = Some st' \<and> I xs st'"
proof -
  have "\<exists>st'. each body zs st = Some st' \<and> I xs st'" if "xs = ys @ zs" "I ys st" for ys zs st
    using that
  proof (induction zs arbitrary: ys st)
    case (Cons z zs)
    then obtain st' where "body z st = Some st'" "I (ys @ [z]) st'" using assms(2) by blast
    then show ?case using Cons.IH [of "ys @ [z]" st'] Cons.prems(1) by simp
  qed simp
  then show ?thesis using assms(1) by fastforce
qed

section \<open>SADD, SREM and SMOVE\<close>

lemma srem_loop_ok:
  assumes "set_inv env so" and "card (set_elems so) < 2 ^ 60" and "set_elems so \<noteq> {}"
  shows "\<exists>so'. srem_loop env args so n = Some (so', n + card (set_elems so \<inter> set args), set_elems so \<subseteq> set args)
     \<and> set_inv env so' \<and> set_elems so' = set_elems so - set args"
  using assms
proof (induction args arbitrary: so n)
  case (Cons v args)
  let ?A = "set_elems so"
  obtain so1 where so1: "setTypeRemove env so v = Some (so1, v \<in> ?A)" "set_inv env so1" "set_elems so1 = ?A - {v}"
    using sset.remove_law [OF Cons.prems(1) _ Cons.prems(2)] by blast
  have fin: "finite ?A" by (rule finite_set_elems)
  have size: "setTypeSize so1 = card (?A - {v})" using sset.size_law [OF so1(2)] so1(3) by simp
  show ?case
  proof (cases "v \<in> ?A \<and> ?A - {v} = {}")
    case True
    then have "?A = {v}" by auto
    then show ?thesis using so1 size by auto
  next
    case False
    then have ne: "set_elems so1 \<noteq> {}" using so1(3) Cons.prems(3) by auto
    have "card (set_elems so1) < 2 ^ 60" using so1(3) card_Diff1_le [of ?A v] Cons.prems(2) by simp
    then obtain so2 where so2: "srem_loop env args so1 (if v \<in> ?A then n + 1 else n)
          = Some (so2, (if v \<in> ?A then n + 1 else n) + card (set_elems so1 \<inter> set args), set_elems so1 \<subseteq> set args)"
        "set_inv env so2" "set_elems so2 = set_elems so1 - set args"
      using Cons.IH [OF so1(2) _ ne] by blast
    have run: "srem_loop env (v # args) so n = srem_loop env args so1 (if v \<in> ?A then n + 1 else n)"
    proof -
      have "v \<in> ?A \<Longrightarrow> setTypeSize so1 \<noteq> 0" using size False fin card_0_eq [of "?A - {v}"] by auto
      then show ?thesis using so1(1) by (cases "v \<in> ?A") simp_all
    qed
    have "(if v \<in> ?A then n + 1 else n) + card (set_elems so1 \<inter> set args) = n + card (?A \<inter> set (v # args))"
    proof (cases "v \<in> ?A")
      case True
      then have "?A \<inter> set (v # args) = insert v (set_elems so1 \<inter> set args)" "v \<notin> set_elems so1 \<inter> set args" using so1(3) by auto
      then show ?thesis using True by simp
    next
      case False
      then have "?A \<inter> set (v # args) = set_elems so1 \<inter> set args" using so1(3) by auto
      then show ?thesis using False by simp
    qed
    moreover have "(set_elems so1 \<subseteq> set args) = (?A \<subseteq> set (v # args))" using so1(3) by auto
    ultimately show ?thesis using so2 so1(3) unfolding run by auto
  qed
qed auto

lemma checkType_iff: "checkType o' \<longleftrightarrow> (\<exists>n. o' = Some (OBJ_OTHER n))"
  by (auto simp: checkType_def split: option.splits robj.splits)

lemma not_checkType: "\<not> checkType (db_dict s k) \<Longrightarrow> db_dict s k \<noteq> None \<Longrightarrow> \<exists>so. get_set k s = Some so"
  by (auto simp: checkType_def get_set_def split: option.splits robj.splits)

text \<open>
  The object of a key is created when the key does not exist, and shrunk or deleted with it.\<close>

lemma ensure_set:
  assumes inv: "srv_inv env s" and ok: "\<not> checkType (db_dict s key)"
  shows "\<exists>s' so. (if db_dict s key = None then dbAdd key (OBJ_SET (setTypeCreate env v)) s else Some s) = Some s'
     \<and> get_set key s' = Some so \<and> set_inv env so \<and> set_elems so = set_at s key \<and> s_reply s' = s_reply s
     \<and> (\<forall>k. k \<noteq> key \<longrightarrow> db_dict s' k = db_dict s k) \<and> db_expires s' = db_expires s
     \<and> (\<forall>so'. robj_ok env (OBJ_SET so') \<longrightarrow> srv_inv env (put_set key so' s'))"
proof -
  have grow: "srv_inv env (put_set key so' s')"
    if "robj_ok env (OBJ_SET so')" "\<forall>k. k \<noteq> key \<longrightarrow> db_dict s' k = db_dict s k" "db_expires s' = db_expires s" for s' so'
    using that inv by (auto simp: srv_inv_def db_inv_def dom_def split: if_splits)
  show ?thesis
  proof (cases "db_dict s key")
    case None
    then show ?thesis using grow setTypeCreate_inv [OF srv_invD(2) [OF inv], of v]
      by (simp add: dbAdd_def get_set_eq) (simp add: set_at_def get_set_def)
  next
    case (Some o')
    then obtain so where so: "get_set key s = Some so" using ok not_checkType [of s key] by auto
    then show ?thesis using Some grow srv_inv_set [OF inv so] by (auto simp: set_at_def)
  qed
qed

lemma srv_inv_shrink:
  assumes inv: "srv_inv env s" and so: "get_set key s = Some so" and so': "set_inv env so'" "set_elems so' \<subseteq> set_elems so"
  shows "srv_inv env (if set_elems so' = {} then delete_key key (put_set key so' s) else put_set key so' s)"
proof (cases "set_elems so' = {}")
  case True
  have "db_inv (robj_ok env) (delete_key key s)" using srv_invD(1) [OF inv] by simp
  then show ?thesis using True srv_invD(2) [OF inv] by (simp add: srv_inv_def db_inv_def)
next
  case False
  have "card (set_elems so') \<le> card (set_elems so)" using so'(2) finite_set_elems by (intro card_mono) auto
  then have "robj_ok env (OBJ_SET so')" using so' srv_inv_set(3) [OF inv so] False by (auto simp: robj_ok_def)
  then show ?thesis using False srv_inv_put [OF inv] so by simp
qed

text \<open>
  A keyspace for the examples: the key \<open>s\<close> holds the set with the one element \<open>x\<close>.\<close>

lemma ex_keyspace:
  "\<exists>so s. set_inv ex_env so \<and> set_elems so = {[120]} \<and> srv_inv ex_env s \<and> db_dict s = [[115] \<mapsto> OBJ_SET so]
     \<and> db_expires s = Map.empty \<and> s_reply s = []"
proof -
  have e: "env_max_intset ex_env < 536870911" by (simp add: ex_env_def)
  obtain so where so: "set_inv ex_env so" "set_elems so = {[120]}"
    using set_add_law [OF setTypeCreate_inv(1) [OF e], of "[120]" "[120]"] setTypeCreate_inv(2) [OF e, of "[120]"] by auto
  then show ?thesis using e
    by (intro exI [of _ so] exI [of _ "empty_server\<lparr>db_dict := [[115] \<mapsto> OBJ_SET so]\<rparr>"])
      (auto simp: srv_inv_def db_inv_def robj_ok_def empty_server_def)
qed

lemma no_expires_access [simp]: "db_expires s = Map.empty \<Longrightarrow> access cfg k s = s"
  by (simp add: access_def is_expired_def)

lemma saddCommand_ok:
  assumes inv: "srv_inv env s" and ok: "\<not> checkType (db_dict (access cfg key s) key)"
    and args: "args \<noteq> []" and room: "card (set_at (access cfg key s) key \<union> set args) < 2 ^ 60"
  shows "\<exists>s'. saddCommand cfg env key args s = Some s' \<and> srv_inv env s'
     \<and> set_at s' key = set_at (access cfg key s) key \<union> set args
     \<and> (\<forall>k. k \<noteq> key \<longrightarrow> db_dict s' k = db_dict s k \<and> db_expires s' k = db_expires s k)
     \<and> s_reply s' = s_reply s @ [ReplyInt (int (card (set args - set_at (access cfg key s) key)))]"
proof -
  define s1 where "s1 = access cfg key s"
  have inv1: "srv_inv env s1" using inv by (simp add: srv_inv_def s1_def del: access_sel)
  have lk: "lookupKeyWrite cfg key s = Some (s1, db_dict s1 key)"
    using lookupKeyWrite_ok [OF srv_invD(1) [OF inv]] by (simp add: s1_def)
  obtain s2 so where s2: "(if db_dict s1 key = None then dbAdd key (OBJ_SET (setTypeCreate env (hd args))) s1 else Some s1) = Some s2"
      "get_set key s2 = Some so" "set_inv env so" "set_elems so = set_at s1 key" "s_reply s2 = s_reply s1"
      "\<forall>k. k \<noteq> key \<longrightarrow> db_dict s2 k = db_dict s1 k" "db_expires s2 = db_expires s1"
      "\<forall>so'. robj_ok env (OBJ_SET so') \<longrightarrow> srv_inv env (put_set key so' s2)"
    using ensure_set [OF inv1, of key "hd args"] ok unfolding s1_def [symmetric] by blast
  obtain so' where so': "add_all (setTypeAdd env) args so 0 = Some (so', card (set args - set_at s1 key))"
      "set_inv env so'" "set_elems so' = set_at s1 key \<union> set args"
    using sset.add_all_law [OF s2(3), of args 0] room s2(4) by (auto simp: s1_def)
  have "robj_ok env (OBJ_SET so')" using so' room args by (simp add: robj_ok_def s1_def)
  then have "srv_inv env (put_set key so' s2)" using s2(8) by blast
  moreover have "\<forall>k. k \<noteq> key \<longrightarrow> db_dict s1 k = db_dict s k \<and> db_expires s1 k = db_expires s k" "s_reply s1 = s_reply s"
    by (auto simp: s1_def)
  ultimately show ?thesis using lk ok s2 so' unfolding s1_def [symmetric]
    by (simp add: saddCommand_def Let_def)
qed

text \<open>
  \<open>SADD\<close> on a key that holds a set or nothing: afterwards the key holds exactly the old elements
  and the arguments, the reply is the number of elements that were new, no other key and no
  deadline of another key changes, and the command never aborts.
\<close>

theorem saddCommand_correct:
  assumes "srv_inv env s" and "\<not> checkType (db_dict (access cfg key s) key)"
    and "args \<noteq> []" and "card (set_at (access cfg key s) key \<union> set args) < 2 ^ 60"
  shows "\<exists>s'. saddCommand cfg env key args s = Some s' \<and> srv_inv env s'
     \<and> set_at s' key = set_at (access cfg key s) key \<union> set args
     \<and> (\<forall>k. k \<noteq> key \<longrightarrow> db_dict s' k = db_dict s k \<and> db_expires s' k = db_expires s k)
     \<and> s_reply s' = s_reply s @ [ReplyInt (int (card (set args - set_at (access cfg key s) key)))]"
  using assms by (rule saddCommand_ok)

theorem saddCommand_correct_witness:
  "\<exists>s'. saddCommand ex_config ex_env [115] [[120], [53], [120]] empty_server = Some s'
     \<and> set_at s' [115] = {[120], [53]} \<and> s_reply s' = [ReplyInt 2]"
proof -
  define s0 where "s0 = (empty_server :: robj server)"
  have s0: "srv_inv ex_env s0" "db_expires s0 = Map.empty" "db_dict s0 = Map.empty" "s_reply s0 = []"
    by (simp_all add: srv_inv_def db_inv_def empty_server_def ex_env_def s0_def)
  have at0: "set_at s0 [115] = {}" using s0(3) by (simp add: set_at_def get_set_def)
  have args: "set [[120], [53], [120]] = {[120], [53 :: byte]}" by auto
  show ?thesis
    using saddCommand_correct [of ex_env s0 ex_config "[115]" "[[120], [53], [120]]"] s0 at0
    unfolding args s0_def [symmetric] by (auto simp: checkType_def)
qed

lemma sremCommand_ok:
  assumes inv: "srv_inv env s" and so: "get_set key (access cfg key s) = Some so"
  shows "\<exists>s'. sremCommand cfg env key args s = Some s' \<and> srv_inv env s'
     \<and> set_at s' key = set_elems so - set args \<and> (db_dict s' key = None \<longleftrightarrow> set_elems so \<subseteq> set args)
     \<and> (\<forall>k. k \<noteq> key \<longrightarrow> db_dict s' k = db_dict s k \<and> db_expires s' k = db_expires s k)
     \<and> s_reply s' = s_reply s @ [ReplyInt (int (card (set_elems so \<inter> set args)))]"
proof -
  define s1 where "s1 = access cfg key s"
  have inv1: "srv_inv env s1" using inv by (simp add: srv_inv_def s1_def del: access_sel)
  have so1: "get_set key s1 = Some so" using so by (simp add: s1_def)
  note ok = srv_inv_set [OF inv1 so1]
  have lk: "lookupKeyWriteOrReply cfg key (ReplyInt 0) s = Some (s1, Some (OBJ_SET so))"
    using lookupKeyWrite_ok [OF srv_invD(1) [OF inv]] so1
    by (simp add: lookupKeyWriteOrReply_def s1_def get_set_eq del: access_sel)
  obtain so' where so': "srem_loop env args so 0 = Some (so', card (set_elems so \<inter> set args), set_elems so \<subseteq> set args)"
      "set_inv env so'" "set_elems so' = set_elems so - set args"
    using srem_loop_ok [OF ok(1,3,2), of args 0] by auto
  define s2 where "s2 = put_set key so' s1"
  define s3 where "s3 = (if set_elems so \<subseteq> set args then delete_key key s2 else s2)"
  have "srv_inv env s3" using srv_inv_shrink [OF inv1 so1 so'(2)] so'(3) by (auto simp: s3_def s2_def split: if_splits)
  moreover have "\<forall>k. k \<noteq> key \<longrightarrow> db_dict s3 k = db_dict s k \<and> db_expires s3 k = db_expires s k" "s_reply s3 = s_reply s"
    by (auto simp: s3_def s2_def s1_def)
  moreover have "set_at s3 key = set_elems so - set args" "db_dict s3 key = None \<longleftrightarrow> set_elems so \<subseteq> set args"
    using so'(3) by (auto simp: s3_def s2_def)
  moreover have ct: "checkType (Some (OBJ_SET so)) = False" by (simp add: checkType_def)
  define n where "n = card (set_elems so \<inter> set args)"
  define s4 where "s4 = (if n > 0 then notifyKeyspaceEvent NOTIFY_SET ''srem'' key (signalModifiedKey key s3) else s3)"
  define s5 where "s5 = (if n > 0 \<and> set_elems so \<subseteq> set args then notifyKeyspaceEvent NOTIFY_GENERIC ''del'' key s4 else s4)"
  have "sremCommand cfg env key args s = Some (addReply (ReplyInt (int n)) (if n > 0 then add_dirty (int n) s5 else s5))"
    by (simp only: sremCommand_def Let_def lk so1 so'(1) ct bind.bind_lunit prod.case option.distinct if_False
        dbDelete_eq fst_conv n_def [symmetric] s2_def [symmetric] s3_def [symmetric] s4_def [symmetric] s5_def [symmetric])
  ultimately show ?thesis by (simp add: s5_def s4_def n_def)
qed

text \<open>
  \<open>SREM\<close> on a key that holds a set: afterwards the key holds exactly the old elements without the
  arguments, or is gone when none is left, so that no key ever holds an empty set; the reply is the
  number of elements removed and no other key changes.
\<close>

theorem sremCommand_correct:
  assumes "srv_inv env s" and "get_set key (access cfg key s) = Some so"
  shows "\<exists>s'. sremCommand cfg env key args s = Some s' \<and> srv_inv env s'
     \<and> set_at s' key = set_elems so - set args \<and> (db_dict s' key = None \<longleftrightarrow> set_elems so \<subseteq> set args)
     \<and> (\<forall>k. k \<noteq> key \<longrightarrow> db_dict s' k = db_dict s k \<and> db_expires s' k = db_expires s k)
     \<and> s_reply s' = s_reply s @ [ReplyInt (int (card (set_elems so \<inter> set args)))]"
  using assms by (rule sremCommand_ok)

theorem sremCommand_correct_witness:
  "\<exists>s s'. set_at s [115] = {[120]} \<and> sremCommand ex_config ex_env [115] [[53], [120]] s = Some s'
     \<and> db_dict s' [115] = None \<and> s_reply s' = [ReplyInt 1]"
proof -
  obtain so s where "set_elems so = {[120]}" "srv_inv ex_env s" "db_dict s = [[115] \<mapsto> OBJ_SET so]"
      "db_expires s = Map.empty" "s_reply s = []"
    using ex_keyspace by blast
  then show ?thesis using sremCommand_correct [of ex_env s "[115]" ex_config so "[[53], [120]]"]
    by - (rule exI [of _ s], auto simp: get_set_def set_at_def)
qed

lemma smoveCommand_ok:
  assumes inv: "srv_inv env s" and ne: "src \<noteq> dst" and src: "get_set src (access cfg src s) = Some so" and ele: "ele \<in> set_elems so"
    and dst: "\<not> checkType (db_dict (access cfg dst s) dst)" and room: "card (insert ele (set_at (access cfg dst s) dst)) < 2 ^ 60"
  shows "\<exists>s'. smoveCommand cfg env src dst ele s = Some s' \<and> srv_inv env s' \<and> set_at s' src = set_elems so - {ele}
     \<and> set_at s' dst = insert ele (set_at (access cfg dst s) dst)
     \<and> (\<forall>k. k \<noteq> src \<and> k \<noteq> dst \<longrightarrow> db_dict s' k = db_dict s k) \<and> s_reply s' = s_reply s @ [ReplyInt 1]"
proof -
  have keep: "access cfg src s = s" using src by (auto simp: access_def evict_def split: if_splits)
  define s2 where "s2 = access cfg dst s"
  have inv2: "srv_inv env s2" using inv by (simp add: srv_inv_def s2_def del: access_sel)
  have f2: "\<forall>k. k \<noteq> dst \<longrightarrow> db_dict s2 k = db_dict s k" "s_reply s2 = s_reply s" by (auto simp: s2_def)
  have so2: "get_set src s2 = Some so" using src ne f2(1) unfolding keep by (simp add: get_set_def)
  have lk1: "lookupKeyWrite cfg src s = Some (s, Some (OBJ_SET so))"
    using lookupKeyWrite_ok [OF srv_invD(1) [OF inv], of cfg src] keep src by (simp add: get_set_eq del: access_sel)
  have lk2: "lookupKeyWrite cfg dst s = Some (s2, db_dict s2 dst)"
    using lookupKeyWrite_ok [OF srv_invD(1) [OF inv], of cfg dst] by (simp add: s2_def)
  note ok = srv_inv_set [OF inv2 so2]
  obtain so' where so': "setTypeRemove env so ele = Some (so', True)" "set_inv env so'" "set_elems so' = set_elems so - {ele}"
    using sset.remove_law [OF ok(1) _ ok(3), of ele] ele by auto
  have size: "setTypeSize so' = 0 \<longleftrightarrow> set_elems so' = {}" using sset.size_law [OF so'(2)] finite_set_elems [of so'] by simp
  define s4 where "s4 = notifyKeyspaceEvent NOTIFY_SET ''srem'' src (put_set src so' s2)"
  define s5 where "s5 = (if setTypeSize so' = 0 then notifyKeyspaceEvent NOTIFY_GENERIC ''del'' src (delete_key src s4) else s4)"
  have inv5: "srv_inv env s5"
    using srv_inv_shrink [OF inv2 so2 so'(2)] so'(3) size
    by (cases "set_elems so' = {}") (auto simp: s5_def s4_def srv_inv_def db_inv_def)
  have f5: "\<forall>k. k \<noteq> src \<longrightarrow> db_dict s5 k = db_dict s2 k" "s_reply s5 = s_reply s" "set_at s5 src = set_elems so - {ele}"
    using size so'(3) f2(2) by (auto simp: s5_def s4_def)
  have d5: "db_dict s5 dst = db_dict s2 dst" "set_at s5 dst = set_at s2 dst" using f5(1) ne by (auto simp: set_at_def get_set_def)
  obtain s6 dso where s6: "(if db_dict s2 dst = None then dbAdd dst (OBJ_SET (setTypeCreate env ele)) s5 else Some s5) = Some s6"
      "get_set dst s6 = Some dso" "set_inv env dso" "set_elems dso = set_at s2 dst" "s_reply s6 = s_reply s"
      "\<forall>k. k \<noteq> dst \<longrightarrow> db_dict s6 k = db_dict s5 k" "\<forall>so'. robj_ok env (OBJ_SET so') \<longrightarrow> srv_inv env (put_set dst so' s6)"
    using ensure_set [OF inv5, of dst ele] dst d5 f5(2) unfolding s2_def [symmetric] by metis
  have card: "card (insert ele (set_at s2 dst)) < 2 ^ 60" using room by (simp add: s2_def)
  have "card (set_elems dso) \<le> card (insert ele (set_at s2 dst))" using s6(4) finite_set_elems [of dso] by (intro card_mono) auto
  then obtain dso' b where dso': "setTypeAdd env dso ele = Some (dso', b)" "set_inv env dso'" "set_elems dso' = insert ele (set_at s2 dst)"
    using sset.add_law [OF s6(3), of ele] s6(4) card by auto
  define s7 where "s7 = add_dirty 1 (signalModifiedKey dst (signalModifiedKey src s6))"
  define s9 where "s9 = (if b then notifyKeyspaceEvent NOTIFY_SET ''sadd'' dst (add_dirty 1 (put_set dst dso' s7)) else put_set dst dso' s7)"
  have ct: "checkType (Some (OBJ_SET so)) = False" "checkType (db_dict s2 dst) = False" using dst by (simp_all add: checkType_def s2_def)
  have g7: "get_set dst s7 = Some dso" using s6(2) by (simp add: s7_def)
  have run: "smoveCommand cfg env src dst ele s = Some (addReply (ReplyInt 1) s9)"
    by (simp only: smoveCommand_def Let_def lk1 lk2 bind.bind_lunit prod.case option.distinct if_False ct ne simp_thms so2 so'(1)
        dbDelete_eq fst_conv s4_def [symmetric] s5_def [symmetric] s6(1) s7_def [symmetric] g7 dso'(1) s9_def [symmetric])
  have "robj_ok env (OBJ_SET dso')" using dso' card by (simp add: robj_ok_def)
  then have "srv_inv env (put_set dst dso' s6)" using s6(7) by blast
  then have "srv_inv env s9" by (simp add: s9_def s7_def srv_inv_def db_inv_def)
  moreover have "set_at s9 src = set_elems so - {ele}" using f5(3) s6(6) ne by (simp add: s9_def s7_def set_at_def get_set_def)
  moreover have "set_at s9 dst = insert ele (set_at s2 dst)" using dso'(3) by (simp add: s9_def)
  moreover have "\<forall>k. k \<noteq> src \<and> k \<noteq> dst \<longrightarrow> db_dict s9 k = db_dict s k" using f2(1) f5(1) s6(6) by (simp add: s9_def s7_def)
  moreover have "s_reply s9 = s_reply s" using s6(5) by (simp add: s9_def s7_def)
  ultimately show ?thesis using run by (simp add: s2_def)
qed

text \<open>
  \<open>SMOVE\<close> of an element from one set to another key that holds a set or nothing: the element leaves
  the source, whose key is deleted when nothing is left, and is in the destination afterwards;
  nothing else changes, the reply is 1, and the command never aborts.
\<close>

theorem smoveCommand_correct:
  assumes "srv_inv env s" and "src \<noteq> dst" and "get_set src (access cfg src s) = Some so" and "ele \<in> set_elems so"
    and "\<not> checkType (db_dict (access cfg dst s) dst)" and "card (insert ele (set_at (access cfg dst s) dst)) < 2 ^ 60"
  shows "\<exists>s'. smoveCommand cfg env src dst ele s = Some s' \<and> srv_inv env s' \<and> set_at s' src = set_elems so - {ele}
     \<and> set_at s' dst = insert ele (set_at (access cfg dst s) dst)
     \<and> (\<forall>k. k \<noteq> src \<and> k \<noteq> dst \<longrightarrow> db_dict s' k = db_dict s k) \<and> s_reply s' = s_reply s @ [ReplyInt 1]"
  using assms by (rule smoveCommand_ok)

theorem smoveCommand_correct_witness:
  "\<exists>s s'. set_at s [115] = {[120]} \<and> smoveCommand ex_config ex_env [115] [116] [120] s = Some s'
     \<and> set_at s' [115] = {} \<and> set_at s' [116] = {[120]} \<and> s_reply s' = [ReplyInt 1]"
proof -
  obtain so s where "set_elems so = {[120]}" "srv_inv ex_env s" "db_dict s = [[115] \<mapsto> OBJ_SET so]"
      "db_expires s = Map.empty" "s_reply s = []"
    using ex_keyspace by blast
  then show ?thesis using smoveCommand_correct [of ex_env s "[115]" "[116]" ex_config so "[120]"]
    by - (rule exI [of _ s], auto simp: get_set_def set_at_def checkType_def)
qed

end
