(* ===== verification/Signals.thy ===== *)
theory Signals
  imports Set_Commands
begin

text \<open>
  Which keys a step of the server reports as modified.  \<open>signalModifiedKey\<close> (\<open>db.c\<close>) is how commands tell
  transactions and client-side caches about changes; a change that is not signalled would go unnoticed.
  \<open>silent K s t\<close> says that from \<open>s\<close> to \<open>t\<close> every change of the content of a key outside \<open>K\<close> was signalled.
  The content of a set is its elements: lookups may reorganise a hash table without signalling.
\<close>

section \<open>Content and silence\<close>

definition value_content :: "robj \<Rightarrow> byte list set + nat" where
  "value_content o' = (case o' of OBJ_SET so \<Rightarrow> Inl (set_elems so) | OBJ_OTHER n \<Rightarrow> Inr n)"

definition content :: "robj server \<Rightarrow> key \<Rightarrow> (byte list set + nat) option \<times> int option" where
  "content s k = (map_option value_content (db_dict s k), db_expires s k)"

definition signalled :: "event list \<Rightarrow> key set" where
  "signalled evs = {k. EvModified k \<in> set evs}"

definition silent :: "key set \<Rightarrow> robj server \<Rightarrow> robj server \<Rightarrow> bool" where
  "silent K s t \<longleftrightarrow> (\<exists>evs. s_trace t = s_trace s @ evs \<and> (\<forall>k. k \<notin> K \<union> signalled evs \<longrightarrow> content t k = content s k))"

named_theorems silent_intros

lemma signalled_simps [simp]:
  "signalled [] = {}" "signalled (evs @ evs') = signalled evs \<union> signalled evs'"
  "signalled [EvModified k] = {k}"
  by (auto simp: signalled_def)

lemma content_sel [simp]:
  "content (emit e s) = content s" "content (addReply r s) = content s" "content (add_dirty n s) = content s"
  "content (s\<lparr>s_reply := rs\<rparr>) = content s" "content (keymiss b key s) = content s"
  by (simp_all add: content_def fun_eq_iff)

lemma content_cong: "db_dict t k = db_dict s k \<Longrightarrow> db_expires t k = db_expires s k \<Longrightarrow> content t k = content s k"
  by (simp add: content_def)

lemma content_same_obj: "same_obj (db_dict s k) (db_dict t k) \<Longrightarrow> db_expires t k = db_expires s k \<Longrightarrow> content t k = content s k"
  by (auto simp: same_obj_def content_def value_content_def)

lemma silent_refl [silent_intros]: "silent K s s"
  by (simp add: silent_def)

lemma silent_trans: "silent K s t \<Longrightarrow> silent K t u \<Longrightarrow> silent K s u"
  unfolding silent_def by (elim exE conjE) (rule_tac x = "evs @ evsa" in exI, auto)

lemma silent_mono: "silent K s t \<Longrightarrow> K \<subseteq> K' \<Longrightarrow> silent K' s t"
  unfolding silent_def by blast

lemma silent_signal: "silent (insert k K) s t \<Longrightarrow> silent K s (signalModifiedKey k t)"
  unfolding silent_def by (elim exE conjE) (rule_tac x = "evs @ [EvModified k]" in exI, auto)

lemma silent_emit [silent_intros]: "silent K s t \<Longrightarrow> silent K s (emit e t)"
  unfolding silent_def by (elim exE conjE) (rule_tac x = "evs @ [e]" in exI, auto)

lemma silent_reply [silent_intros]: "silent K s t \<Longrightarrow> silent K s (addReply r t)"
  by (simp add: silent_def)

lemma silent_replies [silent_intros]: "silent K s t \<Longrightarrow> silent K s (t\<lparr>s_reply := rs\<rparr>)"
  by (simp add: silent_def)

lemma silent_dirty [silent_intros]: "silent K s t \<Longrightarrow> silent K s (add_dirty n t)"
  by (simp add: silent_def)

lemma silent_keymiss [silent_intros]: "silent K s t \<Longrightarrow> silent K s (keymiss b key t)"
  unfolding keymiss_def by (cases b) (auto intro!: silent_intros simp: silent_def content_def)

lemma silent_same_sets: "same_sets s t \<Longrightarrow> silent K s t"
  by (auto simp: silent_def same_sets_def intro: content_same_obj)

lemma silent_change:
  assumes "silent K s t" and "s_trace u = s_trace t" and "\<And>k. k \<notin> K \<Longrightarrow> content u k = content t k"
  shows "silent K s u"
  using assms unfolding silent_def by (elim exE conjE) (rule_tac x = evs in exI, auto)

lemma silent_delete [silent_intros]: "silent K s t \<Longrightarrow> k \<in> K \<Longrightarrow> silent K s (delete_key k t)"
  by (erule silent_change) (auto intro!: content_cong)

lemma silent_put [silent_intros]: "silent K s t \<Longrightarrow> k \<in> K \<Longrightarrow> silent K s (put_set k so t)"
  by (erule silent_change) (auto intro!: content_cong)

lemma silent_put_same: "silent K s t \<Longrightarrow> get_set k t = Some so \<Longrightarrow> set_elems so' = set_elems so \<Longrightarrow> silent K s (put_set k so' t)"
  by (erule silent_change) (auto simp: content_def value_content_def get_set_eq)

lemma silent_dbAdd: "silent K s t \<Longrightarrow> dbAdd k v t = Some u \<Longrightarrow> k \<in> K \<Longrightarrow> silent K s u"
  by (auto simp: dbAdd_def bind_eq_Some_conv intro!: silent_emit elim!: silent_change intro: content_cong)

text \<open>
  Deleting a key that does not exist changes nothing, as no deadline is left behind.\<close>

lemma silent_delete_absent: "silent K s t \<Longrightarrow> db_inv P t \<Longrightarrow> db_dict t k = None \<Longrightarrow> silent K s (delete_key k t)"
  using db_invD(1) [of P t k] by (cases "db_expires t k"; erule_tac silent_change) (auto simp: content_def)

section \<open>Lookups and single keys\<close>

lemma silent_access [silent_intros]:
  assumes "silent K s t" shows "silent K s (access cfg k t)"
proof (cases "is_expired cfg t k \<and> evicts cfg")
  case True
  have "silent K t (evict cfg k t)" unfolding evict_def
    by (intro silent_signal silent_delete silent_emit) (auto simp: silent_def content_def)
  then show ?thesis using True silent_trans [OF assms] by (simp add: access_def)
next
  case False
  then have "access cfg k t = t" by (simp only: access_def if_False)
  then show ?thesis using assms by simp
qed

lemma silent_read:
  assumes "db_inv P s"
  shows "\<exists>s1. lookupKeyReadWithFlags cfg b k s = Some (s1, visible cfg s k) \<and> db_inv P s1 \<and> silent K s s1"
proof -
  have a: "silent K s (access cfg k s)" by (intro silent_intros)
  then have "silent K s (keymiss b k (access cfg k s))" "silent K s ((access cfg k s)\<lparr>s_hits := n\<rparr>)" for n
    by (intro silent_intros | simp add: silent_def content_def)+
  then show ?thesis using lookupKeyReadWithFlags_ok [OF assms, of cfg b k] assms
    by (auto simp: lookupKeyReadWithFlags_def expireIfNeeded_ok [OF assms] db_inv_def split: option.splits if_splits)
qed

end
