(* ===== verification/Set_Algebra.thy ===== *)
theory Set_Algebra
  imports Signals
begin

text \<open>
  Correctness of the commands that combine sets (\<open>SINTER\<close>, \<open>SUNION\<close>, \<open>SDIFF\<close> and the variants that store
  the result), whose model is in \<open>Set_Commands\<close>: what they compute is the intersection, union or
  difference of the sets the keys hold, although the objects are changed in place while they are
  read and the same key may be named several times.
\<close>

section \<open>Looking up several keys\<close>

text \<open>What a lookup for writing or for reading sees under a key, and the set of texts it sees.\<close>

definition seen :: "config \<Rightarrow> bool \<Rightarrow> robj server \<Rightarrow> key \<Rightarrow> robj option" where
  "seen cfg w s k = (if w then db_dict (access cfg k s) k else visible cfg s k)"

definition seen_set :: "config \<Rightarrow> bool \<Rightarrow> robj server \<Rightarrow> key \<Rightarrow> byte list set" where
  "seen_set cfg w s k = (case seen cfg w s k of Some (OBJ_SET so) \<Rightarrow> set_elems so | _ \<Rightarrow> {})"

definition looked :: "config \<Rightarrow> bool \<Rightarrow> set_env \<Rightarrow> robj server \<Rightarrow> robj server \<Rightarrow> bool" where
  "looked cfg w env s s' \<longleftrightarrow> srv_inv env s' \<and> s_reply s' = s_reply s \<and> (\<forall>k. seen cfg w s' k = seen cfg w s k)
     \<and> (\<forall>k. db_dict s' k = db_dict s k \<or> db_dict s' k = None \<and> is_expired cfg s k)
     \<and> (\<forall>k. is_expired cfg s' k \<longrightarrow> is_expired cfg s k) \<and> silent {} s s'"

lemma looked_refl: "srv_inv env s \<Longrightarrow> looked cfg w env s s"
  by (simp add: looked_def silent_refl)

lemma looked_trans: "looked cfg w env s t \<Longrightarrow> looked cfg w env t u \<Longrightarrow> looked cfg w env s u"
  unfolding looked_def using silent_trans by metis

lemma seen_dict: "seen cfg w s k = Some o' \<Longrightarrow> db_dict s k = Some o'"
  by (auto simp: seen_def visible_def split: if_splits)

lemma seen_cong: "db_dict s' = db_dict s \<Longrightarrow> db_expires s' = db_expires s \<Longrightarrow> seen cfg w s' = seen cfg w s"
  by (intro ext) (simp only: seen_def visible_def access_sel is_expired_def)

lemma looked_access:
  assumes inv: "srv_inv env s" and d: "db_dict s' = db_dict (access cfg k s)" "db_expires s' = db_expires (access cfg k s)"
    and r: "s_reply s' = s_reply s" and quiet: "silent {} s s'"
  shows "looked cfg w env s s'"
proof (cases "is_expired cfg s k \<and> evicts cfg")
  case True
  then have e: "is_expired cfg s' k' \<longleftrightarrow> is_expired cfg s k' \<and> k' \<noteq> k" for k' using d by (auto simp: is_expired_def)
  have "srv_inv env s'" using inv db_inv_cong [OF d] by (simp add: srv_inv_def)
  moreover have "seen cfg w s' k' = seen cfg w s k'" for k'
    using True d(1) e [of k'] by (cases "k' = k") (simp_all add: seen_def visible_def evicts_def)
  ultimately show ?thesis using True d(1) r e quiet by (simp add: looked_def)
next
  case False
  then have e: "is_expired cfg s' = is_expired cfg s" using d(2) by (simp add: is_expired_def fun_eq_iff)
  have "srv_inv env s'" using inv db_inv_cong [OF d] by (simp add: srv_inv_def)
  moreover have dd: "db_dict s' = db_dict s" using False d(1) by (simp only: access_sel if_False)
  moreover have "seen cfg w s' = seen cfg w s" by (simp only: seen_def visible_def access_sel fun_eq_iff e dd simp_thms)
  ultimately show ?thesis using e r quiet by (simp add: looked_def)
qed

lemma lookup_for_ok:
  assumes "srv_inv env s"
  shows "\<exists>s1. lookup_for cfg w k s = Some (s1, seen cfg w s k) \<and> looked cfg w env s s1"
proof (cases w)
  case True
  then show ?thesis using lookupKeyWrite_ok [OF srv_invD(1) [OF assms], of cfg k] looked_access [OF assms refl refl _ silent_access [OF silent_refl]]
    by (simp add: lookup_for_def seen_def del: access_sel(1,2))
next
  case False
  obtain s1 where "lookupKeyRead cfg k s = Some (s1, visible cfg s k)" "db_dict s1 = db_dict (access cfg k s)"
      "db_expires s1 = db_expires (access cfg k s)" "s_reply s1 = s_reply s" "silent {} s s1"
    using lookupKeyReadWithFlags_ok [OF srv_invD(1) [OF assms], of cfg False k]
      silent_read [OF srv_invD(1) [OF assms], of cfg False k "{}"] by (auto simp: lookupKeyRead_def)
  then show ?thesis using False looked_access [OF assms] by (simp add: lookup_for_def seen_def del: access_sel(1,2))
qed

lemma sinter_lookup_ok:
  assumes "srv_inv env s"
  shows "\<exists>s1 r. sinter_lookup cfg w ks s = Some (s1, r) \<and> looked cfg w env s s1
     \<and> (r = AllSets \<longleftrightarrow> (\<forall>k \<in> set ks. \<exists>so. seen cfg w s k = Some (OBJ_SET so)))
     \<and> (r = Missing \<longrightarrow> (\<exists>k \<in> set ks. seen cfg w s k = None))
     \<and> (r = WrongType \<longrightarrow> (\<exists>k \<in> set ks. checkType (seen cfg w s k)))"
  using assms
proof (induction ks arbitrary: s)
  case Nil
  then show ?case by (simp add: looked_refl)
next
  case (Cons k ks)
  obtain s1 where s1: "lookup_for cfg w k s = Some (s1, seen cfg w s k)" "looked cfg w env s s1"
    using lookup_for_ok [OF Cons.prems] by blast
  then have seen1: "seen cfg w s1 = seen cfg w s" and inv1: "srv_inv env s1" by (auto simp: looked_def fun_eq_iff)
  consider "seen cfg w s k = None" | n where "seen cfg w s k = Some (OBJ_OTHER n)" | so where "seen cfg w s k = Some (OBJ_SET so)"
    by (metis option.exhaust robj.exhaust)
  then show ?case
  proof cases
    case 3
    obtain s2 r where s2: "sinter_lookup cfg w ks s1 = Some (s2, r)" "looked cfg w env s1 s2"
      and r: "r = AllSets \<longleftrightarrow> (\<forall>k \<in> set ks. \<exists>so. seen cfg w s k = Some (OBJ_SET so))"
        "r = Missing \<longrightarrow> (\<exists>k \<in> set ks. seen cfg w s k = None)" "r = WrongType \<longrightarrow> (\<exists>k \<in> set ks. checkType (seen cfg w s k))"
      using Cons.IH [OF inv1] unfolding seen1 by blast
    have "sinter_lookup cfg w (k # ks) s = Some (s2, r)" using s1(1) s2(1) 3 by (simp add: checkType_def)
    then show ?thesis using looked_trans [OF s1(2) s2(2)] r 3 by auto
  qed (use s1 in \<open>auto simp: checkType_def\<close>)
qed

section \<open>Intersection\<close>

lemma elem_sds_int: "int64 v \<Longrightarrow> elem_sds (ElemInt v) = dec_int v"
  by (simp add: elem_sds_def sdsll2str_dec)

definition elem_ok :: "set_elem \<Rightarrow> bool" where
  "elem_ok e = (case e of ElemInt v \<Rightarrow> int64 v | ElemStr _ \<Rightarrow> True)"

lemma set_list_ok: "set_rep env so \<Longrightarrow> e \<in> set (set_list so) \<Longrightarrow> elem_ok e"
  using intset_elems_int64 by (auto simp: set_list_def set_rep_def elem_ok_def split: setobj.splits)

lemma inter_test_frame: "inter_test k0 e ks s = Some r \<Longrightarrow> db_dict (fst r) k0 = db_dict s k0"
proof (induction k0 e ks s rule: inter_test.induct)
  case (2 k0 e k ks s)
  have mem: "db_dict (fst r) k0 = db_dict s k0" if "is_member k v s = Some r" "k \<noteq> k0" for v r
    using that by (auto simp: is_member_def split: bind_splits)
  show ?case
  proof (cases "k = k0")
    case True
    then show ?thesis using "2.IH"(1) "2.prems" by simp
  next
    case False
    then obtain so s1 b where so: "get_set k s = Some so" and t: "(case e of
            ElemInt v \<Rightarrow> (case so of
                OBJ_ENCODING_INTSET is \<Rightarrow> map_option (\<lambda>b. (s, b)) (intsetFind is v)
              | OBJ_ENCODING_HT _ \<Rightarrow> is_member k (sdsll2str v) s)
          | ElemStr x \<Rightarrow> is_member k x s) = Some (s1, b)"
      and r: "(if b then inter_test k0 e ks s1 else Some (s1, False)) = Some r"
      using "2.prems" by (auto split: bind_splits)
    have "db_dict s1 k0 = db_dict s k0"
      using t mem [OF _ False] by (force split: set_elem.splits setobj.splits option.splits)
    then show ?thesis using r "2.IH"(2) [OF False so t refl] by (auto split: if_splits)
  qed
qed auto

text \<open>
  One set is asked for the element, by whichever of the three ways the encodings allow.\<close>

lemma inter_ask:
  assumes inv: "srv_inv env s" and so: "get_set k s = Some so" and e: "elem_ok e"
  shows "\<exists>s1. (case e of
            ElemInt v \<Rightarrow> (case so of
                OBJ_ENCODING_INTSET is \<Rightarrow> map_option (\<lambda>b. (s, b)) (intsetFind is v)
              | OBJ_ENCODING_HT _ \<Rightarrow> is_member k (sdsll2str v) s)
          | ElemStr x \<Rightarrow> is_member k x s) = Some (s1, elem_sds e \<in> set_at s k) \<and> srv_inv env s1 \<and> same_sets s s1"
proof (cases e)
  case (ElemStr x)
  then show ?thesis using is_member_ok [OF inv so, of x] by (auto simp: elem_sds_def)
next
  case (ElemInt v)
  then have v: "int64 v" using e by (simp add: elem_ok_def)
  show ?thesis
  proof (cases so)
    case (OBJ_ENCODING_HT d)
    then show ?thesis using ElemInt is_member_ok [OF inv so, of "sdsll2str v"] by (auto simp: elem_sds_def)
  next
    case (OBJ_ENCODING_INTSET "is")
    note i = set_inv_intset [OF srv_inv_set(1) [OF inv so, unfolded OBJ_ENCODING_INTSET]]
    have "intsetFind is v = Some (v \<in> set (intset_elems is))" using iset.member_law [OF i(1) v i(2)] by auto
    moreover have "dec_int v \<in> set_elems so \<longleftrightarrow> v \<in> set (intset_elems is)"
      unfolding OBJ_ENCODING_INTSET using intset_text_elem [OF i(1), of "dec_int v"] string2ll_dec_int [OF v] by simp
    ultimately show ?thesis using ElemInt OBJ_ENCODING_INTSET inv so by (simp add: elem_sds_int [OF v] set_at_def)
  qed
qed

lemma inter_test_ok:
  assumes "srv_inv env s" and "\<forall>k \<in> set ks. get_set k s \<noteq> None" and e: "elem_ok e"
  shows "\<exists>s'. inter_test k0 e ks s = Some (s', \<forall>k \<in> set ks. k = k0 \<or> elem_sds e \<in> set_at s k)
     \<and> srv_inv env s' \<and> same_sets s s'"
  using assms(1,2)
proof (induction ks arbitrary: s)
  case (Cons k ks)
  show ?case
  proof (cases "k = k0")
    case True
    then show ?thesis using Cons.IH [OF Cons.prems(1)] Cons.prems(2) by auto
  next
    case False
    obtain so where so: "get_set k s = Some so" using Cons.prems(2) by auto
    obtain s1 where s1: "(case e of
            ElemInt v \<Rightarrow> (case so of
                OBJ_ENCODING_INTSET is \<Rightarrow> map_option (\<lambda>b. (s, b)) (intsetFind is v)
              | OBJ_ENCODING_HT _ \<Rightarrow> is_member k (sdsll2str v) s)
          | ElemStr x \<Rightarrow> is_member k x s) = Some (s1, elem_sds e \<in> set_at s k)" "srv_inv env s1" "same_sets s s1"
      using inter_ask [OF Cons.prems(1) so e] by blast
    have step: "inter_test k0 e (k # ks) s = (if elem_sds e \<in> set_at s k then inter_test k0 e ks s1 else Some (s1, False))"
      using False so s1(1) by simp
    show ?thesis
    proof (cases "elem_sds e \<in> set_at s k")
      case True
      have "\<forall>k \<in> set ks. get_set k s1 \<noteq> None" using Cons.prems(2) same_sets_get [OF s1(3)] by simp
      then obtain s2 where "inter_test k0 e ks s1 = Some (s2, \<forall>k \<in> set ks. k = k0 \<or> elem_sds e \<in> set_at s k)"
          "srv_inv env s2" "same_sets s1 s2"
        using Cons.IH [OF s1(2)] same_sets_at [OF s1(3)] by auto
      then show ?thesis unfolding step using True same_sets_trans [OF s1(3)] by auto
    next
      case False
      then show ?thesis unfolding step using s1(2,3) \<open>k \<noteq> k0\<close> by auto
    qed
  qed
qed simp

lemma bulk_longlong_dec: "int64 v \<Longrightarrow> bulk_longlong v = Some (dec_int v)"
proof -
  assume v: "int64 v"
  then have "length (dec_int v) < 64" using dec_int_short [OF v] by simp
  then show ?thesis using ll2string_dec [OF v, of 64 "replicate 64 0"] by (simp add: bulk_longlong_def mem_read_def)
qed

lemma elem_bulk_ok: "elem_ok e \<Longrightarrow> elem_bulk e = Some (elem_sds e)"
  by (cases e) (simp_all add: elem_bulk_def bulk_longlong_dec elem_sds_int elem_ok_def, simp add: elem_sds_def)

text \<open>The elements of the first set that pass the test, and what the loop has collected of them.\<close>

definition inter_keep :: "robj server \<Rightarrow> key \<Rightarrow> key list \<Rightarrow> set_elem \<Rightarrow> bool" where
  "inter_keep s k0 ks e \<longleftrightarrow> (\<forall>k \<in> set ks. k = k0 \<or> elem_sds e \<in> set_at s k)"

definition inter_collected :: "set_env \<Rightarrow> bool \<Rightarrow> robj server \<Rightarrow> set_elem list \<Rightarrow> robj server \<times> byte list list \<times> setobj \<Rightarrow> bool" where
  "inter_collected env store s es st \<longleftrightarrow> (case st of (s', bulks, dst) \<Rightarrow>
     srv_inv env s' \<and> same_sets s s' \<and> set_inv env dst
     \<and> bulks = (if store then [] else map elem_sds es) \<and> set_elems dst = (if store then elem_sds ` set es else {}))"

lemma inter_round_ok:
  assumes col: "inter_collected env store s (filter (inter_keep s k0 ks) ys) st"
    and sets: "\<forall>k \<in> set ks. get_set k s \<noteq> None" and e: "elem_ok e"
    and room: "card (elem_sds ` set (filter (inter_keep s k0 ks) ys)) < 2 ^ 60"
  shows "\<exists>st'. inter_round env store k0 ks e st = Some st' \<and> inter_collected env store s (filter (inter_keep s k0 ks) (ys @ [e])) st'"
proof -
  obtain s1 bulks dst where st: "st = (s1, bulks, dst)" by (cases st) auto
  have c: "srv_inv env s1" "same_sets s s1" "set_inv env dst"
    "bulks = (if store then [] else map elem_sds (filter (inter_keep s k0 ks) ys))"
    "set_elems dst = (if store then elem_sds ` set (filter (inter_keep s k0 ks) ys) else {})"
    using col st by (simp_all add: inter_collected_def)
  have "\<forall>k \<in> set ks. get_set k s1 \<noteq> None" using sets same_sets_get [OF c(2)] by simp
  then obtain s2 where t: "inter_test k0 e ks s1 = Some (s2, inter_keep s k0 ks e)" "srv_inv env s2" "same_sets s1 s2"
    using inter_test_ok [OF c(1) _ e, of ks k0] same_sets_at [OF c(2)] unfolding inter_keep_def by auto
  note same = same_sets_trans [OF c(2) t(3)]
  consider "\<not> inter_keep s k0 ks e" | "inter_keep s k0 ks e" "\<not> store" | "inter_keep s k0 ks e" "store" by blast
  then show ?thesis
  proof cases
    case 1
    then show ?thesis using t c same st by (simp add: inter_round_def inter_collected_def)
  next
    case 2
    then show ?thesis using t c same st elem_bulk_ok [OF e] by (simp add: inter_round_def inter_collected_def)
  next
    case 3
    obtain dst' b where "setTypeAdd env dst (elem_sds e) = Some (dst', b)" "set_inv env dst'" "set_elems dst' = insert (elem_sds e) (set_elems dst)"
      using sset.add_law [OF c(3), of "elem_sds e"] room c(5) 3(2) by auto
    then show ?thesis using 3 t c same st by (simp add: inter_round_def inter_collected_def)
  qed
qed

lemma set_list_at: "srv_inv env s \<Longrightarrow> get_set k s = Some so \<Longrightarrow> elem_sds ` set (set_list so) = set_at s k"
  using set_list_texts(2) [OF srv_inv_set(4), of env s k so] by (simp add: set_at_def)

lemma createIntsetObject_inv: "env_max_intset env < 536870911 \<Longrightarrow> set_inv env createIntsetObject"
    "set_elems createIntsetObject = {}"
  using intsetNew_wf by (simp_all add: set_inv_def set_rep_def set_elems_def createIntsetObject_def) (simp add: intsetNew_def)

lemma inter_loop_ok:
  assumes inv: "srv_inv env s" and so: "get_set k0 s = Some so" and sets: "\<forall>k \<in> set ks. get_set k s \<noteq> None"
  shows "\<exists>s' bulks dst. iterate_key env (inter_round env store k0 ks) k0 (s, [], createIntsetObject) = Some (s', bulks, dst)
     \<and> inter_collected env store s (filter (inter_keep s k0 ks) (set_list so)) (s', bulks, dst)"
proof -
  note ok = srv_inv_set [OF inv so]
  have frame: "db_dict (fst r) k0 = db_dict s k0" if "inter_round env store k0 ks e (s, b) = Some r" for e s b r
    using that inter_test_frame [of k0 e ks s]
    by (cases b) (auto simp: inter_round_def Let_def split: bind_splits if_splits)
  have card: "card (elem_sds ` set (filter P ys)) < 2 ^ 60" if "set ys \<subseteq> set (set_list so)" for P ys
  proof -
    have "elem_sds ` set (filter P ys) \<subseteq> set_elems so" using that set_list_texts(2) [OF ok(4)] by auto
    then show ?thesis using card_mono [OF finite_set_elems] ok(3) by (meson order.strict_trans1)
  qed
  have "\<exists>st'. each (inter_round env store k0 ks) (set_list so) (s, [], createIntsetObject) = Some st'
      \<and> inter_collected env store s (filter (inter_keep s k0 ks) (set_list so)) st'"
  proof (rule each_invariant)
    show "inter_collected env store s (filter (inter_keep s k0 ks) []) (s, [], createIntsetObject)"
      using inv createIntsetObject_inv srv_invD(2) [OF inv] by (simp add: inter_collected_def)
  next
    fix ys y zs st
    assume l: "set_list so = ys @ y # zs" and c: "inter_collected env store s (filter (inter_keep s k0 ks) ys) st"
    have "y \<in> set (set_list so)" "set ys \<subseteq> set (set_list so)" using l by auto
    then show "\<exists>st'. inter_round env store k0 ks y st = Some st'
        \<and> inter_collected env store s (filter (inter_keep s k0 ks) (ys @ [y])) st'"
      using inter_round_ok [OF c sets] set_list_ok [OF ok(4)] card by blast
  qed
  moreover have "iterate_key env (inter_round env store k0 ks) k0 (s, [], createIntsetObject)
      = each (inter_round env store k0 ks) (set_list so) (s, [], createIntsetObject)"
    by (rule iterate_key_spec [OF _ ok(4) frame]) (use so in auto)
  ultimately show ?thesis by auto
qed

lemma inter_keep_set:
  assumes "srv_inv env s" and "get_set k0 s = Some so"
  shows "elem_sds ` set (filter (inter_keep s k0 ks) (set_list so)) = (\<Inter>k \<in> set (k0 # ks). set_at s k)"
  using set_list_at [OF assms, symmetric] by (auto simp: inter_keep_def)

lemma distinct_filter_texts: "set_rep env so \<Longrightarrow> distinct (map elem_sds (filter P (set_list so)))"
  using set_list_texts(1) by (simp add: distinct_map_filter)

lemma srv_inv_delete: "srv_inv env s \<Longrightarrow> srv_inv env (delete_key k s)"
  by (simp add: srv_inv_def)

lemma store_set_ok:
  assumes inv: "srv_inv env s" and dst: "set_inv env dst" "card (set_elems dst) < 2 ^ 60"
  shows "\<exists>s'. store_set cfg dstkey dst ev s = Some s' \<and> srv_inv env s' \<and> set_at s' dstkey = set_elems dst
     \<and> (db_dict s' dstkey = None \<longleftrightarrow> set_elems dst = {}) \<and> db_expires s' dstkey = None
     \<and> (\<forall>k. k \<noteq> dstkey \<longrightarrow> db_dict s' k = db_dict s k) \<and> s_reply s' = s_reply s @ [ReplyInt (int (card (set_elems dst)))]"
proof (cases "set_elems dst = {}")
  case True
  have "setTypeSize dst = 0" using sset.size_law [OF dst(1)] True by simp
  then show ?thesis using True srv_inv_delete [of env "addReply (ReplyInt 0) s" dstkey] inv
    by (auto simp: store_set_def Let_def)
next
  case False
  have size: "setTypeSize dst = card (set_elems dst)" "card (set_elems dst) > 0"
    using sset.size_law [OF dst(1)] False finite_set_elems [of dst] by auto
  obtain s1 where s1: "setKey cfg dstkey (OBJ_SET dst) s = Some s1" "db_dict s1 = (db_dict s)(dstkey \<mapsto> OBJ_SET dst)"
      "db_expires s1 = (db_expires s)(dstkey := None)" "s_reply s1 = s_reply s"
    using setKey_ok [OF srv_invD(1) [OF inv]] by blast
  have "robj_ok env (OBJ_SET dst)" using dst False by (simp add: robj_ok_def)
  then have "srv_inv env s1" using db_inv_set [OF srv_invD(1) [OF inv] _ s1(2,3)] srv_invD(2) [OF inv] by (simp add: srv_inv_def)
  then show ?thesis using False size s1 by (simp add: store_set_def Let_def) (simp add: set_at_def get_set_def)
qed

lemma seen_set_at: "seen cfg w s k = Some (OBJ_SET so) \<Longrightarrow> get_set k s = Some so \<and> seen_set cfg w s k = set_at s k"
  using seen_dict [of cfg w s k] by (auto simp: seen_set_def set_at_def get_set_def)

lemma sinterGeneric_start:
  assumes inv: "srv_inv env s" and keys: "keys \<noteq> []" and sets: "\<forall>k \<in> set keys. \<exists>so. seen cfg (dstkey \<noteq> None) s k = Some (OBJ_SET so)"
  shows "\<exists>s1 s2 bulks dst es. looked cfg (dstkey \<noteq> None) env s s1 \<and> inter_collected env (dstkey \<noteq> None) s1 es (s2, bulks, dst)
     \<and> distinct (map elem_sds es) \<and> elem_sds ` set es = (\<Inter>k \<in> set keys. seen_set cfg (dstkey \<noteq> None) s k)
     \<and> card (elem_sds ` set es) < 2 ^ 60
     \<and> sinterGenericCommand cfg env keys dstkey s = (case dstkey of
          Some d \<Rightarrow> store_set cfg d dst ''sinterstore'' s2
        | None \<Rightarrow> Some (s2\<lparr>s_reply := s_reply s2 @ ReplySetLen (int (length bulks)) # map ReplyBulk bulks\<rparr>))"
proof -
  let ?w = "dstkey \<noteq> None"
  obtain s1 where s1: "sinter_lookup cfg ?w keys s = Some (s1, AllSets)" "looked cfg ?w env s s1"
    using sinter_lookup_ok [OF inv, of cfg ?w keys] sets by blast
  then have inv1: "srv_inv env s1" and seen1: "\<And>k. seen cfg ?w s1 k = seen cfg ?w s k" by (simp_all add: looked_def)
  have at1: "get_set k s1 \<noteq> None \<and> set_at s1 k = seen_set cfg ?w s k" if "k \<in> set keys" for k
    using sets that seen1 [of k] seen_set_at [of cfg ?w s1 k] by (auto simp: seen_set_def)
  obtain k0 ks where sorted: "sort_key (key_size s1) keys = k0 # ks"
    using keys by (metis length_sort list.exhaust list.size(3) length_0_conv)
  then have keyset: "set (k0 # ks) = set keys" by (metis set_sort)
  then have "k0 \<in> set keys" "set ks \<subseteq> set keys" by auto
  then obtain so where so: "get_set k0 s1 = Some so" and ks: "\<forall>k \<in> set ks. get_set k s1 \<noteq> None" using at1 by blast
  define es where "es = filter (inter_keep s1 k0 ks) (set_list so)"
  obtain s2 bulks dst where it: "iterate_key env (inter_round env ?w k0 ks) k0 (s1, [], createIntsetObject) = Some (s2, bulks, dst)"
      "inter_collected env ?w s1 es (s2, bulks, dst)"
    using inter_loop_ok [OF inv1 so ks, of ?w] unfolding es_def by blast
  have "elem_sds ` set es = (\<Inter>k \<in> set keys. set_at s1 k)" unfolding es_def keyset [symmetric] by (rule inter_keep_set [OF inv1 so])
  then have set: "elem_sds ` set es = (\<Inter>k \<in> set keys. seen_set cfg ?w s k)" using at1 by simp
  have "elem_sds ` set es \<subseteq> set_elems so" unfolding es_def using set_list_texts(2) [OF srv_inv_set(4) [OF inv1 so]] by auto
  then have card: "card (elem_sds ` set es) < 2 ^ 60"
    using card_mono [OF finite_set_elems] srv_inv_set(3) [OF inv1 so] by (meson order.strict_trans1)
  have "sinterGenericCommand cfg env keys dstkey s = (case dstkey of
          Some d \<Rightarrow> store_set cfg d dst ''sinterstore'' s2
        | None \<Rightarrow> Some (s2\<lparr>s_reply := s_reply s2 @ ReplySetLen (int (length bulks)) # map ReplyBulk bulks\<rparr>))"
    by (simp only: sinterGenericCommand_def s1(1) sorted it(1) bind.bind_lunit prod.case lookups.case list.case)
  then show ?thesis using s1(2) it(2) set card distinct_filter_texts [OF srv_inv_set(4) [OF inv1 so]] unfolding es_def by blast
qed

text \<open>
  C28: \<open>SINTER\<close> on keys that all hold sets replies with the elements of their intersection, each exactly
  once, preceded by their number, whichever encodings the sets have, in whatever state of
  rehashing they are and however often a key is named; it never aborts (in particular no set is
  changed while it is iterated over) and changes no set.
\<close>

theorem sinterCommand_correct:
  assumes "srv_inv env s" and "keys \<noteq> []" and "\<forall>k \<in> set keys. \<exists>so. seen cfg False s k = Some (OBJ_SET so)"
  shows "\<exists>s' xs. sinterCommand cfg env keys s = Some s' \<and> distinct xs \<and> set xs = (\<Inter>k \<in> set keys. seen_set cfg False s k)
     \<and> s_reply s' = s_reply s @ ReplySetLen (int (length xs)) # map ReplyBulk xs \<and> srv_inv env s'
     \<and> (\<forall>k \<in> set keys. set_at s' k = seen_set cfg False s k)"
proof -
  obtain s1 s2 bulks dst es where l: "looked cfg False env s s1" and c: "inter_collected env False s1 es (s2, bulks, dst)"
    and es: "distinct (map elem_sds es)" "elem_sds ` set es = (\<Inter>k \<in> set keys. seen_set cfg False s k)"
    and run: "sinterGenericCommand cfg env keys None s = Some (s2\<lparr>s_reply := s_reply s2 @ ReplySetLen (int (length bulks)) # map ReplyBulk bulks\<rparr>)"
    using sinterGeneric_start [OF assms(1,2), of cfg None] assms(3) by auto
  have c': "srv_inv env s2" "same_sets s1 s2" "bulks = map elem_sds es" using c by (simp_all add: inter_collected_def)
  have "set_at s2 k = seen_set cfg False s k" if "k \<in> set keys" for k
  proof -
    obtain so where "seen cfg False s k = Some (OBJ_SET so)" using assms(3) \<open>k \<in> set keys\<close> by blast
    then have "seen cfg False s1 k = Some (OBJ_SET so)" using l by (simp add: looked_def)
    then show ?thesis using seen_set_at [of cfg False s1 k so] same_sets_at [OF c'(2)] l by (simp add: looked_def seen_set_def)
  qed
  moreover have "s_reply s2 = s_reply s" using l c'(2) by (simp add: looked_def same_sets_def)
  ultimately show ?thesis using run es c'
    by (intro exI [of _ "s2\<lparr>s_reply := s_reply s2 @ ReplySetLen (int (length bulks)) # map ReplyBulk bulks\<rparr>"] exI [of _ bulks])
      (simp add: sinterCommand_def srv_inv_def db_inv_def, simp add: set_at_def get_set_def)
qed

lemma ex_keyspace_seen:
  assumes "db_dict s = [[115] \<mapsto> OBJ_SET so]" and "db_expires s = Map.empty"
  shows "seen cfg w s k = (if k = [115] then Some (OBJ_SET so) else None)"
    "seen_set cfg w s k = (if k = [115] then set_elems so else {})"
  using assms by (simp_all add: seen_set_def seen_def visible_def is_expired_def)

theorem sinterCommand_correct_witness:
  "\<exists>s s'. set_at s [115] = {[120]} \<and> sinterCommand ex_config ex_env [[115], [115]] s = Some s'
     \<and> s_reply s' = [ReplySetLen 1, ReplyBulk [120]]"
proof -
  obtain so s where s: "set_elems so = {[120]}" "srv_inv ex_env s" "db_dict s = [[115] \<mapsto> OBJ_SET so]"
      "db_expires s = Map.empty" "s_reply s = []"
    using ex_keyspace by blast
  obtain s' xs where s': "sinterCommand ex_config ex_env [[115], [115]] s = Some s'" "distinct xs" "set xs = {[120]}"
      "s_reply s' = ReplySetLen (int (length xs)) # map ReplyBulk xs"
    using sinterCommand_correct [of ex_env s "[[115], [115]]" ex_config] s ex_keyspace_seen [OF s(3,4)] by auto
  have "xs = [[120]]" using s'(2,3) by (metis distinct_card card.empty card.insert empty_iff finite.emptyI length_0_conv length_Suc_conv
        list.set_intros(1) singletonD)
  then show ?thesis using s' s by - (rule exI [of _ s], auto simp: set_at_def get_set_def)
qed

text \<open>
  \<open>SINTERSTORE\<close> on keys that all hold sets makes the destination hold the intersection, without a
  deadline, or deletes it when the intersection is empty, also when the destination is one of the
  sources; the reply is the number of elements and no other set changes.
\<close>

theorem sinterstoreCommand_correct:
  assumes "srv_inv env s" and "keys \<noteq> []" and "\<forall>k \<in> set keys. \<exists>so. seen cfg True s k = Some (OBJ_SET so)"
  shows "\<exists>s'. sinterstoreCommand cfg env d keys s = Some s' \<and> srv_inv env s'
     \<and> set_at s' d = (\<Inter>k \<in> set keys. seen_set cfg True s k)
     \<and> (db_dict s' d = None \<longleftrightarrow> (\<Inter>k \<in> set keys. seen_set cfg True s k) = {}) \<and> db_expires s' d = None
     \<and> (\<forall>k \<in> set keys. k \<noteq> d \<longrightarrow> set_at s' k = seen_set cfg True s k)
     \<and> s_reply s' = s_reply s @ [ReplyInt (int (card (\<Inter>k \<in> set keys. seen_set cfg True s k)))]"
proof -
  obtain s1 s2 bulks dst es where l: "looked cfg True env s s1" and c: "inter_collected env True s1 es (s2, bulks, dst)"
    and es: "elem_sds ` set es = (\<Inter>k \<in> set keys. seen_set cfg True s k)" "card (elem_sds ` set es) < 2 ^ 60"
    and run: "sinterstoreCommand cfg env d keys s = store_set cfg d dst ''sinterstore'' s2"
    using sinterGeneric_start [OF assms(1,2), of cfg "Some d"] assms(3) by (auto simp: sinterstoreCommand_def)
  have c': "srv_inv env s2" "same_sets s1 s2" "set_inv env dst" "set_elems dst = elem_sds ` set es"
    using c by (simp_all add: inter_collected_def)
  obtain s' where s': "store_set cfg d dst ''sinterstore'' s2 = Some s'" "srv_inv env s'" "set_at s' d = set_elems dst"
      "db_dict s' d = None \<longleftrightarrow> set_elems dst = {}" "db_expires s' d = None" "\<forall>k. k \<noteq> d \<longrightarrow> db_dict s' k = db_dict s2 k"
      "s_reply s' = s_reply s2 @ [ReplyInt (int (card (set_elems dst)))]"
    using store_set_ok [OF c'(1,3), of cfg d "''sinterstore''"] c'(4) es(2) by auto
  have "set_at s' k = seen_set cfg True s k" if "k \<in> set keys" "k \<noteq> d" for k
  proof -
    obtain so where "seen cfg True s k = Some (OBJ_SET so)" using assms(3) \<open>k \<in> set keys\<close> by blast
    then have "seen cfg True s1 k = Some (OBJ_SET so)" using l by (simp add: looked_def)
    then have "set_at s2 k = seen_set cfg True s k" using seen_set_at [of cfg True s1 k so] same_sets_at [OF c'(2)] l by (simp add: looked_def seen_set_def)
    then show ?thesis using s'(6) that(2) by (simp add: set_at_def get_set_def)
  qed
  moreover have "s_reply s2 = s_reply s" using l c'(2) by (simp add: looked_def same_sets_def)
  ultimately show ?thesis using run s' c'(4) es(1) by auto
qed

theorem sinterstoreCommand_correct_witness:
  "\<exists>s s'. set_at s [115] = {[120]} \<and> sinterstoreCommand ex_config ex_env [116] [[115], [115]] s = Some s'
     \<and> set_at s' [116] = {[120]} \<and> s_reply s' = [ReplyInt 1]"
proof -
  obtain so s where s: "set_elems so = {[120]}" "srv_inv ex_env s" "db_dict s = [[115] \<mapsto> OBJ_SET so]"
      "db_expires s = Map.empty" "s_reply s = []"
    using ex_keyspace by blast
  then show ?thesis using sinterstoreCommand_correct [of ex_env s "[[115], [115]]" ex_config "[116]"] ex_keyspace_seen [OF s(3,4)]
    by - (rule exI [of _ s], auto simp: set_at_def get_set_def)
qed

section \<open>Union and difference\<close>

definition opt_at :: "robj server \<Rightarrow> key option \<Rightarrow> byte list set" where
  "opt_at s o' = (case o' of None \<Rightarrow> {} | Some k \<Rightarrow> set_at s k)"

definition sets_ok :: "robj server \<Rightarrow> key option list \<Rightarrow> bool" where
  "sets_ok s sets \<longleftrightarrow> (\<forall>k. Some k \<in> set sets \<longrightarrow> get_set k s \<noteq> None)"

text \<open>The result so far is \<open>R\<close>, the counter is its size, and the sets are as they were.\<close>

definition result_is :: "set_env \<Rightarrow> robj server \<Rightarrow> byte list set \<Rightarrow> robj server \<times> setobj \<times> int \<Rightarrow> bool" where
  "result_is env s R st \<longleftrightarrow> (case st of (s', dst, c) \<Rightarrow>
     srv_inv env s' \<and> same_sets s s' \<and> set_inv env dst \<and> set_elems dst = R \<and> c = int (card R))"

lemma wrap32_id: "- 2147483648 \<le> x \<Longrightarrow> x < 2147483648 \<Longrightarrow> wrap32 x = x"
  by (simp add: wrap32_def)

lemma union_round_ok:
  assumes "result_is env s R st" and "card (insert (elem_sds e) R) < 2 ^ 31"
  shows "\<exists>st'. union_round env e st = Some st' \<and> result_is env s (insert (elem_sds e) R) st'"
proof -
  obtain s1 dst c where st: "st = (s1, dst, c)" by (cases st) auto
  have r: "srv_inv env s1" "same_sets s s1" "set_inv env dst" "set_elems dst = R" "c = int (card R)"
    using assms(1) st by (simp_all add: result_is_def)
  have fin: "finite R" using r(4) finite_set_elems by metis
  then have le: "card R \<le> card (insert (elem_sds e) R)" by (simp add: card_insert_le)
  obtain dst' where d: "setTypeAdd env dst (elem_sds e) = Some (dst', elem_sds e \<notin> R)" "set_inv env dst'" "set_elems dst' = insert (elem_sds e) R"
    using sset.add_law [OF r(3), of "elem_sds e"] r(4) le assms(2) by auto
  have "(if elem_sds e \<notin> R then wrap32 (c + 1) else c) = int (card (insert (elem_sds e) R))"
    using r(5) fin assms(2) wrap32_id [of "int (card R) + 1"]
    by (cases "elem_sds e \<in> R") (simp_all add: insert_absorb)
  then show ?thesis using st r d by (auto simp: union_round_def result_is_def split: if_splits)
qed

lemma remove_round_ok:
  assumes "result_is env s R st" and "card R < 2 ^ 31"
  shows "\<exists>st'. diff2_round env False e st = Some st' \<and> result_is env s (R - {elem_sds e}) st'"
proof -
  obtain s1 dst c where st: "st = (s1, dst, c)" by (cases st) auto
  have r: "srv_inv env s1" "same_sets s s1" "set_inv env dst" "set_elems dst = R" "c = int (card R)"
    using assms(1) st by (simp_all add: result_is_def)
  have fin: "finite R" using r(4) finite_set_elems by metis
  obtain dst' where d: "setTypeRemove env dst (elem_sds e) = Some (dst', elem_sds e \<in> R)" "set_inv env dst'" "set_elems dst' = R - {elem_sds e}"
    using sset.remove_law [OF r(3), of "elem_sds e"] r(4) assms(2) by auto
  have "wrap32 (c - 1) = int (card (R - {elem_sds e}))" if "elem_sds e \<in> R"
  proof -
    have "card R > 0" using that fin by (auto simp: card_gt_0_iff)
    then show ?thesis using that r(5) fin assms(2) wrap32_id [of "int (card R) - 1"] by (simp add: of_nat_diff)
  qed
  then show ?thesis using st r d by (auto simp: diff2_round_def result_is_def)
qed

text \<open>
  Running one kind of round over all elements of one set.\<close>

lemma iterate_rounds:
  assumes st: "result_is env s R st" and inv: "srv_inv env s" and k: "get_set k s \<noteq> None"
    and frame: "\<And>e s b r. body e (s, b) = Some r \<Longrightarrow> db_dict (fst r) k = db_dict s k"
    and round: "\<And>ys y zs st. elem_sds ` set (ys @ y # zs) = set_at s k \<Longrightarrow> distinct (map elem_sds (ys @ y # zs)) \<Longrightarrow> result_is env s (f (elem_sds ` set ys)) st
        \<Longrightarrow> \<exists>st'. body y st = Some st' \<and> result_is env s (f (elem_sds ` set (ys @ [y]))) st'"
    and start: "f {} = R"
  shows "\<exists>st'. iterate_key env body k st = Some st' \<and> result_is env s (f (set_at s k)) st'"
proof -
  obtain s1 b where s1: "st = (s1, b)" by (cases st)
  then have inv1: "srv_inv env s1" and same: "same_sets s s1" using st by (cases b, simp add: result_is_def)+
  obtain so where so: "get_set k s1 = Some so" using k same_sets_get [OF same] by auto
  have rep: "set_rep env so" using srv_inv_set(4) [OF inv1 so] .
  have at: "elem_sds ` set (set_list so) = set_at s k" using set_list_at [OF inv1 so] same_sets_at [OF same] by simp
  have "\<exists>st'. each body (set_list so) st = Some st' \<and> result_is env s (f (elem_sds ` set (set_list so))) st'"
  proof (rule each_invariant)
    show "result_is env s (f (elem_sds ` set [])) st" using st start by simp
  next
    fix ys y zs st'
    assume "set_list so = ys @ y # zs" "result_is env s (f (elem_sds ` set ys)) st'"
    then show "\<exists>st''. body y st' = Some st'' \<and> result_is env s (f (elem_sds ` set (ys @ [y]))) st''"
      using round [of ys y zs st'] at set_list_texts(1) [OF rep] by simp
  qed
  moreover have "iterate_key env body k st = each body (set_list so) st"
    by (rule iterate_key_spec [OF _ rep frame]) (use so s1 in auto)
  ultimately show ?thesis unfolding at by simp
qed

lemma union_iterate_ok:
  assumes "result_is env s R st" and "srv_inv env s" and "get_set k s \<noteq> None" and card: "card (R \<union> set_at s k) < 2 ^ 31"
    and fin: "finite R"
  shows "\<exists>st'. iterate_key env (union_round env) k st = Some st' \<and> result_is env s (R \<union> set_at s k) st'"
proof (rule iterate_rounds [OF assms(1-3), where f = "\<lambda>X. R \<union> X"])
  fix e s b r assume "union_round env e (s, b) = Some r"
  then show "db_dict (fst r) k = db_dict s k" by (cases b) (auto simp: union_round_def split: bind_splits)
next
  fix ys y zs st
  assume l: "elem_sds ` set (ys @ y # zs) = set_at s k" and r: "result_is env s (R \<union> elem_sds ` set ys) st"
  have "finite (set_at s k)" using l by (metis List.finite_set finite_imageI)
  then have "card (insert (elem_sds y) (R \<union> elem_sds ` set ys)) \<le> card (R \<union> set_at s k)" using l fin by (intro card_mono) auto
  then show "\<exists>st'. union_round env y st = Some st' \<and> result_is env s (R \<union> elem_sds ` set (ys @ [y])) st'"
    using union_round_ok [OF r, of y] card by simp
qed simp

lemma result_is_finite: "result_is env s R st \<Longrightarrow> finite R"
  using finite_set_elems by (cases st) (auto simp: result_is_def)

lemma union_loop_ok:
  assumes "result_is env s R st" and "srv_inv env s" and "sets_ok s sets" and "card (R \<union> (\<Union>o' \<in> set sets. opt_at s o')) < 2 ^ 31"
    and "\<forall>o' \<in> set sets. finite (opt_at s o')"
  shows "\<exists>st'. union_loop env sets st = Some st' \<and> result_is env s (R \<union> (\<Union>o' \<in> set sets. opt_at s o')) st'"
  using assms
proof (induction sets arbitrary: R st)
  case (Cons o' sets)
  show ?case
  proof (cases o')
    case None
    then show ?thesis using Cons.IH [OF Cons.prems(1,2)] Cons.prems(3-5) by (simp add: opt_at_def sets_ok_def)
  next
    case (Some k)
    have fin: "finite R" using result_is_finite [OF Cons.prems(1)] .
    have eq: "R \<union> (\<Union>o' \<in> set (o' # sets). opt_at s o') = (R \<union> set_at s k) \<union> (\<Union>o' \<in> set sets. opt_at s o')"
      using Some by (auto simp: opt_at_def)
    have "card (R \<union> set_at s k) \<le> card (R \<union> (\<Union>o' \<in> set (o' # sets). opt_at s o'))"
      unfolding eq using fin Cons.prems(5) Some by (intro card_mono) (auto simp: opt_at_def)
    then obtain st1 where "iterate_key env (union_round env) k st = Some st1" "result_is env s (R \<union> set_at s k) st1"
      using union_iterate_ok [OF Cons.prems(1,2) _ _ fin, of k] Cons.prems(3,4) Some by (auto simp: sets_ok_def)
    then show ?thesis using Cons.IH [of "R \<union> set_at s k" st1] Cons.prems Some unfolding eq by (simp add: sets_ok_def)
  qed
qed simp

text \<open>
  Difference, first algorithm: every element of the first set is looked for in the other sets.\<close>

lemma diff1_test_frame: "diff1_test k0 ele sets s = Some r \<Longrightarrow> db_dict (fst r) k0 = db_dict s k0"
proof (induction k0 ele sets s rule: diff1_test.induct)
  case (3 k0 ele k sets s)
  show ?case
  proof (cases "k = k0")
    case False
    then obtain s1 b where m: "is_member k ele s = Some (s1, b)"
      and r: "(if b then Some (s1, False) else diff1_test k0 ele sets s1) = Some r"
      using "3.prems" by (auto split: bind_splits)
    have "db_dict s1 k0 = db_dict s k0" using m False by (auto simp: is_member_def split: bind_splits)
    then show ?thesis using r "3.IH" [OF False m refl] by (auto split: if_splits)
  qed (use "3.prems" in auto)
qed auto

lemma diff1_test_ok:
  assumes "srv_inv env s" and "sets_ok s sets" and "ele \<in> set_at s k0"
  shows "\<exists>s'. diff1_test k0 ele sets s = Some (s', ele \<notin> (\<Union>o' \<in> set sets. opt_at s o')) \<and> srv_inv env s' \<and> same_sets s s'"
  using assms
proof (induction sets arbitrary: s)
  case (Cons o' sets)
  show ?case
  proof (cases o')
    case None
    then show ?thesis using Cons.IH [OF Cons.prems(1)] Cons.prems(2,3) by (simp add: opt_at_def sets_ok_def)
  next
    case (Some k)
    show ?thesis
    proof (cases "k = k0")
      case True
      then show ?thesis using Some Cons.prems by (auto simp: opt_at_def)
    next
      case False
      obtain so where so: "get_set k s = Some so" using Cons.prems(2) Some by (auto simp: sets_ok_def)
      obtain s1 where s1: "is_member k ele s = Some (s1, ele \<in> set_at s k)" "srv_inv env s1" "same_sets s s1"
        using is_member_ok [OF Cons.prems(1) so] by blast
      have at1: "opt_at s1 = opt_at s" using same_sets_at [OF s1(3)] by (simp add: opt_at_def fun_eq_iff split: option.splits)
      have "sets_ok s1 sets" using Cons.prems(2) same_sets_get [OF s1(3)] by (simp add: sets_ok_def)
      then obtain s2 where s2: "diff1_test k0 ele sets s1 = Some (s2, ele \<notin> (\<Union>o' \<in> set sets. opt_at s o'))" "srv_inv env s2" "same_sets s1 s2"
        using Cons.IH [OF s1(2)] Cons.prems(3) same_sets_at [OF s1(3)] unfolding at1 by auto
      show ?thesis using s1 s2 Some False same_sets_trans [OF s1(3) s2(3)]
        by (cases "ele \<in> set_at s k") (auto simp: opt_at_def)
    qed
  qed
qed simp

lemma diff1_loop_ok:
  assumes inv: "srv_inv env s" and k0: "get_set k0 s \<noteq> None" and sets: "sets_ok s sets" and card: "card (set_at s k0) < 2 ^ 31"
    and st: "result_is env s {} st"
  shows "\<exists>st'. iterate_key env (diff1_round env k0 sets) k0 st = Some st'
     \<and> result_is env s (set_at s k0 - (\<Union>o' \<in> set sets. opt_at s o')) st'"
proof (rule iterate_rounds [OF st inv k0, where f = "\<lambda>X. X - (\<Union>o' \<in> set sets. opt_at s o')"])
  fix e s b r assume "diff1_round env k0 sets e (s, b) = Some r"
  then show "db_dict (fst r) k0 = db_dict s k0" using diff1_test_frame [of k0 "elem_sds e" sets s]
    by (cases b) (auto simp: diff1_round_def split: bind_splits if_splits)
next
  let ?D = "\<Union>o' \<in> set sets. opt_at s o'"
  fix ys y zs st
  assume l: "elem_sds ` set (ys @ y # zs) = set_at s k0" and dist: "distinct (map elem_sds (ys @ y # zs))"
    and r: "result_is env s (elem_sds ` set ys - ?D) st"
  obtain s1 dst c where st: "st = (s1, dst, c)" by (cases st) auto
  have s1: "srv_inv env s1" "same_sets s s1" "set_inv env dst" "set_elems dst = elem_sds ` set ys - ?D" "c = int (card (elem_sds ` set ys - ?D))"
    using r st by (simp_all add: result_is_def)
  have at1: "opt_at s1 = opt_at s" using same_sets_at [OF s1(2)] by (simp add: opt_at_def fun_eq_iff split: option.splits)
  have "sets_ok s1 sets" "elem_sds y \<in> set_at s1 k0" using sets same_sets_get [OF s1(2)] same_sets_at [OF s1(2)] l by (auto simp: sets_ok_def)
  then obtain s2 where s2: "diff1_test k0 (elem_sds y) sets s1 = Some (s2, elem_sds y \<notin> ?D)" "srv_inv env s2" "same_sets s1 s2"
    using diff1_test_ok [OF s1(1)] unfolding at1 by blast
  note same = same_sets_trans [OF s1(2) s2(3)]
  show "\<exists>st'. diff1_round env k0 sets y st = Some st' \<and> result_is env s (elem_sds ` set (ys @ [y]) - ?D) st'"
  proof (cases "elem_sds y \<in> ?D")
    case True
    then have "elem_sds ` set (ys @ [y]) - ?D = elem_sds ` set ys - ?D" by auto
    then show ?thesis using True s2 s1 same st by (simp add: diff1_round_def result_is_def)
  next
    case False
    then have eq: "elem_sds ` set (ys @ [y]) - ?D = insert (elem_sds y) (elem_sds ` set ys - ?D)" by auto
    have new: "elem_sds y \<notin> elem_sds ` set ys - ?D" using dist by auto
    have "finite (set_at s k0)" using l by (metis List.finite_set finite_imageI)
    then have le: "card (insert (elem_sds y) (elem_sds ` set ys - ?D)) \<le> card (set_at s k0)" using l by (intro card_mono) auto
    have cl: "card (elem_sds ` set ys - ?D) + 1 < 2 ^ 31" using le card new by simp
    obtain dst' b where d: "setTypeAdd env dst (elem_sds y) = Some (dst', b)" "set_inv env dst'" "set_elems dst' = insert (elem_sds y) (set_elems dst)"
      using sset.add_law [OF s1(3), of "elem_sds y"] s1(4) cl by auto
    have "wrap32 (c + 1) = int (card (insert (elem_sds y) (elem_sds ` set ys - ?D)))"
      using wrap32_id [of "c + 1"] cl new s1(5) by simp
    then show ?thesis unfolding eq using False s2 s1 same st d by (simp add: diff1_round_def result_is_def)
  qed
qed simp

text \<open>
  Difference, second algorithm: the elements of the other sets are removed from a copy of the first.\<close>

lemma remove_iterate_ok:
  assumes "result_is env s R st" and "srv_inv env s" and "get_set k s \<noteq> None" and card: "card R < 2 ^ 31"
  shows "\<exists>st'. iterate_key env (diff2_round env False) k st = Some st' \<and> result_is env s (R - set_at s k) st'"
proof (rule iterate_rounds [OF assms(1-3), where f = "\<lambda>X. R - X"])
  fix e s b r assume "diff2_round env False e (s, b) = Some r"
  then show "db_dict (fst r) k = db_dict s k" by (cases b) (auto simp: diff2_round_def split: bind_splits)
next
  fix ys y zs st
  assume r: "result_is env s (R - elem_sds ` set ys) st"
  have "card (R - elem_sds ` set ys) \<le> card R" using result_is_finite [OF assms(1)] by (simp add: card_mono)
  then have "card (R - elem_sds ` set ys) < 2 ^ 31" using card by linarith
  moreover have "R - elem_sds ` set (ys @ [y]) = R - elem_sds ` set ys - {elem_sds y}" by auto
  ultimately show "\<exists>st'. diff2_round env False y st = Some st' \<and> result_is env s (R - elem_sds ` set (ys @ [y])) st'"
    using remove_round_ok [OF r, of y] by simp
qed simp

lemma diff2_rest_ok:
  assumes "result_is env s R st" and "srv_inv env s" and "sets_ok s sets" and "card R < 2 ^ 31"
  shows "\<exists>st'. diff2_loop env False sets st = Some st' \<and> result_is env s (R - (\<Union>o' \<in> set sets. opt_at s o')) st'"
  using assms
proof (induction sets arbitrary: R st)
  case (Cons o' sets)
  show ?case
  proof (cases o')
    case None
    then show ?thesis using Cons.IH [OF Cons.prems(1,2)] Cons.prems(3,4) by (simp add: opt_at_def sets_ok_def)
  next
    case (Some k)
    obtain st1 where st1: "iterate_key env (diff2_round env False) k st = Some st1" "result_is env s (R - set_at s k) st1"
      using remove_iterate_ok [OF Cons.prems(1,2) _ Cons.prems(4), of k] Cons.prems(3) Some by (auto simp: sets_ok_def)
    have eq: "R - (\<Union>o' \<in> set (o' # sets). opt_at s o') = R - set_at s k - (\<Union>o' \<in> set sets. opt_at s o')"
      using Some by (auto simp: opt_at_def)
    have fin: "finite (R - set_at s k)" using result_is_finite [OF st1(2)] .
    have zero: "snd (snd st1) = 0 \<longleftrightarrow> R - set_at s k = {}" using st1(2) fin by (cases st1) (auto simp: result_is_def)
    have "card (R - set_at s k) \<le> card R" using result_is_finite [OF Cons.prems(1)] by (simp add: card_mono)
    then have "card (R - set_at s k) < 2 ^ 31" using Cons.prems(4) by linarith
    then obtain st2 where "diff2_loop env False sets st1 = Some st2" "result_is env s (R - set_at s k - (\<Union>o' \<in> set sets. opt_at s o')) st2"
      using Cons.IH [OF st1(2) Cons.prems(2)] Cons.prems(3) by (auto simp: sets_ok_def)
    note rest = this
    show ?thesis
    proof (cases "R - set_at s k = {}")
      case True
      then have none: "R - set_at s k - (\<Union>o' \<in> set sets. opt_at s o') = {}" by blast
      have "result_is env s {} st1" "snd (snd st1) = 0" using st1(2) zero True by simp_all
      then show ?thesis unfolding eq none using st1(1) Some by simp
    next
      case False
      then show ?thesis unfolding eq using rest st1 zero Some by simp
    qed
  qed
qed simp

lemma diff2_loop_ok:
  assumes inv: "srv_inv env s" and k0: "get_set k0 s \<noteq> None" and sets: "sets_ok s sets" and card: "card (set_at s k0) < 2 ^ 31"
    and st: "result_is env s {} st"
  shows "\<exists>st'. diff2_loop env True (Some k0 # sets) st = Some st'
     \<and> result_is env s (set_at s k0 - (\<Union>o' \<in> set sets. opt_at s o')) st'"
proof -
  have u: "diff2_round env True = union_round env" by (simp add: diff2_round_def fun_eq_iff)
  obtain st1 where st1: "iterate_key env (union_round env) k0 st = Some st1" "result_is env s (set_at s k0) st1"
    using union_iterate_ok [OF st inv k0] card by auto
  have zero: "snd (snd st1) = 0 \<longleftrightarrow> set_at s k0 = {}" using st1(2) result_is_finite [OF st1(2)] by (cases st1) (auto simp: result_is_def)
  obtain st2 where "diff2_loop env False sets st1 = Some st2" "result_is env s (set_at s k0 - (\<Union>o' \<in> set sets. opt_at s o')) st2"
    using diff2_rest_ok [OF st1(2) inv sets card] by blast
  then show ?thesis using st1 zero by (cases "set_at s k0 = {}") (auto simp: u)
qed

text \<open>The set a request asks for.\<close>

definition op_result :: "robj server \<Rightarrow> set_operation \<Rightarrow> key option list \<Rightarrow> byte list set" where
  "op_result s op sets = (case op of
       SET_OP_UNION \<Rightarrow> \<Union>o' \<in> set sets. opt_at s o'
     | SET_OP_DIFF \<Rightarrow> (case sets of [] \<Rightarrow> {} | o' # rest \<Rightarrow> opt_at s o' - (\<Union>o' \<in> set rest. opt_at s o')))"

lemma opt_at_finite: "finite (opt_at s o')"
  by (auto simp: opt_at_def set_at_def finite_set_elems split: option.splits)

lemma sunionDiff_compute_ok:
  assumes inv: "srv_inv env s" and sets: "sets_ok s sets" and card: "card (\<Union>o' \<in> set sets. opt_at s o') < 2 ^ 31"
  shows "\<exists>st. sunionDiff_compute env op sets s = Some st \<and> result_is env s (op_result s op sets) st"
proof -
  let ?st = "(s, createIntsetObject, 0)"
  have st: "result_is env s {} ?st" using inv createIntsetObject_inv srv_invD(2) [OF inv] by (simp add: result_is_def)
  show ?thesis
  proof (cases op)
    case SET_OP_UNION
    then show ?thesis using union_loop_ok [OF st inv sets] card opt_at_finite
      by (simp add: sunionDiff_compute_def op_result_def)
  next
    case SET_OP_DIFF
    consider "sets = []" | rest where "sets = None # rest" | k0 rest where "sets = Some k0 # rest"
      by (metis list.exhaust option.exhaust)
    then show ?thesis
    proof cases
      case (3 k0 rest)
      define sorted where "sorted = sort_key (\<lambda>o'. - int (opt_size s o')) rest"
      have k0: "get_set k0 s \<noteq> None" and rest: "sets_ok s rest" "sets_ok s sorted"
        using sets 3 by (auto simp: sets_ok_def sorted_def)
      have "card (set_at s k0) \<le> card (\<Union>o' \<in> set sets. opt_at s o')"
      proof (rule card_mono)
        show "finite (\<Union>o' \<in> set sets. opt_at s o')" using opt_at_finite by blast
        show "set_at s k0 \<subseteq> (\<Union>o' \<in> set sets. opt_at s o')" using 3 by (simp add: opt_at_def)
      qed
      then have c: "card (set_at s k0) < 2 ^ 31" using card by linarith
      have res: "op_result s op sets = set_at s k0 - (\<Union>o' \<in> set rest. opt_at s o')"
        using 3 SET_OP_DIFF by (simp add: op_result_def) (simp add: opt_at_def)
      have run: "sunionDiff_compute env op sets s = (if diff_algo s sets = 1 then iterate_key env (diff1_round env k0 sorted) k0 ?st
          else diff2_loop env True sets ?st)"
        using 3 SET_OP_DIFF by (simp add: sunionDiff_compute_def sorted_def)
      show ?thesis unfolding run res
        using diff1_loop_ok [OF inv k0 rest(2) c st] diff2_loop_ok [OF inv k0 rest(1) c st] 3 by (auto simp: sorted_def)
    qed (use SET_OP_DIFF st in \<open>simp_all add: sunionDiff_compute_def op_result_def opt_at_def\<close>)
  qed
qed

lemma union_lookup_ok:
  assumes "srv_inv env s" and "\<forall>k \<in> set ks. \<not> checkType (seen cfg w s k)"
  shows "\<exists>s1 sets. union_lookup cfg w ks s = Some (s1, Some sets) \<and> looked cfg w env s s1
     \<and> sets = map (\<lambda>k. if seen cfg w s k = None then None else Some k) ks"
  using assms
proof (induction ks arbitrary: s)
  case Nil
  then show ?case by (simp add: looked_refl)
next
  case (Cons k ks)
  obtain s1 where s1: "lookup_for cfg w k s = Some (s1, seen cfg w s k)" "looked cfg w env s s1"
    using lookup_for_ok [OF Cons.prems(1)] by blast
  then have seen1: "seen cfg w s1 = seen cfg w s" and inv1: "srv_inv env s1" by (auto simp: looked_def fun_eq_iff)
  obtain s2 where s2: "union_lookup cfg w ks s1 = Some (s2, Some (map (\<lambda>k. if seen cfg w s k = None then None else Some k) ks))"
      "looked cfg w env s1 s2"
    using Cons.IH [OF inv1] Cons.prems(2) unfolding seen1 by auto
  then show ?case using s1 looked_trans [OF s1(2) s2(2)] Cons.prems(2) by simp
qed

text \<open>The same in terms of what the lookups see, absent keys counting as empty sets.\<close>

definition combine :: "set_operation \<Rightarrow> byte list set list \<Rightarrow> byte list set" where
  "combine op As = (case op of SET_OP_UNION \<Rightarrow> \<Union> (set As) | SET_OP_DIFF \<Rightarrow> (case As of [] \<Rightarrow> {} | A # Bs \<Rightarrow> A - \<Union> (set Bs)))"

lemma op_result_combine: "op_result s op sets = combine op (map (opt_at s) sets)"
  by (auto simp: op_result_def combine_def split: set_operation.splits list.splits)

lemma sunionDiff_start:
  assumes inv: "srv_inv env s" and types: "\<forall>k \<in> set keys. \<not> checkType (seen cfg (dstkey \<noteq> None) s k)"
    and card: "card (\<Union>k \<in> set keys. seen_set cfg (dstkey \<noteq> None) s k) < 2 ^ 31"
  shows "\<exists>s1 s2 dst. looked cfg (dstkey \<noteq> None) env s s1 \<and> srv_inv env s2 \<and> same_sets s1 s2 \<and> set_inv env dst
     \<and> set_elems dst = combine op (map (seen_set cfg (dstkey \<noteq> None) s) keys) \<and> card (set_elems dst) < 2 ^ 31
     \<and> sunionDiffGenericCommand cfg env op keys dstkey s = (case dstkey of
          None \<Rightarrow> do {
             let s3 = addReply (ReplySetLen (int (card (set_elems dst)))) s2;
             bulks \<leftarrow> set_texts env dst;
             Some (s3\<lparr>s_reply := s_reply s3 @ map ReplyBulk bulks\<rparr>)
           }
        | Some d \<Rightarrow> store_set cfg d dst (if op = SET_OP_UNION then ''sunionstore'' else ''sdiffstore'') s2)"
proof -
  let ?w = "dstkey \<noteq> None"
  define sets where "sets = map (\<lambda>k. if seen cfg ?w s k = None then None else Some k) keys"
  obtain s1 where s1: "union_lookup cfg ?w keys s = Some (s1, Some sets)" "looked cfg ?w env s s1"
    using union_lookup_ok [OF inv types] unfolding sets_def by blast
  then have inv1: "srv_inv env s1" and seen1: "\<And>k. seen cfg ?w s1 k = seen cfg ?w s k" by (simp_all add: looked_def)
  have at1: "opt_at s1 (if seen cfg ?w s k = None then None else Some k) = seen_set cfg ?w s k
      \<and> (seen cfg ?w s k \<noteq> None \<longrightarrow> get_set k s1 \<noteq> None)" if k: "k \<in> set keys" for k
  proof (cases "seen cfg ?w s k")
    case (Some o')
    then obtain so where so: "seen cfg ?w s k = Some (OBJ_SET so)" using types k by (cases o') (auto simp: checkType_def)
    then have "get_set k s1 = Some so \<and> seen_set cfg ?w s1 k = set_at s1 k" using seen_set_at [of cfg ?w s1 k so] seen1 [of k] by simp
    moreover have "seen_set cfg ?w s k = seen_set cfg ?w s1 k" unfolding seen_set_def seen1 ..
    ultimately show ?thesis using so by (simp add: opt_at_def)
  qed (simp add: opt_at_def seen_set_def)
  have map1: "map (opt_at s1) sets = map (seen_set cfg ?w s) keys" using at1 by (simp add: sets_def)
  have "sets_ok s1 sets" using at1 by (auto simp: sets_ok_def sets_def split: if_splits)
  moreover have un: "(\<Union>o' \<in> set sets. opt_at s1 o') = (\<Union>k \<in> set keys. seen_set cfg ?w s k)"
    using arg_cong [OF map1, of set] by (simp add: image_image)
  ultimately obtain s2 dst c where st: "sunionDiff_compute env op sets s1 = Some (s2, dst, c)" "result_is env s1 (op_result s1 op sets) (s2, dst, c)"
    using sunionDiff_compute_ok [OF inv1, of sets op] card by (metis prod_cases3)
  have r: "srv_inv env s2" "same_sets s1 s2" "set_inv env dst" "set_elems dst = combine op (map (seen_set cfg ?w s) keys)"
      "c = int (card (set_elems dst))"
    using st(2) unfolding op_result_combine map1 by (auto simp: result_is_def)
  have "set_elems dst \<subseteq> (\<Union>k \<in> set keys. seen_set cfg ?w s k)"
    unfolding r(4) combine_def by (cases op; cases keys) auto
  moreover have "finite (\<Union>k \<in> set keys. seen_set cfg ?w s k)" unfolding un [symmetric] using opt_at_finite by blast
  ultimately have "card (set_elems dst) < 2 ^ 31" using card card_mono by (meson order.strict_trans1)
  moreover have "sunionDiffGenericCommand cfg env op keys dstkey s = (case dstkey of
          None \<Rightarrow> do {
             let s3 = addReply (ReplySetLen (int (card (set_elems dst)))) s2;
             bulks \<leftarrow> set_texts env dst;
             Some (s3\<lparr>s_reply := s_reply s3 @ map ReplyBulk bulks\<rparr>)
           }
        | Some d \<Rightarrow> store_set cfg d dst (if op = SET_OP_UNION then ''sunionstore'' else ''sdiffstore'') s2)"
    by (simp only: sunionDiffGenericCommand_def s1(1) st(1) r(5) bind.bind_lunit prod.case option.case)
  ultimately show ?thesis using s1(2) r by blast
qed

lemma sunionDiff_reply_ok:
  assumes "srv_inv env s" and "\<forall>k \<in> set keys. \<not> checkType (seen cfg False s k)"
    and "card (\<Union>k \<in> set keys. seen_set cfg False s k) < 2 ^ 31"
  shows "\<exists>s' xs. sunionDiffGenericCommand cfg env op keys None s = Some s' \<and> distinct xs
     \<and> set xs = combine op (map (seen_set cfg False s) keys)
     \<and> s_reply s' = s_reply s @ ReplySetLen (int (length xs)) # map ReplyBulk xs \<and> srv_inv env s'"
proof -
  obtain s1 s2 dst where l: "looked cfg False env s s1" and s2: "srv_inv env s2" "same_sets s1 s2" "set_inv env dst"
      "set_elems dst = combine op (map (seen_set cfg False s) keys)"
    and run: "sunionDiffGenericCommand cfg env op keys None s = do {
             let s3 = addReply (ReplySetLen (int (card (set_elems dst)))) s2;
             bulks \<leftarrow> set_texts env dst;
             Some (s3\<lparr>s_reply := s_reply s3 @ map ReplyBulk bulks\<rparr>)
           }"
    using sunionDiff_start [OF assms(1), of keys cfg None op] assms(2,3) by auto
  obtain xs where xs: "set_texts env dst = Some xs" "distinct xs" "set xs = set_elems dst" using sset.elements_law [OF s2(3)] by blast
  have "length xs = card (set_elems dst)" using xs(2,3) distinct_card by metis
  moreover have "s_reply s2 = s_reply s" using l s2(2) by (simp add: looked_def same_sets_def)
  ultimately show ?thesis using run xs s2 by (auto simp: srv_inv_def db_inv_def)
qed

text \<open>
  C29: \<open>SUNION\<close> and \<open>SDIFF\<close> on keys of which none holds a value of another type reply with the elements
  of the union, respectively of the first set without all the others, each exactly once, preceded by
  their number; absent keys count as empty sets, and both algorithms for the difference, with
  their early exits, give the same result.  The commands never abort and change no set, as long
  as there are fewer than 2 to the power 31 elements, which is what the counter of type \<open>int\<close> holds.
\<close>

theorem sunionDiffGenericCommand_correct:
  assumes "srv_inv env s" and "\<forall>k \<in> set keys. \<not> checkType (seen cfg False s k)"
    and "card (\<Union>k \<in> set keys. seen_set cfg False s k) < 2 ^ 31"
  shows "\<exists>s' xs. sunionDiffGenericCommand cfg env op keys None s = Some s' \<and> distinct xs
     \<and> set xs = combine op (map (seen_set cfg False s) keys)
     \<and> s_reply s' = s_reply s @ ReplySetLen (int (length xs)) # map ReplyBulk xs \<and> srv_inv env s'"
  using assms by (rule sunionDiff_reply_ok)

theorem sunionDiffGenericCommand_correct_witness:
  "\<exists>s s' xs. set_at s [115] = {[120]} \<and> sunionDiffGenericCommand ex_config ex_env SET_OP_DIFF [[115], [116]] None s = Some s'
     \<and> set xs = {[120]} \<and> s_reply s' = ReplySetLen (int (length xs)) # map ReplyBulk xs"
proof -
  obtain so s where s: "set_elems so = {[120]}" "srv_inv ex_env s" "db_dict s = [[115] \<mapsto> OBJ_SET so]"
      "db_expires s = Map.empty" "s_reply s = []"
    using ex_keyspace by blast
  then show ?thesis
    using sunionDiffGenericCommand_correct [of ex_env s "[[115], [116]]" ex_config SET_OP_DIFF] ex_keyspace_seen [OF s(3,4)]
    by - (rule exI [of _ s], auto simp: set_at_def get_set_def checkType_def combine_def)
qed

lemma sunionDiff_store_ok:
  assumes "srv_inv env s" and "\<forall>k \<in> set keys. \<not> checkType (seen cfg True s k)"
    and "card (\<Union>k \<in> set keys. seen_set cfg True s k) < 2 ^ 31"
  shows "\<exists>s'. sunionDiffGenericCommand cfg env op keys (Some d) s = Some s' \<and> srv_inv env s'
     \<and> set_at s' d = combine op (map (seen_set cfg True s) keys)
     \<and> (db_dict s' d = None \<longleftrightarrow> combine op (map (seen_set cfg True s) keys) = {}) \<and> db_expires s' d = None
     \<and> s_reply s' = s_reply s @ [ReplyInt (int (card (combine op (map (seen_set cfg True s) keys))))]"
proof -
  obtain s1 s2 dst ev where l: "looked cfg True env s s1" and s2: "srv_inv env s2" "same_sets s1 s2" "set_inv env dst"
      "set_elems dst = combine op (map (seen_set cfg True s) keys)" "card (set_elems dst) < 2 ^ 31"
    and run: "sunionDiffGenericCommand cfg env op keys (Some d) s = store_set cfg d dst ev s2"
    using sunionDiff_start [OF assms(1), of keys cfg "Some d" op] assms(2,3) by auto
  have "s_reply s2 = s_reply s" using l s2(2) by (simp add: looked_def same_sets_def)
  moreover have "card (set_elems dst) < 2 ^ 60" using s2(5) by simp
  ultimately show ?thesis using store_set_ok [OF s2(1,3), of cfg d ev] run unfolding s2(4) by auto
qed

text \<open>
  \<open>SUNIONSTORE\<close> and \<open>SDIFFSTORE\<close> make the destination hold the union or difference, without a
  deadline, or delete it when the result is empty, also when the destination is one of the
  sources; the reply is the number of elements, and the commands never abort.
\<close>

theorem sunionDiffStore_correct:
  assumes "srv_inv env s" and "\<forall>k \<in> set keys. \<not> checkType (seen cfg True s k)"
    and "card (\<Union>k \<in> set keys. seen_set cfg True s k) < 2 ^ 31"
  shows "\<exists>s'. sunionDiffGenericCommand cfg env op keys (Some d) s = Some s' \<and> srv_inv env s'
     \<and> set_at s' d = combine op (map (seen_set cfg True s) keys)
     \<and> (db_dict s' d = None \<longleftrightarrow> combine op (map (seen_set cfg True s) keys) = {}) \<and> db_expires s' d = None
     \<and> s_reply s' = s_reply s @ [ReplyInt (int (card (combine op (map (seen_set cfg True s) keys))))]"
  using assms by (rule sunionDiff_store_ok)

theorem sunionDiffStore_correct_witness:
  "\<exists>s s'. set_at s [115] = {[120]} \<and> sunionDiffGenericCommand ex_config ex_env SET_OP_DIFF [[115], [115]] (Some [115]) s = Some s'
     \<and> db_dict s' [115] = None \<and> s_reply s' = [ReplyInt 0]"
proof -
  obtain so s where s: "set_elems so = {[120]}" "srv_inv ex_env s" "db_dict s = [[115] \<mapsto> OBJ_SET so]"
      "db_expires s = Map.empty" "s_reply s = []"
    using ex_keyspace by blast
  then show ?thesis
    using sunionDiffStore_correct [of ex_env s "[[115], [115]]" ex_config SET_OP_DIFF "[115]"] ex_keyspace_seen [OF s(3,4)]
    by - (rule exI [of _ s], auto simp: set_at_def get_set_def checkType_def combine_def)
qed

end
