(* ===== verification/Server_Machine.thy ===== *)
theory Server_Machine
  imports Set_Algebra
begin

text \<open>
  The server as a state machine: commands on keys and on sets executed one after the other, each
  under its own configuration (clock, role, persistence in progress, limits).  The theorems say
  that no sequence of commands aborts the server and what every state it reaches satisfies.
\<close>

section \<open>Model: executing a command\<close>

datatype command =
  CmdDel bool "key list"
| CmdExists "key list"
| CmdTouch "key list"
| CmdRename bool key key
| CmdExpire key "byte list" int expire_unit
| CmdTtl bool key
| CmdPersist key
| CmdSadd key "byte list list"
| CmdSrem key "byte list list"
| CmdSmove key key "byte list"
| CmdSismember key "byte list"
| CmdSmismember key "byte list list"
| CmdScard key
| CmdSinter "key list" "key option"
| CmdSunionDiff set_operation "key list" "key option"

fun exec :: "config \<Rightarrow> client \<Rightarrow> set_env \<Rightarrow> command \<Rightarrow> robj server \<Rightarrow> robj server option" where
  "exec cfg c env (CmdDel lazy keys) s = delGenericCommand cfg lazy keys s"
| "exec cfg c env (CmdExists keys) s = existsCommand cfg keys s"
| "exec cfg c env (CmdTouch keys) s = touchCommand cfg keys s"
| "exec cfg c env (CmdRename nx src dst) s = renameGenericCommand cfg c nx src dst s"
| "exec cfg c env (CmdExpire k param base unit) s = expireGenericCommand cfg c k param base unit s"
| "exec cfg c env (CmdTtl ms k) s = ttlGenericCommand cfg ms k s"
| "exec cfg c env (CmdPersist k) s = persistCommand cfg k s"
| "exec cfg c env (CmdSadd k args) s = saddCommand cfg env k args s"
| "exec cfg c env (CmdSrem k args) s = sremCommand cfg env k args s"
| "exec cfg c env (CmdSmove src dst ele) s = smoveCommand cfg env src dst ele s"
| "exec cfg c env (CmdSismember k v) s = sismemberCommand cfg k v s"
| "exec cfg c env (CmdSmismember k vs) s = smismemberCommand cfg k vs s"
| "exec cfg c env (CmdScard k) s = scardCommand cfg k s"
| "exec cfg c env (CmdSinter keys dst) s = sinterGenericCommand cfg env keys dst s"
| "exec cfg c env (CmdSunionDiff op keys dst) s = sunionDiffGenericCommand cfg env op keys dst s"

text \<open>
  Commands the dispatcher lets through: the arity is right, and the sets stay below the sizes for
  which the counters of the code are wide enough.
\<close>

fun fits :: "config \<Rightarrow> command \<Rightarrow> robj server \<Rightarrow> bool" where
  "fits cfg (CmdSadd k args) s \<longleftrightarrow> args \<noteq> [] \<and> card (set_at (access cfg k s) k \<union> set args) < 2 ^ 60"
| "fits cfg (CmdSmove src dst ele) s \<longleftrightarrow> card (insert ele (set_at (access cfg dst s) dst)) < 2 ^ 60"
| "fits cfg (CmdSinter keys dst) s \<longleftrightarrow> keys \<noteq> []"
| "fits cfg (CmdSunionDiff op keys dst) s \<longleftrightarrow> card (\<Union>k \<in> set keys. seen_set cfg (dst \<noteq> None) s k) < 2 ^ 31"
| "fits cfg _ s \<longleftrightarrow> True"

text \<open>The states a server with a given hash seed reaches from an empty database.\<close>

inductive reachable :: "(byte list \<Rightarrow> u64) \<Rightarrow> robj server \<Rightarrow> bool" for h where
  start: "reachable h empty_server"
| step: "reachable h s \<Longrightarrow> env_hash env = h \<Longrightarrow> env_max_intset env < 536870911 \<Longrightarrow> fits cfg cmd s
    \<Longrightarrow> exec cfg c env cmd s = Some s' \<Longrightarrow> reachable h s'"

inductive_cases reachable_stepE: "reachable h s"

section \<open>Commands on sets never abort\<close>

definition cmd_safe :: "set_env \<Rightarrow> (robj server \<Rightarrow> robj server option) \<Rightarrow> robj server \<Rightarrow> bool" where
  "cmd_safe env run s \<longleftrightarrow> (\<exists>s'. run s = Some s' \<and> srv_inv env s')"

lemma db_safe_cmd: "db_safe (db_inv (robj_ok env)) run \<Longrightarrow> srv_inv env s \<Longrightarrow> cmd_safe env run s"
  by (auto simp: db_safe_def cmd_safe_def srv_inv_def)

lemma srv_inv_access: "srv_inv env s \<Longrightarrow> srv_inv env (access cfg k s)"
  by (simp add: srv_inv_def del: access_sel)

lemma checkType_Some: "checkType x \<Longrightarrow> x \<noteq> None"
  by (auto simp: checkType_def split: option.splits)

lemma saddCommand_safe:
  assumes inv: "srv_inv env s" and fits: "fits cfg (CmdSadd k args) s"
  shows "cmd_safe env (saddCommand cfg env k args) s"
proof (cases "checkType (db_dict (access cfg k s) k)")
  case True
  then show ?thesis using srv_inv_access [OF inv] lookupKeyWrite_ok [OF srv_invD(1) [OF inv], of cfg k]
    by (simp add: cmd_safe_def saddCommand_def del: access_sel)
next
  case False
  then show ?thesis using saddCommand_ok [OF inv False, of args] fits unfolding cmd_safe_def fits.simps by blast
qed

lemma sremCommand_safe:
  assumes inv: "srv_inv env s"
  shows "cmd_safe env (sremCommand cfg env k args) s"
proof -
  note lk = lookupKeyWrite_ok [OF srv_invD(1) [OF inv], of cfg k]
  consider "db_dict (access cfg k s) k = None" | "checkType (db_dict (access cfg k s) k)" | so where "get_set k (access cfg k s) = Some so"
    using not_checkType by blast
  then show ?thesis
  proof cases
    case 2
    then show ?thesis using 2 checkType_Some [OF 2] srv_inv_access [OF inv] lk
      by (simp add: cmd_safe_def sremCommand_def lookupKeyWriteOrReply_def del: access_sel)
  next
    case 3
    then show ?thesis using sremCommand_ok [OF inv 3, of args] by (auto simp: cmd_safe_def)
  qed (use srv_inv_access [OF inv] lk in \<open>simp add: cmd_safe_def sremCommand_def lookupKeyWriteOrReply_def del: access_sel\<close>)
qed

lemma read_ok:
  assumes inv: "srv_inv env s"
  shows "\<exists>s1. lookupKeyRead cfg k s = Some (s1, seen cfg False s k) \<and> looked cfg False env s s1"
  using lookup_for_ok [OF inv, of cfg False k] by (simp add: lookup_for_def)

lemma looked_get:
  "looked cfg w env s s1 \<Longrightarrow> \<not> checkType (seen cfg w s k) \<Longrightarrow> seen cfg w s k \<noteq> None \<Longrightarrow> \<exists>so. get_set k s1 = Some so"
  using seen_set_at [of cfg w s1 k] by (auto simp: looked_def checkType_def split: option.splits robj.splits)

lemma sismemberCommand_safe:
  assumes inv: "srv_inv env s"
  shows "cmd_safe env (sismemberCommand cfg k v) s"
proof -
  obtain s1 where s1: "lookupKeyRead cfg k s = Some (s1, seen cfg False s k)" "looked cfg False env s s1" using read_ok [OF inv] by blast
  then have inv1: "srv_inv env s1" by (simp add: looked_def)
  show ?thesis
  proof (cases "seen cfg False s k = None \<or> checkType (seen cfg False s k)")
    case False
    then obtain so where "get_set k s1 = Some so" using looked_get [OF s1(2), of k] by blast
    then obtain s2 b where "is_member k v s1 = Some (s2, b)" "srv_inv env s2" using is_member_ok [OF inv1] by blast
    then show ?thesis using False s1(1) by (auto simp: cmd_safe_def sismemberCommand_def lookupKeyReadOrReply_def)
  qed (use s1(1) inv1 in \<open>auto simp: cmd_safe_def sismemberCommand_def lookupKeyReadOrReply_def\<close>)
qed

lemma scardCommand_safe:
  assumes inv: "srv_inv env s"
  shows "cmd_safe env (scardCommand cfg k) s"
proof -
  obtain s1 where s1: "lookupKeyRead cfg k s = Some (s1, seen cfg False s k)" "looked cfg False env s s1" using read_ok [OF inv] by blast
  then have inv1: "srv_inv env s1" by (simp add: looked_def)
  show ?thesis
  proof (cases "seen cfg False s k = None \<or> checkType (seen cfg False s k)")
    case False
    then obtain so where "get_set k s1 = Some so" using looked_get [OF s1(2), of k] by blast
    then show ?thesis using False s1(1) inv1 by (auto simp: cmd_safe_def scardCommand_def lookupKeyReadOrReply_def)
  qed (use s1(1) inv1 in \<open>auto simp: cmd_safe_def scardCommand_def lookupKeyReadOrReply_def\<close>)
qed

lemma smismember_loop_ok:
  "srv_inv env s \<Longrightarrow> (ex \<longrightarrow> get_set k s \<noteq> None) \<Longrightarrow> \<exists>s'. smismember_loop ex k vs s = Some s' \<and> srv_inv env s'
     \<and> s_reply s' = s_reply s @ map (\<lambda>v. ReplyInt (if ex \<and> v \<in> set_at s k then 1 else 0)) vs"
proof (induction vs arbitrary: s)
  case (Cons v vs)
  show ?case
  proof (cases ex)
    case True
    then obtain so where "get_set k s = Some so" using Cons.prems(2) by auto
    then obtain s1 where s1: "is_member k v s = Some (s1, v \<in> set_at s k)" "srv_inv env s1" "same_sets s s1"
      using is_member_ok [OF Cons.prems(1)] by blast
    have "get_set k s1 \<noteq> None" "s_reply s1 = s_reply s" using same_sets_get [OF s1(3)] Cons.prems(2) True s1(3) by (auto simp: same_sets_def)
    then show ?thesis using Cons.IH [of "addReply (ReplyInt (if v \<in> set_at s k then 1 else 0)) s1"] s1 True same_sets_at [OF s1(3)] by auto
  next
    case False
    then show ?thesis using Cons.IH [of "addReply (ReplyInt 0) s"] Cons.prems by auto
  qed
qed simp

lemma smismemberCommand_safe:
  assumes inv: "srv_inv env s"
  shows "cmd_safe env (smismemberCommand cfg k vs) s"
proof -
  obtain s1 where s1: "lookupKeyRead cfg k s = Some (s1, seen cfg False s k)" "looked cfg False env s s1" using read_ok [OF inv] by blast
  then have inv1: "srv_inv env s1" by (simp add: looked_def)
  show ?thesis
  proof (cases "checkType (seen cfg False s k)")
    case True
    then have "seen cfg False s k \<noteq> None" by (rule checkType_Some)
    then show ?thesis using True s1(1) inv1 by (simp add: cmd_safe_def smismemberCommand_def)
  next
    case False
    let ?s = "addReply (ReplyArrayLen (int (length vs))) s1"
    have "seen cfg False s k \<noteq> None \<longrightarrow> get_set k ?s \<noteq> None" using looked_get [OF s1(2) False] by auto
    then obtain s' where "smismember_loop (seen cfg False s k \<noteq> None) k vs ?s = Some s'" "srv_inv env s'"
      using smismember_loop_ok [of env ?s "seen cfg False s k \<noteq> None" k vs] inv1 by auto
    then show ?thesis using False s1(1) by (simp add: cmd_safe_def smismemberCommand_def)
  qed
qed

lemma smoveCommand_safe:
  assumes inv: "srv_inv env s" and fits: "fits cfg (CmdSmove src dst ele) s"
  shows "cmd_safe env (smoveCommand cfg env src dst ele) s"
proof -
  define s1 where "s1 = access cfg src s"
  define s2 where "s2 = access cfg dst s1"
  have inv1: "srv_inv env s1" and inv2: "srv_inv env s2" using srv_inv_access inv by (auto simp: s1_def s2_def)
  have lk: "lookupKeyWrite cfg src s = Some (s1, db_dict s1 src)" "lookupKeyWrite cfg dst s1 = Some (s2, db_dict s2 dst)"
    using lookupKeyWrite_ok [OF srv_invD(1)] inv inv1 by (simp_all add: s1_def s2_def del: access_sel)
  have keep: "s1 = s" if "db_dict s1 src \<noteq> None" using that by (auto simp: s1_def access_def evict_def split: if_splits)
  have same: "get_set src s2 = get_set src s1" if "src \<noteq> dst" using that by (simp add: s2_def get_set_def)
  consider "db_dict s1 src = None" | "checkType (db_dict s1 src)" | "checkType (db_dict s2 dst)" "db_dict s1 src \<noteq> None" "\<not> checkType (db_dict s1 src)"
    | so where "get_set src s1 = Some so" "\<not> checkType (db_dict s1 src)" "\<not> checkType (db_dict s2 dst)"
    using not_checkType [of s1 src] by blast
  then show ?thesis
  proof cases
    case 1
    then show ?thesis using inv2 lk by (simp add: cmd_safe_def smoveCommand_def)
  next
    case 2
    then show ?thesis using checkType_Some [OF 2] inv2 lk by (simp add: cmd_safe_def smoveCommand_def)
  next
    case 3
    then show ?thesis using inv2 lk by (simp add: cmd_safe_def smoveCommand_def)
  next
    case (4 so)
    have s1s: "s1 = s" using 4(1) keep by (simp add: get_set_eq)
    show ?thesis
    proof (cases "src = dst")
      case True
      then have "s2 = s1" using s1s by (metis s1_def s2_def)
      moreover obtain s3 b where "is_member src ele s1 = Some (s3, b)" "srv_inv env s3" using is_member_ok [OF inv1 4(1)] by blast
      ultimately show ?thesis using True lk 4 by (simp add: cmd_safe_def smoveCommand_def get_set_eq)
    next
      case False
      show ?thesis
      proof (cases "ele \<in> set_elems so")
        case True
        have "access cfg src s = s1" "access cfg dst s = s2" using s1s by (simp_all only: s1_def s2_def)
        then have "get_set src (access cfg src s) = Some so" "\<not> checkType (db_dict (access cfg dst s) dst)" using 4 by simp_all
        then show ?thesis using smoveCommand_ok [OF inv False _ True] fits unfolding cmd_safe_def fits.simps by blast
      next
        case nele: False
        have so2: "get_set src s2 = Some so" using same [OF False] 4(1) by simp
        note ok = srv_inv_set [OF inv2 so2]
        obtain so' where so': "setTypeRemove env so ele = Some (so', False)" "set_inv env so'" "set_elems so' = set_elems so - {ele}"
          using sset.remove_law [OF ok(1) _ ok(3), of ele] nele by auto
        have "srv_inv env (put_set src so' s2)" using srv_inv_put [OF inv2] so2 so' nele ok by (simp add: robj_ok_def)
        moreover have "db_dict s1 src = Some (OBJ_SET so)" using 4(1) by (simp add: get_set_eq)
        ultimately show ?thesis using False lk 4(2,3) so2 so'(1) by (simp add: cmd_safe_def smoveCommand_def)
      qed
    qed
  qed
qed

lemma sinterGenericCommand_safe:
  assumes inv: "srv_inv env s" and fits: "fits cfg (CmdSinter keys dst) s"
  shows "cmd_safe env (sinterGenericCommand cfg env keys dst) s"
proof -
  obtain s1 r where l: "sinter_lookup cfg (dst \<noteq> None) keys s = Some (s1, r)" "looked cfg (dst \<noteq> None) env s s1"
    and r: "r = AllSets \<longrightarrow> (\<forall>k \<in> set keys. \<exists>so. seen cfg (dst \<noteq> None) s k = Some (OBJ_SET so))"
    using sinter_lookup_ok [OF inv, of cfg "dst \<noteq> None" keys] by blast
  have inv1: "srv_inv env s1" using l(2) by (simp add: looked_def)
  show ?thesis
  proof (cases r)
    case AllSets
    obtain s1 s2 bulks d es where c: "inter_collected env (dst \<noteq> None) s1 es (s2, bulks, d)" "card (elem_sds ` set es) < 2 ^ 60"
      and run: "sinterGenericCommand cfg env keys dst s = (case dst of
          Some k \<Rightarrow> store_set cfg k d ''sinterstore'' s2
        | None \<Rightarrow> Some (s2\<lparr>s_reply := s_reply s2 @ ReplySetLen (int (length bulks)) # map ReplyBulk bulks\<rparr>))"
      using sinterGeneric_start [OF inv, of keys cfg dst] r AllSets fits unfolding fits.simps by blast
    have "srv_inv env s2" "set_inv env d" "dst \<noteq> None \<longrightarrow> card (set_elems d) < 2 ^ 60" using c by (auto simp: inter_collected_def)
    note ok = this
    show ?thesis
    proof (cases dst)
      case None
      then show ?thesis using run ok by (simp add: cmd_safe_def srv_inv_def db_inv_def)
    next
      case (Some k)
      then show ?thesis using store_set_ok [of env s2 d cfg k "''sinterstore''"] run ok by (auto simp: cmd_safe_def)
    qed
  next
    case Missing
    then show ?thesis using l(1) inv1 srv_inv_delete [OF inv1]
      by (cases dst) (auto simp: cmd_safe_def sinterGenericCommand_def Let_def)
  next
    case WrongType
    then show ?thesis using l(1) inv1 by (simp add: cmd_safe_def sinterGenericCommand_def)
  qed
qed

lemma union_lookup_wrongtype:
  assumes "srv_inv env s" and "\<exists>k \<in> set ks. checkType (seen cfg w s k)"
  shows "\<exists>s1. union_lookup cfg w ks s = Some (s1, None) \<and> looked cfg w env s s1"
  using assms
proof (induction ks arbitrary: s)
  case (Cons k ks)
  obtain s1 where s1: "lookup_for cfg w k s = Some (s1, seen cfg w s k)" "looked cfg w env s s1"
    using lookup_for_ok [OF Cons.prems(1)] by blast
  then have seen1: "seen cfg w s1 = seen cfg w s" and inv1: "srv_inv env s1" by (auto simp: looked_def fun_eq_iff)
  show ?case
  proof (cases "checkType (seen cfg w s k)")
    case True
    then show ?thesis using s1 checkType_Some [OF True] by simp
  next
    case False
    then obtain s2 where "union_lookup cfg w ks s1 = Some (s2, None)" "looked cfg w env s1 s2"
      using Cons.IH [OF inv1] Cons.prems(2) unfolding seen1 by auto
    then show ?thesis using s1 False looked_trans [OF s1(2)] by auto
  qed
qed simp

text \<open>
  If any of the keys holds a value of another type, \<open>SUNION\<close>, \<open>SDIFF\<close> and their storing variants reply
  the type error, whatever the order of the keys, and change neither the destination nor any
  other value that is visible.
\<close>

theorem sunionDiff_wrongtype:
  assumes "srv_inv env s" and "\<exists>k \<in> set keys. checkType (seen cfg (dst \<noteq> None) s k)"
  shows "\<exists>s'. sunionDiffGenericCommand cfg env op keys dst s = Some s' \<and> s_reply s' = s_reply s @ [wrongtypeerr]
     \<and> (\<forall>k. seen cfg (dst \<noteq> None) s' k = seen cfg (dst \<noteq> None) s k)"
proof -
  obtain s1 where "union_lookup cfg (dst \<noteq> None) keys s = Some (s1, None)" "looked cfg (dst \<noteq> None) env s s1"
    using union_lookup_wrongtype [OF assms] by blast
  moreover have "seen cfg (dst \<noteq> None) (addReply wrongtypeerr s1) = seen cfg (dst \<noteq> None) s1"
    by (rule seen_cong) simp_all
  ultimately show ?thesis by (simp add: sunionDiffGenericCommand_def looked_def)
qed

theorem sunionDiff_wrongtype_witness:
  "\<exists>s'. sunionDiffGenericCommand ex_config ex_env SET_OP_UNION [[97], [98]] (Some [97])
       (empty_server\<lparr>db_dict := [[98] \<mapsto> OBJ_OTHER 0]\<rparr>) = Some s' \<and> s_reply s' = [wrongtypeerr]"
proof -
  define s where "s = (empty_server :: robj server)\<lparr>db_dict := [[98] \<mapsto> OBJ_OTHER 0]\<rparr>"
  have s: "srv_inv ex_env s" "db_expires s = Map.empty" "db_dict s [98] = Some (OBJ_OTHER 0)" "s_reply s = []"
    by (simp_all add: s_def srv_inv_def db_inv_def robj_ok_def empty_server_def ex_env_def)
  then have "checkType (seen ex_config (Some [97] \<noteq> None) s [98])" by (simp add: seen_def checkType_def)
  then have "\<exists>k \<in> set [[97], [98]]. checkType (seen ex_config (Some [97] \<noteq> None) s k)" by simp
  then show ?thesis using sunionDiff_wrongtype [OF s(1), of "[[97], [98]]" ex_config "Some [97]" SET_OP_UNION] s(4)
    unfolding s_def by auto
qed

lemma sunionDiffGenericCommand_safe:
  assumes inv: "srv_inv env s" and fits: "fits cfg (CmdSunionDiff op keys dst) s"
  shows "cmd_safe env (sunionDiffGenericCommand cfg env op keys dst) s"
proof (cases "\<exists>k \<in> set keys. checkType (seen cfg (dst \<noteq> None) s k)")
  case True
  then show ?thesis using union_lookup_wrongtype [OF inv True]
    by (auto simp: cmd_safe_def sunionDiffGenericCommand_def looked_def)
next
  case False
  show ?thesis
  proof (cases dst)
    case None
    then have "\<forall>k \<in> set keys. \<not> checkType (seen cfg False s k)" "card (\<Union>k \<in> set keys. seen_set cfg False s k) < 2 ^ 31"
      using False fits by simp_all
    then show ?thesis using sunionDiff_reply_ok [OF inv, of keys cfg op] None unfolding cmd_safe_def by blast
  next
    case (Some d)
    then have "\<forall>k \<in> set keys. \<not> checkType (seen cfg True s k)" "card (\<Union>k \<in> set keys. seen_set cfg True s k) < 2 ^ 31"
      using False fits by simp_all
    then show ?thesis using sunionDiff_store_ok [OF inv, of keys cfg op d] Some unfolding cmd_safe_def by blast
  qed
qed

section \<open>No sequence of commands aborts\<close>

lemma exec_fun:
  "exec cfg c env (CmdDel lazy keys) = delGenericCommand cfg lazy keys"
  "exec cfg c env (CmdExists keys) = existsCommand cfg keys"
  "exec cfg c env (CmdTouch keys) = touchCommand cfg keys"
  "exec cfg c env (CmdRename nx src dst) = renameGenericCommand cfg c nx src dst"
  "exec cfg c env (CmdExpire k param base unit) = expireGenericCommand cfg c k param base unit"
  "exec cfg c env (CmdTtl ms k) = ttlGenericCommand cfg ms k"
  "exec cfg c env (CmdPersist k) = persistCommand cfg k"
  "exec cfg c env (CmdSadd k args) = saddCommand cfg env k args"
  "exec cfg c env (CmdSrem k args) = sremCommand cfg env k args"
  "exec cfg c env (CmdSmove src dst ele) = smoveCommand cfg env src dst ele"
  "exec cfg c env (CmdSismember k v) = sismemberCommand cfg k v"
  "exec cfg c env (CmdSmismember k args) = smismemberCommand cfg k args"
  "exec cfg c env (CmdScard k) = scardCommand cfg k"
  "exec cfg c env (CmdSinter keys d) = sinterGenericCommand cfg env keys d"
  "exec cfg c env (CmdSunionDiff op keys d) = sunionDiffGenericCommand cfg env op keys d"
  by (simp_all add: fun_eq_iff)

lemmas cmd_safe_intros =
  db_safe_cmd [OF delGenericCommand_safe] db_safe_cmd [OF existsCommand_safe] db_safe_cmd [OF touchCommand_safe]
  db_safe_cmd [OF renameGenericCommand_safe] db_safe_cmd [OF expireGenericCommand_safe] db_safe_cmd [OF ttlGenericCommand_safe]
  db_safe_cmd [OF persistCommand_safe] saddCommand_safe sremCommand_safe smoveCommand_safe sismemberCommand_safe
  smismemberCommand_safe scardCommand_safe sinterGenericCommand_safe sunionDiffGenericCommand_safe

lemma exec_safe:
  assumes inv: "srv_inv env s" and fits: "fits cfg cmd s"
  shows "cmd_safe env (exec cfg c env cmd) s"
  by (cases cmd) (use inv fits in \<open>simp_all add: exec_fun cmd_safe_intros del: fits.simps\<close>)

lemma set_inv_env:
  "env_hash env' = env_hash env \<Longrightarrow> env_max_intset env < 536870911 \<Longrightarrow> env_max_intset env' < 536870911
    \<Longrightarrow> set_inv env' so = set_inv env so"
  by (cases so) (simp_all add: set_inv_def set_rep_def)

lemma srv_inv_env:
  assumes "env_hash env' = env_hash env" and "env_max_intset env' < 536870911" and "srv_inv env s"
  shows "srv_inv env' s"
proof -
  have "robj_ok env' = robj_ok env"
    using set_inv_env [OF assms(1) srv_invD(2) [OF assms(3)] assms(2)] by (simp add: robj_ok_def fun_eq_iff split: robj.splits)
  then show ?thesis using assms(2,3) by (simp add: srv_inv_def)
qed

lemma reachable_inv:
  assumes "reachable h s" and "env_hash env = h" and "env_max_intset env < 536870911"
  shows "srv_inv env s"
  using assms
proof (induction arbitrary: env)
  case start
  then show ?case by (simp add: srv_inv_def db_inv_def empty_server_def)
next
  case (step s env1 cfg cmd c s')
  have "srv_inv env1 s" using step.IH step.hyps by blast
  then have "srv_inv env1 s'" using exec_safe [of env1 s cfg cmd c] step.hyps by (simp add: cmd_safe_def)
  then show ?case using srv_inv_env step.hyps(2) step.prems by metis
qed

text \<open>
  C2: In every state the server reaches from an empty database, by any commands of the model under
  any sequence of configurations, no key holds an empty set, every set object satisfies the
  invariant of its encoding, and every key with a deadline exists.
\<close>

theorem reachable_invariant:
  assumes "reachable h s" and "env_hash env = h" and "env_max_intset env < 536870911"
  shows "dom (db_expires s) \<subseteq> dom (db_dict s)
     \<and> (\<forall>k so. db_dict s k = Some (OBJ_SET so) \<longrightarrow> set_elems so \<noteq> {} \<and> set_inv env so)"
proof -
  have inv: "srv_inv env s" using reachable_inv [OF assms] .
  then have "dom (db_expires s) \<subseteq> dom (db_dict s)" by (simp add: srv_inv_def db_inv_def)
  moreover have "set_elems so \<noteq> {} \<and> set_inv env so" if "db_dict s k = Some (OBJ_SET so)" for k so
    using srv_inv_set [OF inv, of k so] that by (simp add: get_set_eq)
  ultimately show ?thesis by blast
qed

text \<open>
  C1: No command aborts the server: in every reachable state every command whose arity is right and
  whose sets stay below the widths of the counters returns, so that no assertion of the keyspace,
  of the set objects, of the hash tables and iterators below them fails, and no memory outside an
  object is accessed.
\<close>

theorem no_command_aborts:
  assumes "reachable (env_hash env) s" and "env_max_intset env < 536870911" and "fits cfg cmd s"
  shows "\<exists>s'. exec cfg c env cmd s = Some s' \<and> reachable (env_hash env) s'"
proof -
  have "srv_inv env s" using reachable_inv [OF assms(1) refl assms(2)] .
  then obtain s' where "exec cfg c env cmd s = Some s'" using exec_safe [OF _ assms(3)] by (auto simp: cmd_safe_def)
  then show ?thesis using reachable.step [OF assms(1) refl assms(2,3)] by blast
qed

theorem no_command_aborts_witness:
  "\<exists>s s'. exec ex_config ex_client ex_env (CmdSadd [115] [[120]]) empty_server = Some s
     \<and> exec ex_config ex_client ex_env (CmdSinter [[115], [115]] (Some [116])) s = Some s'"
proof -
  have e: "env_max_intset ex_env < 536870911" by (simp add: ex_env_def)
  have f: "fits ex_config (CmdSadd [115] [[120]]) empty_server" by (simp add: set_at_def get_set_def empty_server_def)
  obtain s where s: "exec ex_config ex_client ex_env (CmdSadd [115] [[120]]) empty_server = Some s" "reachable (env_hash ex_env) s"
    using no_command_aborts [OF reachable.start e f] by blast
  then show ?thesis using no_command_aborts [OF s(2) e, of ex_config "CmdSinter [[115], [115]] (Some [116])" ex_client] by auto
qed

theorem reachable_invariant_witness:
  "\<exists>s. exec ex_config ex_client ex_env (CmdSadd [115] [[120]]) empty_server = Some s
     \<and> dom (db_expires s) \<subseteq> dom (db_dict s) \<and> (\<forall>k so. db_dict s k = Some (OBJ_SET so) \<longrightarrow> set_elems so \<noteq> {})"
proof -
  have e: "env_max_intset ex_env < 536870911" by (simp add: ex_env_def)
  have f: "fits ex_config (CmdSadd [115] [[120]]) empty_server" by (simp add: set_at_def get_set_def empty_server_def)
  obtain s where s: "exec ex_config ex_client ex_env (CmdSadd [115] [[120]]) empty_server = Some s"
    using exec_safe [OF reachable_inv [OF reachable.start refl e] f, of ex_client] by (auto simp: cmd_safe_def)
  have "reachable (env_hash ex_env) s" by (rule reachable.step [OF reachable.start refl e f s])
  then show ?thesis using s reachable_invariant [OF _ refl e] by blast
qed

end
