(* ===== verification/Resp.thy ===== *)
theory Resp
  imports Sds_Text
begin

text \<open>
  The request parser, \<open>src/redis-6.2.0/src/networking.c\<close>: requests arrive in arbitrary pieces and are
  parsed incrementally from the query buffer, either as inline commands or in the RESP format with
  length-prefixed arguments.  The buffer is the text of a dynamic string, which is followed by a
  terminating null byte.  What a command does is not part of this theory: \<open>processCommand\<close> is the
  parameter \<open>run\<close>, and the commands handed over to it are recorded in \<open>q_executed\<close>.  Reply flags, the
  replication offsets of a master and the statistics are left out; the lengths are unbounded, where
  the source adds 2 to a length that is at most \<open>proto_max_bulk_len\<close>.

  The main theorem says that the parsing does not depend on how the network cuts the stream: whatever
  pieces a sequence of requests arrives in, exactly these requests are executed, in order.
\<close>

section \<open>Model: the client\<close>

datatype request_type = PROTO_REQ_INLINE | PROTO_REQ_MULTIBULK

record qclient =
  q_buf :: "byte list"
  q_pos :: nat
  q_reqtype :: "request_type option"
  q_multibulklen :: int
  q_bulklen :: int
  q_argv :: "byte list list"
  q_argv_len_sum :: nat
  q_master :: bool
  q_blocked :: bool
  q_block_keeps_argv :: bool
  q_pending_command :: bool
  q_pending_read :: bool
  q_close_after_reply :: bool
  q_close_asap :: bool
  q_protocol_error :: bool
  q_errors :: "string list"
  q_executed :: "byte list list list"
  q_gopher :: "byte list list list"

record qconfig =
  proto_max_bulk_len :: int
  client_max_querybuf_len :: nat
  gopher_enabled :: bool
  lua_timedout :: bool

definition PROTO_INLINE_MAX_SIZE :: nat where "PROTO_INLINE_MAX_SIZE = 1024 * 64"

definition PROTO_MBULK_BIG_ARG :: int where "PROTO_MBULK_BIG_ARG = 1024 * 32"

text \<open>The unparsed part of the buffer.\<close>

definition q_rest :: "qclient \<Rightarrow> byte list" where
  "q_rest c = drop (q_pos c) (q_buf c)"

text \<open>The first occurrence of a character other than null before the end of the C string.\<close>

fun strchr :: "byte list \<Rightarrow> byte \<Rightarrow> nat option" where
  "strchr [] ch = None"
| "strchr (x # xs) ch = (if x = ch then Some 0 else if x = 0 then None else map_option Suc (strchr xs ch))"

definition setProtocolError :: "string \<Rightarrow> qclient \<Rightarrow> qclient" where
  "setProtocolError errstr c = c\<lparr>q_errors := q_errors c @ [errstr], q_close_after_reply := True, q_protocol_error := True\<rparr>"

definition resetClient :: "qclient \<Rightarrow> qclient" where
  "resetClient c = c\<lparr>q_argv := [], q_argv_len_sum := 0, q_reqtype := None, q_multibulklen := 0, q_bulklen := -1\<rparr>"

text \<open>A new connection, and the defaults of \<open>config.c\<close>.\<close>

definition createClient :: qclient where
  "createClient = \<lparr>q_buf = [], q_pos = 0, q_reqtype = None, q_multibulklen = 0, q_bulklen = -1, q_argv = [], q_argv_len_sum = 0,
     q_master = False, q_blocked = False, q_block_keeps_argv = False, q_pending_command = False, q_pending_read = False,
     q_close_after_reply = False, q_close_asap = False, q_protocol_error = False, q_errors = [], q_executed = [], q_gopher = []\<rparr>"

definition default_config :: qconfig where
  "default_config = \<lparr>proto_max_bulk_len = 512 * 1024 * 1024, client_max_querybuf_len = 1024 * 1024 * 1024,
     gopher_enabled = False, lua_timedout = False\<rparr>"

section \<open>Model: inline requests\<close>

text \<open>The result says whether a command is ready; errors are recorded in the client.\<close>

definition processInlineBuffer :: "qclient \<Rightarrow> qclient \<times> bool" where
  "processInlineBuffer c =
     (case strchr (q_rest c) 10 of
        None \<Rightarrow>
          (if length (q_buf c) - q_pos c > PROTO_INLINE_MAX_SIZE then setProtocolError ''too big inline request'' c else c, False)
      | Some nl \<Rightarrow>
          let (newline, linefeed_chars) = (if nl \<noteq> 0 \<and> q_rest c ! (nl - 1) = 13 then (nl - 1, 2) else (nl, 1 :: nat));
              querylen = newline;
              aux = take querylen (q_rest c)
          in (case sdssplitargs aux of
                None \<Rightarrow> (setProtocolError ''unbalanced quotes in inline request'' c, False)
              | Some args \<Rightarrow>
                  if querylen \<noteq> 0 \<and> q_master c then (setProtocolError ''Master using the inline protocol. Desync?'' c, False)
                  else (c\<lparr>q_pos := q_pos c + querylen + linefeed_chars, q_argv := args,
                          q_argv_len_sum := (if args = [] then q_argv_len_sum c else sum_list (map length args))\<rparr>, True)))"

section \<open>Model: requests with length prefixes\<close>

datatype bulk_step = BulkBreak qclient | BulkError qclient | BulkNext qclient

definition read_bulk :: "qclient \<Rightarrow> bulk_step" where
  "read_bulk c =
     (if int (length (q_buf c) - q_pos c) < q_bulklen c + 2 then BulkBreak c
      else if q_pos c = 0 \<and> q_bulklen c \<ge> PROTO_MBULK_BIG_ARG \<and> int (length (q_buf c)) = q_bulklen c + 2
      then BulkNext (c\<lparr>q_argv := q_argv c @ [take (length (q_buf c) - 2) (q_buf c)],
                       q_argv_len_sum := q_argv_len_sum c + nat (q_bulklen c), q_buf := [],
                       q_bulklen := -1, q_multibulklen := q_multibulklen c - 1\<rparr>)
      else BulkNext (c\<lparr>q_argv := q_argv c @ [take (nat (q_bulklen c)) (q_rest c)],
                       q_argv_len_sum := q_argv_len_sum c + nat (q_bulklen c),
                       q_pos := q_pos c + nat (q_bulklen c) + 2,
                       q_bulklen := -1, q_multibulklen := q_multibulklen c - 1\<rparr>))"

definition bulk_round :: "qconfig \<Rightarrow> qclient \<Rightarrow> bulk_step" where
  "bulk_round cfg c =
     (if q_bulklen c = -1 then
        (case strchr (q_rest c) 13 of
           None \<Rightarrow>
             if length (q_buf c) - q_pos c > PROTO_INLINE_MAX_SIZE
             then BulkError (setProtocolError ''too big bulk count string'' c) else BulkBreak c
         | Some nl \<Rightarrow>
             if int nl > int (length (q_buf c) - q_pos c) - 2 then BulkBreak c
             else if q_rest c ! 0 \<noteq> 36 then BulkError (setProtocolError ''expected $ but got something else'' c)
             else (case string2ll (take (nl - 1) (drop 1 (q_rest c))) of
                     None \<Rightarrow> BulkError (setProtocolError ''invalid bulk length'' c)
                   | Some ll \<Rightarrow>
                       if ll < 0 \<or> (\<not> q_master c \<and> ll > proto_max_bulk_len cfg)
                       then BulkError (setProtocolError ''invalid bulk length'' c)
                       else
                         let c1 = c\<lparr>q_pos := q_pos c + nl + 2\<rparr>;
                             c2 = (if ll \<ge> PROTO_MBULK_BIG_ARG \<and> int (length (q_buf c1) - q_pos c1) \<le> ll + 2
                                   then c1\<lparr>q_buf := q_rest c1, q_pos := 0\<rparr> else c1)
                         in read_bulk (c2\<lparr>q_bulklen := ll\<rparr>)))
      else read_bulk c)"

text \<open>\<open>Some\<close> results of the loop: the client and whether the loop was left by an error.\<close>

function bulk_loop :: "qconfig \<Rightarrow> qclient \<Rightarrow> qclient \<times> bool" where
  "bulk_loop cfg c =
     (if q_multibulklen c \<le> 0 then (c, False)
      else (case bulk_round cfg c of
              BulkBreak c' \<Rightarrow> (c', False)
            | BulkError c' \<Rightarrow> (c', True)
            | BulkNext c' \<Rightarrow> bulk_loop cfg c'))"
  by pat_completeness auto
termination
proof (relation "measure (\<lambda>(cfg, c). nat (q_multibulklen c))", goal_cases)
  case (2 cfg c c')
  have "q_multibulklen c' = q_multibulklen c - 1"
    using 2(2) by (auto simp: bulk_round_def read_bulk_def Let_def split: if_splits option.splits)
  then show ?case using 2(1) by auto
qed simp

declare bulk_loop.simps [simp del]

definition processMultibulkBuffer :: "qconfig \<Rightarrow> qclient \<Rightarrow> (qclient \<times> bool) option" where
  "processMultibulkBuffer cfg c =
     (let args = (\<lambda>c. do {
            require (q_multibulklen c > 0);
            let (c', err) = bulk_loop cfg c;
            Some (c', \<not> err \<and> q_multibulklen c' = 0)
          })
      in if q_multibulklen c = 0 then do {
           require (q_argv c = []);
           (case strchr (q_rest c) 13 of
              None \<Rightarrow>
                Some (if length (q_buf c) - q_pos c > PROTO_INLINE_MAX_SIZE
                      then setProtocolError ''too big mbulk count string'' c else c, False)
            | Some nl \<Rightarrow>
                if int nl > int (length (q_buf c) - q_pos c) - 2 then Some (c, False)
                else do {
                  require (q_rest c ! 0 = 42);
                  (case string2ll (take (nl - 1) (drop 1 (q_rest c))) of
                     None \<Rightarrow> Some (setProtocolError ''invalid mbulk count'' c, False)
                   | Some ll \<Rightarrow>
                       if ll > 1024 * 1024 then Some (setProtocolError ''invalid mbulk count'' c, False)
                       else
                         let c1 = c\<lparr>q_pos := q_pos c + nl + 2\<rparr>
                         in if ll \<le> 0 then Some (c1, True)
                            else args (c1\<lparr>q_multibulklen := ll, q_argv_len_sum := 0\<rparr>))
                })
         }
         else args c)"

section \<open>Model: the input loop\<close>

text \<open>
  What \<open>processCommand\<close> can do with the client: handle the command (\<open>C_OK\<close>), refuse to go on without
  having handled it (\<open>C_ERR\<close>), or free the client.  \<open>q_block_keeps_argv\<close> says that the client is blocked
  by a module or by a pause.
\<close>

datatype command_result = CommandOk qclient | CommandErr qclient | CommandFreed

type_synonym command_processor = "byte list list \<Rightarrow> qclient \<Rightarrow> command_result"

definition commandProcessed :: "qclient \<Rightarrow> qclient" where
  "commandProcessed c = (if \<not> q_blocked c \<or> \<not> q_block_keeps_argv c then resetClient c else c)"

definition processCommandAndResetClient :: "command_processor \<Rightarrow> qclient \<Rightarrow> qclient option" where
  "processCommandAndResetClient run c =
     (case run (q_argv c) (c\<lparr>q_executed := q_executed c @ [q_argv c]\<rparr>) of
        CommandOk c' \<Rightarrow> Some (commandProcessed c')
      | CommandErr c' \<Rightarrow> Some c'
      | CommandFreed \<Rightarrow> None)"

definition processPendingCommandsAndResetClient :: "command_processor \<Rightarrow> qclient \<Rightarrow> qclient option" where
  "processPendingCommandsAndResetClient run c =
     (if q_pending_command c then processCommandAndResetClient run (c\<lparr>q_pending_command := False\<rparr>) else Some c)"

text \<open>
  One round of the loop.  \<open>InputBreak\<close> leaves the loop, \<open>InputFreed\<close> leaves the function, since the
  client does not exist any more.
\<close>

datatype input_step = InputBreak qclient | InputFreed | InputNext qclient

definition input_round :: "qconfig \<Rightarrow> command_processor \<Rightarrow> qclient \<Rightarrow> input_step option" where
  "input_round cfg run c =
     (if q_blocked c \<or> q_pending_command c \<or> (lua_timedout cfg \<and> q_master c) \<or> q_close_after_reply c \<or> q_close_asap c
      then Some (InputBreak c)
      else do {
        let c1 = (if q_reqtype c = None
                  then c\<lparr>q_reqtype := Some (if q_rest c ! 0 = 42 then PROTO_REQ_MULTIBULK else PROTO_REQ_INLINE)\<rparr> else c);
        let inline = (q_reqtype c1 = Some PROTO_REQ_INLINE);
        (c2, ready) \<leftarrow> (if inline then Some (processInlineBuffer c1) else processMultibulkBuffer cfg c1);
        if \<not> ready then Some (InputBreak c2)
        else if inline \<and> gopher_enabled cfg \<and> (q_argv c2 = [] \<or> (length (q_argv c2) = 1 \<and> take 1 (hd (q_argv c2)) = [47]))
        then Some (InputBreak ((resetClient (c2\<lparr>q_gopher := q_gopher c2 @ [q_argv c2]\<rparr>))\<lparr>q_close_after_reply := True\<rparr>))
        else if q_argv c2 = [] then Some (InputNext (resetClient c2))
        else if q_pending_read c2 then Some (InputBreak (c2\<lparr>q_pending_command := True\<rparr>))
        else Some (case processCommandAndResetClient run c2 of None \<Rightarrow> InputFreed | Some c3 \<Rightarrow> InputNext c3)
      })"

partial_function (option) input_loop :: "qconfig \<Rightarrow> command_processor \<Rightarrow> qclient \<Rightarrow> input_step option" where
  "input_loop cfg run c =
     (if q_pos c < length (q_buf c) then do {
        r \<leftarrow> input_round cfg run c;
        (case r of InputNext c' \<Rightarrow> input_loop cfg run c' | _ \<Rightarrow> Some r)
      }
      else Some (InputBreak c))"

text \<open>The result is \<open>Some None\<close> when the client has been freed, and \<open>None\<close> for a failed assertion.\<close>

definition processInputBuffer :: "qconfig \<Rightarrow> command_processor \<Rightarrow> qclient \<Rightarrow> qclient option option" where
  "processInputBuffer cfg run c = do {
     r \<leftarrow> input_loop cfg run c;
     (case r of
        InputBreak c' \<Rightarrow> Some (Some (if q_pos c' \<noteq> 0 then c'\<lparr>q_buf := q_rest c', q_pos := 0\<rparr> else c'))
      | _ \<Rightarrow> Some None)
   }"

text \<open>A read from the connection that returned \<open>bytes\<close>.\<close>

definition readQueryFromClient :: "qconfig \<Rightarrow> command_processor \<Rightarrow> byte list \<Rightarrow> qclient \<Rightarrow> qclient option option" where
  "readQueryFromClient cfg run bytes c =
     (if bytes = [] then Some (Some (c\<lparr>q_close_asap := True\<rparr>))
      else
        let c1 = c\<lparr>q_buf := q_buf c @ bytes\<rparr>
        in if length (q_buf c1) > client_max_querybuf_len cfg then Some (Some (c1\<lparr>q_close_asap := True\<rparr>))
           else processInputBuffer cfg run c1)"

text \<open>Successive reads, as the event loop calls the handler.\<close>

fun read_all :: "qconfig \<Rightarrow> command_processor \<Rightarrow> byte list list \<Rightarrow> qclient \<Rightarrow> qclient option option" where
  "read_all cfg run [] c = Some (Some c)"
| "read_all cfg run (b # bs) c = do {
     r \<leftarrow> readQueryFromClient cfg run b c;
     (case r of None \<Rightarrow> Some None | Some c' \<Rightarrow> read_all cfg run bs c')
   }"

section \<open>The request format\<close>

definition CRLF :: "byte list" where "CRLF = [13, 10]"

definition header :: "byte \<Rightarrow> nat \<Rightarrow> byte list" where "header ch n = ch # dec_nat n @ CRLF"

definition bulk :: "byte list \<Rightarrow> byte list" where "bulk a = header 36 (length a) @ a @ CRLF"

definition encode :: "byte list list \<Rightarrow> byte list" where "encode args = header 42 (length args) @ concat (map bulk args)"

lemma length_CRLF [simp]: "length CRLF = 2" "CRLF \<noteq> []"
  by (simp_all add: CRLF_def)

lemma header_nonempty [simp]: "header ch n \<noteq> []"
  by (simp add: header_def)

lemma strchr_skip: "\<forall>x \<in> set p. x \<noteq> ch \<and> x \<noteq> 0 \<Longrightarrow> strchr (p @ q) ch = map_option (\<lambda>n. length p + n) (strchr q ch)"
  by (cases "strchr q ch"; induction p) auto

lemma dec_nat_bytes: "x \<in> set (dec_nat n) \<Longrightarrow> unat x \<in> {48..57}"
proof (induction n rule: dec_nat.induct)
  case (1 n)
  show ?case
  proof (cases "n < 10")
    case True
    then show ?thesis using "1.prems" byte_digit [of n] by (simp add: dec_nat_small)
  next
    case False
    then show ?thesis using "1.prems" "1.IH" byte_digit [of "n mod 10"] by (auto simp: dec_nat_snoc)
  qed
qed

lemma header_no_cr:
  assumes "ch \<noteq> 0" "ch \<noteq> 13" "x \<in> set (ch # dec_nat n)" shows "x \<noteq> 13 \<and> x \<noteq> 0"
  using assms dec_nat_bytes [of x n] by auto

lemma strchr_none: "ch \<notin> set p \<Longrightarrow> strchr p ch = None"
  by (induction p) auto

text \<open>
  Scanning for a header of which perhaps only a part has arrived.\<close>

lemma header_cases:
  assumes stream: "rest @ F = header ch n @ R" and ch: "ch \<noteq> 0" "ch \<noteq> 13" and n: "n < 9223372036854775808"
  obtains
    (short) "F \<noteq> []" "length rest < length (header ch n)" "length rest \<le> PROTO_INLINE_MAX_SIZE"
      "\<And>nl. strchr rest 13 = Some nl \<Longrightarrow> int nl > int (length rest) - 2"
  | (full) R' where "rest = header ch n @ R'" "R' @ F = R" "strchr rest 13 = Some (Suc (length (dec_nat n)))"
      "string2ll (take (length (dec_nat n)) (drop 1 rest)) = Some (int n)"
proof (cases "length rest < length (header ch n)")
  case True
  let ?H = "ch # dec_nat n"
  have F: "F \<noteq> []" using stream True by (metis append_Nil2 length_append not_add_less1)
  have len: "length rest \<le> PROTO_INLINE_MAX_SIZE"
    using True length_dec_nat_le [of n 19] n by (simp add: header_def PROTO_INLINE_MAX_SIZE_def)
  have pre: "rest = take (length rest) (?H @ CRLF)"
    using arg_cong [OF stream, of "take (length rest)"] True
      take_append [of "length rest" "?H @ CRLF" R] by (simp add: header_def)
  have "int nl > int (length rest) - 2" if nl: "strchr rest 13 = Some nl" for nl
  proof (rule ccontr)
    assume no: "\<not> ?thesis"
    have nl0: "nl < length ?H" using no True by (simp add: header_def)
    have "length rest \<le> length ?H \<or> rest = ?H @ [13]"
      using pre True by (cases "length rest \<le> length ?H") (auto simp: header_def CRLF_def not_le less_Suc_eq)
    then show False
    proof
      assume "length rest \<le> length ?H"
      then have "rest = take (length rest) ?H" using pre take_append [of "length rest" ?H CRLF] by simp
      then have "set rest \<subseteq> set ?H" by (metis set_take_subset)
      then have "13 \<notin> set rest" using header_no_cr [OF ch] by blast
      then show False using nl strchr_none by simp
    next
      assume "rest = ?H @ [13]"
      then have "strchr rest 13 = Some (length ?H)" using strchr_skip [of ?H 13 "[13]"] header_no_cr [OF ch] by simp
      then show False using nl nl0 by simp
    qed
  qed
  then show thesis using short F True len by blast
next
  case False
  define R' where "R' = drop (length (header ch n)) rest"
  have rest: "rest = header ch n @ R'" and R: "R' @ F = R"
    using arg_cong [OF stream, of "take (length (header ch n))"] arg_cong [OF stream, of "drop (length (header ch n))"] False
    by (simp_all add: R'_def not_less) (metis append_take_drop_id)
  have "strchr rest 13 = Some (Suc (length (dec_nat n)))"
    using strchr_skip [of "ch # dec_nat n" 13 "CRLF @ R'"] header_no_cr [OF ch] rest by (simp add: header_def CRLF_def)
  moreover have "take (length (dec_nat n)) (drop 1 rest) = dec_nat n" using rest by (simp add: header_def)
  moreover have "string2ll (dec_nat n) = Some (int n)"
    using n by (simp add: string2ll_canonical dec_int_def int64_def)
  ultimately show thesis using full rest R by simp
qed

section \<open>Reading the arguments\<close>

text \<open>The client without the fields the parser works on.\<close>

definition outside :: "qclient \<Rightarrow> qclient" where
  "outside c = c\<lparr>q_buf := [], q_pos := 0, q_reqtype := None, q_multibulklen := 0, q_bulklen := 0, q_argv := [], q_argv_len_sum := 0\<rparr>"

lemma outside_update [simp]:
  "outside (c\<lparr>q_buf := b\<rparr>) = outside c" "outside (c\<lparr>q_pos := p\<rparr>) = outside c"
  "outside (c\<lparr>q_reqtype := r\<rparr>) = outside c" "outside (c\<lparr>q_multibulklen := m\<rparr>) = outside c"
  "outside (c\<lparr>q_bulklen := l\<rparr>) = outside c" "outside (c\<lparr>q_argv := a\<rparr>) = outside c"
  "outside (c\<lparr>q_argv_len_sum := n\<rparr>) = outside c"
  by (simp_all add: outside_def)

lemma outside_eqD:
  assumes "outside c = outside c'"
  shows "q_executed c = q_executed c'" "q_master c = q_master c'" "q_blocked c = q_blocked c'"
    "q_pending_command c = q_pending_command c'" "q_pending_read c = q_pending_read c'"
    "q_close_after_reply c = q_close_after_reply c'" "q_close_asap c = q_close_asap c'" "q_errors c = q_errors c'"
  using assms by (cases c; cases c'; simp add: outside_def)+

text \<open>
  The arguments \<open>args\<close> are still to be read and the stream \<open>S\<close>, of which the unparsed part of the buffer
  is the beginning, holds them, followed by \<open>T\<close>; the length of the first may have been read already.
\<close>

definition pending :: "qclient \<Rightarrow> byte list list \<Rightarrow> byte list \<Rightarrow> byte list \<Rightarrow> bool" where
  "pending c args S T \<longleftrightarrow>
     q_multibulklen c = int (length args) \<and>
     (q_bulklen c = -1 \<and> S = concat (map bulk args) @ T \<or>
      args \<noteq> [] \<and> q_bulklen c = int (length (hd args)) \<and> S = hd args @ CRLF @ concat (map bulk (tl args)) @ T)"

lemma read_bulk_cases:
  assumes stream: "q_rest c @ F = a @ CRLF @ S" and len: "q_bulklen c = int (length a)" and pos: "q_pos c \<le> length (q_buf c)"
  obtains
    (short) "read_bulk c = BulkBreak c" "F \<noteq> []" "length (q_rest c) < length (bulk a)"
  | (full) c' where "read_bulk c = BulkNext c'" "q_rest c' @ F = S" "q_argv c' = q_argv c @ [a]" "q_bulklen c' = -1"
      "q_multibulklen c' = q_multibulklen c - 1" "q_reqtype c' = q_reqtype c" "q_pos c' \<le> length (q_buf c')" "outside c' = outside c"
proof (cases "length (q_rest c) < length a + 2")
  case True
  then have "F \<noteq> []" using stream by (metis append_Nil2 length_CRLF(1) length_append not_add_less1 add.assoc)
  moreover have "read_bulk c = BulkBreak c" using True len by (simp add: read_bulk_def q_rest_def)
  ultimately show thesis using short True by (simp add: bulk_def header_def)
next
  case False
  define R where "R = drop (length a + 2) (q_rest c)"
  have rest: "q_rest c = a @ CRLF @ R" and R: "R @ F = S"
    using arg_cong [OF stream, of "take (length a + 2)"] arg_cong [OF stream, of "drop (length a + 2)"] False
    by (simp_all add: R_def not_less) (metis append_assoc append_take_drop_id)
  have blen: "length (q_buf c) - q_pos c = length a + 2 + length R"
    using arg_cong [OF rest, of length] by (simp add: q_rest_def)
  have dr: "drop (q_pos c + (length a + 2)) (q_buf c) = R"
    using R_def by (simp add: q_rest_def add.commute)
  consider (whole) "q_pos c = 0" "q_bulklen c \<ge> PROTO_MBULK_BIG_ARG" "int (length (q_buf c)) = q_bulklen c + 2"
    | (part) "\<not> (q_pos c = 0 \<and> q_bulklen c \<ge> PROTO_MBULK_BIG_ARG \<and> int (length (q_buf c)) = q_bulklen c + 2)" by argo
  then show thesis
  proof cases
    case whole
    then have "R = []" using blen len by simp
    then have "q_buf c = a @ CRLF" using rest whole(1) by (simp add: q_rest_def)
    then have "read_bulk c = BulkNext (c\<lparr>q_argv := q_argv c @ [a], q_argv_len_sum := q_argv_len_sum c + length a,
        q_buf := [], q_bulklen := -1, q_multibulklen := q_multibulklen c - 1\<rparr>)"
      using whole len by (simp add: read_bulk_def)
    then show thesis by (rule full) (use \<open>R = []\<close> R whole(1) in \<open>simp_all add: q_rest_def\<close>)
  next
    case part
    then have "read_bulk c = BulkNext (c\<lparr>q_argv := q_argv c @ [a], q_argv_len_sum := q_argv_len_sum c + length a,
        q_pos := q_pos c + length a + 2, q_bulklen := -1, q_multibulklen := q_multibulklen c - 1\<rparr>)"
      using len blen rest by (simp add: read_bulk_def del: de_Morgan_conj)
    then show thesis by (rule full) (use R dr blen pos in \<open>simp_all add: q_rest_def add.assoc\<close>)
  qed
qed

text \<open>Arguments the server accepts.\<close>

definition args_ok :: "qconfig \<Rightarrow> byte list list \<Rightarrow> bool" where
  "args_ok cfg args \<longleftrightarrow> list_all (\<lambda>a. int (length a) \<le> proto_max_bulk_len cfg \<and> length a < 9223372036854775808) args"

lemma args_ok_simps [simp]:
  "args_ok cfg []"
  "args_ok cfg (a # as) \<longleftrightarrow> int (length a) \<le> proto_max_bulk_len cfg \<and> length a < 9223372036854775808 \<and> args_ok cfg as"
  by (simp_all add: args_ok_def)

lemma q_rest_skip: "drop (q_pos c + n) (q_buf c) = drop n (q_rest c)"
  by (simp add: q_rest_def add.commute)

lemma length_q_rest: "length (q_buf c) - q_pos c = length (q_rest c)"
  by (simp add: q_rest_def)

lemma bulk_round_cases:
  assumes p: "pending c (a # as) (q_rest c @ F) T" and ok: "args_ok cfg (a # as)" and pos: "q_pos c \<le> length (q_buf c)"
  obtains
    (short) c' where "bulk_round cfg c = BulkBreak c'" "F \<noteq> []" "pending c' (a # as) (q_rest c' @ F) T" "q_argv c' = q_argv c"
      "length (q_rest c') < length (bulk a)" "q_reqtype c' = q_reqtype c" "q_pos c' \<le> length (q_buf c')" "outside c' = outside c"
  | (full) c' where "bulk_round cfg c = BulkNext c'" "pending c' as (q_rest c' @ F) T" "q_argv c' = q_argv c @ [a]"
      "q_reqtype c' = q_reqtype c" "q_pos c' \<le> length (q_buf c')" "outside c' = outside c"
proof -
  note break = short and more = full
  have read: thesis
    if eq: "bulk_round cfg c = read_bulk d" and d: "q_bulklen d = int (length a)" "q_rest d @ F = a @ CRLF @ concat (map bulk as) @ T"
      "q_argv d = q_argv c" "q_reqtype d = q_reqtype c" "q_pos d \<le> length (q_buf d)" "outside d = outside c" "q_multibulklen d = q_multibulklen c" for d
    using d(2) d(1) d(5)
  proof (cases rule: read_bulk_cases)
    case short
    show thesis by (rule break [of d]) (use short eq d p in \<open>simp_all add: pending_def\<close>)
  next
    case (full c')
    show thesis by (rule more [of c']) (use full eq d p in \<open>simp_all add: pending_def\<close>)
  qed
  show thesis
  proof (cases "q_bulklen c = -1")
    case False
    then show thesis using p pos by (intro read [of c]) (simp_all add: bulk_round_def pending_def)
  next
    case True
    then have stream: "q_rest c @ F = header 36 (length a) @ a @ CRLF @ concat (map bulk as) @ T"
      using p by (simp add: pending_def bulk_def)
    have a: "length a < 9223372036854775808" "int (length a) \<le> proto_max_bulk_len cfg" using ok by simp_all
    have ch: "(36 :: byte) \<noteq> 0" "(36 :: byte) \<noteq> 13" by simp_all
    show thesis
      using stream ch a(1)
    proof (cases rule: header_cases)
      case short
      have "bulk_round cfg c = BulkBreak c"
        using short(3,4) True by (cases "strchr (q_rest c) 13") (simp_all add: bulk_round_def length_q_rest)
      then show thesis using short p pos by (intro break [of c]) (simp_all add: bulk_def)
    next
      case (full R')
      define nl where "nl = Suc (length (dec_nat (length a)))"
      define c1 where "c1 = c\<lparr>q_pos := q_pos c + nl + 2\<rparr>"
      define c2 where "c2 = (if int (length a) \<ge> PROTO_MBULK_BIG_ARG \<and> int (length (q_buf c1) - q_pos c1) \<le> int (length a) + 2
                              then c1\<lparr>q_buf := q_rest c1, q_pos := 0\<rparr> else c1)"
      have hl: "length (header 36 (length a)) = nl + 2" by (simp add: header_def nl_def)
      have r1: "q_rest c1 = R'"
        using full(1) hl q_rest_skip [of c "nl + 2"] by (simp add: c1_def q_rest_def [of "c\<lparr>q_pos := x\<rparr>" for x] add.assoc)
      have "q_pos c1 \<le> length (q_buf c1)"
        using arg_cong [OF full(1), of length] hl pos by (simp add: c1_def q_rest_def)
      then have c2: "q_rest c2 = R'" "q_pos c2 \<le> length (q_buf c2)" using r1 by (simp_all add: c2_def q_rest_def)
      have c2': "q_argv c2 = q_argv c" "q_reqtype c2 = q_reqtype c" "outside c2 = outside c" "q_multibulklen c2 = q_multibulklen c"
        by (simp_all add: c2_def c1_def)
      have rest: "length (q_rest c) \<ge> nl + 2" "q_rest c ! 0 = 36" using full(1) hl by (simp_all add: header_def)
      have "bulk_round cfg c = read_bulk (c2\<lparr>q_bulklen := int (length a)\<rparr>)"
        using full(3,4) rest a(2) unfolding bulk_round_def
        by (simp add: True length_q_rest [of c] flip: nl_def c1_def c2_def) (simp add: nl_def c2_def c1_def Let_def)
      then show thesis
        by (rule read) (use c2 c2' full(2) in \<open>simp_all add: q_rest_def\<close>)
    qed
  qed
qed

text \<open>
  The loop: with enough of the stream in the buffer all arguments are read, and otherwise it stops in a
  state from which it goes on when more has arrived.
\<close>

lemma bulk_loop_stream:
  assumes "pending c args (q_rest c @ F) T" "args_ok cfg args" "q_pos c \<le> length (q_buf c)"
  shows "\<exists>c'. bulk_loop cfg c = (c', False) \<and> q_reqtype c' = q_reqtype c \<and> q_pos c' \<le> length (q_buf c') \<and> outside c' = outside c \<and>
    (q_multibulklen c' = 0 \<and> q_bulklen c' = -1 \<and> q_argv c' = q_argv c @ args \<and> q_rest c' @ F = T \<or>
     F \<noteq> [] \<and> (\<exists>args1 a as. args = args1 @ a # as \<and> q_argv c' = q_argv c @ args1 \<and>
       pending c' (a # as) (q_rest c' @ F) T \<and> length (q_rest c') < length (bulk a)))"
  using assms
proof (induction args arbitrary: c)
  case Nil
  then show ?case by (subst bulk_loop.simps) (simp add: pending_def)
next
  case (Cons a as)
  have len: "q_multibulklen c = 1 + int (length as)" using Cons.prems(1) by (simp add: pending_def)
  show ?case
    using Cons.prems
  proof (cases rule: bulk_round_cases)
    case (short c')
    then have "bulk_loop cfg c = (c', False)" using len by (subst bulk_loop.simps) simp
    then show ?thesis using short by (intro exI [of _ c']) auto
  next
    case (full c')
    then have eq: "bulk_loop cfg c = bulk_loop cfg c'" using len by (subst bulk_loop.simps) simp
    have ok: "args_ok cfg as" using Cons.prems(2) by simp
    obtain c'' where c'': "bulk_loop cfg c' = (c'', False)" "q_reqtype c'' = q_reqtype c'" "q_pos c'' \<le> length (q_buf c'')" "outside c'' = outside c'"
      and res: "q_multibulklen c'' = 0 \<and> q_bulklen c'' = -1 \<and> q_argv c'' = q_argv c' @ as \<and> q_rest c'' @ F = T \<or>
        F \<noteq> [] \<and> (\<exists>args1 b bs. as = args1 @ b # bs \<and> q_argv c'' = q_argv c' @ args1 \<and>
          pending c'' (b # bs) (q_rest c'' @ F) T \<and> length (q_rest c'') < length (bulk b))"
      using Cons.IH [OF full(2) ok full(5)] by blast
    show ?thesis
    proof (intro exI [of _ c''] conjI)
      show "q_multibulklen c'' = 0 \<and> q_bulklen c'' = -1 \<and> q_argv c'' = q_argv c @ a # as \<and> q_rest c'' @ F = T \<or>
        F \<noteq> [] \<and> (\<exists>args1 b bs. a # as = args1 @ b # bs \<and> q_argv c'' = q_argv c @ args1 \<and>
          pending c'' (b # bs) (q_rest c'' @ F) T \<and> length (q_rest c'') < length (bulk b))"
        using res full(3) by (force simp: append_eq_Cons_conv)
    qed (use c'' eq full in simp_all)
  qed
qed

text \<open>The request \<open>args\<close> is being read: either nothing of it has been parsed, or some of its arguments.\<close>

definition awaiting :: "qclient \<Rightarrow> byte list list \<Rightarrow> byte list \<Rightarrow> byte list \<Rightarrow> bool" where
  "awaiting c args S T \<longleftrightarrow>
     q_multibulklen c = 0 \<and> q_bulklen c = -1 \<and> q_argv c = [] \<and> S = encode args @ T \<or>
     (\<exists>args2. args = q_argv c @ args2 \<and> args2 \<noteq> [] \<and> pending c args2 S T)"

definition request_ok :: "qconfig \<Rightarrow> byte list list \<Rightarrow> bool" where
  "request_ok cfg args \<longleftrightarrow> args \<noteq> [] \<and> length args \<le> 1024 * 1024 \<and> args_ok cfg args"

lemma length_bulk_le: "length (bulk a) \<le> length (encode (args1 @ a # as))"
  by (simp add: encode_def)

lemma processMultibulk_args:
  assumes args: "args = q_argv c @ args2" "args2 \<noteq> []" and p: "pending c args2 (q_rest c @ F) T"
    and ok: "args_ok cfg args2" and pos: "q_pos c \<le> length (q_buf c)"
  shows "\<exists>c'. bulk_loop cfg c = (c', False) \<and> q_reqtype c' = q_reqtype c \<and> q_pos c' \<le> length (q_buf c') \<and> outside c' = outside c \<and>
    (q_multibulklen c' = 0 \<and> q_bulklen c' = -1 \<and> q_argv c' = args \<and> q_rest c' @ F = T \<or>
     q_multibulklen c' \<noteq> 0 \<and> F \<noteq> [] \<and> awaiting c' args (q_rest c' @ F) T \<and> length (q_rest c') < length (encode args))"
proof -
  obtain c' where c': "bulk_loop cfg c = (c', False)" "q_reqtype c' = q_reqtype c" "q_pos c' \<le> length (q_buf c')" "outside c' = outside c"
    and res: "q_multibulklen c' = 0 \<and> q_bulklen c' = -1 \<and> q_argv c' = q_argv c @ args2 \<and> q_rest c' @ F = T \<or>
      F \<noteq> [] \<and> (\<exists>args1 a as. args2 = args1 @ a # as \<and> q_argv c' = q_argv c @ args1 \<and>
        pending c' (a # as) (q_rest c' @ F) T \<and> length (q_rest c') < length (bulk a))"
    using bulk_loop_stream [OF p ok pos] by blast
  from res show ?thesis
  proof
    assume "q_multibulklen c' = 0 \<and> q_bulklen c' = -1 \<and> q_argv c' = q_argv c @ args2 \<and> q_rest c' @ F = T"
    then show ?thesis using c' args by (intro exI [of _ c']) simp
  next
    assume "F \<noteq> [] \<and> (\<exists>args1 a as. args2 = args1 @ a # as \<and> q_argv c' = q_argv c @ args1 \<and>
        pending c' (a # as) (q_rest c' @ F) T \<and> length (q_rest c') < length (bulk a))"
    then obtain args1 a as where r: "F \<noteq> []" "args2 = args1 @ a # as" "q_argv c' = q_argv c @ args1"
        "pending c' (a # as) (q_rest c' @ F) T" "length (q_rest c') < length (bulk a)" by blast
    have "awaiting c' args (q_rest c' @ F) T" using r args(1) by (auto simp: awaiting_def)
    moreover have "length (q_rest c') < length (encode args)"
      using r(2,5) args(1) length_bulk_le [of a "q_argv c @ args1" as] by simp
    moreover have "q_multibulklen c' \<noteq> 0" using r(4) by (simp add: pending_def)
    ultimately show ?thesis using c' r(1) by (intro exI [of _ c']) simp
  qed
qed

lemma processMultibulk_stream:
  assumes aw: "awaiting c args (q_rest c @ F) T" and ok: "request_ok cfg args" and pos: "q_pos c \<le> length (q_buf c)"
  shows "\<exists>c' ready. processMultibulkBuffer cfg c = Some (c', ready) \<and> q_reqtype c' = q_reqtype c \<and> q_pos c' \<le> length (q_buf c') \<and>
    outside c' = outside c \<and>
    (if ready then q_argv c' = args \<and> q_rest c' @ F = T
     else F \<noteq> [] \<and> awaiting c' args (q_rest c' @ F) T \<and> length (q_rest c') < length (encode args))"
proof (cases "q_multibulklen c = 0")
  case False
  then obtain args2 where args: "args = q_argv c @ args2" "args2 \<noteq> []" and p: "pending c args2 (q_rest c @ F) T"
    using aw by (auto simp: awaiting_def)
  have "args_ok cfg args2" using ok args(1) by (simp add: request_ok_def args_ok_def)
  note loop = processMultibulk_args [OF args p this pos]
  have "q_multibulklen c > 0" using p args(2) by (simp add: pending_def)
  then have eq: "processMultibulkBuffer cfg c = (let (c', err) = bulk_loop cfg c in Some (c', \<not> err \<and> q_multibulklen c' = 0))"
    using False by (simp add: processMultibulkBuffer_def Let_def)
  from loop show ?thesis unfolding eq
    by (elim exE) (rule_tac x = c' in exI, rule_tac x = "q_multibulklen c' = 0" in exI, auto)
next
  case True
  have idle: "q_bulklen c = -1" "q_argv c = []" and stream: "q_rest c @ F = header 42 (length args) @ concat (map bulk args) @ T"
    using aw True by (auto simp: awaiting_def encode_def pending_def)
  have ch: "(42 :: byte) \<noteq> 0" "(42 :: byte) \<noteq> 13" and n: "length args < 9223372036854775808"
    using ok by (simp_all add: request_ok_def)
  from stream ch n show ?thesis
  proof (cases rule: header_cases)
    case short
    have "processMultibulkBuffer cfg c = Some (c, False)"
      using short(3,4) True idle by (cases "strchr (q_rest c) 13") (simp_all add: processMultibulkBuffer_def length_q_rest)
    then show ?thesis using short pos aw by (auto simp: encode_def)
  next
    case (full R')
    define nl where "nl = Suc (length (dec_nat (length args)))"
    define c1 where "c1 = c\<lparr>q_pos := q_pos c + nl + 2, q_multibulklen := int (length args), q_argv_len_sum := 0\<rparr>"
    have hl: "length (header 42 (length args)) = nl + 2" by (simp add: header_def nl_def)
    have r1: "q_rest c1 = R'"
      using full(1) hl q_rest_skip [of c "nl + 2"] by (simp add: c1_def q_rest_def add.assoc)
    have pos1: "q_pos c1 \<le> length (q_buf c1)"
      using arg_cong [OF full(1), of length] hl pos by (simp add: c1_def q_rest_def)
    have rest: "length (q_rest c) \<ge> nl + 2" "q_rest c ! 0 = 42" using full(1) hl by (simp_all add: header_def)
    have args: "args = q_argv c1 @ args" "args \<noteq> []" "args_ok cfg args" "length args \<le> 1024 * 1024"
      using ok idle by (simp_all add: c1_def request_ok_def)
    have p1: "pending c1 args (q_rest c1 @ F) T" using full(2) r1 idle by (simp add: pending_def c1_def)
    have eq: "processMultibulkBuffer cfg c = (let (c', err) = bulk_loop cfg c1 in Some (c', \<not> err \<and> q_multibulklen c' = 0))"
      using full(3,4) rest args(2,4) unfolding processMultibulkBuffer_def
      by (simp add: True idle length_q_rest [of c] Let_def c1_def nl_def)
    have c1: "q_reqtype c1 = q_reqtype c" "outside c1 = outside c" by (simp_all add: c1_def)
    from processMultibulk_args [OF args(1,2) p1 args(3) pos1] show ?thesis unfolding eq
      by (elim exE) (rule_tac x = c' in exI, rule_tac x = "q_multibulklen c' = 0" in exI, use c1 in auto)
  qed
qed

section \<open>Executing a stream of requests\<close>

text \<open>The client accepts input, and the requests \<open>cmds\<close> are what the stream \<open>S\<close> still holds for it.\<close>

definition accepting :: "qconfig \<Rightarrow> qclient \<Rightarrow> bool" where
  "accepting cfg c \<longleftrightarrow> \<not> q_blocked c \<and> \<not> q_pending_command c \<and> \<not> q_pending_read c \<and> \<not> q_close_after_reply c \<and> \<not> q_close_asap c \<and>
     \<not> (lua_timedout cfg \<and> q_master c)"

definition receiving :: "qclient \<Rightarrow> byte list list list \<Rightarrow> byte list \<Rightarrow> bool" where
  "receiving c cmds S \<longleftrightarrow>
     q_reqtype c = None \<and> q_multibulklen c = 0 \<and> q_bulklen c = -1 \<and> q_argv c = [] \<and> S = concat (map encode cmds) \<or>
     (\<exists>args later. cmds = args # later \<and> q_reqtype c = Some PROTO_REQ_MULTIBULK \<and> awaiting c args S (concat (map encode later)))"

lemma accepting_outside: "outside c' = outside c \<Longrightarrow> accepting cfg c' = accepting cfg c"
  by (auto simp: accepting_def dest: outside_eqD)

lemma encode_nonempty [simp]: "encode args \<noteq> []"
  by (simp add: encode_def)

lemma receiving_nil: "receiving c cmds [] \<Longrightarrow> cmds = []"
  by (cases cmds) (auto simp: receiving_def awaiting_def pending_def bulk_def neq_Nil_conv)

lemma q_rest_resetClient [simp]: "q_rest (resetClient c) = q_rest c" "q_pos (resetClient c) = q_pos c" "q_buf (resetClient c) = q_buf c"
  by (simp_all add: q_rest_def resetClient_def)

lemma q_rest_update [simp]:
  "q_rest (c\<lparr>q_reqtype := r\<rparr>) = q_rest c" "q_rest (c\<lparr>q_executed := e\<rparr>) = q_rest c" "q_rest (c\<lparr>q_bulklen := l\<rparr>) = q_rest c"
  by (simp_all add: q_rest_def)

lemma awaiting_reqtype [simp]: "awaiting (c\<lparr>q_reqtype := r\<rparr>) args S T = awaiting c args S T"
  by (simp add: awaiting_def pending_def)

lemma receiving_start:
  assumes "receiving c (args # later) (q_rest c @ F)" "q_rest c \<noteq> []"
  obtains c1 where
    "c1 = (if q_reqtype c = None
           then c\<lparr>q_reqtype := Some (if q_rest c ! 0 = 42 then PROTO_REQ_MULTIBULK else PROTO_REQ_INLINE)\<rparr> else c)"
    "q_reqtype c1 = Some PROTO_REQ_MULTIBULK" "awaiting c1 args (q_rest c1 @ F) (concat (map encode later))"
    "outside c1 = outside c" "q_rest c1 = q_rest c" "q_pos c1 = q_pos c" "q_buf c1 = q_buf c"
proof (cases "q_reqtype c = None")
  case True
  then have st: "awaiting c args (q_rest c @ F) (concat (map encode later))" "q_rest c @ F = encode args @ concat (map encode later)"
    using assms(1) by (auto simp: receiving_def awaiting_def)
  then have "q_rest c ! 0 = 42" using assms(2) by (cases "q_rest c") (simp_all add: encode_def header_def)
  then show thesis using that [of "c\<lparr>q_reqtype := Some PROTO_REQ_MULTIBULK\<rparr>"] True st(1) by simp
next
  case False
  then show thesis using assms(1) that [of c] by (auto simp: receiving_def)
qed

lemma input_round_stream:
  assumes r: "receiving c (args # later) (q_rest c @ F)" "q_rest c \<noteq> []" and acc: "accepting cfg c" and ok: "request_ok cfg args"
    and pos: "q_pos c \<le> length (q_buf c)" and run: "\<And>args c. run args c = CommandOk c"
  shows "(\<exists>c'. input_round cfg run c = Some (InputBreak c') \<and> F \<noteq> [] \<and> receiving c' (args # later) (q_rest c' @ F) \<and>
      outside c' = outside c \<and> q_pos c' \<le> length (q_buf c') \<and> length (q_rest c') < length (encode args)) \<or>
    (\<exists>c'. input_round cfg run c = Some (InputNext c') \<and> receiving c' later (q_rest c' @ F) \<and>
      outside c' = outside (c\<lparr>q_executed := q_executed c @ [args]\<rparr>) \<and> q_pos c' \<le> length (q_buf c'))"
proof -
  obtain c1 where c1: "c1 = (if q_reqtype c = None
           then c\<lparr>q_reqtype := Some (if q_rest c ! 0 = 42 then PROTO_REQ_MULTIBULK else PROTO_REQ_INLINE)\<rparr> else c)"
    and t1: "q_reqtype c1 = Some PROTO_REQ_MULTIBULK" and a1: "awaiting c1 args (q_rest c1 @ F) (concat (map encode later))"
    and k1: "outside c1 = outside c" "q_rest c1 = q_rest c" "q_pos c1 = q_pos c" "q_buf c1 = q_buf c"
    using r by (rule receiving_start)
  have "q_pos c1 \<le> length (q_buf c1)" using pos k1 by simp
  from processMultibulk_stream [OF a1 ok this] obtain c2 ready where
    c2: "processMultibulkBuffer cfg c1 = Some (c2, ready)" "q_reqtype c2 = q_reqtype c1" "q_pos c2 \<le> length (q_buf c2)" "outside c2 = outside c1"
    and res: "if ready then q_argv c2 = args \<and> q_rest c2 @ F = concat (map encode later)
      else F \<noteq> [] \<and> awaiting c2 args (q_rest c2 @ F) (concat (map encode later)) \<and> length (q_rest c2) < length (encode args)" by blast
  have acc2: "accepting cfg c2" using acc c2(4) k1(1) accepting_outside by metis
  have round: "input_round cfg run c = (if \<not> ready then Some (InputBreak c2)
        else if q_argv c2 = [] then Some (InputNext (resetClient c2))
        else if q_pending_read c2 then Some (InputBreak (c2\<lparr>q_pending_command := True\<rparr>))
        else Some (case processCommandAndResetClient run c2 of None \<Rightarrow> InputFreed | Some c3 \<Rightarrow> InputNext c3))"
    using acc t1 c2(1) unfolding input_round_def c1 [symmetric] Let_def by (simp add: accepting_def) blast
  show ?thesis
  proof (cases ready)
    case False
    then have "receiving c2 (args # later) (q_rest c2 @ F)" using res c2(2) t1 by (simp add: receiving_def)
    then show ?thesis using False round res c2 k1 by (intro disjI1) simp
  next
    case True
    let ?c3 = "resetClient (c2\<lparr>q_executed := q_executed c2 @ [args]\<rparr>)"
    have argv: "q_argv c2 = args" "args \<noteq> []" "q_rest c2 @ F = concat (map encode later)" using True res ok by (simp_all add: request_ok_def)
    have "processCommandAndResetClient run c2 = Some ?c3"
      using run argv acc2 by (simp add: processCommandAndResetClient_def commandProcessed_def accepting_def)
    then have "input_round cfg run c = Some (InputNext ?c3)" using round True argv acc2 by (simp add: accepting_def)
    moreover have "receiving ?c3 later (q_rest ?c3 @ F)" using argv(3) by (simp add: receiving_def resetClient_def [of "q_executed_update f x" for f x] q_rest_def)
    moreover have "outside ?c3 = outside (c\<lparr>q_executed := q_executed c @ [args]\<rparr>)"
      using c2(4) k1(1) by (cases c; cases c2; cases c1; simp add: outside_def resetClient_def)
    ultimately show ?thesis using c2(3) by (intro disjI2 exI [of _ ?c3]) simp
  qed
qed

lemma input_loop_stream:
  assumes "receiving c cmds (q_rest c @ F)" "accepting cfg c" "list_all (request_ok cfg) cmds" "q_pos c \<le> length (q_buf c)"
    and run: "\<And>args c. run args c = CommandOk c"
  shows "\<exists>c' cmds1 cmds2. input_loop cfg run c = Some (InputBreak c') \<and> cmds = cmds1 @ cmds2 \<and> receiving c' cmds2 (q_rest c' @ F) \<and>
    outside c' = outside (c\<lparr>q_executed := q_executed c @ cmds1\<rparr>) \<and> q_pos c' \<le> length (q_buf c') \<and> (F = [] \<longrightarrow> cmds2 = []) \<and>
    (q_rest c' = [] \<or> (\<exists>args \<in> set cmds. length (q_rest c') < length (encode args)))"
  using assms(1-4)
proof (induction cmds arbitrary: c)
  case Nil
  then have "q_rest c = []" by (auto simp: receiving_def)
  then have "input_loop cfg run c = Some (InputBreak c)" by (subst input_loop.simps) (simp add: q_rest_def)
  then show ?case using Nil \<open>q_rest c = []\<close> by (intro exI [of _ c]) simp
next
  case (Cons args later)
  show ?case
  proof (cases "q_rest c = []")
    case True
    then have "input_loop cfg run c = Some (InputBreak c)" by (subst input_loop.simps) (simp add: q_rest_def)
    moreover have "F \<noteq> []" using Cons.prems(1) True receiving_nil by fastforce
    ultimately show ?thesis using True Cons.prems by (intro exI [of _ c] exI [of _ "[]"] exI [of _ "args # later"]) simp
  next
    case False
    then have lt: "q_pos c < length (q_buf c)" by (simp add: q_rest_def)
    have ok: "request_ok cfg args" "list_all (request_ok cfg) later" using Cons.prems(3) by simp_all
    from input_round_stream [OF Cons.prems(1) False Cons.prems(2) ok(1) Cons.prems(4), of run, OF run] show ?thesis
    proof (elim disjE exE conjE)
      fix c' assume c': "input_round cfg run c = Some (InputBreak c')" "F \<noteq> []" "receiving c' (args # later) (q_rest c' @ F)"
        "outside c' = outside c" "q_pos c' \<le> length (q_buf c')" "length (q_rest c') < length (encode args)"
      then have "input_loop cfg run c = Some (InputBreak c')" using lt by (subst input_loop.simps) simp
      then show ?thesis using c' by (intro exI [of _ c'] exI [of _ "[]"] exI [of _ "args # later"]) simp
    next
      fix c' assume c': "input_round cfg run c = Some (InputNext c')" "receiving c' later (q_rest c' @ F)"
        "outside c' = outside (c\<lparr>q_executed := q_executed c @ [args]\<rparr>)" "q_pos c' \<le> length (q_buf c')"
      have step: "input_loop cfg run c = input_loop cfg run c'" using lt c'(1) by (subst input_loop.simps) simp
      have "accepting cfg (c\<lparr>q_executed := q_executed c @ [args]\<rparr>)" using Cons.prems(2) by (simp add: accepting_def)
      then have acc: "accepting cfg c'" using accepting_outside [OF c'(3)] by blast
      from Cons.IH [OF c'(2) acc ok(2) c'(4)] obtain c'' cmds1 cmds2 where c'': "input_loop cfg run c' = Some (InputBreak c'')"
        "later = cmds1 @ cmds2" "receiving c'' cmds2 (q_rest c'' @ F)" "outside c'' = outside (c'\<lparr>q_executed := q_executed c' @ cmds1\<rparr>)"
        "q_pos c'' \<le> length (q_buf c'')" "F = [] \<longrightarrow> cmds2 = []"
        "q_rest c'' = [] \<or> (\<exists>args \<in> set later. length (q_rest c'') < length (encode args))" by blast
      have "outside (c'\<lparr>q_executed := q_executed c' @ cmds1\<rparr>) = outside (c\<lparr>q_executed := q_executed c @ args # cmds1\<rparr>)"
        using c'(3) by (cases c; cases c'; simp add: outside_def)
      then show ?thesis using c'' step by (intro exI [of _ c''] exI [of _ "args # cmds1"] exI [of _ cmds2]) auto
    qed
  qed
qed

lemma processInputBuffer_stream:
  assumes "receiving c cmds (q_rest c @ F)" "accepting cfg c" "list_all (request_ok cfg) cmds" "q_pos c \<le> length (q_buf c)"
    and run: "\<And>args c. run args c = CommandOk c"
  shows "\<exists>c' cmds1 cmds2. processInputBuffer cfg run c = Some (Some c') \<and> cmds = cmds1 @ cmds2 \<and> receiving c' cmds2 (q_rest c' @ F) \<and>
    outside c' = outside (c\<lparr>q_executed := q_executed c @ cmds1\<rparr>) \<and> q_pos c' = 0 \<and> (F = [] \<longrightarrow> cmds2 = []) \<and>
    (q_buf c' = [] \<or> (\<exists>args \<in> set cmds. length (q_buf c') < length (encode args)))"
proof -
  from input_loop_stream [OF assms(1-4), of run, OF run] obtain c1 cmds1 cmds2 where
    c1: "input_loop cfg run c = Some (InputBreak c1)" "cmds = cmds1 @ cmds2" "receiving c1 cmds2 (q_rest c1 @ F)"
    "outside c1 = outside (c\<lparr>q_executed := q_executed c @ cmds1\<rparr>)" "q_pos c1 \<le> length (q_buf c1)" "F = [] \<longrightarrow> cmds2 = []"
    "q_rest c1 = [] \<or> (\<exists>args \<in> set cmds. length (q_rest c1) < length (encode args))" by blast
  define c' where "c' = (if q_pos c1 \<noteq> 0 then c1\<lparr>q_buf := q_rest c1, q_pos := 0\<rparr> else c1)"
  have rest: "q_rest c' = q_rest c1" "q_buf c' = q_rest c1" "q_pos c' = 0" "outside c' = outside c1" by (simp_all add: c'_def q_rest_def)
  have "receiving c' cmds2 S = receiving c1 cmds2 S" for S by (simp add: c'_def receiving_def awaiting_def pending_def)
  then have "receiving c' cmds2 (q_rest c' @ F)" using c1(3) rest(1) by simp
  moreover have "processInputBuffer cfg run c = Some (Some c')" using c1(1) by (simp add: processInputBuffer_def c'_def)
  ultimately show ?thesis using c1 rest by (intro exI [of _ c'] exI [of _ cmds1] exI [of _ cmds2]) simp
qed

text \<open>What a chunk adds to an incomplete request must fit the limit of the query buffer.\<close>

definition chunks_fit :: "qconfig \<Rightarrow> byte list list list \<Rightarrow> byte list list \<Rightarrow> bool" where
  "chunks_fit cfg cmds chunks \<longleftrightarrow>
     list_all (\<lambda>b. b \<noteq> [] \<and> list_all (\<lambda>args. length (encode args) + length b \<le> client_max_querybuf_len cfg) cmds) chunks"

lemma receiving_none: "receiving c [] S \<longleftrightarrow> q_reqtype c = None \<and> q_multibulklen c = 0 \<and> q_bulklen c = -1 \<and> q_argv c = [] \<and> S = []"
  by (auto simp: receiving_def)

lemma read_all_stream:
  assumes "receiving c cmds (q_buf c @ concat chunks)" "q_pos c = 0" "accepting cfg c" "list_all (request_ok cfg) cmds"
    "chunks_fit cfg all chunks" "set cmds \<subseteq> set all" "q_buf c = [] \<or> (\<exists>args \<in> set all. length (q_buf c) < length (encode args))"
    "chunks = [] \<Longrightarrow> cmds = []" and run: "\<And>args c. run args c = CommandOk c"
  shows "\<exists>c'. read_all cfg run chunks c = Some (Some c') \<and> outside c' = outside (c\<lparr>q_executed := q_executed c @ cmds\<rparr>) \<and>
    receiving c' [] [] \<and> q_buf c' = [] \<and> q_pos c' = 0"
  using assms(1-8)
proof (induction chunks arbitrary: c cmds)
  case Nil
  then show ?case by (intro exI [of _ c]) (simp add: receiving_none)
next
  case (Cons b bs)
  define c1 where "c1 = c\<lparr>q_buf := q_buf c @ b\<rparr>"
  have k1: "q_rest c1 = q_buf c @ b" "q_pos c1 \<le> length (q_buf c1)" "outside c1 = outside c" "q_executed c1 = q_executed c"
    using Cons.prems(2) by (simp_all add: c1_def q_rest_def)
  have "receiving c1 cmds S = receiving c cmds S" for S by (simp add: c1_def receiving_def awaiting_def pending_def)
  then have r1: "receiving c1 cmds (q_rest c1 @ concat bs)" using Cons.prems(1) k1(1) by simp
  have acc1: "accepting cfg c1" using Cons.prems(3) accepting_outside [OF k1(3)] by blast
  have fit: "b \<noteq> []" "chunks_fit cfg all bs" using Cons.prems(5) by (simp_all add: chunks_fit_def)
  have "\<exists>args \<in> set all. length (q_buf c) \<le> length (encode args)"
  proof (cases "cmds = []")
    case True
    then show ?thesis using Cons.prems(1) fit(1) by (simp add: receiving_none)
  next
    case False
    then show ?thesis using Cons.prems(6,7) by (cases cmds) (auto intro: less_imp_le)
  qed
  then have "length (q_buf c1) \<le> client_max_querybuf_len cfg"
    using Cons.prems(5) by (fastforce simp: c1_def chunks_fit_def list_all_iff)
  then have read: "readQueryFromClient cfg run b c = processInputBuffer cfg run c1"
    using fit(1) by (simp add: readQueryFromClient_def flip: c1_def)
  from processInputBuffer_stream [OF r1 acc1 Cons.prems(4) k1(2), of run, OF run] obtain c2 cmds1 cmds2 where
    c2: "processInputBuffer cfg run c1 = Some (Some c2)" "cmds = cmds1 @ cmds2" "receiving c2 cmds2 (q_rest c2 @ concat bs)"
    "outside c2 = outside (c1\<lparr>q_executed := q_executed c1 @ cmds1\<rparr>)" "q_pos c2 = 0" "concat bs = [] \<longrightarrow> cmds2 = []"
    "q_buf c2 = [] \<or> (\<exists>args \<in> set cmds. length (q_buf c2) < length (encode args))" by blast
  have acc2: "accepting cfg c2" using accepting_outside [OF c2(4)] acc1 by (simp add: accepting_def)
  have r2: "receiving c2 cmds2 (q_buf c2 @ concat bs)" using c2(3,5) by (simp add: q_rest_def)
  have ok2: "list_all (request_ok cfg) cmds2" "set cmds2 \<subseteq> set all" using Cons.prems(4,6) c2(2) by simp_all
  have buf2: "q_buf c2 = [] \<or> (\<exists>args \<in> set all. length (q_buf c2) < length (encode args))" using c2(7) Cons.prems(6) by blast
  have last: "cmds2 = []" if "bs = []" using c2(6) that by simp
  obtain c3 where c3: "read_all cfg run bs c2 = Some (Some c3)" "outside c3 = outside (c2\<lparr>q_executed := q_executed c2 @ cmds2\<rparr>)"
    "receiving c3 [] []" "q_buf c3 = []" "q_pos c3 = 0"
    using Cons.IH [OF r2 c2(5) acc2 ok2(1) fit(2) ok2(2) buf2 last] by blast
  have "outside (c2\<lparr>q_executed := q_executed c2 @ cmds2\<rparr>) = outside (c\<lparr>q_executed := q_executed c @ cmds\<rparr>)"
    using c2(2,4) k1(3) by (cases c; cases c1; cases c2; simp add: outside_def)
  then show ?case using c2(1) read c3 by (intro exI [of _ c3]) simp
qed

text \<open>
  C4: Requests survive the network.  Whatever non-empty pieces a sequence of requests in the RESP format
  is cut into, the successive reads execute exactly these requests, in order and with exactly their
  arguments (which may hold any bytes), and the parser is ready for the next request afterwards, with
  nothing left in the buffer.  No assertion of the parser fails and the client is not closed.
\<close>

theorem read_all_executes:
  assumes idle: "q_buf c = []" "q_pos c = 0" "q_reqtype c = None" "q_multibulklen c = 0" "q_bulklen c = -1" "q_argv c = []"
    and accepting: "accepting cfg c" and ok: "list_all (request_ok cfg) cmds" and fit: "chunks_fit cfg cmds chunks"
    and stream: "concat chunks = concat (map encode cmds)" and run: "\<And>args c. run args c = CommandOk c"
  shows "\<exists>c'. read_all cfg run chunks c = Some (Some c') \<and> q_executed c' = q_executed c @ cmds \<and> q_errors c' = q_errors c \<and>
    q_buf c' = [] \<and> q_pos c' = 0 \<and> q_reqtype c' = None \<and> q_multibulklen c' = 0 \<and> q_bulklen c' = -1 \<and> q_argv c' = [] \<and> accepting cfg c'"
proof -
  have "receiving c cmds (q_buf c @ concat chunks)" using idle stream by (simp add: receiving_def)
  moreover have "cmds = []" if "chunks = []" using stream that by (cases cmds) simp_all
  ultimately obtain c' where c': "read_all cfg run chunks c = Some (Some c')" "outside c' = outside (c\<lparr>q_executed := q_executed c @ cmds\<rparr>)"
    "receiving c' [] []" "q_buf c' = []" "q_pos c' = 0"
    using read_all_stream [of c cmds chunks cfg cmds run, OF _ idle(2) accepting ok fit order_refl _ _ run] idle(1) by blast
  have "accepting cfg c'" using accepting_outside [OF c'(2)] accepting by (simp add: accepting_def)
  then show ?thesis using c' outside_eqD [OF c'(2)] by (simp add: receiving_none)
qed

theorem read_all_executes_witness:
  "\<exists>c'. read_all default_config (\<lambda>args c. CommandOk c)
     [[42], [50, 13, 10, 36, 51, 13], [10, 71, 69, 84, 13, 10, 36, 50, 13, 10, 13], [0, 13, 10, 42, 49, 13, 10, 36, 48], [13, 10, 13, 10]] createClient = Some (Some c') \<and>
     q_executed c' = [[[71, 69, 84], [13, 0]], [[]]]"
proof -
  let ?cmds = "[[[71, 69, 84], [13, 0]], [[]]] :: byte list list list"
  let ?chunks = "[[42], [50, 13, 10, 36, 51, 13], [10, 71, 69, 84, 13, 10, 36, 50, 13, 10, 13], [0, 13, 10, 42, 49, 13, 10, 36, 48], [13, 10, 13, 10]] :: byte list list"
  have "list_all (request_ok default_config) ?cmds" by (simp add: request_ok_def default_config_def)
  moreover have enc: "encode (?cmds ! 0) = [42, 50, 13, 10, 36, 51, 13, 10, 71, 69, 84, 13, 10, 36, 50, 13, 10, 13, 0, 13, 10]"
    "encode (?cmds ! 1) = [42, 49, 13, 10, 36, 48, 13, 10, 13, 10]"
    by (simp_all add: encode_def bulk_def header_def CRLF_def dec_nat.simps)
  moreover have "chunks_fit default_config ?cmds ?chunks" using enc by (simp add: chunks_fit_def default_config_def)
  moreover have "accepting default_config createClient" by (simp add: accepting_def default_config_def createClient_def)
  ultimately show ?thesis
    using read_all_executes [of createClient default_config ?cmds ?chunks "\<lambda>args c. CommandOk c"] by (simp add: createClient_def) blast
qed

section \<open>Arbitrary input\<close>

text \<open>
  The states the parser can be in between two reads, whatever has been sent.  A stopped client is one
  whose input is not processed: the loop leaves such a client alone.
\<close>

definition stopped :: "qclient \<Rightarrow> bool" where
  "stopped c \<longleftrightarrow> q_blocked c \<or> q_pending_command c \<or> q_close_after_reply c \<or> q_close_asap c"

definition unparsed :: "qclient \<Rightarrow> bool" where
  "unparsed c \<longleftrightarrow> q_multibulklen c = 0 \<and> q_bulklen c = -1 \<and> q_argv c = []"

definition parser_inv :: "qclient \<Rightarrow> bool" where
  "parser_inv c \<longleftrightarrow> q_pos c \<le> length (q_buf c) \<and>
     (stopped c \<or>
      (case q_reqtype c of
         None \<Rightarrow> unparsed c
       | Some PROTO_REQ_INLINE \<Rightarrow> unparsed c
       | Some PROTO_REQ_MULTIBULK \<Rightarrow> unparsed c \<and> take 1 (q_rest c) = [42] \<or> q_multibulklen c > 0 \<and> q_bulklen c \<ge> -1))"

lemma strchr_less: "strchr p ch = Some n \<Longrightarrow> n < length p"
  by (induction p arbitrary: n) (auto split: if_splits)

lemma setProtocolError_simps [simp]:
  "stopped (setProtocolError e c)" "q_pos (setProtocolError e c) = q_pos c" "q_buf (setProtocolError e c) = q_buf c"
  by (simp_all add: setProtocolError_def stopped_def)

definition read_step_ok :: "qclient \<Rightarrow> bulk_step \<Rightarrow> bool" where
  "read_step_ok c r \<longleftrightarrow>
     (case r of
        BulkBreak c' \<Rightarrow> q_pos c' \<le> length (q_buf c') \<and> q_multibulklen c' = q_multibulklen c \<and> q_bulklen c' \<ge> -1 \<and>
          q_reqtype c' = q_reqtype c \<and> length (q_rest c') \<le> length (q_rest c)
      | BulkError c' \<Rightarrow> q_pos c' \<le> length (q_buf c') \<and> stopped c'
      | BulkNext c' \<Rightarrow> q_pos c' \<le> length (q_buf c') \<and> q_multibulklen c' = q_multibulklen c - 1 \<and> q_bulklen c' = -1 \<and>
          q_reqtype c' = q_reqtype c \<and> length (q_rest c') < length (q_rest c))"

lemma read_bulk_ok:
  assumes "q_pos c \<le> length (q_buf c)" "q_bulklen c \<ge> 0" shows "read_step_ok c (read_bulk c)"
  using assms by (auto simp: read_bulk_def read_step_ok_def q_rest_def)

lemma read_step_ok_trans:
  assumes "read_step_ok c' r" "q_multibulklen c' = q_multibulklen c" "q_reqtype c' = q_reqtype c" "length (q_rest c') \<le> length (q_rest c)"
  shows "read_step_ok c r"
  using assms by (auto simp: read_step_ok_def split: bulk_step.splits)

lemma bulk_round_ok:
  assumes pos: "q_pos c \<le> length (q_buf c)" and len: "q_bulklen c \<ge> -1" shows "read_step_ok c (bulk_round cfg c)"
proof (cases "q_bulklen c = -1")
  case False
  then show ?thesis using read_bulk_ok [OF pos] len by (simp add: bulk_round_def)
next
  case True
  show ?thesis
  proof (cases "strchr (q_rest c) 13")
    case None
    then show ?thesis using True pos by (simp add: bulk_round_def read_step_ok_def)
  next
    case (Some nl)
    define go where "go ll = (let c1 = c\<lparr>q_pos := q_pos c + nl + 2\<rparr>;
             c2 = (if ll \<ge> PROTO_MBULK_BIG_ARG \<and> int (length (q_buf c1) - q_pos c1) \<le> ll + 2 then c1\<lparr>q_buf := q_rest c1, q_pos := 0\<rparr> else c1)
           in read_bulk (c2\<lparr>q_bulklen := ll\<rparr>))" for ll
    have eq: "bulk_round cfg c = (if int nl > int (length (q_buf c) - q_pos c) - 2 then BulkBreak c
        else if q_rest c ! 0 \<noteq> 36 then BulkError (setProtocolError ''expected $ but got something else'' c)
        else (case string2ll (take (nl - 1) (drop 1 (q_rest c))) of
                None \<Rightarrow> BulkError (setProtocolError ''invalid bulk length'' c)
              | Some ll \<Rightarrow> if ll < 0 \<or> (\<not> q_master c \<and> ll > proto_max_bulk_len cfg)
                  then BulkError (setProtocolError ''invalid bulk length'' c) else go ll))"
      unfolding bulk_round_def go_def by (simp only: True Some if_True option.case refl)
    have break: "read_step_ok c (BulkBreak c)" "read_step_ok c (BulkError (setProtocolError e c))" for e
      using pos len by (simp_all add: read_step_ok_def)
    have read: "read_step_ok c (go ll)" if early: "int nl \<le> int (length (q_buf c) - q_pos c) - 2" and ll: "ll \<ge> 0" for ll
    proof -
      define c1 where "c1 = c\<lparr>q_pos := q_pos c + nl + 2\<rparr>"
      define c2 where "c2 = (if ll \<ge> PROTO_MBULK_BIG_ARG \<and> int (length (q_buf c1) - q_pos c1) \<le> ll + 2
                              then c1\<lparr>q_buf := q_rest c1, q_pos := 0\<rparr> else c1)"
      have "q_pos c2 \<le> length (q_buf c2)" "length (q_rest c2) \<le> length (q_rest c)"
        using early pos by (auto simp: c2_def c1_def q_rest_def)
      moreover have "q_multibulklen c2 = q_multibulklen c" "q_reqtype c2 = q_reqtype c" by (simp_all add: c2_def c1_def)
      moreover define c3 where "c3 = c2\<lparr>q_bulklen := ll\<rparr>"
      ultimately have "q_pos c3 \<le> length (q_buf c3)" "q_multibulklen c3 = q_multibulklen c" "q_reqtype c3 = q_reqtype c"
        "length (q_rest c3) \<le> length (q_rest c)" "q_bulklen c3 \<ge> 0"
        using ll by simp_all
      then have "read_step_ok c (read_bulk c3)" using read_bulk_ok read_step_ok_trans by blast
      moreover have "go ll = read_bulk c3" by (simp only: go_def Let_def c3_def c2_def c1_def)
      ultimately show ?thesis by simp
    qed
    show ?thesis unfolding eq using break read by (auto simp: not_less split: option.split)
  qed
qed

lemma bulk_loop_ok:
  assumes "q_pos c \<le> length (q_buf c)" "q_bulklen c \<ge> -1" "q_multibulklen c > 0" "bulk_loop cfg c = (c', err)"
  shows "q_pos c' \<le> length (q_buf c') \<and>
    (if err then stopped c'
     else if q_multibulklen c' = 0 then length (q_rest c') < length (q_rest c)
     else q_multibulklen c' > 0 \<and> q_bulklen c' \<ge> -1 \<and> q_reqtype c' = q_reqtype c)"
  using assms
proof (induction cfg c rule: bulk_loop.induct)
  case (1 cfg c)
  note ok = bulk_round_ok [OF "1.prems"(1,2), of cfg, unfolded read_step_ok_def]
  show ?case
  proof (cases "bulk_round cfg c")
    case (BulkNext d)
    then have d: "q_pos d \<le> length (q_buf d)" "q_multibulklen d = q_multibulklen c - 1" "q_bulklen d = -1"
      "q_reqtype d = q_reqtype c" "length (q_rest d) < length (q_rest c)" using ok by simp_all
    have loop: "bulk_loop cfg d = (c', err)" using "1.prems"(3,4) BulkNext by (subst (asm) bulk_loop.simps) simp
    show ?thesis
    proof (cases "q_multibulklen d = 0")
      case True
      then have "c' = d" "\<not> err" using loop by (simp_all add: bulk_loop.simps [of cfg d])
      then show ?thesis using d True by simp
    next
      case False
      then have "q_multibulklen d > 0" using d(2) "1.prems"(3) by simp
      then show ?thesis using "1.IH" [OF _ BulkNext d(1) _ _ loop] "1.prems"(3) d by (auto split: if_splits)
    qed
  qed (use ok "1.prems" in \<open>auto simp: bulk_loop.simps [of cfg c]\<close>)
qed

text \<open>A request is ready, some input having been consumed for it, or the client is in a proper state.\<close>

definition parse_ok :: "qclient \<Rightarrow> qclient \<times> bool \<Rightarrow> bool" where
  "parse_ok c r \<longleftrightarrow> (let (c', ready) = r in
     q_pos c' \<le> length (q_buf c') \<and> (if ready then length (q_rest c') < length (q_rest c) else parser_inv c'))"

lemma parse_ok_args:
  assumes "q_pos c \<le> length (q_buf c)" "q_bulklen c \<ge> -1" "q_multibulklen c > 0" "q_reqtype c = Some PROTO_REQ_MULTIBULK"
    "length (q_rest c) \<le> length (q_rest c0)"
  shows "parse_ok c0 (let (c', err) = bulk_loop cfg c in (c', \<not> err \<and> q_multibulklen c' = 0))"
proof -
  obtain c' err where loop: "bulk_loop cfg c = (c', err)" by fastforce
  from bulk_loop_ok [OF assms(1-3) loop] show ?thesis
    using assms(4,5) loop by (auto simp: parse_ok_def parser_inv_def split: if_splits)
qed

lemma processMultibulk_ok:
  assumes inv: "parser_inv c" "\<not> stopped c" "q_reqtype c = Some PROTO_REQ_MULTIBULK"
  shows "\<exists>r. processMultibulkBuffer cfg c = Some r \<and> parse_ok c r"
proof (cases "q_multibulklen c = 0")
  case False
  then have st: "q_pos c \<le> length (q_buf c)" "q_multibulklen c > 0" "q_bulklen c \<ge> -1" using inv by (auto simp: parser_inv_def unparsed_def)
  have "processMultibulkBuffer cfg c = Some (let (c', err) = bulk_loop cfg c in (c', \<not> err \<and> q_multibulklen c' = 0))"
    using False st(2) by (simp add: processMultibulkBuffer_def Let_def split: prod.split)
  then show ?thesis using parse_ok_args [OF st(1,3,2) inv(3) order_refl] by simp
next
  case True
  then have st: "q_pos c \<le> length (q_buf c)" "q_argv c = []" "q_bulklen c = -1" "take 1 (q_rest c) = [42]"
    using inv by (auto simp: parser_inv_def unparsed_def)
  then have hd: "q_rest c ! 0 = 42" by (cases "q_rest c") simp_all
  have stay: "parse_ok c (c, False)" "parse_ok c (setProtocolError e c, False)" for e
    using inv st by (simp_all add: parse_ok_def parser_inv_def)
  show ?thesis
  proof (cases "strchr (q_rest c) 13")
    case None
    then show ?thesis using True st stay by (simp add: processMultibulkBuffer_def)
  next
    case (Some nl)
    define c1 where "c1 = c\<lparr>q_pos := q_pos c + nl + 2\<rparr>"
    define args where "args ll = (let (c', err) = bulk_loop cfg (c1\<lparr>q_multibulklen := ll, q_argv_len_sum := 0\<rparr>)
      in (c', \<not> err \<and> q_multibulklen c' = 0))" for ll
    have eq: "processMultibulkBuffer cfg c = Some (if int nl > int (length (q_buf c) - q_pos c) - 2 then (c, False)
        else (case string2ll (take (nl - 1) (drop 1 (q_rest c))) of
                None \<Rightarrow> (setProtocolError ''invalid mbulk count'' c, False)
              | Some ll \<Rightarrow> if ll > 1024 * 1024 then (setProtocolError ''invalid mbulk count'' c, False)
                          else if ll \<le> 0 then (c1, True) else args ll))"
      using True st(1,2) Some hd unfolding processMultibulkBuffer_def args_def c1_def
      by (simp add: Let_def of_nat_diff split: option.split prod.split)
    have c1: "q_pos c1 \<le> length (q_buf c1)" "length (q_rest c1) < length (q_rest c)" if "int nl \<le> int (length (q_buf c) - q_pos c) - 2"
      using that st(1) by (auto simp: c1_def q_rest_def)
    have full: "parse_ok c (c1, True)" if "int nl \<le> int (length (q_buf c) - q_pos c) - 2" using c1 [OF that] by (simp add: parse_ok_def)
    have args: "parse_ok c (args ll)" if "int nl \<le> int (length (q_buf c) - q_pos c) - 2" "ll > 0" for ll
      unfolding args_def using c1 [OF that(1)] that(2) st(3) inv(3)
      by (intro parse_ok_args) (simp_all add: c1_def q_rest_def)
    show ?thesis unfolding eq using stay full args by (cases "string2ll (take (nl - 1) (drop 1 (q_rest c)))") (simp_all add: not_less not_le)
  qed
qed

lemma processInline_ok:
  assumes inv: "parser_inv c" shows "parse_ok c (processInlineBuffer c)"
proof (cases "strchr (q_rest c) 10")
  case None
  then show ?thesis using inv by (simp add: processInlineBuffer_def parse_ok_def parser_inv_def)
next
  case (Some nl)
  have pos: "q_pos c \<le> length (q_buf c)" using inv by (simp add: parser_inv_def)
  obtain newline lf where nl: "(if nl \<noteq> 0 \<and> q_rest c ! (nl - 1) = 13 then (nl - 1, 2) else (nl, 1 :: nat)) = (newline, lf)" by fastforce
  then have b: "newline + lf \<le> length (q_rest c)" "lf > 0" using strchr_less [OF Some] by (auto split: if_splits)
  have err: "parse_ok c (setProtocolError e c, False)" for e using pos by (simp add: parse_ok_def parser_inv_def)
  have ready: "parse_ok c (c\<lparr>q_pos := q_pos c + newline + lf, q_argv := a, q_argv_len_sum := n\<rparr>, True)" for a n
    using b pos by (auto simp: parse_ok_def q_rest_def)
  show ?thesis
    unfolding processInlineBuffer_def Some option.case nl Let_def prod.case using err ready by (simp split: option.split)
qed

text \<open>
  What is assumed of \<open>processCommand\<close>: it does not touch the query buffer, and a client it does not free
  but reports as not handled is one that is being closed (as \<open>QUIT\<close> does) or otherwise stopped.
\<close>

definition result_ok :: "qclient \<Rightarrow> command_result \<Rightarrow> bool" where
  "result_ok c r =
     (case r of
        CommandOk c' \<Rightarrow> q_buf c' = q_buf c \<and> q_pos c' = q_pos c
      | CommandErr c' \<Rightarrow> q_buf c' = q_buf c \<and> q_pos c' = q_pos c \<and> stopped c'
      | CommandFreed \<Rightarrow> True)"

lemma parser_inv_reset: "q_pos c \<le> length (q_buf c) \<Longrightarrow> parser_inv (resetClient c)"
  by (simp add: parser_inv_def unparsed_def resetClient_def)

lemma processCommandAndReset_ok:
  assumes pos: "q_pos c \<le> length (q_buf c)" and run: "\<And>args c. result_ok c (run args c)"
    and c': "processCommandAndResetClient run c = Some c'"
  shows "parser_inv c' \<and> q_rest c' = q_rest c"
proof -
  have ok: "result_ok (c\<lparr>q_executed := q_executed c @ [q_argv c]\<rparr>) (run (q_argv c) (c\<lparr>q_executed := q_executed c @ [q_argv c]\<rparr>))" by (rule run)
  have st: "parser_inv d" if "q_pos d = q_pos c" "q_buf d = q_buf c" "stopped d" for d using that pos by (simp add: parser_inv_def)
  have proc: "parser_inv (commandProcessed d) \<and> q_rest (commandProcessed d) = q_rest c" if "q_pos d = q_pos c" "q_buf d = q_buf c" for d
    using that pos parser_inv_reset [of d] st [of d] by (auto simp: commandProcessed_def stopped_def q_rest_def [of d] q_rest_def [of c])
  show ?thesis
    using ok c' proc st unfolding processCommandAndResetClient_def result_ok_def by (auto simp: q_rest_def split: command_result.splits)
qed

lemma input_round_ok:
  assumes inv: "parser_inv c" and ne: "q_rest c \<noteq> []" and run: "\<And>args c. result_ok c (run args c)"
  shows "\<exists>r. input_round cfg run c = Some r \<and>
    (case r of InputBreak c' \<Rightarrow> parser_inv c' | InputFreed \<Rightarrow> True | InputNext c' \<Rightarrow> parser_inv c' \<and> length (q_rest c') < length (q_rest c))"
proof (cases "stopped c \<or> lua_timedout cfg \<and> q_master c")
  case True
  then show ?thesis using inv by (simp add: input_round_def stopped_def) argo
next
  case False
  define c1 where "c1 = (if q_reqtype c = None
           then c\<lparr>q_reqtype := Some (if q_rest c ! 0 = 42 then PROTO_REQ_MULTIBULK else PROTO_REQ_INLINE)\<rparr> else c)"
  have c1: "\<not> stopped c1" "q_rest c1 = q_rest c" using False by (simp_all add: c1_def stopped_def)
  have "take 1 (q_rest c) = [q_rest c ! 0]" using ne by (cases "q_rest c") simp_all
  then have inv1: "parser_inv c1" using inv c1(2) False
    by (auto simp: parser_inv_def c1_def unparsed_def stopped_def split: option.splits)
  define r where "r = (if q_reqtype c1 = Some PROTO_REQ_INLINE then Some (processInlineBuffer c1) else processMultibulkBuffer cfg c1)"
  have t1: "q_reqtype c1 = Some PROTO_REQ_INLINE \<or> q_reqtype c1 = Some PROTO_REQ_MULTIBULK"
    by (cases "q_reqtype c"; cases "the (q_reqtype c)") (auto simp: c1_def)
  have "\<exists>p. r = Some p \<and> parse_ok c1 p"
    using t1 processInline_ok [OF inv1] processMultibulk_ok [OF inv1 c1(1)] by (cases "processInlineBuffer c1") (auto simp: r_def)
  then obtain c2 ready where c2: "r = Some (c2, ready)" "q_pos c2 \<le> length (q_buf c2)"
    "if ready then length (q_rest c2) < length (q_rest c) else parser_inv c2" unfolding parse_ok_def c1(2) Let_def by auto
  define gopher where "gopher \<longleftrightarrow> q_reqtype c1 = Some PROTO_REQ_INLINE \<and> gopher_enabled cfg \<and>
    (q_argv c2 = [] \<or> (length (q_argv c2) = 1 \<and> take 1 (hd (q_argv c2)) = [47]))"
  have go: "(q_blocked c \<or> q_pending_command c \<or> (lua_timedout cfg \<and> q_master c) \<or> q_close_after_reply c \<or> q_close_asap c) = False"
    using False by (auto simp: stopped_def)
  have eq: "input_round cfg run c = Some (if \<not> ready then InputBreak c2
        else if gopher then InputBreak ((resetClient (c2\<lparr>q_gopher := q_gopher c2 @ [q_argv c2]\<rparr>))\<lparr>q_close_after_reply := True\<rparr>)
        else if q_argv c2 = [] then InputNext (resetClient c2)
        else if q_pending_read c2 then InputBreak (c2\<lparr>q_pending_command := True\<rparr>)
        else (case processCommandAndResetClient run c2 of None \<Rightarrow> InputFreed | Some c3 \<Rightarrow> InputNext c3))"
    using c2(1) unfolding input_round_def go c1_def [symmetric] Let_def r_def [symmetric] gopher_def by simp
  have stop: "parser_inv ((resetClient (c2\<lparr>q_gopher := g\<rparr>))\<lparr>q_close_after_reply := True\<rparr>)" "parser_inv (c2\<lparr>q_pending_command := True\<rparr>)" for g
    using c2(2) by (simp_all add: parser_inv_def stopped_def)
  define good where "good r = (case r of InputBreak c' \<Rightarrow> parser_inv c' | InputFreed \<Rightarrow> True
      | InputNext c' \<Rightarrow> parser_inv c' \<and> length (q_rest c') < length (q_rest c))" for r
  have "good (InputBreak c2)" if "\<not> ready" using that c2(3) by (simp add: good_def)
  moreover have "good (InputBreak ((resetClient (c2\<lparr>q_gopher := g\<rparr>))\<lparr>q_close_after_reply := True\<rparr>))" "good (InputBreak (c2\<lparr>q_pending_command := True\<rparr>))" for g
    using stop by (simp_all add: good_def)
  moreover have "good (InputNext (resetClient c2))" if ready using that c2(3) parser_inv_reset [OF c2(2)] by (simp add: good_def)
  moreover have "good (case processCommandAndResetClient run c2 of None \<Rightarrow> InputFreed | Some c3 \<Rightarrow> InputNext c3)" if ready
    using that c2(3) processCommandAndReset_ok [OF c2(2), of run, OF run]
    by (cases "processCommandAndResetClient run c2") (simp_all add: good_def)
  ultimately show ?thesis unfolding eq good_def [symmetric] by simp
qed

lemma input_loop_total:
  assumes "parser_inv c" and run: "\<And>args c. result_ok c (run args c)"
  shows "\<exists>r. input_loop cfg run c = Some r \<and> (case r of InputBreak c' \<Rightarrow> parser_inv c' | _ \<Rightarrow> True)"
  using assms(1)
proof (induction "length (q_rest c)" arbitrary: c rule: less_induct)
  case less
  show ?case
  proof (cases "q_rest c = []")
    case True
    then show ?thesis using less.prems by (subst input_loop.simps) (simp add: q_rest_def)
  next
    case False
    then have lt: "q_pos c < length (q_buf c)" by (simp add: q_rest_def)
    from input_round_ok [OF less.prems False, of run, OF run] obtain r where r: "input_round cfg run c = Some r"
      "case r of InputBreak c' \<Rightarrow> parser_inv c' | InputFreed \<Rightarrow> True | InputNext c' \<Rightarrow> parser_inv c' \<and> length (q_rest c') < length (q_rest c)" by blast
    then show ?thesis using lt less.hyps by (subst input_loop.simps) (cases r; simp)
  qed
qed

lemma readQuery_total:
  assumes inv: "parser_inv c" and run: "\<And>args c. result_ok c (run args c)"
  shows "\<exists>r. readQueryFromClient cfg run b c = Some r \<and> (\<forall>c'. r = Some c' \<longrightarrow> parser_inv c')"
proof -
  have pos: "q_pos c \<le> length (q_buf c)" using inv by (simp add: parser_inv_def)
  define c1 where "c1 = c\<lparr>q_buf := q_buf c @ b\<rparr>"
  have "q_rest c1 = q_rest c @ b" using pos by (simp add: c1_def q_rest_def)
  moreover have "take 1 (xs @ ys) = [42]" if "take 1 xs = [42 :: byte]" for xs ys using that by (cases xs) simp_all
  ultimately have inv1: "parser_inv c1"
    using inv by (auto simp: parser_inv_def c1_def unparsed_def stopped_def split: option.splits request_type.splits)
  from input_loop_total [OF this, of run, OF run] obtain r where r: "input_loop cfg run c1 = Some r"
    "case r of InputBreak c' \<Rightarrow> parser_inv c' | _ \<Rightarrow> True" by blast
  have "parser_inv (if q_pos d \<noteq> 0 then d\<lparr>q_buf := q_rest d, q_pos := 0\<rparr> else d)" if "parser_inv d" for d
    using that by (auto simp: parser_inv_def unparsed_def stopped_def q_rest_def split: option.splits request_type.splits)
  then have "\<exists>r. processInputBuffer cfg run c1 = Some r \<and> (\<forall>c'. r = Some c' \<longrightarrow> parser_inv c')"
    using r by (cases r) (simp_all add: processInputBuffer_def)
  moreover have "parser_inv (d\<lparr>q_close_asap := True\<rparr>)" if "parser_inv d" for d using that by (simp add: parser_inv_def stopped_def)
  ultimately show ?thesis using inv inv1 by (simp add: readQueryFromClient_def Let_def flip: c1_def)
qed

text \<open>
  C5: No input can crash the parser or make it run forever.  Whatever bytes a client sends, in whatever
  pieces, and whatever the commands do to the client (as long as they leave the query buffer alone and a
  command that is reported as not handled leaves the client stopped), every read returns: no assertion of
  the parser fails, its loops end, and a client that still exists is again in a proper parsing state.
\<close>

theorem read_all_total:
  assumes "parser_inv c" and run: "\<And>args c. result_ok c (run args c)"
  shows "\<exists>r. read_all cfg run chunks c = Some r \<and> (\<forall>c'. r = Some c' \<longrightarrow> parser_inv c')"
  using assms(1)
proof (induction chunks arbitrary: c)
  case (Cons b bs)
  from readQuery_total [OF Cons.prems, of run, OF run] obtain r where r: "readQueryFromClient cfg run b c = Some r"
    "\<forall>c'. r = Some c' \<longrightarrow> parser_inv c'" by blast
  then show ?case using Cons.IH by (cases r) simp_all
qed simp

theorem read_all_total_witness:
  "\<exists>r. read_all default_config (\<lambda>args c. if args = [[81]] then CommandErr (c\<lparr>q_close_after_reply := True\<rparr>) else CommandOk c)
     [[42, 49, 13, 10, 36, 51, 13, 10, 80], [13, 13, 13, 42, 45, 13, 10], [0, 0, 10]] createClient = Some r \<and> (\<forall>c'. r = Some c' \<longrightarrow> parser_inv c')"
  by (rule read_all_total) (simp_all add: parser_inv_def unparsed_def createClient_def result_ok_def stopped_def)

end
