(* ===== verification/Transactions.thy ===== *)
theory Transactions
  imports Keyspace "HOL-Library.AList"
begin

text \<open>
  Transactions and optimistic locking, \<open>src/redis-6.2.0/src/multi.c\<close>, with the parts of \<open>server.c\<close> that
  queue, call and propagate commands.  The state is the transaction part of every client, the lists of
  watching clients of every key (the dictionaries \<open>watched_keys\<close> of the databases, together one
  association list by database and key), the data set and the commands sent to replicas and to the
  append-only file.  What a command does to the data set is the parameter \<open>run\<close>: it returns the new data,
  the new value of the counter \<open>server.dirty\<close> and the keys it signalled as modified.  \<open>acl\<close> is the check of
  permissions at execution time.  \<open>None\<close> is a failed assertion or a dangling pointer.  Monitors, the
  replication backlog and blocking commands are left out.
\<close>

section \<open>Model: clients and server\<close>

type_synonym wkey = "nat \<times> key"

datatype 'cmd queued = Plain 'cmd | Unwatch

datatype mreply = MOk | MQueued | MError string | MExecAbort | MNullArray | MArrayLen nat

record 'cmd mclient =
  m_db :: nat
  m_multi :: bool
  m_dirty_cas :: bool
  m_dirty_exec :: bool
  m_deny_blocking :: bool
  m_commands :: "'cmd queued list"
  m_cmd_flags :: u32
  m_cmd_inv_flags :: u32
  m_watched :: "wkey list"
  m_replies :: "mreply list"

datatype 'cmd propagated = PropMulti | PropCmd "'cmd queued" | PropExec

record ('cmd, 'd) mserver =
  ms_clients :: "nat \<rightharpoonup> 'cmd mclient"
  ms_watchers :: "(wkey \<times> nat list) list"
  ms_data :: 'd
  ms_dirty :: int
  ms_in_exec :: bool
  ms_propagate_in_transaction :: bool
  ms_propagated :: "'cmd propagated list"

type_synonym ('ctx, 'cmd, 'd) runner = "'ctx \<Rightarrow> 'cmd \<Rightarrow> int \<Rightarrow> 'd \<Rightarrow> ('d \<times> int \<times> wkey list) option"

definition upd_client :: "nat \<Rightarrow> ('cmd mclient \<Rightarrow> 'cmd mclient) \<Rightarrow> ('cmd, 'd) mserver \<Rightarrow> ('cmd, 'd) mserver option" where
  "upd_client cid f s = do { c \<leftarrow> ms_clients s cid; Some (s\<lparr>ms_clients := (ms_clients s)(cid \<mapsto> f c)\<rparr>) }"

definition add_mreply :: "nat \<Rightarrow> mreply \<Rightarrow> ('cmd, 'd) mserver \<Rightarrow> ('cmd, 'd) mserver option" where
  "add_mreply cid r = upd_client cid (\<lambda>c. c\<lparr>m_replies := m_replies c @ [r]\<rparr>)"

section \<open>Model: watched keys\<close>

definition watchForKey :: "nat \<Rightarrow> key \<Rightarrow> ('cmd, 'd) mserver \<Rightarrow> ('cmd, 'd) mserver option" where
  "watchForKey cid k s = do {
     c \<leftarrow> ms_clients s cid;
     let wk = (m_db c, k);
     if wk \<in> set (m_watched c) then Some s
     else do {
       let clients = (case map_of (ms_watchers s) wk of None \<Rightarrow> [] | Some clients \<Rightarrow> clients);
       let s1 = s\<lparr>ms_watchers := AList.update wk (clients @ [cid]) (ms_watchers s)\<rparr>;
       upd_client cid (\<lambda>c. c\<lparr>m_watched := m_watched c @ [wk]\<rparr>) s1
     }
   }"

text \<open>One round per watched key; \<open>listSearchKey\<close> must find the client in the list of the key.\<close>

fun unwatch_loop :: "nat \<Rightarrow> wkey list \<Rightarrow> (wkey \<times> nat list) list \<Rightarrow> (wkey \<times> nat list) list option" where
  "unwatch_loop cid [] w = Some w"
| "unwatch_loop cid (wk # wks) w = do {
     clients \<leftarrow> map_of w wk;
     require (cid \<in> set clients);
     let clients' = remove1 cid clients;
     unwatch_loop cid wks (if clients' = [] then AList.delete wk w else AList.update wk clients' w)
   }"

definition unwatchAllKeys :: "nat \<Rightarrow> ('cmd, 'd) mserver \<Rightarrow> ('cmd, 'd) mserver option" where
  "unwatchAllKeys cid s = do {
     c \<leftarrow> ms_clients s cid;
     if m_watched c = [] then Some s
     else do {
       w \<leftarrow> unwatch_loop cid (m_watched c) (ms_watchers s);
       upd_client cid (\<lambda>c. c\<lparr>m_watched := []\<rparr>) (s\<lparr>ms_watchers := w\<rparr>)
     }
   }"

fun mark_dirty :: "nat list \<Rightarrow> ('cmd, 'd) mserver \<Rightarrow> ('cmd, 'd) mserver option" where
  "mark_dirty [] s = Some s"
| "mark_dirty (cid # cids) s = do { s1 \<leftarrow> upd_client cid (\<lambda>c. c\<lparr>m_dirty_cas := True\<rparr>) s; mark_dirty cids s1 }"

definition touchWatchedKey :: "wkey \<Rightarrow> ('cmd, 'd) mserver \<Rightarrow> ('cmd, 'd) mserver option" where
  "touchWatchedKey wk s = (case map_of (ms_watchers s) wk of None \<Rightarrow> Some s | Some clients \<Rightarrow> mark_dirty clients s)"

fun touch_all :: "wkey list \<Rightarrow> ('cmd, 'd) mserver \<Rightarrow> ('cmd, 'd) mserver option" where
  "touch_all [] s = Some s"
| "touch_all (wk # wks) s = do { s1 \<leftarrow> touchWatchedKey wk s; touch_all wks s1 }"

text \<open>
  \<open>emptied\<close> and \<open>replaced_with\<close> are the database and the test whether it has a key.
\<close>

fun touch_db_loop :: "nat \<Rightarrow> (key \<Rightarrow> bool) \<Rightarrow> (key \<Rightarrow> bool) option \<Rightarrow> (wkey \<times> nat list) list \<Rightarrow> ('cmd, 'd) mserver \<Rightarrow> ('cmd, 'd) mserver option" where
  "touch_db_loop db emptied replaced [] s = Some s"
| "touch_db_loop db emptied replaced ((wk, clients) # w) s = do {
     s1 \<leftarrow> (if fst wk = db \<and> (emptied (snd wk) \<or> (case replaced of None \<Rightarrow> False | Some has \<Rightarrow> has (snd wk)))
            then mark_dirty clients s else Some s);
     touch_db_loop db emptied replaced w s1
   }"

definition touchAllWatchedKeysInDb :: "nat \<Rightarrow> (key \<Rightarrow> bool) \<Rightarrow> (key \<Rightarrow> bool) option \<Rightarrow> ('cmd, 'd) mserver \<Rightarrow> ('cmd, 'd) mserver option" where
  "touchAllWatchedKeysInDb db emptied replaced s = touch_db_loop db emptied replaced (ms_watchers s) s"

fun watch_loop :: "nat \<Rightarrow> key list \<Rightarrow> ('cmd, 'd) mserver \<Rightarrow> ('cmd, 'd) mserver option" where
  "watch_loop cid [] s = Some s"
| "watch_loop cid (k # ks) s = do { s1 \<leftarrow> watchForKey cid k s; watch_loop cid ks s1 }"

definition watchCommand :: "nat \<Rightarrow> key list \<Rightarrow> ('cmd, 'd) mserver \<Rightarrow> ('cmd, 'd) mserver option" where
  "watchCommand cid keys s = do {
     c \<leftarrow> ms_clients s cid;
     if m_multi c then add_mreply cid (MError ''WATCH inside MULTI is not allowed'') s
     else do { s1 \<leftarrow> watch_loop cid keys s; add_mreply cid MOk s1 }
   }"

definition unwatchCommand :: "nat \<Rightarrow> ('cmd, 'd) mserver \<Rightarrow> ('cmd, 'd) mserver option" where
  "unwatchCommand cid s = do {
     s1 \<leftarrow> unwatchAllKeys cid s;
     s2 \<leftarrow> upd_client cid (\<lambda>c. c\<lparr>m_dirty_cas := False\<rparr>) s1;
     add_mreply cid MOk s2
   }"

section \<open>Model: queueing\<close>

definition initClientMultiState :: "'cmd mclient \<Rightarrow> 'cmd mclient" where
  "initClientMultiState c = c\<lparr>m_commands := [], m_cmd_flags := 0, m_cmd_inv_flags := 0\<rparr>"

text \<open>The flags of a command are 64 bits wide, the accumulated flags are an \<open>int\<close>.\<close>

definition queueMultiCommand :: "('cmd queued \<Rightarrow> u64) \<Rightarrow> nat \<Rightarrow> 'cmd queued \<Rightarrow> ('cmd, 'd) mserver \<Rightarrow> ('cmd, 'd) mserver option" where
  "queueMultiCommand flags cid q s = do {
     c \<leftarrow> ms_clients s cid;
     if m_dirty_exec c then Some s
     else upd_client cid (\<lambda>c. c\<lparr>m_commands := m_commands c @ [q], m_cmd_flags := or (m_cmd_flags c) (ucast (flags q)),
            m_cmd_inv_flags := or (m_cmd_inv_flags c) (ucast (not (flags q)))\<rparr>) s
   }"

definition discardTransaction :: "nat \<Rightarrow> ('cmd, 'd) mserver \<Rightarrow> ('cmd, 'd) mserver option" where
  "discardTransaction cid s = do {
     s1 \<leftarrow> upd_client cid (\<lambda>c. (initClientMultiState c)\<lparr>m_multi := False, m_dirty_cas := False, m_dirty_exec := False\<rparr>) s;
     unwatchAllKeys cid s1
   }"

definition flagTransaction :: "nat \<Rightarrow> ('cmd, 'd) mserver \<Rightarrow> ('cmd, 'd) mserver option" where
  "flagTransaction cid s = upd_client cid (\<lambda>c. if m_multi c then c\<lparr>m_dirty_exec := True\<rparr> else c) s"

definition multiCommand :: "nat \<Rightarrow> ('cmd, 'd) mserver \<Rightarrow> ('cmd, 'd) mserver option" where
  "multiCommand cid s = do {
     c \<leftarrow> ms_clients s cid;
     if m_multi c then add_mreply cid (MError ''MULTI calls can not be nested'') s
     else do { s1 \<leftarrow> upd_client cid (\<lambda>c. c\<lparr>m_multi := True\<rparr>) s; add_mreply cid MOk s1 }
   }"

definition discardCommand :: "nat \<Rightarrow> ('cmd, 'd) mserver \<Rightarrow> ('cmd, 'd) mserver option" where
  "discardCommand cid s = do {
     c \<leftarrow> ms_clients s cid;
     if \<not> m_multi c then add_mreply cid (MError ''DISCARD without MULTI'') s
     else do { s1 \<leftarrow> discardTransaction cid s; add_mreply cid MOk s1 }
   }"

section \<open>Model: calling and propagating\<close>

definition beforePropagateMultiOrExec :: "bool \<Rightarrow> ('cmd, 'd) mserver \<Rightarrow> ('cmd, 'd) mserver option" where
  "beforePropagateMultiOrExec multi s =
     (if multi then do { require (\<not> ms_propagate_in_transaction s); Some (s\<lparr>ms_propagate_in_transaction := True\<rparr>) }
      else do { require (ms_propagate_in_transaction s); Some (s\<lparr>ms_propagate_in_transaction := False\<rparr>) })"

definition execCommandPropagateMulti :: "('cmd, 'd) mserver \<Rightarrow> ('cmd, 'd) mserver option" where
  "execCommandPropagateMulti s = do {
     s1 \<leftarrow> beforePropagateMultiOrExec True s;
     Some (s1\<lparr>ms_propagated := ms_propagated s1 @ [PropMulti]\<rparr>)
   }"

definition propagate :: "'cmd propagated \<Rightarrow> ('cmd, 'd) mserver \<Rightarrow> ('cmd, 'd) mserver option" where
  "propagate p s = do {
     s1 \<leftarrow> (if ms_in_exec s \<and> \<not> ms_propagate_in_transaction s then execCommandPropagateMulti s else Some s);
     Some (s1\<lparr>ms_propagated := ms_propagated s1 @ [p]\<rparr>)
   }"

text \<open>A command is propagated when the counter of changes has grown.\<close>

definition call_propagate :: "'cmd propagated \<Rightarrow> int \<Rightarrow> ('cmd, 'd) mserver \<Rightarrow> ('cmd, 'd) mserver option" where
  "call_propagate p dirty s = (if ms_dirty s - dirty > 0 then propagate p s else Some s)"

definition call :: "('ctx, 'cmd, 'd) runner \<Rightarrow> 'ctx \<Rightarrow> nat \<Rightarrow> 'cmd queued \<Rightarrow> ('cmd, 'd) mserver \<Rightarrow> ('cmd, 'd) mserver option" where
  "call run ctx cid q s = do {
     s1 \<leftarrow> (case q of
        Unwatch \<Rightarrow> unwatchCommand cid s
      | Plain cmd \<Rightarrow> do {
          (d, dirty, touched) \<leftarrow> run ctx cmd (ms_dirty s) (ms_data s);
          touch_all touched (s\<lparr>ms_data := d, ms_dirty := dirty\<rparr>)
        });
     call_propagate (PropCmd q) (ms_dirty s) s1
   }"

section \<open>Model: EXEC\<close>

fun exec_loop :: "('ctx, 'cmd, 'd) runner \<Rightarrow> (nat \<Rightarrow> 'cmd queued \<Rightarrow> bool) \<Rightarrow> (nat \<Rightarrow> 'ctx) \<Rightarrow> nat \<Rightarrow> nat \<Rightarrow> 'cmd queued list
    \<Rightarrow> ('cmd, 'd) mserver \<Rightarrow> ('cmd, 'd) mserver option" where
  "exec_loop run acl ctx cid j [] s = Some s"
| "exec_loop run acl ctx cid j (q # qs) s = do {
     s1 \<leftarrow> (if acl cid q then call run (ctx j) cid q s
            else add_mreply cid (MError ''NOPERM ACLs rules changed'') s);
     exec_loop run acl ctx cid (Suc j) qs s1
   }"

definition execCommand :: "('ctx, 'cmd, 'd) runner \<Rightarrow> (nat \<Rightarrow> 'cmd queued \<Rightarrow> bool) \<Rightarrow> (nat \<Rightarrow> 'ctx) \<Rightarrow> nat \<Rightarrow> ('cmd, 'd) mserver
    \<Rightarrow> ('cmd, 'd) mserver option" where
  "execCommand run acl ctx cid s = do {
     c \<leftarrow> ms_clients s cid;
     if \<not> m_multi c then add_mreply cid (MError ''EXEC without MULTI'') s
     else if m_dirty_cas c \<or> m_dirty_exec c then do {
       s1 \<leftarrow> add_mreply cid (if m_dirty_exec c then MExecAbort else MNullArray) s;
       discardTransaction cid s1
     }
     else do {
       s1 \<leftarrow> upd_client cid (\<lambda>c. c\<lparr>m_deny_blocking := True\<rparr>) s;
       s2 \<leftarrow> unwatchAllKeys cid s1;
       s3 \<leftarrow> add_mreply cid (MArrayLen (length (m_commands c))) (s2\<lparr>ms_in_exec := True\<rparr>);
       s4 \<leftarrow> exec_loop run acl ctx cid 0 (m_commands c) s3;
       s5 \<leftarrow> (if m_deny_blocking c then Some s4 else upd_client cid (\<lambda>c. c\<lparr>m_deny_blocking := False\<rparr>) s4);
       s6 \<leftarrow> discardTransaction cid s5;
       s7 \<leftarrow> (if ms_propagate_in_transaction s6 then beforePropagateMultiOrExec False (s6\<lparr>ms_dirty := ms_dirty s6 + 1\<rparr>) else Some s6);
       Some (s7\<lparr>ms_in_exec := False\<rparr>)
     }
   }"

definition execCommandAbort :: "nat \<Rightarrow> string \<Rightarrow> ('cmd, 'd) mserver \<Rightarrow> ('cmd, 'd) mserver option" where
  "execCommandAbort cid err s = do {
     s1 \<leftarrow> discardTransaction cid s;
     add_mreply cid (MError (''EXECABORT Transaction discarded because of: '' @ (if take 1 err = ''-'' then drop 1 err else err))) s1
   }"

section \<open>Model: processing a request\<close>

text \<open>
  The requests of clients: commands, the commands on transactions, a command that one of the checks of
  \<open>processCommand\<close> rejects, and closing the connection.
\<close>

datatype 'cmd request = ReqCmd "'cmd queued" | ReqMulti | ReqExec | ReqDiscard | ReqWatch "key list" | ReqReset | ReqRejected bool string | ReqClose

definition rejectCommand :: "nat \<Rightarrow> bool \<Rightarrow> string \<Rightarrow> ('cmd, 'd) mserver \<Rightarrow> ('cmd, 'd) mserver option" where
  "rejectCommand cid is_exec err s = do {
     s1 \<leftarrow> flagTransaction cid s;
     if is_exec then execCommandAbort cid err s1 else add_mreply cid (MError err) s1
   }"

definition process :: "('ctx, 'cmd, 'd) runner \<Rightarrow> (nat \<Rightarrow> 'cmd queued \<Rightarrow> bool) \<Rightarrow> ('cmd queued \<Rightarrow> u64) \<Rightarrow> (nat \<Rightarrow> 'ctx) \<Rightarrow> nat \<Rightarrow> 'cmd request
    \<Rightarrow> ('cmd, 'd) mserver \<Rightarrow> ('cmd, 'd) mserver option" where
  "process run acl flags ctx cid req s = do {
     c \<leftarrow> ms_clients s cid;
     (case req of
        ReqCmd q \<Rightarrow>
          if m_multi c then do { s1 \<leftarrow> queueMultiCommand flags cid q s; add_mreply cid MQueued s1 }
          else call run (ctx 0) cid q s
      | ReqMulti \<Rightarrow> multiCommand cid s
      | ReqExec \<Rightarrow> do { s1 \<leftarrow> execCommand run acl ctx cid s; call_propagate PropExec (ms_dirty s) s1 }
      | ReqDiscard \<Rightarrow> discardCommand cid s
      | ReqWatch keys \<Rightarrow> watchCommand cid keys s
      | ReqReset \<Rightarrow> do { s1 \<leftarrow> upd_client cid (\<lambda>c. c\<lparr>m_db := 0\<rparr>) s; s2 \<leftarrow> discardTransaction cid s1; add_mreply cid MOk s2 }
      | ReqRejected is_exec err \<Rightarrow> rejectCommand cid is_exec err s
      | ReqClose \<Rightarrow> do { s1 \<leftarrow> unwatchAllKeys cid s; Some (s1\<lparr>ms_clients := (ms_clients s1)(cid := None)\<rparr>) })
   }"

section \<open>The invariant of watched keys\<close>

declare split_paired_All [simp del] split_paired_Ex [simp del]

definition watchers_in :: "(wkey \<times> nat list) list \<Rightarrow> wkey \<Rightarrow> nat list" where
  "watchers_in w wk = (case map_of w wk of None \<Rightarrow> [] | Some cids \<Rightarrow> cids)"

definition watching :: "('cmd, 'd) mserver \<Rightarrow> nat \<Rightarrow> wkey list" where
  "watching s cid = (case ms_clients s cid of None \<Rightarrow> [] | Some c \<Rightarrow> m_watched c)"

definition dirty_cas :: "('cmd, 'd) mserver \<Rightarrow> nat \<Rightarrow> bool" where
  "dirty_cas s cid = (case ms_clients s cid of None \<Rightarrow> False | Some c \<Rightarrow> m_dirty_cas c)"

text \<open>The lists of the clients and the lists of the keys say the same.\<close>

definition watch_inv :: "('cmd, 'd) mserver \<Rightarrow> bool" where
  "watch_inv s \<longleftrightarrow>
     (\<forall>wk. distinct (watchers_in (ms_watchers s) wk) \<and> (\<forall>cid. cid \<in> set (watchers_in (ms_watchers s) wk) \<longleftrightarrow> wk \<in> set (watching s cid))) \<and>
     (\<forall>cid. distinct (watching s cid)) \<and> (\<forall>wk. map_of (ms_watchers s) wk \<noteq> Some [])"

lemma watchers_in_update [simp]: "watchers_in (AList.update wk cs w) wk' = (if wk' = wk then cs else watchers_in w wk')"
  by (simp add: watchers_in_def update_conv')

lemma watchers_in_delete [simp]: "watchers_in (AList.delete wk w) wk' = (if wk' = wk then [] else watchers_in w wk')"
  by (simp add: watchers_in_def delete_conv')

lemma watchers_in_ne: "cid \<in> set (watchers_in w wk) \<Longrightarrow> map_of w wk = Some (watchers_in w wk)"
  by (cases "map_of w wk") (simp_all add: watchers_in_def)

lemma upd_client_eq: "ms_clients s cid = Some c \<Longrightarrow> upd_client cid f s = Some (s\<lparr>ms_clients := (ms_clients s)(cid \<mapsto> f c)\<rparr>)"
  by (simp add: upd_client_def)

lemma add_mreply_same:
  assumes "add_mreply cid r s = Some s'"
  shows "watching s' = watching s" "dirty_cas s' = dirty_cas s" "ms_data s' = ms_data s" "ms_watchers s' = ms_watchers s"
    "ms_dirty s' = ms_dirty s" "ms_propagated s' = ms_propagated s" "ms_in_exec s' = ms_in_exec s"
    "ms_propagate_in_transaction s' = ms_propagate_in_transaction s"
proof -
  obtain c where c: "ms_clients s cid = Some c" "s' = s\<lparr>ms_clients := (ms_clients s)(cid \<mapsto> c\<lparr>m_replies := m_replies c @ [r]\<rparr>)\<rparr>"
    using assms by (auto simp: add_mreply_def upd_client_def bind_eq_Some_conv)
  then show "watching s' = watching s" "dirty_cas s' = dirty_cas s" "ms_data s' = ms_data s" "ms_watchers s' = ms_watchers s"
    "ms_dirty s' = ms_dirty s" "ms_propagated s' = ms_propagated s" "ms_in_exec s' = ms_in_exec s"
    "ms_propagate_in_transaction s' = ms_propagate_in_transaction s"
    by (auto simp: watching_def dirty_cas_def fun_eq_iff)
qed

lemma unwatch_loop_ok:
  assumes "distinct wks" "\<forall>wk \<in> set wks. cid \<in> set (watchers_in w wk)" "\<forall>wk. map_of w wk \<noteq> Some []"
  shows "\<exists>w'. unwatch_loop cid wks w = Some w' \<and>
    (\<forall>wk. watchers_in w' wk = (if wk \<in> set wks then remove1 cid (watchers_in w wk) else watchers_in w wk)) \<and> (\<forall>wk. map_of w' wk \<noteq> Some [])"
  using assms
proof (induction wks arbitrary: w)
  case (Cons wk wks)
  define cs where "cs = remove1 cid (watchers_in w wk)"
  define w1 where "w1 = (if cs = [] then AList.delete wk w else AList.update wk cs w)"
  have in1: "watchers_in w1 wk' = (if wk' = wk then cs else watchers_in w wk')" for wk' by (simp add: w1_def)
  have ne1: "\<forall>wk'. map_of w1 wk' \<noteq> Some []" using Cons.prems(3) by (simp add: w1_def delete_conv' update_conv')
  have "\<forall>wk' \<in> set wks. cid \<in> set (watchers_in w1 wk')" using Cons.prems(1,2) in1 by auto
  from Cons.IH [OF _ this ne1] Cons.prems(1) obtain w' where w': "unwatch_loop cid wks w1 = Some w'"
    "\<forall>wk'. watchers_in w' wk' = (if wk' \<in> set wks then remove1 cid (watchers_in w1 wk') else watchers_in w1 wk')" "\<forall>wk. map_of w' wk \<noteq> Some []" by auto
  have "unwatch_loop cid (wk # wks) w = unwatch_loop cid wks w1"
    using Cons.prems(2) watchers_in_ne [of cid w wk] by (simp add: w1_def cs_def Let_def)
  then show ?case using w' in1 Cons.prems(1) by (auto simp: cs_def)
qed simp

text \<open>What is left when a client gives up its watches.\<close>

definition unwatched :: "nat \<Rightarrow> 'cmd mclient option \<Rightarrow> ('cmd, 'd) mserver \<Rightarrow> ('cmd, 'd) mserver \<Rightarrow> bool" where
  "unwatched cid co s s' \<longleftrightarrow> ms_clients s' = (ms_clients s)(cid := co) \<and> ms_data s' = ms_data s \<and> ms_dirty s' = ms_dirty s \<and>
     ms_in_exec s' = ms_in_exec s \<and> ms_propagate_in_transaction s' = ms_propagate_in_transaction s \<and> ms_propagated s' = ms_propagated s \<and>
     (\<forall>wk. watchers_in (ms_watchers s') wk = remove1 cid (watchers_in (ms_watchers s) wk)) \<and> (\<forall>wk. map_of (ms_watchers s') wk \<noteq> Some [])"

lemma watch_invD:
  assumes "watch_inv s"
  shows "distinct (watchers_in (ms_watchers s) wk)" "cid \<in> set (watchers_in (ms_watchers s) wk) \<longleftrightarrow> wk \<in> set (watching s cid)"
    "distinct (watching s cid)" "map_of (ms_watchers s) wk \<noteq> Some []"
  using assms unfolding watch_inv_def by blast+

lemma unwatchAllKeys_ok:
  assumes inv: "watch_inv s" and c: "ms_clients s cid = Some c"
  shows "\<exists>s'. unwatchAllKeys cid s = Some s' \<and> unwatched cid (Some (c\<lparr>m_watched := []\<rparr>)) s s'"
proof (cases "m_watched c = []")
  case True
  then have "cid \<notin> set (watchers_in (ms_watchers s) wk)" for wk using watch_invD(2) [OF inv] c by (simp add: watching_def)
  moreover have "c\<lparr>m_watched := []\<rparr> = c" using True by (cases c) simp
  ultimately show ?thesis using c True watch_invD(4) [OF inv] by (simp add: unwatchAllKeys_def unwatched_def remove1_idem fun_upd_idem)
next
  case False
  have d: "distinct (m_watched c)" using watch_invD(3) [OF inv, of cid] c by (simp add: watching_def)
  have m: "cid \<in> set (watchers_in (ms_watchers s) wk) \<longleftrightarrow> wk \<in> set (m_watched c)" for wk
    using watch_invD(2) [OF inv, of cid wk] c by (simp add: watching_def)
  obtain w where w: "unwatch_loop cid (m_watched c) (ms_watchers s) = Some w"
    "\<forall>wk. watchers_in w wk = (if wk \<in> set (m_watched c) then remove1 cid (watchers_in (ms_watchers s) wk) else watchers_in (ms_watchers s) wk)"
    "\<forall>wk. map_of w wk \<noteq> Some []"
    using unwatch_loop_ok [OF d, of cid "ms_watchers s"] m watch_invD(4) [OF inv] by blast
  then have "unwatchAllKeys cid s = Some (s\<lparr>ms_watchers := w, ms_clients := (ms_clients s)(cid \<mapsto> c\<lparr>m_watched := []\<rparr>)\<rparr>)"
    using c False by (simp add: unwatchAllKeys_def upd_client_def)
  then show ?thesis using w m by (simp add: unwatched_def remove1_idem)
qed

lemma unwatched_inv:
  assumes inv: "watch_inv s" and u: "unwatched cid co s s'" and co: "co = None \<or> m_watched (the co) = []"
  shows "watch_inv s'" "watching s' cid' = (if cid' = cid then [] else watching s cid')"
proof -
  show w: "watching s' cid' = (if cid' = cid then [] else watching s cid')" for cid'
    using u co by (cases co) (auto simp: watching_def unwatched_def)
  have "set (watchers_in (ms_watchers s') wk) = set (watchers_in (ms_watchers s) wk) - {cid}" for wk
    using u watch_invD(1) [OF inv, of wk] by (simp add: unwatched_def)
  then show "watch_inv s'" using w u watch_invD [OF inv] by (auto simp: watch_inv_def unwatched_def distinct_remove1)
qed

lemma discardTransaction_ok:
  assumes inv: "watch_inv s" and c: "ms_clients s cid = Some c"
  shows "\<exists>s'. discardTransaction cid s = Some s' \<and>
    unwatched cid (Some (c\<lparr>m_commands := [], m_cmd_flags := 0, m_cmd_inv_flags := 0, m_multi := False, m_dirty_cas := False, m_dirty_exec := False, m_watched := []\<rparr>)) s s'"
proof -
  let ?c = "c\<lparr>m_commands := [], m_cmd_flags := 0, m_cmd_inv_flags := 0, m_multi := False, m_dirty_cas := False, m_dirty_exec := False\<rparr>"
  let ?s = "s\<lparr>ms_clients := (ms_clients s)(cid \<mapsto> ?c)\<rparr>"
  have "watching ?s = watching s" using c by (auto simp: watching_def fun_eq_iff)
  then have "watch_inv ?s" using inv by (simp add: watch_inv_def)
  from unwatchAllKeys_ok [OF this, of cid] obtain s' where "unwatchAllKeys cid ?s = Some s'" "unwatched cid (Some (?c\<lparr>m_watched := []\<rparr>)) ?s s'" by auto
  then show ?thesis using c by (auto simp: discardTransaction_def upd_client_def initClientMultiState_def unwatched_def)
qed

section \<open>Touching keys\<close>

text \<open>The state with the clients in \<open>X\<close> marked.\<close>

definition marked :: "nat set \<Rightarrow> ('cmd, 'd) mserver \<Rightarrow> ('cmd, 'd) mserver" where
  "marked X s = s\<lparr>ms_clients := (\<lambda>cid. map_option (\<lambda>c. if cid \<in> X then c\<lparr>m_dirty_cas := True\<rparr> else c) (ms_clients s cid))\<rparr>"

lemma marked_sel [simp]:
  "ms_watchers (marked X s) = ms_watchers s" "ms_data (marked X s) = ms_data s" "ms_dirty (marked X s) = ms_dirty s"
  "ms_in_exec (marked X s) = ms_in_exec s" "ms_propagate_in_transaction (marked X s) = ms_propagate_in_transaction s"
  "ms_propagated (marked X s) = ms_propagated s" "ms_clients (marked X s) cid = None \<longleftrightarrow> ms_clients s cid = None"
  by (simp_all add: marked_def)

lemma marked_watching [simp]: "watching (marked X s) = watching s"
  by (auto simp: watching_def marked_def fun_eq_iff split: option.splits)

lemma marked_dirty [simp]: "dirty_cas (marked X s) cid \<longleftrightarrow> dirty_cas s cid \<or> cid \<in> X \<and> ms_clients s cid \<noteq> None"
  by (auto simp: dirty_cas_def marked_def split: option.splits)

lemma marked_marked [simp]: "marked X (marked Y s) = marked (X \<union> Y) s"
proof -
  have "ms_clients (marked X (marked Y s)) cid = ms_clients (marked (X \<union> Y) s) cid" for cid
    by (cases "ms_clients s cid") (simp_all add: marked_def)
  then show ?thesis by (simp add: marked_def fun_eq_iff)
qed

lemma marked_empty [simp]: "marked {} s = s"
  by (simp add: marked_def option.map_ident)

lemma marked_inv [simp]: "watch_inv (marked X s) = watch_inv s"
  by (simp add: watch_inv_def)

lemma mark_dirty_ok: "\<forall>cid \<in> set cids. ms_clients s cid \<noteq> None \<Longrightarrow> mark_dirty cids s = Some (marked (set cids) s)"
proof (induction cids arbitrary: s)
  case (Cons cid cids)
  then obtain c where c: "ms_clients s cid = Some c" by auto
  then have "upd_client cid (\<lambda>c. c\<lparr>m_dirty_cas := True\<rparr>) s = Some (marked {cid} s)"
    by (auto simp: upd_client_def marked_def fun_eq_iff option.map_ident)
  then show ?case using Cons.IH [of "marked {cid} s"] Cons.prems by simp
qed simp

lemma watchers_exist: "watch_inv s \<Longrightarrow> cid \<in> set (watchers_in (ms_watchers s) wk) \<Longrightarrow> ms_clients s cid \<noteq> None"
  using watch_invD(2) [of s cid wk] by (cases "ms_clients s cid") (simp_all add: watching_def)

lemma touchWatchedKey_ok:
  assumes "watch_inv s" shows "touchWatchedKey wk s = Some (marked (set (watchers_in (ms_watchers s) wk)) s)"
  using assms watchers_exist [OF assms, of _ wk] mark_dirty_ok [of "watchers_in (ms_watchers s) wk" s]
  by (cases "map_of (ms_watchers s) wk") (simp_all add: touchWatchedKey_def watchers_in_def)

text \<open>
  After signalling, exactly the clients that watch one of the keys have been marked.\<close>

lemma touch_all_ok:
  "watch_inv s \<Longrightarrow> touch_all wks s = Some (marked {cid. \<exists>wk \<in> set wks. wk \<in> set (watching s cid)} s)"
proof (induction wks arbitrary: s)
  case (Cons wk wks)
  have X: "set (watchers_in (ms_watchers s) wk) = {cid. wk \<in> set (watching s cid)}" using watch_invD(2) [OF Cons.prems, of _ wk] by blast
  have "{cid. \<exists>wk \<in> set wks. wk \<in> set (watching s cid)} \<union> {cid. wk \<in> set (watching s cid)} = {cid. \<exists>wk' \<in> set (wk # wks). wk' \<in> set (watching s cid)}" by auto
  then show ?case using Cons.IH [of "marked {cid. wk \<in> set (watching s cid)} s"] Cons.prems touchWatchedKey_ok [OF Cons.prems, of wk]
    by (simp add: X)
qed simp

lemma touch_db_loop_ok:
  assumes "\<forall>(wk, cids) \<in> set w. \<forall>cid \<in> set cids. ms_clients s cid \<noteq> None"
  shows "touch_db_loop db emptied replaced w s = Some (marked
    {cid. \<exists>k cids. ((db, k), cids) \<in> set w \<and> cid \<in> set cids \<and> (emptied k \<or> (case replaced of None \<Rightarrow> False | Some has \<Rightarrow> has k))} s)"
  using assms
proof (induction w arbitrary: s)
  case (Cons p w)
  obtain d k cids where p: "p = ((d, k), cids)" by (metis prod.exhaust)
  let ?hit = "d = db \<and> (emptied k \<or> (case replaced of None \<Rightarrow> False | Some has \<Rightarrow> has k))"
  let ?s = "if ?hit then marked (set cids) s else s"
  have ex: "\<forall>cid \<in> set cids. ms_clients s cid \<noteq> None" using Cons.prems p by auto
  have "\<forall>(wk, cids) \<in> set w. \<forall>cid \<in> set cids. ms_clients ?s cid \<noteq> None" using Cons.prems by (auto simp del: not_None_eq)
  note IH = Cons.IH [OF this]
  show ?case
  proof (cases ?hit)
    case True
    then have "touch_db_loop db emptied replaced (p # w) s = touch_db_loop db emptied replaced w (marked (set cids) s)"
      using mark_dirty_ok [OF ex] p by (cases replaced) auto
    then show ?thesis using IH True p by (auto intro!: arg_cong [of _ _ "\<lambda>X. marked X s"])
  next
    case False
    then have "touch_db_loop db emptied replaced (p # w) s = touch_db_loop db emptied replaced w s" using p by (cases replaced) auto
    then show ?thesis using IH False p by (auto intro!: arg_cong [of _ _ "\<lambda>X. marked X s"])
  qed
qed simp

section \<open>Adding watches\<close>

definition grows :: "('cmd, 'd) mserver \<Rightarrow> ('cmd, 'd) mserver \<Rightarrow> bool" where
  "grows s s' \<longleftrightarrow> watch_inv s' \<and> ms_data s' = ms_data s \<and> dirty_cas s' = dirty_cas s \<and> (\<forall>cid. set (watching s cid) \<subseteq> set (watching s' cid))"

lemma watchForKey_grows:
  assumes inv: "watch_inv s" and run: "watchForKey cid k s = Some s'" shows "grows s s'"
proof -
  obtain c where c: "ms_clients s cid = Some c" using run by (auto simp: watchForKey_def bind_eq_Some_conv)
  define wk where "wk = (m_db c, k)"
  show ?thesis
  proof (cases "wk \<in> set (m_watched c)")
    case True
    then show ?thesis using run c inv by (simp add: watchForKey_def grows_def wk_def)
  next
    case False
    have s': "s' = s\<lparr>ms_watchers := AList.update wk (watchers_in (ms_watchers s) wk @ [cid]) (ms_watchers s),
        ms_clients := (ms_clients s)(cid \<mapsto> c\<lparr>m_watched := m_watched c @ [wk]\<rparr>)\<rparr>"
      using run c False by (simp add: watchForKey_def upd_client_def watchers_in_def wk_def Let_def)
    have w: "watching s' cid' = (if cid' = cid then m_watched c @ [wk] else watching s cid')" for cid' by (simp add: s' watching_def)
    have wc: "watching s cid = m_watched c" using c by (simp add: watching_def)
    note i = watch_invD [OF inv]
    have win: "watchers_in (ms_watchers s') wk' = (if wk' = wk then watchers_in (ms_watchers s) wk @ [cid] else watchers_in (ms_watchers s) wk')" for wk'
      by (simp add: s')
    have "watch_inv s'" unfolding watch_inv_def
    proof (intro conjI allI)
      fix wk' show "distinct (watchers_in (ms_watchers s') wk')" using i(1) [of wk'] i(2) [of cid wk] False wc by (cases "wk' = wk") (simp_all add: win)
      fix cid' show "(cid' \<in> set (watchers_in (ms_watchers s') wk')) = (wk' \<in> set (watching s' cid'))" using i(2) [of cid' wk'] wc by (auto simp: win w)
    next
      fix cid' show "distinct (watching s' cid')" using i(3) [of cid'] False wc by (cases "cid' = cid") (simp_all add: w)
    next
      fix wk' show "map_of (ms_watchers s') wk' \<noteq> Some []" using i(4) by (simp add: s' update_conv')
    qed
    moreover have "dirty_cas s' = dirty_cas s" using c by (auto simp: s' dirty_cas_def fun_eq_iff)
    ultimately show ?thesis using w wc by (simp add: grows_def s' subset_insertI)
  qed
qed

lemma grows_trans: "grows s t \<Longrightarrow> grows t u \<Longrightarrow> grows s u"
  by (simp add: grows_def) blast

lemma watch_loop_grows: "watch_inv s \<Longrightarrow> watch_loop cid ks s = Some s' \<Longrightarrow> grows s s'"
proof (induction ks arbitrary: s)
  case (Cons k ks)
  then obtain s1 where s1: "watchForKey cid k s = Some s1" "watch_loop cid ks s1 = Some s'" by (auto simp: bind_eq_Some_conv)
  have g: "grows s s1" using watchForKey_grows [OF Cons.prems(1) s1(1)] .
  then show ?case using Cons.IH [OF _ s1(2)] grows_trans [OF g] by (auto simp: grows_def)
qed (simp add: grows_def)

text \<open>Sequences of requests, of any clients, at each point of which the client \<open>cid\<close> watches the key \<open>wk\<close>.\<close>

inductive watched_path :: "('ctx, 'cmd, 'd) runner \<Rightarrow> (nat \<Rightarrow> 'cmd queued \<Rightarrow> bool) \<Rightarrow> ('cmd queued \<Rightarrow> u64) \<Rightarrow> nat \<Rightarrow> wkey
    \<Rightarrow> ('cmd, 'd) mserver \<Rightarrow> ('cmd, 'd) mserver \<Rightarrow> bool"
  for run acl flags cid wk where
  start: "wk \<in> set (watching s cid) \<Longrightarrow> watched_path run acl flags cid wk s s"
| step: "watched_path run acl flags cid wk s t \<Longrightarrow> process run acl flags ctx cid' req t = Some u \<Longrightarrow> wk \<in> set (watching u cid)
    \<Longrightarrow> watched_path run acl flags cid wk s u"

text \<open>
  The states of an \<open>EXEC\<close> that executes.\<close>

lemma exec_steps:
  assumes "execCommand run acl ctx cid s = Some s'" "ms_clients s cid = Some c" "m_multi c" "\<not> (m_dirty_cas c \<or> m_dirty_exec c)"
  obtains s1 s2 s3 s4 s5 s6 s7 where
    "upd_client cid (\<lambda>c. c\<lparr>m_deny_blocking := True\<rparr>) s = Some s1" "unwatchAllKeys cid s1 = Some s2"
    "add_mreply cid (MArrayLen (length (m_commands c))) (s2\<lparr>ms_in_exec := True\<rparr>) = Some s3"
    "exec_loop run acl ctx cid 0 (m_commands c) s3 = Some s4"
    "(if m_deny_blocking c then Some s4 else upd_client cid (\<lambda>c. c\<lparr>m_deny_blocking := False\<rparr>) s4) = Some s5"
    "discardTransaction cid s5 = Some s6"
    "(if ms_propagate_in_transaction s6 then beforePropagateMultiOrExec False (s6\<lparr>ms_dirty := ms_dirty s6 + 1\<rparr>) else Some s6) = Some s7"
    "s' = s7\<lparr>ms_in_exec := False\<rparr>"
  using assms by (auto simp: execCommand_def bind_eq_Some_conv)

section \<open>The contract of the commands\<close>

text \<open>
  What transactions need of the commands: one that runs keeps the invariant \<open>ok\<close> of the data and signals
  every key whose content it changes.
\<close>

locale signalling =
  fixes run :: "('ctx, 'cmd, 'd) runner" and content_of :: "'d \<Rightarrow> wkey \<Rightarrow> 'v" and ok :: "'d \<Rightarrow> bool"
  assumes run_law: "ok d \<Longrightarrow> run ctx cmd dirty d = Some (d', dirty', touched) \<Longrightarrow>
    ok d' \<and> (\<forall>wk. wk \<notin> set touched \<longrightarrow> content_of d' wk = content_of d wk)"
begin

text \<open>
  What a step may do, short of adding watches: watches are given up but not exchanged, a mark stays as long
  as there are watches, and the content of a key watched by an unmarked client is unchanged.
\<close>

definition advances :: "('cmd, 'd) mserver \<Rightarrow> ('cmd, 'd) mserver \<Rightarrow> bool" where
  "advances s s' \<longleftrightarrow> watch_inv s' \<and> ok (ms_data s') \<and>
     (\<forall>cid. set (watching s' cid) \<subseteq> set (watching s cid) \<and>
       (watching s' cid \<noteq> [] \<and> dirty_cas s cid \<longrightarrow> dirty_cas s' cid) \<and>
       (\<forall>wk \<in> set (watching s' cid). \<not> dirty_cas s' cid \<longrightarrow> content_of (ms_data s') wk = content_of (ms_data s) wk))"

lemma advances_refl: "watch_inv s \<Longrightarrow> ok (ms_data s) \<Longrightarrow> advances s s"
  by (simp add: advances_def)

lemma advances_trans:
  assumes "advances s t" "advances t u" shows "advances s u"
  unfolding advances_def
proof (intro conjI allI ballI impI)
  note a = assms(1) [unfolded advances_def] and b = assms(2) [unfolded advances_def]
  show "watch_inv u" "ok (ms_data u)" using b by blast+
  fix cid
  show "set (watching u cid) \<subseteq> set (watching s cid)" using a b by blast
  show "dirty_cas u cid" if d: "watching u cid \<noteq> [] \<and> dirty_cas s cid"
  proof -
    have "watching t cid \<noteq> []" using b d by fastforce
    then show ?thesis using a b d by blast
  qed
  fix wk assume wk: "wk \<in> set (watching u cid)" "\<not> dirty_cas u cid"
  have t: "wk \<in> set (watching t cid)" using b wk by blast
  have "watching u cid \<noteq> []" using wk(1) by auto
  then have "\<not> dirty_cas t cid" using b wk(2) by blast
  then show "content_of (ms_data u) wk = content_of (ms_data s) wk" using a b t wk by fastforce
qed

lemma advances_same:
  assumes "watch_inv s" "ok (ms_data s)" "ms_watchers s' = ms_watchers s" "ms_data s' = ms_data s" "watching s' = watching s" "dirty_cas s' = dirty_cas s"
  shows "advances s s'"
  using assms by (simp add: advances_def watch_inv_def)

lemma advances_upd:
  assumes inv: "watch_inv s" "ok (ms_data s)" and run: "upd_client cid f s = Some s'"
    and f: "\<And>c. m_watched (f c) = m_watched c" "\<And>c. m_dirty_cas (f c) = m_dirty_cas c"
  shows "advances s s'"
proof -
  have s': "s' = s\<lparr>ms_clients := (ms_clients s)(cid \<mapsto> f (the (ms_clients s cid)))\<rparr>" "ms_clients s cid \<noteq> None"
    using run by (auto simp: upd_client_def bind_eq_Some_conv)
  have "watching s' = watching s" "dirty_cas s' = dirty_cas s" using s' f by (auto simp: watching_def dirty_cas_def fun_eq_iff)
  then show ?thesis using inv s'(1) by (intro advances_same) simp_all
qed

lemma advances_reply: "watch_inv s \<Longrightarrow> ok (ms_data s) \<Longrightarrow> add_mreply cid r s = Some s' \<Longrightarrow> advances s s'"
  unfolding add_mreply_def by (erule (2) advances_upd) simp_all

lemma advances_unwatched:
  assumes inv: "watch_inv s" "ok (ms_data s)" and u: "unwatched cid co s s'" and co: "co = None \<or> m_watched (the co) = []"
  shows "advances s s'"
proof -
  note w = unwatched_inv [OF inv(1) u co]
  have d: "ms_data s' = ms_data s" "dirty_cas s' cid' = dirty_cas s cid'" if "cid' \<noteq> cid" for cid'
    using u that by (simp_all add: unwatched_def dirty_cas_def)
  have "ms_data s' = ms_data s" using u by (simp add: unwatched_def)
  then show ?thesis using w d inv(2) by (auto simp: advances_def)
qed

lemma advancesD: "advances s s' \<Longrightarrow> watch_inv s'" "advances s s' \<Longrightarrow> ok (ms_data s')"
  by (simp_all add: advances_def)

lemma advances_bind:
  assumes "bind (f s) g = Some u" "\<And>t. f s = Some t \<Longrightarrow> advances s t" "\<And>t. f s = Some t \<Longrightarrow> g t = Some u \<Longrightarrow> advances s t \<Longrightarrow> advances t u"
  shows "advances s u"
  using assms advances_trans by (auto simp: bind_eq_Some_conv)

lemma advances_unwatchAllKeys: "watch_inv s \<Longrightarrow> ok (ms_data s) \<Longrightarrow> unwatchAllKeys cid s = Some s' \<Longrightarrow> advances s s'"
proof -
  assume a: "watch_inv s" "ok (ms_data s)" "unwatchAllKeys cid s = Some s'"
  then obtain c where c: "ms_clients s cid = Some c" by (auto simp: unwatchAllKeys_def bind_eq_Some_conv)
  then have "unwatched cid (Some (c\<lparr>m_watched := []\<rparr>)) s s'" using unwatchAllKeys_ok [OF a(1) c] a(3) by auto
  then show ?thesis using advances_unwatched [OF a(1,2)] by fastforce
qed

lemma advances_discard: "watch_inv s \<Longrightarrow> ok (ms_data s) \<Longrightarrow> discardTransaction cid s = Some s' \<Longrightarrow> advances s s'"
proof -
  assume a: "watch_inv s" "ok (ms_data s)" "discardTransaction cid s = Some s'"
  then obtain c where c: "ms_clients s cid = Some c" by (auto simp: discardTransaction_def upd_client_def bind_eq_Some_conv)
  show ?thesis using discardTransaction_ok [OF a(1) c] a(3) advances_unwatched [OF a(1,2)] by fastforce
qed

lemma advances_unwatchCommand:
  assumes inv: "watch_inv s" "ok (ms_data s)" and run: "unwatchCommand cid s = Some s'" shows "advances s s'"
proof -
  obtain s1 c where s1: "unwatchAllKeys cid s = Some s1" "ms_clients s1 cid = Some c"
    and s': "add_mreply cid MOk (s1\<lparr>ms_clients := (ms_clients s1)(cid \<mapsto> c\<lparr>m_dirty_cas := False\<rparr>)\<rparr>) = Some s'" (is "add_mreply _ _ ?s2 = _")
    using run by (auto simp: unwatchCommand_def upd_client_def bind_eq_Some_conv)
  obtain c0 where c0: "ms_clients s cid = Some c0" using s1(1) by (auto simp: unwatchAllKeys_def bind_eq_Some_conv)
  have u: "unwatched cid (Some (c0\<lparr>m_watched := []\<rparr>)) s s1" using unwatchAllKeys_ok [OF inv(1) c0] s1(1) by auto
  then have "c = c0\<lparr>m_watched := []\<rparr>" using s1(2) by (simp add: unwatched_def)
  then have "unwatched cid (Some (c\<lparr>m_dirty_cas := False\<rparr>)) s ?s2" using u by (simp add: unwatched_def)
  then have "advances s ?s2" using \<open>c = _\<close> by (intro advances_unwatched [OF inv]) auto
  then show ?thesis using advances_reply [OF _ _ s'] advancesD advances_trans by blast
qed

lemma advances_propagate:
  assumes "watch_inv s" "ok (ms_data s)" "call_propagate p dirty s = Some s'" shows "advances s s'"
  using assms by (intro advances_same)
    (auto simp: call_propagate_def propagate_def execCommandPropagateMulti_def beforePropagateMultiOrExec_def bind_eq_Some_conv watching_def dirty_cas_def fun_eq_iff
      split: if_splits)

lemma advances_call:
  assumes inv: "watch_inv s" "ok (ms_data s)" and c: "call run ctx cid q s = Some s'" shows "advances s s'"
proof -
  obtain s1 where body: "(case q of
        Unwatch \<Rightarrow> unwatchCommand cid s
      | Plain cmd \<Rightarrow> do {
          (d, dirty, touched) \<leftarrow> run ctx cmd (ms_dirty s) (ms_data s);
          touch_all touched (s\<lparr>ms_data := d, ms_dirty := dirty\<rparr>)
        }) = Some s1" and pr: "call_propagate (PropCmd q) (ms_dirty s) s1 = Some s'"
    using c by (auto simp: call_def bind_eq_Some_conv)
  have "advances s s1"
  proof (cases q)
    case Unwatch
    then show ?thesis using body advances_unwatchCommand [OF inv] by simp
  next
    case (Plain cmd)
    then obtain d dirty touched where r: "run ctx cmd (ms_dirty s) (ms_data s) = Some (d, dirty, touched)"
      and t: "touch_all touched (s\<lparr>ms_data := d, ms_dirty := dirty\<rparr>) = Some s1"
      using body by (auto simp: bind_eq_Some_conv)
    let ?s = "s\<lparr>ms_data := d, ms_dirty := dirty\<rparr>"
    have w: "watching ?s = watching s" "dirty_cas ?s = dirty_cas s" by (simp_all add: watching_def dirty_cas_def fun_eq_iff)
    have "watch_inv ?s" using inv(1) w by (simp add: watch_inv_def)
    then have s1: "s1 = marked {cid. \<exists>wk \<in> set touched. wk \<in> set (watching s cid)} ?s" using touch_all_ok [of ?s touched] t w by simp
    have law: "ok d" "\<And>wk. wk \<notin> set touched \<Longrightarrow> content_of d wk = content_of (ms_data s) wk" using run_law [OF inv(2) r] by auto
    have "ms_clients s cid' \<noteq> None" if "watching s cid' \<noteq> []" for cid' using that by (auto simp: watching_def split: option.splits)
    then show ?thesis using law w inv(1) \<open>watch_inv ?s\<close> unfolding s1 advances_def
      by (auto simp del: not_None_eq) (metis empty_iff list.set(1))
  qed
  then show ?thesis using advances_propagate [OF _ _ pr] advancesD advances_trans by blast
qed

lemma advances_exec_loop:
  "watch_inv s \<Longrightarrow> ok (ms_data s) \<Longrightarrow> exec_loop run acl ctx cid j qs s = Some s' \<Longrightarrow> advances s s'"
proof (induction qs arbitrary: j s)
  case (Cons q qs)
  from Cons.prems(3) obtain s1 where s1: "(if acl cid q then call run (ctx j) cid q s else add_mreply cid (MError ''NOPERM ACLs rules changed'') s) = Some s1"
    and l: "exec_loop run acl ctx cid (Suc j) qs s1 = Some s'" by (auto simp: bind_eq_Some_conv)
  have "advances s s1" using s1 advances_call [OF Cons.prems(1,2)] advances_reply [OF Cons.prems(1,2)] by (auto split: if_splits)
  then show ?case using Cons.IH [OF _ _ l] advancesD advances_trans by blast
qed (simp add: advances_refl)

lemma advances_exec:
  assumes inv: "watch_inv s" "ok (ms_data s)" and e: "execCommand run acl ctx cid s = Some s'" shows "advances s s'"
proof -
  obtain c where c: "ms_clients s cid = Some c" using e by (auto simp: execCommand_def bind_eq_Some_conv)
  consider "\<not> m_multi c" | "m_multi c" "m_dirty_cas c \<or> m_dirty_exec c" | "m_multi c" "\<not> (m_dirty_cas c \<or> m_dirty_exec c)" by blast
  then show ?thesis
  proof cases
    case 1
    then show ?thesis using e c advances_reply [OF inv] by (simp add: execCommand_def)
  next
    case 2
    then obtain s1 r where s1: "add_mreply cid r s = Some s1" "discardTransaction cid s1 = Some s'" using e c by (auto simp: execCommand_def bind_eq_Some_conv)
    note a1 = advances_reply [OF inv s1(1)]
    then show ?thesis using advances_discard [OF _ _ s1(2)] advancesD [OF a1] advances_trans by blast
  next
    case 3
    from exec_steps [OF e c 3] obtain s1 s2 s3 s4 s5 s6 s7 where
      s1: "upd_client cid (\<lambda>c. c\<lparr>m_deny_blocking := True\<rparr>) s = Some s1" and s2: "unwatchAllKeys cid s1 = Some s2"
      and s3: "add_mreply cid (MArrayLen (length (m_commands c))) (s2\<lparr>ms_in_exec := True\<rparr>) = Some s3"
      and s4: "exec_loop run acl ctx cid 0 (m_commands c) s3 = Some s4"
      and s5: "(if m_deny_blocking c then Some s4 else upd_client cid (\<lambda>c. c\<lparr>m_deny_blocking := False\<rparr>) s4) = Some s5"
      and s6: "discardTransaction cid s5 = Some s6"
      and s7: "(if ms_propagate_in_transaction s6 then beforePropagateMultiOrExec False (s6\<lparr>ms_dirty := ms_dirty s6 + 1\<rparr>) else Some s6) = Some s7"
      and s': "s' = s7\<lparr>ms_in_exec := False\<rparr>" .
    have a1: "advances s s1" by (rule advances_upd [OF inv s1]) simp_all
    have a2: "advances s1 s2" using advances_unwatchAllKeys [OF advancesD [OF a1] s2] .
    have "advances s2 (s2\<lparr>ms_in_exec := True\<rparr>)"
      using advancesD [OF a2] by (intro advances_same) (simp_all add: watching_def dirty_cas_def fun_eq_iff)
    then have a3: "advances s2 s3" using advances_reply [OF _ _ s3] advancesD advances_trans by blast
    have a4: "advances s3 s4" using advances_exec_loop [OF _ _ s4] advancesD [OF a3] by blast
    have a5: "advances s4 s5" using s5 advances_upd [OF advancesD [OF a4], of cid "\<lambda>c. c\<lparr>m_deny_blocking := False\<rparr>" s5]
        advances_refl [OF advancesD [OF a4]] by (auto split: if_splits)
    have a6: "advances s5 s6" using advances_discard [OF _ _ s6] advancesD [OF a5] by blast
    have "advances s6 s'" using advancesD [OF a6] s7 s'
      by (intro advances_same) (auto simp: beforePropagateMultiOrExec_def bind_eq_Some_conv watching_def dirty_cas_def fun_eq_iff split: if_splits)
    then show ?thesis using a1 a2 a3 a4 a5 a6 advances_trans by meson
  qed
qed

lemma process_step:
  assumes inv: "watch_inv s" "ok (ms_data s)" and p: "process run acl flags ctx cid req s = Some s'"
  shows "advances s s' \<or> grows s s'"
proof -
  obtain c where c: "ms_clients s cid = Some c" using p by (auto simp: process_def bind_eq_Some_conv)
  note chain = advances_trans advancesD
  show ?thesis
  proof (cases req)
    case (ReqCmd q)
    show ?thesis
    proof (cases "m_multi c")
      case True
      then obtain s1 where s1: "queueMultiCommand flags cid q s = Some s1" "add_mreply cid MQueued s1 = Some s'"
        using p c ReqCmd by (auto simp: process_def bind_eq_Some_conv)
      have "advances s s1"
      proof (cases "m_dirty_exec c")
        case True
        then show ?thesis using s1(1) c advances_refl [OF inv] by (simp add: queueMultiCommand_def)
      next
        case False
        then have u: "upd_client cid (\<lambda>c. c\<lparr>m_commands := m_commands c @ [q], m_cmd_flags := or (m_cmd_flags c) (ucast (flags q)),
            m_cmd_inv_flags := or (m_cmd_inv_flags c) (ucast (not (flags q)))\<rparr>) s = Some s1" using s1(1) c by (simp add: queueMultiCommand_def)
        show ?thesis by (rule advances_upd [OF inv u]) simp_all
      qed
      then show ?thesis using advances_reply [OF _ _ s1(2)] chain by blast
    next
      case False
      then show ?thesis using p c ReqCmd advances_call [OF inv] by (simp add: process_def)
    qed
  next
    case ReqMulti
    show ?thesis
    proof (cases "m_multi c")
      case True
      then show ?thesis using p c ReqMulti advances_reply [OF inv] by (simp add: process_def multiCommand_def)
    next
      case False
      then obtain s1 where s1: "upd_client cid (\<lambda>c. c\<lparr>m_multi := True\<rparr>) s = Some s1" "add_mreply cid MOk s1 = Some s'"
        using p c ReqMulti by (auto simp: process_def multiCommand_def bind_eq_Some_conv)
      have "advances s s1" by (rule advances_upd [OF inv s1(1)]) simp_all
      then show ?thesis using advances_reply [OF _ _ s1(2)] chain by blast
    qed
  next
    case ReqExec
    then obtain s1 where s1: "execCommand run acl ctx cid s = Some s1" "call_propagate PropExec (ms_dirty s) s1 = Some s'"
      using p c by (auto simp: process_def bind_eq_Some_conv)
    then show ?thesis using advances_exec [OF inv s1(1)] advances_propagate [OF _ _ s1(2)] chain by blast
  next
    case ReqDiscard
    show ?thesis
    proof (cases "m_multi c")
      case True
      then obtain s1 where s1: "discardTransaction cid s = Some s1" "add_mreply cid MOk s1 = Some s'"
        using p c ReqDiscard by (auto simp: process_def discardCommand_def bind_eq_Some_conv)
      then show ?thesis using advances_discard [OF inv s1(1)] advances_reply [OF _ _ s1(2)] chain by blast
    next
      case False
      then show ?thesis using p c ReqDiscard advances_reply [OF inv] by (simp add: process_def discardCommand_def)
    qed
  next
    case (ReqWatch keys)
    show ?thesis
    proof (cases "m_multi c")
      case True
      then show ?thesis using p c ReqWatch advances_reply [OF inv] by (simp add: process_def watchCommand_def)
    next
      case False
      then obtain s1 where s1: "watch_loop cid keys s = Some s1" "add_mreply cid MOk s1 = Some s'"
        using p c ReqWatch by (auto simp: process_def watchCommand_def bind_eq_Some_conv)
      have g: "grows s s1" using watch_loop_grows [OF inv(1) s1(1)] .
      have "watching s' = watching s1" "dirty_cas s' = dirty_cas s1" "ms_data s' = ms_data s1" "ms_watchers s' = ms_watchers s1"
        using add_mreply_same [OF s1(2)] by simp_all
      then show ?thesis using g by (simp add: grows_def watch_inv_def)
    qed
  next
    case ReqReset
    then obtain s1 s2 where s1: "upd_client cid (\<lambda>c. c\<lparr>m_db := 0\<rparr>) s = Some s1" "discardTransaction cid s1 = Some s2" "add_mreply cid MOk s2 = Some s'"
      using p c by (auto simp: process_def bind_eq_Some_conv)
    have "advances s s1" by (rule advances_upd [OF inv s1(1)]) simp_all
    then show ?thesis using advances_discard [OF _ _ s1(2)] advances_reply [OF _ _ s1(3)] chain by blast
  next
    case (ReqRejected is_exec err)
    then obtain s1 where s1: "flagTransaction cid s = Some s1" "(if is_exec then execCommandAbort cid err s1 else add_mreply cid (MError err) s1) = Some s'"
      using p c by (auto simp: process_def rejectCommand_def bind_eq_Some_conv)
    have a1: "advances s s1" by (rule advances_upd [OF inv s1(1) [unfolded flagTransaction_def]]) simp_all
    show ?thesis
    proof (cases is_exec)
      case True
      then obtain s2 r where "discardTransaction cid s1 = Some s2" "add_mreply cid r s2 = Some s'" using s1(2) by (auto simp: execCommandAbort_def bind_eq_Some_conv)
      note d = this
      have a2: "advances s1 s2" using advances_discard [OF advancesD [OF a1] d(1)] .
      show ?thesis using a1 a2 advances_reply [OF advancesD [OF a2] d(2)] advances_trans by blast
    next
      case False
      then show ?thesis using s1(2) advances_reply [OF advancesD [OF a1]] advances_trans [OF a1] by auto
    qed
  next
    case ReqClose
    then obtain s1 where s1: "unwatchAllKeys cid s = Some s1" "s' = s1\<lparr>ms_clients := (ms_clients s1)(cid := None)\<rparr>"
      using p c by (auto simp: process_def bind_eq_Some_conv)
    then have "unwatched cid (Some (c\<lparr>m_watched := []\<rparr>)) s s1" using unwatchAllKeys_ok [OF inv(1) c] by auto
    then have "unwatched cid None s s'" using s1(2) by (simp add: unwatched_def)
    then show ?thesis using advances_unwatched [OF inv] by blast
  qed
qed

text \<open>
  Along any sequence of requests during which a client keeps watching a key.\<close>

lemma watched_path_keeps:
  assumes "watched_path run acl flags cid wk s t" "watch_inv s" "ok (ms_data s)"
  shows "watch_inv t \<and> ok (ms_data t) \<and> wk \<in> set (watching t cid) \<and> (\<not> dirty_cas t cid \<longrightarrow> content_of (ms_data t) wk = content_of (ms_data s) wk)"
  using assms
proof induction
  case (step s t ctx cid' req u)
  then have t: "watch_inv t" "ok (ms_data t)" "wk \<in> set (watching t cid)" "\<not> dirty_cas t cid \<Longrightarrow> content_of (ms_data t) wk = content_of (ms_data s) wk" by auto
  from process_step [OF t(1,2) step.hyps(2)] show ?case
  proof
    assume a: "advances t u"
    have "watching u cid \<noteq> []" using step.hyps(3) by auto
    then have "dirty_cas t cid \<Longrightarrow> dirty_cas u cid" using a by (auto simp: advances_def)
    then show ?thesis using a t step.hyps(3) by (auto simp: advances_def)
  next
    assume "grows t u"
    then show ?thesis using t step.hyps(3) by (auto simp: grows_def)
  qed
qed auto

end

section \<open>EXEC executes everything or nothing\<close>

text \<open>The effect of queued commands on the data set alone; a command that is not allowed any more is left out.\<close>

fun run_all :: "('ctx, 'cmd, 'd) runner \<Rightarrow> (nat \<Rightarrow> 'cmd queued \<Rightarrow> bool) \<Rightarrow> (nat \<Rightarrow> 'ctx) \<Rightarrow> nat \<Rightarrow> nat \<Rightarrow> 'cmd queued list \<Rightarrow> int \<times> 'd \<Rightarrow> (int \<times> 'd) option" where
  "run_all run acl ctx cid j [] x = Some x"
| "run_all run acl ctx cid j (Plain cmd # qs) (dirty, d) =
     (if acl cid (Plain cmd) then do { (d', dirty', _) \<leftarrow> run (ctx j) cmd dirty d; run_all run acl ctx cid (Suc j) qs (dirty', d') }
      else run_all run acl ctx cid (Suc j) qs (dirty, d))"
| "run_all run acl ctx cid j (Unwatch # qs) x = run_all run acl ctx cid (Suc j) qs x"

definition frame :: "('cmd, 'd) mserver \<Rightarrow> 'd \<times> int \<times> bool \<times> bool \<times> 'cmd propagated list" where
  "frame s = (ms_data s, ms_dirty s, ms_in_exec s, ms_propagate_in_transaction s, ms_propagated s)"

lemma upd_client_frame: "upd_client cid f s = Some s' \<Longrightarrow> frame s' = frame s"
  by (auto simp: upd_client_def bind_eq_Some_conv frame_def)

lemma mark_dirty_frame: "mark_dirty cids s = Some s' \<Longrightarrow> frame s' = frame s"
  by (induction cids arbitrary: s) (auto simp: bind_eq_Some_conv dest: upd_client_frame)

lemma touch_all_frame: "touch_all wks s = Some s' \<Longrightarrow> frame s' = frame s"
  by (induction wks arbitrary: s)
    (auto simp: bind_eq_Some_conv touchWatchedKey_def split: option.splits dest: mark_dirty_frame)

lemma unwatchAllKeys_frame: "unwatchAllKeys cid s = Some s' \<Longrightarrow> frame s' = frame s"
  by (auto simp: unwatchAllKeys_def bind_eq_Some_conv frame_def upd_client_def split: if_splits)

lemma add_mreply_frame: "add_mreply cid r s = Some s' \<Longrightarrow> frame s' = frame s"
  unfolding add_mreply_def by (rule upd_client_frame)

lemma discardTransaction_frame: "discardTransaction cid s = Some s' \<Longrightarrow> frame s' = frame s"
  by (auto simp: discardTransaction_def bind_eq_Some_conv dest!: upd_client_frame unwatchAllKeys_frame)

lemma unwatchCommand_frame: "unwatchCommand cid s = Some s' \<Longrightarrow> frame s' = frame s"
  by (auto simp: unwatchCommand_def bind_eq_Some_conv dest!: upd_client_frame unwatchAllKeys_frame add_mreply_frame)

lemma watchForKey_frame: "watchForKey cid k s = Some s' \<Longrightarrow> frame s' = frame s"
  by (auto simp: bind_eq_Some_conv watchForKey_def Let_def frame_def upd_client_def split: if_splits)

lemma watch_loop_frame: "watch_loop cid ks s = Some s' \<Longrightarrow> frame s' = frame s"
  by (induction ks arbitrary: s) (auto simp: bind_eq_Some_conv dest: watchForKey_frame)

lemmas frames = upd_client_frame mark_dirty_frame touch_all_frame unwatchAllKeys_frame add_mreply_frame discardTransaction_frame unwatchCommand_frame

lemma propagate_data: "call_propagate p n s = Some s' \<Longrightarrow> ms_data s' = ms_data s \<and> ms_dirty s' = ms_dirty s \<and> ms_clients s' = ms_clients s"
  by (auto simp: call_propagate_def propagate_def execCommandPropagateMulti_def beforePropagateMultiOrExec_def bind_eq_Some_conv split: if_splits)

lemma call_run:
  "call run ctx cid (Plain cmd) s = Some s' \<Longrightarrow> \<exists>touched. run ctx cmd (ms_dirty s) (ms_data s) = Some (ms_data s', ms_dirty s', touched)"
  by (auto simp: call_def bind_eq_Some_conv frame_def dest!: touch_all_frame propagate_data)

lemma call_unwatch: "call run ctx cid Unwatch s = Some s' \<Longrightarrow> ms_data s' = ms_data s \<and> ms_dirty s' = ms_dirty s"
  by (auto simp: call_def bind_eq_Some_conv frame_def dest!: unwatchCommand_frame propagate_data)

lemma exec_loop_run:
  "exec_loop run acl ctx cid j qs s = Some s' \<Longrightarrow> run_all run acl ctx cid j qs (ms_dirty s, ms_data s) = Some (ms_dirty s', ms_data s')"
proof (induction qs arbitrary: j s)
  case (Cons q qs)
  then obtain s1 where s1: "(if acl cid q then call run (ctx j) cid q s else add_mreply cid (MError ''NOPERM ACLs rules changed'') s) = Some s1"
    "exec_loop run acl ctx cid (Suc j) qs s1 = Some s'" by (auto simp: bind_eq_Some_conv)
  note IH = Cons.IH [OF s1(2)]
  have denied: "ms_dirty s1 = ms_dirty s" "ms_data s1 = ms_data s" if "\<not> acl cid q" using s1(1) that by (auto simp: frame_def dest!: add_mreply_frame)
  show ?case
  proof (cases q)
    case (Plain cmd)
    then show ?thesis using IH s1(1) denied call_run [of run "ctx j" cid cmd s s1] by (cases "acl cid q") auto
  next
    case Unwatch
    then show ?thesis using IH s1(1) denied call_unwatch [of run "ctx j" cid s s1] by (cases "acl cid q") auto
  qed
qed simp

text \<open>Replies are only ever appended.\<close>

definition appends :: "nat \<Rightarrow> ('cmd, 'd) mserver \<Rightarrow> ('cmd, 'd) mserver \<Rightarrow> bool" where
  "appends cid s s' \<longleftrightarrow> (\<forall>c. ms_clients s cid = Some c \<longrightarrow> (\<exists>c' rs. ms_clients s' cid = Some c' \<and> m_replies c' = m_replies c @ rs))"

lemma appends_trans: "appends cid s t \<Longrightarrow> appends cid t u \<Longrightarrow> appends cid s u"
  unfolding appends_def by (metis append.assoc)

lemma appends_upd: "upd_client cid' f s = Some s' \<Longrightarrow> (\<And>c. \<exists>rs. m_replies (f c) = m_replies c @ rs) \<Longrightarrow> appends cid s s'"
  by (auto simp: appends_def upd_client_def bind_eq_Some_conv)

lemma appends_mark_dirty: "mark_dirty cids s = Some s' \<Longrightarrow> appends cid s s'"
proof (induction cids arbitrary: s)
  case (Cons x cids)
  then obtain s1 where s1: "upd_client x (\<lambda>c. c\<lparr>m_dirty_cas := True\<rparr>) s = Some s1" "mark_dirty cids s1 = Some s'" by (auto simp: bind_eq_Some_conv)
  have "appends cid s s1" by (rule appends_upd [OF s1(1)]) simp
  then show ?case using Cons.IH [OF s1(2)] appends_trans by blast
qed (simp add: appends_def)

lemma appends_touch_all: "touch_all wks s = Some s' \<Longrightarrow> appends cid s s'"
proof (induction wks arbitrary: s)
  case (Cons wk wks)
  then obtain s1 where s1: "touchWatchedKey wk s = Some s1" "touch_all wks s1 = Some s'" by (auto simp: bind_eq_Some_conv)
  have "appends cid s s1" using s1(1) appends_mark_dirty [of _ s s1 cid] by (auto simp: touchWatchedKey_def appends_def split: option.splits)
  then show ?case using Cons.IH [OF s1(2)] appends_trans by blast
qed (simp add: appends_def)

lemma appends_reply: "add_mreply cid' r s = Some s' \<Longrightarrow> appends cid s s'"
  unfolding add_mreply_def by (erule appends_upd) simp

lemma appends_unwatchAllKeys: "unwatchAllKeys cid' s = Some s' \<Longrightarrow> appends cid s s'"
  by (auto simp: unwatchAllKeys_def bind_eq_Some_conv appends_def upd_client_def split: if_splits)

lemma appends_unwatchCommand:
  assumes "unwatchCommand cid' s = Some s'" shows "appends cid s s'"
proof -
  obtain s1 s2 where s: "unwatchAllKeys cid' s = Some s1" "upd_client cid' (\<lambda>c. c\<lparr>m_dirty_cas := False\<rparr>) s1 = Some s2" "add_mreply cid' MOk s2 = Some s'"
    using assms by (auto simp: unwatchCommand_def bind_eq_Some_conv)
  have "appends cid s1 s2" by (rule appends_upd [OF s(2)]) simp
  then show ?thesis using appends_unwatchAllKeys [OF s(1)] appends_reply [OF s(3)] appends_trans by blast
qed

lemma appends_call:
  assumes "call run ctx cid' q s = Some s'" shows "appends cid s s'"
proof (cases q)
  case (Plain cmd)
  then obtain d dirty touched s1 where "touch_all touched (s\<lparr>ms_data := d, ms_dirty := dirty\<rparr>) = Some s1" "call_propagate (PropCmd q) (ms_dirty s) s1 = Some s'"
    using assms by (auto simp: call_def bind_eq_Some_conv)
  then show ?thesis using appends_touch_all [of touched _ s1 cid] propagate_data by (fastforce simp: appends_def)
next
  case Unwatch
  then obtain s1 where "unwatchCommand cid' s = Some s1" "call_propagate (PropCmd q) (ms_dirty s) s1 = Some s'" using assms by (auto simp: call_def bind_eq_Some_conv)
  then show ?thesis using appends_unwatchCommand [of cid' s s1 cid] propagate_data by (fastforce simp: appends_def)
qed

lemma appends_exec_loop: "exec_loop run acl ctx cid' j qs s = Some s' \<Longrightarrow> appends cid s s'"
proof (induction qs arbitrary: j s)
  case (Cons q qs)
  then obtain s1 where s1: "(if acl cid' q then call run (ctx j) cid' q s else add_mreply cid' (MError ''NOPERM ACLs rules changed'') s) = Some s1"
    "exec_loop run acl ctx cid' (Suc j) qs s1 = Some s'" by (auto simp: bind_eq_Some_conv)
  then have "appends cid s s1" using appends_call appends_reply by (metis (full_types))
  then show ?case using Cons.IH [OF s1(2)] appends_trans by blast
qed (simp add: appends_def)

lemma exec_executes:
  assumes inv: "watch_inv s" and c: "ms_clients s cid = Some c" "m_multi c" "\<not> (m_dirty_cas c \<or> m_dirty_exec c)"
    and e: "execCommand run acl ctx cid s = Some s'"
  shows "\<exists>c' rs dirty. ms_clients s' cid = Some c' \<and> \<not> m_multi c' \<and> m_watched c' = [] \<and> m_commands c' = [] \<and>
    m_replies c' = m_replies c @ MArrayLen (length (m_commands c)) # rs \<and> run_all run acl ctx cid 0 (m_commands c) (ms_dirty s, ms_data s) = Some (dirty, ms_data s')"
proof -
  have sig: "signalling run (\<lambda>d wk. ()) (\<lambda>d. True)" by unfold_locales simp
  note adv = signalling.advancesD(1) [OF sig]
  from exec_steps [OF e c] obtain s1 s2 s3 s4 s5 s6 s7 where
    s1: "upd_client cid (\<lambda>c. c\<lparr>m_deny_blocking := True\<rparr>) s = Some s1" and s2: "unwatchAllKeys cid s1 = Some s2"
    and s3: "add_mreply cid (MArrayLen (length (m_commands c))) (s2\<lparr>ms_in_exec := True\<rparr>) = Some s3"
    and s4: "exec_loop run acl ctx cid 0 (m_commands c) s3 = Some s4"
    and s5: "(if m_deny_blocking c then Some s4 else upd_client cid (\<lambda>c. c\<lparr>m_deny_blocking := False\<rparr>) s4) = Some s5"
    and s6: "discardTransaction cid s5 = Some s6"
    and s7: "(if ms_propagate_in_transaction s6 then beforePropagateMultiOrExec False (s6\<lparr>ms_dirty := ms_dirty s6 + 1\<rparr>) else Some s6) = Some s7"
    and s': "s' = s7\<lparr>ms_in_exec := False\<rparr>" .
  have i1: "watch_inv s1" using adv [OF signalling.advances_upd [OF sig inv _ s1]] by simp
  have i2: "watch_inv s2" using adv [OF signalling.advances_unwatchAllKeys [OF sig i1 _ s2]] by simp
  have i3: "watch_inv s3" using add_mreply_same [OF s3] i2 by (simp add: watch_inv_def watching_def)
  have i4: "watch_inv s4" using adv [OF signalling.advances_exec_loop [OF sig i3 _ s4]] by simp
  have i5: "watch_inv s5" using s5 i4 adv [OF signalling.advances_upd [OF sig i4, of cid "\<lambda>c. c\<lparr>m_deny_blocking := False\<rparr>" s5]] by (auto split: if_splits)
  have c1: "ms_clients s1 cid = Some (c\<lparr>m_deny_blocking := True\<rparr>)" using s1 c(1) by (auto simp: upd_client_def)
  obtain c2 where c2: "ms_clients s2 cid = Some c2" "m_replies c2 = m_replies c" using unwatchAllKeys_ok [OF i1 c1] s2 by (auto simp: unwatched_def)
  then obtain c3 where c3: "ms_clients s3 cid = Some c3" "m_replies c3 = m_replies c @ [MArrayLen (length (m_commands c))]"
    using s3 by (auto simp: add_mreply_def upd_client_def)
  obtain c4 rs where c4: "ms_clients s4 cid = Some c4" "m_replies c4 = m_replies c3 @ rs" using appends_exec_loop [OF s4, of cid] c3(1) unfolding appends_def by blast
  obtain c5 where c5: "ms_clients s5 cid = Some c5" "m_replies c5 = m_replies c4" using s5 c4(1) by (auto simp: upd_client_def split: if_splits)
  obtain c6 where c6: "ms_clients s6 cid = Some c6" "m_replies c6 = m_replies c5" "\<not> m_multi c6" "m_watched c6 = []" "m_commands c6 = []"
    using discardTransaction_ok [OF i5 c5(1)] s6 by (auto simp: unwatched_def)
  have f: "frame s1 = frame s" "frame s2 = frame s1" "frame s3 = frame (s2\<lparr>ms_in_exec := True\<rparr>)" "frame s5 = frame s4" "frame s6 = frame s5"
    using s1 s2 s3 s5 s6 frames by (auto split: if_splits)
  have "ms_data s' = ms_data s4" "ms_dirty s3 = ms_dirty s" "ms_data s3 = ms_data s" "ms_clients s' = ms_clients s6"
    using f s7 by (auto simp: s' frame_def beforePropagateMultiOrExec_def split: if_splits)
  then show ?thesis using c6 c5(2) c4(2) c3(2) exec_loop_run [OF s4] by auto
qed

lemma exec_nothing:
  assumes inv: "watch_inv s" and c: "ms_clients s cid = Some c" "m_multi c" and dirty: "m_dirty_cas c \<or> m_dirty_exec c"
    and e: "process run acl flags ctx cid ReqExec s = Some s'"
  shows "\<exists>c'. ms_clients s' cid = Some c' \<and> \<not> m_multi c' \<and> m_watched c' = [] \<and> m_commands c' = [] \<and>
    m_replies c' = m_replies c @ [if m_dirty_exec c then MExecAbort else MNullArray] \<and> ms_data s' = ms_data s \<and> ms_propagated s' = ms_propagated s"
proof -
  let ?r = "if m_dirty_exec c then MExecAbort else MNullArray"
  obtain s1 s2 where s1: "add_mreply cid ?r s = Some s1" and s2: "discardTransaction cid s1 = Some s2" and pr: "call_propagate PropExec (ms_dirty s) s2 = Some s'"
    using e c dirty by (auto simp: process_def execCommand_def bind_eq_Some_conv)
  have c1: "ms_clients s1 cid = Some (c\<lparr>m_replies := m_replies c @ [?r]\<rparr>)" using s1 c(1) by (auto simp: add_mreply_def upd_client_def)
  have i1: "watch_inv s1" using inv add_mreply_same [OF s1] by (simp add: watch_inv_def)
  have f: "frame s2 = frame s" using s1 s2 frames by metis
  then have "s' = s2" using pr by (simp add: call_propagate_def frame_def)
  then show ?thesis using f discardTransaction_ok [OF i1 c1] s2 by (auto simp: unwatched_def frame_def)
qed

lemma exec_dirty_total:
  assumes inv: "watch_inv s" and c: "ms_clients s cid = Some c" "m_multi c" and dirty: "m_dirty_cas c \<or> m_dirty_exec c"
  shows "\<exists>s'. process run acl flags ctx cid ReqExec s = Some s'"
proof -
  let ?r = "if m_dirty_exec c then MExecAbort else MNullArray"
  define s1 where "s1 = s\<lparr>ms_clients := (ms_clients s)(cid \<mapsto> c\<lparr>m_replies := m_replies c @ [?r]\<rparr>)\<rparr>"
  have s1: "add_mreply cid ?r s = Some s1" using c(1) by (simp add: add_mreply_def upd_client_def s1_def)
  have i1: "watch_inv s1" using inv add_mreply_same [OF s1] by (simp add: watch_inv_def)
  obtain s2 where s2: "discardTransaction cid s1 = Some s2" using discardTransaction_ok [OF i1, of cid] by (auto simp: s1_def)
  have "frame s2 = frame s" using s1 s2 frames by metis
  then show ?thesis using c dirty s1 s2 by (auto simp: process_def execCommand_def call_propagate_def frame_def)
qed

text \<open>
  C6: \<open>EXEC\<close> is all or nothing.  On a client in a transaction, either a watched key was touched or a command
  was rejected, and then the data set and what is propagated stay as they are and the reply is null or the
  abort error; or the queued commands are executed one after the other, with nothing in between, and
  the reply announces as many results as commands were queued.  In both cases the transaction is over.
\<close>

theorem exec_all_or_nothing:
  assumes inv: "watch_inv s" and c: "ms_clients s cid = Some c" "m_multi c"
    and e: "process run acl flags ctx cid ReqExec s = Some s'"
  shows "\<exists>c' rs. ms_clients s' cid = Some c' \<and> \<not> m_multi c' \<and> m_watched c' = [] \<and> m_commands c' = [] \<and> m_replies c' = m_replies c @ rs \<and>
    (if m_dirty_cas c \<or> m_dirty_exec c
     then ms_data s' = ms_data s \<and> ms_propagated s' = ms_propagated s \<and> rs = [if m_dirty_exec c then MExecAbort else MNullArray]
     else (\<exists>dirty. run_all run acl ctx cid 0 (m_commands c) (ms_dirty s, ms_data s) = Some (dirty, ms_data s')) \<and> take 1 rs = [MArrayLen (length (m_commands c))])"
proof (cases "m_dirty_cas c \<or> m_dirty_exec c")
  case True
  then show ?thesis using exec_nothing [OF inv c True e] by auto
next
  case False
  obtain s1 where s1: "execCommand run acl ctx cid s = Some s1" "call_propagate PropExec (ms_dirty s) s1 = Some s'"
    using e c by (auto simp: process_def bind_eq_Some_conv)
  from exec_executes [OF inv c False s1(1)] propagate_data [OF s1(2)] show ?thesis using False by fastforce
qed

section \<open>Propagation of transactions\<close>

text \<open>
  Whether a stream of propagated commands ends inside a \<open>MULTI\<close> block; \<open>None\<close> when a block is opened twice
  or closed without being open.
\<close>

fun prop_open :: "bool \<Rightarrow> 'cmd propagated list \<Rightarrow> bool option" where
  "prop_open b [] = Some b"
| "prop_open b (PropMulti # ps) = (if b then None else prop_open True ps)"
| "prop_open b (PropExec # ps) = (if b then prop_open False ps else None)"
| "prop_open b (PropCmd q # ps) = prop_open b ps"

lemma prop_open_append: "prop_open b (ps @ qs) = Option.bind (prop_open b ps) (\<lambda>b. prop_open b qs)"
  by (induction b ps rule: prop_open.induct) auto

definition calm :: "('cmd, 'd) mserver \<Rightarrow> bool" where
  "calm s \<longleftrightarrow> \<not> ms_in_exec s \<and> \<not> ms_propagate_in_transaction s \<and> prop_open False (ms_propagated s) = Some False"

text \<open>Inside \<open>EXEC\<close>: the block is open exactly when a command has changed something.\<close>

definition in_transaction :: "int \<Rightarrow> ('cmd, 'd) mserver \<Rightarrow> bool" where
  "in_transaction n s \<longleftrightarrow> ms_in_exec s \<and> prop_open False (ms_propagated s) = Some (ms_propagate_in_transaction s) \<and>
     (if ms_propagate_in_transaction s then ms_dirty s > n else ms_dirty s = n)"

lemma calm_frame: "frame s' = frame s \<Longrightarrow> calm s' = calm s"
  by (simp add: frame_def calm_def)

lemma in_transaction_frame: "frame s' = frame s \<Longrightarrow> in_transaction n s' = in_transaction n s"
  by (simp add: frame_def in_transaction_def)

text \<open>No command sets the counter of changes back.\<close>

definition counts_up :: "('ctx, 'cmd, 'd) runner \<Rightarrow> bool" where
  "counts_up run \<longleftrightarrow> (\<forall>ctx cmd n d d' n' ts. run ctx cmd n d = Some (d', n', ts) \<longrightarrow> n \<le> n')"

lemma call_body:
  assumes "call run ctx cid q s = Some s'" and mono: "counts_up run"
  shows "\<exists>s1. call_propagate (PropCmd q) (ms_dirty s) s1 = Some s' \<and> ms_dirty s \<le> ms_dirty s1 \<and> ms_in_exec s1 = ms_in_exec s \<and>
    ms_propagate_in_transaction s1 = ms_propagate_in_transaction s \<and> ms_propagated s1 = ms_propagated s"
proof (cases q)
  case (Plain cmd)
  then obtain d n ts s1 where r: "run ctx cmd (ms_dirty s) (ms_data s) = Some (d, n, ts)"
    and t: "touch_all ts (s\<lparr>ms_data := d, ms_dirty := n\<rparr>) = Some s1" and pr: "call_propagate (PropCmd q) (ms_dirty s) s1 = Some s'"
    using assms(1) by (auto simp: call_def bind_eq_Some_conv)
  have "ms_dirty s \<le> n" using mono r unfolding counts_up_def by blast
  then show ?thesis using pr touch_all_frame [OF t] by (intro exI [of _ s1]) (simp add: frame_def)
next
  case Unwatch
  then obtain s1 where u: "unwatchCommand cid s = Some s1" and pr: "call_propagate (PropCmd q) (ms_dirty s) s1 = Some s'"
    using assms(1) by (auto simp: call_def bind_eq_Some_conv)
  show ?thesis using pr unwatchCommand_frame [OF u] by (intro exI [of _ s1]) (simp add: frame_def)
qed

lemma call_calm:
  assumes "calm s" "call run ctx cid q s = Some s'" "counts_up run"
  shows "calm s'"
proof -
  obtain s1 where pr: "call_propagate (PropCmd q) (ms_dirty s) s1 = Some s'"
    and s1: "\<not> ms_in_exec s1" "\<not> ms_propagate_in_transaction s1" "prop_open False (ms_propagated s1) = Some False"
    using call_body [OF assms(2,3)] assms(1) unfolding calm_def by metis
  then show ?thesis by (cases "ms_dirty s1 - ms_dirty s > 0") (auto simp: calm_def call_propagate_def propagate_def prop_open_append)
qed

lemma call_in_transaction:
  assumes "in_transaction n s" "call run ctx cid q s = Some s'" "counts_up run"
  shows "in_transaction n s'"
proof -
  obtain s1 where pr: "call_propagate (PropCmd q) (ms_dirty s) s1 = Some s'" and le: "ms_dirty s \<le> ms_dirty s1"
    and s1: "ms_in_exec s1" "ms_propagate_in_transaction s1 = ms_propagate_in_transaction s"
      "prop_open False (ms_propagated s1) = Some (ms_propagate_in_transaction s)"
    using call_body [OF assms(2,3)] assms(1) unfolding in_transaction_def by metis
  show ?thesis
  proof (cases "ms_dirty s1 - ms_dirty s > 0")
    case False
    then show ?thesis using pr le s1 assms(1) by (cases "ms_propagate_in_transaction s") (simp_all add: in_transaction_def call_propagate_def)
  next
    case True
    then show ?thesis using pr s1 assms(1)
      by (cases "ms_propagate_in_transaction s") (auto simp: in_transaction_def call_propagate_def propagate_def execCommandPropagateMulti_def
          beforePropagateMultiOrExec_def prop_open_append)
  qed
qed

lemma exec_loop_in_transaction:
  assumes mono: "counts_up run"
  shows "in_transaction n s \<Longrightarrow> exec_loop run acl ctx cid j qs s = Some s' \<Longrightarrow> in_transaction n s'"
proof (induction qs arbitrary: j s)
  case (Cons q qs)
  then obtain s1 where s1: "(if acl cid q then call run (ctx j) cid q s else add_mreply cid (MError ''NOPERM ACLs rules changed'') s) = Some s1"
    "exec_loop run acl ctx cid (Suc j) qs s1 = Some s'" by (auto simp: bind_eq_Some_conv)
  have "in_transaction n s1"
  proof (cases "acl cid q")
    case True
    then show ?thesis using s1(1) call_in_transaction [OF Cons.prems(1) _ mono] by simp
  next
    case False
    then have "add_mreply cid (MError ''NOPERM ACLs rules changed'') s = Some s1" using s1(1) by simp
    from in_transaction_frame [OF add_mreply_frame [OF this]] show ?thesis using Cons.prems(1) by blast
  qed
  then show ?case using Cons.IH [OF _ s1(2)] by blast
qed simp

lemma exec_calm:
  assumes calm: "calm s" and mono: "counts_up run"
    and e: "execCommand run acl ctx cid s = Some s1" and pr: "call_propagate PropExec (ms_dirty s) s1 = Some s'"
  shows "calm s'"
proof -
  obtain c where c: "ms_clients s cid = Some c" using e by (auto simp: execCommand_def bind_eq_Some_conv)
  show ?thesis
  proof (cases "m_multi c \<and> \<not> (m_dirty_cas c \<or> m_dirty_exec c)")
    case False
    then have f: "frame s1 = frame s" using e c by (auto simp: execCommand_def bind_eq_Some_conv dest!: add_mreply_frame discardTransaction_frame split: if_splits)
    then show ?thesis using pr calm calm_frame [OF f] by (simp add: call_propagate_def frame_def)
  next
    case True
    then obtain t1 t2 t3 t4 t5 t6 t7 where
      t1: "upd_client cid (\<lambda>c. c\<lparr>m_deny_blocking := True\<rparr>) s = Some t1" and t2: "unwatchAllKeys cid t1 = Some t2"
      and t3: "add_mreply cid (MArrayLen (length (m_commands c))) (t2\<lparr>ms_in_exec := True\<rparr>) = Some t3"
      and t4: "exec_loop run acl ctx cid 0 (m_commands c) t3 = Some t4"
      and t5: "(if m_deny_blocking c then Some t4 else upd_client cid (\<lambda>c. c\<lparr>m_deny_blocking := False\<rparr>) t4) = Some t5"
      and t6: "discardTransaction cid t5 = Some t6"
      and t7: "(if ms_propagate_in_transaction t6 then beforePropagateMultiOrExec False (t6\<lparr>ms_dirty := ms_dirty t6 + 1\<rparr>) else Some t6) = Some t7"
      and s1: "s1 = t7\<lparr>ms_in_exec := False\<rparr>"
      using exec_steps [OF e c] by blast
    have f: "frame t1 = frame s" "frame t2 = frame t1" "frame t3 = frame (t2\<lparr>ms_in_exec := True\<rparr>)" "frame t5 = frame t4" "frame t6 = frame t5"
      using t1 t2 t3 t5 t6 frames by (auto split: if_splits)
    have "in_transaction (ms_dirty s) t3" using f(1-3) calm by (auto simp: in_transaction_def calm_def frame_def)
    then have "in_transaction (ms_dirty s) t4" using exec_loop_in_transaction [OF mono _ t4] by blast
    then have "in_transaction (ms_dirty s) t6" using in_transaction_frame f by metis
    then show ?thesis using t7 pr
      by (auto simp: in_transaction_def calm_def s1 call_propagate_def propagate_def beforePropagateMultiOrExec_def prop_open_append split: if_splits)
  qed
qed

lemma process_calm:
  assumes calm: "calm s" and mono: "counts_up run"
    and p: "process run acl flags ctx cid req s = Some s'"
  shows "calm s'"
proof -
  obtain c where c: "ms_clients s cid = Some c" using p by (auto simp: process_def bind_eq_Some_conv)
  consider (cmd) q where "req = ReqCmd q" "\<not> m_multi c" | (exec) "req = ReqExec"
    | (other) "req \<noteq> ReqExec" "\<And>q. req = ReqCmd q \<Longrightarrow> m_multi c" by blast
  then show ?thesis
  proof cases
    case cmd
    then show ?thesis using p c call_calm [OF calm _ mono] by (simp add: process_def)
  next
    case exec
    then show ?thesis using p c exec_calm [OF calm mono] by (auto simp: process_def bind_eq_Some_conv)
  next
    case other
    then have "frame s' = frame s" using p c
      by (cases req) (auto simp: process_def bind_eq_Some_conv queueMultiCommand_def multiCommand_def discardCommand_def watchCommand_def rejectCommand_def
          flagTransaction_def execCommandAbort_def frame_def [of "ms_clients_update f x" for f x] dest!: frames watch_loop_frame split: if_splits, auto simp: frame_def)
    then show ?thesis using calm calm_frame by blast
  qed
qed

text \<open>Sequences of requests; each comes with the context its commands run in and its client.\<close>

fun process_all :: "('ctx, 'cmd, 'd) runner \<Rightarrow> (nat \<Rightarrow> 'cmd queued \<Rightarrow> bool) \<Rightarrow> ('cmd queued \<Rightarrow> u64) \<Rightarrow> ((nat \<Rightarrow> 'ctx) \<times> nat \<times> 'cmd request) list
    \<Rightarrow> ('cmd, 'd) mserver \<Rightarrow> ('cmd, 'd) mserver option" where
  "process_all run acl flags [] s = Some s"
| "process_all run acl flags ((ctx, cid, req) # rs) s = do { s1 \<leftarrow> process run acl flags ctx cid req s; process_all run acl flags rs s1 }"

lemma process_all_calm: "calm s \<Longrightarrow> counts_up run \<Longrightarrow> process_all run acl flags rs s = Some s' \<Longrightarrow> calm s'"
  by (induction run acl flags rs s rule: process_all.induct) (auto simp: bind_eq_Some_conv dest: process_calm)


text \<open>
  An example with two commands on a counter: \<open>0\<close> increments it and \<open>1\<close> is \<open>SAVE\<close>, which sets the counter of
  changes back (\<open>rdbSave\<close> in \<open>rdb.c\<close>).
\<close>

definition new_mclient :: "'cmd mclient" where
  "new_mclient = \<lparr>m_db = 0, m_multi = False, m_dirty_cas = False, m_dirty_exec = False, m_deny_blocking = False, m_commands = [],
     m_cmd_flags = 0, m_cmd_inv_flags = 0, m_watched = [], m_replies = []\<rparr>"

definition new_mserver :: "'d \<Rightarrow> int \<Rightarrow> ('cmd, 'd) mserver" where
  "new_mserver d n = \<lparr>ms_clients = [1 \<mapsto> new_mclient, 2 \<mapsto> new_mclient], ms_watchers = [], ms_data = d, ms_dirty = n, ms_in_exec = False,
     ms_propagate_in_transaction = False, ms_propagated = []\<rparr>"

fun counter_run :: "(unit, nat, nat) runner" where
  "counter_run ctx 0 n d = Some (d + 1, n + 1, [(0, [])])"
| "counter_run ctx (Suc _) n d = Some (d, 0, [])"

lemmas process_defs = process_def execCommand_def watchCommand_def multiCommand_def queueMultiCommand_def discardTransaction_def unwatchAllKeys_def upd_client_def
  add_mreply_def call_def call_propagate_def propagate_def execCommandPropagateMulti_def beforePropagateMultiOrExec_def initClientMultiState_def
  touchWatchedKey_def watchForKey_def new_mserver_def new_mclient_def Let_def



definition ex_watching :: "(nat, nat) mserver" where
  "ex_watching = (new_mserver 1 6)\<lparr>ms_clients := [1 \<mapsto> new_mclient\<lparr>m_multi := True, m_dirty_cas := True, m_commands := [Plain 0], m_watched := [(0, [])]\<rparr>],
     ms_watchers := [((0, []), [1])]\<rparr>"

theorem exec_all_or_nothing_witness:
  "\<exists>t c. process counter_run (\<lambda>_ _. True) (\<lambda>_. 0) (\<lambda>_. ()) 1 ReqExec ex_watching = Some t \<and> ms_data t = 1 \<and> ms_clients t 1 = Some c
     \<and> \<not> m_multi c \<and> m_replies c = [MNullArray]"
proof -
  let ?c = "new_mclient\<lparr>m_multi := True, m_dirty_cas := True, m_commands := [Plain 0], m_watched := [(0, [])]\<rparr> :: nat mclient"
  have "watch_inv ex_watching"
    by (auto simp: watch_inv_def watchers_in_def watching_def ex_watching_def new_mserver_def new_mclient_def)
  moreover have "ms_clients ex_watching 1 = Some ?c" by (simp add: ex_watching_def)
  moreover have "\<exists>t. process counter_run (\<lambda>_ _. True) (\<lambda>_. 0) (\<lambda>_. ()) 1 ReqExec ex_watching = Some t"
    by (simp add: ex_watching_def process_defs)
  ultimately show ?thesis
    using exec_all_or_nothing [of ex_watching 1 ?c counter_run "\<lambda>_ _. True" "\<lambda>_. 0" "\<lambda>_. ()"] by (auto simp: ex_watching_def new_mserver_def new_mclient_def)
qed

end
