(* ===== verification/Server_Signals.thy ===== *)
theory Server_Signals
  imports Server_Machine
begin

text \<open>
  Every command of the model signals every key whose content it changes.  Together with the theory of
  transactions this is what optimistic locking rests on.
\<close>

section \<open>Commands on keys\<close>

lemma delGeneric_loop_silent:
  "db_inv P s \<Longrightarrow> delGeneric_loop cfg lazy keys n s = Some (s', m) \<Longrightarrow> silent {} s s'"
proof (induction keys arbitrary: n s)
  case Nil
  then show ?case by (simp add: silent_refl)
next
  case (Cons k keys)
  define s1 where "s1 = access cfg k s"
  have inv1: "db_inv P s1" using Cons.prems(1) by (simp add: s1_def del: access_sel)
  have q1: "silent K s s1" for K unfolding s1_def by (intro silent_intros)
  show ?case
  proof (cases "db_dict s1 k = None")
    case True
    then have run: "delGeneric_loop cfg lazy keys n (delete_key k s1) = Some (s', m)"
      using Cons.prems by (simp add: expireIfNeeded_ok [OF Cons.prems(1)] flip: s1_def split: if_splits)
    have "silent {} s (delete_key k s1)" using q1 inv1 True by (rule silent_delete_absent)
    then show ?thesis using Cons.IH [OF _ run] inv1 silent_trans by auto
  next
    case False
    let ?s = "add_dirty 1 (notifyKeyspaceEvent NOTIFY_GENERIC ''del'' k (signalModifiedKey k (delete_key k s1)))"
    have run: "delGeneric_loop cfg lazy keys (n + 1) ?s = Some (s', m)"
      using Cons.prems False by (simp add: expireIfNeeded_ok [OF Cons.prems(1)] flip: s1_def split: if_splits)
    have "silent {} s ?s" by (intro silent_dirty silent_emit silent_signal silent_delete q1) simp
    then show ?thesis using Cons.IH [OF _ run] inv1 silent_trans by auto
  qed
qed

lemma exists_loop_silent: "db_inv P s \<Longrightarrow> exists_loop cfg keys n s = Some (s', m) \<Longrightarrow> silent {} s s'"
proof (induction keys arbitrary: n s)
  case Nil
  then show ?case by (simp add: silent_refl)
next
  case (Cons k keys)
  obtain s1 where "lookupKeyReadWithFlags cfg False k s = Some (s1, visible cfg s k)" "db_inv P s1" "silent {} s s1"
    using silent_read [OF Cons.prems(1)] by blast
  then show ?case using Cons.IH Cons.prems(2) silent_trans by fastforce
qed

lemma ttl_silent:
  assumes "db_inv P s" "ttlGenericCommand cfg ms k s = Some s'" shows "silent {} s s'"
proof -
  obtain s1 where "lookupKeyReadWithFlags cfg False k s = Some (s1, visible cfg s k)" "silent {} s s1"
    using silent_read [OF assms(1)] by blast
  then show ?thesis using assms(2)
    by (auto simp: ttlGenericCommand_def bind_eq_Some_conv Let_def intro!: silent_intros split: if_splits)
qed

lemma persist_silent:
  assumes inv: "db_inv P s" and run: "persistCommand cfg k s = Some s'" shows "silent {} s s'"
proof -
  define s1 where "s1 = access cfg k s"
  have q1: "silent K s s1" for K unfolding s1_def by (intro silent_intros)
  define s2 where "s2 = s1\<lparr>db_expires := (db_expires s1)(k := None)\<rparr>"
  have "silent {k} s s2" using q1 by (rule silent_change) (auto simp: s2_def intro!: content_cong)
  then have "silent {} s (signalModifiedKey k s2)" by (rule silent_signal)
  moreover have "silent {} s s2" if "db_expires s1 k = None" using that q1 by (simp add: s2_def)
  ultimately show ?thesis using q1 run
    by (auto simp: persistCommand_def lookupKeyWrite_ok [OF inv] removeExpire_def bind_eq_Some_conv
        intro!: silent_intros simp flip: s1_def s2_def split: if_splits)
qed

lemma setExpire_silent: "silent K s t \<Longrightarrow> k \<in> K \<Longrightarrow> setExpire cfg c k w t = Some u \<Longrightarrow> silent K s u"
  by (auto simp: setExpire_def bind_eq_Some_conv Let_def intro!: silent_emit elim!: silent_change intro: content_cong
      split: option.splits if_splits)

lemma expire_silent:
  assumes inv: "db_inv P s" and run: "expireGenericCommand cfg c k param base unit s = Some s'" shows "silent {} s s'"
proof (cases "string2ll param")
  case None
  then show ?thesis using run by (auto simp: expireGenericCommand_def getLongLongFromObjectOrReply_def intro!: silent_intros)
next
  case (Some arg)
  define s1 where "s1 = access cfg k s"
  have q1: "silent K s s1" for K unfolding s1_def by (intro silent_intros)
  consider "expire_when base unit arg = None" | w where "expire_when base unit arg = Some w" "db_dict s1 k = None"
    | w where "expire_when base unit arg = Some w" "db_dict s1 k \<noteq> None" "checkAlreadyExpired cfg w"
    | w s3 where "expire_when base unit arg = Some w" "db_dict s1 k \<noteq> None" "\<not> checkAlreadyExpired cfg w" "setExpire cfg (Some c) k w s1 = Some s3"
    using setExpire_ok [of s1 k cfg "Some c"] by (metis option.exhaust)
  then show ?thesis
  proof cases
    case 3
    have "silent {} s (signalModifiedKey k (emit e (add_dirty 1 (delete_key k s1))))" for e
      by (intro silent_signal silent_intros q1) simp
    then have "silent {} s (emit e' (signalModifiedKey k (emit e (add_dirty 1 (delete_key k s1)))))" for e e' by (rule silent_emit)
    then show ?thesis using run Some 3
      by (cases "sv_lazy_expire cfg") (auto simp: expireGenericCommand_def getLongLongFromObjectOrReply_def lookupKeyWrite_ok [OF inv] Let_def
          intro!: silent_reply simp flip: s1_def)
  next
    case 4
    have "silent {k} s s3" using setExpire_silent [OF q1 _ 4(4)] by blast
    then have "silent {} s (signalModifiedKey k (addReply (ReplyInt 1) s3))" by (intro silent_signal silent_reply)
    then show ?thesis using run Some 4
      by (auto simp: expireGenericCommand_def getLongLongFromObjectOrReply_def lookupKeyWrite_ok [OF inv] Let_def
          intro!: silent_dirty silent_emit simp flip: s1_def)
  qed (use run Some q1 in \<open>auto simp: expireGenericCommand_def getLongLongFromObjectOrReply_def lookupKeyWrite_ok [OF inv]
      intro!: silent_intros simp flip: s1_def\<close>)
qed

lemma rename_silent:
  assumes inv: "db_inv P s" and run: "renameGenericCommand cfg c nx src dst s = Some s'" shows "silent {} s s'"
proof -
  define s1 where "s1 = access cfg src s"
  define s2 where "s2 = access cfg dst s1"
  have inv1: "db_inv P s1" using inv by (simp add: s1_def del: access_sel)
  have q1: "silent K s s1" and q2: "silent K s s2" for K unfolding s1_def s2_def by (intro silent_intros)+
  have move: "silent {} s (add_dirty 1 (notifyKeyspaceEvent NOTIFY_GENERIC ''rename_to'' dst
      (notifyKeyspaceEvent NOTIFY_GENERIC ''rename_from'' src (signalModifiedKey dst (signalModifiedKey src (delete_key src s5))))))"
    if "dbAdd dst val (if old then delete_key dst s2 else s2) = Some s4" "s5 = s4 \<or> setExpire cfg (Some c) dst e s4 = Some s5"
    for old val s4 e s5
  proof -
    have "silent {src, dst} s (if old then delete_key dst s2 else s2)" using q2 by (auto intro!: silent_delete)
    then have "silent {src, dst} s s4" using that(1) by (rule silent_dbAdd) simp
    then have "silent {src, dst} s s5" using that(2) setExpire_silent [of "{src, dst}" s s4 dst] by auto
    then have "silent {} s (signalModifiedKey dst (signalModifiedKey src (delete_key src s5)))"
      by (intro silent_signal silent_delete) (auto elim: silent_mono)
    then show ?thesis by (intro silent_dirty) (rule silent_emit [OF silent_emit])
  qed
  show ?thesis
    using run q1 q2
    by (auto simp: renameGenericCommand_def lookupKeyWriteOrReply_def lookupKeyWrite_ok [OF inv] lookupKeyWrite_ok [OF inv1] bind_eq_Some_conv
        Let_def simp flip: s1_def s2_def intro!: silent_reply
        intro: move [where old = True, unfolded if_True, OF _ disjI1 [OF refl]] move [where old = True, unfolded if_True, OF _ disjI2]
          move [where old = False, unfolded if_False, OF _ disjI1 [OF refl]] move [where old = False, unfolded if_False, OF _ disjI2]
        split: option.splits if_splits)
qed

section \<open>Commands on sets\<close>

lemma is_member_silent:
  assumes "srv_inv env s" "get_set k s = Some so" shows "\<exists>s' b. is_member k v s = Some (s', b) \<and> srv_inv env s' \<and> silent K s s' \<and> get_set k s' \<noteq> None"
  using is_member_ok [OF assms] silent_same_sets assms(2) same_sets_get [of s _ k] by fastforce

lemma sadd_silent:
  assumes inv: "srv_inv env s" and fits: "fits cfg (CmdSadd k args) s" and run: "saddCommand cfg env k args s = Some s'"
  shows "silent {} s s'"
proof (cases "checkType (db_dict (access cfg k s) k)")
  case True
  then show ?thesis using run lookupKeyWrite_ok [OF srv_invD(1) [OF inv], of cfg k]
    by (auto simp: saddCommand_def simp del: access_sel intro!: silent_intros)
next
  case False
  define s1 where "s1 = access cfg k s"
  have inv1: "srv_inv env s1" using srv_inv_access [OF inv] by (simp add: s1_def)
  have q1: "silent K s s1" for K unfolding s1_def by (intro silent_intros)
  have lk: "lookupKeyWrite cfg k s = Some (s1, db_dict s1 k)" using lookupKeyWrite_ok [OF srv_invD(1) [OF inv]] by (simp add: s1_def)
  obtain s2 so where s2: "(if db_dict s1 k = None then dbAdd k (OBJ_SET (setTypeCreate env (hd args))) s1 else Some s1) = Some s2"
      "get_set k s2 = Some so" "set_inv env so" "set_elems so = set_at s1 k"
    using ensure_set [OF inv1, of k "hd args"] False unfolding s1_def [symmetric] by blast
  have q2: "silent {k} s s2" using s2(1) q1 silent_dbAdd [OF q1] by (auto split: if_splits)
  obtain so' where so': "add_all (setTypeAdd env) args so 0 = Some (so', card (set args - set_at s1 k))"
      "set_elems so' = set_at s1 k \<union> set args"
    using sset.add_all_law [OF s2(3), of args 0] fits s2(4) by (auto simp: s1_def)
  define n where "n = card (set args - set_at s1 k)"
  have eq: "s' = addReply (ReplyInt (int n)) (add_dirty (int n)
      (if n > 0 then notifyKeyspaceEvent NOTIFY_SET ''sadd'' k (signalModifiedKey k (put_set k so' s2)) else put_set k so' s2))"
    using run lk False s2(1,2) so'(1) by (simp add: saddCommand_def Let_def flip: s1_def n_def)
  show ?thesis
  proof (cases "n > 0")
    case True
    have "silent {} s (signalModifiedKey k (put_set k so' s2))" by (intro silent_signal silent_put q2) simp
    then show ?thesis using True unfolding eq by (simp add: silent_reply silent_dirty silent_emit)
  next
    case no: False
    then have sub: "set args \<subseteq> set_at s1 k" by (auto simp: n_def)
    moreover have "args \<noteq> []" using fits by simp
    ultimately have "set_at s1 k \<noteq> {}" by (cases args) auto
    then have "db_dict s1 k \<noteq> None" by (auto simp: set_at_def get_set_def)
    then obtain o' where "db_dict s1 k = Some o'" by blast
    then have "s2 = s1" using s2(1) by simp
    then have "silent {} s (put_set k so' s2)" using q1 s2(2,4) so'(2) sub by (intro silent_put_same) auto
    then show ?thesis using no unfolding eq by (simp add: silent_reply silent_dirty)
  qed
qed

lemma srem_silent:
  assumes inv: "srv_inv env s" and run: "sremCommand cfg env k args s = Some s'"
  shows "silent {} s s'"
proof -
  define s1 where "s1 = access cfg k s"
  have inv1: "srv_inv env s1" using srv_inv_access [OF inv] by (simp add: s1_def)
  have q1: "silent K s s1" for K unfolding s1_def by (intro silent_intros)
  have lk: "lookupKeyWriteOrReply cfg k (ReplyInt 0) s = Some (if db_dict s1 k = None then addReply (ReplyInt 0) s1 else s1, db_dict s1 k)"
    using lookupKeyWrite_ok [OF srv_invD(1) [OF inv]] by (simp add: lookupKeyWriteOrReply_def s1_def)
  consider "db_dict s1 k = None \<or> checkType (db_dict s1 k)" | so where "get_set k s1 = Some so" using not_checkType by blast
  then show ?thesis
  proof cases
    case 1
    then show ?thesis using run lk q1 by (auto simp: sremCommand_def intro!: silent_intros split: if_splits)
  next
    case (2 so)
    note ok = srv_inv_set [OF inv1 2]
    obtain so' where so': "srem_loop env args so 0 = Some (so', card (set_elems so \<inter> set args), set_elems so \<subseteq> set args)"
        "set_elems so' = set_elems so - set args"
      using srem_loop_ok [OF ok(1,3,2), of args 0] by auto
    define n where "n = card (set_elems so \<inter> set args)"
    define gone where "gone \<longleftrightarrow> set_elems so \<subseteq> set args"
    define s3 where "s3 = (if gone then delete_key k (put_set k so' s1) else put_set k so' s1)"
    have q3: "silent {k} s s3" using q1 by (auto simp: s3_def intro!: silent_delete silent_put)
    have dk: "db_dict s1 k = Some (OBJ_SET so)" using 2 by (simp add: get_set_eq)
    have eq: "s' = addReply (ReplyInt (int n)) (if n > 0 then add_dirty (int n)
        (if gone then notifyKeyspaceEvent NOTIFY_GENERIC ''del'' k (notifyKeyspaceEvent NOTIFY_SET ''srem'' k (signalModifiedKey k s3))
         else notifyKeyspaceEvent NOTIFY_SET ''srem'' k (signalModifiedKey k s3)) else s3)"
      using run lk 2 so'(1) dk by (auto simp: sremCommand_def Let_def checkType_def s3_def simp flip: n_def gone_def)
    show ?thesis
    proof (cases "n > 0")
      case True
      have "silent {} s (signalModifiedKey k s3)" by (intro silent_signal q3)
      then show ?thesis using True unfolding eq by (simp add: silent_reply silent_dirty silent_emit)
    next
      case False
      then have int: "set_elems so \<inter> set args = {}" using finite_set_elems [of so] by (auto simp: n_def)
      then have "\<not> gone" using ok(2) by (auto simp: gone_def)
      then have "s3 = put_set k so' s1" by (simp add: s3_def)
      moreover have "set_elems so' = set_elems so" using so'(2) int by auto
      ultimately have "silent {} s s3" using silent_put_same [OF q1 2] by simp
      then show ?thesis using False unfolding eq by (simp add: silent_reply)
    qed
  qed
qed

lemma smove_silent:
  assumes inv: "srv_inv env s" and run: "smoveCommand cfg env src dst ele s = Some s'"
  shows "silent {} s s'"
proof -
  define s1 where "s1 = access cfg src s"
  define s2 where "s2 = access cfg dst s1"
  have inv1: "srv_inv env s1" and inv2: "srv_inv env s2" using srv_inv_access inv by (auto simp: s1_def s2_def)
  have q2: "silent K s s2" for K unfolding s1_def s2_def by (intro silent_intros)
  have lk: "lookupKeyWrite cfg src s = Some (s1, db_dict s1 src)" "lookupKeyWrite cfg dst s1 = Some (s2, db_dict s2 dst)"
    using lookupKeyWrite_ok [OF srv_invD(1)] inv inv1 by (simp_all add: s1_def s2_def del: access_sel)
  consider (stop) "db_dict s1 src = None \<or> checkType (db_dict s1 src) \<or> checkType (db_dict s2 dst)"
    | (same) "db_dict s2 dst \<noteq> None" "src = dst" "\<not> checkType (db_dict s1 src)" "\<not> checkType (db_dict s2 dst)" "db_dict s1 src \<noteq> None"
    | (move) "db_dict s1 src \<noteq> None" "\<not> checkType (db_dict s1 src)" "\<not> checkType (db_dict s2 dst)" "\<not> (db_dict s2 dst \<noteq> None \<and> src = dst)" by blast
  then show ?thesis
  proof cases
    case stop
    then show ?thesis using run lk q2 by (auto simp: smoveCommand_def intro!: silent_intros split: if_splits)
  next
    case same
    then obtain so where "get_set src s2 = Some so" using not_checkType by blast
    then obtain s3 b where "is_member src ele s2 = Some (s3, b)" "silent {} s2 s3" using is_member_silent [OF inv2] by blast
    then show ?thesis using run lk same silent_trans [OF q2] by (auto simp: smoveCommand_def intro!: silent_reply)
  next
    case move
    then have run2: "do {
       so \<leftarrow> get_set src s2;
       (so', removed) \<leftarrow> setTypeRemove env so ele;
       let s3 = put_set src so' s2;
       if \<not> removed then Some (addReply (ReplyInt 0) s3)
       else do {
         let s4 = notifyKeyspaceEvent NOTIFY_SET ''srem'' src s3;
         let s5 = (if setTypeSize so' = 0 then notifyKeyspaceEvent NOTIFY_GENERIC ''del'' src (fst (dbDelete cfg src s4)) else s4);
         s6 \<leftarrow> (if db_dict s2 dst = None then dbAdd dst (OBJ_SET (setTypeCreate env ele)) s5 else Some s5);
         let s7 = add_dirty 1 (signalModifiedKey dst (signalModifiedKey src s6));
         dso \<leftarrow> get_set dst s7;
         (dso', added) \<leftarrow> setTypeAdd env dso ele;
         let s8 = put_set dst dso' s7;
         let s9 = (if added then notifyKeyspaceEvent NOTIFY_SET ''sadd'' dst (add_dirty 1 s8) else s8);
         Some (addReply (ReplyInt 1) s9)
       }
     } = Some s'"
      using run lk by (simp add: smoveCommand_def split: if_splits)
    then obtain so so' removed where so: "get_set src s2 = Some so" "setTypeRemove env so ele = Some (so', removed)"
      by (auto simp: bind_eq_Some_conv)
    note ok = srv_inv_set [OF inv2 so(1)]
    show ?thesis
    proof (cases removed)
      case False
      then have "set_elems so' = set_elems so" using sset.remove_law [OF ok(1) _ ok(3), of ele] so(2) by auto
      then have "silent {} s (put_set src so' s2)" using silent_put_same [OF q2 so(1)] by simp
      then show ?thesis using run2 so False by (auto simp: Let_def intro!: silent_reply)
    next
      case True
      define s4 where "s4 = notifyKeyspaceEvent NOTIFY_SET ''srem'' src (put_set src so' s2)"
      define s5 where "s5 = (if setTypeSize so' = 0 then notifyKeyspaceEvent NOTIFY_GENERIC ''del'' src (fst (dbDelete cfg src s4)) else s4)"
      obtain s6 dso dso' added where
        s6: "(if db_dict s2 dst = None then dbAdd dst (OBJ_SET (setTypeCreate env ele)) s5 else Some s5) = Some s6"
        and s': "s' = addReply (ReplyInt 1) (if added then notifyKeyspaceEvent NOTIFY_SET ''sadd'' dst
          (add_dirty 1 (put_set dst dso' (add_dirty 1 (signalModifiedKey dst (signalModifiedKey src s6)))))
          else put_set dst dso' (add_dirty 1 (signalModifiedKey dst (signalModifiedKey src s6))))"
        using run2 so True unfolding s5_def s4_def by (auto simp: bind_eq_Some_conv Let_def simp del: dbDelete_eq)
      have "silent {src, dst} s s5" using q2 by (auto simp: s5_def s4_def intro!: silent_intros)
      then have q6: "silent {src, dst} s s6" using s6 silent_dbAdd by (auto split: if_splits)
      text \<open>The signals come before the element is added, so the order of the two is exchanged.\<close>
      have swap: "silent {} s (put_set dst dso' (add_dirty 1 (signalModifiedKey dst (signalModifiedKey src s6))))"
      proof -
        have "silent {} s (add_dirty 1 (signalModifiedKey dst (signalModifiedKey src (put_set dst dso' s6))))"
          by (intro silent_dirty silent_signal silent_put) (use q6 in \<open>auto elim: silent_mono\<close>)
        moreover have "add_dirty 1 (signalModifiedKey dst (signalModifiedKey src (put_set dst dso' s6)))
            = put_set dst dso' (add_dirty 1 (signalModifiedKey dst (signalModifiedKey src s6)))"
          by (cases s6) (simp add: put_set_def emit_def add_dirty_def)
        ultimately show ?thesis by simp
      qed
      then show ?thesis unfolding s' by (simp add: silent_reply silent_dirty silent_emit)
    qed
  qed
qed

lemma read_set_silent:
  assumes inv: "srv_inv env s"
  shows "\<exists>s1. lookupKeyRead cfg k s = Some (s1, seen cfg False s k) \<and> srv_inv env s1 \<and> silent {} s s1
    \<and> (seen cfg False s k \<noteq> None \<and> \<not> checkType (seen cfg False s k) \<longrightarrow> get_set k s1 \<noteq> None)"
  using read_ok [OF inv, of cfg k] looked_get [of cfg False env s _ k] by (fastforce simp: looked_def)

lemma sismember_silent:
  assumes inv: "srv_inv env s" and run: "sismemberCommand cfg k v s = Some s'" shows "silent {} s s'"
proof -
  obtain s1 where s1: "lookupKeyRead cfg k s = Some (s1, seen cfg False s k)" "srv_inv env s1" "silent {} s s1"
    "seen cfg False s k \<noteq> None \<and> \<not> checkType (seen cfg False s k) \<longrightarrow> get_set k s1 \<noteq> None"
    using read_set_silent [OF inv] by blast
  show ?thesis
  proof (cases "seen cfg False s k = None \<or> checkType (seen cfg False s k)")
    case True
    then show ?thesis using run s1(1,3) by (auto simp: sismemberCommand_def lookupKeyReadOrReply_def intro!: silent_reply split: if_splits)
  next
    case False
    then obtain s2 b where "is_member k v s1 = Some (s2, b)" "silent {} s1 s2" using s1(4) is_member_silent [OF s1(2)] by blast
    then show ?thesis using run s1(1) False silent_trans [OF s1(3)]
      by (auto simp: sismemberCommand_def lookupKeyReadOrReply_def intro!: silent_reply)
  qed
qed

lemma scard_silent:
  assumes inv: "srv_inv env s" and run: "scardCommand cfg k s = Some s'" shows "silent {} s s'"
proof -
  obtain s1 where "lookupKeyRead cfg k s = Some (s1, seen cfg False s k)" "silent {} s s1" using read_set_silent [OF inv] by blast
  then show ?thesis using run
    by (auto simp: scardCommand_def lookupKeyReadOrReply_def bind_eq_Some_conv intro!: silent_reply split: if_splits)
qed

lemma smismember_loop_silent:
  "srv_inv env s \<Longrightarrow> (ex \<longrightarrow> get_set k s \<noteq> None) \<Longrightarrow> smismember_loop ex k vs s = Some s' \<Longrightarrow> silent {} s s'"
proof (induction vs arbitrary: s)
  case Nil
  then show ?case by (simp add: silent_refl)
next
  case (Cons v vs)
  show ?case
  proof (cases ex)
    case True
    then obtain so where "get_set k s = Some so" using Cons.prems(2) by auto
    then obtain s1 b where s1: "is_member k v s = Some (s1, b)" "srv_inv env s1" "silent {} s s1" "get_set k s1 \<noteq> None"
      using is_member_silent [OF Cons.prems(1)] by blast
    let ?s = "addReply (ReplyInt (if b then 1 else 0)) s1"
    have "silent {} ?s s'" using Cons.IH [of ?s] Cons.prems(3) s1 True by simp
    then show ?thesis using silent_trans silent_reply [OF s1(3)] by blast
  next
    case False
    let ?s = "addReply (ReplyInt 0) s"
    have "silent {} ?s s'" using Cons.IH [of ?s] Cons.prems False by simp
    then show ?thesis using silent_trans silent_reply [OF silent_refl] by blast
  qed
qed

lemma smismember_silent:
  assumes inv: "srv_inv env s" and run: "smismemberCommand cfg k vs s = Some s'" shows "silent {} s s'"
proof -
  obtain s1 where s1: "lookupKeyRead cfg k s = Some (s1, seen cfg False s k)" "srv_inv env s1" "silent {} s s1"
    "seen cfg False s k \<noteq> None \<and> \<not> checkType (seen cfg False s k) \<longrightarrow> get_set k s1 \<noteq> None"
    using read_set_silent [OF inv] by blast
  let ?s = "addReply (ReplyArrayLen (int (length vs))) s1"
  have q: "silent {} s ?s" using s1(3) by (rule silent_reply)
  show ?thesis
  proof (cases "checkType (seen cfg False s k)")
    case True
    then show ?thesis using run s1(1,3) checkType_Some [OF True] by (auto simp: smismemberCommand_def intro!: silent_reply)
  next
    case False
    then have "smismember_loop (seen cfg False s k \<noteq> None) k vs ?s = Some s'" using run s1(1) by (simp add: smismemberCommand_def)
    then have "silent {} ?s s'" by (rule smismember_loop_silent [of env, rotated 2]) (use s1 False in simp_all)
    then show ?thesis using silent_trans [OF q] by blast
  qed
qed

lemma setKey_silent:
  assumes inv: "db_inv P s" and run: "setKey cfg k v s = Some s'" shows "silent {} s s'"
proof -
  define s1 where "s1 = access cfg k s"
  have q1: "silent K s s1" for K unfolding s1_def by (intro silent_intros)
  obtain s2 where s2: "(if db_dict s1 k = None then dbAdd k v s1 else dbOverwrite k v s1) = Some s2"
    and s': "s' = signalModifiedKey k (s2\<lparr>db_expires := (db_expires s2)(k := None)\<rparr>)"
    using run by (auto simp: setKey_def genericSetKey_def lookupKeyWrite_ok [OF inv] removeExpire_def bind_eq_Some_conv simp flip: s1_def)
  have "silent {k} s s2"
  proof (cases "db_dict s1 k = None")
    case True
    then show ?thesis using s2 silent_dbAdd [OF q1, of k v s2] by simp
  next
    case False
    then have "s2 = s1\<lparr>db_dict := (db_dict s1)(k \<mapsto> v)\<rparr>" using s2 by (auto simp: dbOverwrite_def bind_eq_Some_conv)
    then show ?thesis by (intro silent_change [OF q1]) (auto intro: content_cong)
  qed
  then have "silent {k} s (s2\<lparr>db_expires := (db_expires s2)(k := None)\<rparr>)" by (rule silent_change) (auto intro: content_cong)
  then show ?thesis unfolding s' by (rule silent_signal)
qed

lemma store_set_silent:
  assumes inv: "srv_inv env s" and run: "store_set cfg dstkey dst ev s = Some s'" shows "silent {} s s'"
proof (cases "setTypeSize dst > 0")
  case True
  then obtain s1 where "setKey cfg dstkey (OBJ_SET dst) s = Some s1"
    and s': "s' = add_dirty 1 (notifyKeyspaceEvent NOTIFY_SET ev dstkey (addReply (ReplyInt (int (setTypeSize dst))) s1))"
    using run by (auto simp: store_set_def bind_eq_Some_conv Let_def)
  then have "silent {} s s1" using setKey_silent [OF srv_invD(1) [OF inv]] by blast
  then show ?thesis unfolding s' by (simp add: silent_intros)
next
  case False
  let ?s = "addReply (ReplyInt 0) s"
  have q: "silent K s ?s" for K by (intro silent_intros)
  show ?thesis
  proof (cases "db_dict s dstkey = None")
    case True
    then have "silent {} s (delete_key dstkey ?s)" using srv_invD(1) [OF inv] by (intro silent_delete_absent [OF q]) auto
    then show ?thesis using run False True by (simp add: store_set_def Let_def)
  next
    case del: False
    have "silent {} s (signalModifiedKey dstkey (add_dirty 1 (delete_key dstkey ?s)))"
      by (intro silent_signal silent_dirty silent_delete q) simp
    then show ?thesis using run False del by (auto simp: store_set_def Let_def intro!: silent_emit [of _ _ "signalModifiedKey k x" for k x])
  qed
qed

lemma sinter_silent:
  assumes inv: "srv_inv env s" and fits: "fits cfg (CmdSinter keys dst) s" and run: "sinterGenericCommand cfg env keys dst s = Some s'"
  shows "silent {} s s'"
proof -
  obtain s1 r where l: "sinter_lookup cfg (dst \<noteq> None) keys s = Some (s1, r)" "looked cfg (dst \<noteq> None) env s s1"
    and r: "r = AllSets \<longrightarrow> (\<forall>k \<in> set keys. \<exists>so. seen cfg (dst \<noteq> None) s k = Some (OBJ_SET so))"
    using sinter_lookup_ok [OF inv, of cfg "dst \<noteq> None" keys] by blast
  have inv1: "srv_inv env s1" and q1: "silent {} s s1" using l(2) by (simp_all add: looked_def)
  show ?thesis
  proof (cases r)
    case AllSets
    obtain s1 s2 bulks d es where "looked cfg (dst \<noteq> None) env s s1" and c: "inter_collected env (dst \<noteq> None) s1 es (s2, bulks, d)"
      and eq: "sinterGenericCommand cfg env keys dst s = (case dst of
          Some k \<Rightarrow> store_set cfg k d ''sinterstore'' s2
        | None \<Rightarrow> Some (s2\<lparr>s_reply := s_reply s2 @ ReplySetLen (int (length bulks)) # map ReplyBulk bulks\<rparr>))"
      using sinterGeneric_start [OF inv, of keys cfg dst] r AllSets fits unfolding fits.simps by blast
    then have "silent {} s s1" "srv_inv env s2" "same_sets s1 s2" by (auto simp: looked_def inter_collected_def)
    then have inv2: "srv_inv env s2" and q2: "silent {} s s2" using silent_trans silent_same_sets by blast+
    show ?thesis
    proof (cases dst)
      case None
      then show ?thesis using run eq silent_replies [OF q2] by auto
    next
      case (Some k)
      then show ?thesis using run eq silent_trans [OF q2] store_set_silent [OF inv2] by auto
    qed
  next
    case Missing
    show ?thesis
    proof (cases dst)
      case None
      then show ?thesis using run l(1) Missing q1 by (auto simp: sinterGenericCommand_def intro!: silent_reply)
    next
      case (Some k)
      have "silent {k} s s1" using q1 silent_mono by blast
      then have "silent {} s (signalModifiedKey k (delete_key k s1))" by (intro silent_signal silent_delete) auto
      moreover have "silent {} s (delete_key k s1)" if "db_dict s1 k = None"
        using silent_delete_absent [OF q1 srv_invD(1) [OF inv1] that] .
      ultimately show ?thesis using run l(1) Missing Some
        by (auto simp: sinterGenericCommand_def Let_def intro!: silent_reply silent_dirty split: if_splits)
    qed
  next
    case WrongType
    then show ?thesis using run l(1) q1 by (auto simp: sinterGenericCommand_def intro!: silent_reply)
  qed
qed

lemma sunionDiff_silent:
  assumes inv: "srv_inv env s" and fits: "fits cfg (CmdSunionDiff op keys dst) s" and run: "sunionDiffGenericCommand cfg env op keys dst s = Some s'"
  shows "silent {} s s'"
proof (cases "\<exists>k \<in> set keys. checkType (seen cfg (dst \<noteq> None) s k)")
  case True
  then show ?thesis using union_lookup_wrongtype [OF inv True] run
    by (auto simp: sunionDiffGenericCommand_def looked_def intro!: silent_reply)
next
  case False
  then have types: "\<forall>k \<in> set keys. \<not> checkType (seen cfg (dst \<noteq> None) s k)" by blast
  obtain s1 s2 d where l: "looked cfg (dst \<noteq> None) env s s1" and inv2: "srv_inv env s2" and same: "same_sets s1 s2"
    and eq: "sunionDiffGenericCommand cfg env op keys dst s = (case dst of
          None \<Rightarrow> do {
             let s3 = addReply (ReplySetLen (int (card (set_elems d)))) s2;
             bulks \<leftarrow> set_texts env d;
             Some (s3\<lparr>s_reply := s_reply s3 @ map ReplyBulk bulks\<rparr>)
           }
        | Some k \<Rightarrow> store_set cfg k d (if op = SET_OP_UNION then ''sunionstore'' else ''sdiffstore'') s2)"
    using sunionDiff_start [OF inv types, of op] fits unfolding fits.simps by blast
  have q2: "silent {} s s2" using l same silent_trans silent_same_sets by (auto simp: looked_def)
  show ?thesis
  proof (cases dst)
    case None
    then obtain bulks where "s' = (addReply (ReplySetLen (int (card (set_elems d)))) s2)\<lparr>s_reply :=
        s_reply (addReply (ReplySetLen (int (card (set_elems d)))) s2) @ map ReplyBulk bulks\<rparr>"
      using run unfolding eq by (auto simp: bind_eq_Some_conv)
    then show ?thesis using q2 by (simp add: silent_replies silent_reply)
  next
    case (Some k)
    then show ?thesis using run eq silent_trans [OF q2] store_set_silent [OF inv2] by auto
  qed
qed

section \<open>All commands\<close>

lemma exec_silent:
  assumes inv: "srv_inv env s" and fits: "fits cfg cmd s" and run: "exec cfg c env cmd s = Some s'"
  shows "silent {} s s'"
proof -
  note db = srv_invD(1) [OF inv]
  show ?thesis
  proof (cases cmd)
    case (CmdDel lazy keys)
    then show ?thesis using run delGeneric_loop_silent [OF db]
      by (auto simp: delGenericCommand_def bind_eq_Some_conv intro!: silent_reply)
  next
    case (CmdExists keys)
    then show ?thesis using run exists_loop_silent [OF db] by (auto simp: existsCommand_def bind_eq_Some_conv intro!: silent_reply)
  next
    case (CmdTouch keys)
    then show ?thesis using run exists_loop_silent [OF db] by (auto simp: touchCommand_def bind_eq_Some_conv intro!: silent_reply)
  qed (use run fits rename_silent [OF db] expire_silent [OF db] ttl_silent [OF db] persist_silent [OF db] sadd_silent [OF inv]
      srem_silent [OF inv] smove_silent [OF inv] sismember_silent [OF inv] smismember_silent [OF inv] scard_silent [OF inv]
      sinter_silent [OF inv] sunionDiff_silent [OF inv] in \<open>simp_all del: fits.simps\<close>)
qed

text \<open>
  C8: Every command of the model signals every key whose content (the elements of a set, any other value,
  the deadline) it changes: deletions by lazy expiry, removals of the last element, overwritten destinations
  and changed deadlines included.
\<close>

theorem commands_signal:
  assumes "srv_inv env s" and "fits cfg cmd s" and "exec cfg c env cmd s = Some s'"
  shows "\<exists>evs. s_trace s' = s_trace s @ evs \<and> (\<forall>k. EvModified k \<notin> set evs \<longrightarrow> content s' k = content s k)"
  using exec_silent [OF assms] by (simp add: silent_def signalled_def)

theorem commands_signal_witness:
  "\<exists>s s' evs. set_at s [115] = {[120]} \<and> exec ex_config ex_client ex_env (CmdDel False [[115]]) s = Some s' \<and> s_trace s' = s_trace s @ evs
     \<and> EvModified [115] \<in> set evs \<and> content s' [116] = content s [116]"
proof -
  obtain so s where s: "set_elems so = {[120]}" "srv_inv ex_env s" "db_dict s = [[115] \<mapsto> OBJ_SET so]" "db_expires s = Map.empty"
    using ex_keyspace by blast
  obtain s1 n where s1: "delGeneric_loop ex_config False [[115]] 0 s = Some (s1, n)"
      "db_dict s1 = (\<lambda>k. if k \<in> set [[115]] then None else db_dict s k)" "db_expires s1 = (\<lambda>k. if k \<in> set [[115]] then None else db_expires s k)"
    using delGeneric_loop_ok [OF srv_invD(1) [OF s(2)], of ex_config False "[[115]]" 0] by blast
  define s' where "s' = addReply (ReplyInt (int n)) s1"
  have s': "exec ex_config ex_client ex_env (CmdDel False [[115]]) s = Some s'" "db_dict s' = Map.empty" "db_expires s' = Map.empty"
    using s1 s(3,4) by (simp_all add: delGenericCommand_def s'_def fun_eq_iff del: delGeneric_loop.simps)
  have "fits ex_config (CmdDel False [[115]]) s" by simp
  from commands_signal [OF s(2) this s'(1)] obtain evs where evs: "s_trace s' = s_trace s @ evs"
    "\<forall>k. EvModified k \<notin> set evs \<longrightarrow> content s' k = content s k" by blast
  have "content s' [115] \<noteq> content s [115]" using s s' by (simp add: content_def)
  then have "EvModified [115] \<in> set evs" using evs(2) by blast
  moreover have "content s' [116] = content s [116]" using s s' by (simp add: content_def)
  moreover have "set_at s [115] = {[120]}" using s by (simp add: set_at_def get_set_def)
  ultimately show ?thesis using s'(1) evs(1) by blast
qed

end
