(* ===== verification/Server_Transactions.thy ===== *)
theory Server_Transactions
  imports Server_Signals Transactions
begin

text \<open>
  Transactions over the commands of the server: the contract that optimistic locking needs of the commands
  is fulfilled by all commands of the model, since they signal every key whose content they change.
\<close>

section \<open>The commands as the executor of transactions\<close>

text \<open>
  A command runs with its configuration, its client and its environment, on the database 0.  The keys it signals
  are those of its events.  The environments share the hash seed \<open>h\<close>; commands beyond the sizes of \<open>fits\<close> are
  not covered by the model and not run.
\<close>

fun modified_keys :: "event list \<Rightarrow> wkey list" where
  "modified_keys [] = []"
| "modified_keys (EvModified k # evs) = (0, k) # modified_keys evs"
| "modified_keys (_ # evs) = modified_keys evs"

definition run_command :: "(byte list \<Rightarrow> u64) \<Rightarrow> (config \<times> client \<times> set_env, command, robj server) runner" where
  "run_command h ctx cmd dirty d = (case ctx of (cfg, c, env) \<Rightarrow>
     if env_hash env = h \<and> env_max_intset env < 536870911 \<and> fits cfg cmd d
     then do {
       d' \<leftarrow> exec cfg c env cmd (d\<lparr>s_dirty := dirty\<rparr>);
       Some (d', s_dirty d', modified_keys (drop (length (s_trace d)) (s_trace d')))
     }
     else None)"

definition data_ok :: "(byte list \<Rightarrow> u64) \<Rightarrow> robj server \<Rightarrow> bool" where
  "data_ok h d \<longleftrightarrow> (\<forall>env. env_hash env = h \<and> env_max_intset env < 536870911 \<longrightarrow> srv_inv env d)"

definition content_at :: "robj server \<Rightarrow> wkey \<Rightarrow> (byte list set + nat) option \<times> int option" where
  "content_at d wk = (if fst wk = 0 then content d (snd wk) else (None, None))"

lemma modified_keys_set: "set (modified_keys evs) = (\<lambda>k. (0, k)) ` signalled evs"
  by (induction evs rule: modified_keys.induct) (auto simp: signalled_def)

lemma fits_dirty: "fits cfg cmd (d\<lparr>s_dirty := n\<rparr>) = fits cfg cmd d"
proof -
  have e: "is_expired cfg (d\<lparr>s_dirty := n\<rparr>) = is_expired cfg d" by (simp add: is_expired_def fun_eq_iff)
  have a: "set_at (access cfg k (d\<lparr>s_dirty := n\<rparr>)) k' = set_at (access cfg k d) k'" for k k'
    by (simp add: set_at_def get_set_def e)
  have "seen_set cfg w (d\<lparr>s_dirty := n\<rparr>) = seen_set cfg w d" for w
    using seen_cong [of "d\<lparr>s_dirty := n\<rparr>" d cfg w] by (simp add: seen_set_def fun_eq_iff)
  then show ?thesis by (cases cmd) (simp_all add: a)
qed

interpretation redis: signalling "run_command h" content_at "data_ok h" for h
proof
  fix d ctx cmd dirty d' dirty' touched
  assume ok: "data_ok h d" and run: "run_command h ctx cmd dirty d = Some (d', dirty', touched)"
  obtain cfg c env where ctx: "ctx = (cfg, c, env)" by (cases ctx)
  let ?d = "d\<lparr>s_dirty := dirty\<rparr>"
  have env: "env_hash env = h" "env_max_intset env < 536870911" and fits: "fits cfg cmd ?d" and ex: "exec cfg c env cmd ?d = Some d'"
    and t: "touched = modified_keys (drop (length (s_trace d)) (s_trace d'))"
    using run by (auto simp: run_command_def ctx bind_eq_Some_conv fits_dirty split: if_splits)
  have "srv_inv env d" using ok env by (simp add: data_ok_def)
  then have inv: "srv_inv env ?d" by (simp add: srv_inv_def db_inv_def)
  have "srv_inv env d'" using exec_safe [OF inv fits, of c] ex by (simp add: cmd_safe_def)
  then have "data_ok h d'" using srv_inv_env env unfolding data_ok_def by metis
  moreover have "content_at d' wk = content_at d wk" if wk: "wk \<notin> set touched" for wk
  proof -
    obtain evs where evs: "s_trace d' = s_trace d @ evs" "\<forall>k. k \<notin> signalled evs \<longrightarrow> content d' k = content ?d k"
      using exec_silent [OF inv fits ex] by (auto simp: silent_def)
    have "snd wk \<notin> signalled evs" if "fst wk = 0" using wk that t evs(1) by (cases wk) (auto simp: modified_keys_set)
    then show ?thesis using evs(2) by (auto simp: content_at_def content_def)
  qed
  ultimately show "data_ok h d' \<and> (\<forall>wk. wk \<notin> set touched \<longrightarrow> content_at d' wk = content_at d wk)" by blast
qed

section \<open>Optimistic locking\<close>

text \<open>
  C3: Optimistic locking is sound.  If the content of a key (the elements of a set, any other value, the
  deadline) has changed since a client began to watch it, by whichever commands of whichever clients, then
  the client's \<open>EXEC\<close> executes nothing: the data set and what is propagated stay as they are, and the
  reply is null (or the abort error if a queued command was rejected).
\<close>

theorem watch_detects_changes:
  assumes path: "watched_path (run_command h) acl flags cid wk s t" and inv: "watch_inv s" "data_ok h (ms_data s)"
    and changed: "content_at (ms_data t) wk \<noteq> content_at (ms_data s) wk" and c: "ms_clients t cid = Some c" "m_multi c"
  shows "\<exists>u c'. process (run_command h) acl flags ctx cid ReqExec t = Some u \<and> ms_data u = ms_data t \<and> ms_propagated u = ms_propagated t \<and>
    ms_clients u cid = Some c' \<and> m_replies c' = m_replies c @ [if m_dirty_exec c then MExecAbort else MNullArray]"
proof -
  have t: "watch_inv t" "dirty_cas t cid" using redis.watched_path_keeps [OF path inv] changed by auto
  then have d: "m_dirty_cas c" using c by (simp add: dirty_cas_def)
  then obtain u where u: "process (run_command h) acl flags ctx cid ReqExec t = Some u" using exec_dirty_total [OF t(1) c] by blast
  show ?thesis using exec_nothing [OF t(1) c disjI1 [OF d] u] u by blast
qed

text \<open>Client 1 watches the key \<open>s\<close> and is in a transaction; client 2 adds an element to the set of this key.\<close>

definition ex_locking :: "(command, robj server) mserver" where
  "ex_locking = (new_mserver empty_server 0)\<lparr>ms_clients := [1 \<mapsto> new_mclient\<lparr>m_multi := True, m_watched := [(0, [115])]\<rparr>, 2 \<mapsto> new_mclient],
     ms_watchers := [((0, [115]), [1])]\<rparr>"

lemma ex_locking_step:
  "\<exists>t. process (run_command (env_hash ex_env)) (\<lambda>_ _. True) (\<lambda>_. 0) (\<lambda>_. (ex_config, ex_client, ex_env)) 2 (ReqCmd (Plain (CmdSadd [115] [[120]]))) ex_locking = Some t
    \<and> watching t 1 = [(0, [115])] \<and> content_at (ms_data t) (0, [115]) \<noteq> content_at (ms_data ex_locking) (0, [115])
    \<and> (\<exists>c. ms_clients t 1 = Some c \<and> m_multi c \<and> \<not> m_dirty_exec c \<and> m_replies c = [])"
proof -
  define s0 where "s0 = (empty_server :: robj server)"
  have s0: "srv_inv ex_env s0" "db_expires s0 = Map.empty" "db_dict s0 = Map.empty" "s0\<lparr>s_dirty := 0\<rparr> = s0"
    by (simp_all add: srv_inv_def db_inv_def empty_server_def ex_env_def s0_def)
  have at0: "set_at s0 [115] = {}" using s0(3) by (simp add: set_at_def get_set_def)
  have fits: "fits ex_config (CmdSadd [115] [[120]]) s0" using s0 at0 by simp
  obtain d where d: "exec ex_config ex_client ex_env (CmdSadd [115] [[120]]) s0 = Some d" "set_at d [115] = {[120]}"
    using saddCommand_ok [of ex_env s0 ex_config "[115]" "[[120]]"] s0 at0 by (auto simp: checkType_def)
  define ts where "ts = modified_keys (drop (length (s_trace s0)) (s_trace d))"
  have run: "run_command (env_hash ex_env) (ex_config, ex_client, ex_env) (CmdSadd [115] [[120]]) 0 s0 = Some (d, s_dirty d, ts)"
    using fits d(1) s0(4) by (simp add: run_command_def ts_def del: fits.simps) (simp add: ex_env_def)
  define s1 where "s1 = ex_locking\<lparr>ms_data := d, ms_dirty := s_dirty d\<rparr>"
  have l: "ms_data ex_locking = s0" "ms_dirty ex_locking = 0" "\<not> ms_in_exec s1" "ms_clients ex_locking 2 = Some new_mclient"
    by (simp_all add: ex_locking_def new_mserver_def s0_def s1_def)
  have "watch_inv s1" by (auto simp: watch_inv_def watchers_in_def watching_def s1_def ex_locking_def new_mserver_def new_mclient_def)
  then have touch: "touch_all ts s1 = Some (marked {cid. \<exists>wk \<in> set ts. wk \<in> set (watching s1 cid)} s1)" (is "_ = Some ?s2") by (rule touch_all_ok)
  have "\<exists>t. call_propagate p 0 ?s2 = Some t \<and> ms_clients t = ms_clients ?s2 \<and> ms_data t = d" for p
    using l(3) by (auto simp: call_propagate_def propagate_def s1_def)
  then obtain t where t: "call_propagate (PropCmd (Plain (CmdSadd [115] [[120]]))) 0 ?s2 = Some t" "ms_clients t = ms_clients ?s2" "ms_data t = d" by blast
  have "process (run_command (env_hash ex_env)) (\<lambda>_ _. True) (\<lambda>_. 0) (\<lambda>_. (ex_config, ex_client, ex_env)) 2 (ReqCmd (Plain (CmdSadd [115] [[120]]))) ex_locking = Some t"
    using run t(1) l touch by (simp add: process_def call_def new_mclient_def flip: s1_def)
  moreover have "watching t = watching ?s2" by (rule ext) (simp only: watching_def t(2))
  then have "watching t = watching s1" by simp
  then have "watching t 1 = [(0, [115])]" by (simp add: watching_def s1_def ex_locking_def)
  moreover have "\<exists>so. db_dict d [115] = Some (OBJ_SET so)" using d(2) by (auto simp: set_at_def get_set_def split: option.splits robj.splits)
  then have "content_at (ms_data t) (0, [115]) \<noteq> content_at (ms_data ex_locking) (0, [115])"
    using t(3) l(1) s0(3) by (auto simp: content_at_def content_def)
  moreover have "\<exists>c. ms_clients t 1 = Some c \<and> m_multi c \<and> \<not> m_dirty_exec c \<and> m_replies c = []"
    unfolding t(2) by (auto simp: marked_def s1_def ex_locking_def new_mclient_def)
  ultimately show ?thesis by blast
qed

theorem watch_detects_changes_witness:
  "\<exists>t u c. process (run_command (env_hash ex_env)) (\<lambda>_ _. True) (\<lambda>_. 0) (\<lambda>_. (ex_config, ex_client, ex_env)) 2 (ReqCmd (Plain (CmdSadd [115] [[120]]))) ex_locking = Some t
    \<and> process (run_command (env_hash ex_env)) (\<lambda>_ _. True) (\<lambda>_. 0) (\<lambda>_. (ex_config, ex_client, ex_env)) 1 ReqExec t = Some u
    \<and> ms_data u = ms_data t \<and> ms_clients u 1 = Some c \<and> m_replies c = [MNullArray]"
proof -
  obtain t c where t: "process (run_command (env_hash ex_env)) (\<lambda>_ _. True) (\<lambda>_. 0) (\<lambda>_. (ex_config, ex_client, ex_env)) 2 (ReqCmd (Plain (CmdSadd [115] [[120]]))) ex_locking = Some t"
    "watching t 1 = [(0, [115])]" "content_at (ms_data t) (0, [115]) \<noteq> content_at (ms_data ex_locking) (0, [115])"
    "ms_clients t 1 = Some c" "m_multi c" "\<not> m_dirty_exec c" "m_replies c = []"
    using ex_locking_step by blast
  have "watched_path (run_command (env_hash ex_env)) (\<lambda>_ _. True) (\<lambda>_. 0) 1 (0, [115]) ex_locking ex_locking"
    by (rule watched_path.start) (simp add: watching_def ex_locking_def)
  then have path: "watched_path (run_command (env_hash ex_env)) (\<lambda>_ _. True) (\<lambda>_. 0) 1 (0, [115]) ex_locking t"
    by (rule watched_path.step [OF _ t(1)]) (use t(2) in simp)
  have inv: "watch_inv ex_locking" by (auto simp: watch_inv_def watchers_in_def watching_def ex_locking_def new_mserver_def new_mclient_def)
  have ok: "data_ok (env_hash ex_env) (ms_data ex_locking)"
    by (simp add: data_ok_def srv_inv_def db_inv_def ex_locking_def new_mserver_def empty_server_def)
  show ?thesis using watch_detects_changes [OF path inv ok t(3,4,5), of "\<lambda>_. (ex_config, ex_client, ex_env)"] t(1,6,7) by auto
qed

end
