(* ===== verification/Lzf.thy ===== *)
theory Lzf
  imports Redis_Prelude
begin

text \<open>
  The LZF codec, \<open>lzf_c.c\<close> and \<open>lzf_d.c\<close>, as \<open>lzfP.h\<close> configures it on a 64-bit host
  (\<open>HLOG\<close> 16, \<open>VERY_FAST\<close>, \<open>INIT_HTAB\<close> 0, \<open>CHECK_INPUT\<close>, offsets in the hash table).

  Pointers are offsets into the buffer they point to; a buffer is the memory that is
  allocated at \<open>in_data\<close> or \<open>out_data\<close>, which may be larger than the length that is passed.
  The hash table is not initialised by the code: it is an argument the theorems quantify over.

  The format is specified by tokens (a literal run or a back reference).  The decompressor is
  shown to compute the expansion of every token sequence, and to stay inside its buffers on
  input that is no token sequence; the compressor is shown to emit tokens that expand to its input.
\<close>

section \<open>Byte accesses\<close>

definition peek :: "byte list \<Rightarrow> nat \<Rightarrow> byte option" where
  "peek buf i = (if i < length buf then Some (buf ! i) else None)"

definition poke :: "byte list \<Rightarrow> int \<Rightarrow> byte \<Rightarrow> byte list option" where
  "poke buf i b = (if 0 \<le> i \<and> nat i < length buf then Some (buf[nat i := b]) else None)"

lemma peek_ok [mem_simps]: "i < length buf \<Longrightarrow> peek buf i = Some (buf ! i)"
  by (simp add: peek_def)

lemma poke_ok [mem_simps]: "i < length buf \<Longrightarrow> poke buf (int i) b = Some (buf[i := b])"
  by (simp add: poke_def)

lemma poke_next:
  "Suc i < length buf \<Longrightarrow> poke buf (1 + int i) b = Some (buf[Suc i := b])"
  "Suc (Suc i) < length buf \<Longrightarrow> poke buf (2 + int i) b = Some (buf[Suc (Suc i) := b])"
  using poke_ok [of "Suc i" buf b] poke_ok [of "Suc (Suc i)" buf b] by (simp_all add: add.commute)

section \<open>Decompression\<close>

datatype lzf_errno = E2BIG | EINVAL

record lzf_dec =
  d_ip :: nat
  d_op :: nat
  d_out :: "byte list"

datatype 's lzf_next = Continue 's | Fail lzf_errno "byte list"

text \<open>\<open>*op++ = *ref++\<close>, \<open>n\<close> times.\<close>

fun copy_octets :: "nat \<Rightarrow> nat \<Rightarrow> nat \<Rightarrow> byte list \<Rightarrow> byte list option" where
  "copy_octets 0 dst src out = Some out"
| "copy_octets (Suc n) dst src out = do {
     b \<leftarrow> peek out src;
     out \<leftarrow> poke out (int dst) b;
     copy_octets n (dst + 1) (src + 1) out
   }"

text \<open>The \<open>switch (len)\<close>: up to 9 the fall-through cases copy \<open>len + 2\<close> octets.\<close>

definition copy_ref :: "byte list \<Rightarrow> nat \<Rightarrow> nat \<Rightarrow> nat \<Rightarrow> byte list option" where
  "copy_ref out op ref len =
     (if len \<le> 9 then copy_octets (len + 2) op ref out
      else if op \<ge> ref + (len + 2) then mem_move out op ref (len + 2)
      else copy_octets (len + 2) op ref out)"

text \<open>A literal run: \<open>ctrl\<close> is the control byte plus one.\<close>

definition dec_literal :: "byte list \<Rightarrow> nat \<Rightarrow> nat \<Rightarrow> nat \<Rightarrow> lzf_dec \<Rightarrow> lzf_dec lzf_next option" where
  "dec_literal inb in_len out_len ctrl s =
     (if d_op s + ctrl > out_len then Some (Fail E2BIG (d_out s))
      else if d_ip s + ctrl > in_len then Some (Fail EINVAL (d_out s))
      else do {
        bs \<leftarrow> mem_read inb (d_ip s) ctrl;
        out \<leftarrow> mem_write (d_out s) (d_op s) bs;
        Some (Continue (s\<lparr>d_ip := d_ip s + ctrl, d_op := d_op s + ctrl, d_out := out\<rparr>))
      })"

text \<open>The last byte of a back reference, the checks and the copy.\<close>

definition dec_copy :: "byte list \<Rightarrow> nat \<Rightarrow> nat \<Rightarrow> nat \<Rightarrow> lzf_dec \<Rightarrow> lzf_dec lzf_next option" where
  "dec_copy inb out_len ctrl len s = do {
     b \<leftarrow> peek inb (d_ip s);
     let ref = int (d_op s) - int ((ctrl mod 32) * 256) - 1 - int (unat b);
     if d_op s + len + 2 > out_len then Some (Fail E2BIG (d_out s))
     else if ref < 0 then Some (Fail EINVAL (d_out s))
     else do {
       out \<leftarrow> copy_ref (d_out s) (d_op s) (nat ref) len;
       Some (Continue (s\<lparr>d_ip := d_ip s + 1, d_op := d_op s + (len + 2), d_out := out\<rparr>))
     }
   }"

definition dec_backref :: "byte list \<Rightarrow> nat \<Rightarrow> nat \<Rightarrow> nat \<Rightarrow> lzf_dec \<Rightarrow> lzf_dec lzf_next option" where
  "dec_backref inb in_len out_len ctrl s =
     (let len = ctrl div 32 in
      if d_ip s \<ge> in_len then Some (Fail EINVAL (d_out s))
      else if len = 7 then do {
        b \<leftarrow> peek inb (d_ip s);
        let s = s\<lparr>d_ip := d_ip s + 1\<rparr>;
        if d_ip s \<ge> in_len then Some (Fail EINVAL (d_out s))
        else dec_copy inb out_len ctrl (len + unat b) s
      }
      else dec_copy inb out_len ctrl len s)"

text \<open>One turn of the \<open>while\<close> loop.\<close>

definition dec_step :: "byte list \<Rightarrow> nat \<Rightarrow> nat \<Rightarrow> lzf_dec \<Rightarrow> lzf_dec lzf_next option" where
  "dec_step inb in_len out_len s = do {
     c \<leftarrow> peek inb (d_ip s);
     let ctrl = unat c;
     let s = s\<lparr>d_ip := d_ip s + 1\<rparr>;
     if ctrl < 32 then dec_literal inb in_len out_len (ctrl + 1) s
     else dec_backref inb in_len out_len ctrl s
   }"

lemma dec_step_progress:
  assumes "dec_step inb in_len out_len s = Some (Continue s')"
  shows "d_ip s < d_ip s'"
  using assms
  by (auto simp: dec_step_def dec_literal_def dec_backref_def dec_copy_def Let_def bind_eq_Some_conv
      split: if_splits)

text \<open>The value returned, the \<open>errno\<close> when that is 0 on an error, and the output buffer.\<close>

function dec_loop :: "byte list \<Rightarrow> nat \<Rightarrow> nat \<Rightarrow> lzf_dec \<Rightarrow> (nat \<times> lzf_errno option \<times> byte list) option" where
  "dec_loop inb in_len out_len s =
     (if d_ip s < in_len then
        (case dec_step inb in_len out_len s of
           None \<Rightarrow> None
         | Some (Fail e out) \<Rightarrow> Some (0, Some e, out)
         | Some (Continue s') \<Rightarrow> dec_loop inb in_len out_len s')
      else Some (d_op s, None, d_out s))"
  by pat_completeness auto
termination
  by (relation "measure (\<lambda>(inb, in_len, out_len, s). in_len - d_ip s)")
     (auto dest: dec_step_progress)

declare dec_loop.simps [simp del]

definition lzf_decompress :: "byte list \<Rightarrow> nat \<Rightarrow> byte list \<Rightarrow> nat \<Rightarrow> (nat \<times> lzf_errno option \<times> byte list) option" where
  "lzf_decompress inb in_len outb out_len = dec_loop inb in_len out_len \<lparr>d_ip = 0, d_op = 0, d_out = outb\<rparr>"

section \<open>Compression\<close>

definition MAX_LIT :: nat where "MAX_LIT = 32"
definition MAX_OFF :: int where "MAX_OFF = 8192"
definition MAX_REF :: nat where "MAX_REF = 264"

lemmas lzf_limits = MAX_LIT_def MAX_OFF_def MAX_REF_def

definition FRST :: "byte list \<Rightarrow> nat \<Rightarrow> u32 option" where
  "FRST inb p = do { a \<leftarrow> peek inb p; b \<leftarrow> peek inb (p + 1); Some (push_bit 8 (ucast a) OR ucast b) }"

definition NEXT :: "byte list \<Rightarrow> u32 \<Rightarrow> nat \<Rightarrow> u32 option" where
  "NEXT inb v p = do { b \<leftarrow> peek inb (p + 2); Some (push_bit 8 v OR ucast b) }"

definition IDX :: "u32 \<Rightarrow> u32" where
  "IDX h = (drop_bit 8 h - h * 5) AND 65535"

record lzf_enc =
  e_ip :: nat
  e_op :: nat
  e_lit :: nat
  e_hval :: u32
  e_htab :: "int \<Rightarrow> u32"
  e_out :: "byte list"

text \<open>The test for a match at \<open>ref\<close>; \<open>off\<close> is computed in \<open>unsigned long\<close>.\<close>

definition ref_off :: "nat \<Rightarrow> nat \<Rightarrow> int" where
  "ref_off ip ref = (int ip - int ref - 1) mod 18446744073709551616"

definition is_match :: "byte list \<Rightarrow> nat \<Rightarrow> nat \<Rightarrow> bool option" where
  "is_match inb ip ref =
     (if ref_off ip ref < MAX_OFF \<and> ref > 0 then do {
        a \<leftarrow> peek inb (ref + 2);
        b \<leftarrow> peek inb (ip + 2);
        if a = b then do {
          u \<leftarrow> mem_read inb ref 2;
          v \<leftarrow> mem_read inb ip 2;
          Some (u = v)
        } else Some False
      } else Some False)"

text \<open>The unrolled comparisons: the length reached and whether a difference ended them.\<close>

fun probe :: "byte list \<Rightarrow> nat \<Rightarrow> nat \<Rightarrow> nat \<Rightarrow> nat \<Rightarrow> (nat \<times> bool) option" where
  "probe inb ref ip 0 len = Some (len, False)"
| "probe inb ref ip (Suc k) len = do {
     a \<leftarrow> peek inb (ref + (len + 1));
     b \<leftarrow> peek inb (ip + (len + 1));
     if a \<noteq> b then Some (len + 1, True) else probe inb ref ip k (len + 1)
   }"

text \<open>\<open>do len++; while (len < maxlen \<and> ref[len] == ip[len])\<close>.\<close>

function grow :: "byte list \<Rightarrow> nat \<Rightarrow> nat \<Rightarrow> nat \<Rightarrow> nat \<Rightarrow> nat option" where
  "grow inb ref ip maxlen len =
     (if len + 1 < maxlen then do {
        a \<leftarrow> peek inb (ref + (len + 1));
        b \<leftarrow> peek inb (ip + (len + 1));
        if a = b then grow inb ref ip maxlen (len + 1) else Some (len + 1)
      } else Some (len + 1))"
  by pat_completeness auto
termination
  by (relation "measure (\<lambda>(inb, ref, ip, maxlen, len). maxlen - len)") auto

declare grow.simps [simp del]

definition match_length :: "byte list \<Rightarrow> nat \<Rightarrow> nat \<Rightarrow> nat \<Rightarrow> nat option" where
  "match_length inb ref ip maxlen = do {
     (len, differs) \<leftarrow> (if maxlen > 16 then probe inb ref ip 16 2 else Some (2, False));
     if differs then Some len else grow inb ref ip maxlen len
   }"

text \<open>The two or three bytes of a back reference.\<close>

definition put_ref :: "byte list \<Rightarrow> nat \<Rightarrow> nat \<Rightarrow> nat \<Rightarrow> (byte list \<times> nat) option" where
  "put_ref out op off len =
     (if len < 7 then do {
        out \<leftarrow> poke out (int op) (word_of_nat (off div 256 + len * 32));
        out \<leftarrow> poke out (int (op + 1)) (word_of_nat off);
        Some (out, op + 2)
      } else do {
        out \<leftarrow> poke out (int op) (word_of_nat (off div 256 + 7 * 32));
        out \<leftarrow> poke out (int (op + 1)) (word_of_nat (len - 7));
        out \<leftarrow> poke out (int (op + 2)) (word_of_nat off);
        Some (out, op + 3)
      })"

text \<open>\<open>op[- lit - 1] = lit - 1\<close>.\<close>

definition stop_run :: "byte list \<Rightarrow> nat \<Rightarrow> nat \<Rightarrow> byte list option" where
  "stop_run out op lit = poke out (int op - int lit - 1) (word_of_int (int lit - 1))"

text \<open>What a turn of the main loop does: go on, leave the loop by \<open>break\<close>, or \<open>return 0\<close>.\<close>

datatype lzf_turn = Turn lzf_enc | Break lzf_enc | Full "byte list"

text \<open>\<open>hval = NEXT (hval, ip); htab[IDX (hval)] = ip - in_data; ip++\<close>.\<close>

definition rehash_octet :: "byte list \<Rightarrow> lzf_enc \<Rightarrow> lzf_enc option" where
  "rehash_octet inb s = do {
     hval \<leftarrow> NEXT inb (e_hval s) (e_ip s);
     Some (s\<lparr>e_hval := hval, e_htab := (e_htab s)(uint (IDX hval) := word_of_nat (e_ip s)), e_ip := e_ip s + 1\<rparr>)
   }"

definition enc_match :: "byte list \<Rightarrow> nat \<Rightarrow> nat \<Rightarrow> nat \<Rightarrow> lzf_enc \<Rightarrow> lzf_turn option" where
  "enc_match inb in_len out_len ref s = do {
     let ip = e_ip s;
     let op = e_op s;
     let lit = e_lit s;
     let off = nat (ref_off ip ref);
     let maxlen = min (in_len - ip - 2) MAX_REF;
     let undo = (if lit = 0 then 1 else 0);
     if op + 3 + 1 \<ge> out_len \<and> int op - int undo + 3 + 1 \<ge> int out_len then Some (Full (e_out s))
     else do {
       out \<leftarrow> stop_run (e_out s) op lit;
       let op = op - undo;
       len \<leftarrow> match_length inb ref ip maxlen;
       let len = len - 2;
       (out, op) \<leftarrow> put_ref out op off len;
       let s = s\<lparr>e_ip := ip + 1 + (len + 1), e_op := op + 1, e_lit := 0, e_out := out\<rparr>;
       if e_ip s + 2 \<ge> in_len then Some (Break s)
       else do {
         let s = s\<lparr>e_ip := e_ip s - 2\<rparr>;
         hval \<leftarrow> FRST inb (e_ip s);
         s \<leftarrow> rehash_octet inb (s\<lparr>e_hval := hval\<rparr>);
         s \<leftarrow> rehash_octet inb s;
         Some (Turn s)
       }
     }
   }"

text \<open>\<open>lit++; *op++ = *ip++\<close>, closing the run when it is \<open>MAX_LIT\<close> long.\<close>

definition put_literal :: "byte list \<Rightarrow> lzf_enc \<Rightarrow> lzf_enc option" where
  "put_literal inb s = do {
     b \<leftarrow> peek inb (e_ip s);
     out \<leftarrow> poke (e_out s) (int (e_op s)) b;
     let s = s\<lparr>e_lit := e_lit s + 1, e_op := e_op s + 1, e_ip := e_ip s + 1, e_out := out\<rparr>;
     if e_lit s = MAX_LIT then do {
       out \<leftarrow> stop_run (e_out s) (e_op s) (e_lit s);
       Some (s\<lparr>e_lit := 0, e_op := e_op s + 1, e_out := out\<rparr>)
     } else Some s
   }"

definition enc_literal :: "byte list \<Rightarrow> nat \<Rightarrow> lzf_enc \<Rightarrow> lzf_turn option" where
  "enc_literal inb out_len s =
     (if e_op s \<ge> out_len then Some (Full (e_out s))
      else do { s \<leftarrow> put_literal inb s; Some (Turn s) })"

definition enc_step :: "byte list \<Rightarrow> nat \<Rightarrow> nat \<Rightarrow> lzf_enc \<Rightarrow> lzf_turn option" where
  "enc_step inb in_len out_len s = do {
     hval \<leftarrow> NEXT inb (e_hval s) (e_ip s);
     let ref = unat (e_htab s (uint (IDX hval)));
     let s = s\<lparr>e_hval := hval, e_htab := (e_htab s)(uint (IDX hval) := word_of_nat (e_ip s))\<rparr>;
     found \<leftarrow> is_match inb (e_ip s) ref;
     if found then enc_match inb in_len out_len ref s else enc_literal inb out_len s
   }"

lemma enc_step_progress:
  assumes "enc_step inb in_len out_len s = Some (Turn s')"
  shows "e_ip s < e_ip s'"
  using assms
  by (auto simp: enc_step_def enc_match_def enc_literal_def put_literal_def rehash_octet_def Let_def
      bind_eq_Some_conv split: if_splits)

text \<open>The main loop: \<open>Inl\<close> is \<open>return 0\<close>, \<open>Inr\<close> the state after the loop.\<close>

function enc_loop :: "byte list \<Rightarrow> nat \<Rightarrow> nat \<Rightarrow> lzf_enc \<Rightarrow> (byte list + lzf_enc) option" where
  "enc_loop inb in_len out_len s =
     (if e_ip s + 2 < in_len then
        (case enc_step inb in_len out_len s of
           None \<Rightarrow> None
         | Some (Full out) \<Rightarrow> Some (Inl out)
         | Some (Break s') \<Rightarrow> Some (Inr s')
         | Some (Turn s') \<Rightarrow> enc_loop inb in_len out_len s')
      else Some (Inr s))"
  by pat_completeness auto
termination
  by (relation "measure (\<lambda>(inb, in_len, out_len, s). in_len - e_ip s)")
     (auto dest: enc_step_progress)

declare enc_loop.simps [simp del]

lemma put_literal_progress: "put_literal inb s = Some s' \<Longrightarrow> e_ip s < e_ip s'"
  by (auto simp: put_literal_def Let_def bind_eq_Some_conv split: if_splits)

text \<open>The last octets of the input.\<close>

function enc_tail :: "byte list \<Rightarrow> nat \<Rightarrow> lzf_enc \<Rightarrow> lzf_enc option" where
  "enc_tail inb in_len s =
     (if e_ip s < in_len then
        (case put_literal inb s of None \<Rightarrow> None | Some s' \<Rightarrow> enc_tail inb in_len s')
      else Some s)"
  by pat_completeness auto
termination
  by (relation "measure (\<lambda>(inb, in_len, s). in_len - e_ip s)")
     (auto dest: put_literal_progress)

declare enc_tail.simps [simp del]

definition enc_finish :: "byte list \<Rightarrow> nat \<Rightarrow> nat \<Rightarrow> lzf_enc \<Rightarrow> (nat \<times> byte list) option" where
  "enc_finish inb in_len out_len s =
     (if e_op s + 3 > out_len then Some (0, e_out s)
      else do {
        s \<leftarrow> enc_tail inb in_len s;
        out \<leftarrow> stop_run (e_out s) (e_op s) (e_lit s);
        Some (e_op s - (if e_lit s = 0 then 1 else 0), out)
      })"

definition lzf_compress :: "(int \<Rightarrow> u32) \<Rightarrow> byte list \<Rightarrow> nat \<Rightarrow> byte list \<Rightarrow> nat \<Rightarrow> (nat \<times> byte list) option" where
  "lzf_compress htab inb in_len outb out_len =
     (if in_len = 0 \<or> out_len = 0 then Some (0, outb)
      else do {
        hval \<leftarrow> FRST inb 0;
        r \<leftarrow> enc_loop inb in_len out_len
               \<lparr>e_ip = 0, e_op = 1, e_lit = 0, e_hval = hval, e_htab = htab, e_out = outb\<rparr>;
        case r of Inl out \<Rightarrow> Some (0, out) | Inr s \<Rightarrow> enc_finish inb in_len out_len s
      })"


section \<open>The format\<close>

text \<open>
  A compressed stream is a sequence of tokens: \<open>Lit bs\<close> is a run of 1 to 32 octets,
  \<open>Ref off len\<close> copies \<open>len + 2\<close> octets from \<open>off + 1\<close> octets back.
\<close>

datatype token = Lit "byte list" | Ref nat nat

fun emit :: "token \<Rightarrow> byte list" where
  "emit (Lit bs) = word_of_nat (length bs - 1) # bs"
| "emit (Ref off len) =
     (if len < 7 then [word_of_nat (off div 256 + len * 32), word_of_nat off]
      else [word_of_nat (off div 256 + 224), word_of_nat (len - 7), word_of_nat off])"

fun token_ok :: "nat \<Rightarrow> token \<Rightarrow> bool" where
  "token_ok n (Lit bs) \<longleftrightarrow> bs \<noteq> [] \<and> length bs \<le> 32"
| "token_ok n (Ref off len) \<longleftrightarrow> 1 \<le> len \<and> len \<le> 262 \<and> off < 8192 \<and> off < n"

fun copy_back :: "nat \<Rightarrow> nat \<Rightarrow> byte list \<Rightarrow> byte list" where
  "copy_back 0 off p = p"
| "copy_back (Suc n) off p = copy_back n off (p @ [p ! (length p - 1 - off)])"

fun apply_token :: "byte list \<Rightarrow> token \<Rightarrow> byte list" where
  "apply_token p (Lit bs) = p @ bs"
| "apply_token p (Ref off len) = copy_back (len + 2) off p"

fun expand :: "byte list \<Rightarrow> token list \<Rightarrow> byte list option" where
  "expand p [] = Some p"
| "expand p (t # ts) = (if token_ok (length p) t then expand (apply_token p t) ts else None)"

definition emits :: "token list \<Rightarrow> byte list" where
  "emits ts = concat (map emit ts)"

lemma emits_simps [simp]: "emits [] = []" "emits (t # ts) = emit t @ emits ts"
  "emits (ts @ us) = emits ts @ emits us"
  by (simp_all add: emits_def)

lemma expand_append: "expand p (ts @ us) = (case expand p ts of None \<Rightarrow> None | Some q \<Rightarrow> expand q us)"
  by (induction p ts rule: expand.induct) auto

lemma length_copy_back [simp]: "length (copy_back n off p) = length p + n"
  by (induction n arbitrary: p) auto

lemma expand_length: "expand p ts = Some q \<Longrightarrow> length p \<le> length q"
proof (induction p ts rule: expand.induct)
  case (2 p t ts)
  have "length p \<le> length (apply_token p t)" by (cases t) auto
  with 2 show ?case by (auto split: if_splits)
qed simp

lemma copy_back_period:
  assumes "off < ip" and "ip + n \<le> length xs"
    and "\<forall>k < n. xs ! (ip + k) = xs ! (ip - 1 - off + k)"
  shows "copy_back n off (take ip xs) = take (ip + n) xs"
  using assms
proof (induction n arbitrary: ip)
  case (Suc n)
  have "take ip xs @ [take ip xs ! (length (take ip xs) - 1 - off)] = take (Suc ip) xs"
    using Suc.prems(1,2) Suc.prems(3) [rule_format, of 0] by (simp add: take_Suc_conv_app_nth min_def)
  moreover have "\<forall>k<n. xs ! (Suc ip + k) = xs ! (Suc ip - 1 - off + k)"
    using Suc.prems(1) Suc.prems(3) [rule_format, of "Suc k" for k] by (auto simp: Suc_diff_Suc)
  then have "copy_back n off (take (Suc ip) xs) = take (Suc ip + n) xs"
    using Suc.prems by (intro Suc.IH) auto
  ultimately show ?case by simp
qed simp

section \<open>The decompressor computes the expansion\<close>

lemma copy_octets_ok:
  assumes "src < dst" and "dst + n \<le> length out"
  shows "\<exists>out'. copy_octets n dst src out = Some out' \<and> length out' = length out \<and>
     take (dst + n) out' = copy_back n (dst - 1 - src) (take dst out) \<and>
     drop (dst + n) out' = drop (dst + n) out"
  using assms
proof (induction n arbitrary: dst src out)
  case (Suc n)
  let ?o = "out[dst := out ! src]"
  obtain out' where "copy_octets n (dst + 1) (src + 1) ?o = Some out'" "length out' = length out"
    "take (dst + 1 + n) out' = copy_back n (dst + 1 - 1 - (src + 1)) (take (dst + 1) ?o)"
    "drop (dst + 1 + n) out' = drop (dst + 1 + n) ?o"
    using Suc.IH [of "src + 1" "dst + 1" ?o] Suc.prems by auto
  moreover have "take (dst + 1) ?o = take dst out @ [take dst out ! (length (take dst out) - 1 - (dst - 1 - src))]"
    using Suc.prems by (simp add: take_Suc_conv_app_nth min_def)
  ultimately show ?case using Suc.prems by (simp add: mem_simps)
qed simp

lemma copy_octets_move:
  assumes "src + n \<le> dst" and "dst + n \<le> length out"
  shows "mem_move out dst src n = copy_octets n dst src out"
  using assms
proof (induction n arbitrary: dst src out)
  case 0
  then show ?case by (simp add: mem_move_ok)
next
  case (Suc n)
  have "copy_octets (Suc n) dst src out = mem_move (out[dst := out ! src]) (dst + 1) (src + 1) n"
    using Suc.IH [of "src + 1" "dst + 1" "out[dst := out ! src]"] Suc.prems by (simp add: peek_ok poke_ok)
  also have "\<dots> = Some (take (dst + 1) (out[dst := out ! src]) @ take n (drop (src + 1) (out[dst := out ! src]))
      @ drop (dst + 1 + n) (out[dst := out ! src]))"
    using Suc.prems by (simp add: mem_simps)
  also have "take n (drop (src + 1) (out[dst := out ! src])) = take n (drop (src + 1) out)"
    using Suc.prems by (simp add: take_drop)
  also have "take (dst + 1) (out[dst := out ! src]) = take dst out @ [out ! src]"
    using Suc.prems by (simp add: take_Suc_conv_app_nth)
  also have "(take dst out @ [out ! src]) @ take n (drop (src + 1) out) @ drop (dst + 1 + n) (out[dst := out ! src])
      = take dst out @ take (Suc n) (drop src out) @ drop (dst + Suc n) out"
    using Suc.prems by (simp add: Cons_nth_drop_Suc [of src, symmetric])
  finally show ?case using Suc.prems by (simp add: mem_move_ok)
qed

lemma copy_ref_ok:
  assumes "ref < op" and "op + (len + 2) \<le> length out"
  shows "\<exists>out'. copy_ref out op ref len = Some out' \<and> length out' = length out \<and>
     take (op + (len + 2)) out' = copy_back (len + 2) (op - 1 - ref) (take op out) \<and>
     drop (op + (len + 2)) out' = drop (op + (len + 2)) out"
proof -
  have "copy_ref out op ref len = copy_octets (len + 2) op ref out"
    using assms by (simp add: copy_ref_def copy_octets_move del: copy_octets.simps)
  with copy_octets_ok [OF assms] show ?thesis by simp
qed

text \<open>What stays of the output buffer, whatever the input.\<close>

definition kept :: "nat \<Rightarrow> byte list \<Rightarrow> byte list \<Rightarrow> bool" where
  "kept n out out' \<longleftrightarrow> length out' = length out \<and> drop n out' = drop n out"

lemma kept_refl [simp]: "kept n out out"
  by (simp add: kept_def)

lemma kept_trans: "kept n a b \<Longrightarrow> kept n b c \<Longrightarrow> kept n a c"
  by (simp add: kept_def)

lemma kept_mono: "kept m out out' \<Longrightarrow> m \<le> n \<Longrightarrow> kept n out out'"
  unfolding kept_def by (metis drop_drop le_add_diff_inverse2)

lemma dec_literal_ok:
  assumes "in_len \<le> length inb" and "out_len \<le> length (d_out s)"
    and "d_ip s + n \<le> in_len" and "d_op s + n \<le> out_len"
  shows "\<exists>out. dec_literal inb in_len out_len n s =
      Some (Continue (s\<lparr>d_ip := d_ip s + n, d_op := d_op s + n, d_out := out\<rparr>)) \<and>
    take (d_op s + n) out = take (d_op s) (d_out s) @ take n (drop (d_ip s) inb) \<and>
    kept (d_op s + n) (d_out s) out"
  using assms
  by (intro exI [of _ "take (d_op s) (d_out s) @ take n (drop (d_ip s) inb) @ drop (d_op s + n) (d_out s)"])
     (simp add: dec_literal_def mem_simps kept_def)

lemma dec_copy_ok:
  assumes "d_ip s < length inb" and "out_len \<le> length (d_out s)"
    and off: "off = (ctrl mod 32) * 256 + unat (inb ! d_ip s)"
    and "off < d_op s" and "d_op s + len + 2 \<le> out_len"
  shows "\<exists>out. dec_copy inb out_len ctrl len s =
      Some (Continue (s\<lparr>d_ip := d_ip s + 1, d_op := d_op s + (len + 2), d_out := out\<rparr>)) \<and>
    take (d_op s + (len + 2)) out = copy_back (len + 2) off (take (d_op s) (d_out s)) \<and>
    kept (d_op s + (len + 2)) (d_out s) out"
proof -
  let ?ref = "int (d_op s) - int ((ctrl mod 32) * 256) - 1 - int (unat (inb ! d_ip s))"
  have ref: "?ref = int (d_op s - 1 - off)" using off assms(4) by simp
  obtain out where out: "copy_ref (d_out s) (d_op s) (d_op s - 1 - off) len = Some out"
    "length out = length (d_out s)"
    "take (d_op s + (len + 2)) out = copy_back (len + 2) (d_op s - 1 - (d_op s - 1 - off)) (take (d_op s) (d_out s))"
    "drop (d_op s + (len + 2)) out = drop (d_op s + (len + 2)) (d_out s)"
    using copy_ref_ok [of "d_op s - 1 - off" "d_op s" len "d_out s"] assms by auto
  have "dec_copy inb out_len ctrl len s =
      Some (Continue (s\<lparr>d_ip := d_ip s + 1, d_op := d_op s + (len + 2), d_out := out\<rparr>))"
    using assms(1,5) out(1) unfolding dec_copy_def by (simp only: peek_ok option.simps bind.simps Let_def ref) simp
  with out assms(4) show ?thesis by (auto simp: kept_def)
qed


text \<open>
  The bytes of the next token, read through the bounds of the input.\<close>

lemma drop_take_append:
  assumes "drop i (take n xs) = ys @ zs" and "k < length ys"
  shows "i + k < n \<and> i + k < length xs \<and> xs ! (i + k) = ys ! k"
proof -
  have "k < length (drop i (take n xs))" using assms by simp
  then have "i + k < n" "i + k < length xs" by auto
  moreover have "xs ! (i + k) = drop i (take n xs) ! k" using calculation by simp
  ultimately show ?thesis using assms by (simp add: nth_append)
qed

lemma unat_byte: "n < 256 \<Longrightarrow> unat (word_of_nat n :: byte) = n"
  by (simp add: unat_of_nat)

lemma ctrl_parts: "k < 32 \<Longrightarrow> (k + n * 32) mod 32 = k \<and> (k + n * 32) div 32 = (n :: nat)"
  by simp

lemma dec_step_lit:
  assumes "in_len \<le> length inb" and at: "drop (d_ip s) (take in_len inb) = emit (Lit bs) @ rest"
    and "bs \<noteq> []" and "length bs \<le> 32"
  shows "dec_step inb in_len out_len s = dec_literal inb in_len out_len (length bs) (s\<lparr>d_ip := d_ip s + 1\<rparr>)"
    and "d_ip s + 1 + length bs \<le> in_len" and "take (length bs) (drop (d_ip s + 1) inb) = bs"
proof -
  have c: "d_ip s < length inb" "inb ! d_ip s = word_of_nat (length bs - 1)"
    using drop_take_append [OF at, of 0] by auto
  show len: "d_ip s + 1 + length bs \<le> in_len"
    using drop_take_append [OF at, of "length bs"] by auto
  show "take (length bs) (drop (d_ip s + 1) inb) = bs"
    using arg_cong [OF at, of "\<lambda>xs. take (length bs) (drop 1 xs)"] len assms(1)
    by (simp add: take_drop min_def)
  have "unat (inb ! d_ip s) = length bs - 1" unfolding c(2) using assms(4) by (intro unat_byte) linarith
  then have "unat (inb ! d_ip s) + 1 = length bs" "unat (inb ! d_ip s) < 32"
    using assms(3,4) by (cases bs; simp)+
  then show "dec_step inb in_len out_len s = dec_literal inb in_len out_len (length bs) (s\<lparr>d_ip := d_ip s + 1\<rparr>)"
    using c(1) by (simp add: dec_step_def peek_ok Let_def)
qed

lemma dec_step_ref:
  assumes "in_len \<le> length inb" and at: "drop (d_ip s) (take in_len inb) = emit (Ref off len) @ rest"
    and off: "off < 8192" "1 \<le> len" "len \<le> 262"
  shows "\<exists>ctrl s'. dec_step inb in_len out_len s = dec_copy inb out_len ctrl len s' \<and>
    s' = s\<lparr>d_ip := d_ip s + length (emit (Ref off len)) - 1\<rparr> \<and> d_ip s' < length inb \<and>
    off = (ctrl mod 32) * 256 + unat (inb ! d_ip s')"
proof -
  have lo: "unat (word_of_nat off :: byte) = off mod 256" by (simp add: unat_of_nat)
  have small: "off div 256 < 32" using off(1) by simp
  show ?thesis
  proof (cases "len < 7")
    case True
    define ctrl where "ctrl = off div 256 + len * 32"
    have c: "d_ip s < length inb" "inb ! d_ip s = word_of_nat ctrl"
      "d_ip s + 1 < length inb" "d_ip s + 1 < in_len" "inb ! (d_ip s + 1) = word_of_nat off"
      using drop_take_append [OF at, of 0] drop_take_append [OF at, of 1] True by (auto simp: ctrl_def)
    have u: "unat (inb ! d_ip s) = ctrl"
      unfolding c(2) using small True by (intro unat_byte) (simp add: ctrl_def)
    have parts: "ctrl mod 32 = off div 256" "ctrl div 32 = len" "\<not> ctrl < 32"
      using small off(2) by (auto simp: ctrl_def)
    have "dec_step inb in_len out_len s = dec_copy inb out_len ctrl len (s\<lparr>d_ip := d_ip s + 1\<rparr>)"
      using c(1,4) True parts by (simp add: dec_step_def dec_backref_def peek_ok Let_def u)
    then show ?thesis using True c parts(1) lo by auto
  next
    case False
    define ctrl where "ctrl = off div 256 + 224"
    have c: "d_ip s < length inb" "inb ! d_ip s = word_of_nat ctrl"
      "d_ip s + 1 < length inb" "d_ip s + 1 < in_len" "inb ! (d_ip s + 1) = word_of_nat (len - 7)"
      "d_ip s + 2 < length inb" "d_ip s + 2 < in_len" "inb ! (d_ip s + 2) = word_of_nat off"
      using drop_take_append [OF at, of 0] drop_take_append [OF at, of 1] drop_take_append [OF at, of 2]
        False by (auto simp: ctrl_def)
    have u: "unat (inb ! d_ip s) = ctrl" unfolding c(2) using small by (intro unat_byte) (simp add: ctrl_def)
    have "unat (inb ! (d_ip s + 1)) = len - 7" unfolding c(5) using off(3) by (intro unat_byte) linarith
    then have l: "7 + unat (inb ! Suc (d_ip s)) = len" using False by simp
    have parts: "ctrl mod 32 = off div 256" "ctrl div 32 = 7" "\<not> ctrl < 32"
      using ctrl_parts [OF small, of 7] by (simp_all add: ctrl_def)
    have "dec_step inb in_len out_len s = dec_copy inb out_len ctrl len (s\<lparr>d_ip := d_ip s + 1 + 1\<rparr>)"
      using c(1,3,4,7) parts by (simp add: dec_step_def dec_backref_def peek_ok Let_def u l)
    then show ?thesis using False c parts(1) lo by auto
  qed
qed

lemma dec_step_token:
  assumes "in_len \<le> length inb" and "out_len \<le> length (d_out s)"
    and at: "drop (d_ip s) (take in_len inb) = emit t @ rest"
    and ok: "token_ok (d_op s) t" and fit: "length (apply_token p t) \<le> out_len"
    and p: "p = take (d_op s) (d_out s)" "length p = d_op s"
  shows "\<exists>s'. dec_step inb in_len out_len s = Some (Continue s') \<and>
    d_ip s' = d_ip s + length (emit t) \<and> d_op s' = length (apply_token p t) \<and>
    take (d_op s') (d_out s') = apply_token p t \<and> kept (d_op s') (d_out s) (d_out s')"
proof (cases t)
  case (Lit bs)
  let ?s = "s\<lparr>d_ip := d_ip s + 1\<rparr>"
  note step = dec_step_lit [OF assms(1) at [unfolded Lit]]
  obtain out where "dec_literal inb in_len out_len (length bs) ?s =
      Some (Continue (?s\<lparr>d_ip := d_ip ?s + length bs, d_op := d_op ?s + length bs, d_out := out\<rparr>))"
    "take (d_op ?s + length bs) out = take (d_op ?s) (d_out ?s) @ take (length bs) (drop (d_ip ?s) inb)"
    "kept (d_op ?s + length bs) (d_out ?s) out"
    using dec_literal_ok [of in_len inb out_len ?s "length bs"] assms(1,2) ok step fit p Lit by auto
  then show ?thesis using step ok p Lit by simp
next
  case (Ref off len)
  have off: "off < 8192" "off < d_op s" "1 \<le> len" "len \<le> 262" using ok Ref by auto
  obtain ctrl s1 where step: "dec_step inb in_len out_len s = dec_copy inb out_len ctrl len s1"
    "s1 = s\<lparr>d_ip := d_ip s + length (emit t) - 1\<rparr>" "d_ip s1 < length inb"
    "off = (ctrl mod 32) * 256 + unat (inb ! d_ip s1)"
    using dec_step_ref [OF assms(1) at [unfolded Ref] off(1,3,4), of out_len] Ref by blast
  have s1: "d_op s1 = d_op s" "d_out s1 = d_out s" "d_ip s1 + 1 = d_ip s + length (emit t)"
    using step(2) Ref by auto
  have fit': "d_op s1 + len + 2 \<le> out_len" using fit p(2) by (simp add: Ref s1 del: copy_back.simps)
  obtain out where "dec_copy inb out_len ctrl len s1 =
      Some (Continue (s1\<lparr>d_ip := d_ip s1 + 1, d_op := d_op s1 + (len + 2), d_out := out\<rparr>))"
    "take (d_op s1 + (len + 2)) out = copy_back (len + 2) off (take (d_op s1) (d_out s1))"
    "kept (d_op s1 + (len + 2)) (d_out s1) out"
    using dec_copy_ok [OF step(3) _ step(4) _ fit'] assms(2) off(2) unfolding s1 by blast
  then show ?thesis using p Ref step(1) s1 by (simp del: copy_back.simps)
qed

lemma dec_loop_expand:
  assumes "in_len \<le> length inb" and "out_len \<le> length (d_out s)"
    and "drop (d_ip s) (take in_len inb) = emits ts"
    and "take (d_op s) (d_out s) = p" and "length p = d_op s"
    and "expand p ts = Some q" and "length q \<le> out_len"
  shows "\<exists>out. dec_loop inb in_len out_len s = Some (length q, None, out) \<and>
    take (length q) out = q \<and> kept (length q) (d_out s) out"
  using assms(2-)
proof (induction ts arbitrary: s p)
  case Nil
  then have "in_len \<le> d_ip s" using assms(1) by simp
  then show ?case using Nil by (simp add: dec_loop.simps)
next
  case (Cons t ts)
  have tok: "token_ok (length p) t" "expand (apply_token p t) ts = Some q"
    using Cons.prems(5) by (auto split: if_splits)
  have at: "drop (d_ip s) (take in_len inb) = emit t @ emits ts" using Cons.prems(2) by simp
  have fit: "length (apply_token p t) \<le> out_len" using expand_length [OF tok(2)] Cons.prems(6) by simp
  obtain s' where s': "dec_step inb in_len out_len s = Some (Continue s')"
    "d_ip s' = d_ip s + length (emit t)" "d_op s' = length (apply_token p t)"
    "take (d_op s') (d_out s') = apply_token p t" "kept (d_op s') (d_out s) (d_out s')"
    using dec_step_token [OF assms(1) Cons.prems(1) at] tok(1) fit Cons.prems(3,4) by metis
  have "d_ip s < in_len" using drop_take_append [OF at, of 0] by (cases t) auto
  then have "dec_loop inb in_len out_len s = dec_loop inb in_len out_len s'"
    by (simp add: dec_loop.simps [of inb in_len out_len s] s'(1))
  moreover have "drop (d_ip s') (take in_len inb) = emits ts"
    using arg_cong [OF at, of "drop (length (emit t))"] by (simp add: s'(2) add.commute)
  then have "\<exists>out. dec_loop inb in_len out_len s' = Some (length q, None, out) \<and>
      take (length q) out = q \<and> kept (length q) (d_out s') out"
    using s' tok(2) Cons.prems(1,6) by (intro Cons.IH) (auto simp: kept_def)
  moreover have "kept (length q) (d_out s) (d_out s')"
    using kept_mono [OF s'(5)] s'(3) expand_length [OF tok(2)] by simp
  ultimately show ?case using kept_trans by auto
qed

lemma lzf_decompress_expand:
  assumes "take in_len inb = emits ts" and "in_len \<le> length inb"
    and "expand [] ts = Some q" and "length q \<le> out_len" and "out_len \<le> length outb"
  shows "\<exists>out. lzf_decompress inb in_len outb out_len = Some (length q, None, out) \<and>
    take (length q) out = q \<and> kept (length q) outb out"
  unfolding lzf_decompress_def
  using dec_loop_expand [of in_len inb out_len "\<lparr>d_ip = 0, d_op = 0, d_out = outb\<rparr>" ts "[]" q] assms by simp


section \<open>The decompressor stays inside its buffers\<close>

definition dec_safe :: "nat \<Rightarrow> lzf_dec \<Rightarrow> lzf_dec lzf_next option \<Rightarrow> bool" where
  "dec_safe out_len s r \<longleftrightarrow> (\<exists>e. r = Some (Fail e (d_out s))) \<or>
     (\<exists>s'. r = Some (Continue s') \<and> d_op s' \<le> out_len \<and> kept out_len (d_out s) (d_out s'))"

lemma dec_literal_safe:
  assumes "in_len \<le> length inb" and "out_len \<le> length (d_out s)"
  shows "dec_safe out_len s (dec_literal inb in_len out_len n s)"
proof (cases "d_op s + n \<le> out_len \<and> d_ip s + n \<le> in_len")
  case True
  then show ?thesis
    using dec_literal_ok [OF assms] kept_mono [of "d_op s + n"] by (fastforce simp: dec_safe_def)
qed (auto simp: dec_safe_def dec_literal_def)

lemma dec_copy_safe:
  assumes "d_ip s < length inb" and "out_len \<le> length (d_out s)"
  shows "dec_safe out_len s (dec_copy inb out_len ctrl len s)"
proof -
  define off where "off = (ctrl mod 32) * 256 + unat (inb ! d_ip s)"
  show ?thesis
  proof (cases "off < d_op s \<and> d_op s + len + 2 \<le> out_len")
    case True
    then show ?thesis
      using dec_copy_ok [OF assms off_def, of len] kept_mono [of "d_op s + (len + 2)" _ _ out_len]
      by (fastforce simp: dec_safe_def)
  next
    case False
    have "int (d_op s) - int ((ctrl mod 32) * 256) - 1 - int (unat (inb ! d_ip s)) = int (d_op s) - 1 - int off"
      by (simp add: off_def)
    with False show ?thesis
      using assms(1) unfolding dec_safe_def dec_copy_def by (simp only: peek_ok bind.simps Let_def) auto
  qed
qed

lemma dec_step_safe:
  assumes "d_ip s < in_len" and "in_len \<le> length inb" and "out_len \<le> length (d_out s)"
  shows "dec_safe out_len s (dec_step inb in_len out_len s)"
proof -
  have same: "dec_safe out_len (s\<lparr>d_ip := i\<rparr>) r = dec_safe out_len s r" for i r
    by (simp add: dec_safe_def)
  have fail: "dec_safe out_len s (Some (Fail e (d_out s)))" for e by (simp add: dec_safe_def)
  have "dec_safe out_len (s\<lparr>d_ip := i\<rparr>) (dec_copy inb out_len ctrl len (s\<lparr>d_ip := i\<rparr>))"
    if "i < in_len" for i ctrl len using that assms by (intro dec_copy_safe) auto
  moreover have "dec_safe out_len (s\<lparr>d_ip := i\<rparr>) (dec_literal inb in_len out_len n (s\<lparr>d_ip := i\<rparr>))"
    for i n using assms by (intro dec_literal_safe) auto
  ultimately show ?thesis
    using assms(1,2) by (simp add: dec_step_def dec_backref_def peek_ok Let_def same fail)
qed

lemma dec_loop_safe:
  assumes "in_len \<le> length inb" and "out_len \<le> length (d_out s)" and "d_op s \<le> out_len"
  shows "\<exists>n e out. dec_loop inb in_len out_len s = Some (n, e, out) \<and> n \<le> out_len \<and> kept out_len (d_out s) out"
  using assms
proof (induction inb in_len out_len s rule: dec_loop.induct)
  case (1 inb in_len out_len s)
  show ?case
  proof (cases "d_ip s < in_len")
    case True
    then have "dec_safe out_len s (dec_step inb in_len out_len s)" using 1 by (intro dec_step_safe) auto
    then consider e where "dec_step inb in_len out_len s = Some (Fail e (d_out s))"
      | s' where "dec_step inb in_len out_len s = Some (Continue s')" "d_op s' \<le> out_len"
          "kept out_len (d_out s) (d_out s')"
      unfolding dec_safe_def by blast
    then show ?thesis
    proof cases
      case 1
      then show ?thesis using True by (simp add: dec_loop.simps)
    next
      case 2
      moreover have "length (d_out s') = length (d_out s)" using 2(3) by (simp add: kept_def)
      ultimately obtain n e out where "dec_loop inb in_len out_len s' = Some (n, e, out)" "n \<le> out_len"
        "kept out_len (d_out s') out"
        using "1.IH" [OF True 2(1) refl] "1.prems" by auto
      moreover have "dec_loop inb in_len out_len s = dec_loop inb in_len out_len s'"
        using True 2(1) by (simp add: dec_loop.simps [of inb in_len out_len s])
      ultimately show ?thesis using kept_trans [OF 2(3)] by auto
    qed
  qed (use 1 in \<open>simp add: dec_loop.simps\<close>)
qed

section \<open>Matches\<close>

abbreviation (input) agree :: "byte list \<Rightarrow> nat \<Rightarrow> nat \<Rightarrow> nat \<Rightarrow> bool" where
  "agree inb ref ip n \<equiv> \<forall>k < n. inb ! (ip + k) = inb ! (ref + k)"

lemma ref_off_small:
  assumes "ip < 4294967296" and "ref < 4294967296" and "ref_off ip ref < MAX_OFF"
  shows "ref < ip \<and> ref_off ip ref = int (ip - 1 - ref)"
proof (cases "ref < ip")
  case True
  then have "(int ip - int ref - 1) mod 18446744073709551616 = int (ip - 1 - ref)"
    using assms(1) by (subst mod_pos_pos_trivial) auto
  with True show ?thesis by (simp add: ref_off_def)
next
  case False
  have "(int ip - int ref - 1) mod 18446744073709551616
      = (int ip - int ref - 1 + 18446744073709551616) mod 18446744073709551616"
    by (rule mod_add_self2 [symmetric])
  also have "\<dots> = int ip - int ref - 1 + 18446744073709551616"
    using False assms(2) by (intro mod_pos_pos_trivial) auto
  finally show ?thesis using assms(2,3) by (simp add: ref_off_def MAX_OFF_def)
qed

lemma agree_pairs:
  assumes "take 2 (drop ref inb) = take 2 (drop ip inb)" and "inb ! (ref + 2) = inb ! (ip + 2)"
    and "ref < ip" and "ip + 2 < length inb"
  shows "agree inb ref ip 3"
proof -
  have "take 2 (drop i inb) = [inb ! i, inb ! (i + 1)]" if "i + 1 < length inb" for i
    using that by (simp add: take_Suc_conv_app_nth numeral_2_eq_2)
  then have "inb ! ip = inb ! ref" "inb ! (ip + 1) = inb ! (ref + 1)" using assms(1,3,4) by auto
  then show ?thesis using assms(2) by (auto simp: less_Suc_eq numeral_3_eq_3)
qed

lemma is_match_ok:
  assumes "ip + 2 < in_len" and "in_len \<le> length inb" and "in_len < 4294967296" and "ref < 4294967296"
  obtains b where "is_match inb ip ref = Some b"
    and "b \<Longrightarrow> ref < ip \<and> ref_off ip ref = int (ip - 1 - ref) \<and> ip - 1 - ref < 8192 \<and> 0 < ref \<and> agree inb ref ip 3"
proof (cases "ref_off ip ref < MAX_OFF \<and> ref > 0")
  case True
  then have off: "ref < ip" "ref_off ip ref = int (ip - 1 - ref)" using ref_off_small [of ip ref] assms by auto
  then have "is_match inb ip ref
      = Some (inb ! (ref + 2) = inb ! (ip + 2) \<and> take 2 (drop ref inb) = take 2 (drop ip inb))"
    using True assms by (simp add: is_match_def mem_simps)
  then show ?thesis
    using that off True assms agree_pairs [OF _ _ off(1)] by (auto simp: MAX_OFF_def)
qed (use that in \<open>auto simp: is_match_def\<close>)

lemma probe_ok:
  assumes "ref < ip" and "ip + len + n < length inb" and "agree inb ref ip (len + 1)"
  shows "\<exists>l d. probe inb ref ip n len = Some (l, d) \<and> l \<le> len + n \<and> len \<le> l \<and>
    (if d then len < l \<and> agree inb ref ip l else agree inb ref ip (l + 1))"
  using assms
proof (induction n arbitrary: len)
  case (Suc n)
  show ?case
  proof (cases "inb ! (ref + (len + 1)) = inb ! (ip + (len + 1))")
    case True
    then have "agree inb ref ip (len + 1 + 1)" using Suc.prems(3) by (auto simp: less_Suc_eq)
    then obtain l d where "probe inb ref ip n (len + 1) = Some (l, d)" "l \<le> len + 1 + n" "len + 1 \<le> l"
      "if d then len + 1 < l \<and> agree inb ref ip l else agree inb ref ip (l + 1)"
      using Suc.IH [of "len + 1"] Suc.prems by auto
    then show ?thesis using True Suc.prems by (auto simp: peek_ok split: if_splits)
  next
    case False
    then show ?thesis using Suc.prems by (auto simp: peek_ok)
  qed
qed auto

lemma grow_ok:
  assumes "ref < ip" and "ip + lim \<le> length inb" and "maxlen \<le> lim" and "len + 1 \<le> lim"
    and "agree inb ref ip (len + 1)"
  shows "\<exists>l. grow inb ref ip maxlen len = Some l \<and> len < l \<and> l \<le> lim \<and> agree inb ref ip l"
  using assms
proof (induction inb ref ip maxlen len rule: grow.induct)
  case (1 inb ref ip maxlen len)
  show ?case
  proof (cases "len + 1 < maxlen \<and> inb ! (ref + (len + 1)) = inb ! (ip + (len + 1))")
    case True
    have reads: "peek inb (ref + (len + 1)) = Some (inb ! (ref + (len + 1)))"
      "peek inb (ip + (len + 1)) = Some (inb ! (ip + (len + 1)))"
      using True "1.prems" by (simp_all add: peek_ok)
    have "agree inb ref ip (len + 1 + 1)" using True "1.prems"(5) by (auto simp: less_Suc_eq)
    then obtain l where "grow inb ref ip maxlen (len + 1) = Some l" "len + 1 < l" "l \<le> lim" "agree inb ref ip l"
      using "1.IH" [OF _ reads] True "1.prems" by auto
    then show ?thesis using True reads by (auto simp: grow.simps [of inb ref ip maxlen len])
  next
    case False
    then show ?thesis using "1.prems" by (auto simp: grow.simps [of inb ref ip maxlen len] peek_ok)
  qed
qed

lemma match_length_ok:
  assumes "ref < ip" and "ip + 2 < in_len" and "in_len \<le> length inb" and "agree inb ref ip 3"
    and maxlen: "maxlen = min (in_len - ip - 2) MAX_REF"
  shows "\<exists>l. match_length inb ref ip maxlen = Some l \<and> 3 \<le> l \<and> l \<le> 264 \<and> ip + l \<le> in_len \<and> agree inb ref ip l"
proof -
  define lim where "lim = min (in_len - ip) 264"
  have lim: "ip + lim \<le> length inb" "maxlen \<le> lim" "3 \<le> lim" using assms by (auto simp: lim_def MAX_REF_def)
  have grown: "\<exists>l. grow inb ref ip maxlen len = Some l \<and> 3 \<le> l \<and> l \<le> 264 \<and> ip + l \<le> in_len \<and> agree inb ref ip l"
    if "2 \<le> len" "len + 1 \<le> lim" "agree inb ref ip (len + 1)" for len
    using grow_ok [OF assms(1) lim(1,2) that(2,3)] that(1) assms(2) by (auto simp: lim_def)
  show ?thesis
  proof (cases "maxlen > 16")
    case True
    then have room: "ip + 2 + 16 < in_len" "19 \<le> lim" using maxlen by (auto simp: lim_def MAX_REF_def)
    obtain l d where l: "probe inb ref ip 16 2 = Some (l, d)" "l \<le> 2 + 16" "2 \<le> l"
      "if d then 2 < l \<and> agree inb ref ip l else agree inb ref ip (l + 1)"
      using probe_ok [of ref ip 2 16 inb] assms room by auto
    show ?thesis
    proof (cases d)
      case True
      then show ?thesis using l room \<open>maxlen > 16\<close> by (auto simp: match_length_def simp del: probe.simps)
    next
      case False
      then show ?thesis
        using l room \<open>maxlen > 16\<close> grown [of l] by (auto simp: match_length_def simp del: probe.simps)
    qed
  next
    case False
    then show ?thesis using grown [of 2] lim(3) assms(4) by (auto simp: match_length_def)
  qed
qed


section \<open>The compressor emits tokens of its input\<close>

text \<open>
  \<open>encoded inb ip out op\<close>: the first \<open>op\<close> bytes of the output are tokens that expand to the
  first \<open>ip\<close> bytes of the input.  Between two tokens the compressor is in a literal run
  of \<open>e_lit\<close> octets whose control byte is still to be written.
\<close>

definition encoded :: "byte list \<Rightarrow> nat \<Rightarrow> byte list \<Rightarrow> nat \<Rightarrow> bool" where
  "encoded inb ip out op \<longleftrightarrow> (\<exists>ts. expand [] ts = Some (take ip inb) \<and> take op out = emits ts)"

definition enc_inv :: "byte list \<Rightarrow> nat \<Rightarrow> nat \<Rightarrow> byte list \<Rightarrow> lzf_enc \<Rightarrow> bool" where
  "enc_inv inb in_len out_len outb s \<longleftrightarrow>
     e_ip s \<le> in_len \<and> e_lit s < 32 \<and> e_lit s \<le> e_ip s \<and> e_lit s < e_op s \<and>
     (if e_lit s = 0 then e_op s \<le> out_len + 1 else e_op s \<le> out_len) \<and> kept out_len outb (e_out s) \<and>
     encoded inb (e_ip s - e_lit s) (e_out s) (e_op s - e_lit s - 1) \<and>
     take (e_lit s) (drop (e_op s - e_lit s) (e_out s)) = take (e_lit s) (drop (e_ip s - e_lit s) inb)"

lemma encoded_snoc:
  assumes "encoded inb ip out op" and "token_ok ip t" and "apply_token (take ip inb) t = take ip' inb"
    and "take op' out' = take op out @ emit t" and "ip \<le> length inb"
  shows "encoded inb ip' out' op'"
proof -
  obtain ts where "expand [] ts = Some (take ip inb)" "take op out = emits ts"
    using assms(1) by (auto simp: encoded_def)
  then have "expand [] (ts @ [t]) = Some (take ip' inb)" "take op' out' = emits (ts @ [t])"
    using assms by (simp_all add: expand_append min_def)
  then show ?thesis unfolding encoded_def by blast
qed

lemma encoded_cong: "encoded inb ip out op \<Longrightarrow> take op out' = take op out \<Longrightarrow> encoded inb ip out' op"
  by (simp add: encoded_def)

lemma kept_update: "i < n \<Longrightarrow> kept n out (out[i := b])"
  by (simp add: kept_def)

text \<open>
  Writing the control byte closes the run.\<close>

lemma stop_run_ok:
  assumes inv: "ip \<le> length inb" "lit \<le> 32" "lit \<le> ip" "lit < op" "op \<le> length out"
    and enc: "encoded inb (ip - lit) out (op - lit - 1)"
    and run: "take lit (drop (op - lit) out) = take lit (drop (ip - lit) inb)"
  shows "\<exists>out'. stop_run out op lit = Some out' \<and> kept op out out' \<and>
    encoded inb ip out' (op - (if lit = 0 then 1 else 0))"
proof -
  define c :: byte where "c = word_of_int (int lit - 1)"
  define i where "i = op - lit - 1"
  have i: "i < length out" "op = i + 1 + lit" using inv by (auto simp: i_def)
  have pos: "int op - int lit - 1 = int i" using i by simp
  have w: "stop_run out op lit = Some (out[i := c])"
    unfolding stop_run_def pos c_def using i by (simp add: poke_ok)
  have "encoded inb ip (out[i := c]) (op - (if lit = 0 then 1 else 0))"
  proof (cases "lit = 0")
    case True
    then show ?thesis using enc i by (auto simp: encoded_def)
  next
    case False
    let ?t = "Lit (take lit (drop (ip - lit) inb))"
    have len: "length (take lit (drop (ip - lit) inb)) = lit" using inv by simp
    have "c = word_of_nat (lit - 1)" using False by (cases lit) (auto simp: c_def)
    then have "emit ?t = c # take lit (drop (i + 1) out)" using len run i by simp
    moreover have "take op (out[i := c]) = take i out @ c # take lit (drop (i + 1) out)"
      using i by (simp add: upd_conv_take_nth_drop take_drop)
    ultimately have written: "take op (out[i := c]) = take i out @ emit ?t" by (simp only:)
    have ok: "token_ok (ip - lit) ?t" using False inv len by auto
    have "apply_token (take (ip - lit) inb) ?t = take ip inb"
      using inv by (simp flip: take_add)
    then show ?thesis using encoded_snoc [OF enc ok _ written [unfolded i_def]] False inv by (simp add: i_def)
  qed
  then show ?thesis using w i by (auto intro: kept_update)
qed

lemma put_ref_ok:
  assumes "op + 3 \<le> length out"
  shows "\<exists>out'. put_ref out op off len = Some (out', op + length (emit (Ref off len))) \<and>
    kept (op + 3) out out' \<and> take (op + length (emit (Ref off len))) out' = take op out @ emit (Ref off len)"
proof (cases "len < 7")
  case True
  then show ?thesis using assms
    by (simp add: put_ref_def poke_ok poke_next kept_def take_Suc_conv_app_nth)
next
  case False
  then show ?thesis using assms
    by (simp add: put_ref_def poke_ok poke_next kept_def take_Suc_conv_app_nth numeral_3_eq_3)
qed


lemma enc_invD:
  assumes "enc_inv inb in_len out_len outb s" and "in_len \<le> length inb" and "out_len \<le> length outb"
  shows "e_ip s \<le> length inb" "length (e_out s) = length outb" "out_len \<le> length (e_out s)"
  using assms by (auto simp: enc_inv_def kept_def)

lemma enc_inv_kept: "enc_inv inb in_len out_len outb s \<Longrightarrow> kept out_len outb (e_out s)"
  by (simp add: enc_inv_def)

lemma put_literal_ok:
  assumes inv: "enc_inv inb in_len out_len outb s" and lens: "in_len \<le> length inb" "out_len \<le> length outb"
    and room: "e_ip s < in_len" "e_op s < out_len"
  shows "\<exists>s'. put_literal inb s = Some s' \<and> enc_inv inb in_len out_len outb s' \<and> e_ip s' = e_ip s + 1 \<and>
    e_lit s' = (if e_lit s = 31 then 0 else e_lit s + 1) \<and> e_op s' = e_op s + (if e_lit s = 31 then 2 else 1)"
proof -
  note len = enc_invD [OF inv lens]
  define ip op lit out where "ip = e_ip s" and "op = e_op s" and "lit = e_lit s"
    and "out = (e_out s)[e_op s := inb ! e_ip s]"
  have b: "ip < length inb" "lit < 32" "lit \<le> ip" "lit < op" "op < length (e_out s)" "length out = length outb"
    using inv room lens len by (auto simp: enc_inv_def ip_def op_def lit_def out_def)
  have fits: "op + 1 \<le> length out" using b by (simp add: out_def)
  have kept: "kept out_len outb out"
    unfolding out_def by (rule kept_trans [OF enc_inv_kept [OF inv] kept_update [OF room(2)]])
  have "take (op - lit - 1) out = take (op - lit - 1) (e_out s)" by (simp add: out_def op_def)
  then have enc: "encoded inb (ip + 1 - (lit + 1)) out (op + 1 - (lit + 1) - 1)"
    using inv by (auto simp: enc_inv_def ip_def op_def lit_def intro: encoded_cong)
  have "take (lit + 1) (drop (op - lit) out) = take lit (drop (op - lit) (e_out s)) @ [inb ! ip]"
    using b by (simp add: out_def op_def ip_def take_Suc_conv_app_nth drop_update_swap)
  also have "\<dots> = take (lit + 1) (drop (ip - lit) inb)"
    using inv b by (simp add: enc_inv_def op_def ip_def lit_def take_Suc_conv_app_nth)
  finally have run: "take (lit + 1) (drop (op + 1 - (lit + 1)) out) = take (lit + 1) (drop (ip + 1 - (lit + 1)) inb)"
    by simp
  have written: "put_literal inb s =
      (let s = s\<lparr>e_lit := lit + 1, e_op := op + 1, e_ip := ip + 1, e_out := out\<rparr> in
       if lit + 1 = MAX_LIT then do {
         out \<leftarrow> stop_run out (op + 1) (lit + 1);
         Some (s\<lparr>e_lit := 0, e_op := op + 1 + 1, e_out := out\<rparr>)
       } else Some s)"
    using b by (simp add: put_literal_def mem_simps ip_def op_def lit_def out_def Let_def)
  show ?thesis
  proof (cases "lit = 31")
    case True
    obtain out' where out': "stop_run out (op + 1) (lit + 1) = Some out'" "kept (op + 1) out out'"
        "encoded inb (ip + 1) out' (op + 1)"
      using stop_run_ok [OF _ _ _ _ _ enc run] b fits True by auto
    moreover have "kept out_len outb out'"
      using kept_trans [OF kept kept_mono [OF out'(2)]] room(2) by (simp add: op_def)
    ultimately show ?thesis
      using True written room(1,2) by (simp add: enc_inv_def MAX_LIT_def ip_def op_def lit_def Let_def)
  next
    case False
    have "enc_inv inb in_len out_len outb (s\<lparr>e_lit := lit + 1, e_op := op + 1, e_ip := ip + 1, e_out := out\<rparr>)"
      unfolding enc_inv_def using False b kept enc run room by (simp add: ip_def op_def)
    then show ?thesis
      using False written by (simp add: MAX_LIT_def Let_def ip_def op_def lit_def)
  qed
qed

lemma enc_tail_ok:
  assumes "enc_inv inb in_len out_len outb s" and lens: "in_len \<le> length inb" "out_len \<le> length outb"
    and "in_len = e_ip s + n" and "n \<le> 32"
    and "e_op s + n + (if e_lit s + n \<ge> 32 then 1 else 0) \<le> out_len"
  shows "\<exists>s'. enc_tail inb in_len s = Some s' \<and> enc_inv inb in_len out_len outb s' \<and> e_ip s' = in_len \<and>
    e_op s' \<le> out_len"
  using assms(1,4-)
proof (induction n arbitrary: s)
  case 0
  then show ?case by (simp add: enc_tail.simps)
next
  case (Suc n)
  have lit: "e_lit s < 32" using Suc.prems(1) by (simp add: enc_inv_def)
  have ip: "e_ip s < in_len" and op: "e_op s < out_len" using Suc.prems by (auto split: if_splits)
  obtain s' where s': "put_literal inb s = Some s'" "enc_inv inb in_len out_len outb s'" "e_ip s' = e_ip s + 1"
      "e_lit s' = (if e_lit s = 31 then 0 else e_lit s + 1)" "e_op s' = e_op s + (if e_lit s = 31 then 2 else 1)"
    using put_literal_ok [OF Suc.prems(1) lens ip op] by auto
  have "e_op s' + n + (if e_lit s' + n \<ge> 32 then 1 else 0) \<le> out_len"
    using Suc.prems(3,4) s'(4,5) lit by (auto split: if_splits)
  then have "\<exists>s''. enc_tail inb in_len s' = Some s'' \<and> enc_inv inb in_len out_len outb s'' \<and> e_ip s'' = in_len \<and>
      e_op s'' \<le> out_len"
    using Suc.prems(2,3) s'(2,3) by (intro Suc.IH) auto
  moreover have "enc_tail inb in_len s = enc_tail inb in_len s'"
    using ip s'(1) by (simp add: enc_tail.simps [of inb in_len s])
  ultimately show ?case by simp
qed


lemma hash_reads:
  assumes "p + 2 < length inb"
  shows "\<exists>h. FRST inb p = Some h" and "\<exists>h. NEXT inb v p = Some h"
  using assms by (auto simp: FRST_def NEXT_def peek_ok)

lemma rehash_octet_ok:
  assumes "e_ip s + 2 < length inb"
  shows "\<exists>h t. rehash_octet inb s = Some (s\<lparr>e_hval := h, e_htab := t, e_ip := e_ip s + 1\<rparr>)"
proof -
  obtain h where "NEXT inb (e_hval s) (e_ip s) = Some h" using hash_reads(2) [OF assms] by blast
  then have "rehash_octet inb s = Some (s\<lparr>e_hval := h, e_htab := (e_htab s)(uint (IDX h) := word_of_nat (e_ip s)),
      e_ip := e_ip s + 1\<rparr>)" by (simp add: rehash_octet_def)
  then show ?thesis by blast
qed

text \<open>A turn keeps the invariant, or returns 0 with the bytes past \<open>out_len\<close> untouched.\<close>

definition turn_ok :: "byte list \<Rightarrow> nat \<Rightarrow> nat \<Rightarrow> byte list \<Rightarrow> lzf_turn option \<Rightarrow> bool" where
  "turn_ok inb in_len out_len outb r \<longleftrightarrow>
     (case r of
        None \<Rightarrow> False
      | Some (Turn s) \<Rightarrow> enc_inv inb in_len out_len outb s
      | Some (Break s) \<Rightarrow> enc_inv inb in_len out_len outb s \<and> in_len \<le> e_ip s + 2
      | Some (Full out) \<Rightarrow> kept out_len outb out)"

lemma enc_inv_hash [simp]:
  "enc_inv inb in_len out_len outb (s\<lparr>e_hval := h\<rparr>) = enc_inv inb in_len out_len outb s"
  "enc_inv inb in_len out_len outb (s\<lparr>e_htab := t\<rparr>) = enc_inv inb in_len out_len outb s"
  by (simp_all add: enc_inv_def)

lemma enc_rehash_ok:
  assumes inv: "enc_inv inb in_len out_len outb s" and "in_len \<le> length inb"
    and "2 \<le> e_ip s" and "e_ip s + 2 < in_len"
  shows "turn_ok inb in_len out_len outb
    (do { let s = s\<lparr>e_ip := e_ip s - 2\<rparr>;
          hval \<leftarrow> FRST inb (e_ip s);
          s \<leftarrow> rehash_octet inb (s\<lparr>e_hval := hval\<rparr>);
          s \<leftarrow> rehash_octet inb s;
          Some (Turn s) })"
proof -
  have "e_ip s - 2 + 2 < length inb" using assms by linarith
  then obtain h where h: "FRST inb (e_ip s - 2) = Some h" using hash_reads(1) by blast
  define s1 where "s1 = s\<lparr>e_ip := e_ip s - 2, e_hval := h\<rparr>"
  have ip: "e_ip s1 + 2 < length inb" "e_ip s1 + 1 + 2 < length inb" using assms by (simp_all add: s1_def)
  obtain h2 t2 where s2: "rehash_octet inb s1 = Some (s1\<lparr>e_hval := h2, e_htab := t2, e_ip := e_ip s1 + 1\<rparr>)"
    using rehash_octet_ok [of s1 inb] ip(1) by blast
  define s2 where "s2 = s1\<lparr>e_hval := h2, e_htab := t2, e_ip := e_ip s1 + 1\<rparr>"
  obtain h3 t3 where s3: "rehash_octet inb s2 = Some (s2\<lparr>e_hval := h3, e_htab := t3, e_ip := e_ip s2 + 1\<rparr>)"
    using rehash_octet_ok [of s2 inb] ip(2) by (auto simp: s2_def)
  have "s2\<lparr>e_hval := h3, e_htab := t3, e_ip := e_ip s2 + 1\<rparr> = s\<lparr>e_hval := h3, e_htab := t3\<rparr>"
    using assms(3) by (simp add: s1_def s2_def)
  moreover have "rehash_octet inb s1 = Some s2" by (simp only: s2 s2_def)
  ultimately show ?thesis
    using h s3 inv by (simp add: turn_ok_def Let_def flip: s1_def)
qed

text \<open>
  The token of a match, written after the closed run.\<close>

lemma put_match_ok:
  assumes enc: "encoded inb ip out op" and lens: "ip + 2 < in_len" "in_len \<le> length inb" "op + 3 \<le> length out"
    and ref: "ref < ip" "ip - 1 - ref < 8192" "0 < ref" "agree inb ref ip 3"
  shows "\<exists>l out' op'. match_length inb ref ip (min (in_len - ip - 2) MAX_REF) = Some l \<and> 3 \<le> l \<and> ip + l \<le> in_len \<and>
    put_ref out op (ip - 1 - ref) (l - 2) = Some (out', op') \<and> op' \<le> op + 3 \<and> kept (op + 3) out out' \<and>
    encoded inb (ip + l) out' op'"
proof -
  obtain l where l: "match_length inb ref ip (min (in_len - ip - 2) MAX_REF) = Some l" "3 \<le> l" "l \<le> 264"
      "ip + l \<le> in_len" "agree inb ref ip l"
    using match_length_ok [of ref ip in_len inb] ref lens by auto
  define t where "t = Ref (ip - 1 - ref) (l - 2)"
  define op' where "op' = op + length (emit t)"
  have op': "op' \<le> op + 3" by (simp add: op'_def t_def)
  obtain out' where out': "put_ref out op (ip - 1 - ref) (l - 2) = Some (out', op')" "kept (op + 3) out out'"
      "take op' out' = take op out @ emit t"
    using put_ref_ok [OF lens(3), of "ip - 1 - ref" "l - 2"] by (auto simp: t_def op'_def)
  have "copy_back l (ip - 1 - ref) (take ip inb) = take (ip + l) inb"
    using l ref lens by (intro copy_back_period) auto
  then have app: "apply_token (take ip inb) t = take (ip + l) inb"
    using le_add_diff_inverse2 [of 2 l] l(2) by (simp only: t_def apply_token.simps)
  have "token_ok ip t" using l(2,3) ref by (auto simp: t_def)
  then have "encoded inb (ip + l) out' op'"
    using encoded_snoc [OF enc _ app out'(3)] lens by simp
  then show ?thesis using l out' op' by blast
qed

lemma enc_match_ok:
  assumes inv: "enc_inv inb in_len out_len outb s" and lens: "in_len \<le> length inb" "out_len \<le> length outb"
    and ip: "e_ip s + 2 < in_len"
    and ref: "ref < e_ip s" "ref_off (e_ip s) ref = int (e_ip s - 1 - ref)" "e_ip s - 1 - ref < 8192" "0 < ref"
      "agree inb ref (e_ip s) 3"
  shows "turn_ok inb in_len out_len outb (enc_match inb in_len out_len ref s)"
proof -
  define undo where "undo = (if e_lit s = 0 then 1 else (0 :: nat))"
  note len = enc_invD [OF inv lens]
  show ?thesis
  proof (cases "e_op s + 3 + 1 \<ge> out_len \<and> int (e_op s) - int undo + 3 + 1 \<ge> int out_len")
    case True
    then show ?thesis
      using inv by (simp add: enc_match_def turn_ok_def Let_def undo_def enc_inv_def)
  next
    case False
    define op where "op = e_op s - undo"
    have "undo \<le> 1" "undo \<le> e_op s" using inv by (auto simp: undo_def enc_inv_def)
    then have room: "op + 4 < out_len" "e_op s \<le> out_len" using False by (auto simp: op_def)
    obtain out1 where out1: "stop_run (e_out s) (e_op s) (e_lit s) = Some out1" "kept (e_op s) (e_out s) out1"
        "encoded inb (e_ip s) out1 op"
      using stop_run_ok [of "e_ip s" inb "e_lit s" "e_op s" "e_out s"] inv len room(2)
      by (auto simp: enc_inv_def op_def undo_def)
    have "op + 3 \<le> length out1" using out1(2) room len by (simp add: kept_def)
    then obtain l out2 op' where
      l: "match_length inb ref (e_ip s) (min (in_len - e_ip s - 2) MAX_REF) = Some l" "3 \<le> l" "e_ip s + l \<le> in_len"
      and out2: "put_ref out1 op (e_ip s - 1 - ref) (l - 2) = Some (out2, op')" "op' \<le> op + 3"
        "kept (op + 3) out1 out2" "encoded inb (e_ip s + l) out2 op'"
      using put_match_ok [OF out1(3) ip lens(1) _ ref(1,3-5)] by blast
    define s' where "s' = s\<lparr>e_ip := e_ip s + 1 + (l - 2 + 1), e_op := op' + 1, e_lit := 0, e_out := out2\<rparr>"
    have "kept out_len (e_out s) out1" "kept out_len out1 out2"
      using kept_mono [OF out1(2) room(2)] kept_mono [OF out2(3), of out_len] room(1) by simp_all
    then have "kept out_len outb out2" by (rule kept_trans [OF kept_trans [OF enc_inv_kept [OF inv]]])
    moreover have s'ip: "e_ip s' = e_ip s + l" using l(2) by (simp add: s'_def)
    ultimately have inv': "enc_inv inb in_len out_len outb s'"
      using l(3) out2(2,4) room(1) unfolding enc_inv_def s'ip by (simp add: s'_def)
    have "enc_match inb in_len out_len ref s =
      (if e_ip s' + 2 \<ge> in_len then Some (Break s')
       else do { let s = s'\<lparr>e_ip := e_ip s' - 2\<rparr>;
          hval \<leftarrow> FRST inb (e_ip s);
          s \<leftarrow> rehash_octet inb (s\<lparr>e_hval := hval\<rparr>);
          s \<leftarrow> rehash_octet inb s;
          Some (Turn s) })"
      by (simp only: enc_match_def Let_def undo_def [symmetric] False if_False out1(1) bind.simps
          op_def [symmetric] l(1) ref(2) nat_int out2(1) prod.case s'_def [symmetric])
    then show ?thesis
      using inv' enc_rehash_ok [OF inv' lens(1)] s'ip l(2) by (simp add: turn_ok_def)
  qed
qed


lemma enc_literal_ok:
  assumes inv: "enc_inv inb in_len out_len outb s" and lens: "in_len \<le> length inb" "out_len \<le> length outb"
    and ip: "e_ip s < in_len"
  shows "turn_ok inb in_len out_len outb (enc_literal inb out_len s)"
proof (cases "e_op s < out_len")
  case True
  then show ?thesis using put_literal_ok [OF inv lens ip] by (auto simp: enc_literal_def turn_ok_def)
qed (use inv in \<open>simp add: enc_literal_def turn_ok_def enc_inv_def\<close>)

lemma enc_step_ok:
  assumes inv: "enc_inv inb in_len out_len outb s" and lens: "in_len \<le> length inb" "out_len \<le> length outb"
    and ip: "e_ip s + 2 < in_len" and "in_len < 4294967296"
  shows "turn_ok inb in_len out_len outb (enc_step inb in_len out_len s)"
proof -
  obtain h where h: "NEXT inb (e_hval s) (e_ip s) = Some h" using hash_reads(2) [of "e_ip s" inb] ip lens by auto
  define ref where "ref = unat (e_htab s (uint (IDX h)))"
  define s' where "s' = s\<lparr>e_hval := h, e_htab := (e_htab s)(uint (IDX h) := word_of_nat (e_ip s))\<rparr>"
  have inv': "enc_inv inb in_len out_len outb s'" and s': "e_ip s' = e_ip s" using inv by (simp_all add: s'_def)
  have "ref < 4294967296" using unsigned_less [of "e_htab s (uint (IDX h))", where 'a = nat] by (simp add: ref_def)
  then obtain b where b: "is_match inb (e_ip s') ref = Some b"
    and found: "b \<Longrightarrow> ref < e_ip s' \<and> ref_off (e_ip s') ref = int (e_ip s' - 1 - ref) \<and> e_ip s' - 1 - ref < 8192 \<and>
      0 < ref \<and> agree inb ref (e_ip s') 3"
    using is_match_ok [of "e_ip s'" in_len inb ref] ip lens assms(5) s' by auto
  have "enc_step inb in_len out_len s = (if b then enc_match inb in_len out_len ref s' else enc_literal inb out_len s')"
    by (simp only: enc_step_def h bind.simps Let_def ref_def [symmetric] s'_def [symmetric] b)
  moreover have "turn_ok inb in_len out_len outb (enc_match inb in_len out_len ref s')" if b
    using found [OF that] ip s' by (intro enc_match_ok inv' lens) auto
  moreover have "turn_ok inb in_len out_len outb (enc_literal inb out_len s')"
    using ip s' by (intro enc_literal_ok inv' lens) auto
  ultimately show ?thesis by simp
qed

lemma enc_loop_ok:
  assumes "enc_inv inb in_len out_len outb s" and "in_len \<le> length inb" and "out_len \<le> length outb"
    and "in_len < 4294967296"
  shows "\<exists>r. enc_loop inb in_len out_len s = Some r \<and>
    (case r of Inl out \<Rightarrow> kept out_len outb out
     | Inr s' \<Rightarrow> enc_inv inb in_len out_len outb s' \<and> in_len \<le> e_ip s' + 2)"
  using assms
proof (induction inb in_len out_len s rule: enc_loop.induct)
  case (1 inb in_len out_len s)
  show ?case
  proof (cases "e_ip s + 2 < in_len")
    case True
    have "turn_ok inb in_len out_len outb (enc_step inb in_len out_len s)"
      using "1.prems" True by (intro enc_step_ok) auto
    then obtain r where r: "enc_step inb in_len out_len s = Some r" "turn_ok inb in_len out_len outb (Some r)"
      by (cases "enc_step inb in_len out_len s") (auto simp: turn_ok_def)
    show ?thesis
    proof (cases r)
      case (Turn s')
      then show ?thesis
        using True r "1.IH" [OF True r(1) Turn] "1.prems"
        by (simp add: enc_loop.simps [of inb in_len out_len s] turn_ok_def)
    qed (use True r in \<open>auto simp: enc_loop.simps turn_ok_def\<close>)
  qed (use 1 in \<open>simp add: enc_loop.simps\<close>)
qed

lemma enc_finish_ok:
  assumes inv: "enc_inv inb in_len out_len outb s" and lens: "in_len \<le> length inb" "out_len \<le> length outb"
    and "in_len \<le> e_ip s + 2"
  shows "\<exists>n out. enc_finish inb in_len out_len s = Some (n, out) \<and> n \<le> out_len \<and> kept out_len outb out \<and>
    (n = 0 \<or> encoded inb in_len out n)"
proof (cases "e_op s + 3 > out_len")
  case True
  then show ?thesis using inv by (simp add: enc_finish_def enc_inv_def)
next
  case False
  define n where "n = in_len - e_ip s"
  have "e_ip s \<le> in_len" using inv by (simp add: enc_inv_def)
  then have n: "in_len = e_ip s + n" "n \<le> 2" using assms(4) by (auto simp: n_def)
  then have "n \<le> 32" "e_op s + n + (if e_lit s + n \<ge> 32 then 1 else 0) \<le> out_len" using False by auto
  then obtain s' where s': "enc_tail inb in_len s = Some s'" "enc_inv inb in_len out_len outb s'" "e_ip s' = in_len"
      "e_op s' \<le> out_len"
    using enc_tail_ok [OF inv lens n(1)] by blast
  note len = enc_invD [OF s'(2) lens]
  obtain out where out: "stop_run (e_out s') (e_op s') (e_lit s') = Some out" "kept (e_op s') (e_out s') out"
      "encoded inb in_len out (e_op s' - (if e_lit s' = 0 then 1 else 0))"
    using stop_run_ok [of in_len inb "e_lit s'" "e_op s'" "e_out s'"] s' len lens by (auto simp: enc_inv_def)
  have "kept out_len outb out"
    by (rule kept_trans [OF enc_inv_kept [OF s'(2)] kept_mono [OF out(2) s'(4)]])
  then show ?thesis using False s' out by (simp add: enc_finish_def)
qed

lemma lzf_compress_ok:
  assumes "2 \<le> in_len" and "in_len \<le> length inb" and "in_len < 4294967296" and "out_len \<le> length outb"
  shows "\<exists>n out. lzf_compress htab inb in_len outb out_len = Some (n, out) \<and> n \<le> out_len \<and>
    kept out_len outb out \<and> (n = 0 \<or> encoded inb in_len out n)"
proof (cases "out_len = 0")
  case True
  then show ?thesis by (simp add: lzf_compress_def)
next
  case False
  have "peek inb 0 = Some (inb ! 0)" "peek inb 1 = Some (inb ! 1)" using assms by (auto intro!: peek_ok)
  then obtain h where h: "FRST inb 0 = Some h" by (simp add: FRST_def)
  define s where "s = \<lparr>e_ip = 0, e_op = 1, e_lit = 0, e_hval = h, e_htab = htab, e_out = outb\<rparr>"
  have "encoded inb 0 outb 0" unfolding encoded_def by (rule exI [of _ "[]"]) simp
  then have "enc_inv inb in_len out_len outb s" using False by (simp add: enc_inv_def s_def)
  then obtain r where r: "enc_loop inb in_len out_len s = Some r"
      "case r of Inl out \<Rightarrow> kept out_len outb out
       | Inr s' \<Rightarrow> enc_inv inb in_len out_len outb s' \<and> in_len \<le> e_ip s' + 2"
    using enc_loop_ok assms by blast
  have run: "lzf_compress htab inb in_len outb out_len =
      (case r of Inl out \<Rightarrow> Some (0, out) | Inr s \<Rightarrow> enc_finish inb in_len out_len s)"
    using h r(1) False assms(1) by (simp add: lzf_compress_def s_def)
  show ?thesis
  proof (cases r)
    case (Inr s')
    then show ?thesis using run r(2) enc_finish_ok assms(2,4) by auto
  qed (use run r(2) in auto)
qed

section \<open>Properties\<close>

text \<open>
  C25: On any input, however corrupt, \<open>lzf_decompress\<close> returns; it reads only inside its input and
  writes only below \<open>out_len\<close> of its output, the return value is at most \<open>out_len\<close>, and every other
  byte of the output buffer stays as it was.\<close>

theorem lzf_decompress_safe:
  assumes "in_len \<le> length inb" and "out_len \<le> length outb"
  shows "\<exists>n e out. lzf_decompress inb in_len outb out_len = Some (n, e, out) \<and> n \<le> out_len \<and>
    length out = length outb \<and> drop out_len out = drop out_len outb"
  unfolding lzf_decompress_def
  using dec_loop_safe [of in_len inb out_len "\<lparr>d_ip = 0, d_op = 0, d_out = outb\<rparr>"] assms by (simp add: kept_def)

theorem lzf_decompress_safe_witness:
  "\<exists>n e out. lzf_decompress [0, 7, 224, 255, 0] 5 [1, 2, 3, 4] 3 = Some (n, e, out) \<and> n \<le> 3 \<and>
    length out = length [1, 2, 3, 4 :: byte] \<and> drop 3 out = [4]"
  using lzf_decompress_safe [of 5 "[0, 7, 224, 255, 0]" 3 "[1, 2, 3, 4]"] by simp

lemma lzf_restores:
  assumes "2 \<le> in_len" and "in_len \<le> length inb" and "in_len < 4294967296" and "out_len \<le> length outb"
  shows "\<exists>n out. lzf_compress htab inb in_len outb out_len = Some (n, out) \<and> n \<le> out_len \<and>
    length out = length outb \<and> drop out_len out = drop out_len outb \<and>
    (n = 0 \<or> (\<forall>dst. length dst = in_len \<longrightarrow>
       lzf_decompress (take n out) n dst in_len = Some (in_len, None, take in_len inb)))"
proof -
  obtain n out where r: "lzf_compress htab inb in_len outb out_len = Some (n, out)" "n \<le> out_len"
      "kept out_len outb out" "n = 0 \<or> encoded inb in_len out n"
    using lzf_compress_ok [OF assms] by blast
  have "lzf_decompress (take n out) n dst in_len = Some (in_len, None, take in_len inb)"
    if nz: "n \<noteq> 0" and dst: "length dst = in_len" for dst
  proof -
    obtain ts where ts: "expand [] ts = Some (take in_len inb)" "take n out = emits ts"
      using r(4) nz by (auto simp: encoded_def)
    have len: "length (take in_len inb) = in_len" using assms(2) by simp
    have n: "n \<le> length (take n out)" using r(2,3) assms(4) by (simp add: kept_def)
    have stream: "take n (take n out) = emits ts" by (simp add: ts(2) [symmetric])
    obtain res where "lzf_decompress (take n out) n dst in_len = Some (in_len, None, res)"
        "take in_len res = take in_len inb" "kept in_len dst res"
      using lzf_decompress_expand [OF stream n ts(1), of in_len dst] dst unfolding len by blast
    then show ?thesis using dst by (simp add: kept_def)
  qed
  then show ?thesis using r by (auto simp: kept_def)
qed

text \<open>
  C24: Whatever the uninitialised hash table holds, \<open>lzf_compress\<close> returns on inputs of 2 bytes or
  more, stays inside its buffers, and when it reports a compressed length, \<open>lzf_decompress\<close> restores
  the input exactly from that many bytes.\<close>

theorem lzf_roundtrip:
  assumes "2 \<le> in_len" and "in_len \<le> length inb" and "in_len < 4294967296" and "out_len \<le> length outb"
  shows "\<exists>n out. lzf_compress htab inb in_len outb out_len = Some (n, out) \<and> n \<le> out_len \<and>
    length out = length outb \<and> drop out_len out = drop out_len outb \<and>
    (n = 0 \<or> (\<forall>dst. length dst = in_len \<longrightarrow>
       lzf_decompress (take n out) n dst in_len = Some (in_len, None, take in_len inb)))"
  using assms by (rule lzf_restores)

lemma lzf_compress_eval:
  "lzf_compress (\<lambda>_. 1) (replicate 12 97) 12 (replicate 9 0) 9 = Some (8, [1, 97, 97, 192, 0, 1, 97, 97, 0])"
  by code_simp

theorem lzf_roundtrip_witness:
  "lzf_compress (\<lambda>_. 1) (replicate 12 97) 12 (replicate 9 0) 9 = Some (8, [1, 97, 97, 192, 0, 1, 97, 97, 0]) \<and>
   lzf_decompress [1, 97, 97, 192, 0, 1, 97, 97] 8 (replicate 12 0) 12 = Some (12, None, replicate 12 97)"
  using lzf_roundtrip [of 12 "replicate 12 97" 9 "replicate 9 0" "\<lambda>_. 1"] by (simp add: lzf_compress_eval)

end
