(* ===== verification/Rio.thy ===== *)
theory Rio
  imports Redis_Prelude
begin

text \<open>
  The stream interface of \<open>rio.h\<close> with the memory buffer of \<open>rio.c\<close> as its backend, the one that
  \<open>DUMP\<close> and \<open>RESTORE\<close> use.  \<open>update_cksum\<close> is a function pointer of the record as in the code.

  Operations on a stream return \<open>IoOk\<close> with the stream and a value, \<open>IoErr\<close> with the stream when they
  report an error, or \<open>IoCrash\<close> when they leave a buffer.  \<open>writes\<close> and \<open>reads\<close> are the
  two halves of a format: what a save appends, and what a load accepts in front of any rest.
\<close>

section \<open>Model: results\<close>

datatype ('s, 'a) io = IoCrash | IoErr 's | IoOk 's 'a

fun io_then :: "('s, 'a) io \<Rightarrow> ('s \<Rightarrow> 'a \<Rightarrow> ('s, 'b) io) \<Rightarrow> ('s, 'b) io" where
  "io_then IoCrash f = IoCrash"
| "io_then (IoErr s) f = IoErr s"
| "io_then (IoOk s a) f = f s a"

lemma io_then_assoc: "io_then (io_then m f) g = io_then m (\<lambda>s a. io_then (f s a) g)"
  by (cases m) auto

section \<open>Model: the stream\<close>

record rio =
  io_ptr :: "byte list"
  io_pos :: nat
  io_update_cksum :: "(u64 \<Rightarrow> byte list \<Rightarrow> u64) option"
  io_cksum :: u64
  io_read_error :: bool
  io_write_error :: bool
  io_processed_bytes :: nat
  io_max_chunk :: nat

definition rioInitWithBuffer :: "byte list \<Rightarrow> rio" where
  "rioInitWithBuffer s =
     \<lparr>io_ptr = s, io_pos = 0, io_update_cksum = None, io_cksum = 0, io_read_error = False, io_write_error = False,
      io_processed_bytes = 0, io_max_chunk = 0\<rparr>"

text \<open>\<open>sdscatlen\<close> on the buffer: the backend never fails.\<close>

definition rioBufferWrite :: "rio \<Rightarrow> byte list \<Rightarrow> rio \<times> bool" where
  "rioBufferWrite r buf = (r\<lparr>io_ptr := io_ptr r @ buf, io_pos := io_pos r + length buf\<rparr>, True)"

definition rioBufferRead :: "rio \<Rightarrow> nat \<Rightarrow> (rio \<times> byte list) option" where
  "rioBufferRead r len =
     (if length (io_ptr r) - io_pos r < len then None
      else Some (r\<lparr>io_pos := io_pos r + len\<rparr>, take len (drop (io_pos r) (io_ptr r))))"

definition rioBufferTell :: "rio \<Rightarrow> nat" where
  "rioBufferTell r = io_pos r"

definition update_cksum :: "rio \<Rightarrow> byte list \<Rightarrow> rio" where
  "update_cksum r buf = (case io_update_cksum r of None \<Rightarrow> r | Some f \<Rightarrow> r\<lparr>io_cksum := f (io_cksum r) buf\<rparr>)"

definition chunk_size :: "rio \<Rightarrow> nat \<Rightarrow> nat" where
  "chunk_size r len = (if io_max_chunk r \<noteq> 0 \<and> io_max_chunk r < len then io_max_chunk r else len)"

lemma chunk_size_bounds: "0 < len \<Longrightarrow> 0 < chunk_size r len \<and> chunk_size r len \<le> len"
  by (simp add: chunk_size_def)

function rioWrite_loop :: "rio \<Rightarrow> byte list \<Rightarrow> rio \<times> bool" where
  "rioWrite_loop r buf =
     (if buf \<noteq> [] then
        (let n = chunk_size r (length buf);
             r = update_cksum r (take n buf);
             (r, ok) = rioBufferWrite r (take n buf) in
         if \<not> ok then (r\<lparr>io_write_error := True\<rparr>, False)
         else rioWrite_loop (r\<lparr>io_processed_bytes := io_processed_bytes r + n\<rparr>) (drop n buf))
      else (r, True))"
  by pat_completeness auto
termination
  by (relation "measure (length \<circ> snd)") (auto simp: chunk_size_bounds)

declare rioWrite_loop.simps [simp del]

definition rioWrite :: "rio \<Rightarrow> byte list \<Rightarrow> rio \<times> bool" where
  "rioWrite r buf = (if io_write_error r then (r, False) else rioWrite_loop r buf)"

function rioRead_loop :: "rio \<Rightarrow> nat \<Rightarrow> byte list \<Rightarrow> (rio, byte list) io" where
  "rioRead_loop r len buf =
     (if len \<noteq> 0 then
        (let n = chunk_size r len in
         case rioBufferRead r n of
           None \<Rightarrow> IoErr (r\<lparr>io_read_error := True\<rparr>)
         | Some (r', bs) \<Rightarrow>
             (let r'' = update_cksum r' bs in
              rioRead_loop (r''\<lparr>io_processed_bytes := io_processed_bytes r'' + n\<rparr>) (len - n) (buf @ bs)))
      else IoOk r buf)"
  by pat_completeness auto
termination
  by (relation "measure (\<lambda>(r, len, buf). len)") (auto simp: chunk_size_bounds)

declare rioRead_loop.simps [simp del]

definition rioRead :: "rio \<Rightarrow> nat \<Rightarrow> (rio, byte list) io" where
  "rioRead r len = (if io_read_error r then IoErr r else rioRead_loop r len [])"

section \<open>What a stream holds\<close>

text \<open>\<open>holds r bs\<close>: the stream can be read, and \<open>bs\<close> is what is left of it.\<close>

definition holds :: "rio \<Rightarrow> byte list \<Rightarrow> bool" where
  "holds r bs \<longleftrightarrow> \<not> io_read_error r \<and> io_pos r \<le> length (io_ptr r) \<and> drop (io_pos r) (io_ptr r) = bs"

lemma holds_init [simp]: "holds (rioInitWithBuffer s) s"
  by (simp add: holds_def rioInitWithBuffer_def)

lemma update_cksum_fields [simp]:
  "io_ptr (update_cksum r bs) = io_ptr r" "io_pos (update_cksum r bs) = io_pos r"
  "io_read_error (update_cksum r bs) = io_read_error r" "io_write_error (update_cksum r bs) = io_write_error r"
  by (simp_all add: update_cksum_def split: option.splits)

lemma rioWrite_loop_spec:
  assumes "rioWrite_loop r buf = (r', ok)"
  shows "ok \<and> io_ptr r' = io_ptr r @ buf \<and> io_write_error r' = io_write_error r \<and> io_read_error r' = io_read_error r"
  using assms
proof (induction r buf arbitrary: r' ok rule: rioWrite_loop.induct)
  case (1 r buf)
  show ?case
  proof (cases "buf = []")
    case False
    let ?n = "chunk_size r (length buf)"
    let ?r = "(update_cksum r (take ?n buf))\<lparr>io_ptr := io_ptr r @ take ?n buf, io_pos := io_pos r + length (take ?n buf)\<rparr>"
    let ?r' = "?r\<lparr>io_processed_bytes := io_processed_bytes ?r + ?n\<rparr>"
    have run: "rioWrite_loop r buf = rioWrite_loop ?r' (drop ?n buf)"
      using False by (simp add: rioWrite_loop.simps [of r buf] rioBufferWrite_def Let_def)
    have "ok \<and> io_ptr r' = io_ptr ?r' @ drop ?n buf \<and> io_write_error r' = io_write_error ?r' \<and>
        io_read_error r' = io_read_error ?r'"
      by (rule "1.IH" [OF False refl refl, of "(?r, True)" ?r True])
         (use "1.prems" in \<open>simp_all add: run rioBufferWrite_def\<close>)
    then show ?thesis by (auto simp: append.assoc [symmetric] simp del: append.assoc)
  qed (use 1 in \<open>auto simp: rioWrite_loop.simps\<close>)
qed

lemma rioRead_loop_spec:
  assumes "holds r (bs @ rest)"
  shows "\<exists>r'. rioRead_loop r (length bs) buf = IoOk r' (buf @ bs) \<and> holds r' rest"
  using assms
proof (induction "length bs" arbitrary: r bs buf rule: less_induct)
  case less
  show ?case
  proof (cases "bs = []")
    case True
    then show ?thesis using less.prems by (simp add: rioRead_loop.simps)
  next
    case False
    let ?n = "chunk_size r (length bs)"
    have n: "0 < ?n" "?n \<le> length bs" using chunk_size_bounds [of "length bs" r] False by auto
    have d: "drop (io_pos r) (io_ptr r) = bs @ rest" "io_pos r \<le> length (io_ptr r)"
      using less.prems by (auto simp: holds_def)
    have l: "length bs + length rest = length (io_ptr r) - io_pos r"
      using arg_cong [OF d(1), of length] by simp
    let ?r = "update_cksum (r\<lparr>io_pos := io_pos r + ?n\<rparr>) (take ?n bs)"
    let ?r' = "?r\<lparr>io_processed_bytes := io_processed_bytes ?r + ?n\<rparr>"
    have "rioBufferRead r ?n = Some (r\<lparr>io_pos := io_pos r + ?n\<rparr>, take ?n bs)"
      using l n by (simp add: rioBufferRead_def d(1))
    then have run: "rioRead_loop r (length bs) buf = rioRead_loop ?r' (length (drop ?n bs)) (buf @ take ?n bs)"
      using False by (simp add: rioRead_loop.simps [of r "length bs" buf] Let_def)
    have "drop (io_pos r + ?n) (io_ptr r) = drop ?n bs @ rest"
      using arg_cong [OF d(1), of "drop ?n"] n by (simp add: add.commute)
    then have "holds ?r' (drop ?n bs @ rest)" using less.prems l n d(2) by (simp add: holds_def)
    moreover have "length (drop ?n bs) < length bs" using n by simp
    ultimately obtain r' where "rioRead_loop ?r' (length (drop ?n bs)) (buf @ take ?n bs) = IoOk r' ((buf @ take ?n bs) @ drop ?n bs)"
      "holds r' rest"
      using less.hyps by blast
    then show ?thesis using run by simp
  qed
qed

section \<open>Formats\<close>

text \<open>
  A save appends bytes to the stream and returns how many; with a null stream it writes nothing and
  returns the same number.  A load accepts the bytes in front of any rest, and leaves the rest.
\<close>

type_synonym save = "rio option \<Rightarrow> (rio option, nat) io"
type_synonym 'a load = "rio \<Rightarrow> (rio, 'a) io"

definition writes :: "save \<Rightarrow> byte list \<Rightarrow> bool" where
  "writes save bs \<longleftrightarrow> save None = IoOk None (length bs) \<and>
     (\<forall>r. \<not> io_write_error r \<longrightarrow>
       (\<exists>r'. save (Some r) = IoOk (Some r') (length bs) \<and> io_ptr r' = io_ptr r @ bs \<and> \<not> io_write_error r'))"

definition reads :: "'a load \<Rightarrow> byte list \<Rightarrow> ('a \<Rightarrow> bool) \<Rightarrow> bool" where
  "reads load bs P \<longleftrightarrow> (\<forall>r rest. holds r (bs @ rest) \<longrightarrow> (\<exists>r' a. load r = IoOk r' a \<and> holds r' rest \<and> P a))"

definition save_then :: "save \<Rightarrow> save \<Rightarrow> save" where
  "save_then f g r = io_then (f r) (\<lambda>r n. io_then (g r) (\<lambda>r m. IoOk r (n + m)))"

lemma writes_then: "writes f bs \<Longrightarrow> writes g cs \<Longrightarrow> writes (save_then f g) (bs @ cs)"
  unfolding writes_def
proof (intro conjI allI impI)
  assume f: "f None = IoOk None (length bs) \<and> (\<forall>r. \<not> io_write_error r \<longrightarrow>
      (\<exists>r'. f (Some r) = IoOk (Some r') (length bs) \<and> io_ptr r' = io_ptr r @ bs \<and> \<not> io_write_error r'))"
    and g: "g None = IoOk None (length cs) \<and> (\<forall>r. \<not> io_write_error r \<longrightarrow>
      (\<exists>r'. g (Some r) = IoOk (Some r') (length cs) \<and> io_ptr r' = io_ptr r @ cs \<and> \<not> io_write_error r'))"
  show "save_then f g None = IoOk None (length (bs @ cs))" using f g by (simp add: save_then_def)
  fix r :: rio assume "\<not> io_write_error r"
  then obtain r' where r': "f (Some r) = IoOk (Some r') (length bs)" "io_ptr r' = io_ptr r @ bs" "\<not> io_write_error r'"
    using f by blast
  then obtain r'' where "g (Some r') = IoOk (Some r'') (length cs)" "io_ptr r'' = io_ptr r' @ cs" "\<not> io_write_error r''"
    using g by blast
  with r' show "\<exists>r'. save_then f g (Some r) = IoOk (Some r') (length (bs @ cs)) \<and> io_ptr r' = io_ptr r @ bs @ cs \<and>
      \<not> io_write_error r'" by (simp add: save_then_def)
qed

lemma reads_rioRead: "reads (\<lambda>r. rioRead r (length bs)) bs (\<lambda>a. a = bs)"
  unfolding reads_def
proof (intro allI impI)
  fix r rest assume "holds r (bs @ rest)"
  then obtain r' where "rioRead_loop r (length bs) [] = IoOk r' ([] @ bs)" "holds r' rest"
    using rioRead_loop_spec by blast
  moreover have "\<not> io_read_error r" using \<open>holds r (bs @ rest)\<close> by (simp add: holds_def)
  ultimately show "\<exists>r' a. rioRead r (length bs) = IoOk r' a \<and> holds r' rest \<and> a = bs"
    by (simp add: rioRead_def)
qed

lemma reads_then:
  assumes "reads f bs P" and "\<And>a. P a \<Longrightarrow> reads (\<lambda>r. g r a) cs Q"
  shows "reads (\<lambda>r. io_then (f r) g) (bs @ cs) Q"
  unfolding reads_def
proof (intro allI impI)
  fix r rest assume "holds r ((bs @ cs) @ rest)"
  then obtain r' a where "f r = IoOk r' a" "holds r' (cs @ rest)" "P a"
    using assms(1) unfolding reads_def by fastforce
  moreover obtain r'' b where "g r' a = IoOk r'' b" "holds r'' rest" "Q b"
    using assms(2) [OF \<open>P a\<close>] \<open>holds r' (cs @ rest)\<close> unfolding reads_def by blast
  ultimately show "\<exists>r' a. io_then (f r) g = IoOk r' a \<and> holds r' rest \<and> Q a" by auto
qed

lemma reads_return: "P a \<Longrightarrow> reads (\<lambda>r. IoOk r a) [] P"
  by (simp add: reads_def)

lemma reads_bytes:
  assumes "reads (\<lambda>r. g r bs) cs Q" and "n = length bs"
  shows "reads (\<lambda>r. io_then (rioRead r n) g) (bs @ cs) Q"
  using reads_then [OF reads_rioRead [of bs], of g cs Q] assms by simp

lemma reads_weaken: "reads f bs P \<Longrightarrow> (\<And>a. P a \<Longrightarrow> Q a) \<Longrightarrow> reads f bs Q"
  unfolding reads_def by meson

text \<open>
  A codec: for every valid value there are bytes that the save writes and the load accepts as a
  value related to it.  Its clients are the loads of whole sequences.
\<close>

locale codec =
  fixes save :: "'a \<Rightarrow> save"
    and load :: "'b load"
    and valid :: "'a \<Rightarrow> bool"
    and rel :: "'a \<Rightarrow> 'b \<Rightarrow> bool"
  assumes agree: "valid a \<Longrightarrow> \<exists>bs. writes (save a) bs \<and> reads load bs (rel a)"
begin

lemma buffer_roundtrip:
  assumes "valid a"
  shows "\<exists>r n. save a (Some (rioInitWithBuffer [])) = IoOk (Some r) n \<and> n = length (io_ptr r) \<and> save a None = IoOk None n \<and>
    (\<exists>r' b. load (rioInitWithBuffer (io_ptr r)) = IoOk r' b \<and> holds r' [] \<and> rel a b)"
proof -
  obtain bs where bs: "writes (save a) bs" "reads load bs (rel a)" using agree [OF assms] by blast
  have "\<not> io_write_error (rioInitWithBuffer [])" "io_ptr (rioInitWithBuffer []) = []"
    by (simp_all add: rioInitWithBuffer_def)
  then obtain r where r: "save a (Some (rioInitWithBuffer [])) = IoOk (Some r) (length bs)" "io_ptr r = bs"
    using bs(1) unfolding writes_def by fastforce
  moreover have "save a None = IoOk None (length bs)" using bs(1) by (simp add: writes_def)
  moreover have "holds (rioInitWithBuffer bs) (bs @ [])" by simp
  then obtain r' b where "load (rioInitWithBuffer bs) = IoOk r' b" "holds r' []" "rel a b"
    using bs(2) unfolding reads_def by blast
  ultimately show ?thesis by auto
qed

end

end
