(* ===== verification/String_Object.thy ===== *)
theory String_Object
  imports Sds_Text
begin

text \<open>
  String objects, \<open>object.c\<close>: their encodings, the constructors and \<open>tryObjectEncoding\<close>.  An object is
  its encoding with the text or number it points to; reference counts appear where the code
  tests them, the access clock does not.  \<open>shared_ok\<close> is the test of \<open>maxmemory\<close> and its policy that
  allows the preallocated integers.
\<close>

section \<open>Model\<close>

datatype strobj =
  STR_RAW "byte list"
| STR_EMBSTR "byte list"
| STR_INT int
| STR_SHARED int

definition OBJ_SHARED_INTEGERS :: int where "OBJ_SHARED_INTEGERS = 10000"
definition OBJ_ENCODING_EMBSTR_SIZE_LIMIT :: nat where "OBJ_ENCODING_EMBSTR_SIZE_LIMIT = 44"

definition createStringObject :: "byte list \<Rightarrow> strobj" where
  "createStringObject s = (if length s \<le> OBJ_ENCODING_EMBSTR_SIZE_LIMIT then STR_EMBSTR s else STR_RAW s)"

definition createRawStringObject :: "byte list \<Rightarrow> strobj" where
  "createRawStringObject s = STR_RAW s"

definition createStringObjectFromLongLongWithOptions :: "bool \<Rightarrow> int \<Rightarrow> bool \<Rightarrow> strobj" where
  "createStringObjectFromLongLongWithOptions shared_ok v valueobj =
     (let valueobj = (if shared_ok then False else valueobj) in
      if v \<ge> 0 \<and> v < OBJ_SHARED_INTEGERS \<and> \<not> valueobj then STR_SHARED v
      else if v \<ge> INT64_MIN \<and> v \<le> INT64_MAX then STR_INT v
      else STR_RAW (sdsll2str v))"

definition createStringObjectFromLongLong :: "bool \<Rightarrow> int \<Rightarrow> strobj" where
  "createStringObjectFromLongLong shared_ok v = createStringObjectFromLongLongWithOptions shared_ok v False"

definition createStringObjectFromLongLongForValue :: "bool \<Rightarrow> int \<Rightarrow> strobj" where
  "createStringObjectFromLongLongForValue shared_ok v = createStringObjectFromLongLongWithOptions shared_ok v True"

definition sdsEncodedObject :: "strobj \<Rightarrow> bool" where
  "sdsEncodedObject o' = (case o' of STR_RAW _ \<Rightarrow> True | STR_EMBSTR _ \<Rightarrow> True | _ \<Rightarrow> False)"

text \<open>The text of an sds encoded object.\<close>

fun obj_sds :: "strobj \<Rightarrow> byte list" where
  "obj_sds (STR_RAW s) = s"
| "obj_sds (STR_EMBSTR s) = s"
| "obj_sds _ = []"

text \<open>\<open>trimStringObjectIfNeeded\<close> at the end changes only the spare room of the sds.\<close>

definition tryObjectEncoding :: "bool \<Rightarrow> nat \<Rightarrow> strobj \<Rightarrow> strobj" where
  "tryObjectEncoding shared_ok refcount o' =
     (if \<not> sdsEncodedObject o' then o'
      else if refcount > 1 then o'
      else let s = obj_sds o'; value = (if length s \<le> 20 then string2l s else None) in
        case value of
          Some v \<Rightarrow>
            if shared_ok \<and> v \<ge> 0 \<and> v < OBJ_SHARED_INTEGERS then STR_SHARED v
            else (case o' of STR_RAW _ \<Rightarrow> STR_INT v | _ \<Rightarrow> createStringObjectFromLongLongForValue shared_ok v)
        | None \<Rightarrow>
            if length s \<le> OBJ_ENCODING_EMBSTR_SIZE_LIMIT
            then (case o' of STR_EMBSTR _ \<Rightarrow> o' | _ \<Rightarrow> STR_EMBSTR s)
            else o')"

text \<open>
  \<open>getDecodedObject\<close>: an sds encoded object as it is, an integer as a new string object printed into
  a local buffer (\<open>strlen\<close> stops at the terminator that \<open>ll2string\<close> writes).
\<close>

definition decode_long :: "int \<Rightarrow> strobj option" where
  "decode_long v = do {
     (buf, n) \<leftarrow> ll2string (replicate 32 0) 32 v;
     Some (createStringObject (takeWhile (\<lambda>b. b \<noteq> 0) buf))
   }"

definition getDecodedObject :: "strobj \<Rightarrow> strobj option" where
  "getDecodedObject o' =
     (case o' of STR_RAW _ \<Rightarrow> Some o' | STR_EMBSTR _ \<Rightarrow> Some o' | STR_INT v \<Rightarrow> decode_long v | STR_SHARED v \<Rightarrow> decode_long v)"

section \<open>The text of an object\<close>

fun str_text :: "strobj \<Rightarrow> byte list" where
  "str_text (STR_RAW s) = s"
| "str_text (STR_EMBSTR s) = s"
| "str_text (STR_INT v) = dec_int v"
| "str_text (STR_SHARED v) = dec_int v"

text \<open>Integer objects hold a \<open>long\<close>, shared ones a preallocated number, embedded strings are short.\<close>

fun str_ok :: "strobj \<Rightarrow> bool" where
  "str_ok (STR_RAW s) \<longleftrightarrow> True"
| "str_ok (STR_EMBSTR s) \<longleftrightarrow> length s \<le> 44"
| "str_ok (STR_INT v) \<longleftrightarrow> int64 v"
| "str_ok (STR_SHARED v) \<longleftrightarrow> 0 \<le> v \<and> v < 10000"

lemma createStringObject_text [simp]: "str_text (createStringObject s) = s" "str_ok (createStringObject s)"
  by (simp_all add: createStringObject_def OBJ_ENCODING_EMBSTR_SIZE_LIMIT_def)

lemma createFromLongLong_text:
  assumes "int64 v"
  shows "str_text (createStringObjectFromLongLongWithOptions b v c) = dec_int v"
    and "str_ok (createStringObjectFromLongLongWithOptions b v c)"
  using assms
  by (simp_all add: createStringObjectFromLongLongWithOptions_def OBJ_SHARED_INTEGERS_def int64_def Let_def)

lemma string2l_canonical: "string2l s = Some v \<longleftrightarrow> int64 v \<and> s = dec_int v"
  by (auto simp: string2l_def string2ll_canonical bind_eq_Some_conv int64_def)

lemma dec_int_no_nul: "int64 v \<Longrightarrow> 0 \<notin> set (dec_int v)"
proof -
  have "0 \<notin> set (dec_nat n)" for n
  proof (induction n rule: dec_nat.induct)
    case (1 n)
    have "(0 :: byte) \<noteq> 48 + word_of_nat (n mod 10)"
      using byte_digit [of "n mod 10"] by (metis unat_0 add_eq_0_iff_both_eq_0 mod_less_divisor zero_less_numeral zero_neq_numeral)
    moreover have "(0 :: byte) \<noteq> 48 + word_of_nat n" if "n < 10"
      using byte_digit [OF that] by (metis unat_0 add_eq_0_iff_both_eq_0 zero_neq_numeral)
    ultimately show ?case using 1 by (cases "n < 10") (auto simp: dec_nat.simps [of n])
  qed
  then show "0 \<notin> set (dec_int v)" by (auto simp: dec_int_def)
qed

text \<open>
  \<open>tryObjectEncoding\<close> changes the encoding of a string object and never its text, and
  \<open>getDecodedObject\<close> gives a string object with the same text.
\<close>

lemma tryObjectEncoding_text:
  assumes "str_ok o'"
  shows "str_text (tryObjectEncoding b n o') = str_text o'" and "str_ok (tryObjectEncoding b n o')"
proof -
  have lt: "str_text (createStringObjectFromLongLongForValue c v) = dec_int v"
    "str_ok (createStringObjectFromLongLongForValue c v)" if "int64 v" for v c
    using createFromLongLong_text [OF that] by (simp_all add: createStringObjectFromLongLongForValue_def)
  show "str_text (tryObjectEncoding b n o') = str_text o'"
    by (cases o') (auto simp: tryObjectEncoding_def sdsEncodedObject_def string2l_canonical lt Let_def split: option.splits if_splits)
  show "str_ok (tryObjectEncoding b n o')"
    using assms by (cases o') (auto simp: tryObjectEncoding_def sdsEncodedObject_def string2l_canonical lt Let_def
        OBJ_SHARED_INTEGERS_def OBJ_ENCODING_EMBSTR_SIZE_LIMIT_def split: option.splits if_splits)
qed

lemma takeWhile_nul: "0 \<notin> set xs \<Longrightarrow> takeWhile (\<lambda>b. b \<noteq> (0 :: byte)) (xs @ 0 # ys) = xs"
  by (induction xs) auto

lemma ll2string_buf32:
  assumes "int64 v"
  shows "\<exists>buf. ll2string (replicate 32 0) 32 v = Some (buf, length (dec_int v)) \<and> takeWhile (\<lambda>b. b \<noteq> 0) buf = dec_int v"
proof -
  have "length (dec_int v) < 32" using dec_int_short [OF assms] by simp
  then show ?thesis
    using ll2string_dec [OF assms, of 32 "replicate 32 0"] takeWhile_nul [OF dec_int_no_nul [OF assms]] by simp
qed

lemma decode_long_text:
  assumes "int64 v"
  shows "\<exists>o''. decode_long v = Some o'' \<and> str_text o'' = dec_int v \<and> sdsEncodedObject o''"
  using ll2string_buf32 [OF assms] by (auto simp: decode_long_def sdsEncodedObject_def createStringObject_def)

lemma getDecodedObject_text:
  assumes "str_ok o'"
  shows "\<exists>o''. getDecodedObject o' = Some o'' \<and> str_text o'' = str_text o' \<and> sdsEncodedObject o''"
  using assms decode_long_text by (cases o') (auto simp: getDecodedObject_def sdsEncodedObject_def int64_def)

end
