(* ===== verification/Rdb_String.thy ===== *)
theory Rdb_String
  imports Lzf Rio String_Object Intset
begin

text \<open>
  The string layer of \<open>rdb.c\<close>: types, times, lengths, integers as strings, LZF compressed strings and
  verbatim strings, saved to and loaded from a stream.

  A string is saved from the memory \<open>s\<close> that holds it (for an sds, the text and its terminator).
  The choices of the environment are in \<open>rdb_env\<close>: the compression setting, the contents of the
  uninitialised hash table and output buffer of \<open>lzf_compress\<close>, which allocations succeed, and
  whether shared integers are allowed.  \<open>IoErr\<close> stands for the error returns (\<open>-1\<close>, \<open>NULL\<close>) and for
  \<open>rdbReportCorruptRDB\<close>.
\<close>

section \<open>Model: types, times and lengths\<close>

record rdb_env =
  rdb_compression :: bool
  rdb_htab :: "int \<Rightarrow> u32"
  rdb_fresh :: "nat \<Rightarrow> byte"
  rdb_try_alloc :: "nat \<Rightarrow> bool"
  rdb_shared_ok :: bool

definition rdbWriteRaw :: "byte list \<Rightarrow> save" where
  "rdbWriteRaw p rdb =
     (case rdb of
        None \<Rightarrow> IoOk None (length p)
      | Some r \<Rightarrow> (case rioWrite r p of (r', ok) \<Rightarrow> if \<not> ok then IoErr (Some r') else IoOk (Some r') (length p)))"

definition rdbSaveType :: "byte \<Rightarrow> save" where
  "rdbSaveType t = rdbWriteRaw [t]"

definition rdbLoadType :: "byte load" where
  "rdbLoadType rdb = io_then (rioRead rdb 1) (\<lambda>rdb b. IoOk rdb (hd b))"

definition rdbSaveMillisecondTime :: "int \<Rightarrow> save" where
  "rdbSaveMillisecondTime t = rdbWriteRaw (le_bytes 8 t)"

definition rdbLoadMillisecondTime :: "int load" where
  "rdbLoadMillisecondTime rdb = io_then (rioRead rdb 8) (\<lambda>rdb b. IoOk rdb (le_sint b))"

abbreviation (input) RDB_6BITLEN :: nat where "RDB_6BITLEN \<equiv> 0"
abbreviation (input) RDB_14BITLEN :: nat where "RDB_14BITLEN \<equiv> 1"
abbreviation (input) RDB_32BITLEN :: byte where "RDB_32BITLEN \<equiv> 128"
abbreviation (input) RDB_64BITLEN :: byte where "RDB_64BITLEN \<equiv> 129"
abbreviation (input) RDB_ENCVAL :: nat where "RDB_ENCVAL \<equiv> 3"
abbreviation (input) RDB_ENC_INT8 :: nat where "RDB_ENC_INT8 \<equiv> 0"
abbreviation (input) RDB_ENC_INT16 :: nat where "RDB_ENC_INT16 \<equiv> 1"
abbreviation (input) RDB_ENC_INT32 :: nat where "RDB_ENC_INT32 \<equiv> 2"
abbreviation (input) RDB_ENC_LZF :: nat where "RDB_ENC_LZF \<equiv> 3"
abbreviation (input) RDB_LENERR :: int where "RDB_LENERR \<equiv> 18446744073709551615"

text \<open>Lengths are \<open>uint64_t\<close>; \<open>htonl\<close> and \<open>htonu64\<close> give the big-endian image.\<close>

definition rdbSaveLen :: "nat \<Rightarrow> save" where
  "rdbSaveLen len rdb =
     (if len < 64 then rdbWriteRaw [word_of_nat (len mod 256 + RDB_6BITLEN * 64)] rdb
      else if len < 16384 then
        rdbWriteRaw [word_of_nat (len div 256 mod 256 + RDB_14BITLEN * 64), word_of_nat (len mod 256)] rdb
      else if int len \<le> 4294967295 then
        io_then (rdbWriteRaw [RDB_32BITLEN] rdb) (\<lambda>rdb _.
        io_then (rdbWriteRaw (rev (le_bytes 4 (int len))) rdb) (\<lambda>rdb _. IoOk rdb (1 + 4)))
      else
        io_then (rdbWriteRaw [RDB_64BITLEN] rdb) (\<lambda>rdb _.
        io_then (rdbWriteRaw (rev (le_bytes 8 (int len))) rdb) (\<lambda>rdb _. IoOk rdb (1 + 8))))"

text \<open>The encoding flag and the length or encoding type.\<close>

definition rdbLoadLenByRef :: "(bool \<times> nat) load" where
  "rdbLoadLenByRef rdb = io_then (rioRead rdb 1) (\<lambda>rdb buf.
     let b = hd buf; type = unat b div 64 in
     if type = RDB_ENCVAL then IoOk rdb (True, unat b mod 64)
     else if type = RDB_6BITLEN then IoOk rdb (False, unat b mod 64)
     else if type = RDB_14BITLEN then
       io_then (rioRead rdb 1) (\<lambda>rdb buf. IoOk rdb (False, (unat b mod 64) * 256 + unat (hd buf)))
     else if b = RDB_32BITLEN then io_then (rioRead rdb 4) (\<lambda>rdb buf. IoOk rdb (False, nat (le_uint (rev buf))))
     else if b = RDB_64BITLEN then io_then (rioRead rdb 8) (\<lambda>rdb buf. IoOk rdb (False, nat (le_uint (rev buf))))
     else IoErr rdb)"

text \<open>Every caller treats the value \<open>RDB_LENERR\<close> as the error.\<close>

definition rdbLoadLen :: "(bool \<times> nat) load" where
  "rdbLoadLen rdb = io_then (rdbLoadLenByRef rdb) (\<lambda>rdb (isencoded, len).
     if int len = RDB_LENERR then IoErr rdb else IoOk rdb (isencoded, len))"

section \<open>Model: integers as strings\<close>

definition rdbEncodeInteger :: "int \<Rightarrow> byte list option" where
  "rdbEncodeInteger v =
     (if v \<ge> - 128 \<and> v \<le> 127 then Some [192, word_of_int v]
      else if v \<ge> - 32768 \<and> v \<le> 32767 then Some [193, word_of_int v, word_of_int (v div 256)]
      else if v \<ge> - 2147483648 \<and> v \<le> 2147483647 then
        Some [194, word_of_int v, word_of_int (v div 256), word_of_int (v div 65536), word_of_int (v div 16777216)]
      else None)"

text \<open>
  \<open>strtoll(s, &endptr, 10)\<close> on the memory \<open>s\<close>: the value, clamped to \<open>long long\<close>, and the memory from
  \<open>endptr\<close> on.  \<open>None\<close> when it runs past the end of the memory.
\<close>

definition isspace :: "byte \<Rightarrow> bool" where
  "isspace b \<longleftrightarrow> b = 32 \<or> 9 \<le> unat b \<and> unat b \<le> 13"

fun skip_spaces :: "byte list \<Rightarrow> byte list option" where
  "skip_spaces [] = None"
| "skip_spaces (b # p) = (if isspace b then skip_spaces p else Some (b # p))"

fun scan_digits :: "nat \<Rightarrow> byte list \<Rightarrow> (nat \<times> byte list) option" where
  "scan_digits v [] = None"
| "scan_digits v (b # p) = (if is_digit b then scan_digits (v * 10 + (unat b - 48)) p else Some (v, b # p))"

definition clamp_ll :: "int \<Rightarrow> int" where
  "clamp_ll v = (if v < INT64_MIN then INT64_MIN else if v > INT64_MAX then INT64_MAX else v)"

definition strtoll :: "byte list \<Rightarrow> (int \<times> byte list) option" where
  "strtoll s = do {
     p \<leftarrow> skip_spaces s;
     let neg = (hd p = 45);
     let q = (if hd p = 45 \<or> hd p = 43 then tl p else p);
     (v, rest) \<leftarrow> scan_digits 0 q;
     if rest = q then Some (0, s) else Some (clamp_ll (if neg then - int v else int v), rest)
   }"

definition rdbTryIntegerEncoding :: "byte list \<Rightarrow> nat \<Rightarrow> byte list option option" where
  "rdbTryIntegerEncoding s len = do {
     (value, endp) \<leftarrow> strtoll s;
     c \<leftarrow> peek endp 0;
     if c \<noteq> 0 then Some None
     else do {
       (buf, n) \<leftarrow> ll2string (replicate 32 0) 32 value;
       let printed = takeWhile (\<lambda>b. b \<noteq> 0) buf;
       if length printed \<noteq> len then Some None
       else do {
         bs \<leftarrow> mem_read s 0 len;
         if printed \<noteq> bs then Some None else Some (rdbEncodeInteger value)
       }
     }
   }"

section \<open>Model: compressed and verbatim strings\<close>

definition rdbSaveLzfBlob :: "byte list \<Rightarrow> nat \<Rightarrow> save" where
  "rdbSaveLzfBlob data original_len rdb =
     io_then (rdbWriteRaw [word_of_nat (RDB_ENCVAL * 64 + RDB_ENC_LZF)] rdb) (\<lambda>rdb n1.
     io_then (rdbSaveLen (length data) rdb) (\<lambda>rdb n2.
     io_then (rdbSaveLen original_len rdb) (\<lambda>rdb n3.
     io_then (rdbWriteRaw data rdb) (\<lambda>rdb n4. IoOk rdb (n1 + n2 + n3 + n4)))))"

text \<open>The lengths are passed to \<open>lzf_compress\<close> as \<open>unsigned int\<close>.\<close>

definition rdbSaveLzfStringObject :: "rdb_env \<Rightarrow> byte list \<Rightarrow> nat \<Rightarrow> save" where
  "rdbSaveLzfStringObject env s len rdb =
     (if len \<le> 4 then IoOk rdb 0
      else let outlen = len - 4; out = map (rdb_fresh env) [0..<outlen + 1] in
        case lzf_compress (rdb_htab env) s (len mod 2 ^ 32) out (outlen mod 2 ^ 32) of
          None \<Rightarrow> IoCrash
        | Some (comprlen, out) \<Rightarrow>
            if comprlen = 0 then IoOk rdb 0 else rdbSaveLzfBlob (take comprlen out) len rdb)"

definition rdbSaveVerbatim :: "byte list \<Rightarrow> nat \<Rightarrow> save" where
  "rdbSaveVerbatim s len rdb =
     io_then (rdbSaveLen len rdb) (\<lambda>rdb n.
       if len > 0 then
         (case mem_read s 0 len of None \<Rightarrow> IoCrash
          | Some bs \<Rightarrow> io_then (rdbWriteRaw bs rdb) (\<lambda>rdb _. IoOk rdb (n + len)))
       else IoOk rdb n)"

definition rdbSaveRawString :: "rdb_env \<Rightarrow> byte list \<Rightarrow> nat \<Rightarrow> save" where
  "rdbSaveRawString env s len rdb =
     (case (if len \<le> 11 then rdbTryIntegerEncoding s len else Some None) of
        None \<Rightarrow> IoCrash
      | Some (Some enc) \<Rightarrow> rdbWriteRaw enc rdb
      | Some None \<Rightarrow>
          if rdb_compression env \<and> len > 20 then
            io_then (rdbSaveLzfStringObject env s len rdb) (\<lambda>rdb n.
              if n > 0 then IoOk rdb n else rdbSaveVerbatim s len rdb)
          else rdbSaveVerbatim s len rdb)"

definition rdbSaveLongLongAsStringObject :: "int \<Rightarrow> save" where
  "rdbSaveLongLongAsStringObject value rdb =
     (case rdbEncodeInteger value of
        Some enc \<Rightarrow> rdbWriteRaw enc rdb
      | None \<Rightarrow>
          (case ll2string (replicate 32 0) 32 value of None \<Rightarrow> IoCrash
           | Some (buf, enclen) \<Rightarrow>
               if \<not> enclen < 32 then IoCrash
               else io_then (rdbSaveLen enclen rdb) (\<lambda>rdb n.
                      io_then (rdbWriteRaw (take enclen buf) rdb) (\<lambda>rdb m. IoOk rdb (n + m)))))"

text \<open>\<open>obj_sds obj @ [0]\<close> is the memory of the sds string.\<close>

definition rdbSaveStringObject :: "rdb_env \<Rightarrow> strobj \<Rightarrow> save" where
  "rdbSaveStringObject env obj =
     (case obj of
        STR_INT v \<Rightarrow> rdbSaveLongLongAsStringObject v
      | STR_SHARED v \<Rightarrow> rdbSaveLongLongAsStringObject v
      | _ \<Rightarrow> rdbSaveRawString env (obj_sds obj @ [0]) (length (obj_sds obj)))"

section \<open>Model: loading\<close>

datatype load_flag = RDB_LOAD_NONE | RDB_LOAD_ENC | RDB_LOAD_PLAIN | RDB_LOAD_SDS

datatype loaded = LoadedPlain "byte list" | LoadedSds "byte list" | LoadedObj strobj

definition rdbLoadIntegerValue :: "nat \<Rightarrow> int load" where
  "rdbLoadIntegerValue enctype rdb =
     (if enctype = RDB_ENC_INT8 then io_then (rioRead rdb 1) (\<lambda>rdb enc. IoOk rdb (le_sint enc))
      else if enctype = RDB_ENC_INT16 then io_then (rioRead rdb 2) (\<lambda>rdb enc. IoOk rdb (le_sint enc))
      else if enctype = RDB_ENC_INT32 then io_then (rioRead rdb 4) (\<lambda>rdb enc. IoOk rdb (le_sint enc))
      else IoErr rdb)"

definition rdbLoadIntegerObject :: "rdb_env \<Rightarrow> load_flag \<Rightarrow> nat \<Rightarrow> loaded load" where
  "rdbLoadIntegerObject env flags enctype rdb = io_then (rdbLoadIntegerValue enctype rdb) (\<lambda>rdb val.
     if flags = RDB_LOAD_PLAIN \<or> flags = RDB_LOAD_SDS then
       (case ll2string (replicate 21 0) 21 val of None \<Rightarrow> IoCrash
        | Some (buf, len) \<Rightarrow>
            IoOk rdb (if flags = RDB_LOAD_PLAIN then LoadedPlain (take len buf) else LoadedSds (take len buf)))
     else if flags = RDB_LOAD_ENC then
       IoOk rdb (LoadedObj (createStringObjectFromLongLongForValue (rdb_shared_ok env) val))
     else IoOk rdb (LoadedObj (STR_RAW (sdsll2str val))))"

text \<open>The lengths are passed to \<open>lzf_decompress\<close> as \<open>unsigned int\<close>, its result is compared with \<open>len\<close>.\<close>

definition rdbLoadLzfStringObject :: "rdb_env \<Rightarrow> load_flag \<Rightarrow> loaded load" where
  "rdbLoadLzfStringObject env flags rdb =
     io_then (rdbLoadLen rdb) (\<lambda>rdb (_, clen).
     io_then (rdbLoadLen rdb) (\<lambda>rdb (_, len).
     if \<not> rdb_try_alloc env clen then IoErr rdb
     else if \<not> rdb_try_alloc env len then IoErr rdb
     else io_then (rioRead rdb clen) (\<lambda>rdb c.
       case lzf_decompress c (clen mod 2 ^ 32) (map (rdb_fresh env) [0..<len]) (len mod 2 ^ 32) of
         None \<Rightarrow> IoCrash
       | Some (n, _, val) \<Rightarrow>
           if n \<noteq> len then IoErr rdb
           else IoOk rdb (case flags of RDB_LOAD_PLAIN \<Rightarrow> LoadedPlain val | RDB_LOAD_SDS \<Rightarrow> LoadedSds val
                        | _ \<Rightarrow> LoadedObj (STR_RAW val)))))"

definition rdbGenericLoadStringObject :: "rdb_env \<Rightarrow> load_flag \<Rightarrow> loaded load" where
  "rdbGenericLoadStringObject env flags rdb = io_then (rdbLoadLen rdb) (\<lambda>rdb (isencoded, len).
     if isencoded then
       (if len = RDB_ENC_INT8 \<or> len = RDB_ENC_INT16 \<or> len = RDB_ENC_INT32 then rdbLoadIntegerObject env flags len rdb
        else if len = RDB_ENC_LZF then rdbLoadLzfStringObject env flags rdb
        else IoErr rdb)
     else if flags = RDB_LOAD_PLAIN \<or> flags = RDB_LOAD_SDS then
       (if \<not> rdb_try_alloc env len then IoErr rdb
        else io_then (if len \<noteq> 0 then rioRead rdb len else IoOk rdb []) (\<lambda>rdb buf.
          IoOk rdb (if flags = RDB_LOAD_PLAIN then LoadedPlain buf else LoadedSds buf)))
     else
       io_then (if len \<noteq> 0 then rioRead rdb len else IoOk rdb []) (\<lambda>rdb buf.
         IoOk rdb (LoadedObj (if flags = RDB_LOAD_ENC then createStringObject buf else createRawStringObject buf))))"

text \<open>\<open>rdbLoadStringObject\<close> and \<open>rdbLoadEncodedStringObject\<close>.\<close>

definition loaded_obj :: "loaded \<Rightarrow> strobj option" where
  "loaded_obj l = (case l of LoadedObj o' \<Rightarrow> Some o' | _ \<Rightarrow> None)"

definition rdbLoadStringObject :: "rdb_env \<Rightarrow> strobj load" where
  "rdbLoadStringObject env rdb = io_then (rdbGenericLoadStringObject env RDB_LOAD_NONE rdb) (\<lambda>rdb l.
     case loaded_obj l of None \<Rightarrow> IoCrash | Some o' \<Rightarrow> IoOk rdb o')"

definition rdbLoadEncodedStringObject :: "rdb_env \<Rightarrow> strobj load" where
  "rdbLoadEncodedStringObject env rdb = io_then (rdbGenericLoadStringObject env RDB_LOAD_ENC rdb) (\<lambda>rdb l.
     case loaded_obj l of None \<Rightarrow> IoCrash | Some o' \<Rightarrow> IoOk rdb o')"


section \<open>Lengths, types and times\<close>

lemma writes_raw [simp]: "writes (rdbWriteRaw bs) bs"
  unfolding writes_def
proof (intro conjI allI impI)
  show "rdbWriteRaw bs None = IoOk None (length bs)" by (simp add: rdbWriteRaw_def)
  fix r :: rio assume r: "\<not> io_write_error r"
  obtain r' ok where w: "rioWrite_loop r bs = (r', ok)" by fastforce
  show "\<exists>r'. rdbWriteRaw bs (Some r) = IoOk (Some r') (length bs) \<and> io_ptr r' = io_ptr r @ bs \<and> \<not> io_write_error r'"
    using r w rioWrite_loop_spec [OF w] by (simp add: rdbWriteRaw_def rioWrite_def)
qed

lemma raw_raw:
  "io_then (rdbWriteRaw a rdb) (\<lambda>rdb _. io_then (rdbWriteRaw b rdb) (\<lambda>rdb _. IoOk rdb (length a + length b)))
   = save_then (rdbWriteRaw a) (rdbWriteRaw b) rdb"
  by (auto simp: save_then_def rdbWriteRaw_def split: option.splits prod.splits)

text \<open>
  \<open>reads\<close> of a read whose result is used at once.\<close>

lemma reads_end: "reads f bs P \<Longrightarrow> (\<And>a. P a \<Longrightarrow> reads (\<lambda>r. g r a) [] Q) \<Longrightarrow> reads (\<lambda>r. io_then (f r) g) bs Q"
  using reads_then [of f bs P g "[]" Q] by simp

lemma reads_bytes_end: "P (f bs) \<Longrightarrow> n = length bs \<Longrightarrow> reads (\<lambda>r. io_then (rioRead r n) (\<lambda>r b. IoOk r (f b))) bs P"
  using reads_bytes [of "\<lambda>r b. IoOk r (f b)" bs "[]" P n] by (simp add: reads_return)

definition len_image :: "nat \<Rightarrow> byte list" where
  "len_image len =
     (if len < 64 then [word_of_nat len]
      else if len < 16384 then [word_of_nat (len div 256 + 64), word_of_nat (len mod 256)]
      else if int len \<le> 4294967295 then 128 # rev (le_bytes 4 (int len))
      else 129 # rev (le_bytes 8 (int len)))"

lemma rdbSaveLen_writes: "writes (rdbSaveLen len) (len_image len)"
proof -
  have small: "len div 256 mod 256 = len div 256" if "len < 16384" using that by simp
  consider "len < 64" | "64 \<le> len" "len < 16384" | "16384 \<le> len" "int len \<le> 4294967295"
    | "16384 \<le> len" "\<not> int len \<le> 4294967295" by linarith
  then show ?thesis
  proof cases
    case 1
    then have "rdbSaveLen len = rdbWriteRaw (len_image len)" by (simp add: rdbSaveLen_def len_image_def fun_eq_iff)
    then show ?thesis by simp
  next
    case 2
    then have "rdbSaveLen len = rdbWriteRaw (len_image len)"
      using small by (simp add: rdbSaveLen_def len_image_def fun_eq_iff)
    then show ?thesis by simp
  next
    case 3
    then have "rdbSaveLen len = save_then (rdbWriteRaw [128]) (rdbWriteRaw (rev (le_bytes 4 (int len))))"
      using raw_raw [of "[128]" _ "rev (le_bytes 4 (int len))"] by (simp add: rdbSaveLen_def fun_eq_iff)
    then show ?thesis using 3 writes_then [OF writes_raw [of "[128]"] writes_raw] by (simp add: len_image_def)
  next
    case 4
    then have "rdbSaveLen len = save_then (rdbWriteRaw [129]) (rdbWriteRaw (rev (le_bytes 8 (int len))))"
      using raw_raw [of "[129]" _ "rev (le_bytes 8 (int len))"] by (simp add: rdbSaveLen_def fun_eq_iff)
    then show ?thesis using 4 writes_then [OF writes_raw [of "[129]"] writes_raw] by (simp add: len_image_def)
  qed
qed

text \<open>The first byte of a length decides how the load goes on.\<close>

definition load_len_rest :: "byte \<Rightarrow> (bool \<times> nat) load" where
  "load_len_rest b rdb =
    (if unat b div 64 = RDB_ENCVAL then IoOk rdb (True, unat b mod 64)
     else if unat b div 64 = RDB_6BITLEN then IoOk rdb (False, unat b mod 64)
     else if unat b div 64 = RDB_14BITLEN then
       io_then (rioRead rdb 1) (\<lambda>rdb buf. IoOk rdb (False, (unat b mod 64) * 256 + unat (hd buf)))
     else if b = RDB_32BITLEN then io_then (rioRead rdb 4) (\<lambda>rdb buf. IoOk rdb (False, nat (le_uint (rev buf))))
     else if b = RDB_64BITLEN then io_then (rioRead rdb 8) (\<lambda>rdb buf. IoOk rdb (False, nat (le_uint (rev buf))))
     else IoErr rdb)"

lemma load_len_first:
  assumes "reads (load_len_rest b) cs (\<lambda>a. a = (e, n))" and "int n \<noteq> RDB_LENERR"
  shows "reads rdbLoadLen (b # cs) (\<lambda>a. a = (e, n))"
proof -
  have "rdbLoadLenByRef = (\<lambda>rdb. io_then (rioRead rdb 1) (\<lambda>rdb buf. load_len_rest (hd buf) rdb))"
    by (simp only: fun_eq_iff rdbLoadLenByRef_def load_len_rest_def Let_def) simp
  then have "reads rdbLoadLenByRef ([b] @ cs) (\<lambda>a. a = (e, n))"
    using assms(1) reads_bytes [of "\<lambda>rdb buf. load_len_rest (hd buf) rdb" "[b]"] by simp
  then show ?thesis
    unfolding rdbLoadLen_def using assms(2) by (auto intro!: reads_end [where bs = "b # cs"] reads_return)
qed

lemma type_bits: "k < 64 \<Longrightarrow> (k + m * 64) div 64 = m \<and> (k + m * 64) mod 64 = (k :: nat)"
  by simp

lemma load_enctype:
  assumes "n < 64"
  shows "reads rdbLoadLen [word_of_nat (192 + n)] (\<lambda>a. a = (True, n))"
proof (rule load_len_first)
  have "unat (word_of_nat (192 + n) :: byte) = n + 3 * 64" using assms unat_byte [of "192 + n"] by simp
  then show "reads (load_len_rest (word_of_nat (192 + n))) [] (\<lambda>a. a = (True, n))"
    using type_bits [OF assms, of 3] by (simp only: load_len_rest_def [abs_def] if_True) (simp add: reads_return)
qed (use assms in simp)

lemma be_image: "int n < 256 ^ k \<Longrightarrow> nat (le_uint (rev (rev (le_bytes k (int n))))) = n"
  by (simp add: le_uint_le_bytes)

lemma rdbLoadLen_reads:
  assumes "int len < RDB_LENERR"
  shows "reads rdbLoadLen (len_image len) (\<lambda>a. a = (False, len))"
proof -
  consider "len < 64" | "64 \<le> len" "len < 16384" | "16384 \<le> len" "int len \<le> 4294967295"
    | "16384 \<le> len" "\<not> int len \<le> 4294967295" by linarith
  then show ?thesis
  proof cases
    case 1
    then show ?thesis
      using unat_byte [of len] assms
      by (simp add: len_image_def) (intro load_len_first, simp_all add: load_len_rest_def [abs_def] reads_return)
  next
    case 2
    define b :: byte where "b = word_of_nat (len div 256 + 64)"
    have "unat b = len div 256 + 64" unfolding b_def using 2 by (intro unat_byte) simp
    moreover have "len div 256 < 64" using 2 by simp
    ultimately have b: "unat b div 64 = 1" "unat b mod 64 = len div 256" by simp_all
    have "unat (hd [word_of_nat (len mod 256) :: byte]) = len mod 256" by (simp add: unat_of_nat)
    then have "reads (load_len_rest b) [word_of_nat (len mod 256)] (\<lambda>a. a = (False, len))"
      unfolding load_len_rest_def using b by (simp) (intro reads_bytes_end, simp_all)
    then show ?thesis using 2 assms load_len_first [of b] by (simp add: len_image_def b_def)
  next
    case 3
    have "reads (load_len_rest 128) (rev (le_bytes 4 (int len))) (\<lambda>a. a = (False, len))"
      unfolding load_len_rest_def using 3 be_image [of len 4] by simp (intro reads_bytes_end, simp_all)
    then show ?thesis using 3 assms load_len_first [of 128] by (simp add: len_image_def)
  next
    case 4
    have "reads (load_len_rest 129) (rev (le_bytes 8 (int len))) (\<lambda>a. a = (False, len))"
      unfolding load_len_rest_def using 4 assms be_image [of len 8] by simp (intro reads_bytes_end, simp_all)
    then show ?thesis using 4 assms load_len_first [of 129] by (simp add: len_image_def)
  qed
qed

interpretation rlen: codec rdbSaveLen rdbLoadLen "\<lambda>len. int len < RDB_LENERR" "\<lambda>len a. a = (False, len)"
  using rdbSaveLen_writes rdbLoadLen_reads by unfold_locales blast

interpretation rtime: codec rdbSaveMillisecondTime rdbLoadMillisecondTime int64 "\<lambda>t a. a = t"
proof
  fix t assume "int64 t"
  then have "le_sint (le_bytes 8 t) = t" by (intro le_sint_le_bytes) (simp_all add: int64_def)
  then have "reads rdbLoadMillisecondTime (le_bytes 8 t) (\<lambda>a. a = t)"
    unfolding rdbLoadMillisecondTime_def by (intro reads_bytes_end) simp_all
  moreover have "writes (rdbSaveMillisecondTime t) (le_bytes 8 t)" by (simp add: rdbSaveMillisecondTime_def)
  ultimately show "\<exists>bs. writes (rdbSaveMillisecondTime t) bs \<and> reads rdbLoadMillisecondTime bs (\<lambda>a. a = t)" by blast
qed

interpretation rtype: codec rdbSaveType rdbLoadType "\<lambda>_. True" "\<lambda>t a. a = t"
proof
  fix t :: byte
  have "reads rdbLoadType [t] (\<lambda>a. a = t)" unfolding rdbLoadType_def by (intro reads_bytes_end) simp_all
  then show "\<exists>bs. writes (rdbSaveType t) bs \<and> reads rdbLoadType bs (\<lambda>a. a = t)"
    unfolding rdbSaveType_def using writes_raw by blast
qed


section \<open>Integers\<close>

text \<open>A loaded value with the text \<open>bs\<close>, in the form that the flag asks for.\<close>

fun loaded_is :: "load_flag \<Rightarrow> byte list \<Rightarrow> loaded \<Rightarrow> bool" where
  "loaded_is RDB_LOAD_PLAIN bs l \<longleftrightarrow> l = LoadedPlain bs"
| "loaded_is RDB_LOAD_SDS bs l \<longleftrightarrow> l = LoadedSds bs"
| "loaded_is RDB_LOAD_NONE bs l \<longleftrightarrow> l = LoadedObj (STR_RAW bs)"
| "loaded_is RDB_LOAD_ENC bs l \<longleftrightarrow> (\<exists>o'. l = LoadedObj o' \<and> str_text o' = bs \<and> str_ok o')"

lemma generic_integer:
  assumes "k < 3" and "reads (rdbLoadIntegerObject env flags k) cs Q"
  shows "reads (rdbGenericLoadStringObject env flags) (word_of_nat (192 + k) # cs) Q"
proof -
  have "k = 0 \<or> k = 1 \<or> k = 2" using assms(1) by linarith
  then have "reads (rdbGenericLoadStringObject env flags) ([word_of_nat (192 + k)] @ cs) Q"
    unfolding rdbGenericLoadStringObject_def using assms(2)
    by (intro reads_then [OF load_enctype]) (auto simp: assms(1))
  then show ?thesis by simp
qed

lemma generic_lzf:
  assumes "reads (rdbLoadLzfStringObject env flags) cs Q"
  shows "reads (rdbGenericLoadStringObject env flags) (195 # cs) Q"
proof -
  have "reads (rdbGenericLoadStringObject env flags) ([word_of_nat (192 + 3)] @ cs) Q"
    unfolding rdbGenericLoadStringObject_def using assms
    by (intro reads_then [OF load_enctype [of 3]]) simp_all
  then show ?thesis by simp
qed

lemma integer_object_reads:
  assumes "reads (rdbLoadIntegerValue k) cs (\<lambda>a. a = v)" and v: "int64 v"
  shows "reads (rdbLoadIntegerObject env flags k) cs (loaded_is flags (dec_int v))"
  unfolding rdbLoadIntegerObject_def
proof (rule reads_end [OF assms(1)])
  fix a assume a: "a = v"
  have "length (dec_int v) < 21" using dec_int_short [OF v] by simp
  then have "ll2string (replicate 21 0) 21 v = Some (dec_int v @ [0] @ drop (length (dec_int v) + 1) (replicate 21 0), length (dec_int v))"
    using ll2string_dec [OF v, of 21 "replicate 21 0"] by simp
  then show "reads (\<lambda>rdb. if flags = RDB_LOAD_PLAIN \<or> flags = RDB_LOAD_SDS
      then case ll2string (replicate 21 0) 21 a of None \<Rightarrow> IoCrash
        | Some (buf, len) \<Rightarrow> IoOk rdb (if flags = RDB_LOAD_PLAIN then LoadedPlain (take len buf) else LoadedSds (take len buf))
      else if flags = RDB_LOAD_ENC then IoOk rdb (LoadedObj (createStringObjectFromLongLongForValue (rdb_shared_ok env) a))
      else IoOk rdb (LoadedObj (STR_RAW (sdsll2str a)))) [] (loaded_is flags (dec_int v))"
    using a createFromLongLong_text [OF v] sdsll2str_dec [OF v]
    by (cases flags) (simp_all add: reads_return createStringObjectFromLongLongForValue_def)
qed

lemma integer_value_reads:
  assumes "k = 0 \<and> w = 1 \<or> k = 1 \<and> w = 2 \<or> k = 2 \<and> w = 4" and "enc_range w v"
  shows "reads (rdbLoadIntegerValue k) (le_bytes w v) (\<lambda>a. a = v)"
  unfolding rdbLoadIntegerValue_def using assms(1) le_sint_enc [OF assms(2)]
  by (elim disjE conjE) (simp_all, (intro reads_bytes_end, simp_all)+)

lemma rdbEncodeInteger_image:
  assumes "rdbEncodeInteger v = Some enc"
  shows "int64 v" and "\<exists>k w. k < 3 \<and> (k = 0 \<and> w = 1 \<or> k = 1 \<and> w = 2 \<or> k = 2 \<and> w = 4) \<and> enc_range w v \<and>
    enc = word_of_nat (192 + k) # le_bytes w v"
proof -
  show "int64 v" using assms by (auto simp: rdbEncodeInteger_def int64_def split: if_splits)
  have d: "v div 256 div 256 = v div 65536" "v div 65536 div 256 = v div 16777216"
    by (simp_all add: zdiv_zmult2_eq [symmetric])
  consider "- 128 \<le> v" "v \<le> 127" "enc = [192, word_of_int v]"
    | "- 32768 \<le> v" "v \<le> 32767" "enc = [193, word_of_int v, word_of_int (v div 256)]"
    | "- 2147483648 \<le> v" "v \<le> 2147483647"
      "enc = [194, word_of_int v, word_of_int (v div 256), word_of_int (v div 65536), word_of_int (v div 16777216)]"
    using assms by (auto simp: rdbEncodeInteger_def split: if_splits)
  then show "\<exists>k w. k < 3 \<and> (k = 0 \<and> w = 1 \<or> k = 1 \<and> w = 2 \<or> k = 2 \<and> w = 4) \<and> enc_range w v \<and>
    enc = word_of_nat (192 + k) # le_bytes w v"
  proof cases
    case 1
    then show ?thesis by (intro exI [of _ 0] exI [of _ 1]) (simp add: enc_range_def)
  next
    case 2
    then show ?thesis by (intro exI [of _ 1] exI [of _ 2]) (simp add: enc_range_def numeral_2_eq_2)
  next
    case 3
    then show ?thesis by (intro exI [of _ 2] exI [of _ 4]) (simp add: enc_range_def eval_nat_numeral d)
  qed
qed

lemma encoded_integer_reads:
  assumes "rdbEncodeInteger v = Some enc"
  shows "reads (rdbGenericLoadStringObject env flags) enc (loaded_is flags (dec_int v))"
proof -
  obtain k w where kw: "k < 3" "k = 0 \<and> w = 1 \<or> k = 1 \<and> w = 2 \<or> k = 2 \<and> w = 4" "enc_range w v"
      "enc = word_of_nat (192 + k) # le_bytes w v"
    using rdbEncodeInteger_image(2) [OF assms] by blast
  show ?thesis
    unfolding kw(4)
    by (rule generic_integer [OF kw(1) integer_object_reads [OF integer_value_reads [OF kw(2,3)] rdbEncodeInteger_image(1) [OF assms]]])
qed

text \<open>
  \<open>strtoll\<close> stops at a terminator; it says 0 and \<open>s\<close> on memory that does not start like a number.\<close>

lemma skip_spaces_nul: "0 \<in> set s \<Longrightarrow> \<exists>p. skip_spaces s = Some p \<and> p \<noteq> [] \<and> 0 \<in> set p"
  by (induction s) (auto simp: isspace_def)

lemma scan_digits_nul: "0 \<in> set p \<Longrightarrow> \<exists>v rest. scan_digits w p = Some (v, rest) \<and> rest \<noteq> []"
  by (induction w p rule: scan_digits.induct) (auto simp: is_digit_def)

lemma strtoll_nul:
  assumes "0 \<in> set s"
  shows "\<exists>v e. strtoll s = Some (v, e) \<and> e \<noteq> []"
proof -
  obtain p where p: "skip_spaces s = Some p" "p \<noteq> []" "0 \<in> set p" using skip_spaces_nul [OF assms] by blast
  define q where "q = (if hd p = 45 \<or> hd p = 43 then tl p else p)"
  have "0 \<in> set q" using p by (cases p) (auto simp: q_def)
  then obtain v rest where "scan_digits 0 q = Some (v, rest)" "rest \<noteq> []" using scan_digits_nul by blast
  moreover have "s \<noteq> []" using assms by auto
  ultimately show ?thesis using p(1) by (auto simp: strtoll_def Let_def q_def)
qed

lemma clamp_int64: "int64 (clamp_ll v)"
  by (simp add: clamp_ll_def int64_def)

lemma int64_zero: "int64 0"
  by (simp add: int64_def)

lemma strtoll_int64: "strtoll s = Some (v, e) \<Longrightarrow> int64 v"
  by (auto simp: strtoll_def Let_def bind_eq_Some_conv clamp_int64 int64_zero simp del: of_nat_less_iff split: if_split_asm)

definition not_numeric :: "byte list \<Rightarrow> bool" where
  "not_numeric s \<longleftrightarrow> s \<noteq> [] \<and> \<not> isspace (hd s) \<and> \<not> is_digit (hd s) \<and> hd s \<noteq> 45 \<and> hd s \<noteq> 43 \<and> hd s \<noteq> 0"

lemma strtoll_not_numeric: "not_numeric s \<Longrightarrow> strtoll s = Some (0, s)"
  by (cases s) (auto simp: not_numeric_def strtoll_def Let_def)

lemma try_integer_total:
  assumes "0 \<in> set s \<or> not_numeric s" and "len \<le> length s"
  shows "\<exists>r. rdbTryIntegerEncoding s len = Some r"
proof -
  obtain v e where e: "strtoll s = Some (v, e)" "e \<noteq> []"
    using assms(1) strtoll_nul [of s] strtoll_not_numeric [of s] by (auto simp: not_numeric_def)
  then obtain buf where "ll2string (replicate 32 0) 32 v = Some (buf, length (dec_int v))"
    using ll2string_buf32 [OF strtoll_int64] by blast
  with e assms(2) show ?thesis by (simp add: rdbTryIntegerEncoding_def peek_def Let_def mem_read_def)
qed

lemma try_integer_sound:
  assumes "rdbTryIntegerEncoding s len = Some (Some enc)"
  shows "\<exists>v. take len s = dec_int v \<and> rdbEncodeInteger v = Some enc"
proof -
  obtain v e buf n where "strtoll s = Some (v, e)" "ll2string (replicate 32 0) 32 v = Some (buf, n)"
      "mem_read s 0 len = Some (takeWhile (\<lambda>b. b \<noteq> 0) buf)" "rdbEncodeInteger v = Some enc"
    using assms by (auto simp: rdbTryIntegerEncoding_def Let_def bind_eq_Some_conv split: if_splits)
  moreover have "takeWhile (\<lambda>b. b \<noteq> 0) buf = dec_int v"
    using ll2string_buf32 [OF strtoll_int64] calculation(1,2) by fastforce
  ultimately show ?thesis by (auto simp: mem_read_def split: if_splits)
qed

section \<open>Strings\<close>

lemma lzf_blob_writes: "writes (rdbSaveLzfBlob data len) (195 # len_image (length data) @ len_image len @ data)"
proof -
  have "rdbSaveLzfBlob data len = save_then (rdbWriteRaw [195])
      (save_then (rdbSaveLen (length data)) (save_then (rdbSaveLen len) (rdbWriteRaw data)))"
    by (simp add: fun_eq_iff rdbSaveLzfBlob_def save_then_def io_then_assoc add.assoc)
  moreover have "writes (save_then (rdbWriteRaw [195])
      (save_then (rdbSaveLen (length data)) (save_then (rdbSaveLen len) (rdbWriteRaw data))))
      ([195] @ len_image (length data) @ len_image len @ data)"
    by (intro writes_then writes_raw rdbSaveLen_writes)
  ultimately show ?thesis by simp
qed

lemma lzf_object_reads:
  assumes dec: "\<forall>dst. length dst = len \<longrightarrow> lzf_decompress data (length data) dst len = Some (len, None, bs)"
    and "length data < 2 ^ 32" and "len < 2 ^ 32"
    and "rdb_try_alloc env (length data)" and "rdb_try_alloc env len"
  shows "reads (rdbLoadLzfStringObject env flags) (len_image (length data) @ len_image len @ data) (loaded_is flags bs)"
proof -
  have small: "int (length data) < RDB_LENERR" "int len < RDB_LENERR" using assms(2,3) by simp_all
  have mods: "length data mod 2 ^ 32 = length data" "len mod 2 ^ 32 = len" using assms(2,3) by simp_all
  have "loaded_is flags bs (case flags of RDB_LOAD_PLAIN \<Rightarrow> LoadedPlain bs | RDB_LOAD_SDS \<Rightarrow> LoadedSds bs
      | _ \<Rightarrow> LoadedObj (STR_RAW bs))" by (cases flags) auto
  then have body: "reads (\<lambda>rdb. io_then (rioRead rdb (length data)) (\<lambda>rdb c.
      case lzf_decompress c (length data mod 2 ^ 32) (map (rdb_fresh env) [0..<len]) (len mod 2 ^ 32) of
         None \<Rightarrow> IoCrash
       | Some (n, _, val) \<Rightarrow>
           if n \<noteq> len then IoErr rdb
           else IoOk rdb (case flags of RDB_LOAD_PLAIN \<Rightarrow> LoadedPlain val | RDB_LOAD_SDS \<Rightarrow> LoadedSds val
                        | _ \<Rightarrow> LoadedObj (STR_RAW val)))) (data @ []) (loaded_is flags bs)"
    unfolding mods using dec by (intro reads_bytes) (simp_all add: reads_return)
  show ?thesis
    unfolding rdbLoadLzfStringObject_def
    by (rule reads_then [OF rdbLoadLen_reads [OF small(1)]], simp, rule reads_then [OF rdbLoadLen_reads [OF small(2)]])
       (use body assms(4,5) in simp)
qed

text \<open>
  What \<open>rdbSaveLzfStringObject\<close> does: nothing, or a blob that decompresses to the string.\<close>

lemma save_lzf_cases:
  assumes "4 < len" and "len \<le> length s" and "len < 2 ^ 32"
  obtains "rdbSaveLzfStringObject env s len = (\<lambda>rdb. IoOk rdb 0)"
  | data where "rdbSaveLzfStringObject env s len = rdbSaveLzfBlob data len" "length data \<le> len"
      "\<forall>dst. length dst = len \<longrightarrow> lzf_decompress data (length data) dst len = Some (len, None, take len s)"
proof -
  let ?out = "map (rdb_fresh env) [0..<len - 4 + 1]"
  have "len < 4294967296" using assms(3) by simp
  moreover have "len - 4 \<le> length ?out" by simp
  ultimately obtain n out where r: "lzf_compress (rdb_htab env) s len ?out (len - 4) = Some (n, out)" "n \<le> len - 4"
      "length out = length ?out"
      "n = 0 \<or> (\<forall>dst. length dst = len \<longrightarrow> lzf_decompress (take n out) n dst len = Some (len, None, take len s))"
    using lzf_restores [of len s "len - 4" ?out "rdb_htab env"] assms(1,2) by auto
  have mods: "len mod 2 ^ 32 = len" "(len - 4) mod 2 ^ 32 = len - 4" using assms(3) by simp_all
  have run: "rdbSaveLzfStringObject env s len rdb = (if n = 0 then IoOk rdb 0 else rdbSaveLzfBlob (take n out) len rdb)" for rdb
    using assms(1) r(1) by (simp only: rdbSaveLzfStringObject_def Let_def mods) simp
  show ?thesis
  proof (cases "n = 0")
    case True
    then show ?thesis using that(1) run by auto
  next
    case False
    have "length (take n out) = n" using r(2,3) by simp
    moreover have "rdbSaveLzfStringObject env s len = rdbSaveLzfBlob (take n out) len"
      using run False by (simp add: fun_eq_iff)
    ultimately show ?thesis using that(2) [of "take n out"] r(2,4) False by simp
  qed
qed

lemma verbatim_writes:
  assumes "len \<le> length s"
  shows "writes (rdbSaveVerbatim s len) (len_image len @ take len s)"
proof -
  have "rdbSaveVerbatim s len = save_then (rdbSaveLen len) (rdbWriteRaw (take len s))" if "0 < len"
  proof
    fix rdb
    have raw: "io_then (rdbWriteRaw (take len s) rdb) (\<lambda>rdb _. IoOk rdb (n + len))
        = io_then (rdbWriteRaw (take len s) rdb) (\<lambda>rdb m. IoOk rdb (n + m))" for rdb n
      using assms by (auto simp: rdbWriteRaw_def split: option.splits prod.splits)
    show "rdbSaveVerbatim s len rdb = save_then (rdbSaveLen len) (rdbWriteRaw (take len s)) rdb"
      using assms that by (simp add: rdbSaveVerbatim_def save_then_def mem_read_def raw)
  qed
  moreover have "rdbSaveVerbatim s 0 = rdbSaveLen 0"
  proof
    fix rdb show "rdbSaveVerbatim s 0 rdb = rdbSaveLen 0 rdb"
      by (cases "rdbSaveLen 0 rdb") (simp_all add: rdbSaveVerbatim_def)
  qed
  ultimately show ?thesis
    using writes_then [OF rdbSaveLen_writes [of len] writes_raw [of "take len s"]] rdbSaveLen_writes [of 0]
    by (cases "len = 0") auto
qed

lemma verbatim_reads:
  assumes "int (length bs) < RDB_LENERR" and "rdb_try_alloc env (length bs)"
  shows "reads (rdbGenericLoadStringObject env flags) (len_image (length bs) @ bs) (loaded_is flags bs)"
proof -
  have body: "reads (\<lambda>r. if length bs \<noteq> 0 then rioRead r (length bs) else IoOk r []) bs (\<lambda>b. b = bs)"
    using reads_rioRead [of bs] by (cases "bs = []") (simp_all add: reads_return)
  have "reads (\<lambda>rdb. if flags = RDB_LOAD_PLAIN \<or> flags = RDB_LOAD_SDS then
       (if \<not> rdb_try_alloc env (length bs) then IoErr rdb
        else io_then (if length bs \<noteq> 0 then rioRead rdb (length bs) else IoOk rdb []) (\<lambda>rdb buf.
          IoOk rdb (if flags = RDB_LOAD_PLAIN then LoadedPlain buf else LoadedSds buf)))
     else
       io_then (if length bs \<noteq> 0 then rioRead rdb (length bs) else IoOk rdb []) (\<lambda>rdb buf.
         IoOk rdb (LoadedObj (if flags = RDB_LOAD_ENC then createStringObject buf else createRawStringObject buf))))
     bs (loaded_is flags bs)"
    using assms(2)
    by (cases flags; simp only: load_flag.distinct if_True if_False simp_thms)
       (rule reads_end [OF body], simp add: reads_return createRawStringObject_def)+
  then show ?thesis
    unfolding rdbGenericLoadStringObject_def by (intro reads_then [OF rdbLoadLen_reads [OF assms(1)]]) simp
qed

text \<open>
  The memory a string is saved from: \<open>len\<close> bytes that are terminated or do not start like a number
  (all \<open>strtoll\<close> needs to stay inside), short enough for LZF, and loadable in memory.
\<close>

definition savable :: "rdb_env \<Rightarrow> byte list \<Rightarrow> nat \<Rightarrow> bool" where
  "savable env s len \<longleftrightarrow> (0 \<in> set s \<or> not_numeric s) \<and> len \<le> length s \<and> len < 2 ^ 32 \<and> (\<forall>m \<le> len. rdb_try_alloc env m)"

lemma compressed_codec:
  assumes s: "len \<le> length s" "len < 2 ^ 32" "\<And>m. m \<le> len \<Longrightarrow> rdb_try_alloc env' m"
    and d: "length data \<le> len"
      "\<forall>dst. length dst = len \<longrightarrow> lzf_decompress data (length data) dst len = Some (len, None, take len s)"
  shows "reads (rdbGenericLoadStringObject env' flags) (195 # len_image (length data) @ len_image len @ data)
    (loaded_is flags (take len s))"
proof -
  have "length data < 2 ^ 32" using d(1) s(2) by (rule le_less_trans)
  then have "reads (rdbLoadLzfStringObject env' flags) (len_image (length data) @ len_image len @ data)
      (loaded_is flags (take len s))"
    using s(2,3) d(1) by (intro lzf_object_reads [OF d(2)]) auto
  then show ?thesis by (rule generic_lzf)
qed

lemma raw_string_codec:
  assumes "savable env' s len"
  shows "\<exists>bs. writes (rdbSaveRawString env s len) bs \<and>
    reads (rdbGenericLoadStringObject env' flags) bs (loaded_is flags (take len s))"
proof -
  have s: "0 \<in> set s \<or> not_numeric s" "len \<le> length s" "len < 2 ^ 32" "\<And>m. m \<le> len \<Longrightarrow> rdb_try_alloc env' m"
    using assms by (auto simp: savable_def)
  have l: "length (take len s) = len" using s(2) by simp
  have verb: "writes (rdbSaveVerbatim s len) (len_image len @ take len s)"
      "reads (rdbGenericLoadStringObject env' flags) (len_image len @ take len s) (loaded_is flags (take len s))"
    using verbatim_writes [OF s(2)] verbatim_reads [of "take len s" env' flags] s(3) s(4) [of len] unfolding l by simp_all
  obtain r where r: "(if len \<le> 11 then rdbTryIntegerEncoding s len else Some None) = Some r"
    using try_integer_total [OF s(1,2)] by (cases "len \<le> 11") auto
  consider (int) enc where "r = Some enc" | (lzf) "r = None" "rdb_compression env \<and> len > 20"
    | (verbatim) "r = None" "\<not> (rdb_compression env \<and> len > 20)" by (cases r) auto
  then show ?thesis
  proof cases
    case int
    then have "rdbTryIntegerEncoding s len = Some (Some enc)" using r by (simp split: if_splits)
    then obtain v where v: "take len s = dec_int v" "rdbEncodeInteger v = Some enc" using try_integer_sound by blast
    have "rdbSaveRawString env s len = rdbWriteRaw enc" using r int by (simp add: fun_eq_iff rdbSaveRawString_def)
    then show ?thesis using encoded_integer_reads [OF v(2)] v(1) writes_raw [of enc] by metis
  next
    case lzf
    then have run: "rdbSaveRawString env s len = (\<lambda>rdb. io_then (rdbSaveLzfStringObject env s len rdb) (\<lambda>rdb n.
        if n > 0 then IoOk rdb n else rdbSaveVerbatim s len rdb))"
      using r by (simp add: fun_eq_iff rdbSaveRawString_def)
    have "4 < len" using lzf by simp
    then show ?thesis
    proof (rule save_lzf_cases [OF _ s(2,3), where env = env])
      assume "rdbSaveLzfStringObject env s len = (\<lambda>rdb. IoOk rdb 0)"
      then have "rdbSaveRawString env s len = rdbSaveVerbatim s len" using run by simp
      then show ?thesis using verb by auto
    next
      fix data assume d: "rdbSaveLzfStringObject env s len = rdbSaveLzfBlob data len" "length data \<le> len"
        "\<forall>dst. length dst = len \<longrightarrow> lzf_decompress data (length data) dst len = Some (len, None, take len s)"
      have "writes (rdbSaveRawString env s len) (195 # len_image (length data) @ len_image len @ data)"
        using lzf_blob_writes [of data len] unfolding run d(1) writes_def by fastforce
      then show ?thesis using compressed_codec [OF s(2,3,4) d(2,3)] by blast
    qed
  next
    case verbatim
    then have "rdbSaveRawString env s len = rdbSaveVerbatim s len"
      using r by (auto simp: fun_eq_iff rdbSaveRawString_def)
    then show ?thesis using verb by auto
  qed
qed

interpretation rstr: codec "\<lambda>p. rdbSaveRawString env (fst p) (snd p)" "rdbGenericLoadStringObject env' flags"
  "\<lambda>p. savable env' (fst p) (snd p)" "\<lambda>p. loaded_is flags (take (snd p) (fst p))" for env env' flags
  by unfold_locales (rule raw_string_codec)

text \<open>
  Integer objects, printed when they do not fit 32 bits.\<close>

lemma long_long_codec:
  assumes v: "int64 v" and alloc: "\<And>m. m \<le> 20 \<Longrightarrow> rdb_try_alloc env m"
  shows "\<exists>bs. writes (rdbSaveLongLongAsStringObject v) bs \<and>
    reads (rdbGenericLoadStringObject env flags) bs (loaded_is flags (dec_int v))"
proof (cases "rdbEncodeInteger v")
  case (Some enc)
  then have "rdbSaveLongLongAsStringObject v = rdbWriteRaw enc"
    by (simp add: fun_eq_iff rdbSaveLongLongAsStringObject_def)
  then show ?thesis using encoded_integer_reads [OF Some] writes_raw [of enc] by metis
next
  case None
  define len where "len = length (dec_int v)"
  have len: "len \<le> 20" using dec_int_short [OF v] by (simp add: len_def)
  have "ll2string (replicate 32 0) 32 v = Some (dec_int v @ [0] @ drop (len + 1) (replicate 32 0), len)"
    using ll2string_dec [OF v, of 32 "replicate 32 0"] len by (simp add: len_def)
  then have "rdbSaveLongLongAsStringObject v = save_then (rdbSaveLen len) (rdbWriteRaw (dec_int v))"
    using None len by (simp add: fun_eq_iff rdbSaveLongLongAsStringObject_def save_then_def len_def)
  then have "writes (rdbSaveLongLongAsStringObject v) (len_image len @ dec_int v)"
    using writes_then [OF rdbSaveLen_writes writes_raw] by simp
  moreover have "reads (rdbGenericLoadStringObject env flags) (len_image len @ dec_int v) (loaded_is flags (dec_int v))"
    unfolding len_def using len by (intro verbatim_reads) (simp_all add: len_def alloc)
  ultimately show ?thesis by blast
qed

definition str_savable :: "rdb_env \<Rightarrow> strobj \<Rightarrow> bool" where
  "str_savable env o' \<longleftrightarrow> str_ok o' \<and> length (str_text o') < 2 ^ 32 \<and>
     (\<forall>m \<le> max 20 (length (str_text o')). rdb_try_alloc env m)"

lemma string_object_codec:
  assumes "str_savable env' o'"
  shows "\<exists>bs. writes (rdbSaveStringObject env o') bs \<and>
    reads (rdbGenericLoadStringObject env' flags) bs (loaded_is flags (str_text o'))"
proof -
  have sds: "\<exists>bs. writes (rdbSaveRawString env (s @ [0]) (length s)) bs \<and>
      reads (rdbGenericLoadStringObject env' flags) bs (loaded_is flags s)" if "str_text o' = s" for s
    using raw_string_codec [of env' "s @ [0]" "length s" env flags] assms that
    by (simp add: savable_def str_savable_def)
  have long: "\<exists>bs. writes (rdbSaveLongLongAsStringObject v) bs \<and>
      reads (rdbGenericLoadStringObject env' flags) bs (loaded_is flags (dec_int v))" if "int64 v" for v
    using assms that by (intro long_long_codec) (auto simp: str_savable_def)
  show ?thesis
  proof (cases o')
    case (STR_SHARED v)
    then have "int64 v" using assms by (simp add: str_savable_def int64_def)
    then show ?thesis using STR_SHARED long by (simp add: rdbSaveStringObject_def)
  qed (use assms sds long in \<open>simp_all add: rdbSaveStringObject_def str_savable_def\<close>)
qed

lemma encoded_object_reads:
  assumes "reads (rdbGenericLoadStringObject env RDB_LOAD_ENC) bs (loaded_is RDB_LOAD_ENC s)"
  shows "reads (rdbLoadEncodedStringObject env) bs (\<lambda>o'. str_text o' = s \<and> str_ok o')"
  unfolding rdbLoadEncodedStringObject_def
  by (rule reads_end [OF assms]) (auto simp: loaded_obj_def reads_return)

lemma plain_object_reads:
  assumes "reads (rdbGenericLoadStringObject env RDB_LOAD_NONE) bs (loaded_is RDB_LOAD_NONE s)"
  shows "reads (rdbLoadStringObject env) bs (\<lambda>o'. o' = STR_RAW s)"
  unfolding rdbLoadStringObject_def
  by (rule reads_end [OF assms]) (auto simp: loaded_obj_def reads_return)

interpretation rstrobj: codec "rdbSaveStringObject env" "rdbLoadEncodedStringObject env'" "str_savable env'"
  "\<lambda>o' l. str_text l = str_text o' \<and> str_ok l" for env env'
  using string_object_codec encoded_object_reads by unfold_locales blast

interpretation rkey: codec "rdbSaveStringObject env" "rdbLoadStringObject env'" "str_savable env'"
  "\<lambda>o' l. l = STR_RAW (str_text o')" for env env'
  using string_object_codec plain_object_reads by unfold_locales blast

section \<open>Properties\<close>

text \<open>
  C26: Every string that \<open>rdbSaveRawString\<close> writes, whether as an 8, 16 or 32 bit integer, LZF
  compressed or verbatim, is loaded back with the same bytes, under any hash table contents, any
  compression setting and any load flag; the number returned is the number of bytes written, also
  when no stream is given.\<close>

theorem rdb_string_roundtrip:
  assumes "length s < 2 ^ 32" and "\<forall>m \<le> length s. rdb_try_alloc env' m"
  shows "\<exists>r n. rdbSaveRawString env (s @ [0]) (length s) (Some (rioInitWithBuffer [])) = IoOk (Some r) n \<and>
    n = length (io_ptr r) \<and> rdbSaveRawString env (s @ [0]) (length s) None = IoOk None n \<and>
    (\<exists>r' l. rdbGenericLoadStringObject env' flags (rioInitWithBuffer (io_ptr r)) = IoOk r' l \<and> holds r' [] \<and> loaded_is flags s l)"
  using rstr.buffer_roundtrip [of env' "(s @ [0], length s)" env flags] assms by (simp add: savable_def)

definition ex_rdb_env :: rdb_env where
  "ex_rdb_env = \<lparr>rdb_compression = True, rdb_htab = (\<lambda>_. 1), rdb_fresh = (\<lambda>_. 0), rdb_try_alloc = (\<lambda>_. True), rdb_shared_ok = True\<rparr>"

theorem rdb_string_roundtrip_witness:
  "\<exists>r n. rdbSaveRawString ex_rdb_env [45, 49, 0] (length [45, 49 :: byte]) (Some (rioInitWithBuffer [])) = IoOk (Some r) n \<and>
    n = length (io_ptr r) \<and> rdbSaveRawString ex_rdb_env [45, 49, 0] (length [45, 49 :: byte]) None = IoOk None n \<and>
    (\<exists>r' l. rdbGenericLoadStringObject ex_rdb_env RDB_LOAD_SDS (rioInitWithBuffer (io_ptr r)) = IoOk r' l \<and> holds r' [] \<and>
      l = LoadedSds [45, 49])"
  using rdb_string_roundtrip [of "[45, 49]" ex_rdb_env ex_rdb_env RDB_LOAD_SDS] by (simp add: ex_rdb_env_def)

end
