(* ===== verification/Rdb_Object.thy ===== *)
theory Rdb_Object
  imports Rdb_String Set_Type
begin

text \<open>
  The object layer of \<open>rdb.c\<close> for strings and sets in both encodings: \<open>rdbSaveObjectType\<close>,
  \<open>rdbSaveObject\<close>, \<open>rdbSavedObjectLen\<close>, \<open>rdbLoadObjectType\<close>, \<open>rdbLoadObject\<close> and
  \<open>rdbSaveKeyValuePair\<close>.  Lists, sorted sets, hashes, streams and module values are not modelled:
  the loader reports them as \<open>IoErr\<close>.
\<close>

section \<open>Model: saving\<close>

datatype rdb_value = VString strobj | VSet setobj

abbreviation (input) RDB_TYPE_STRING :: byte where "RDB_TYPE_STRING \<equiv> 0"
abbreviation (input) RDB_TYPE_SET :: byte where "RDB_TYPE_SET \<equiv> 2"
abbreviation (input) RDB_TYPE_SET_INTSET :: byte where "RDB_TYPE_SET_INTSET \<equiv> 11"

definition rdbSaveObjectType :: "rdb_value \<Rightarrow> save" where
  "rdbSaveObjectType v =
     (case v of
        VString _ \<Rightarrow> rdbSaveType RDB_TYPE_STRING
      | VSet (OBJ_ENCODING_INTSET _) \<Rightarrow> rdbSaveType RDB_TYPE_SET_INTSET
      | VSet (OBJ_ENCODING_HT _) \<Rightarrow> rdbSaveType RDB_TYPE_SET)"

definition rdbIsObjectType :: "nat \<Rightarrow> bool" where
  "rdbIsObjectType t \<longleftrightarrow> t \<le> 7 \<or> 9 \<le> t \<and> t \<le> 15"

definition rdbLoadObjectType :: "byte load" where
  "rdbLoadObjectType rdb = io_then (rdbLoadType rdb) (\<lambda>rdb t. if \<not> rdbIsObjectType (unat t) then IoErr rdb else IoOk rdb t)"

text \<open>
  The elements of a hash table: \<open>None\<close> is a failed assertion of the iterator.  An element is an sds,
  its text followed by the terminator.
\<close>

partial_function (option) save_members ::
  "rdb_env \<Rightarrow> u64 \<times> u64 \<Rightarrow> (byte list, unit) dict \<Rightarrow> (byte list, unit) dictIterator \<Rightarrow> nat \<Rightarrow> rio option
   \<Rightarrow> (rio option, nat) io option" where
  "save_members env addr d di nwritten rdb = do {
     (d', di', de) \<leftarrow> dictNext addr d di;
     (case de of
        None \<Rightarrow> do { _ \<leftarrow> dictReleaseIterator addr d' di'; Some (IoOk rdb nwritten) }
      | Some e \<Rightarrow>
          (case rdbSaveRawString env (de_key e @ [0]) (length (de_key e)) rdb of
             IoCrash \<Rightarrow> None
           | IoErr rdb' \<Rightarrow> do { _ \<leftarrow> dictReleaseIterator addr d' di'; Some (IoErr rdb') }
           | IoOk rdb' n \<Rightarrow> save_members env addr d' di' (nwritten + n) rdb'))
   }"

text \<open>The memory of an integer set.\<close>

definition intset_blob :: "intset \<Rightarrow> byte list" where
  "intset_blob is = le_bytes 4 (int (is_encoding is)) @ le_bytes 4 (int (is_length is)) @ is_contents is"

definition rdbSaveSetObject :: "rdb_env \<Rightarrow> u64 \<times> u64 \<Rightarrow> setobj \<Rightarrow> save" where
  "rdbSaveSetObject env addr s rdb =
     (case s of
        OBJ_ENCODING_HT d \<Rightarrow>
          (case rdbSaveLen (dictSize d) rdb of
             IoCrash \<Rightarrow> IoCrash
           | IoErr rdb' \<Rightarrow> (case dictReleaseIterator addr d dictGetIterator of None \<Rightarrow> IoCrash | Some _ \<Rightarrow> IoErr rdb')
           | IoOk rdb' n \<Rightarrow>
               (case save_members env addr d dictGetIterator n rdb' of None \<Rightarrow> IoCrash | Some r \<Rightarrow> r))
      | OBJ_ENCODING_INTSET is \<Rightarrow> rdbSaveRawString env (intset_blob is) (intsetBlobLen is) rdb)"

definition rdbSaveObject :: "rdb_env \<Rightarrow> u64 \<times> u64 \<Rightarrow> rdb_value \<Rightarrow> save" where
  "rdbSaveObject env addr v =
     (case v of VString o' \<Rightarrow> rdbSaveStringObject env o' | VSet s \<Rightarrow> rdbSaveSetObject env addr s)"

text \<open>The length without a stream; \<open>-1\<close> fails the assertion.\<close>

definition rdbSavedObjectLen :: "rdb_env \<Rightarrow> u64 \<times> u64 \<Rightarrow> rdb_value \<Rightarrow> nat option" where
  "rdbSavedObjectLen env addr v = (case rdbSaveObject env addr v None of IoOk _ n \<Rightarrow> Some n | _ \<Rightarrow> None)"

text \<open>
  The access clock is not modelled: \<open>idle\<close> and \<open>freq\<close> are the values that the two eviction policies
  save, if any.
\<close>

definition rdbSaveKeyValuePair ::
  "rdb_env \<Rightarrow> u64 \<times> u64 \<Rightarrow> nat option \<Rightarrow> byte option \<Rightarrow> strobj \<Rightarrow> rdb_value \<Rightarrow> int \<Rightarrow> save" where
  "rdbSaveKeyValuePair env addr idle freq key val expiretime rdb =
     io_then (if expiretime \<noteq> -1 then
                io_then (rdbSaveType 252 rdb) (\<lambda>rdb _. rdbSaveMillisecondTime expiretime rdb)
              else IoOk rdb 0) (\<lambda>rdb _.
     io_then (case idle of
                Some t \<Rightarrow> io_then (rdbSaveType 248 rdb) (\<lambda>rdb _. rdbSaveLen t rdb)
              | None \<Rightarrow> IoOk rdb 0) (\<lambda>rdb _.
     io_then (case freq of
                Some b \<Rightarrow> io_then (rdbSaveType 249 rdb) (\<lambda>rdb _. rdbWriteRaw [b] rdb)
              | None \<Rightarrow> IoOk rdb 0) (\<lambda>rdb _.
     io_then (rdbSaveObjectType val rdb) (\<lambda>rdb _.
     io_then (rdbSaveStringObject env key rdb) (\<lambda>rdb _.
     io_then (rdbSaveObject env addr val rdb) (\<lambda>rdb _. IoOk rdb 1))))))"

section \<open>Model: loading\<close>

text \<open>\<open>dictTryExpand\<close> on the table of a set; whether its allocation succeeds is \<open>rdb_try_alloc\<close>.\<close>

definition expand_set :: "rdb_env \<Rightarrow> setobj \<Rightarrow> nat \<Rightarrow> (setobj \<times> bool) option" where
  "expand_set env o' len =
     (case o' of
        OBJ_ENCODING_INTSET _ \<Rightarrow> None
      | OBJ_ENCODING_HT d \<Rightarrow> do { (d', ok) \<leftarrow> dictTryExpand (rdb_try_alloc env (8 * len)) d len; Some (OBJ_ENCODING_HT d', ok) })"

text \<open>
  One element: \<open>None\<close> for a crash, \<open>Some None\<close> for a reported error (a duplicate, or no memory for
  the table), otherwise the new set.
\<close>

definition add_loaded :: "rdb_env \<Rightarrow> set_env \<Rightarrow> setobj \<Rightarrow> nat \<Rightarrow> byte list \<Rightarrow> setobj option option" where
  "add_loaded env senv o' len ele = do {
     r \<leftarrow> (case o' of
             OBJ_ENCODING_INTSET is \<Rightarrow>
               (case isSdsRepresentableAsLongLong ele of
                  Some llval \<Rightarrow> do {
                    (is', success) \<leftarrow> intsetAdd (env_fresh senv) is llval;
                    Some (if success then Some (OBJ_ENCODING_INTSET is') else None)
                  }
                | None \<Rightarrow> do {
                    o' \<leftarrow> setTypeConvert senv o';
                    (o', ok) \<leftarrow> expand_set env o' len;
                    Some (if ok then Some o' else None)
                  })
           | OBJ_ENCODING_HT _ \<Rightarrow> Some (Some o'));
     (case r of
        None \<Rightarrow> Some None
      | Some (OBJ_ENCODING_HT d) \<Rightarrow> do {
          (d', ok) \<leftarrow> dictAdd (env_can_resize senv) d ele ();
          Some (if ok then Some (OBJ_ENCODING_HT d') else None)
        }
      | Some o' \<Rightarrow> Some (Some o'))
   }"

text \<open>The counter \<open>i\<close> is an \<open>unsigned int\<close>, the length a \<open>uint64_t\<close>; \<open>None\<close> is a crash or no end.\<close>

partial_function (option) load_members ::
  "rdb_env \<Rightarrow> set_env \<Rightarrow> nat \<Rightarrow> nat \<Rightarrow> setobj \<Rightarrow> rio \<Rightarrow> (rio, setobj) io option" where
  "load_members env senv len i o' rdb =
     (if i < len then
        (case rdbGenericLoadStringObject env RDB_LOAD_SDS rdb of
           IoCrash \<Rightarrow> None
         | IoErr rdb' \<Rightarrow> Some (IoErr rdb')
         | IoOk rdb' (LoadedSds ele) \<Rightarrow> do {
             r \<leftarrow> add_loaded env senv o' len ele;
             (case r of
                None \<Rightarrow> Some (IoErr rdb')
              | Some o'' \<Rightarrow> load_members env senv len ((i + 1) mod 4294967296) o'' rdb')
           }
         | IoOk rdb' _ \<Rightarrow> None)
      else Some (IoOk rdb o'))"

definition rdbLoadSet :: "rdb_env \<Rightarrow> set_env \<Rightarrow> setobj load" where
  "rdbLoadSet env senv rdb = io_then (rdbLoadLen rdb) (\<lambda>rdb (_, len).
     case (if len > env_max_intset senv then
             (if len > DICT_HT_INITIAL_SIZE then expand_set env (createSetObject senv) len
              else Some (createSetObject senv, True))
           else Some (createIntsetObject, True)) of
       None \<Rightarrow> IoCrash
     | Some (o', ok) \<Rightarrow>
         if \<not> ok then IoErr rdb
         else (case load_members env senv len 0 o' rdb of None \<Rightarrow> IoCrash | Some r \<Rightarrow> r))"

definition rdbLoadIntset :: "rdb_env \<Rightarrow> set_env \<Rightarrow> bool \<Rightarrow> setobj load" where
  "rdbLoadIntset env senv deep rdb = io_then (rdbGenericLoadStringObject env RDB_LOAD_PLAIN rdb) (\<lambda>rdb l.
     case l of
       LoadedPlain blob \<Rightarrow>
         (case intsetValidateIntegrity blob deep of
            None \<Rightarrow> IoCrash
          | Some False \<Rightarrow> IoErr rdb
          | Some True \<Rightarrow>
              (let is = intset_of_blob blob in
               if intsetLen is > env_max_intset senv
               then (case setTypeConvert senv (OBJ_ENCODING_INTSET is) of None \<Rightarrow> IoCrash | Some o' \<Rightarrow> IoOk rdb o')
               else IoOk rdb (OBJ_ENCODING_INTSET is)))
     | _ \<Rightarrow> IoCrash)"

definition rdbLoadObject :: "rdb_env \<Rightarrow> set_env \<Rightarrow> bool \<Rightarrow> byte \<Rightarrow> rdb_value load" where
  "rdbLoadObject env senv deep rdbtype rdb =
     (if rdbtype = RDB_TYPE_STRING then
        io_then (rdbLoadEncodedStringObject env rdb) (\<lambda>rdb o'. IoOk rdb (VString (tryObjectEncoding (rdb_shared_ok env) 1 o')))
      else if rdbtype = RDB_TYPE_SET then io_then (rdbLoadSet env senv rdb) (\<lambda>rdb s. IoOk rdb (VSet s))
      else if rdbtype = RDB_TYPE_SET_INTSET then io_then (rdbLoadIntset env senv deep rdb) (\<lambda>rdb s. IoOk rdb (VSet s))
      else IoErr rdb)"

section \<open>Saving the elements of a hash table\<close>

lemma save_members_yields:
  assumes "yields senv (OBJ_ENCODING_HT d) si es"
  shows "si = IterHT di \<Longrightarrow> env_addr senv = addr \<Longrightarrow>
    (\<And>k. ElemStr k \<in> set es \<Longrightarrow> writes (rdbSaveRawString env (k @ [0]) (length k)) (img k)) \<Longrightarrow>
    save_members env addr d di n None = Some (IoOk None (n + length (concat (map (\<lambda>e. img (elem_sds e)) es)))) \<and>
    (\<forall>r. \<not> io_write_error r \<longrightarrow> (\<exists>r'. save_members env addr d di n (Some r)
        = Some (IoOk (Some r') (n + length (concat (map (\<lambda>e. img (elem_sds e)) es)))) \<and>
      io_ptr r' = io_ptr r @ concat (map (\<lambda>e. img (elem_sds e)) es) \<and> \<not> io_write_error r'))"
  using assms
proof (induction arbitrary: di n rule: yields.induct)
  case (yields_end si si')
  then obtain di' where nx: "dictNext addr d di = Some (d, di', None)" "si' = IterHT di'"
    by (auto simp: setTypeNext_def bind_eq_Some_conv)
  then obtain d' where "dictReleaseIterator addr d di' = Some d'"
    using yields_end by (auto simp: setTypeReleaseIterator_def)
  then show ?case using nx by (subst (1 2) save_members.simps) simp
next
  case (yields_next si si' e es)
  obtain di' de where nx: "dictNext addr d di = Some (d, di', Some de)" "si' = IterHT di'" "e = ElemStr (de_key de)"
    using yields_next by (auto simp: setTypeNext_def bind_eq_Some_conv)
  define k where "k = de_key de"
  have w: "writes (rdbSaveRawString env (k @ [0]) (length k)) (img k)" using yields_next.prems(3) nx(3) by (simp add: k_def)
  have e: "elem_sds e = k" using nx(3) by (simp add: elem_sds_def k_def)
  have step: "save_members env addr d di n rdb = save_members env addr d di' (n + m) rdb'"
    if "rdbSaveRawString env (k @ [0]) (length k) rdb = IoOk rdb' m" for rdb rdb' m
    using nx(1) that by (subst save_members.simps) (simp add: k_def)
  note IH = yields_next.IH [OF nx(2) yields_next.prems(2), of "n + length (img k)", OF yields_next.prems(3)]
  show ?case
  proof (intro conjI allI impI)
    show "save_members env addr d di n None = Some (IoOk None (n + length (concat (map (\<lambda>e. img (elem_sds e)) (e # es)))))"
      using step [of None None "length (img k)"] w IH e by (simp add: writes_def add.assoc)
    fix r :: rio assume "\<not> io_write_error r"
    then obtain r1 where r1: "rdbSaveRawString env (k @ [0]) (length k) (Some r) = IoOk (Some r1) (length (img k))"
        "io_ptr r1 = io_ptr r @ img k" "\<not> io_write_error r1"
      using w unfolding writes_def by blast
    then show "\<exists>r'. save_members env addr d di n (Some r)
        = Some (IoOk (Some r') (n + length (concat (map (\<lambda>e. img (elem_sds e)) (e # es))))) \<and>
      io_ptr r' = io_ptr r @ concat (map (\<lambda>e. img (elem_sds e)) (e # es)) \<and> \<not> io_write_error r'"
      using step [OF r1(1)] IH e by (fastforce simp: add.assoc)
  qed
qed

lemma save_set_ht_writes:
  assumes rep: "set_rep senv (OBJ_ENCODING_HT d)"
    and img: "\<And>k. k \<in> dict_keys d \<Longrightarrow> writes (rdbSaveRawString env (k @ [0]) (length k)) (img k)"
    and ks: "ks = map elem_sds (set_list (OBJ_ENCODING_HT d))"
  shows "writes (rdbSaveSetObject env (env_addr senv) (OBJ_ENCODING_HT d)) (len_image (dictSize d) @ concat (map img ks))"
proof -
  let ?s = "OBJ_ENCODING_HT d"
  have y: "yields senv ?s (IterHT dictGetIterator) (set_list ?s)"
    using set_iterator_yields [OF rep] by (simp add: setTypeInitIterator_def)
  have mem: "k \<in> dict_keys d" if "ElemStr k \<in> set (set_list ?s)" for k
    using set_list_texts(2) [OF rep] imageI [OF that, of elem_sds] by (simp add: set_elems_def elem_sds_def)
  have c: "concat (map (\<lambda>e. img (elem_sds e)) (set_list ?s)) = concat (map img ks)" by (simp add: ks comp_def)
  note run = save_members_yields [OF y refl refl, of env img, OF img [OF mem], unfolded c]
  show ?thesis
    unfolding writes_def
  proof (intro conjI allI impI)
    have "rdbSaveLen (dictSize d) None = IoOk None (length (len_image (dictSize d)))"
      using rdbSaveLen_writes by (simp add: writes_def)
    then show "rdbSaveSetObject env (env_addr senv) ?s None = IoOk None (length (len_image (dictSize d) @ concat (map img ks)))"
      using run by (simp add: rdbSaveSetObject_def)
    fix r :: rio assume "\<not> io_write_error r"
    then obtain r1 where r1: "rdbSaveLen (dictSize d) (Some r) = IoOk (Some r1) (length (len_image (dictSize d)))"
        "io_ptr r1 = io_ptr r @ len_image (dictSize d)" "\<not> io_write_error r1"
      using rdbSaveLen_writes [of "dictSize d"] unfolding writes_def by blast
    then obtain r2 where r2: "save_members env (env_addr senv) d dictGetIterator (length (len_image (dictSize d))) (Some r1)
          = Some (IoOk (Some r2) (length (len_image (dictSize d)) + length (concat (map img ks))))"
        "io_ptr r2 = io_ptr r1 @ concat (map img ks)" "\<not> io_write_error r2"
      using run by blast
    show "\<exists>r'. rdbSaveSetObject env (env_addr senv) ?s (Some r)
        = IoOk (Some r') (length (len_image (dictSize d) @ concat (map img ks))) \<and>
      io_ptr r' = io_ptr r @ len_image (dictSize d) @ concat (map img ks) \<and> \<not> io_write_error r'"
      using r1 r2 by (simp add: rdbSaveSetObject_def)
  qed
qed

section \<open>Loading a set\<close>

text \<open>
  Loading needs memory: all allocations succeed.  The configured limit of integer sets is below the
  size at which their 32-bit byte count wraps.
\<close>

definition load_env :: "rdb_env \<Rightarrow> set_env \<Rightarrow> bool" where
  "load_env env senv \<longleftrightarrow> (\<forall>m. rdb_try_alloc env m) \<and> env_max_intset senv < 536870911"

lemma expand_set_ok:
  assumes "dset_inv (env_hash senv) d" and "len \<le> 2 ^ 60" and "load_env env senv"
  shows "\<exists>d'. expand_set env (OBJ_ENCODING_HT d) len = Some (OBJ_ENCODING_HT d', True) \<and>
    dset_inv (env_hash senv) d' \<and> dict_keys d' = dict_keys d"
proof -
  have wf: "dict_wf d" using assms(1) by (simp add: dset_inv_def)
  obtain d' ok f where r: "dictExpand_gen (Some True) d len = Some (d', ok, f)" "dict_wf d'" "same_dict d d'"
    using dictExpand_gen_wf [OF wf assms(2), of "Some True"] by blast
  have "\<not> f" using r(1) by (auto simp: dictExpand_gen_def Let_def bind_eq_Some_conv split: if_splits)
  then have "expand_set env (OBJ_ENCODING_HT d) len = Some (OBJ_ENCODING_HT d', True)"
    using r(1) assms(3) by (simp add: expand_set_def dictTryExpand_def load_env_def)
  then show ?thesis using dset_same_dict [OF assms(1) r(3,2)] by blast
qed

lemma add_loaded_ok:
  assumes rep: "set_rep senv so" and new: "ele \<notin> set_elems so" and env: "load_env env senv"
    and len: "card (set_elems so) < len" "len < 2 ^ 32" and small: "is_OBJ_ENCODING_INTSET so \<Longrightarrow> len \<le> env_max_intset senv"
  shows "\<exists>so'. add_loaded env senv so len ele = Some (Some so') \<and> set_rep senv so' \<and>
    set_elems so' = insert ele (set_elems so) \<and> (is_OBJ_ENCODING_INTSET so' \<longrightarrow> is_OBJ_ENCODING_INTSET so)"
proof -
  have l60: "len \<le> 2 ^ 60" using len(2) by (rule order.strict_implies_order [OF order.strict_trans]) simp
  have add: "\<exists>so'. (do { (d', ok) \<leftarrow> dictAdd (env_can_resize senv) d ele ();
        Some (if ok then Some (OBJ_ENCODING_HT d') else None) }) = Some (Some so') \<and> set_rep senv so' \<and>
      set_elems so' = insert ele (set_elems so) \<and> \<not> is_OBJ_ENCODING_INTSET so'"
    if inv: "dset_inv (env_hash senv) d" and keys: "dict_keys d = set_elems so" for d
  proof -
    have "card (dict_keys d) < 2 ^ 60" using keys len(1) l60 by simp
    then obtain d' where "dictAdd (env_can_resize senv) d ele () = Some (d', True)" "dset_inv (env_hash senv) d'"
        "dict_keys d' = insert ele (dict_keys d)"
      using dset_add [OF inv, of "env_can_resize senv" ele] new keys by auto
    then show ?thesis using keys by (simp add: set_rep_def set_elems_def)
  qed
  show ?thesis
  proof (cases so)
    case (OBJ_ENCODING_HT d)
    then show ?thesis using rep add [of d] by (auto simp: add_loaded_def set_rep_def set_elems_def)
  next
    case (OBJ_ENCODING_INTSET "is")
    have wf: "intset_wf is" using rep OBJ_ENCODING_INTSET by (simp add: set_rep_def)
    have lt: "is_length is < 536870911"
      using small len(1) env card_set_elems [OF rep] OBJ_ENCODING_INTSET
      by (simp add: setTypeSize_def intsetLen_def load_env_def)
    show ?thesis
    proof (cases "string2ll ele")
      case (Some v)
      then have v: "int64 v" "ele = dec_int v" by (simp_all add: string2ll_canonical)
      have "v \<notin> set (intset_elems is)" using new v OBJ_ENCODING_INTSET by (auto simp: set_elems_def)
      then obtain is' where is': "intsetAdd (env_fresh senv) is v = Some (is', True)" "intset_wf is'"
          "set (intset_elems is') = insert v (set (intset_elems is))"
        using intsetAdd_ok [OF wf _ v(1), of "env_fresh senv"] lt by (auto simp: intset_room_def)
      then show ?thesis using Some OBJ_ENCODING_INTSET v(2)
        by (simp add: add_loaded_def isSdsRepresentableAsLongLong_def set_rep_def set_elems_def)
    next
      case None
      have "is_length is < 2 ^ 60" using lt by simp
      then obtain d where d: "setTypeConvert senv so = Some (OBJ_ENCODING_HT d)" "dset_inv (env_hash senv) d"
          "dict_keys d = set_elems so"
        using setTypeConvert_ok [of senv "is"] rep OBJ_ENCODING_INTSET by auto
      obtain d' where d': "expand_set env (OBJ_ENCODING_HT d) len = Some (OBJ_ENCODING_HT d', True)"
          "dset_inv (env_hash senv) d'" "dict_keys d' = set_elems so"
        using expand_set_ok [OF d(2) l60 env] d(3) by auto
      show ?thesis
        using add [OF d'(2,3)] None d(1) d'(1) OBJ_ENCODING_INTSET
        by (auto simp: add_loaded_def isSdsRepresentableAsLongLong_def)
    qed
  qed
qed

lemma load_members_reads:
  assumes env: "load_env env senv" and len: "len < 2 ^ 32"
    and img: "\<And>k. k \<in> set ks \<Longrightarrow> reads (rdbGenericLoadStringObject env RDB_LOAD_SDS) (img k) (\<lambda>l. l = LoadedSds k)"
    and "distinct ks" and "set ks \<inter> set_elems so = {}" and "set_rep senv so" and "card (set_elems so) = i"
    and "i + length ks = len" and "is_OBJ_ENCODING_INTSET so \<Longrightarrow> len \<le> env_max_intset senv"
    and "holds r (concat (map img ks) @ rest)"
  shows "\<exists>r' so'. load_members env senv len i so r = Some (IoOk r' so') \<and> holds r' rest \<and> set_rep senv so' \<and>
    set_elems so' = set_elems so \<union> set ks"
  using assms(3-)
proof (induction ks arbitrary: so i r)
  case Nil
  then show ?case by (subst load_members.simps) simp
next
  case (Cons k ks)
  have hr: "holds r (img k @ concat (map img ks) @ rest)" using Cons.prems(8) by simp
  have "reads (rdbGenericLoadStringObject env RDB_LOAD_SDS) (img k) (\<lambda>l. l = LoadedSds k)" using Cons.prems(1) by simp
  then obtain r1 where r1: "rdbGenericLoadStringObject env RDB_LOAD_SDS r = IoOk r1 (LoadedSds k)"
      "holds r1 (concat (map img ks) @ rest)"
    using hr unfolding reads_def by blast
  have i: "i < len" "Suc i \<le> len" using Cons.prems(6) by auto
  obtain so1 where so1: "add_loaded env senv so len k = Some (Some so1)" "set_rep senv so1"
      "set_elems so1 = insert k (set_elems so)" "is_OBJ_ENCODING_INTSET so1 \<longrightarrow> is_OBJ_ENCODING_INTSET so"
    using add_loaded_ok [OF Cons.prems(4) _ env _ len Cons.prems(7), of k] Cons.prems(3,5) i by auto
  have "(i + 1) mod 4294967296 = i + 1" using i(2) len by simp
  then have run: "load_members env senv len i so r = load_members env senv len (i + 1) so1 r1"
    using i r1(1) so1(1) by (subst load_members.simps) simp
  have "card (set_elems so1) = i + 1"
    using so1(3) Cons.prems(3,5) finite_set_elems [of so] by (simp add: card_insert_if)
  then obtain r' so' where "load_members env senv len (i + 1) so1 r1 = Some (IoOk r' so')" "holds r' rest"
      "set_rep senv so'" "set_elems so' = set_elems so1 \<union> set ks"
    using Cons.IH [OF Cons.prems(1) _ _ so1(2) _ _ _ r1(2), of "i + 1"] Cons.prems so1(3,4) by auto
  then show ?case using run so1(3) by auto
qed

section \<open>Objects are loaded as they were saved\<close>

text \<open>
  What can be saved: a string object shorter than 4 GB, or a non-empty set, in the invariant of its
  encoding, of fewer than \<open>2 ^ 32\<close> such strings (an integer set has fewer than \<open>2 ^ 29 - 1\<close> elements).
\<close>

definition set_savable :: "set_env \<Rightarrow> setobj \<Rightarrow> bool" where
  "set_savable senv s \<longleftrightarrow> set_rep senv s \<and> set_elems s \<noteq> {} \<and> card (set_elems s) < 2 ^ 32 \<and>
     (is_OBJ_ENCODING_INTSET s \<longrightarrow> card (set_elems s) < 536870911) \<and> (\<forall>k \<in> set_elems s. length k < 2 ^ 32)"

lemma load_start_ok:
  assumes env: "load_env env senv" and "n \<le> 2 ^ 60"
  shows "\<exists>so. (if n > env_max_intset senv then
             (if n > DICT_HT_INITIAL_SIZE then expand_set env (createSetObject senv) n
              else Some (createSetObject senv, True))
           else Some (createIntsetObject, True)) = Some (so, True) \<and>
      set_rep senv so \<and> set_elems so = {} \<and> (is_OBJ_ENCODING_INTSET so \<longrightarrow> n \<le> env_max_intset senv)"
proof -
  let ?d = "dictCreate (setDictType (env_hash senv)) :: (byte list, unit) dict"
  consider "n \<le> env_max_intset senv" | "env_max_intset senv < n" "n \<le> DICT_HT_INITIAL_SIZE"
    | "env_max_intset senv < n" "DICT_HT_INITIAL_SIZE < n" by linarith
  then show ?thesis
  proof cases
    case 1
    then show ?thesis
      by (simp add: createIntsetObject_def set_rep_def set_elems_def intsetNew_def intset_wf_def enc_ok_def
          intset_elems_def INTSET_ENC_INT16_def)
  next
    case 2
    then show ?thesis using dset_create [of "env_hash senv"] by (simp add: createSetObject_def set_rep_def set_elems_def)
  next
    case 3
    obtain d' where "expand_set env (OBJ_ENCODING_HT ?d) n = Some (OBJ_ENCODING_HT d', True)"
        "dset_inv (env_hash senv) d'" "dict_keys d' = {}"
      using expand_set_ok [OF dset_create(1) assms(2) env] dset_create(2) by metis
    then show ?thesis using 3 by (simp add: createSetObject_def set_rep_def set_elems_def)
  qed
qed

lemma loaded_is_sds: "loaded_is RDB_LOAD_SDS bs = (\<lambda>l. l = LoadedSds bs)"
  by (simp add: fun_eq_iff)

lemma set_ht_codec:
  assumes "set_savable senv (OBJ_ENCODING_HT d)" and env: "load_env env' senv'"
  shows "\<exists>bs. writes (rdbSaveSetObject env (env_addr senv) (OBJ_ENCODING_HT d)) bs \<and>
    reads (rdbLoadSet env' senv') bs (\<lambda>t. set_rep senv' t \<and> set_elems t = dict_keys d)"
proof -
  let ?s = "OBJ_ENCODING_HT d"
  have rep: "set_rep senv ?s" and big: "card (dict_keys d) < 2 ^ 32" and small: "\<And>k. k \<in> dict_keys d \<Longrightarrow> length k < 2 ^ 32"
    using assms(1) by (auto simp: set_savable_def set_elems_def)
  define ks where "ks = map elem_sds (set_list ?s)"
  have ks: "distinct ks" "set ks = dict_keys d" using set_list_texts [OF rep] by (auto simp: ks_def set_elems_def)
  have "\<exists>bs. writes (rdbSaveRawString env (k @ [0]) (length k)) bs \<and>
      reads (rdbGenericLoadStringObject env' RDB_LOAD_SDS) bs (\<lambda>l. l = LoadedSds k)" if "k \<in> dict_keys d" for k
    using raw_string_codec [of env' "k @ [0]" "length k" env RDB_LOAD_SDS] small [OF that] env
    by (simp add: savable_def load_env_def loaded_is_sds)
  then obtain img where img: "\<And>k. k \<in> dict_keys d \<Longrightarrow> writes (rdbSaveRawString env (k @ [0]) (length k)) (img k)"
      "\<And>k. k \<in> dict_keys d \<Longrightarrow> reads (rdbGenericLoadStringObject env' RDB_LOAD_SDS) (img k) (\<lambda>l. l = LoadedSds k)"
    by metis
  define n where "n = dictSize d"
  have n: "n = length ks" "n < 2 ^ 32"
    using card_set_elems [OF rep] distinct_card [OF ks(1)] ks(2) big by (simp_all add: n_def setTypeSize_def set_elems_def)
  have "n \<le> 2 ^ 60" using n(2) by (rule order.strict_implies_order [OF order.strict_trans]) simp
  then obtain so where so: "(if n > env_max_intset senv' then
             (if n > DICT_HT_INITIAL_SIZE then expand_set env' (createSetObject senv') n
              else Some (createSetObject senv', True))
           else Some (createIntsetObject, True)) = Some (so, True)"
      "set_rep senv' so" "set_elems so = {}" "is_OBJ_ENCODING_INTSET so \<longrightarrow> n \<le> env_max_intset senv'"
    using load_start_ok [OF env] by blast
  have "reads (\<lambda>rdb. case load_members env' senv' n 0 so rdb of None \<Rightarrow> IoCrash | Some r \<Rightarrow> r) (concat (map img ks))
      (\<lambda>t. set_rep senv' t \<and> set_elems t = dict_keys d)"
    unfolding reads_def
  proof (intro allI impI)
    fix r rest assume "holds r (concat (map img ks) @ rest)"
    then obtain r' so' where "load_members env' senv' n 0 so r = Some (IoOk r' so')" "holds r' rest" "set_rep senv' so'"
        "set_elems so' = set_elems so \<union> set ks"
      using load_members_reads [OF env n(2), of ks img so 0 r rest] img(2) ks so n(1) by auto
    then show "\<exists>r' t. (case load_members env' senv' n 0 so r of None \<Rightarrow> IoCrash | Some r \<Rightarrow> r) = IoOk r' t \<and>
        holds r' rest \<and> set_rep senv' t \<and> set_elems t = dict_keys d" using ks so(3) by simp
  qed
  moreover have "int n < RDB_LENERR" using n(2) by simp
  ultimately have "reads (rdbLoadSet env' senv') (len_image n @ concat (map img ks))
      (\<lambda>t. set_rep senv' t \<and> set_elems t = dict_keys d)"
    unfolding rdbLoadSet_def by (intro reads_then [OF rdbLoadLen_reads]) (simp_all add: so(1))
  moreover have "writes (rdbSaveSetObject env (env_addr senv) ?s) (len_image n @ concat (map img ks))"
    unfolding n_def by (rule save_set_ht_writes [OF rep img(1) ks_def])
  ultimately show ?thesis by blast
qed

lemma intset_of_blob_blob:
  assumes "intset_wf is" and "is_length is < 536870911"
  shows "intset_of_blob (intset_blob is) = is" and "length (intset_blob is) = intsetBlobLen is"
    and "not_numeric (intset_blob is)"
proof -
  have e: "is_encoding is = 2 \<or> is_encoding is = 4 \<or> is_encoding is = 8" and
    l: "length (is_contents is) = is_length is * is_encoding is"
    using assms(1) by (auto simp: intset_wf_def enc_ok_def)
  show "intset_of_blob (intset_blob is) = is"
    using e assms(2) by (auto simp: intset_of_blob_def intset_blob_def le_uint_le_bytes)
  have "is_length is * is_encoding is < 4294967296" using e assms(2) by auto
  then show "length (intset_blob is) = intsetBlobLen is"
    using l by (simp add: intset_blob_def intsetBlobLen_def uint32_def)
  show "not_numeric (intset_blob is)"
  proof -
    have "hd (intset_blob is) = word_of_int (int (is_encoding is))" "intset_blob is \<noteq> []"
      by (simp_all add: intset_blob_def numeral_eq_Suc)
    then have "hd (intset_blob is) = 2 \<or> hd (intset_blob is) = 4 \<or> hd (intset_blob is) = 8" using e by auto
    then show ?thesis using \<open>intset_blob is \<noteq> []\<close> by (auto simp: not_numeric_def isspace_def is_digit_def)
  qed
qed

lemma intset_blob_valid:
  assumes "intset_wf is" and "is_length is < 536870911" and "is_length is \<noteq> 0"
  shows "intsetValidateIntegrity (intset_blob is) deep = Some True"
proof (cases deep)
  case True
  have "8 \<le> length (intset_blob is)" by (simp add: intset_blob_def)
  then show ?thesis using True intset_validate_deep [of "intset_blob is"] intset_of_blob_blob [OF assms(1,2)] assms by simp
next
  case False
  have "length (is_contents is) = is_length is * is_encoding is" "enc_ok (is_encoding is)"
    using assms(1) by (simp_all add: intset_wf_def)
  then show ?thesis
    using False intset_of_blob_blob(1) [OF assms(1,2)] assms(3)
    by (auto simp: intsetValidateIntegrity_def Let_def intset_encs enc_ok_def) (auto simp: intset_blob_def)
qed

lemma set_intset_codec:
  assumes "set_savable senv (OBJ_ENCODING_INTSET is)" and env: "load_env env' senv'"
  shows "\<exists>bs. writes (rdbSaveSetObject env addr (OBJ_ENCODING_INTSET is)) bs \<and>
    reads (rdbLoadIntset env' senv' deep) bs (\<lambda>t. set_rep senv' t \<and> set_elems t = set_elems (OBJ_ENCODING_INTSET is))"
proof -
  let ?s = "OBJ_ENCODING_INTSET is"
  have rep: "set_rep senv ?s" and wf: "intset_wf is" using assms(1) by (auto simp: set_savable_def set_rep_def)
  have len: "is_length is < 536870911" "is_length is \<noteq> 0"
    using assms(1) card_set_elems [OF rep] card_gt_0_iff [of "set_elems ?s"] finite_set_elems [of ?s]
    by (auto simp: set_savable_def setTypeSize_def intsetLen_def)
  note blob = intset_of_blob_blob [OF wf len(1)] intset_blob_valid [OF wf len]
  have "is_encoding is \<le> 8" using wf by (auto simp: intset_wf_def enc_ok_def)
  then have "is_length is * is_encoding is \<le> 536870910 * 8" using len(1) by (intro mult_le_mono) simp_all
  then have "intsetBlobLen is < 2 ^ 32" by (simp add: intsetBlobLen_def uint32_def)
  then have "savable env' (intset_blob is) (intsetBlobLen is)"
    using blob(2,3) env by (simp add: savable_def load_env_def)
  then obtain bs where bs: "writes (rdbSaveRawString env (intset_blob is) (intsetBlobLen is)) bs"
      "reads (rdbGenericLoadStringObject env' RDB_LOAD_PLAIN) bs (loaded_is RDB_LOAD_PLAIN (intset_blob is))"
    using raw_string_codec [of env' "intset_blob is" "intsetBlobLen is" env RDB_LOAD_PLAIN] blob(2) by auto
  have conv: "\<exists>d. setTypeConvert senv' ?s = Some (OBJ_ENCODING_HT d) \<and> dset_inv (env_hash senv') d \<and> dict_keys d = set_elems ?s"
    using len(1) wf by (intro setTypeConvert_ok) (simp_all add: set_rep_def)
  have "reads (rdbLoadIntset env' senv' deep) bs (\<lambda>t. set_rep senv' t \<and> set_elems t = set_elems ?s)"
    unfolding rdbLoadIntset_def
  proof (rule reads_end [OF bs(2)])
    fix l assume l: "loaded_is RDB_LOAD_PLAIN (intset_blob is) l"
    show "reads (\<lambda>rdb. case l of
       LoadedPlain blob \<Rightarrow>
         (case intsetValidateIntegrity blob deep of
            None \<Rightarrow> IoCrash
          | Some False \<Rightarrow> IoErr rdb
          | Some True \<Rightarrow>
              (let is = intset_of_blob blob in
               if intsetLen is > env_max_intset senv'
               then (case setTypeConvert senv' (OBJ_ENCODING_INTSET is) of None \<Rightarrow> IoCrash | Some o' \<Rightarrow> IoOk rdb o')
               else IoOk rdb (OBJ_ENCODING_INTSET is)))
     | _ \<Rightarrow> IoCrash) [] (\<lambda>t. set_rep senv' t \<and> set_elems t = set_elems ?s)"
    proof (cases "intsetLen is > env_max_intset senv'")
      case True
      obtain d where d: "setTypeConvert senv' ?s = Some (OBJ_ENCODING_HT d)" "dset_inv (env_hash senv') d" "dict_keys d = set_elems ?s"
        using conv by blast
      show ?thesis using l True blob d by (simp add: Let_def reads_return set_rep_def set_elems_def)
    next
      case False
      then show ?thesis using l blob wf by (simp add: Let_def reads_return set_rep_def)
    qed
  qed
  moreover have "rdbSaveSetObject env addr ?s = rdbSaveRawString env (intset_blob is) (intsetBlobLen is)"
    by (simp add: fun_eq_iff rdbSaveSetObject_def)
  ultimately show ?thesis using bs(1) by auto
qed

text \<open>A value and what is loaded for it: the same text, or a set with the same elements.\<close>

fun same_value :: "set_env \<Rightarrow> rdb_value \<Rightarrow> rdb_value \<Rightarrow> bool" where
  "same_value senv (VString a) v \<longleftrightarrow> (\<exists>b. v = VString b \<and> str_text b = str_text a \<and> str_ok b)"
| "same_value senv (VSet s) v \<longleftrightarrow> (\<exists>t. v = VSet t \<and> set_elems t = set_elems s \<and> set_rep senv t)"

fun value_savable :: "set_env \<Rightarrow> rdb_value \<Rightarrow> bool" where
  "value_savable senv (VString a) \<longleftrightarrow> str_ok a \<and> length (str_text a) < 2 ^ 32"
| "value_savable senv (VSet s) \<longleftrightarrow> set_savable senv s"

definition rdb_type :: "rdb_value \<Rightarrow> byte" where
  "rdb_type v = (case v of VString _ \<Rightarrow> 0 | VSet (OBJ_ENCODING_INTSET _) \<Rightarrow> 11 | VSet (OBJ_ENCODING_HT _) \<Rightarrow> 2)"

lemma save_type_writes: "writes (rdbSaveObjectType v) [rdb_type v]"
  by (simp add: rdbSaveObjectType_def rdb_type_def rdbSaveType_def split: rdb_value.splits setobj.splits)

lemma load_type_reads: "reads rdbLoadObjectType [rdb_type v] (\<lambda>t. t = rdb_type v)"
proof -
  have "reads rdbLoadType [rdb_type v] (\<lambda>t. t = rdb_type v)"
    unfolding rdbLoadType_def by (intro reads_bytes_end) simp_all
  then show ?thesis
    unfolding rdbLoadObjectType_def
    by (rule reads_end)
       (auto simp: rdbIsObjectType_def rdb_type_def reads_return split: rdb_value.splits setobj.splits)
qed

lemma object_codec:
  assumes v: "value_savable senv v" and env: "load_env env' senv'"
  shows "\<exists>bs. writes (rdbSaveObject env (env_addr senv) v) bs \<and>
    reads (rdbLoadObject env' senv' deep (rdb_type v)) bs (same_value senv' v)"
proof (cases v)
  case (VString a)
  then have "str_savable env' a" using v env by (simp add: str_savable_def load_env_def)
  then obtain bs where bs: "writes (rdbSaveStringObject env a) bs"
      "reads (rdbGenericLoadStringObject env' RDB_LOAD_ENC) bs (loaded_is RDB_LOAD_ENC (str_text a))"
    using string_object_codec by blast
  have "reads (\<lambda>rdb. io_then (rdbLoadEncodedStringObject env' rdb)
      (\<lambda>rdb o'. IoOk rdb (VString (tryObjectEncoding (rdb_shared_ok env') 1 o')))) bs (same_value senv' v)"
    by (rule reads_end [OF encoded_object_reads [OF bs(2)]])
       (auto simp: VString reads_return tryObjectEncoding_text)
  moreover have "rdbLoadObject env' senv' deep (rdb_type v) = (\<lambda>rdb. io_then (rdbLoadEncodedStringObject env' rdb)
      (\<lambda>rdb o'. IoOk rdb (VString (tryObjectEncoding (rdb_shared_ok env') 1 o'))))"
    by (simp add: VString fun_eq_iff rdbLoadObject_def rdb_type_def)
  ultimately have "reads (rdbLoadObject env' senv' deep (rdb_type v)) bs (same_value senv' v)" by (simp only:)
  then show ?thesis using bs(1) VString by (auto simp: rdbSaveObject_def)
next
  case (VSet s)
  have wrap: "\<exists>bs. writes (rdbSaveObject env (env_addr senv) v) bs \<and>
      reads (\<lambda>rdb. io_then (load rdb) (\<lambda>rdb s. IoOk rdb (VSet s))) bs (same_value senv' v)"
    if "\<exists>bs. writes (rdbSaveSetObject env (env_addr senv) s) bs \<and>
      reads load bs (\<lambda>t. set_rep senv' t \<and> set_elems t = set_elems s)" for load
    using that reads_end [of load _ "\<lambda>t. set_rep senv' t \<and> set_elems t = set_elems s"
        "\<lambda>rdb s. IoOk rdb (VSet s)" "same_value senv' v"] VSet
    by (fastforce simp: rdbSaveObject_def reads_return)
  show ?thesis
  proof (cases s)
    case (OBJ_ENCODING_HT d)
    then show ?thesis
      using wrap [of "rdbLoadSet env' senv'"] set_ht_codec [of senv d env' senv' env] v env VSet
      by (simp add: rdbLoadObject_def [abs_def] rdb_type_def set_elems_def)
  next
    case (OBJ_ENCODING_INTSET "is")
    then show ?thesis
      using wrap [of "rdbLoadIntset env' senv' deep"] set_intset_codec [of senv "is" env' senv' env "env_addr senv" deep] v env VSet
      by (simp add: rdbLoadObject_def [abs_def] rdb_type_def)
  qed
qed

definition save_typed :: "rdb_env \<Rightarrow> u64 \<times> u64 \<Rightarrow> rdb_value \<Rightarrow> save" where
  "save_typed env addr v = save_then (rdbSaveObjectType v) (rdbSaveObject env addr v)"

definition load_typed :: "rdb_env \<Rightarrow> set_env \<Rightarrow> bool \<Rightarrow> rdb_value load" where
  "load_typed env senv deep rdb = io_then (rdbLoadObjectType rdb) (\<lambda>rdb t. rdbLoadObject env senv deep t rdb)"

interpretation robj: codec "save_typed env (env_addr senv)" "load_typed env' senv' deep"
  "\<lambda>v. value_savable senv v \<and> load_env env' senv'" "same_value senv'" for env senv env' senv' deep
proof
  fix v assume "value_savable senv v \<and> load_env env' senv'"
  then obtain bs where bs: "writes (rdbSaveObject env (env_addr senv) v) bs"
      "reads (rdbLoadObject env' senv' deep (rdb_type v)) bs (same_value senv' v)"
    using object_codec by blast
  have "reads (load_typed env' senv' deep) ([rdb_type v] @ bs) (same_value senv' v)"
    unfolding load_typed_def using bs(2) by (intro reads_then [OF load_type_reads]) simp
  moreover have "writes (save_typed env (env_addr senv) v) ([rdb_type v] @ bs)"
    unfolding save_typed_def by (rule writes_then [OF save_type_writes bs(1)])
  ultimately show "\<exists>bs. writes (save_typed env (env_addr senv) v) bs \<and> reads (load_typed env' senv' deep) bs (same_value senv' v)"
    by blast
qed

end
