(* ===== verification/Crc64.thy ===== *)
theory Crc64
  imports Redis_Prelude
begin

text \<open>
  The checksum of RDB data: \<open>crc64.c\<close> with the slicing-by-8 routine of \<open>crcspeed.c\<close> on a
  little-endian host, and the bit by bit reference \<open>_crc64\<close> from which its tables are made.

  The two are shown to agree on every input at every alignment.  The proof goes through the
  reflected shift register: one step of it is linear over exclusive or, a table holds its powers on
  single bytes, and eight lookups are the eighth power on a whole word.
\<close>

section \<open>Model: the reference\<close>

definition POLY :: u64 where "POLY = 0xad93d23594c935a9"

fun reflect_loop :: "nat \<Rightarrow> u64 \<Rightarrow> u64 \<Rightarrow> u64" where
  "reflect_loop 0 data ret = ret"
| "reflect_loop (Suc n) data ret =
     (let data = drop_bit 1 data in reflect_loop n data (push_bit 1 ret OR (data AND 1)))"

definition crc_reflect :: "u64 \<Rightarrow> nat \<Rightarrow> u64" where
  "crc_reflect data data_len = reflect_loop (data_len - 1) data (data AND 1)"

text \<open>One bit of a byte, then its eight bits from the lowest, then the bytes.\<close>

definition crc_bit :: "byte \<Rightarrow> nat \<Rightarrow> u64 \<Rightarrow> u64" where
  "crc_bit c i crc =
     (let b = (crc AND 0x8000000000000000 \<noteq> 0);
          b = (if c AND push_bit i 1 \<noteq> 0 then \<not> b else b);
          crc = push_bit 1 crc
      in if b then crc XOR POLY else crc)"

definition crc_byte :: "u64 \<Rightarrow> byte \<Rightarrow> u64" where
  "crc_byte crc c = fold (crc_bit c) [0..<8] crc"

definition crc64_ref :: "u64 \<Rightarrow> byte list \<Rightarrow> u64" where
  "crc64_ref crc data = crc_reflect (foldl crc_byte crc data) 64"

section \<open>Model: the tables\<close>

definition table0 :: "nat \<Rightarrow> u64" where
  "table0 n = crc64_ref 0 [word_of_nat n]"

text \<open>\<open>little_table[k][n]\<close> as \<open>crcspeed64little_init\<close> fills it.\<close>

fun little_table :: "nat \<Rightarrow> nat \<Rightarrow> u64" where
  "little_table 0 n = table0 n"
| "little_table (Suc k) n = (let crc = little_table k n in table0 (unat (crc AND 0xff)) XOR drop_bit 8 crc)"

section \<open>Model: eight bytes at a time\<close>

definition one_byte :: "u64 \<Rightarrow> byte \<Rightarrow> u64" where
  "one_byte crc b = little_table 0 (unat ((crc XOR ucast b) AND 0xff)) XOR drop_bit 8 crc"

definition load64 :: "byte list \<Rightarrow> u64" where
  "load64 bs = word_of_int (le_uint bs)"

definition eight_bytes :: "u64 \<Rightarrow> byte list \<Rightarrow> u64" where
  "eight_bytes crc bs =
     (let crc = crc XOR load64 bs in
      little_table 7 (unat (crc AND 0xff)) XOR
      little_table 6 (unat (drop_bit 8 crc AND 0xff)) XOR
      little_table 5 (unat (drop_bit 16 crc AND 0xff)) XOR
      little_table 4 (unat (drop_bit 24 crc AND 0xff)) XOR
      little_table 3 (unat (drop_bit 32 crc AND 0xff)) XOR
      little_table 2 (unat (drop_bit 40 crc AND 0xff)) XOR
      little_table 1 (unat (drop_bit 48 crc AND 0xff)) XOR
      little_table 0 (unat (drop_bit 56 crc)))"

function crc_words :: "u64 \<Rightarrow> byte list \<Rightarrow> u64 \<times> byte list" where
  "crc_words crc buf =
     (if length buf \<ge> 8 then crc_words (eight_bytes crc (take 8 buf)) (drop 8 buf) else (crc, buf))"
  by pat_completeness auto
termination
  by (relation "measure (length \<circ> snd)") auto

declare crc_words.simps [simp del]

text \<open>\<open>align\<close> is the address of the buffer modulo 8: bytes up to the next aligned address are taken singly.\<close>

definition crcspeed64little :: "nat \<Rightarrow> u64 \<Rightarrow> byte list \<Rightarrow> u64" where
  "crcspeed64little align crc buf =
     (let n = (if align mod 8 = 0 then 0 else 8 - align mod 8);
          crc = foldl one_byte crc (take n buf);
          (crc, rest) = crc_words crc (drop n buf)
      in foldl one_byte crc rest)"

definition crc64 :: "nat \<Rightarrow> u64 \<Rightarrow> byte list \<Rightarrow> u64" where
  "crc64 align crc s = crcspeed64little align crc s"

section \<open>The reflected register\<close>

text \<open>
  Reversal of the 64 bits.\<close>

lemma reflect_loop_bit:
  assumes "n < 64" and "j < 64"
  shows "bit (reflect_loop n data ret) j \<longleftrightarrow> (if j < n then bit data (n - j) else bit ret (j - n))"
  using assms(1)
proof (induction n arbitrary: data ret)
  case (Suc n)
  have "bit (reflect_loop (Suc n) data ret) j
      \<longleftrightarrow> (if j < n then bit (drop_bit 1 data) (n - j) else bit (push_bit 1 ret OR (drop_bit 1 data AND 1)) (j - n))"
    using Suc by (simp add: Let_def)
  also have "\<dots> \<longleftrightarrow> (if j < Suc n then bit data (Suc n - j) else bit ret (j - Suc n))"
  proof (cases "j \<le> n")
    case True
    then show ?thesis
      by (cases "j = n") (auto simp: bit_drop_bit_eq bit_or_iff bit_push_bit_iff bit_and_iff bit_1_iff Suc_diff_le simp del: push_bit_Suc)
  next
    case False
    then have "bit (push_bit 1 ret OR (drop_bit 1 data AND 1)) (j - n) = bit ret (j - n - 1)"
      using assms(2) by (auto simp: bit_or_iff bit_push_bit_iff bit_and_iff bit_1_iff simp del: push_bit_Suc)
    then show ?thesis using False by simp
  qed
  finally show ?case .
qed simp

lemma bit_reflect: "j < 64 \<Longrightarrow> bit (crc_reflect x 64) j \<longleftrightarrow> bit x (63 - j)"
  using reflect_loop_bit [of 63 j x "x AND 1"] by (auto simp: crc_reflect_def bit_and_iff bit_1_iff)

text \<open>One step of the reflected register, on the reflected polynomial.\<close>

definition crc_step :: "u64 \<Rightarrow> u64" where
  "crc_step x = drop_bit 1 x XOR (if bit x 0 then crc_reflect POLY 64 else 0)"

lemma crc_step_xor: "crc_step (x XOR y) = crc_step x XOR crc_step y"
  by (rule bit_eqI) (auto simp: crc_step_def bit_simps)

lemma crc_steps_xor: "(crc_step ^^ n) (x XOR y) = (crc_step ^^ n) x XOR (crc_step ^^ n) y"
  by (induction n) (simp_all add: crc_step_xor)

lemma crc_steps_add: "(crc_step ^^ m) ((crc_step ^^ n) x) = (crc_step ^^ (m + n)) x"
  by (simp add: funpow_add)

text \<open>
  Zeros shifted in at the low end are shifted out again.\<close>

lemma crc_step_shift:
  assumes "\<not> bit y 63"
  shows "crc_step (push_bit 1 y) = y"
proof (rule bit_word_eqI)
  fix n assume "n < LENGTH(64)"
  then show "bit (crc_step (push_bit 1 y)) n = bit y n"
    using assms by (cases "n = 63") (auto simp: crc_step_def bit_push_bit_iff bit_drop_bit_eq bit_xor_iff simp del: push_bit_Suc)
qed

lemma crc_steps_shift: "(\<And>j. 64 \<le> j + n \<Longrightarrow> \<not> bit y j) \<Longrightarrow> (crc_step ^^ n) (push_bit n y) = y"
proof (induction n)
  case (Suc n)
  have "\<not> bit (push_bit n y) 63" using Suc.prems [of "63 - n"] by (auto simp: bit_push_bit_iff)
  moreover have "push_bit (Suc n) y = push_bit 1 (push_bit n y)" by (simp add: push_bit_push_bit del: push_bit_Suc)
  ultimately have "crc_step (push_bit (Suc n) y) = push_bit n y" using crc_step_shift [of "push_bit n y"] by metis
  then have "(crc_step ^^ Suc n) (push_bit (Suc n) y) = (crc_step ^^ n) (push_bit n y)"
    by (simp add: funpow_swap1 del: push_bit_Suc)
  then show ?case using Suc by simp
qed simp

text \<open>
  The reference run on the reflected register.\<close>

lemma reflect_xor: "crc_reflect (x XOR y) 64 = crc_reflect x 64 XOR crc_reflect y 64"
  by (rule bit_eqI) (simp add: bit_reflect bit_xor_iff)

lemma reflect_0: "crc_reflect 0 64 = 0"
  by (rule bit_eqI) (simp add: bit_reflect)

lemma reflect_reflect: "crc_reflect (crc_reflect x 64) 64 = x"
  by (rule bit_eqI) (simp add: bit_reflect)

lemma reflect_shift: "crc_reflect (push_bit 1 x) 64 = drop_bit 1 (crc_reflect x 64)"
proof (rule bit_word_eqI)
  fix j assume "j < LENGTH(64)"
  then show "bit (crc_reflect (push_bit 1 x) 64) j = bit (drop_bit 1 (crc_reflect x 64)) j"
  proof (cases "j = 63")
    case True
    then show ?thesis using bit_imp_le_length [of "crc_reflect x 64" 64]
      by (auto simp: bit_reflect bit_push_bit_iff bit_drop_bit_eq simp del: push_bit_Suc)
  qed (auto simp: bit_reflect bit_push_bit_iff bit_drop_bit_eq simp del: push_bit_Suc)
qed

lemma crc_bit_eq:
  assumes "i < 8"
  shows "crc_bit c i crc = push_bit 1 crc XOR (if bit crc 63 \<noteq> bit c i then POLY else 0)"
proof -
  have "(0x8000000000000000 :: u64) = 2 ^ 63" by simp
  then have "crc AND 0x8000000000000000 \<noteq> 0 \<longleftrightarrow> bit crc 63" using and_exp_eq_0_iff_not_bit [of crc 63] by metis
  moreover have "c AND push_bit i 1 \<noteq> 0 \<longleftrightarrow> bit c i"
    using and_exp_eq_0_iff_not_bit [of c i] by (simp add: push_bit_of_1)
  ultimately show ?thesis by (auto simp: crc_bit_def Let_def)
qed

lemma reflect_crc_bit:
  assumes "i < 8"
  shows "crc_reflect (crc_bit c i crc) 64 = crc_step (crc_reflect crc 64 XOR (if bit c i then 1 else 0))"
proof -
  have "drop_bit 1 (1 :: u64) = 0" by simp
  moreover have "bit (crc_reflect crc 64 XOR (if bit c i then 1 else 0)) 0 \<longleftrightarrow> bit crc 63 \<noteq> bit c i"
    by (simp add: bit_xor_iff bit_reflect bit_1_iff)
  ultimately show ?thesis
    by (cases "bit c i"; cases "bit crc 63")
       (simp_all add: crc_step_def crc_bit_eq [OF assms] reflect_xor reflect_shift reflect_0 drop_bit_xor
          del: push_bit_Suc drop_bit_Suc One_nat_def)
qed

lemma crc_byte_run:
  assumes "i \<le> 8"
  shows "crc_reflect (fold (crc_bit c) [0..<i] crc) 64 XOR drop_bit i (ucast c)
    = (crc_step ^^ i) (crc_reflect crc 64 XOR ucast c)"
  using assms
proof (induction i)
  case (Suc i)
  let ?x = "crc_reflect (fold (crc_bit c) [0..<i] crc) 64" and ?c = "ucast c :: u64"
  let ?y = "drop_bit (Suc i) ?c"
  have split: "drop_bit i ?c = (if bit c i then 1 else 0) XOR push_bit 1 ?y"
  proof (rule bit_word_eqI)
    fix n assume "n < LENGTH(64)"
    then show "bit (drop_bit i ?c) n = bit ((if bit c i then 1 else 0) XOR push_bit 1 ?y) n"
      using Suc.prems by (cases n) (auto simp: bit_drop_bit_eq bit_xor_iff bit_push_bit_iff bit_1_iff bit_ucast_iff simp del: push_bit_Suc)
  qed
  have "\<not> bit ?y 63" by (simp add: bit_drop_bit_eq bit_ucast_iff)
  then have y: "crc_step (push_bit 1 ?y) = ?y" by (rule crc_step_shift)
  have "(crc_step ^^ Suc i) (crc_reflect crc 64 XOR ?c) = crc_step (?x XOR drop_bit i ?c)"
    using Suc by simp
  also have "\<dots> = crc_step (?x XOR (if bit c i then 1 else 0)) XOR ?y"
    by (simp only: split crc_step_xor [of "?x XOR (if bit c i then 1 else 0)"] y xor.assoc [symmetric])
  also have "\<dots> = crc_reflect (fold (crc_bit c) [0..<Suc i] crc) 64 XOR ?y"
    using Suc.prems by (simp add: reflect_crc_bit)
  finally show ?case by simp
qed simp

text \<open>A byte on the register, and a string of them.\<close>

definition crc_reg :: "u64 \<Rightarrow> byte \<Rightarrow> u64" where
  "crc_reg r c = (crc_step ^^ 8) (r XOR ucast c)"

lemma reflect_crc_byte: "crc_reflect (crc_byte crc c) 64 = crc_reg (crc_reflect crc 64) c"
proof -
  have "drop_bit 8 (ucast c :: u64) = 0" by (rule bit_eqI) (auto simp: bit_drop_bit_eq bit_ucast_iff dest: bit_imp_le_length)
  then show ?thesis using crc_byte_run [of 8 c crc] by (simp add: crc_byte_def crc_reg_def)
qed

lemma crc64_ref_reg: "crc64_ref (crc_reflect crc 64) s = foldl crc_reg crc s"
proof -
  have "crc_reflect (foldl crc_byte c s) 64 = foldl crc_reg (crc_reflect c 64) s" for c
    by (induction s arbitrary: c) (simp_all add: reflect_crc_byte)
  then show ?thesis by (simp add: crc64_ref_def reflect_reflect)
qed

section \<open>The tables and the eight lookups\<close>

lemma low_byte: "word_of_nat (unat (x AND 0xff :: u64)) = (ucast (ucast x :: byte) :: u64)"
proof -
  have "(0xff :: u64) = mask 8" by (simp add: mask_eq_exp_minus_1)
  then have "x AND 0xff = (ucast (ucast x :: byte) :: u64)" unfolding \<open>0xff = mask 8\<close>
    by (intro bit_word_eqI) (auto simp: bit_and_iff bit_mask_iff bit_ucast_iff)
  then show ?thesis by simp
qed

lemma table0_steps: "n < 256 \<Longrightarrow> table0 n = (crc_step ^^ 8) (word_of_nat n)"
proof -
  assume "n < 256"
  then have "ucast (word_of_nat n :: byte) = (word_of_nat n :: u64)"
    by (simp add: unsigned_of_nat take_bit_nat_eq_self)
  then show ?thesis using crc64_ref_reg [of 0 "[word_of_nat n]"] by (simp add: table0_def reflect_0 crc_reg_def)
qed

text \<open>
  Eight steps are one lookup.\<close>

lemma steps_lookup: "table0 (unat (x AND 0xff)) XOR drop_bit 8 x = (crc_step ^^ 8) x"
proof -
  have "unat (x AND 0xff) < 256"
    using word_and_le1 [of x "0xff"] by (auto simp: word_le_nat_alt intro: le_less_trans)
  moreover have "x = (ucast (ucast x :: byte) :: u64) XOR push_bit 8 (drop_bit 8 x)"
    by (rule bit_word_eqI) (auto simp: bit_xor_iff bit_ucast_iff bit_push_bit_iff bit_drop_bit_eq)
  moreover have "(crc_step ^^ 8) (push_bit 8 (drop_bit 8 x)) = drop_bit 8 x"
    by (rule crc_steps_shift) (auto simp: bit_drop_bit_eq dest: bit_imp_le_length)
  ultimately show ?thesis by (metis crc_steps_xor table0_steps low_byte)
qed

lemma little_table_steps: "n < 256 \<Longrightarrow> little_table k n = (crc_step ^^ (8 * (k + 1))) (word_of_nat n)"
  by (induction k) (simp_all add: table0_steps Let_def steps_lookup crc_steps_add add.commute)

lemma one_byte_reg: "one_byte crc b = crc_reg crc b"
proof -
  have "drop_bit 8 (crc XOR ucast b) = drop_bit 8 crc"
    by (rule bit_word_eqI) (auto simp: bit_drop_bit_eq bit_xor_iff bit_ucast_iff dest: bit_imp_le_length)
  then show ?thesis using steps_lookup [of "crc XOR ucast b"] by (simp add: one_byte_def crc_reg_def)
qed

lemma steps_slice:
  "(crc_step ^^ (8 * (k + 1))) y = little_table k (unat (y AND 0xff)) XOR (crc_step ^^ (8 * k)) (drop_bit 8 y)"
proof -
  have "unat (y AND 0xff) < 256"
    using word_and_le1 [of y "0xff"] by (auto simp: word_le_nat_alt intro: le_less_trans)
  moreover have "y = (ucast (ucast y :: byte) :: u64) XOR push_bit 8 (drop_bit 8 y)"
    by (rule bit_word_eqI) (auto simp: bit_xor_iff bit_ucast_iff bit_push_bit_iff bit_drop_bit_eq)
  moreover have "(crc_step ^^ 8) (push_bit 8 (drop_bit 8 y)) = drop_bit 8 y"
    by (rule crc_steps_shift) (auto simp: bit_drop_bit_eq dest: bit_imp_le_length)
  moreover have "8 * (k + 1) = 8 * k + 8" by simp
  ultimately show ?thesis by (metis crc_steps_xor crc_steps_add little_table_steps low_byte)
qed

lemma eight_bytes_steps: "eight_bytes crc bs = (crc_step ^^ 64) (crc XOR load64 bs)"
proof -
  define x where "x = crc XOR load64 bs"
  have d: "drop_bit 8 (drop_bit n x) = drop_bit (8 + n) x" for n by (simp add: drop_bit_drop_bit add.commute)
  have "drop_bit 56 x AND 0xff = drop_bit 56 x"
  proof -
    have "(0xff :: u64) = mask 8" by (simp add: mask_eq_exp_minus_1)
    then show ?thesis unfolding \<open>0xff = mask 8\<close>
      by (intro bit_word_eqI) (auto simp: bit_and_iff bit_mask_iff bit_drop_bit_eq dest: bit_imp_le_length)
  qed
  moreover have "drop_bit 8 (drop_bit 56 x) = 0" by (simp add: d drop_bit_eq_zero_iff_not_bit_last)
  ultimately have last: "(crc_step ^^ 8) (drop_bit 56 x) = little_table 0 (unat (drop_bit 56 x))"
    using steps_slice [of 0 "drop_bit 56 x"] by simp
  have slice: "(crc_step ^^ m) (drop_bit n x)
      = little_table k (unat (drop_bit n x AND 0xff)) XOR (crc_step ^^ (8 * k)) (drop_bit (8 + n) x)"
    if "m = 8 * (k + 1)" for m n k
    using steps_slice [of k "drop_bit n x"] that by (simp only: d)
  have "(crc_step ^^ 64) x = little_table 7 (unat (x AND 0xff)) XOR (crc_step ^^ 56) (drop_bit 8 x)"
    using slice [of 64 7 0] by simp
  also have "(crc_step ^^ 56) (drop_bit 8 x) = little_table 6 (unat (drop_bit 8 x AND 0xff)) XOR (crc_step ^^ 48) (drop_bit 16 x)"
    using slice [of 56 6 8] by simp
  also have "(crc_step ^^ 48) (drop_bit 16 x) = little_table 5 (unat (drop_bit 16 x AND 0xff)) XOR (crc_step ^^ 40) (drop_bit 24 x)"
    using slice [of 48 5 16] by simp
  also have "(crc_step ^^ 40) (drop_bit 24 x) = little_table 4 (unat (drop_bit 24 x AND 0xff)) XOR (crc_step ^^ 32) (drop_bit 32 x)"
    using slice [of 40 4 24] by simp
  also have "(crc_step ^^ 32) (drop_bit 32 x) = little_table 3 (unat (drop_bit 32 x AND 0xff)) XOR (crc_step ^^ 24) (drop_bit 40 x)"
    using slice [of 32 3 32] by simp
  also have "(crc_step ^^ 24) (drop_bit 40 x) = little_table 2 (unat (drop_bit 40 x AND 0xff)) XOR (crc_step ^^ 16) (drop_bit 48 x)"
    using slice [of 24 2 40] by simp
  also have "(crc_step ^^ 16) (drop_bit 48 x) = little_table 1 (unat (drop_bit 48 x AND 0xff)) XOR (crc_step ^^ 8) (drop_bit 56 x)"
    using slice [of 16 1 48] by (simp del: little_table.simps)
  finally show ?thesis
    unfolding eight_bytes_def Let_def x_def [symmetric] by (simp only: last xor.assoc)
qed

text \<open>
  The word read from memory, a byte at a time.\<close>

lemma load64_Cons: "load64 (b # bs) = ucast b XOR push_bit 8 (load64 bs)"
proof -
  have "load64 (b # bs) = ucast b + push_bit 8 (load64 bs)"
    by (simp only: load64_def le_uint.simps push_bit_eq_mult ucast_eq wi_hom_add [symmetric] wi_hom_mult [symmetric])
       (simp add: mult.commute)
  also have "\<dots> = ucast b XOR push_bit 8 (load64 bs)"
  proof -
    have "ucast b AND push_bit 8 (load64 bs) = 0"
      by (rule bit_word_eqI) (auto simp: bit_and_iff bit_ucast_iff bit_push_bit_iff dest: bit_imp_le_length)
    then show ?thesis by (simp add: disjunctive_add_eq_xor)
  qed
  finally show ?thesis .
qed

lemma load64_high:
  assumes "64 \<le> j + 8" and "length bs < 8"
  shows "\<not> bit (load64 bs) j"
proof -
  have "le_uint bs < 256 ^ length bs" by (rule le_uint_bound)
  also have "(256 :: int) ^ length bs \<le> 256 ^ 7" using assms(2) by (intro power_increasing) auto
  also have "(256 :: int) ^ 7 = 2 ^ 56" by simp
  finally have "take_bit 56 (le_uint bs) = le_uint bs" by (simp add: take_bit_int_eq_self)
  moreover have "\<not> bit (take_bit 56 (le_uint bs)) j" using assms(1) by (simp add: bit_take_bit_iff)
  ultimately have "\<not> bit (le_uint bs) j" by simp
  then show ?thesis by (simp add: load64_def bit_word_of_int_iff)
qed

lemma foldl_crc_reg:
  "length bs \<le> 8 \<Longrightarrow> foldl crc_reg crc bs = (crc_step ^^ (8 * length bs)) (crc XOR load64 bs)"
proof (induction bs arbitrary: crc)
  case Nil
  then show ?case by (simp add: load64_def)
next
  case (Cons b bs)
  have "(crc_step ^^ 8) (push_bit 8 (load64 bs)) = load64 bs"
    using Cons.prems by (intro crc_steps_shift load64_high) auto
  then have "crc_reg crc b XOR load64 bs = (crc_step ^^ 8) (crc XOR load64 (b # bs))"
    by (simp only: crc_reg_def load64_Cons crc_steps_xor xor.assoc)
  then show ?case using Cons by (simp add: crc_steps_add add.commute)
qed

lemma crc_words_reg:
  "crc_words crc buf = (crc', rest) \<Longrightarrow> foldl crc_reg crc' rest = foldl crc_reg crc buf"
proof (induction crc buf rule: crc_words.induct)
  case (1 crc buf)
  show ?case
  proof (cases "8 \<le> length buf")
    case True
    have "foldl crc_reg crc (take 8 buf) = eight_bytes crc (take 8 buf)"
      using foldl_crc_reg [of "take 8 buf" crc] True by (simp add: eight_bytes_steps min_def)
    moreover have "foldl crc_reg crc' rest = foldl crc_reg (eight_bytes crc (take 8 buf)) (drop 8 buf)"
      using 1 True by (simp add: crc_words.simps [of crc buf])
    ultimately show ?thesis by (metis append_take_drop_id foldl_append)
  qed (use 1 in \<open>simp add: crc_words.simps\<close>)
qed

lemma crc64_reg: "crc64 align crc s = foldl crc_reg crc s"
proof -
  let ?n = "if align mod 8 = 0 then 0 else 8 - align mod 8"
  have byte: "one_byte = crc_reg" by (simp add: fun_eq_iff one_byte_reg)
  obtain crc' rest where w: "crc_words (foldl crc_reg crc (take ?n s)) (drop ?n s) = (crc', rest)" by fastforce
  have "crc64 align crc s = foldl crc_reg crc' rest"
    using w by (simp only: crc64_def crcspeed64little_def Let_def byte case_prod_conv)
  also have "\<dots> = foldl crc_reg (foldl crc_reg crc (take ?n s)) (drop ?n s)" by (rule crc_words_reg [OF w])
  finally show ?thesis by (metis append_take_drop_id foldl_append)
qed

section \<open>What the checksum detects\<close>

text \<open>
  The steps lose nothing, so that strings of equal length within a word are told apart.\<close>

lemma xor_eq_0: "x XOR y = 0 \<longleftrightarrow> x = (y :: u64)"
  unfolding bit_eq_iff bit_xor_iff bit_0_eq bot_apply bot_bool_def by blast

lemma xor_cancel: "x XOR z = y XOR z \<longleftrightarrow> x = (y :: u64)" "z XOR x = z XOR y \<longleftrightarrow> x = (y :: u64)"
  unfolding bit_eq_iff bit_xor_iff by blast+

lemma crc_step_eq_0: "crc_step z = 0 \<longleftrightarrow> z = 0"
proof
  assume z: "crc_step z = 0"
  have "bit (crc_reflect POLY 64) 63" by (simp add: bit_reflect POLY_def)
  then have "bit (crc_step z) 63 \<longleftrightarrow> bit z 0"
    by (auto simp: crc_step_def bit_xor_iff bit_drop_bit_eq dest: bit_imp_le_length)
  then have "\<not> bit z 0" using z by simp
  then have "drop_bit 1 z = 0" using z by (simp add: crc_step_def)
  then have high: "\<not> bit z (Suc n)" for n using bit_drop_bit_eq [of 1 z] by (simp add: fun_eq_iff)
  show "z = 0"
  proof (rule bit_word_eqI)
    fix n show "bit z n = bit 0 n" using high \<open>\<not> bit z 0\<close> by (cases n) simp_all
  qed
qed (simp add: crc_step_def)

lemma crc_steps_eq_0: "(crc_step ^^ n) z = 0 \<longleftrightarrow> z = 0"
  by (induction n) (simp_all add: crc_step_eq_0)

lemma crc_steps_inj: "(crc_step ^^ n) x = (crc_step ^^ n) y \<longleftrightarrow> x = y"
proof -
  have "(crc_step ^^ n) x = (crc_step ^^ n) y \<longleftrightarrow> (crc_step ^^ n) (x XOR y) = 0"
    by (simp add: crc_steps_xor xor_eq_0)
  then show ?thesis by (simp add: crc_steps_eq_0 xor_eq_0)
qed

lemma crc_reg_inj: "foldl crc_reg r bs = foldl crc_reg r' bs \<longleftrightarrow> r = r'"
proof (induction bs arbitrary: r r')
  case (Cons b bs)
  have "crc_reg r b = crc_reg r' b \<longleftrightarrow> r XOR ucast b = r' XOR ucast b"
    unfolding crc_reg_def by (rule crc_steps_inj)
  then show ?case using Cons by (simp add: xor_cancel)
qed simp

lemma load64_inj:
  assumes "load64 bs = load64 cs" and "length bs = length cs" and "length bs \<le> 8"
  shows "bs = cs"
proof -
  have "(256 :: int) ^ length bs \<le> 256 ^ 8" using assms(3) by (intro power_increasing) auto
  then have b: "le_uint bs < 2 ^ 64" "le_uint cs < 2 ^ 64"
    using le_uint_bound [of bs] le_uint_bound [of cs] assms(2) by simp_all
  have "uint (load64 bs) = le_uint bs" "uint (load64 cs) = le_uint cs"
    using b by (simp_all add: load64_def uint_word_of_int)
  then have "le_uint bs = le_uint cs" using assms(1) by simp
  then show ?thesis using le_bytes_le_uint assms(2) by metis
qed

lemma crc_burst:
  assumes "length b' = length b" and "length b \<le> 8" and "b' \<noteq> b"
  shows "foldl crc_reg r (a @ b' @ c) \<noteq> foldl crc_reg r (a @ b @ c)"
proof -
  let ?r = "foldl crc_reg r a"
  have "?r XOR load64 b' \<noteq> ?r XOR load64 b"
    using load64_inj [of b' b] assms by (auto simp: xor_cancel)
  then have "foldl crc_reg ?r b' \<noteq> foldl crc_reg ?r b" using assms by (simp add: foldl_crc_reg crc_steps_inj)
  then show ?thesis by (simp add: crc_reg_inj)
qed

text \<open>
  A checksum stored behind its data in little-endian order brings the register to zero, and only it does.\<close>

lemma crc_stored:
  assumes "length bs = 8"
  shows "foldl crc_reg r (data @ bs) = 0 \<longleftrightarrow> bs = le_bytes 8 (uint (foldl crc_reg r data))"
proof -
  let ?r = "foldl crc_reg r data"
  have "foldl crc_reg r (data @ bs) = (crc_step ^^ 64) (?r XOR load64 bs)"
    using foldl_crc_reg [of bs ?r] assms by simp
  then have "foldl crc_reg r (data @ bs) = 0 \<longleftrightarrow> load64 bs = ?r" by (auto simp: crc_steps_eq_0 xor_eq_0)
  also have "load64 (le_bytes 8 (uint ?r)) = ?r" 
    using uint_bounded [of ?r] by (simp add: load64_def le_uint_le_bytes)
  then have "load64 bs = ?r \<longleftrightarrow> bs = le_bytes 8 (uint ?r)" using load64_inj [of bs "le_bytes 8 (uint ?r)"] assms by auto
  finally show ?thesis .
qed

section \<open>Properties\<close>

text \<open>
  C14: The checksum computed with tables, eight bytes at a time, is the bit by bit one, for every
  string at every address and for every running checksum: \<open>crc64\<close> takes and returns the register
  reflected, \<open>_crc64\<close> takes it unreflected.\<close>

theorem crc64_is_reference: "crc64 align crc s = crc64_ref (crc_reflect crc 64) s"
  by (simp add: crc64_reg crc64_ref_reg)

end
