(* ===== verification/Dump.thy ===== *)
theory Dump
  imports Crc64 Rdb_Object Keyspace
begin

text \<open>
  \<open>DUMP\<close> and \<open>RESTORE\<close> of \<open>cluster.c\<close> on the keyspace of \<open>Keyspace\<close> with strings and sets as its
  values.  A payload is a typed object in RDB format, the version of the format and the checksum of
  both.  The lemmas join the theories below: the codec of objects, the checksum, and the rules of
  the keyspace.  Access times are not modelled, so that the parsed idle time and frequency are not used
  further; values of the other types are refused as in \<open>Rdb_Object\<close>.
\<close>

section \<open>Model: payloads\<close>

abbreviation (input) RDB_VERSION :: nat where "RDB_VERSION \<equiv> 9"

text \<open>
  The assertions on the two saves accept every return value but 0; an error is -1.  The rest of the
  payload bypasses the stream.  \<open>align\<close> is the address of the buffer modulo 8.
\<close>

definition assert_saved :: "(rio option, nat) io \<Rightarrow> rio option" where
  "assert_saved m = (case m of IoOk r n \<Rightarrow> (if n = 0 then None else r) | IoErr r \<Rightarrow> r | IoCrash \<Rightarrow> None)"

definition createDumpPayload :: "rdb_env \<Rightarrow> u64 \<times> u64 \<Rightarrow> nat \<Rightarrow> rdb_value \<Rightarrow> rio option" where
  "createDumpPayload env addr align o' = do {
     payload \<leftarrow> assert_saved (rdbSaveObjectType o' (Some (rioInitWithBuffer [])));
     payload \<leftarrow> assert_saved (rdbSaveObject env addr o' (Some payload));
     let buf = [word_of_nat (RDB_VERSION mod 256), word_of_nat (RDB_VERSION div 256 mod 256)];
     let payload = payload\<lparr>io_ptr := io_ptr payload @ buf\<rparr>;
     let crc = crc64 align 0 (io_ptr payload);
     Some (payload\<lparr>io_ptr := io_ptr payload @ le_bytes 8 (uint crc)\<rparr>)
   }"

definition verifyDumpPayload :: "bool \<Rightarrow> nat \<Rightarrow> byte list \<Rightarrow> bool" where
  "verifyDumpPayload skip_checksum align p =
     (if length p < 10 then False
      else let footer = drop (length p - 10) p;
               rdbver = unat (footer ! 1) * 256 + unat (footer ! 0)
           in if rdbver > RDB_VERSION then False
              else if skip_checksum then True
              else let crc = crc64 align 0 (take (length p - 8) p)
                   in le_bytes 8 (uint crc) = take 8 (drop 2 footer))"

definition dumpCommand :: "rdb_env \<Rightarrow> u64 \<times> u64 \<Rightarrow> nat \<Rightarrow> config \<Rightarrow> key \<Rightarrow> rdb_value server \<Rightarrow> rdb_value server option" where
  "dumpCommand env addr align cfg key s = do {
     (s, o') \<leftarrow> lookupKeyRead cfg key s;
     (case o' of
        None \<Rightarrow> Some (addReply ReplyNull s)
      | Some v \<Rightarrow> do {
          payload \<leftarrow> createDumpPayload env addr align v;
          Some (addReply (ReplyBulk (io_ptr payload)) s)
        })
   }"

section \<open>Model: options of RESTORE\<close>

record restore_opts =
  ro_replace :: bool
  ro_absttl :: bool
  ro_idle :: int
  ro_freq :: int

text \<open>The result is \<open>None\<close> when an error was sent.  The arguments behind an option are the \<open>additional\<close> ones.\<close>

fun restore_options :: "byte list list \<Rightarrow> restore_opts \<Rightarrow> 'v server \<Rightarrow> 'v server \<times> restore_opts option" where
  "restore_options [] opts s = (s, Some opts)"
| "restore_options (arg # args) opts s =
     (if case_equal arg ''replace'' then restore_options args (opts\<lparr>ro_replace := True\<rparr>) s
      else if case_equal arg ''absttl'' then restore_options args (opts\<lparr>ro_absttl := True\<rparr>) s
      else if case_equal arg ''idletime'' \<and> args \<noteq> [] \<and> ro_freq opts = -1 then
        (case getLongLongFromObjectOrReply (hd args) s of
           (s, None) \<Rightarrow> (s, None)
         | (s, Some n) \<Rightarrow>
             if n < 0 then (addReply (ReplyError ''Invalid IDLETIME value, must be >= 0'') s, None)
             else restore_options (tl args) (opts\<lparr>ro_idle := n\<rparr>) s)
      else if case_equal arg ''freq'' \<and> args \<noteq> [] \<and> ro_idle opts = -1 then
        (case getLongLongFromObjectOrReply (hd args) s of
           (s, None) \<Rightarrow> (s, None)
         | (s, Some n) \<Rightarrow>
             if n < 0 \<or> n > 255 then (addReply (ReplyError ''Invalid FREQ value, must be >= 0 and <= 255'') s, None)
             else restore_options (tl args) (opts\<lparr>ro_freq := n\<rparr>) s)
      else (addReply (ReplyError ''syntax error'') s, None))"

section \<open>Model: RESTORE\<close>

text \<open>
  \<open>skip\<close> and \<open>deep\<close> are the settings for the checksum and for the validation of payloads,
  \<open>align\<close> the address of the payload modulo 8.  \<open>None\<close> is a crash.
\<close>

record restore_env =
  re_rdb :: rdb_env
  re_set :: set_env
  re_deep :: bool
  re_skip :: bool
  re_align :: nat

definition load_payload :: "restore_env \<Rightarrow> byte list \<Rightarrow> rdb_value option option" where
  "load_payload env p =
     (case load_typed (re_rdb env) (re_set env) (re_deep env) (rioInitWithBuffer p) of
        IoCrash \<Rightarrow> None
      | IoErr _ \<Rightarrow> Some None
      | IoOk _ v \<Rightarrow> Some (Some v))"

definition restore_value ::
  "config \<Rightarrow> client \<Rightarrow> key \<Rightarrow> restore_opts \<Rightarrow> int \<Rightarrow> rdb_value \<Rightarrow> rdb_value server \<Rightarrow> rdb_value server option" where
  "restore_value cfg c key opts ttl obj s = do {
     let (s, deleted) = (if ro_replace opts then dbDelete cfg key s else (s, False));
     let ttl = (if ttl \<noteq> 0 \<and> \<not> ro_absttl opts then wrap64 (ttl + sv_clock cfg) else ttl);
     if ttl \<noteq> 0 \<and> checkAlreadyExpired cfg ttl then
       Some (addReply ReplyOk
         (if deleted then
            add_dirty 1 (notifyKeyspaceEvent NOTIFY_GENERIC ''del'' key
              (signalModifiedKey key (emit (EvRewriteDel False key) s)))
          else s))
     else do {
       s \<leftarrow> dbAdd key obj s;
       s \<leftarrow> (if ttl \<noteq> 0 then setExpire cfg (Some c) key ttl s else Some s);
       Some (add_dirty 1 (addReply ReplyOk (notifyKeyspaceEvent NOTIFY_GENERIC ''restore'' key (signalModifiedKey key s))))
     }
   }"

definition restoreCommand ::
  "restore_env \<Rightarrow> config \<Rightarrow> client \<Rightarrow> key \<Rightarrow> byte list \<Rightarrow> byte list \<Rightarrow> byte list list \<Rightarrow> rdb_value server
   \<Rightarrow> rdb_value server option" where
  "restoreCommand env cfg c key ttl payload args s =
     (case restore_options args \<lparr>ro_replace = False, ro_absttl = False, ro_idle = -1, ro_freq = -1\<rparr> s of
        (s, None) \<Rightarrow> Some s
      | (s, Some opts) \<Rightarrow> do {
          (s, old) \<leftarrow> (if \<not> ro_replace opts then lookupKeyWrite cfg key s else Some (s, None));
          if old \<noteq> None then Some (addReply (ReplyError ''Target key name already exists.'') s)
          else (case getLongLongFromObjectOrReply ttl s of
                  (s, None) \<Rightarrow> Some s
                | (s, Some t) \<Rightarrow>
                    if t < 0 then Some (addReply (ReplyError ''Invalid TTL value, must be >= 0'') s)
                    else if \<not> verifyDumpPayload (re_skip env) (re_align env) payload then
                      Some (addReply (ReplyError ''DUMP payload version or checksum are wrong'') s)
                    else do {
                      obj \<leftarrow> load_payload env payload;
                      (case obj of
                         None \<Rightarrow> Some (addReply (ReplyError ''Bad data format'') s)
                       | Some obj \<Rightarrow> restore_value cfg c key opts t obj s)
                    })
        })"

section \<open>Payloads\<close>

text \<open>
  No object is loaded from an empty stream, so that none is saved without writing.\<close>

lemma empty_stream: "rioRead (rioInitWithBuffer []) (Suc n) = IoErr (rioInitWithBuffer []\<lparr>io_read_error := True\<rparr>)"
  by (simp add: rioRead_def rioRead_loop.simps rioBufferRead_def chunk_size_def rioInitWithBuffer_def)

lemma verifyDumpPayload_iff:
  "verifyDumpPayload skip align p \<longleftrightarrow> 10 \<le> length p \<and>
     unat (p ! (length p - 9)) * 256 + unat (p ! (length p - 10)) \<le> 9 \<and> (skip \<or> crc64 0 0 p = 0)"
proof (cases "10 \<le> length p")
  case True
  let ?d = "take (length p - 8) p" and ?c = "drop (length p - 8) p"
  have "length ?c = 8" using True by simp
  then have "crc64 0 0 p = 0 \<longleftrightarrow> ?c = le_bytes 8 (uint (crc64 align 0 ?d))"
    using crc_stored [of ?c 0 ?d] by (simp add: crc64_reg)
  moreover have "take 8 (drop 2 (drop (length p - 10) p)) = ?c"
  proof -
    have "2 + (length p - 10) = length p - 8" using True by simp
    then show ?thesis using True by (simp add: drop_drop)
  qed
  moreover have "drop (length p - 10) p ! 1 = p ! (length p - 9)" "drop (length p - 10) p ! 0 = p ! (length p - 10)"
  proof -
    have "length p - 10 + 1 = length p - 9" using True by simp
    then show "drop (length p - 10) p ! 1 = p ! (length p - 9)" using True by (metis diff_le_self nth_drop)
  qed (use True in \<open>simp add: nth_drop\<close>)
  ultimately show ?thesis using True by (auto simp: verifyDumpPayload_def Let_def)
qed (simp add: verifyDumpPayload_def)


lemma payload_saved:
  assumes v: "value_savable senv v" and env: "load_env env' senv'"
  shows "\<exists>r bs. createDumpPayload env (env_addr senv) align v = Some r \<and>
    io_ptr r = (bs @ [9, 0]) @ le_bytes 8 (uint (foldl crc_reg 0 (bs @ [9, 0]))) \<and>
    reads (load_typed env' senv' deep) bs (same_value senv' v)"
proof -
  obtain bs where bs: "writes (rdbSaveObject env (env_addr senv) v) bs"
      "reads (rdbLoadObject env' senv' deep (rdb_type v)) bs (same_value senv' v)"
    using object_codec [OF v env] by blast
  have ne: "bs \<noteq> []"
  proof
    assume "bs = []"
    then have "\<exists>r' a. rdbLoadObject env' senv' deep (rdb_type v) (rioInitWithBuffer []) = IoOk r' a"
      using bs(2) unfolding reads_def by (metis append.left_neutral holds_init)
    moreover have len: "\<exists>r. rdbLoadLen (rioInitWithBuffer []) = IoErr r"
      using empty_stream [of 0] by (simp add: rdbLoadLen_def rdbLoadLenByRef_def)
    then have str: "\<exists>r. rdbGenericLoadStringObject env' flags (rioInitWithBuffer []) = IoErr r" for flags
      by (auto simp: rdbGenericLoadStringObject_def)
    have "\<exists>r. rdbLoadSet env' senv' (rioInitWithBuffer []) = IoErr r" using len by (auto simp: rdbLoadSet_def)
    moreover have "\<exists>r. rdbLoadIntset env' senv' deep (rioInitWithBuffer []) = IoErr r"
      using str [of RDB_LOAD_PLAIN] by (auto simp: rdbLoadIntset_def)
    moreover have "\<exists>r. rdbLoadEncodedStringObject env' (rioInitWithBuffer []) = IoErr r"
      using str [of RDB_LOAD_ENC] by (auto simp: rdbLoadEncodedStringObject_def)
    ultimately show False by (auto simp: rdbLoadObject_def split: if_splits)
  qed
  have init: "\<not> io_write_error (rioInitWithBuffer [])" "io_ptr (rioInitWithBuffer []) = []"
    by (simp_all add: rioInitWithBuffer_def)
  obtain r where r: "rdbSaveObjectType v (Some (rioInitWithBuffer [])) = IoOk (Some r) 1" "io_ptr r = [rdb_type v]"
      "\<not> io_write_error r"
    using save_type_writes [of v] init unfolding writes_def by fastforce
  obtain r' where r': "rdbSaveObject env (env_addr senv) v (Some r) = IoOk (Some r') (length bs)" "io_ptr r' = rdb_type v # bs"
    using bs(1) r unfolding writes_def by fastforce
  have "reads (load_typed env' senv' deep) ([rdb_type v] @ bs) (same_value senv' v)"
    unfolding load_typed_def using bs(2) by (intro reads_then [OF load_type_reads]) simp
  then show ?thesis
    using r r' ne by (intro exI [of _ "_\<lparr>io_ptr := _\<rparr>"] exI [of _ "rdb_type v # bs"])
      (simp add: createDumpPayload_def assert_saved_def crc64_reg Let_def)
qed

lemma payload_accepted:
  assumes "reads (load_typed (re_rdb env) (re_set env) (re_deep env)) bs Q"
    and p: "p = (bs @ [9, 0]) @ le_bytes 8 (uint (foldl crc_reg 0 (bs @ [9, 0])))"
  shows "verifyDumpPayload skip align p" "\<exists>v. load_payload env p = Some (Some v) \<and> Q v"
proof -
  have "crc64 0 0 p = 0" unfolding p crc64_reg by (subst crc_stored) simp_all
  moreover have "length p = length bs + 10" by (simp add: p)
  ultimately show "verifyDumpPayload skip align p" by (simp add: verifyDumpPayload_iff) (simp add: p nth_append)
  have "holds (rioInitWithBuffer p) (bs @ ([9, 0] @ le_bytes 8 (uint (foldl crc_reg 0 (bs @ [9, 0])))))"
    by (simp add: p)
  then show "\<exists>v. load_payload env p = Some (Some v) \<and> Q v"
    using assms(1) unfolding reads_def load_payload_def by fastforce
qed


section \<open>Restoring a value\<close>

lemma restore_options_spec:
  "restore_options args opts s = (s', r) \<Longrightarrow>
    (case r of Some _ \<Rightarrow> s' = s | None \<Rightarrow> \<exists>e. s' = addReply (ReplyError e) s)"
  by (induction args opts s rule: restore_options.induct)
     (auto simp: getLongLongFromObjectOrReply_def split: if_splits option.splits)

text \<open>
  A deadline in the future, or none.\<close>

lemma restore_value_ok:
  assumes free: "db_dict s key = None" "\<not> ro_replace opts" "\<not> ro_absttl opts"
    and ttl: "0 \<le> ttl" "0 \<le> sv_clock cfg" "ttl + sv_clock cfg < 9223372036854775808"
  shows "\<exists>s'. restore_value cfg c key opts ttl obj s = Some s' \<and> s_reply s' = s_reply s @ [ReplyOk] \<and>
    s_dirty s' = s_dirty s + 1 \<and> db_dict s' = (db_dict s)(key \<mapsto> obj) \<and>
    db_expires s' = (if ttl = 0 then db_expires s else (db_expires s)(key \<mapsto> ttl + sv_clock cfg))"
proof -
  have "wrap64 (ttl + sv_clock cfg) = ttl + sv_clock cfg" using ttl by (simp add: wrap64_def)
  then show ?thesis
    using free ttl
    by (auto simp: restore_value_def dbAdd_def setExpire_def checkAlreadyExpired_def Let_def split: option.splits)
qed

lemma restoreCommand_valid:
  assumes inv: "db_inv P s" and free: "db_dict (access cfg key s) key = None"
    and ttl: "string2ll ttl = Some n" "0 \<le> n"
    and p: "verifyDumpPayload (re_skip env) (re_align env) p" "load_payload env p = Some (Some v)"
  shows "restoreCommand env cfg c key ttl p [] s
    = restore_value cfg c key \<lparr>ro_replace = False, ro_absttl = False, ro_idle = -1, ro_freq = -1\<rparr> n v (access cfg key s)"
  using assms by (simp add: restoreCommand_def lookupKeyWrite_ok getLongLongFromObjectOrReply_def)


lemma dumpCommand_ok:
  assumes inv: "db_inv (value_savable senv) s" and v: "visible cfg s key = Some v"
    and env: "load_env env' senv'"
  shows "\<exists>s' bs. dumpCommand env (env_addr senv) align cfg key s = Some s' \<and>
    s_reply s' = s_reply s @ [ReplyBulk ((bs @ [9, 0]) @ le_bytes 8 (uint (foldl crc_reg 0 (bs @ [9, 0]))))] \<and>
    reads (load_typed env' senv' deep) bs (same_value senv' v)"
proof -
  have "value_savable senv v" using v db_invD(2) [OF inv] by (auto simp: visible_def split: if_splits)
  then obtain r bs where "createDumpPayload env (env_addr senv) align v = Some r"
      "io_ptr r = (bs @ [9, 0]) @ le_bytes 8 (uint (foldl crc_reg 0 (bs @ [9, 0])))"
      "reads (load_typed env' senv' deep) bs (same_value senv' v)"
    using payload_saved [OF _ env] by blast
  then show ?thesis
    using lookupKeyReadWithFlags_ok [OF inv, of cfg False key] v by (auto simp: dumpCommand_def lookupKeyRead_def)
qed

section \<open>Properties\<close>

text \<open>
  C10: What \<open>DUMP\<close> replies for a string or a set, \<open>RESTORE\<close> accepts on any server with memory for it:
  it creates the key with an equal value in the representation of that server (whatever its limits
  for integer sets, its hash seed, its address of the payload and its settings for the checks), with the
  deadline asked for or none, and replies OK.\<close>

theorem dump_restore_roundtrip:
  assumes "db_inv (value_savable senv) s" and "visible cfg s key = Some v"
    and "db_inv P t" and "db_dict (access cfg' key' t) key' = None" and "load_env (re_rdb env') (re_set env')"
    and "string2ll ttl = Some n" and "0 \<le> n" and "0 \<le> sv_clock cfg'" and "n + sv_clock cfg' < 9223372036854775808"
  shows "\<exists>s' p t' v'. dumpCommand env (env_addr senv) align cfg key s = Some s' \<and> s_reply s' = s_reply s @ [ReplyBulk p] \<and>
    restoreCommand env' cfg' c key' ttl p [] t = Some t' \<and> s_reply t' = s_reply t @ [ReplyOk] \<and> s_dirty t' = s_dirty t + 1 \<and>
    db_dict t' = (db_dict (access cfg' key' t))(key' \<mapsto> v') \<and> same_value (re_set env') v v' \<and>
    db_expires t' = (if n = 0 then db_expires (access cfg' key' t)
      else (db_expires (access cfg' key' t))(key' \<mapsto> n + sv_clock cfg'))"
proof -
  obtain s' bs where s': "dumpCommand env (env_addr senv) align cfg key s = Some s'"
      "s_reply s' = s_reply s @ [ReplyBulk ((bs @ [9, 0]) @ le_bytes 8 (uint (foldl crc_reg 0 (bs @ [9, 0]))))]"
      "reads (load_typed (re_rdb env') (re_set env') (re_deep env')) bs (same_value (re_set env') v)"
    using dumpCommand_ok [OF assms(1,2,5)] by blast
  let ?p = "(bs @ [9, 0]) @ le_bytes 8 (uint (foldl crc_reg 0 (bs @ [9, 0])))"
  obtain v' where v': "load_payload env' ?p = Some (Some v')" "same_value (re_set env') v v'"
    using payload_accepted(2) [OF s'(3) refl] by blast
  have "restoreCommand env' cfg' c key' ttl ?p [] t
      = restore_value cfg' c key' \<lparr>ro_replace = False, ro_absttl = False, ro_idle = -1, ro_freq = -1\<rparr> n v' (access cfg' key' t)"
    using restoreCommand_valid [OF assms(3,4,6,7) payload_accepted(1) [OF s'(3) refl] v'(1)] by simp
  moreover note restore_value_ok [OF assms(4) _ _ assms(7,8,9), of "\<lparr>ro_replace = False, ro_absttl = False, ro_idle = -1, ro_freq = -1\<rparr>" c v']
  ultimately obtain t' where t': "restoreCommand env' cfg' c key' ttl ?p [] t = Some t'" "s_reply t' = s_reply t @ [ReplyOk]"
      "s_dirty t' = s_dirty t + 1" "db_dict t' = (db_dict (access cfg' key' t))(key' \<mapsto> v')"
      "db_expires t' = (if n = 0 then db_expires (access cfg' key' t)
        else (db_expires (access cfg' key' t))(key' \<mapsto> n + sv_clock cfg'))"
    by (auto simp del: access_sel(1,2))
  show ?thesis
    by (rule exI [of _ s'], rule exI [of _ ?p], rule exI [of _ t'], rule exI [of _ v'])
       (use s'(1,2) t' v'(2) in \<open>simp del: access_sel(1,2)\<close>)
qed


text \<open>Key \<open>a\<close> holds the number 5; the payload of it.\<close>

definition ex_values :: "rdb_value server" where
  "ex_values = empty_server\<lparr>db_dict := [[97] \<mapsto> VString (STR_INT 5)]\<rparr>"

definition ex_restore_env :: restore_env where
  "ex_restore_env = \<lparr>re_rdb = ex_rdb_env, re_set = ex_env, re_deep = True, re_skip = False, re_align = 3\<rparr>"

lemma ex_values_ok:
  "db_inv (value_savable ex_env) ex_values" "visible ex_config ex_values [97] = Some (VString (STR_INT 5))"
  "db_dict (access ex_config [98] ex_values) [98] = None" "load_env (re_rdb ex_restore_env) (re_set ex_restore_env)"
proof -
  have "str_ok (STR_INT 5)" "str_text (STR_INT 5) = [53]" by (simp_all add: int64_def dec_int_def dec_nat.simps)
  then show "db_inv (value_savable ex_env) ex_values" by (auto simp: db_inv_def ex_values_def empty_server_def)
qed (simp_all add: ex_values_def empty_server_def visible_def is_expired_def load_env_def ex_restore_env_def ex_rdb_env_def
    ex_env_def)

theorem dump_restore_roundtrip_witness:
  "\<exists>s' p t' v'. dumpCommand ex_rdb_env (1, 2) 0 ex_config [97] ex_values = Some s' \<and> s_reply s' = [ReplyBulk p] \<and>
    restoreCommand ex_restore_env ex_config ex_client [98] [51, 48] p [] ex_values = Some t' \<and> s_reply t' = [ReplyOk] \<and>
    s_dirty t' = 1 \<and> db_dict t' [98] = Some v' \<and> same_value ex_env (VString (STR_INT 5)) v' \<and> db_expires t' [98] = Some 180"
proof -
  have "string2ll [51, 48] = Some 30" by (simp add: string2ll_canonical int64_def dec_int_def dec_nat.simps)
  then show ?thesis
    using dump_restore_roundtrip [OF ex_values_ok(1,2,1,3,4), of "[51, 48]" 30 ex_rdb_env 0 ex_client]
    by (auto simp: ex_values_def empty_server_def ex_config_def ex_env_def ex_restore_env_def is_expired_def)
qed


text \<open>
  C13: The time to live of \<open>RESTORE\<close> is added to the clock without a test: a large one wraps to a
  deadline in the past, so that a valid payload is acknowledged and no key is created.\<close>

theorem restore_ttl_overflow:
  assumes "db_inv P s" and "db_dict (access cfg key s) key = None" and "\<not> sv_masterhost cfg" and "\<not> sv_loading cfg"
    and "verifyDumpPayload (re_skip env) (re_align env) p" and "load_payload env p = Some (Some v)"
    and "string2ll ttl = Some n" and "0 \<le> n" and "9223372036854775808 \<le> n + sv_clock cfg" and "0 \<le> sv_clock cfg"
    and "sv_clock cfg < 9223372036854775808"
  shows "restoreCommand env cfg c key ttl p [] s = Some (addReply ReplyOk (access cfg key s))"
proof -
  have "n < 9223372036854775808" using assms(7) by (simp add: string2ll_canonical int64_def)
  then have "(n + sv_clock cfg + 9223372036854775808) mod 18446744073709551616 = n + sv_clock cfg - 9223372036854775808"
    using assms(9,10,11) mod_pos_geq [of 18446744073709551616 "n + sv_clock cfg + 9223372036854775808"] by simp
  then have w: "wrap64 (n + sv_clock cfg) = n + sv_clock cfg - 18446744073709551616" by (simp add: wrap64_def)
  have "n \<noteq> 0" using assms(9,11) by auto
  then show ?thesis
    using assms \<open>n < 9223372036854775808\<close>
    by (simp add: restoreCommand_valid [OF assms(1,2,7,8,5,6)] restore_value_def w checkAlreadyExpired_def Let_def)
qed

theorem restore_ttl_overflow_witness:
  "\<exists>p. restoreCommand ex_restore_env ex_config ex_client [98] (dec_int 9223372036854775807) p [] ex_values
      = Some (addReply ReplyOk (access ex_config [98] ex_values))"
proof -
  have "value_savable ex_env (VString (STR_INT 5))" 
    using db_invD(2) [OF ex_values_ok(1), of "[97]"] by (simp add: ex_values_def)
  then obtain bs where bs: "reads (load_typed (re_rdb ex_restore_env) (re_set ex_restore_env) (re_deep ex_restore_env)) bs (\<lambda>_. True)"
    using payload_saved [OF _ ex_values_ok(4)] reads_weaken by (metis (no_types, lifting))
  let ?p = "(bs @ [9, 0]) @ le_bytes 8 (uint (foldl crc_reg 0 (bs @ [9, 0])))"
  obtain v where "load_payload ex_restore_env ?p = Some (Some v)" using payload_accepted(2) [OF bs refl] by blast
  moreover have "string2ll (dec_int 9223372036854775807) = Some 9223372036854775807"
    by (simp add: string2ll_canonical int64_def)
  moreover note restore_ttl_overflow [OF ex_values_ok(1,3) _ _ payload_accepted(1) [OF bs refl], where env = ex_restore_env
      and v = v and ttl = "dec_int 9223372036854775807" and n = 9223372036854775807 and c = ex_client]
  ultimately have "restoreCommand ex_restore_env ex_config ex_client [98] (dec_int 9223372036854775807) ?p [] ex_values
      = Some (addReply ReplyOk (access ex_config [98] ex_values))"
    by (simp add: ex_config_def del: append_assoc)
  then show ?thesis by blast
qed

section \<open>Corrupted payloads\<close>

text \<open>
  C11: A payload that passes the checks, altered within any eight consecutive bytes (in the object, the
  version or the checksum), is refused by \<open>RESTORE\<close> under all options and lifetimes: an error is
  the only reply, and nothing visible changes.\<close>

theorem restore_rejects_corruption:
  assumes "verifyDumpPayload skip align (a @ b @ d)" and "\<not> skip"
    and "length b' = length b" and "length b \<le> 8" and "b' \<noteq> b" and "\<not> re_skip env" and "db_inv P s"
  shows "\<exists>s' e. restoreCommand env cfg c key ttl (a @ b' @ d) args s = Some s' \<and> s_reply s' = s_reply s @ [ReplyError e] \<and>
    s_dirty s' = s_dirty s \<and> (\<forall>k. visible cfg s' k = visible cfg s k)"
proof -
  have "crc64 0 0 (a @ b' @ d) \<noteq> 0"
    using assms(1,2) crc_burst [OF assms(3,4,5), of 0 a d] by (simp add: verifyDumpPayload_iff crc64_reg)
  then have bad: "\<not> verifyDumpPayload (re_skip env) (re_align env) (a @ b' @ d)"
    using assms(6) by (simp add: verifyDumpPayload_iff)
  obtain s1 r where o1: "restore_options args \<lparr>ro_replace = False, ro_absttl = False, ro_idle = -1, ro_freq = -1\<rparr> s = (s1, r)"
    by fastforce
  note spec = restore_options_spec [OF o1]
  show ?thesis
  proof (cases r)
    case None
    then show ?thesis using spec o1 by (auto simp: restoreCommand_def visible_def is_expired_def)
  next
    case (Some opts)
    then have "s1 = s" using spec by simp
    let ?s = "if ro_replace opts then s else access cfg key s"
    have sel: "s_reply ?s = s_reply s" "s_dirty ?s = s_dirty s" by simp_all
    have "\<exists>e. restoreCommand env cfg c key ttl (a @ b' @ d) args s = Some (addReply (ReplyError e) ?s)"
      using o1 Some \<open>s1 = s\<close> bad assms(7)
      by (auto simp: restoreCommand_def lookupKeyWrite_ok getLongLongFromObjectOrReply_def split: option.splits)
    moreover have "visible cfg (addReply (ReplyError e) s) k = visible cfg s k" for e k
      by (simp only: visible_def is_expired_def addReply_sel)
    then have "visible cfg (addReply (ReplyError e) ?s) k = visible cfg s k" for e k
      using visible_access [of "addReply (ReplyError e) ?s" cfg key s k] by (cases "ro_replace opts") simp_all
    ultimately show ?thesis using sel by (metis addReply_sel(3,4))
  qed
qed

definition ex_payload :: "byte list" where
  "ex_payload = [0, 192, 5, 9, 0, 179, 221, 14, 170, 215, 169, 208, 224]"

lemma ex_payload_ok: "verifyDumpPayload False 0 ex_payload"
proof -
  have "crc64_ref 0 [0, 192, 5, 9, 0, 179, 221, 14, 170, 215, 169, 208, 224] = 0" by code_simp
  then have "crc64 0 0 ex_payload = 0" using crc64_ref_reg [of 0] by (simp add: crc64_reg reflect_0 ex_payload_def)
  then show ?thesis by (simp add: verifyDumpPayload_iff) (simp add: ex_payload_def)
qed

theorem restore_rejects_corruption_witness:
  "\<exists>s' e. restoreCommand ex_restore_env ex_config ex_client [98] [48] [0, 192, 6, 9, 0, 179, 221, 14, 170, 215, 169, 208, 224] [] ex_values
      = Some s' \<and> s_reply s' = [ReplyError e] \<and> visible ex_config s' [98] = None"
proof -
  have "verifyDumpPayload False 0 ([0, 192] @ [5] @ [9, 0, 179, 221, 14, 170, 215, 169, 208, 224])"
    using ex_payload_ok by (simp add: ex_payload_def)
  moreover have "visible ex_config ex_values [98] = None" "s_reply ex_values = []" "\<not> re_skip ex_restore_env"
    by (simp_all add: visible_def ex_values_def empty_server_def ex_restore_env_def)
  ultimately show ?thesis
    using restore_rejects_corruption [of False 0 "[0, 192]" "[5]" "[9, 0, 179, 221, 14, 170, 215, 169, 208, 224]" "[6]"
        ex_restore_env "value_savable ex_env" ex_values ex_config ex_client "[98]" "[48]" "[]"] ex_values_ok(1)
    by auto
qed


section \<open>A crafted payload\<close>

text \<open>
  A set whose length field says \<open>2 ^ 63\<close>, with one element.\<close>

lemma dict_overflow:
  fixes h :: "byte list \<Rightarrow> u64"
  shows "\<exists>d :: (byte list, unit) dict. dictTryExpand True (dictCreate (setDictType h)) 9223372036854775808 = Some (d, True) \<and>
    (\<forall>b k. dictAdd b d k () = None)"
proof -
  define d :: "(byte list, unit) dict" where
    "d = dictCreate (setDictType h)\<lparr>d_ht0 := \<lparr>ht_table = [], ht_size = 9223372036854775808,
       ht_sizemask = word_of_nat 9223372036854775807, ht_used = 0\<rparr>\<rparr>"
  have "dictTryExpand True (dictCreate (setDictType h)) 9223372036854775808 = Some (d, True)"
    by (simp add: dictTryExpand_def dictExpand_gen_def dictCreate_def dictInit_def dictIsRehashing_def dictNextPower_def
        Let_def d_def)
  moreover have "dictAdd b d k () = None" for b k
    by (simp add: dictAdd_def dictAddRaw_def rehash_if_needed_def dictKeyIndex_def dictExpandIfNeeded_def d_def
        dictCreate_def dictInit_def dictIsRehashing_def dict_search_def bucket_def)
  ultimately show ?thesis by blast
qed

lemma crafted_set_crashes:
  assumes env: "load_env env senv"
    and holds: "holds r ([2] @ len_image 9223372036854775808 @ (len_image (length [97 :: byte]) @ [97]) @ rest)"
  shows "load_typed env senv deep r = IoCrash"
proof -
  have "rdb_type (VSet (OBJ_ENCODING_HT (dictCreate (setDictType (env_hash senv))))) = 2" by (simp add: rdb_type_def)
  then obtain r1 where r1: "rdbLoadObjectType r = IoOk r1 2"
      "holds r1 (len_image 9223372036854775808 @ (len_image (length [97 :: byte]) @ [97]) @ rest)"
    using load_type_reads holds unfolding reads_def by metis
  have "int 9223372036854775808 < RDB_LENERR" by simp
  from rdbLoadLen_reads [OF this] obtain r2 where r2: "rdbLoadLen r1 = IoOk r2 (False, 9223372036854775808)"
      "holds r2 ((len_image (length [97 :: byte]) @ [97]) @ rest)"
    using r1(2) unfolding reads_def by blast
  have "reads (rdbGenericLoadStringObject env RDB_LOAD_SDS) (len_image (length [97 :: byte]) @ [97]) (loaded_is RDB_LOAD_SDS [97])"
    using env by (intro verbatim_reads) (simp_all add: load_env_def)
  then obtain r3 where r3: "rdbGenericLoadStringObject env RDB_LOAD_SDS r2 = IoOk r3 (LoadedSds [97])"
    using r2(2) unfolding reads_def by fastforce
  obtain d where d: "dictTryExpand True (dictCreate (setDictType (env_hash senv))) 9223372036854775808 = Some (d, True)"
      "\<And>b k. dictAdd b d k () = None"
    using dict_overflow by blast
  have "add_loaded env senv (OBJ_ENCODING_HT d) 9223372036854775808 [97] = None" by (simp add: add_loaded_def d(2))
  then have "load_members env senv 9223372036854775808 0 (OBJ_ENCODING_HT d) r2 = None"
    using r3 by (subst load_members.simps) simp
  moreover have "expand_set env (createSetObject senv) 9223372036854775808 = Some (OBJ_ENCODING_HT d, True)"
    using env d(1) by (simp add: expand_set_def createSetObject_def load_env_def)
  moreover have "env_max_intset senv < 9223372036854775808" "DICT_HT_INITIAL_SIZE < 9223372036854775808"
    using env by (simp_all add: load_env_def DICT_HT_INITIAL_SIZE_def)
  ultimately have "rdbLoadSet env senv r1 = IoCrash" using r2(1) by (simp add: rdbLoadSet_def)
  then show ?thesis using r1(1) by (simp add: load_typed_def rdbLoadObject_def)
qed



end
