(* ===== verification/Lcs.thy ===== *)
theory Lcs
  imports Redis_Prelude "HOL-Library.Sublist"
begin

text \<open>
  The longest common subsequence of \<open>stralgoLCS\<close> in \<open>t_string.c\<close>: the table of lengths in an array
  indexed with 32 bit arithmetic, and the walk back through it that builds the subsequence and
  reports the ranges of both strings that match.  Accesses outside the array or the result
  are \<open>None\<close>.

  As long as the table has fewer than \<open>2 ^ 32\<close> cells, both return, the result is a common subsequence
  of maximal length, and the ranges are pairs of equal parts of the strings that make it up.
\<close>

section \<open>Model: the table\<close>

type_synonym table = "nat list"

definition lcs_index :: "nat \<Rightarrow> nat \<Rightarrow> nat \<Rightarrow> nat" where
  "lcs_index blen A B = (B + A * (blen + 1)) mod 4294967296"

definition lcs_get :: "nat \<Rightarrow> table \<Rightarrow> nat \<Rightarrow> nat \<Rightarrow> nat option" where
  "lcs_get blen t A B = do { let i = lcs_index blen A B; require (i < length t); Some (t ! i) }"

definition lcs_put :: "nat \<Rightarrow> nat \<Rightarrow> nat \<Rightarrow> nat \<Rightarrow> table \<Rightarrow> table option" where
  "lcs_put blen A B v t = do { let i = lcs_index blen A B; require (i < length t); Some (t[i := v]) }"

definition lcs_cell :: "byte list \<Rightarrow> byte list \<Rightarrow> nat \<Rightarrow> nat \<Rightarrow> table \<Rightarrow> table option" where
  "lcs_cell a b i j t =
     (let blen = length b mod 4294967296 in
      if i = 0 \<or> j = 0 then lcs_put blen i j 0 t
      else if a ! (i - 1) = b ! (j - 1) then do {
        l \<leftarrow> lcs_get blen t (i - 1) (j - 1);
        lcs_put blen i j ((l + 1) mod 4294967296) t
      }
      else do {
        lcs1 \<leftarrow> lcs_get blen t (i - 1) j;
        lcs2 \<leftarrow> lcs_get blen t i (j - 1);
        lcs_put blen i j (if lcs1 > lcs2 then lcs1 else lcs2) t
      })"

fun lcs_cells :: "byte list \<Rightarrow> byte list \<Rightarrow> (nat \<times> nat) list \<Rightarrow> table \<Rightarrow> table option" where
  "lcs_cells a b [] t = Some t"
| "lcs_cells a b ((i, j) # ijs) t = do { t \<leftarrow> lcs_cell a b i j t; lcs_cells a b ijs t }"

text \<open>The cells in the order of the two loops; \<open>fresh\<close> is what the allocated memory holds.\<close>

definition lcs_table :: "(nat \<Rightarrow> nat) \<Rightarrow> byte list \<Rightarrow> byte list \<Rightarrow> table option" where
  "lcs_table fresh a b =
     (let alen = length a mod 4294967296; blen = length b mod 4294967296;
          cells = ((alen + 1) mod 4294967296) * ((blen + 1) mod 4294967296) mod 4294967296
      in lcs_cells a b [(i, j). i \<leftarrow> [0..<alen + 1], j \<leftarrow> [0..<blen + 1]] (map fresh [0..<cells]))"

section \<open>Model: the walk back\<close>

record lcs_walk =
  lw_i :: nat
  lw_j :: nat
  lw_idx :: nat
  lw_result :: "byte list"
  lw_as :: nat
  lw_ae :: nat
  lw_bs :: nat
  lw_be :: nat
  lw_matches :: "(nat \<times> nat \<times> nat \<times> nat) list"

definition walk_match :: "byte list \<Rightarrow> byte list \<Rightarrow> lcs_walk \<Rightarrow> (lcs_walk \<times> bool) option" where
  "walk_match a b w = do {
     let i = lw_i w; let j = lw_j w; let alen = length a mod 4294967296;
     require (0 < lw_idx w \<and> lw_idx w \<le> length (lw_result w));
     let w = w\<lparr>lw_result := (lw_result w)[lw_idx w - 1 := a ! (i - 1)]\<rparr>;
     let (w, emit) =
       (if lw_as w = alen then (w\<lparr>lw_as := i - 1, lw_ae := i - 1, lw_bs := j - 1, lw_be := j - 1\<rparr>, False)
        else if lw_as w = i \<and> lw_bs w = j then (w\<lparr>lw_as := lw_as w - 1, lw_bs := lw_bs w - 1\<rparr>, False)
        else (w, True));
     let emit = (emit \<or> lw_as w = 0 \<or> lw_bs w = 0);
     Some (w\<lparr>lw_idx := lw_idx w - 1, lw_i := i - 1, lw_j := j - 1\<rparr>, emit)
   }"

definition walk_skip :: "byte list \<Rightarrow> byte list \<Rightarrow> table \<Rightarrow> lcs_walk \<Rightarrow> (lcs_walk \<times> bool) option" where
  "walk_skip a b t w = do {
     let i = lw_i w; let j = lw_j w; let blen = length b mod 4294967296;
     lcs1 \<leftarrow> lcs_get blen t (i - 1) j;
     lcs2 \<leftarrow> lcs_get blen t i (j - 1);
     let w = (if lcs1 > lcs2 then w\<lparr>lw_i := i - 1\<rparr> else w\<lparr>lw_j := j - 1\<rparr>);
     Some (w, lw_as w \<noteq> length a mod 4294967296)
   }"

definition walk_emit :: "byte list \<Rightarrow> int \<Rightarrow> lcs_walk \<times> bool \<Rightarrow> lcs_walk" where
  "walk_emit a minmatchlen = (\<lambda>(w, emit).
     let match_len = (int (lw_ae w) - int (lw_as w) + 1) mod 4294967296 in
     if emit then
       (if minmatchlen = 0 \<or> match_len \<ge> minmatchlen
        then w\<lparr>lw_matches := lw_matches w @ [(lw_as w, lw_ae w, lw_bs w, lw_be w)], lw_as := length a mod 4294967296\<rparr>
        else w\<lparr>lw_as := length a mod 4294967296\<rparr>)
     else w)"

definition walk_step :: "byte list \<Rightarrow> byte list \<Rightarrow> table \<Rightarrow> int \<Rightarrow> lcs_walk \<Rightarrow> lcs_walk option" where
  "walk_step a b t minmatchlen w = do {
     r \<leftarrow> (if a ! (lw_i w - 1) = b ! (lw_j w - 1) then walk_match a b w else walk_skip a b t w);
     Some (walk_emit a minmatchlen r)
   }"

lemma walk_emit_sel [simp]:
  "lw_i (walk_emit a m r) = lw_i (fst r)" "lw_j (walk_emit a m r) = lw_j (fst r)"
  "lw_idx (walk_emit a m r) = lw_idx (fst r)" "lw_result (walk_emit a m r) = lw_result (fst r)"
  by (simp_all add: walk_emit_def Let_def split: prod.split)

lemma walk_match_sel:
  assumes "walk_match a b w = Some r"
  shows "lw_i (fst r) = lw_i w - 1 \<and> lw_j (fst r) = lw_j w - 1 \<and> lw_idx (fst r) = lw_idx w - 1 \<and>
    lw_result (fst r) = (lw_result w)[lw_idx w - 1 := a ! (lw_i w - 1)] \<and> 0 < lw_idx w \<and> lw_idx w \<le> length (lw_result w)"
  using assms unfolding walk_match_def Let_def bind_eq_Some_conv require_eq_Some by (auto split: prod.splits if_splits)

lemma walk_step_decreases:
  assumes "walk_step a b t m w = Some w'" and "0 < lw_i w" and "0 < lw_j w"
  shows "lw_i w' + lw_j w' < lw_i w + lw_j w"
proof -
  obtain r where r: "(if a ! (lw_i w - 1) = b ! (lw_j w - 1) then walk_match a b w else walk_skip a b t w) = Some r"
      "w' = walk_emit a m r"
    using assms(1) by (auto simp: walk_step_def bind_eq_Some_conv)
  have "lw_i (fst r) + lw_j (fst r) < lw_i w + lw_j w"
  proof (cases "a ! (lw_i w - 1) = b ! (lw_j w - 1)")
    case True
    then show ?thesis using walk_match_sel [of a b w r] r(1) assms(2,3) by simp
  next
    case False
    then show ?thesis using r(1) assms(2,3) by (auto simp: walk_skip_def Let_def bind_eq_Some_conv)
  qed
  then show ?thesis by (simp add: r(2))
qed

function walk_loop :: "byte list \<Rightarrow> byte list \<Rightarrow> table \<Rightarrow> int \<Rightarrow> lcs_walk \<Rightarrow> lcs_walk option" where
  "walk_loop a b t minmatchlen w =
     (if lw_i w > 0 \<and> lw_j w > 0
      then (case walk_step a b t minmatchlen w of None \<Rightarrow> None | Some w \<Rightarrow> walk_loop a b t minmatchlen w)
      else Some w)"
  by pat_completeness auto
termination
  by (relation "measure (\<lambda>(a, b, t, m, w). lw_i w + lw_j w)") (auto dest: walk_step_decreases)

declare walk_loop.simps [simp del]

text \<open>The length, and when it is wanted, the subsequence and the ranges in the order of the reply.\<close>

definition lcs_compute ::
  "(nat \<Rightarrow> nat) \<Rightarrow> (nat \<Rightarrow> byte) \<Rightarrow> bool \<Rightarrow> int \<Rightarrow> byte list \<Rightarrow> byte list \<Rightarrow> (nat \<times> lcs_walk) option" where
  "lcs_compute fresh noinit computelcs minmatchlen a b = do {
     t \<leftarrow> lcs_table fresh a b;
     let alen = length a mod 4294967296; let blen = length b mod 4294967296;
     idx \<leftarrow> lcs_get blen t alen blen;
     let w = \<lparr>lw_i = alen, lw_j = blen, lw_idx = idx, lw_result = map noinit [0..<idx],
              lw_as = alen, lw_ae = 0, lw_bs = 0, lw_be = 0, lw_matches = []\<rparr>;
     w \<leftarrow> (if computelcs then walk_loop a b t minmatchlen w else Some w);
     Some (idx, w)
   }"

section \<open>The longest common subsequence\<close>

text \<open>The length for the first \<open>i\<close> and the first \<open>j\<close> bytes.\<close>

fun lcs_len :: "byte list \<Rightarrow> byte list \<Rightarrow> nat \<Rightarrow> nat \<Rightarrow> nat" where
  "lcs_len a b 0 j = 0"
| "lcs_len a b (Suc i) 0 = 0"
| "lcs_len a b (Suc i) (Suc j) =
     (if a ! i = b ! j then Suc (lcs_len a b i j) else max (lcs_len a b i (Suc j)) (lcs_len a b (Suc i) j))"

lemma lcs_len_0 [simp]: "lcs_len a b i 0 = 0"
  by (cases i) simp_all

lemma lcs_len_bound: "lcs_len a b i j \<le> i"
  by (induction a b i j rule: lcs_len.induct) auto

lemma subseq_snoc:
  "subseq (xs @ [x]) (ys @ [y]) \<longleftrightarrow> (if x = y then subseq xs ys else subseq (xs @ [x]) ys)"
proof (cases "x = y")
  case False
  have "subseq (xs @ [x]) (ys @ [y]) \<Longrightarrow> subseq (xs @ [x]) ys"
  proof -
    assume "subseq (xs @ [x]) (ys @ [y])"
    then obtain us vs where "xs @ [x] = us @ vs" "subseq us ys" "subseq vs [y]" by (auto simp: subseq_append_iff)
    then show ?thesis using False by (cases vs rule: rev_cases) (auto dest: list_emb_set)
  qed
  then show ?thesis using False by (auto intro: subseq_rev_drop_many)
qed simp

lemma lcs_len_optimal:
  "i \<le> length a \<Longrightarrow> j \<le> length b \<Longrightarrow> subseq xs (take i a) \<Longrightarrow> subseq xs (take j b) \<Longrightarrow> length xs \<le> lcs_len a b i j"
proof (induction a b i j arbitrary: xs rule: lcs_len.induct)
  case (3 a b i j)
  have t: "take (Suc i) a = take i a @ [a ! i]" "take (Suc j) b = take j b @ [b ! j]"
    using "3.prems" by (simp_all add: take_Suc_conv_app_nth)
  show ?case
  proof (cases xs rule: rev_cases)
    case (snoc ys x)
    have sa: "if x = a ! i then subseq ys (take i a) else subseq xs (take i a)"
      and sb: "if x = b ! j then subseq ys (take j b) else subseq xs (take j b)"
      using "3.prems"(3,4) unfolding t snoc subseq_snoc by simp_all
    have pre: "subseq ys zs" if "subseq xs zs" for zs
      using that snoc by (metis subseq_order.trans subseq_rev_drop_many subseq_order.order_refl)
    consider "a ! i = b ! j" | "a ! i \<noteq> b ! j" "x = a ! i" | "a ! i \<noteq> b ! j" "x \<noteq> a ! i" by blast
    then show ?thesis
    proof cases
      case 1
      then have "length ys \<le> lcs_len a b i j"
        using "3.IH"(1) [of ys] sa sb pre "3.prems" by (auto split: if_splits)
      then show ?thesis using 1 snoc by simp
    next
      case 2
      then have "length xs \<le> lcs_len a b (Suc i) j" using "3.IH"(3) [of xs] sb "3.prems" by simp
      then show ?thesis using 2 by simp
    next
      case 3
      then have "length xs \<le> lcs_len a b i (Suc j)" using "3.IH"(2) [of xs] sa "3.prems" by simp
      then show ?thesis using 3 by simp
    qed
  qed simp
qed auto


section \<open>The table holds the lengths\<close>

text \<open>
  The cells are visited in the order of their indices, one row of \<open>n\<close> after the other.\<close>

lemma cells_in_order:
  "[(i, j). i \<leftarrow> [0..<r], j \<leftarrow> [0..<n]] = map (\<lambda>m. (m div n, m mod n)) [0..<r * n]"
proof (induction r)
  case (Suc r)
  have "map (\<lambda>m. (m div n, m mod n)) [r * n..<r * n + n] = map (\<lambda>j. (r, j)) [0..<n]"
  proof (rule nth_equalityI)
    fix k assume "k < length (map (\<lambda>m. (m div n, m mod n)) [r * n..<r * n + n])"
    then have "k < n" by simp
    then show "map (\<lambda>m. (m div n, m mod n)) [r * n..<r * n + n] ! k = map (\<lambda>j. (r, j)) [0..<n] ! k"
      by simp
  qed simp
  moreover have "[0..<Suc r * n] = [0..<r * n] @ [r * n..<r * n + n]"
    by (metis add.commute le0 mult_Suc upt_add_eq_append)
  ultimately show ?case using Suc by simp
qed simp

definition table_val :: "byte list \<Rightarrow> byte list \<Rightarrow> nat \<Rightarrow> nat" where
  "table_val a b m = lcs_len a b (m div (length b + 1)) (m mod (length b + 1))"

definition small_table :: "byte list \<Rightarrow> byte list \<Rightarrow> bool" where
  "small_table a b \<longleftrightarrow> (length a + 1) * (length b + 1) < 4294967296"

lemma small_bounds:
  assumes "small_table a b"
  shows "length a + 1 < 4294967296" "length b + 1 < 4294967296"
proof -
  have "(length a + 1) * 1 \<le> (length a + 1) * (length b + 1)" "1 * (length b + 1) \<le> (length a + 1) * (length b + 1)"
    by (intro mult_le_mono; simp)+
  then show "length a + 1 < 4294967296" "length b + 1 < 4294967296" using assms by (simp_all add: small_table_def)
qed

lemma small_lengths:
  assumes "small_table a b"
  shows "length a mod 4294967296 = length a" "length b mod 4294967296 = length b"
    "(length a + 1) mod 4294967296 = length a + 1" "(length b + 1) mod 4294967296 = length b + 1"
    "(length a + 1) * (length b + 1) mod 4294967296 = (length a + 1) * (length b + 1)"
  using small_bounds [OF assms] assms by (simp_all add: small_table_def del: mult_Suc mult_Suc_right)

lemma cell_bound:
  assumes "i \<le> length a" and "j \<le> length b"
  shows "j + i * (length b + 1) < (length a + 1) * (length b + 1)"
proof -
  have "i * (length b + 1) \<le> length a * (length b + 1)" using assms(1) by (rule mult_le_mono1)
  then show ?thesis using assms(2) by simp
qed

lemma lcs_index_small:
  assumes "small_table a b" and "i \<le> length a" and "j \<le> length b"
  shows "lcs_index (length b) i j = j + i * (length b + 1)"
  using cell_bound [OF assms(2,3)] assms(1) by (simp add: lcs_index_def small_table_def)

text \<open>The cells below \<open>k\<close> are filled.\<close>

definition filled :: "byte list \<Rightarrow> byte list \<Rightarrow> nat \<Rightarrow> table \<Rightarrow> bool" where
  "filled a b k t \<longleftrightarrow> length t = (length a + 1) * (length b + 1) \<and> (\<forall>m < k. m < length t \<longrightarrow> t ! m = table_val a b m)"

lemma filled_get:
  assumes "small_table a b" and "filled a b k t" and "i \<le> length a" and "j \<le> length b" and "j + i * (length b + 1) < k"
  shows "lcs_get (length b) t i j = Some (lcs_len a b i j)"
proof -
  have "(j + i * (length b + 1)) div (length b + 1) = i" "(j + i * (length b + 1)) mod (length b + 1) = j"
    using assms(4) by (simp_all add: div_mult_self3 del: mult_Suc_right)
  then show ?thesis
    using assms cell_bound [OF assms(3,4)]
    by (simp add: lcs_get_def lcs_index_small filled_def table_val_def Let_def del: mult_Suc_right mult_Suc)
qed


lemma lcs_cell_fills:
  assumes small: "small_table a b" and t: "filled a b (j + i * (length b + 1)) t" and i: "i \<le> length a" and j: "j \<le> length b"
  shows "\<exists>t'. lcs_cell a b i j t = Some t' \<and> filled a b (Suc (j + i * (length b + 1))) t'"
proof -
  let ?m = "j + i * (length b + 1)"
  have v: "table_val a b ?m = lcs_len a b i j"
    using j by (simp add: table_val_def div_mult_self3 del: mult_Suc_right)
  have put: "\<exists>t'. lcs_put (length b) i j (lcs_len a b i j) t = Some t' \<and> filled a b (Suc ?m) t'"
    using t v cell_bound [OF i j] lcs_index_small [OF small i j]
    by (auto simp: lcs_put_def filled_def Let_def nth_list_update less_Suc_eq simp del: mult_Suc_right mult_Suc)
  show ?thesis
  proof (cases "i = 0 \<or> j = 0")
    case True
    then show ?thesis using put by (auto simp: lcs_cell_def small_lengths [OF small])
  next
    case False
    then obtain i' j' where ij: "i = Suc i'" "j = Suc j'" by (metis not0_implies_Suc)
    have "lcs_get (length b) t i' j' = Some (lcs_len a b i' j')" "lcs_get (length b) t i' j = Some (lcs_len a b i' j)"
      "lcs_get (length b) t i j' = Some (lcs_len a b i j')"
      using filled_get [OF small t, of i' j'] filled_get [OF small t, of i' j] filled_get [OF small t, of i j'] i j ij
      by simp_all
    moreover have "(lcs_len a b i' j' + 1) mod 4294967296 = Suc (lcs_len a b i' j')"
      using lcs_len_bound [of a b i' j'] i ij small_bounds(1) [OF small] by simp
    moreover have "lcs_len a b i j = (if a ! i' = b ! j' then Suc (lcs_len a b i' j')
        else if lcs_len a b i' j > lcs_len a b i j' then lcs_len a b i' j else lcs_len a b i j')"
      by (simp add: ij)
    ultimately show ?thesis
      using put ij small_lengths(2) [OF small] by (simp add: lcs_cell_def Let_def split: if_splits)
  qed
qed

lemma lcs_cells_fill:
  assumes small: "small_table a b" and "k \<le> (length a + 1) * (length b + 1)" and "filled a b k t"
  shows "\<exists>t'. lcs_cells a b (map (\<lambda>m. (m div (length b + 1), m mod (length b + 1))) [k..<(length a + 1) * (length b + 1)]) t
    = Some t' \<and> filled a b ((length a + 1) * (length b + 1)) t'"
  using assms(2,3)
proof (induction arbitrary: t rule: inc_induct)
  case (step k)
  let ?n = "length b + 1"
  have "k div ?n < length a + 1" using step.hyps(2) by (metis less_mult_imp_div_less)
  moreover have "k mod ?n < ?n" by simp
  moreover have "k mod ?n + k div ?n * ?n = k" by (rule mod_div_mult_eq)
  ultimately obtain t' where "lcs_cell a b (k div ?n) (k mod ?n) t = Some t'" "filled a b (Suc k) t'"
    using lcs_cell_fills [OF small, of "k mod ?n" "k div ?n" t] step.prems by (metis less_Suc_eq_le Suc_eq_plus1)
  moreover have "[k..<(length a + 1) * ?n] = k # [Suc k..<(length a + 1) * ?n]" using step.hyps(2) by (rule upt_conv_Cons)
  ultimately show ?case using step.IH by (simp only: list.map lcs_cells.simps bind.bind_lunit)
qed simp

lemma lcs_table_ok:
  assumes "small_table a b"
  shows "\<exists>t. lcs_table fresh a b = Some t \<and> filled a b ((length a + 1) * (length b + 1)) t"
proof -
  have "filled a b 0 (map fresh [0..<(length a + 1) * (length b + 1)])" by (simp add: filled_def)
  then show ?thesis
    using lcs_cells_fill [OF assms, of 0] unfolding lcs_table_def Let_def small_lengths [OF assms] cells_in_order by simp
qed


section \<open>The walk builds the subsequence\<close>

text \<open>A range is a pair of equal parts of the strings; \<open>block\<close> is the part.\<close>

fun block :: "byte list \<Rightarrow> nat \<times> nat \<times> nat \<times> nat \<Rightarrow> byte list" where
  "block a (as, ae, bs, be) = take (ae + 1 - as) (drop as a)"

fun range_ok :: "byte list \<Rightarrow> byte list \<Rightarrow> nat \<times> nat \<times> nat \<times> nat \<Rightarrow> bool" where
  "range_ok a b (as, ae, bs, be) \<longleftrightarrow> as \<le> ae \<and> ae < length a \<and> bs \<le> be \<and> be < length b \<and> ae - as = be - bs \<and>
     take (ae + 1 - as) (drop as a) = take (be + 1 - bs) (drop bs b)"

fun long_enough :: "int \<Rightarrow> nat \<times> nat \<times> nat \<times> nat \<Rightarrow> bool" where
  "long_enough m (as, ae, bs, be) \<longleftrightarrow> m = 0 \<or> m \<le> int (ae + 1 - as)"

abbreviation pending :: "lcs_walk \<Rightarrow> nat \<times> nat \<times> nat \<times> nat" where
  "pending w \<equiv> (lw_as w, lw_ae w, lw_bs w, lw_be w)"

text \<open>What is built so far is a common subsequence of the rest, made up of the ranges found.\<close>

definition walk_pre :: "byte list \<Rightarrow> byte list \<Rightarrow> int \<Rightarrow> nat \<Rightarrow> lcs_walk \<Rightarrow> bool" where
  "walk_pre a b m n w \<longleftrightarrow> lw_i w \<le> length a \<and> lw_j w \<le> length b \<and> lw_idx w = lcs_len a b (lw_i w) (lw_j w) \<and>
     length (lw_result w) = n \<and> lw_idx w \<le> n \<and>
     subseq (drop (lw_idx w) (lw_result w)) (drop (lw_i w) a) \<and> subseq (drop (lw_idx w) (lw_result w)) (drop (lw_j w) b) \<and>
     (lw_as w \<noteq> length a \<longrightarrow> range_ok a b (pending w)) \<and>
     (\<exists>full. lw_matches w = filter (long_enough m) full \<and> (\<forall>r \<in> set full. range_ok a b r) \<and>
        drop (lw_idx w) (lw_result w) = (if lw_as w = length a then [] else block a (pending w)) @ concat (map (block a) (rev full)))"

definition walk_inv :: "byte list \<Rightarrow> byte list \<Rightarrow> int \<Rightarrow> nat \<Rightarrow> lcs_walk \<Rightarrow> bool" where
  "walk_inv a b m n w \<longleftrightarrow> walk_pre a b m n w \<and>
     (lw_as w \<noteq> length a \<longrightarrow> lw_as w = lw_i w \<and> lw_bs w = lw_j w \<and> 0 < lw_i w \<and> 0 < lw_j w)"

lemma walk_emit_inv:
  assumes pre: "walk_pre a b m n w" and small: "small_table a b" and emit: "e \<Longrightarrow> lw_as w \<noteq> length a"
    and keep: "\<not> e \<Longrightarrow> lw_as w \<noteq> length a \<Longrightarrow> lw_as w = lw_i w \<and> lw_bs w = lw_j w \<and> 0 < lw_i w \<and> 0 < lw_j w"
  shows "walk_inv a b m n (walk_emit a m (w, e))"
proof (cases e)
  case False
  then have "walk_emit a m (w, e) = w" by (simp add: walk_emit_def)
  then show ?thesis using pre keep [OF False] unfolding walk_inv_def by metis
next
  case True
  then have ne: "lw_as w \<noteq> length a" by (rule emit)
  obtain full where full: "lw_matches w = filter (long_enough m) full" "\<forall>r \<in> set full. range_ok a b r"
      "drop (lw_idx w) (lw_result w) = block a (pending w) @ concat (map (block a) (rev full))"
    using pre ne unfolding walk_pre_def by auto
  have ok: "range_ok a b (pending w)" using pre ne unfolding walk_pre_def by blast
  have "(int (lw_ae w) - int (lw_as w) + 1) mod 4294967296 = int (lw_ae w + 1 - lw_as w)"
    using ok small_bounds(1) [OF small] by simp
  then have w: "walk_emit a m (w, e) = (if long_enough m (pending w)
      then w\<lparr>lw_matches := lw_matches w @ [pending w], lw_as := length a\<rparr> else w\<lparr>lw_as := length a\<rparr>)"
    using True small_lengths(1) [OF small] by (simp add: walk_emit_def Let_def)
  define v where "v = walk_emit a m (w, e)"
  have "\<exists>full'. lw_matches v = filter (long_enough m) full' \<and> (\<forall>r \<in> set full'. range_ok a b r) \<and>
      drop (lw_idx w) (lw_result w) = concat (map (block a) (rev full'))"
    using full ok by (intro exI [of _ "full @ [pending w]"]) (simp add: v_def w)
  moreover have "lw_i v = lw_i w" "lw_j v = lw_j w" "lw_idx v = lw_idx w" "lw_result v = lw_result w" "lw_as v = length a"
    by (simp_all add: v_def) (simp add: w)
  ultimately show ?thesis
    using pre unfolding walk_inv_def walk_pre_def v_def [symmetric] by (elim conjE) (simp del: range_ok.simps block.simps)
qed


text \<open>
  A matching byte in front of a range extends it, or starts one.\<close>

lemma block_single: "i < length a \<Longrightarrow> block a (i, i, j, j) = [a ! i]"
  by (simp add: take_Suc_conv_app_nth nth_drop)

lemma range_extend:
  assumes "range_ok a b (Suc i, ae, Suc j, be)" and "a ! i = b ! j"
  shows "range_ok a b (i, ae, j, be)" "block a (i, ae, j, be) = a ! i # block a (Suc i, ae, Suc j, be)"
proof -
  have "drop i a = a ! i # drop (Suc i) a" "drop j b = b ! j # drop (Suc j) b"
    using assms(1) by (simp_all add: Cons_nth_drop_Suc)
  moreover have "ae + 1 - i = Suc (ae + 1 - Suc i)" "be + 1 - j = Suc (be + 1 - Suc j)" "ae - i = be - j"
    using assms(1) by auto
  ultimately show "range_ok a b (i, ae, j, be)" "block a (i, ae, j, be) = a ! i # block a (Suc i, ae, Suc j, be)"
    using assms by simp_all
qed

lemma drop_update_before: "i < length xs \<Longrightarrow> drop i (xs[i := x]) = x # drop (Suc i) xs"
  by (simp add: Cons_nth_drop_Suc [symmetric])


lemma walk_match_inv:
  assumes inv: "walk_inv a b m n w" and small: "small_table a b" and pos: "0 < lw_i w" "0 < lw_j w"
    and eq: "a ! (lw_i w - 1) = b ! (lw_j w - 1)"
  shows "\<exists>r. walk_match a b w = Some r \<and> walk_inv a b m n (walk_emit a m r)"
proof -
  obtain i j where ij: "lw_i w = Suc i" "lw_j w = Suc j" using pos by (metis gr0_implies_Suc)
  note pre = inv [unfolded walk_inv_def walk_pre_def]
  have ab: "a ! i = b ! j" using eq ij by simp
  have len: "i < length a" "j < length b" using pre ij by auto
  have idx: "lw_idx w = Suc (lcs_len a b i j)" using pre ij ab by simp
  have room: "lcs_len a b i j < length (lw_result w)" using pre idx by simp
  define w' where "w' = w\<lparr>lw_result := (lw_result w)[lcs_len a b i j := a ! i],
     lw_as := i, lw_ae := (if lw_as w = length a then i else lw_ae w),
     lw_bs := j, lw_be := (if lw_as w = length a then j else lw_be w),
     lw_idx := lcs_len a b i j, lw_i := i, lw_j := j\<rparr>"
  have run: "walk_match a b w = Some (w', i = 0 \<or> j = 0)"
  proof (cases "lw_as w = length a")
    case True
    then show ?thesis using room by (simp add: walk_match_def small_lengths(1) [OF small] ij idx w'_def)
  next
    case False
    then have "lw_as w = Suc i" "lw_bs w = Suc j" using pre ij by auto
    then show ?thesis using False room by (simp add: walk_match_def small_lengths(1) [OF small] ij idx w'_def)
  qed
  have d: "drop i a = a ! i # drop (Suc i) a" "drop j b = a ! i # drop (Suc j) b"
    using Cons_nth_drop_Suc [OF len(1)] Cons_nth_drop_Suc [OF len(2)] ab by simp_all
  let ?old = "drop (lw_idx w) (lw_result w)"
  have res: "drop (lw_idx w') (lw_result w') = a ! i # ?old"
    using drop_update_before [OF room, of "a ! i"] by (simp add: w'_def idx)
  have range: "range_ok a b (pending w') \<and> block a (pending w') = a ! i # (if lw_as w = length a then [] else block a (pending w))"
  proof (cases "lw_as w = length a")
    case True
    then show ?thesis using len ab block_single [of i a j] by (simp add: w'_def take_Suc_conv_app_nth)
  next
    case False
    then have "range_ok a b (Suc i, lw_ae w, Suc j, lw_be w)" "pending w = (Suc i, lw_ae w, Suc j, lw_be w)" using pre ij by auto
    then show ?thesis using False range_extend [OF _ ab] by (simp add: w'_def del: range_ok.simps block.simps)
  qed
  have "walk_pre a b m n w'"
  proof -
    obtain full where full: "lw_matches w = filter (long_enough m) full" "\<forall>r \<in> set full. range_ok a b r"
        "?old = (if lw_as w = length a then [] else block a (pending w)) @ concat (map (block a) (rev full))"
      using pre by blast
    have "a ! i # ?old = block a (pending w') @ concat (map (block a) (rev full))"
      using range full(3) by (simp only: append_Cons)
    moreover have "subseq (a ! i # ?old) (drop i a)" "subseq (a ! i # ?old) (drop j b)"
      using pre unfolding d ij by (blast intro: subseq_Cons2)+
    moreover have "lw_as w' \<noteq> length a" using len by (simp add: w'_def)
    moreover have "lw_i w' = i" "lw_j w' = j" "lw_idx w' = lcs_len a b i j" "lw_matches w' = lw_matches w"
      "length (lw_result w') = length (lw_result w)" by (simp_all add: w'_def)
    ultimately show ?thesis
      unfolding walk_pre_def res using range full(1,2) len pre idx by (intro conjI exI [of _ full]) (simp_all del: range_ok.simps block.simps)
  qed
  then have "walk_inv a b m n (walk_emit a m (w', i = 0 \<or> j = 0))"
    by (rule walk_emit_inv [OF _ small]) (use len in \<open>auto simp: w'_def\<close>)
  then show ?thesis using run by blast
qed


lemma walk_skip_inv:
  assumes inv: "walk_inv a b m n w" and small: "small_table a b" and pos: "0 < lw_i w" "0 < lw_j w"
    and t: "filled a b ((length a + 1) * (length b + 1)) t" and neq: "a ! (lw_i w - 1) \<noteq> b ! (lw_j w - 1)"
  shows "\<exists>r. walk_skip a b t w = Some r \<and> walk_inv a b m n (walk_emit a m r)"
proof -
  obtain i j where ij: "lw_i w = Suc i" "lw_j w = Suc j" using pos by (metis gr0_implies_Suc)
  note pre = inv [unfolded walk_inv_def walk_pre_def]
  have len: "i < length a" "j < length b" using pre ij by auto
  have "lcs_get (length b) t i (Suc j) = Some (lcs_len a b i (Suc j))" "lcs_get (length b) t (Suc i) j = Some (lcs_len a b (Suc i) j)"
    using filled_get [OF small t, of i "Suc j"] filled_get [OF small t, of "Suc i" j]
      cell_bound [of i a "Suc j" b] cell_bound [of "Suc i" a j b] len by simp_all
  moreover define w' where "w' = (if lcs_len a b i (Suc j) > lcs_len a b (Suc i) j then w\<lparr>lw_i := i\<rparr> else w\<lparr>lw_j := j\<rparr>)"
  ultimately have run: "walk_skip a b t w = Some (w', lw_as w' \<noteq> length a)"
    using small_lengths(1,2) [OF small] by (simp add: walk_skip_def ij)
  have sel: "lw_idx w' = lw_idx w" "lw_result w' = lw_result w" "lw_as w' = lw_as w" "lw_ae w' = lw_ae w"
      "lw_bs w' = lw_bs w" "lw_be w' = lw_be w" "lw_matches w' = lw_matches w"
    by (simp_all add: w'_def)
  have "lw_idx w = max (lcs_len a b i (Suc j)) (lcs_len a b (Suc i) j)" using pre ij neq by simp
  then have ij': "lw_i w' \<le> length a" "lw_j w' \<le> length b" "lw_idx w = lcs_len a b (lw_i w') (lw_j w')"
    using len ij by (auto simp: w'_def)
  have d: "drop i a = a ! i # drop (lw_i w) a" "drop j b = b ! j # drop (lw_j w) b"
    using Cons_nth_drop_Suc [OF len(1)] Cons_nth_drop_Suc [OF len(2)] ij by simp_all
  have "subseq xs (drop (lw_i w') a)" if "subseq xs (drop (lw_i w) a)" for xs
    using that d(1) by (auto simp: w'_def ij)
  moreover have "subseq xs (drop (lw_j w') b)" if "subseq xs (drop (lw_j w) b)" for xs
    using that d(2) by (auto simp: w'_def ij)
  ultimately have "walk_pre a b m n w'"
    unfolding walk_pre_def sel by (intro conjI) (use pre ij' in blast)+
  then have "walk_inv a b m n (walk_emit a m (w', lw_as w' \<noteq> length a))"
    by (rule walk_emit_inv [OF _ small]) simp_all
  then show ?thesis using run by blast
qed

lemma walk_loop_ok:
  assumes small: "small_table a b" and t: "filled a b ((length a + 1) * (length b + 1)) t"
  shows "walk_inv a b m n w \<Longrightarrow> \<exists>w'. walk_loop a b t m w = Some w' \<and> walk_inv a b m n w' \<and> (lw_i w' = 0 \<or> lw_j w' = 0)"
proof (induction "lw_i w + lw_j w" arbitrary: w rule: less_induct)
  case less
  show ?case
  proof (cases "0 < lw_i w \<and> 0 < lw_j w")
    case True
    have "\<exists>r. (if a ! (lw_i w - 1) = b ! (lw_j w - 1) then walk_match a b w else walk_skip a b t w) = Some r \<and>
        walk_inv a b m n (walk_emit a m r)"
      using walk_match_inv [OF less.prems small] walk_skip_inv [OF less.prems small _ _ t] True by auto
    then obtain w' where w': "walk_step a b t m w = Some w'" "walk_inv a b m n w'" by (auto simp: walk_step_def)
    have "lw_i w' + lw_j w' < lw_i w + lw_j w" using walk_step_decreases [OF w'(1)] True by simp
    then show ?thesis using less.hyps w' True by (simp add: walk_loop.simps [of a b t m w])
  next
    case False
    then show ?thesis using less.prems by (subst walk_loop.simps) auto
  qed
qed


section \<open>Properties\<close>

text \<open>
  C20: For strings whose table has fewer than \<open>2 ^ 32\<close> cells the computation stays inside its arrays and
  ends; it returns the greatest length of a common subsequence, a common subsequence of that
  length, and the ranges of at least the requested length among pairs of equal parts of the
  strings that make it up, last one first.\<close>

theorem lcs_correct:
  assumes "(length a + 1) * (length b + 1) < 4294967296"
  shows "\<exists>idx w full. lcs_compute fresh noinit True minmatchlen a b = Some (idx, w) \<and>
    subseq (lw_result w) a \<and> subseq (lw_result w) b \<and> length (lw_result w) = idx \<and>
    (\<forall>xs. subseq xs a \<longrightarrow> subseq xs b \<longrightarrow> length xs \<le> idx) \<and>
    lw_matches w = filter (long_enough minmatchlen) full \<and> (\<forall>r \<in> set full. range_ok a b r) \<and>
    lw_result w = concat (map (block a) (rev full))"
proof -
  have small: "small_table a b" using assms by (simp add: small_table_def)
  obtain t where t: "lcs_table fresh a b = Some t" "filled a b ((length a + 1) * (length b + 1)) t"
    using lcs_table_ok [OF small] by blast
  let ?n = "lcs_len a b (length a) (length b)"
  have get: "lcs_get (length b) t (length a) (length b) = Some ?n"
    using filled_get [OF small t(2), of "length a" "length b"] by simp
  let ?w = "\<lparr>lw_i = length a, lw_j = length b, lw_idx = ?n, lw_result = map noinit [0..<?n],
    lw_as = length a, lw_ae = 0, lw_bs = 0, lw_be = 0, lw_matches = []\<rparr>"
  have "walk_inv a b minmatchlen ?n ?w"
    by (simp add: walk_inv_def walk_pre_def) (rule exI [of _ "[]"], simp)
  then obtain w where w: "walk_loop a b t minmatchlen ?w = Some w" "walk_inv a b minmatchlen ?n w" "lw_i w = 0 \<or> lw_j w = 0"
    using walk_loop_ok [OF small t(2)] by blast
  note pre = w(2) [unfolded walk_inv_def walk_pre_def]
  have "lw_idx w = 0" using pre w(3) by auto
  moreover have "lw_as w = length a" using pre w(3) by auto
  ultimately obtain full where full: "lw_matches w = filter (long_enough minmatchlen) full" "\<forall>r \<in> set full. range_ok a b r"
      "lw_result w = concat (map (block a) (rev full))"
    using pre by auto
  have "subseq (lw_result w) (drop (lw_i w) a)" "subseq (lw_result w) (drop (lw_j w) b)"
    using pre \<open>lw_idx w = 0\<close> by simp_all
  then have "subseq (lw_result w) a" "subseq (lw_result w) b"
    by (metis append_take_drop_id subseq_drop_many)+
  moreover have "lcs_compute fresh noinit True minmatchlen a b = Some (?n, w)"
    using t(1) get w(1) small_lengths(1,2) [OF small] by (simp add: lcs_compute_def)
  moreover have "length xs \<le> ?n" if "subseq xs a" "subseq xs b" for xs
    using lcs_len_optimal [of "length a" a "length b" b xs] that by simp
  moreover have "length (lw_result w) = ?n" using pre by simp
  ultimately show ?thesis using full by blast
qed

theorem lcs_correct_witness:
  "\<exists>idx w. lcs_compute (\<lambda>_. 7) (\<lambda>_. 0) True 0 [1, 2, 3] [2, 9, 3] = Some (idx, w) \<and> length [2, 3 :: byte] \<le> idx \<and>
    subseq (lw_result w) [1, 2, 3] \<and> subseq (lw_result w) [2, 9, 3]"
  using lcs_correct [of "[1, 2, 3]" "[2, 9, 3]" "\<lambda>_. 7" "\<lambda>_. 0" 0] by auto


text \<open>
  C21: The number of cells is computed in 32 bits: two strings of 65535 bytes, far below the limit
  for strings, get a table of no cells, and the first one is written outside it.\<close>

theorem lcs_overflow:
  assumes "length a = 65535" and "length b = 65535"
  shows "lcs_compute fresh noinit computelcs minmatchlen a b = None"
proof -
  have first: "lcs_cells a b [(i, j). i \<leftarrow> [0..<r], j \<leftarrow> [0..<n]] [] = None" if "0 < r" "0 < n" for r n
  proof -
    have "[0..<r * n] = 0 # [1..<r * n]" using that by (simp add: upt_conv_Cons)
    then show ?thesis by (simp add: cells_in_order lcs_cell_def lcs_put_def)
  qed
  have "lcs_table fresh a b = None"
    unfolding lcs_table_def Let_def
    using first [of "length a mod 4294967296 + 1" "length b mod 4294967296 + 1"] assms by (simp del: upt.simps upt_Suc upt_rec_numeral)
  then show ?thesis by (simp add: lcs_compute_def)
qed

theorem lcs_overflow_witness:
  "lcs_compute (\<lambda>_. 0) (\<lambda>_. 0) True 0 (replicate 65535 97) (replicate 65535 98) = None"
  by (rule lcs_overflow) simp_all

end
