(* ===== verification/String_Commands.thy ===== *)
theory String_Commands
  imports Rdb_Object Keyspace Lcs
begin

text \<open>
  The commands on strings, \<open>src/redis-6.2.0/src/t_string.c\<close>, on a keyspace whose values are string
  and set objects.  Arguments of commands are the texts of string objects; a value is encoded
  when it is stored, and decoded when it is read or changed.  \<open>INCRBYFLOAT\<close> is left out: it computes
  with \<open>long double\<close>.  \<open>None\<close> is a failed assertion or allocation, or an access outside an object.
\<close>

section \<open>Model: string values\<close>

text \<open>
  \<open>st_shared_ok\<close> says whether the eviction policy lets integers be shared, \<open>st_alloc\<close> whether an
  allocation of so many bytes succeeds (the server aborts otherwise), \<open>st_fresh\<close> what fresh memory holds.
\<close>

record string_env =
  st_shared_ok :: bool
  st_max_bulk_len :: int
  st_alloc :: "nat \<Rightarrow> bool"
  st_fresh :: "nat \<Rightarrow> nat"

type_synonym vserver = "rdb_value server"

definition not_string :: "rdb_value option \<Rightarrow> bool" where
  "not_string o' = (case o' of Some (VSet _) \<Rightarrow> True | _ \<Rightarrow> False)"

definition checkStringLength :: "string_env \<Rightarrow> client \<Rightarrow> int \<Rightarrow> vserver \<Rightarrow> vserver \<times> bool" where
  "checkStringLength env c len s =
     (if \<not> c_is_master c \<and> len > st_max_bulk_len env
      then (addReply (ReplyError ''string exceeds maximum allowed size (proto-max-bulk-len)'') s, False)
      else (s, True))"

definition stringObjectLen :: "strobj \<Rightarrow> nat" where
  "stringObjectLen o' =
     (case o' of STR_RAW s \<Rightarrow> length s | STR_EMBSTR s \<Rightarrow> length s | STR_INT v \<Rightarrow> sdigits10 v | STR_SHARED v \<Rightarrow> sdigits10 v)"

definition reply_long :: "int \<Rightarrow> byte list option" where
  "reply_long v = do { (buf, len) \<leftarrow> ll2string (replicate 32 0) 32 v; mem_read buf 0 len }"

definition addReplyBulk :: "strobj \<Rightarrow> vserver \<Rightarrow> vserver option" where
  "addReplyBulk o' s = do {
     t \<leftarrow> (case o' of STR_RAW t \<Rightarrow> Some t | STR_EMBSTR t \<Rightarrow> Some t | STR_INT v \<Rightarrow> reply_long v | STR_SHARED v \<Rightarrow> reply_long v);
     Some (addReply (ReplyBulk t) s)
   }"

definition getLongLongFromObject :: "strobj option \<Rightarrow> int option" where
  "getLongLongFromObject o' =
     (case o' of
        None \<Rightarrow> Some 0
      | Some (STR_RAW s) \<Rightarrow> string2ll s
      | Some (STR_EMBSTR s) \<Rightarrow> string2ll s
      | Some (STR_INT v) \<Rightarrow> Some v
      | Some (STR_SHARED v) \<Rightarrow> Some v)"

text \<open>Shared objects and all but raw strings are copied before a change.\<close>

definition dbUnshareStringValue :: "key \<Rightarrow> strobj \<Rightarrow> vserver \<Rightarrow> (vserver \<times> byte list) option" where
  "dbUnshareStringValue key o' s =
     (case o' of
        STR_RAW t \<Rightarrow> Some (s, t)
      | _ \<Rightarrow> do {
          decoded \<leftarrow> getDecodedObject o';
          let t = obj_sds decoded;
          s \<leftarrow> dbOverwrite key (VString (createRawStringObject t)) s;
          Some (s, t)
        })"

definition put_string :: "key \<Rightarrow> byte list \<Rightarrow> vserver \<Rightarrow> vserver" where
  "put_string key t s = s\<lparr>db_dict := (db_dict s)(key \<mapsto> VString (STR_RAW t))\<rparr>"

text \<open>The object of an argument, encoded for storing.\<close>

definition arg_value :: "string_env \<Rightarrow> byte list \<Rightarrow> rdb_value" where
  "arg_value env arg = VString (tryObjectEncoding (st_shared_ok env) 1 (createStringObject arg))"

section \<open>Model: options of SET and GETEX\<close>

record set_opts =
  so_nx :: bool
  so_xx :: bool
  so_get :: bool
  so_keepttl :: bool
  so_persist :: bool
  so_ex :: bool
  so_px :: bool
  so_exat :: bool
  so_pxat :: bool
  so_unit :: expire_unit
  so_expire :: "byte list option"

definition no_opts :: set_opts where
  "no_opts = \<lparr>so_nx = False, so_xx = False, so_get = False, so_keepttl = False, so_persist = False, so_ex = False,
     so_px = False, so_exat = False, so_pxat = False, so_unit = UNIT_SECONDS, so_expire = None\<rparr>"

text \<open>
  One option, and whether it takes the argument behind it; \<open>None\<close> is a syntax error.  \<open>is_set\<close> tells
  \<open>SET\<close> from \<open>GETEX\<close>.
\<close>

definition no_time :: "set_opts \<Rightarrow> bool" where
  "no_time f \<longleftrightarrow> \<not> so_ex f \<and> \<not> so_exat f \<and> \<not> so_px f \<and> \<not> so_pxat f"

definition parse_option :: "bool \<Rightarrow> byte list \<Rightarrow> byte list list \<Rightarrow> set_opts \<Rightarrow> (set_opts \<times> bool) option" where
  "parse_option is_set opt rest f =
     (if case_equal opt ''nx'' \<and> \<not> so_xx f \<and> \<not> so_get f \<and> is_set then Some (f\<lparr>so_nx := True\<rparr>, False)
      else if case_equal opt ''xx'' \<and> \<not> so_nx f \<and> is_set then Some (f\<lparr>so_xx := True\<rparr>, False)
      else if case_equal opt ''get'' \<and> \<not> so_nx f \<and> is_set then Some (f\<lparr>so_get := True\<rparr>, False)
      else if case_equal opt ''keepttl'' \<and> \<not> so_persist f \<and> no_time f \<and> is_set then Some (f\<lparr>so_keepttl := True\<rparr>, False)
      else if case_equal opt ''persist'' \<and> \<not> is_set \<and> no_time f \<and> \<not> so_keepttl f then Some (f\<lparr>so_persist := True\<rparr>, False)
      else if case_equal opt ''ex'' \<and> \<not> so_keepttl f \<and> \<not> so_persist f \<and> \<not> so_exat f \<and> \<not> so_px f \<and> \<not> so_pxat f \<and> rest \<noteq> []
      then Some (f\<lparr>so_ex := True, so_expire := Some (hd rest)\<rparr>, True)
      else if case_equal opt ''px'' \<and> \<not> so_keepttl f \<and> \<not> so_persist f \<and> \<not> so_ex f \<and> \<not> so_exat f \<and> \<not> so_pxat f \<and> rest \<noteq> []
      then Some (f\<lparr>so_px := True, so_unit := UNIT_MILLISECONDS, so_expire := Some (hd rest)\<rparr>, True)
      else if case_equal opt ''exat'' \<and> \<not> so_keepttl f \<and> \<not> so_persist f \<and> \<not> so_ex f \<and> \<not> so_px f \<and> \<not> so_pxat f \<and> rest \<noteq> []
      then Some (f\<lparr>so_exat := True, so_expire := Some (hd rest)\<rparr>, True)
      else if case_equal opt ''pxat'' \<and> \<not> so_keepttl f \<and> \<not> so_persist f \<and> \<not> so_ex f \<and> \<not> so_exat f \<and> \<not> so_px f \<and> rest \<noteq> []
      then Some (f\<lparr>so_pxat := True, so_unit := UNIT_MILLISECONDS, so_expire := Some (hd rest)\<rparr>, True)
      else None)"

fun parseExtendedStringArguments :: "bool \<Rightarrow> byte list list \<Rightarrow> set_opts \<Rightarrow> set_opts option" where
  "parseExtendedStringArguments is_set [] f = Some f"
| "parseExtendedStringArguments is_set (opt # rest) f =
     (case parse_option is_set opt rest f of
        None \<Rightarrow> None
      | Some (f, takes) \<Rightarrow> parseExtendedStringArguments is_set (if takes then tl rest else rest) f)"

text \<open>
  The deadline of \<open>SET\<close> and \<open>GETEX\<close>: the milliseconds asked for and the time they stand for, \<open>Some None\<close>
  without the option, \<open>None\<close> when an error was sent.
\<close>

definition invalid_expire :: "string \<Rightarrow> reply" where
  "invalid_expire cmd = ReplyError (''invalid expire time in '' @ cmd)"

definition expire_option :: "config \<Rightarrow> string \<Rightarrow> set_opts \<Rightarrow> vserver \<Rightarrow> vserver \<times> (int \<times> int) option option" where
  "expire_option cfg cmd f s =
     (case so_expire f of
        None \<Rightarrow> (s, Some None)
      | Some arg \<Rightarrow>
          (case getLongLongFromObjectOrReply arg s of
             (s, None) \<Rightarrow> (s, None)
           | (s, Some milliseconds) \<Rightarrow>
               if milliseconds \<le> 0 \<or> so_unit f = UNIT_SECONDS \<and> milliseconds > 9223372036854775807 div 1000
               then (addReply (invalid_expire cmd) s, None)
               else let milliseconds = (if so_unit f = UNIT_SECONDS then milliseconds * 1000 else milliseconds);
                        when = (if so_px f \<or> so_ex f then wrap64 (milliseconds + sv_clock cfg) else milliseconds)
                    in if when \<le> 0 then (addReply (invalid_expire cmd) s, None)
                       else (s, Some (Some (milliseconds, when)))))"

section \<open>Model: GET and SET\<close>

text \<open>\<open>False\<close> when the type is wrong.\<close>

definition getGenericCommand :: "config \<Rightarrow> key \<Rightarrow> vserver \<Rightarrow> (vserver \<times> bool) option" where
  "getGenericCommand cfg key s = do {
     (s, o') \<leftarrow> lookupKeyReadOrReply cfg key ReplyNull s;
     (case o' of
        None \<Rightarrow> Some (s, True)
      | Some (VSet _) \<Rightarrow> Some (addReply wrongtypeerr s, False)
      | Some (VString v) \<Rightarrow> do { s \<leftarrow> addReplyBulk v s; Some (s, True) })
   }"

definition getCommand :: "config \<Rightarrow> key \<Rightarrow> vserver \<Rightarrow> vserver option" where
  "getCommand cfg key s = map_option fst (getGenericCommand cfg key s)"

text \<open>Whether \<open>NX\<close> or \<open>XX\<close> forbids the command.\<close>

definition set_forbidden :: "config \<Rightarrow> set_opts \<Rightarrow> key \<Rightarrow> vserver \<Rightarrow> (vserver \<times> bool) option" where
  "set_forbidden cfg f key s = do {
     (s, a) \<leftarrow> (if so_nx f then do { (s, v) \<leftarrow> lookupKeyWrite cfg key s; Some (s, v \<noteq> None) } else Some (s, False));
     if a then Some (s, True)
     else if so_xx f then do { (s, v) \<leftarrow> lookupKeyWrite cfg key s; Some (s, v = None) }
     else Some (s, False)
   }"

text \<open>
  Storing the value, after the options were checked.  \<open>args\<close> are the options as they were given: \<open>SET\<close>
  with \<open>GET\<close> is propagated without that option.
\<close>

definition set_finish :: "string_env \<Rightarrow> config \<Rightarrow> client \<Rightarrow> string \<Rightarrow> set_opts \<Rightarrow> key \<Rightarrow> byte list \<Rightarrow> byte list list \<Rightarrow> reply
    \<Rightarrow> (int \<times> int) option \<Rightarrow> vserver \<Rightarrow> vserver option" where
  "set_finish env cfg c cmd f key val args ok_reply expire s = do {
     s \<leftarrow> genericSetKey cfg key (arg_value env val) (so_keepttl f) True s;
     let s = notifyKeyspaceEvent NOTIFY_STRING ''set'' key (add_dirty 1 s);
     s \<leftarrow> (case expire of
             None \<Rightarrow> Some s
           | Some (milliseconds, when) \<Rightarrow> do {
               s \<leftarrow> setExpire cfg (Some c) key when s;
               let s = notifyKeyspaceEvent NOTIFY_GENERIC ''expire'' key s;
               let exp = (if so_pxat f \<or> so_exat f then ''PXAT'' else ''PX'');
               Some (emit (EvRewrite ''SET'' [key, val, map of_char exp, dec_int milliseconds]) s)
             });
     let s = (if \<not> so_get f then addReply ok_reply s else s);
     Some (if so_get f \<and> expire = None
           then emit (EvRewrite cmd (key # val # filter (\<lambda>a. \<not> case_equal a ''get'') args)) s
           else s)
   }"

definition setGenericCommand ::
  "string_env \<Rightarrow> config \<Rightarrow> client \<Rightarrow> string \<Rightarrow> set_opts \<Rightarrow> key \<Rightarrow> byte list \<Rightarrow> byte list list \<Rightarrow> reply \<Rightarrow> reply \<Rightarrow> vserver
   \<Rightarrow> vserver option" where
  "setGenericCommand env cfg c cmd f key val args ok_reply abort_reply s =
     (case expire_option cfg cmd f s of
        (s, None) \<Rightarrow> Some s
      | (s, Some expire) \<Rightarrow> do {
          (s, forbidden) \<leftarrow> set_forbidden cfg f key s;
          if forbidden then Some (addReply abort_reply s)
          else do {
            (s, ok) \<leftarrow> (if so_get f then getGenericCommand cfg key s else Some (s, True));
            if \<not> ok then Some s else set_finish env cfg c cmd f key val args ok_reply expire s
          }
        })"

definition syntaxerr :: reply where
  "syntaxerr = ReplyError ''syntax error''"

definition setCommand :: "string_env \<Rightarrow> config \<Rightarrow> client \<Rightarrow> key \<Rightarrow> byte list \<Rightarrow> byte list list \<Rightarrow> vserver \<Rightarrow> vserver option" where
  "setCommand env cfg c key val args s =
     (case parseExtendedStringArguments True args no_opts of
        None \<Rightarrow> Some (addReply syntaxerr s)
      | Some f \<Rightarrow> setGenericCommand env cfg c ''set'' f key val args ReplyOk ReplyNull s)"

definition setnxCommand :: "string_env \<Rightarrow> config \<Rightarrow> client \<Rightarrow> key \<Rightarrow> byte list \<Rightarrow> vserver \<Rightarrow> vserver option" where
  "setnxCommand env cfg c key val s =
     setGenericCommand env cfg c ''setnx'' (no_opts\<lparr>so_nx := True\<rparr>) key val [] (ReplyInt 1) (ReplyInt 0) s"

definition setexCommand :: "string_env \<Rightarrow> config \<Rightarrow> client \<Rightarrow> key \<Rightarrow> byte list \<Rightarrow> byte list \<Rightarrow> vserver \<Rightarrow> vserver option" where
  "setexCommand env cfg c key seconds val s =
     setGenericCommand env cfg c ''setex'' (no_opts\<lparr>so_ex := True, so_expire := Some seconds\<rparr>) key val [] ReplyOk ReplyNull s"

definition psetexCommand :: "string_env \<Rightarrow> config \<Rightarrow> client \<Rightarrow> key \<Rightarrow> byte list \<Rightarrow> byte list \<Rightarrow> vserver \<Rightarrow> vserver option" where
  "psetexCommand env cfg c key milliseconds val s =
     setGenericCommand env cfg c ''psetex''
       (no_opts\<lparr>so_px := True, so_unit := UNIT_MILLISECONDS, so_expire := Some milliseconds\<rparr>) key val [] ReplyOk ReplyNull s"

text \<open>What \<open>GETEX\<close> does to the deadline, or to the key when the deadline has passed.\<close>

definition getex_deadline :: "config \<Rightarrow> client \<Rightarrow> key \<Rightarrow> set_opts \<Rightarrow> (int \<times> int) option \<Rightarrow> vserver \<Rightarrow> vserver option" where
  "getex_deadline cfg c key f expire s =
     (let milliseconds = (case expire of None \<Rightarrow> 0 | Some (ms, _) \<Rightarrow> ms) in
      if (so_pxat f \<or> so_exat f) \<and> checkAlreadyExpired cfg milliseconds then do {
        let (s, deleted) = (if sv_lazy_expire cfg then dbAsyncDelete key s else dbSyncDelete key s);
        require deleted;
        let s = signalModifiedKey key (emit (EvRewriteDel (sv_lazy_expire cfg) key) s);
        Some (add_dirty 1 (notifyKeyspaceEvent NOTIFY_GENERIC ''del'' key s))
      }
      else (case expire of
        Some (ms, when) \<Rightarrow> do {
          s \<leftarrow> setExpire cfg (Some c) key when s;
          let exp = (if so_pxat f \<or> so_exat f then ''PEXPIREAT'' else ''PEXPIRE'');
          let s = signalModifiedKey key (emit (EvRewrite exp [key, dec_int ms]) s);
          Some (add_dirty 1 (notifyKeyspaceEvent NOTIFY_GENERIC ''expire'' key s))
        }
      | None \<Rightarrow>
          if so_persist f then do {
            (s, removed) \<leftarrow> removeExpire key s;
            Some (if removed then
                    add_dirty 1 (notifyKeyspaceEvent NOTIFY_GENERIC ''persist'' key
                      (emit (EvRewrite ''PERSIST'' [key]) (signalModifiedKey key s)))
                  else s)
          }
          else Some s))"

definition getexCommand :: "config \<Rightarrow> client \<Rightarrow> key \<Rightarrow> byte list list \<Rightarrow> vserver \<Rightarrow> vserver option" where
  "getexCommand cfg c key args s =
     (case parseExtendedStringArguments False args no_opts of
        None \<Rightarrow> Some (addReply syntaxerr s)
      | Some f \<Rightarrow> do {
          (s, o') \<leftarrow> lookupKeyReadOrReply cfg key ReplyNull s;
          (case o' of
             None \<Rightarrow> Some s
           | Some (VSet _) \<Rightarrow> Some (addReply wrongtypeerr s)
           | Some (VString v) \<Rightarrow>
               (case expire_option cfg ''getex'' f s of
                  (s, None) \<Rightarrow> Some s
                | (s, Some expire) \<Rightarrow> do {
                    s \<leftarrow> addReplyBulk v s;
                    getex_deadline cfg c key f expire s
                  }))
        })"

definition getdelCommand :: "config \<Rightarrow> key \<Rightarrow> vserver \<Rightarrow> vserver option" where
  "getdelCommand cfg key s = do {
     (s, ok) \<leftarrow> getGenericCommand cfg key s;
     if \<not> ok then Some s
     else do {
       let (s, deleted) = (if sv_lazy_user_del cfg then dbAsyncDelete key s else dbSyncDelete key s);
       Some (if deleted then
               add_dirty 1 (notifyKeyspaceEvent NOTIFY_GENERIC ''del'' key
                 (signalModifiedKey key (emit (EvRewriteDel (sv_lazy_user_del cfg) key) s)))
             else s)
     }
   }"

definition getsetCommand :: "string_env \<Rightarrow> config \<Rightarrow> key \<Rightarrow> byte list \<Rightarrow> vserver \<Rightarrow> vserver option" where
  "getsetCommand env cfg key val s = do {
     (s, ok) \<leftarrow> getGenericCommand cfg key s;
     if \<not> ok then Some s
     else do {
       s \<leftarrow> setKey cfg key (arg_value env val) s;
       let s = add_dirty 1 (notifyKeyspaceEvent NOTIFY_STRING ''set'' key s);
       Some (emit (EvRewrite ''SET'' [key, val]) s)
     }
   }"


section \<open>Model: ranges\<close>

definition getLongFromObjectOrReply :: "byte list \<Rightarrow> vserver \<Rightarrow> vserver \<times> int option" where
  "getLongFromObjectOrReply o' s =
     (case getLongLongFromObjectOrReply o' s of
        (s, None) \<Rightarrow> (s, None)
      | (s, Some v) \<Rightarrow>
          if v < INT64_MIN \<or> v > INT64_MAX then (addReply (ReplyError ''value is out of range'') s, None) else (s, Some v))"

text \<open>\<open>sdsgrowzero\<close> and \<open>memcpy\<close>; an allocation that fails aborts the server.\<close>

definition write_range :: "string_env \<Rightarrow> byte list \<Rightarrow> nat \<Rightarrow> byte list \<Rightarrow> byte list option" where
  "write_range env t offset value = do {
     let total = offset + length value;
     require (total \<le> length t \<or> st_alloc env total);
     mem_write (t @ replicate (total - length t) 0) offset value
   }"

definition setrange_store :: "string_env \<Rightarrow> key \<Rightarrow> nat \<Rightarrow> byte list \<Rightarrow> vserver \<Rightarrow> byte list \<Rightarrow> vserver option" where
  "setrange_store env key offset value s t = do {
     t \<leftarrow> write_range env t offset value;
     let s = signalModifiedKey key (put_string key t s);
     let s = add_dirty 1 (notifyKeyspaceEvent NOTIFY_STRING ''setrange'' key s);
     Some (addReply (ReplyInt (int (length t))) s)
   }"

definition setrangeCommand :: "string_env \<Rightarrow> config \<Rightarrow> client \<Rightarrow> key \<Rightarrow> byte list \<Rightarrow> byte list \<Rightarrow> vserver \<Rightarrow> vserver option" where
  "setrangeCommand env cfg c key offset_arg value s =
     (case getLongFromObjectOrReply offset_arg s of
        (s, None) \<Rightarrow> Some s
      | (s, Some offset) \<Rightarrow>
          if offset < 0 then Some (addReply (ReplyError ''offset is out of range'') s)
          else do {
            let total = offset + int (length value);
            (s, o') \<leftarrow> lookupKeyWrite cfg key s;
            (case o' of
               None \<Rightarrow>
                 if length value = 0 then Some (addReply (ReplyInt 0) s)
                 else (case checkStringLength env c (wrap64 total) s of
                   (s, False) \<Rightarrow> Some s
                 | (s, True) \<Rightarrow> do {
                     require (st_alloc env (nat total));
                     let t = replicate (nat total) 0;
                     s \<leftarrow> dbAdd key (VString (STR_RAW t)) s;
                     setrange_store env key (nat offset) value s t
                   })
             | Some (VSet _) \<Rightarrow> Some (addReply wrongtypeerr s)
             | Some (VString v) \<Rightarrow>
                 if length value = 0 then Some (addReply (ReplyInt (int (stringObjectLen v))) s)
                 else (case checkStringLength env c (wrap64 total) s of
                   (s, False) \<Rightarrow> Some s
                 | (s, True) \<Rightarrow> do {
                     (s, t) \<leftarrow> dbUnshareStringValue key v s;
                     setrange_store env key (nat offset) value s t
                   }))
          })"

text \<open>
  The part of a string that \<open>GETRANGE\<close> replies: negative positions count from the end.  A negative
  position and a length cannot overflow; for an empty string the last position becomes -1.
\<close>

definition substring_range :: "int \<Rightarrow> int \<Rightarrow> int \<Rightarrow> (int \<times> int) option" where
  "substring_range strlen start end' =
     (if start < 0 \<and> end' < 0 \<and> start > end' then None
      else let start = (if start < 0 then strlen + start else start);
               end' = (if end' < 0 then strlen + end' else end');
               start = (if start < 0 then 0 else start);
               end' = (if end' < 0 then 0 else end');
               end' = (if end' \<ge> strlen then strlen - 1 else end')
           in if start > end' \<or> strlen = 0 then None else Some (start, end'))"

definition getrangeCommand :: "config \<Rightarrow> key \<Rightarrow> byte list \<Rightarrow> byte list \<Rightarrow> vserver \<Rightarrow> vserver option" where
  "getrangeCommand cfg key start_arg end_arg s =
     (case getLongLongFromObjectOrReply start_arg s of
        (s, None) \<Rightarrow> Some s
      | (s, Some start) \<Rightarrow>
          (case getLongLongFromObjectOrReply end_arg s of
             (s, None) \<Rightarrow> Some s
           | (s, Some end') \<Rightarrow> do {
               (s, o') \<leftarrow> lookupKeyReadOrReply cfg key (ReplyBulk []) s;
               (case o' of
                  None \<Rightarrow> Some s
                | Some (VSet _) \<Rightarrow> Some (addReply wrongtypeerr s)
                | Some (VString v) \<Rightarrow> do {
                    str \<leftarrow> (case v of STR_RAW t \<Rightarrow> Some t | STR_EMBSTR t \<Rightarrow> Some t | STR_INT n \<Rightarrow> reply_long n | STR_SHARED n \<Rightarrow> reply_long n);
                    (case substring_range (int (length str)) start end' of
                       None \<Rightarrow> Some (addReply (ReplyBulk []) s)
                     | Some (start, end') \<Rightarrow> do {
                         t \<leftarrow> mem_read str (nat start) (nat (end' - start + 1));
                         Some (addReply (ReplyBulk t) s)
                       })
                  })
             }))"

section \<open>Model: several keys\<close>

fun mget_loop :: "config \<Rightarrow> key list \<Rightarrow> vserver \<Rightarrow> vserver option" where
  "mget_loop cfg [] s = Some s"
| "mget_loop cfg (key # keys) s = do {
     (s, o') \<leftarrow> lookupKeyRead cfg key s;
     s \<leftarrow> (case o' of
             None \<Rightarrow> Some (addReply ReplyNull s)
           | Some (VSet _) \<Rightarrow> Some (addReply ReplyNull s)
           | Some (VString v) \<Rightarrow> addReplyBulk v s);
     mget_loop cfg keys s
   }"

definition mgetCommand :: "config \<Rightarrow> key list \<Rightarrow> vserver \<Rightarrow> vserver option" where
  "mgetCommand cfg keys s = mget_loop cfg keys (addReply (ReplyArrayLen (int (length keys))) s)"

text \<open>The arguments are keys and values in turn.\<close>

fun mset_exists :: "config \<Rightarrow> byte list list \<Rightarrow> vserver \<Rightarrow> (vserver \<times> bool) option" where
  "mset_exists cfg (key # val # args) s = do {
     (s, o') \<leftarrow> lookupKeyWrite cfg key s;
     if o' \<noteq> None then Some (s, True) else mset_exists cfg args s
   }"
| "mset_exists cfg _ s = Some (s, False)"

fun mset_loop :: "string_env \<Rightarrow> config \<Rightarrow> byte list list \<Rightarrow> vserver \<Rightarrow> vserver option" where
  "mset_loop env cfg (key # val # args) s = do {
     s \<leftarrow> setKey cfg key (arg_value env val) s;
     mset_loop env cfg args (notifyKeyspaceEvent NOTIFY_STRING ''set'' key s)
   }"
| "mset_loop env cfg _ s = Some s"

definition msetGenericCommand :: "string_env \<Rightarrow> config \<Rightarrow> bool \<Rightarrow> byte list list \<Rightarrow> vserver \<Rightarrow> vserver option" where
  "msetGenericCommand env cfg nx args s =
     (if odd (length args) then Some (addReply (ReplyError ''wrong number of arguments for MSET'') s)
      else do {
        (s, exists) \<leftarrow> (if nx then mset_exists cfg args s else Some (s, False));
        if exists then Some (addReply (ReplyInt 0) s)
        else do {
          s \<leftarrow> mset_loop env cfg args s;
          Some (addReply (if nx then ReplyInt 1 else ReplyOk) (add_dirty (int (length args div 2)) s))
        }
      })"

definition msetCommand :: "string_env \<Rightarrow> config \<Rightarrow> byte list list \<Rightarrow> vserver \<Rightarrow> vserver option" where
  "msetCommand env cfg args s = msetGenericCommand env cfg False args s"

definition msetnxCommand :: "string_env \<Rightarrow> config \<Rightarrow> byte list list \<Rightarrow> vserver \<Rightarrow> vserver option" where
  "msetnxCommand env cfg args s = msetGenericCommand env cfg True args s"


section \<open>Model: numbers\<close>

definition incr_overflows :: "int \<Rightarrow> int \<Rightarrow> bool" where
  "incr_overflows incr oldvalue \<longleftrightarrow>
     incr < 0 \<and> oldvalue < 0 \<and> incr < INT64_MIN - oldvalue \<or> incr > 0 \<and> oldvalue > 0 \<and> incr > INT64_MAX - oldvalue"

definition incrDecrCommand :: "string_env \<Rightarrow> config \<Rightarrow> key \<Rightarrow> int \<Rightarrow> vserver \<Rightarrow> vserver option" where
  "incrDecrCommand env cfg key incr s = do {
     (s, o') \<leftarrow> lookupKeyWrite cfg key s;
     if not_string o' then Some (addReply wrongtypeerr s)
     else let o' = (case o' of Some (VString v) \<Rightarrow> Some v | _ \<Rightarrow> None) in
       (case getLongLongFromObject o' of
          None \<Rightarrow> Some (addReply (ReplyError ''value is not an integer or out of range'') s)
        | Some oldvalue \<Rightarrow>
            if incr_overflows incr oldvalue then Some (addReply (ReplyError ''increment or decrement would overflow'') s)
            else do {
              let value = wrap64 (oldvalue + incr);
              s \<leftarrow> (case o' of
                      None \<Rightarrow> dbAdd key (VString (createStringObjectFromLongLongForValue (st_shared_ok env) value)) s
                    | Some v \<Rightarrow>
                        if (case v of STR_INT _ \<Rightarrow> True | _ \<Rightarrow> False) \<and> (value < 0 \<or> value \<ge> OBJ_SHARED_INTEGERS)
                        then Some (s\<lparr>db_dict := (db_dict s)(key \<mapsto> VString (STR_INT value))\<rparr>)
                        else dbOverwrite key (VString (createStringObjectFromLongLongForValue (st_shared_ok env) value)) s);
              let s = notifyKeyspaceEvent NOTIFY_STRING ''incrby'' key (signalModifiedKey key s);
              Some (addReply (ReplyInt value) (add_dirty 1 s))
            })
   }"

definition incrCommand :: "string_env \<Rightarrow> config \<Rightarrow> key \<Rightarrow> vserver \<Rightarrow> vserver option" where
  "incrCommand env cfg key s = incrDecrCommand env cfg key 1 s"

definition decrCommand :: "string_env \<Rightarrow> config \<Rightarrow> key \<Rightarrow> vserver \<Rightarrow> vserver option" where
  "decrCommand env cfg key s = incrDecrCommand env cfg key (-1) s"

definition incrbyCommand :: "string_env \<Rightarrow> config \<Rightarrow> key \<Rightarrow> byte list \<Rightarrow> vserver \<Rightarrow> vserver option" where
  "incrbyCommand env cfg key arg s =
     (case getLongLongFromObjectOrReply arg s of (s, None) \<Rightarrow> Some s | (s, Some incr) \<Rightarrow> incrDecrCommand env cfg key incr s)"

definition decrbyCommand :: "string_env \<Rightarrow> config \<Rightarrow> key \<Rightarrow> byte list \<Rightarrow> vserver \<Rightarrow> vserver option" where
  "decrbyCommand env cfg key arg s =
     (case getLongLongFromObjectOrReply arg s of
        (s, None) \<Rightarrow> Some s | (s, Some incr) \<Rightarrow> incrDecrCommand env cfg key (wrap64 (- incr)) s)"

section \<open>Model: APPEND and STRLEN\<close>

definition appendCommand :: "string_env \<Rightarrow> config \<Rightarrow> client \<Rightarrow> key \<Rightarrow> byte list \<Rightarrow> vserver \<Rightarrow> vserver option" where
  "appendCommand env cfg c key arg s = do {
     (s, o') \<leftarrow> lookupKeyWrite cfg key s;
     let finish = (\<lambda>s totlen.
       addReply (ReplyInt (int totlen)) (add_dirty 1 (notifyKeyspaceEvent NOTIFY_STRING ''append'' key (signalModifiedKey key s))));
     (case o' of
        None \<Rightarrow> do {
          let v = tryObjectEncoding (st_shared_ok env) 1 (createStringObject arg);
          s \<leftarrow> dbAdd key (VString v) s;
          Some (finish s (stringObjectLen v))
        }
      | Some (VSet _) \<Rightarrow> Some (addReply wrongtypeerr s)
      | Some (VString v) \<Rightarrow>
          (case checkStringLength env c (wrap64 (int (stringObjectLen v + length arg))) s of
             (s, False) \<Rightarrow> Some s
           | (s, True) \<Rightarrow> do {
               (s, t) \<leftarrow> dbUnshareStringValue key v s;
               require (st_alloc env (length t + length arg));
               Some (finish (put_string key (t @ arg) s) (length (t @ arg)))
             }))
   }"

definition strlenCommand :: "config \<Rightarrow> key \<Rightarrow> vserver \<Rightarrow> vserver option" where
  "strlenCommand cfg key s = do {
     (s, o') \<leftarrow> lookupKeyReadOrReply cfg key (ReplyInt 0) s;
     Some (case o' of
             None \<Rightarrow> s
           | Some (VSet _) \<Rightarrow> addReply wrongtypeerr s
           | Some (VString v) \<Rightarrow> addReply (ReplyInt (int (stringObjectLen v))) s)
   }"

section \<open>Model: STRALGO LCS\<close>

record lcs_opts =
  lo_len :: bool
  lo_idx :: bool
  lo_withmatchlen :: bool
  lo_minmatchlen :: int
  lo_strings :: "(byte list \<times> byte list) option"

text \<open>The text of an object for the comparison; a missing key is the empty string.\<close>

definition lcs_operand :: "rdb_value option \<Rightarrow> byte list option" where
  "lcs_operand o' =
     (case o' of
        None \<Rightarrow> Some []
      | Some (VSet _) \<Rightarrow> None
      | Some (VString v) \<Rightarrow> map_option obj_sds (getDecodedObject v))"

text \<open>
  One option: the state, the number of further arguments it takes and the options, or \<open>Inl\<close> the
  error sent.  \<open>None\<close> is a crash.
\<close>

definition lcs_option ::
  "config \<Rightarrow> byte list \<Rightarrow> byte list list \<Rightarrow> lcs_opts \<Rightarrow> vserver \<Rightarrow> (vserver \<times> (reply + nat \<times> lcs_opts)) option" where
  "lcs_option cfg opt rest f s =
     (if case_equal opt ''idx'' then Some (s, Inr (0, f\<lparr>lo_idx := True\<rparr>))
      else if case_equal opt ''len'' then Some (s, Inr (0, f\<lparr>lo_len := True\<rparr>))
      else if case_equal opt ''withmatchlen'' then Some (s, Inr (0, f\<lparr>lo_withmatchlen := True\<rparr>))
      else if case_equal opt ''minmatchlen'' \<and> rest \<noteq> [] then
        Some (s, case string2ll (hd rest) of
                   None \<Rightarrow> Inl (ReplyError ''value is not an integer or out of range'')
                 | Some v \<Rightarrow> Inr (1, f\<lparr>lo_minmatchlen := if v < 0 then 0 else v\<rparr>))
      else if case_equal opt ''strings'' \<and> length rest > 1 then
        Some (s, if lo_strings f \<noteq> None then Inl (ReplyError ''Either use STRINGS or KEYS'')
                 else Inr (2, f\<lparr>lo_strings := Some (rest ! 0, rest ! 1)\<rparr>))
      else if case_equal opt ''keys'' \<and> length rest > 1 then
        (if lo_strings f \<noteq> None then Some (s, Inl (ReplyError ''Either use STRINGS or KEYS''))
         else do {
           (s, obja) \<leftarrow> lookupKeyRead cfg (rest ! 0) s;
           (s, objb) \<leftarrow> lookupKeyRead cfg (rest ! 1) s;
           if not_string obja \<or> not_string objb
           then Some (s, Inl (ReplyError ''The specified keys must contain string values''))
           else do {
             a \<leftarrow> lcs_operand obja;
             b \<leftarrow> lcs_operand objb;
             Some (s, Inr (2, f\<lparr>lo_strings := Some (a, b)\<rparr>))
           }
         })
      else Some (s, Inl syntaxerr))"

fun lcs_options ::
  "config \<Rightarrow> byte list list \<Rightarrow> lcs_opts \<Rightarrow> vserver \<Rightarrow> (vserver \<times> (reply + lcs_opts)) option" where
  "lcs_options cfg [] f s = Some (s, Inr f)"
| "lcs_options cfg (opt # rest) f s =
     (case lcs_option cfg opt rest f s of
        None \<Rightarrow> None
      | Some (s, Inl e) \<Rightarrow> Some (s, Inl e)
      | Some (s, Inr (n, f)) \<Rightarrow> lcs_options cfg (drop n rest) f s)"

text \<open>The reply for one range.\<close>

fun range_reply :: "bool \<Rightarrow> nat \<times> nat \<times> nat \<times> nat \<Rightarrow> reply list" where
  "range_reply withmatchlen (as, ae, bs, be) =
     [ReplyArrayLen (if withmatchlen then 3 else 2),
      ReplyArrayLen 2, ReplyInt (int as), ReplyInt (int ae),
      ReplyArrayLen 2, ReplyInt (int bs), ReplyInt (int be)] @
     (if withmatchlen then [ReplyInt ((int ae - int as + 1) mod 4294967296)] else [])"

text \<open>
  The length of the array of ranges is sent when they are counted, in the place reserved for it.
\<close>

definition stralgoLCS :: "string_env \<Rightarrow> config \<Rightarrow> byte list list \<Rightarrow> vserver \<Rightarrow> vserver option" where
  "stralgoLCS env cfg args s =
     (case lcs_options cfg args \<lparr>lo_len = False, lo_idx = False, lo_withmatchlen = False, lo_minmatchlen = 0, lo_strings = None\<rparr> s of
        None \<Rightarrow> None
      | Some (s, Inl e) \<Rightarrow> Some (addReply e s)
      | Some (s, Inr f) \<Rightarrow>
          (case lo_strings f of
             None \<Rightarrow> Some (addReply (ReplyError ''Please specify two strings: STRINGS or KEYS options are mandatory'') s)
           | Some (a, b) \<Rightarrow>
               if lo_len f \<and> lo_idx f
               then Some (addReply (ReplyError ''If you want both the length and indexes, please just use IDX.'') s)
               else do {
                 (idx, w) \<leftarrow> lcs_compute (st_fresh env) (\<lambda>i. word_of_nat (st_fresh env i)) (lo_idx f \<or> \<not> lo_len f) (lo_minmatchlen f) a b;
                 Some (fold addReply
                   (if lo_idx f then
                      [ReplyMapLen 2, ReplyBulk (map of_char ''matches''), ReplyArrayLen (int (length (lw_matches w)))] @
                      concat (map (range_reply (lo_withmatchlen f)) (lw_matches w)) @
                      [ReplyBulk (map of_char ''len''), ReplyInt (int idx)]
                    else if lo_len f then [ReplyInt (int idx)]
                    else [ReplyBulk (lw_result w)]) s)
               }))"

definition stralgoCommand :: "string_env \<Rightarrow> config \<Rightarrow> byte list \<Rightarrow> byte list list \<Rightarrow> vserver \<Rightarrow> vserver option" where
  "stralgoCommand env cfg algo args s =
     (if case_equal algo ''lcs'' then stralgoLCS env cfg args s else Some (addReply syntaxerr s))"


section \<open>String values\<close>

fun value_ok :: "rdb_value \<Rightarrow> bool" where
  "value_ok (VString v) \<longleftrightarrow> str_ok v"
| "value_ok (VSet s) \<longleftrightarrow> True"

lemma reply_long_ok: "int64 v \<Longrightarrow> reply_long v = Some (dec_int v)"
proof -
  assume v: "int64 v"
  have "length (dec_int v) < 32" using dec_int_short [OF v] by simp
  then show ?thesis using ll2string_dec [OF v, of 32 "replicate 32 0"] by (simp add: reply_long_def mem_read_ok)
qed

lemma addReplyBulk_ok [simp]: "str_ok v \<Longrightarrow> addReplyBulk v s = Some (addReply (ReplyBulk (str_text v)) s)"
  by (cases v) (simp_all add: addReplyBulk_def reply_long_ok int64_def)

lemma stringObjectLen_ok [simp]: "str_ok v \<Longrightarrow> stringObjectLen v = length (str_text v)"
  by (cases v) (simp_all add: stringObjectLen_def sdigits10_def digits10_length dec_int_def ll_magnitude_def int64_def)

lemma arg_value_ok: "\<exists>v. arg_value env arg = VString v \<and> str_text v = arg \<and> str_ok v"
  by (simp add: arg_value_def tryObjectEncoding_text)

lemma value_ok_arg [simp]: "value_ok (arg_value env arg)"
  using arg_value_ok [of env arg] by auto

lemma unshare_ok:
  assumes "str_ok v" and "db_dict s key = Some (VString v)"
  shows "\<exists>s'. dbUnshareStringValue key v s = Some (s', str_text v) \<and> (\<forall>t. put_string key t s' = put_string key t s)"
proof (cases "\<exists>t. v = STR_RAW t")
  case True
  then show ?thesis by (auto simp: dbUnshareStringValue_def)
next
  case False
  obtain o'' where "getDecodedObject v = Some o''" "str_text o'' = str_text v" "sdsEncodedObject o''"
    using getDecodedObject_text [OF assms(1)] by blast
  moreover have "obj_sds o'' = str_text o''" if "sdsEncodedObject o''" using that by (cases o'') (simp_all add: sdsEncodedObject_def)
  ultimately show ?thesis
    using False assms(2) by (cases v) (simp_all add: dbUnshareStringValue_def dbOverwrite_def put_string_def Let_def)
qed

lemma put_string_sel [simp]:
  "db_dict (put_string k t s) = (db_dict s)(k \<mapsto> VString (STR_RAW t))" "db_expires (put_string k t s) = db_expires s"
  "s_reply (put_string k t s) = s_reply s" "s_dirty (put_string k t s) = s_dirty s"
  by (simp_all add: put_string_def)

lemma db_inv_put_string [simp]: "db_inv value_ok s \<Longrightarrow> db_inv value_ok (put_string k t s)"
  by (auto simp: db_inv_def)

lemma genericSetKey_ok:
  assumes "db_inv P s"
  shows "\<exists>s'. genericSetKey cfg k v keepttl signal s = Some s' \<and> db_dict s' = (db_dict s)(k \<mapsto> v) \<and>
    db_expires s' = (if keepttl then db_expires (access cfg k s) else (db_expires s)(k := None)) \<and>
    s_reply s' = s_reply s \<and> s_dirty s' = s_dirty s"
proof (cases "db_dict (access cfg k s) k")
  case None
  then show ?thesis
    using assms by (auto simp: genericSetKey_def lookupKeyWrite_ok dbAdd_def removeExpire_def)
next
  case (Some old)
  then have "\<not> (is_expired cfg s k \<and> evicts cfg)" by (auto split: if_splits)
  then show ?thesis
    using Some assms by (auto simp: genericSetKey_def lookupKeyWrite_ok dbOverwrite_def removeExpire_def)
qed


section \<open>Lookups and replies\<close>

text \<open>What \<open>GET\<close> replies for what is visible of a key.\<close>

fun get_reply :: "rdb_value option \<Rightarrow> reply" where
  "get_reply None = ReplyNull"
| "get_reply (Some (VString v)) = ReplyBulk (str_text v)"
| "get_reply (Some (VSet _)) = wrongtypeerr"

lemma visible_value: "db_inv P s \<Longrightarrow> visible cfg s k = Some v \<Longrightarrow> P v \<and> db_dict s k = Some v"
  by (auto simp: visible_def db_inv_def split: if_splits)

lemma lookupKeyReadOrReply_ok:
  assumes "db_inv P s"
  shows "\<exists>s'. lookupKeyReadOrReply cfg k r s = Some (s', visible cfg s k) \<and> db_inv P s' \<and>
    db_dict s' = db_dict (access cfg k s) \<and> db_expires s' = db_expires (access cfg k s) \<and> s_dirty s' = s_dirty s \<and>
    s_reply s' = s_reply s @ (if visible cfg s k = None then [r] else [])"
proof -
  obtain s' where s': "lookupKeyRead cfg k s = Some (s', visible cfg s k)" "db_dict s' = db_dict (access cfg k s)"
      "db_expires s' = db_expires (access cfg k s)" "s_reply s' = s_reply s" "s_dirty s' = s_dirty s"
    using lookupKeyReadWithFlags_ok [OF assms, of cfg False k] by (auto simp: lookupKeyRead_def)
  have "db_inv P s'" using db_inv_cong [OF s'(2,3), of P] assms by simp
  then show ?thesis using s' by (simp add: lookupKeyReadOrReply_def del: access_sel(1,2))
qed

lemma getGenericCommand_ok:
  assumes "db_inv value_ok s"
  shows "\<exists>s'. getGenericCommand cfg k s = Some (s', \<not> not_string (visible cfg s k)) \<and> db_inv value_ok s' \<and>
    db_dict s' = db_dict (access cfg k s) \<and> db_expires s' = db_expires (access cfg k s) \<and> s_dirty s' = s_dirty s \<and>
    s_reply s' = s_reply s @ [get_reply (visible cfg s k)]"
proof -
  obtain s' where s': "lookupKeyReadOrReply cfg k ReplyNull s = Some (s', visible cfg s k)" "db_inv value_ok s'"
      "db_dict s' = db_dict (access cfg k s)" "db_expires s' = db_expires (access cfg k s)" "s_dirty s' = s_dirty s"
      "s_reply s' = s_reply s @ (if visible cfg s k = None then [ReplyNull] else [])"
    using lookupKeyReadOrReply_ok [OF assms] by blast
  consider "visible cfg s k = None" | v where "visible cfg s k = Some (VString v)" "str_ok v" | t where "visible cfg s k = Some (VSet t)"
    using visible_value [OF assms, of cfg k] by (metis option.exhaust rdb_value.exhaust value_ok.simps(1))
  then show ?thesis
    by cases (use s' in \<open>simp_all add: getGenericCommand_def not_string_def del: access_sel(1,2)\<close>)
qed

lemma getLongLong_arg:
  "getLongLongFromObjectOrReply arg s = (s', Some n) \<longleftrightarrow> s' = s \<and> string2ll arg = Some n"
  "getLongLongFromObjectOrReply arg s = (s', None) \<longleftrightarrow>
     s' = addReply (ReplyError ''value is not an integer or out of range'') s \<and> string2ll arg = None"
  by (auto simp: getLongLongFromObjectOrReply_def split: option.splits)

text \<open>A command that answers: it returns, keeps the invariant and replies something.\<close>

definition answers :: "vserver \<Rightarrow> vserver option \<Rightarrow> bool" where
  "answers s r \<longleftrightarrow> (\<exists>s' rs. r = Some s' \<and> db_inv value_ok s' \<and> s_reply s' = s_reply s @ rs \<and> rs \<noteq> [])"

lemma answersI: "db_inv value_ok s' \<Longrightarrow> s_reply s' = s_reply s @ rs \<Longrightarrow> rs \<noteq> [] \<Longrightarrow> answers s (Some s')"
  by (auto simp: answers_def)

lemma answers_reply: "db_inv value_ok s' \<Longrightarrow> s_reply s' = s_reply s @ rs \<Longrightarrow> answers s (Some (addReply r s'))"
  by (rule answersI [of _ _ "rs @ [r]"]) simp_all

lemma answers_trans: "s_reply s' = s_reply s @ rs \<Longrightarrow> answers s' r \<Longrightarrow> answers s r"
  by (auto simp: answers_def)

lemma expire_option_ok:
  "(\<exists>e. expire_option cfg cmd f s = (addReply e s, None)) \<or> (\<exists>x. expire_option cfg cmd f s = (s, Some x))"
  by (auto simp: expire_option_def getLongLongFromObjectOrReply_def Let_def split: option.splits)

lemma access_idem: "access cfg k (access cfg k s) = access cfg k s"
  by (auto simp: access_def evict_def is_expired_def)

lemma set_forbidden_ok:
  assumes "db_inv P s"
  shows "\<exists>s'. set_forbidden cfg f k s = Some (s', so_nx f \<and> db_dict (access cfg k s) k \<noteq> None \<or>
      so_xx f \<and> db_dict (access cfg k s) k = None) \<and> db_inv P s' \<and> s_reply s' = s_reply s \<and> s_dirty s' = s_dirty s \<and> (s' = s \<or> s' = access cfg k s)"
proof -
  show ?thesis
    using assms lookupKeyWrite_ok [OF assms, of cfg k] lookupKeyWrite_ok [OF db_inv_access [OF assms], of cfg k cfg k]
    by (auto simp: set_forbidden_def access_idem simp del: access_sel(1,2))
qed


section \<open>Every command answers\<close>

lemma db_inv_upd:
  assumes "db_inv P s" and "db_dict s' = (db_dict s)(k \<mapsto> v)" and "P v" and "dom (db_expires s') \<subseteq> insert k (dom (db_expires s))"
  shows "db_inv P s'"
proof -
  have "dom (db_expires s') \<subseteq> dom (db_dict s')" using assms unfolding db_inv_def by auto
  moreover have "P w" if "db_dict s' k' = Some w" for k' w
    using that assms(1,2,3) by (auto simp: db_inv_def split: if_splits)
  ultimately show ?thesis by (auto simp: db_inv_def)
qed

lemma setExpire_inv:
  assumes "db_inv P s" and "db_dict s k \<noteq> None"
  shows "\<exists>s'. setExpire cfg c k when s = Some s' \<and> db_inv P s' \<and> db_dict s' = db_dict s \<and>
    db_expires s' = (db_expires s)(k \<mapsto> when) \<and> s_reply s' = s_reply s \<and> s_dirty s' = s_dirty s"
proof -
  obtain s' where s': "setExpire cfg c k when s = Some s'" "db_dict s' = db_dict s" "db_expires s' = (db_expires s)(k \<mapsto> when)"
      "s_reply s' = s_reply s" "s_dirty s' = s_dirty s"
    using assms(2) by (auto simp: setExpire_def Let_def split: option.splits)
  have "db_inv P s'" using assms s'(2,3) by (auto simp: db_inv_def)
  then show ?thesis using s' by blast
qed

lemma getCommand_answers: "db_inv value_ok s \<Longrightarrow> answers s (getCommand cfg k s)"
  using getGenericCommand_ok [of s cfg k] by (auto simp: getCommand_def answers_def)

lemma set_finish_ok:
  assumes "db_inv value_ok s"
  shows "\<exists>s'. set_finish env cfg c cmd f key val args ok_reply expire s = Some s' \<and> db_inv value_ok s' \<and>
    db_dict s' = (db_dict s)(key \<mapsto> arg_value env val) \<and>
    db_expires s' = (case expire of Some (_, when) \<Rightarrow> (if so_keepttl f then db_expires (access cfg key s) else db_expires s)(key \<mapsto> when)
      | None \<Rightarrow> if so_keepttl f then db_expires (access cfg key s) else (db_expires s)(key := None)) \<and>
    s_reply s' = s_reply s @ (if so_get f then [] else [ok_reply]) \<and> s_dirty s' = s_dirty s + 1"
proof -
  obtain s1 where s1: "genericSetKey cfg key (arg_value env val) (so_keepttl f) True s = Some s1"
      "db_dict s1 = (db_dict s)(key \<mapsto> arg_value env val)"
      "db_expires s1 = (if so_keepttl f then db_expires (access cfg key s) else (db_expires s)(key := None))"
      "s_reply s1 = s_reply s" "s_dirty s1 = s_dirty s"
    using genericSetKey_ok [OF assms] by blast
  have inv: "db_inv value_ok s1"
    by (rule db_inv_upd [OF assms s1(2)]) (auto simp: s1(3) split: if_splits)
  let ?s = "notifyKeyspaceEvent NOTIFY_STRING ''set'' key (add_dirty 1 s1)"
  show ?thesis
  proof (cases expire)
    case None
    then show ?thesis using s1 inv by (auto simp: set_finish_def Let_def simp del: access_sel(1,2))
  next
    case (Some e)
    obtain ms "when" where e: "e = (ms, when)" by fastforce
    have "db_inv value_ok ?s" "db_dict ?s key \<noteq> None" using inv s1(2) by simp_all
    then obtain s2 where s2: "setExpire cfg (Some c) key when ?s = Some s2" "db_inv value_ok s2" "db_dict s2 = db_dict ?s"
        "db_expires s2 = (db_expires ?s)(key \<mapsto> when)" "s_reply s2 = s_reply ?s" "s_dirty s2 = s_dirty ?s"
      using setExpire_inv by blast
    then show ?thesis using Some e s1 by (auto simp: set_finish_def Let_def simp del: access_sel(1,2))
  qed
qed

lemma setGenericCommand_answers:
  assumes inv: "db_inv value_ok s"
  shows "answers s (setGenericCommand env cfg c cmd f key val args ok_reply abort_reply s)"
proof (cases "\<exists>e. expire_option cfg cmd f s = (addReply e s, None)")
  case True
  then show ?thesis using inv by (auto simp: setGenericCommand_def intro: answers_reply [where rs = "[]"])
next
  case False
  then obtain x where x: "expire_option cfg cmd f s = (s, Some x)" using expire_option_ok by blast
  obtain s1 b where s1: "set_forbidden cfg f key s = Some (s1, b)" "db_inv value_ok s1" "s_reply s1 = s_reply s"
    using set_forbidden_ok [OF inv] by blast
  obtain s2 where s2: "getGenericCommand cfg key s1 = Some (s2, \<not> not_string (visible cfg s1 key))" "db_inv value_ok s2"
      "s_reply s2 = s_reply s @ [get_reply (visible cfg s1 key)]"
    using getGenericCommand_ok [OF s1(2)] s1(3) by metis
  note finish = set_finish_ok [of _ env cfg c cmd f key val args ok_reply x]
  show ?thesis
  proof (cases "b \<or> \<not> so_get f")
    case True
    then show ?thesis
      using s1 x finish [OF s1(2)] by (auto simp: setGenericCommand_def answers_def)
  next
    case False
    then show ?thesis
      using s1 x s2 finish [OF s2(2)] by (cases "not_string (visible cfg s1 key)") (auto simp: setGenericCommand_def answers_def)
  qed
qed


lemma getex_deadline_ok:
  assumes "db_inv value_ok s" and "db_dict s key \<noteq> None"
  shows "\<exists>s'. getex_deadline cfg c key f expire s = Some s' \<and> db_inv value_ok s' \<and> s_reply s' = s_reply s"
proof (cases expire)
  case None
  then show ?thesis using assms
    by (auto simp: getex_deadline_def removeExpire_def db_inv_def Let_def split: if_splits)
next
  case (Some e)
  obtain ms "when" where e: "e = (ms, when)" by fastforce
  show ?thesis
  proof (cases "(so_pxat f \<or> so_exat f) \<and> checkAlreadyExpired cfg ms")
    case True
    then show ?thesis using assms Some e by (auto simp: getex_deadline_def Let_def)
  next
    case False
    then show ?thesis
      using setExpire_inv [OF assms, of cfg "Some c" "when"] Some e by (auto simp: getex_deadline_def Let_def)
  qed
qed

lemma getexCommand_answers:
  assumes inv: "db_inv value_ok s"
  shows "answers s (getexCommand cfg c key args s)"
proof (cases "parseExtendedStringArguments False args no_opts")
  case None
  then show ?thesis using inv by (simp add: getexCommand_def answers_reply [where rs = "[]"])
next
  case (Some f)
  obtain s1 where s1: "lookupKeyReadOrReply cfg key ReplyNull s = Some (s1, visible cfg s key)" "db_inv value_ok s1"
      "db_dict s1 = db_dict (access cfg key s)" "s_reply s1 = s_reply s @ (if visible cfg s key = None then [ReplyNull] else [])"
    using lookupKeyReadOrReply_ok [OF inv] by blast
  have present: "db_dict s1 key = Some v" if "visible cfg s key = Some v" for v
    using that s1(3) by (auto simp: visible_def evicts_def split: if_splits)
  consider "visible cfg s key = None" | v where "visible cfg s key = Some (VString v)" "str_ok v" | t where "visible cfg s key = Some (VSet t)"
    using visible_value [OF inv, of cfg key] by (metis option.exhaust rdb_value.exhaust value_ok.simps(1))
  then show ?thesis
  proof cases
    case 2
    then have run: "getexCommand cfg c key args s = (case expire_option cfg ''getex'' f s1 of
          (s, None) \<Rightarrow> Some s
        | (s, Some expire) \<Rightarrow> getex_deadline cfg c key f expire (addReply (ReplyBulk (str_text v)) s))"
      using Some s1(1) by (simp add: getexCommand_def)
    have "db_inv value_ok (addReply (ReplyBulk (str_text v)) s1)" "db_dict (addReply (ReplyBulk (str_text v)) s1) key \<noteq> None"
      using s1(2) present [OF 2(1)] by simp_all
    note fin = getex_deadline_ok [OF this, of cfg c f]
    consider e where "expire_option cfg ''getex'' f s1 = (addReply e s1, None)" | x where "expire_option cfg ''getex'' f s1 = (s1, Some x)"
      using expire_option_ok by blast
    then show ?thesis
    proof cases
      case 1
      then show ?thesis using run s1(2,4) by (auto intro: answers_reply)
    next
      case (2 x)
      then show ?thesis using run fin [of x] s1(4) by (auto simp: answers_def split: if_splits)
    qed
  qed (use Some s1 in \<open>auto simp: getexCommand_def intro: answersI answers_reply\<close>)
qed


lemma getdelCommand_answers: "db_inv value_ok s \<Longrightarrow> answers s (getdelCommand cfg key s)"
  using getGenericCommand_ok [of s cfg key] by (auto simp: getdelCommand_def Let_def answers_def)

lemma setKey_arg_ok:
  assumes "db_inv value_ok s"
  shows "\<exists>s'. setKey cfg k (arg_value env val) s = Some s' \<and> db_inv value_ok s' \<and> db_dict s' = (db_dict s)(k \<mapsto> arg_value env val) \<and>
    db_expires s' = (db_expires s)(k := None) \<and> s_reply s' = s_reply s \<and> s_dirty s' = s_dirty s"
proof -
  obtain s' where s': "setKey cfg k (arg_value env val) s = Some s'" "db_dict s' = (db_dict s)(k \<mapsto> arg_value env val)"
      "db_expires s' = (db_expires s)(k := None)" "s_reply s' = s_reply s" "s_dirty s' = s_dirty s"
    using setKey_ok [OF assms] by blast
  have "db_inv value_ok s'" by (rule db_inv_upd [OF assms s'(2)]) (auto simp: s'(3) split: if_splits)
  then show ?thesis using s' by blast
qed

lemma getsetCommand_answers:
  assumes "db_inv value_ok s"
  shows "answers s (getsetCommand env cfg key val s)"
proof -
  obtain s1 where s1: "getGenericCommand cfg key s = Some (s1, \<not> not_string (visible cfg s key))" "db_inv value_ok s1"
      "s_reply s1 = s_reply s @ [get_reply (visible cfg s key)]"
    using getGenericCommand_ok [OF assms] by blast
  then show ?thesis
    using setKey_arg_ok [OF s1(2), of cfg key env val] by (auto simp: getsetCommand_def Let_def answers_def)
qed

text \<open>Writing a range: what it makes of the text.\<close>

definition range_text :: "byte list \<Rightarrow> nat \<Rightarrow> byte list \<Rightarrow> byte list" where
  "range_text t offset value =
     (let grown = t @ replicate (offset + length value - length t) 0 in
      take offset grown @ value @ drop (offset + length value) grown)"

lemma write_range_ok:
  "offset + length value \<le> length t \<or> st_alloc env (offset + length value) \<Longrightarrow>
   write_range env t offset value = Some (range_text t offset value)"
  by (simp add: write_range_def range_text_def mem_write_ok Let_def)

lemma range_text_length: "length (range_text t offset value) = max (length t) (offset + length value)"
  by (simp add: range_text_def Let_def)

lemma setrange_store_ok:
  assumes "offset + length value \<le> length t \<or> st_alloc env (offset + length value)" and "db_inv value_ok s"
  shows "\<exists>s'. setrange_store env key offset value s t = Some s' \<and> db_inv value_ok s' \<and>
    db_dict s' = (db_dict s)(key \<mapsto> VString (STR_RAW (range_text t offset value))) \<and> db_expires s' = db_expires s \<and>
    s_reply s' = s_reply s @ [ReplyInt (int (max (length t) (offset + length value)))] \<and> s_dirty s' = s_dirty s + 1"
  using assms by (simp add: setrange_store_def write_range_ok range_text_length)

text \<open>The text that a key holds for a command that writes, the empty one when there is none.\<close>

definition text_at :: "config \<Rightarrow> vserver \<Rightarrow> key \<Rightarrow> byte list option" where
  "text_at cfg s key =
     (case db_dict (access cfg key s) key of None \<Rightarrow> Some [] | Some (VString v) \<Rightarrow> Some (str_text v) | Some (VSet _) \<Rightarrow> None)"

lemma setrange_value:
  assumes inv: "db_inv value_ok s" and t: "text_at cfg s key = Some t"
    and off: "string2ll arg = Some (int offset)" and ne: "value \<noteq> []"
    and len: "wrap64 (int offset + int (length value)) \<le> st_max_bulk_len env \<or> c_is_master c"
    and mem: "st_alloc env (offset + length value)"
  shows "\<exists>s'. setrangeCommand env cfg c key arg value s = Some s' \<and> db_inv value_ok s' \<and>
    db_dict s' = (db_dict (access cfg key s))(key \<mapsto> VString (STR_RAW (range_text t offset value))) \<and>
    db_expires s' = db_expires (access cfg key s) \<and>
    s_reply s' = s_reply s @ [ReplyInt (int (max (length t) (offset + length value)))] \<and> s_dirty s' = s_dirty s + 1"
proof -
  define a where "a = access cfg key s"
  have a: "db_inv value_ok a" "s_reply a = s_reply s" "s_dirty a = s_dirty s" using inv by (simp_all add: a_def)
  have "int64 (int offset)" using off by (simp add: string2ll_canonical)
  then have arg: "getLongFromObjectOrReply arg s = (s, Some (int offset))"
    using off by (simp add: getLongFromObjectOrReply_def getLongLongFromObjectOrReply_def int64_def)
  have chk: "checkStringLength env c (wrap64 (int offset + int (length value))) a = (a, True)"
    using len by (auto simp: checkStringLength_def)
  have lookup: "lookupKeyWrite cfg key s = Some (a, db_dict a key)" using lookupKeyWrite_ok [OF inv] by (simp add: a_def)
  have total: "nat (int offset + int (length value)) = offset + length value" by simp
  show ?thesis
  proof (cases "db_dict a key")
    case None
    define z where "z = replicate (offset + length value) (0 :: byte)"
    define s1 where "s1 = emit (EvReady key) (a\<lparr>db_dict := (db_dict a)(key \<mapsto> VString (STR_RAW z))\<rparr>)"
    have "setrangeCommand env cfg c key arg value s = setrange_store env key offset value s1 z"
      using None ne arg chk total mem lookup by (simp add: setrangeCommand_def dbAdd_def s1_def z_def Let_def)
    moreover have "db_inv value_ok s1" using a(1) by (auto simp: s1_def db_inv_def)
    then have "\<exists>s'. setrange_store env key offset value s1 z = Some s' \<and> db_inv value_ok s' \<and>
        db_dict s' = (db_dict s1)(key \<mapsto> VString (STR_RAW (range_text z offset value))) \<and> db_expires s' = db_expires s1 \<and>
        s_reply s' = s_reply s1 @ [ReplyInt (int (max (length z) (offset + length value)))] \<and> s_dirty s' = s_dirty s1 + 1"
      using mem by (intro setrange_store_ok) simp_all
    moreover have "range_text z offset value = range_text [] offset value" "t = []"
      using t None by (simp_all add: range_text_def z_def text_at_def a_def)
    ultimately show ?thesis using a by (auto simp: s1_def z_def a_def [symmetric])
  next
    case (Some x)
    then obtain u where u: "x = VString u" "t = str_text u" "str_ok u"
      using t db_invD(2) [OF a(1) Some] by (cases x) (auto simp: text_at_def a_def)
    obtain s1 where s1: "dbUnshareStringValue key u a = Some (s1, t)" "\<And>t. put_string key t s1 = put_string key t a"
      using unshare_ok [OF u(3), of a key] Some u by auto
    have "setrangeCommand env cfg c key arg value s = setrange_store env key offset value s1 t"
      using Some u ne arg chk lookup s1(1) by (simp add: setrangeCommand_def)
    also have "\<dots> = setrange_store env key offset value a t" by (simp add: setrange_store_def s1(2))
    finally show ?thesis using setrange_store_ok [of offset "value" t env a key] mem a by (simp add: a_def [symmetric])
  qed
qed


lemma getLong_arg:
  "string2ll arg = Some n \<Longrightarrow> getLongFromObjectOrReply arg s = (s, Some n)"
  "string2ll arg = None \<Longrightarrow> getLongFromObjectOrReply arg s = (addReply (ReplyError ''value is not an integer or out of range'') s, None)"
proof -
  have "int64 n" if "string2ll arg = Some n" using that by (simp add: string2ll_canonical)
  then show "string2ll arg = Some n \<Longrightarrow> getLongFromObjectOrReply arg s = (s, Some n)"
    by (simp add: getLongFromObjectOrReply_def getLongLongFromObjectOrReply_def int64_def)
qed (simp add: getLongFromObjectOrReply_def getLongLongFromObjectOrReply_def)

lemma setrangeCommand_answers:
  assumes inv: "db_inv value_ok s" and mem: "\<And>n. st_alloc env n"
  shows "answers s (setrangeCommand env cfg c key arg value s)"
proof (cases "\<exists>offset. string2ll arg = Some (int offset)")
  case False
  then consider "string2ll arg = None" | n where "string2ll arg = Some n" "n < 0" by (metis not_less option.exhaust zero_le_imp_eq_int)
  then show ?thesis
    using inv by cases (simp_all add: setrangeCommand_def getLong_arg answers_reply [where rs = "[]"])
next
  case True
  then obtain offset where off: "string2ll arg = Some (int offset)" by blast
  then have arg: "getLongFromObjectOrReply arg s = (s, Some (int offset))" by (rule getLong_arg)
  define a where "a = access cfg key s"
  have a: "db_inv value_ok a" "s_reply a = s_reply s @ []" using inv by (simp_all add: a_def)
  have lookup: "lookupKeyWrite cfg key s = Some (a, db_dict a key)" using lookupKeyWrite_ok [OF inv] by (simp add: a_def)
  let ?ok = "wrap64 (int offset + int (length value)) \<le> st_max_bulk_len env \<or> c_is_master c"
  show ?thesis
  proof (cases "value \<noteq> [] \<and> ?ok \<and> (\<exists>t. text_at cfg s key = Some t)")
    case True
    then show ?thesis using setrange_value [OF inv _ off _ _ mem] by (fastforce simp: answers_def)
  next
    case False
    then show ?thesis
      using arg lookup answers_reply [OF a]
      by (cases "db_dict a key")
         (auto simp: setrangeCommand_def checkStringLength_def text_at_def a_def [symmetric] Let_def split: rdb_value.splits)
  qed
qed

lemma getrangeCommand_ok:
  assumes inv: "db_inv value_ok s" and args: "string2ll sa = Some start" "string2ll ea = Some end'"
  shows "\<exists>s'. getrangeCommand cfg key sa ea s = Some s' \<and> db_inv value_ok s' \<and>
    s_reply s' = s_reply s @ [case visible cfg s key of
        Some (VSet _) \<Rightarrow> wrongtypeerr
      | Some (VString v) \<Rightarrow> ReplyBulk (case substring_range (int (length (str_text v))) start end' of
          None \<Rightarrow> [] | Some (i, j) \<Rightarrow> take (nat (j - i + 1)) (drop (nat i) (str_text v)))
      | None \<Rightarrow> ReplyBulk []]"
proof -
  obtain s1 where s1: "lookupKeyReadOrReply cfg key (ReplyBulk []) s = Some (s1, visible cfg s key)" "db_inv value_ok s1"
      "s_reply s1 = s_reply s @ (if visible cfg s key = None then [ReplyBulk []] else [])"
    using lookupKeyReadOrReply_ok [OF inv] by blast
  have args': "getLongLongFromObjectOrReply sa s = (s, Some start)" "getLongLongFromObjectOrReply ea s = (s, Some end')"
    using args by (simp_all add: getLongLong_arg)
  consider "visible cfg s key = None" | v where "visible cfg s key = Some (VString v)" "str_ok v" | t where "visible cfg s key = Some (VSet t)"
    using visible_value [OF inv, of cfg key] by (metis option.exhaust rdb_value.exhaust value_ok.simps(1))
  then show ?thesis
  proof cases
    case 2
    have str: "(case v of STR_RAW t \<Rightarrow> Some t | STR_EMBSTR t \<Rightarrow> Some t | STR_INT n \<Rightarrow> reply_long n | STR_SHARED n \<Rightarrow> reply_long n) = Some (str_text v)"
      using 2(2) by (cases v) (simp_all add: reply_long_ok int64_def)
    show ?thesis
    proof (cases "substring_range (int (length (str_text v))) start end'")
      case None
      then show ?thesis using 2 args' s1 str by (simp add: getrangeCommand_def)
    next
      case (Some r)
      obtain i j where r: "r = (i, j)" by fastforce
      have "0 \<le> i \<and> i \<le> j \<and> j < int (length (str_text v))"
        using Some r by (auto simp: substring_range_def Let_def split: if_splits)
      then have "mem_read (str_text v) (nat i) (nat (j - i + 1)) = Some (take (nat (j - i + 1)) (drop (nat i) (str_text v)))"
        by (intro mem_read_ok) auto
      then show ?thesis using Some r 2 args' s1 str by (simp add: getrangeCommand_def)
    qed
  qed (use args' s1 in \<open>simp_all add: getrangeCommand_def\<close>)
qed


lemma getrangeCommand_answers:
  assumes "db_inv value_ok s"
  shows "answers s (getrangeCommand cfg key sa ea s)"
proof (cases "string2ll sa = None \<or> string2ll ea = None")
  case True
  then show ?thesis
    using assms by (cases "string2ll sa")
      (auto simp: getrangeCommand_def getLongLongFromObjectOrReply_def intro: answers_reply [where rs = "[]"])
next
  case False
  then obtain start end' where "string2ll sa = Some start" "string2ll ea = Some end'" by auto
  then show ?thesis using getrangeCommand_ok [OF assms] by (fastforce simp: answers_def)
qed

lemma mget_loop_ok:
  "db_inv value_ok s \<Longrightarrow> \<exists>s' rs. mget_loop cfg keys s = Some s' \<and> db_inv value_ok s' \<and> s_reply s' = s_reply s @ rs"
proof (induction keys arbitrary: s)
  case (Cons key keys)
  obtain s1 where s1: "lookupKeyRead cfg key s = Some (s1, visible cfg s key)" "db_dict s1 = db_dict (access cfg key s)"
      "db_expires s1 = db_expires (access cfg key s)" "s_reply s1 = s_reply s"
    using lookupKeyReadWithFlags_ok [OF Cons.prems, of cfg False key] by (auto simp: lookupKeyRead_def)
  have inv: "db_inv value_ok s1" using db_inv_cong [OF s1(2,3), of value_ok] Cons.prems by simp
  have "\<exists>r. (case visible cfg s key of None \<Rightarrow> Some (addReply ReplyNull s1) | Some (VSet _) \<Rightarrow> Some (addReply ReplyNull s1)
      | Some (VString v) \<Rightarrow> addReplyBulk v s1) = Some (addReply r s1)"
    using visible_value [OF Cons.prems, of cfg key] by (auto split: option.splits rdb_value.splits)
  then obtain r where r: "mget_loop cfg (key # keys) s = mget_loop cfg keys (addReply r s1)" using s1(1) by auto
  show ?case using Cons.IH [of "addReply r s1"] inv s1(4) r by auto
qed simp

lemma mgetCommand_answers:
  assumes "db_inv value_ok s"
  shows "answers s (mgetCommand cfg keys s)"
  using mget_loop_ok [of "addReply (ReplyArrayLen (int (length keys))) s" cfg keys] assms
  by (auto simp: mgetCommand_def answers_def)

lemma mset_exists_ok:
  "db_inv P s \<Longrightarrow> \<exists>s' b. mset_exists cfg args s = Some (s', b) \<and> db_inv P s' \<and> s_reply s' = s_reply s \<and> s_dirty s' = s_dirty s"
proof (induction cfg args s rule: mset_exists.induct)
  case (1 cfg key val args s)
  then show ?case
    using lookupKeyWrite_ok [OF "1.prems", of cfg key] "1.IH" [OF _ refl, of "access cfg key s" "db_dict (access cfg key s) key"]
    by (cases "db_dict (access cfg key s) key") (auto simp del: access_sel(1,2))
qed auto

lemma mset_loop_ok:
  "db_inv value_ok s \<Longrightarrow> \<exists>s'. mset_loop env cfg args s = Some s' \<and> db_inv value_ok s' \<and> s_reply s' = s_reply s \<and> s_dirty s' = s_dirty s"
proof (induction env cfg args s rule: mset_loop.induct)
  case (1 env cfg key val args s)
  obtain s1 where s1: "setKey cfg key (arg_value env val) s = Some s1" "db_inv value_ok s1" "s_reply s1 = s_reply s" "s_dirty s1 = s_dirty s"
    using setKey_arg_ok [OF "1.prems"] by blast
  then show ?case using "1.IH" [OF s1(1)] by simp
qed auto

lemma msetGenericCommand_answers:
  assumes "db_inv value_ok s"
  shows "answers s (msetGenericCommand env cfg nx args s)"
proof (cases "odd (length args)")
  case True
  then show ?thesis using assms by (simp add: msetGenericCommand_def answers_reply [where rs = "[]"])
next
  case False
  have "\<exists>s' b. (if nx then mset_exists cfg args s else Some (s, False)) = Some (s', b) \<and> db_inv value_ok s' \<and> s_reply s' = s_reply s"
    using mset_exists_ok [OF assms, of cfg args] assms by auto
  then obtain s1 b where s1: "(if nx then mset_exists cfg args s else Some (s, False)) = Some (s1, b)" "db_inv value_ok s1" "s_reply s1 = s_reply s"
    by blast
  then show ?thesis
    using False mset_loop_ok [OF s1(2), of env cfg args] by (auto simp: msetGenericCommand_def answers_def)
qed


text \<open>The number that a key holds for a command that writes, 0 when there is none.\<close>

definition number_at :: "config \<Rightarrow> vserver \<Rightarrow> key \<Rightarrow> int option" where
  "number_at cfg s key =
     (case db_dict (access cfg key s) key of
        None \<Rightarrow> Some 0 | Some (VString v) \<Rightarrow> string2ll (str_text v) | Some (VSet _) \<Rightarrow> None)"

lemma getLongLongFromObject_ok: "str_ok v \<Longrightarrow> getLongLongFromObject (Some v) = string2ll (str_text v)"
  by (cases v) (simp_all add: getLongLongFromObject_def string2ll_canonical [symmetric] int64_def
      string2ll_canonical [of "dec_int _", THEN iffD2] eq_commute [of "Some _" "string2ll _"] string2ll_canonical)

lemma incr_overflows_iff: "int64 n \<Longrightarrow> int64 i \<Longrightarrow> incr_overflows i n \<longleftrightarrow> \<not> int64 (n + i)"
  by (auto simp: incr_overflows_def int64_def)

lemma fromLongLongForValue_ok:
  assumes "int64 n"
  shows "str_text (createStringObjectFromLongLongForValue b n) = dec_int n" "str_ok (createStringObjectFromLongLongForValue b n)"
  using createFromLongLong_text [OF assms] by (simp_all add: createStringObjectFromLongLongForValue_def)

lemma incrDecrCommand_number:
  assumes inv: "db_inv value_ok s" and n: "number_at cfg s key = Some n" and i: "int64 i" "int64 (n + i)"
  shows "\<exists>s' v. incrDecrCommand env cfg key i s = Some s' \<and> db_inv value_ok s' \<and>
    db_dict s' = (db_dict (access cfg key s))(key \<mapsto> VString v) \<and> str_text v = dec_int (n + i) \<and> str_ok v \<and>
    db_expires s' = db_expires (access cfg key s) \<and> s_reply s' = s_reply s @ [ReplyInt (n + i)] \<and> s_dirty s' = s_dirty s + 1"
proof -
  define a where "a = access cfg key s"
  have a: "db_inv value_ok a" "s_reply a = s_reply s" "s_dirty a = s_dirty s" using inv by (simp_all add: a_def)
  have lookup: "lookupKeyWrite cfg key s = Some (a, db_dict a key)" using lookupKeyWrite_ok [OF inv] by (simp add: a_def)
  let ?new = "createStringObjectFromLongLongForValue (st_shared_ok env) (n + i)"
  have fits: "\<not> incr_overflows i n" if "int64 n"
    using incr_overflows_iff [OF that i(1)] i(2) by blast
  have result: "\<exists>v s1. incrDecrCommand env cfg key i s
      = Some (addReply (ReplyInt (n + i)) (add_dirty 1 (notifyKeyspaceEvent NOTIFY_STRING ''incrby'' key (signalModifiedKey key s1)))) \<and>
      db_dict s1 = (db_dict a)(key \<mapsto> VString v) \<and> db_expires s1 = db_expires a \<and> s_reply s1 = s_reply a \<and> s_dirty s1 = s_dirty a \<and>
      str_text v = dec_int (n + i) \<and> str_ok v"
  proof (cases "db_dict a key")
    case None
    then have "n = 0" using n by (simp add: number_at_def a_def)
    then show ?thesis
      using None fits lookup i(2) fromLongLongForValue_ok [OF i(2), of "st_shared_ok env"]
      by (intro exI [of _ ?new] exI [of _ "emit (EvReady key) (a\<lparr>db_dict := (db_dict a)(key \<mapsto> VString ?new)\<rparr>)"])
         (simp add: incrDecrCommand_def not_string_def getLongLongFromObject_def dbAdd_def wrap64_id int64_def Let_def)
  next
    case (Some x)
    then obtain u where u: "x = VString u" "string2ll (str_text u) = Some n" "str_ok u"
      using n db_invD(2) [OF a(1) Some] by (cases x) (auto simp: number_at_def a_def)
    have "int64 n" using u(2) by (simp add: string2ll_canonical)
    note run = fits [OF this] lookup Some u getLongLongFromObject_ok [OF u(3)] wrap64_id [OF i(2)]
    let ?inplace = "(case u of STR_INT _ \<Rightarrow> True | _ \<Rightarrow> False) \<and> (n + i < 0 \<or> n + i \<ge> OBJ_SHARED_INTEGERS)"
    show ?thesis
    proof (cases ?inplace)
      case True
      have "str_text (STR_INT (n + i)) = dec_int (n + i)" "str_ok (STR_INT (n + i))" using i(2) by simp_all
      then show ?thesis
        using True run
        by (intro exI [of _ "STR_INT (n + i)"] exI [of _ "a\<lparr>db_dict := (db_dict a)(key \<mapsto> VString (STR_INT (n + i)))\<rparr>"])
           (simp add: incrDecrCommand_def not_string_def Let_def)
    next
      case False
      then show ?thesis
        using run fromLongLongForValue_ok [OF i(2), of "st_shared_ok env"]
        by (intro exI [of _ ?new] exI [of _ "a\<lparr>db_dict := (db_dict a)(key \<mapsto> VString ?new)\<rparr>"])
           (simp add: incrDecrCommand_def not_string_def dbOverwrite_def Let_def, blast)
    qed
  qed
  then obtain v s1 where r: "incrDecrCommand env cfg key i s
      = Some (addReply (ReplyInt (n + i)) (add_dirty 1 (notifyKeyspaceEvent NOTIFY_STRING ''incrby'' key (signalModifiedKey key s1))))"
      "db_dict s1 = (db_dict a)(key \<mapsto> VString v)" "db_expires s1 = db_expires a" "s_reply s1 = s_reply a" "s_dirty s1 = s_dirty a"
      "str_text v = dec_int (n + i)" "str_ok v"
    by blast
  have "db_inv value_ok s1" by (rule db_inv_upd [OF a(1) r(2)]) (use r(3,7) in auto)
  then show ?thesis using r a unfolding a_def [symmetric] by (auto intro: exI [of _ v])
qed


lemma incrDecrCommand_refuses:
  assumes inv: "db_inv value_ok s" and i: "int64 i" and no: "\<And>n. number_at cfg s key = Some n \<Longrightarrow> \<not> int64 (n + i)"
  shows "\<exists>e. incrDecrCommand env cfg key i s = Some (addReply (ReplyError e) (access cfg key s))"
proof -
  define a where "a = access cfg key s"
  have a: "db_inv value_ok a" using inv by (simp add: a_def)
  have lookup: "lookupKeyWrite cfg key s = Some (a, db_dict a key)" using lookupKeyWrite_ok [OF inv] by (simp add: a_def)
  obtain x where x: "db_dict a key = Some x" using no [of 0] i by (cases "db_dict a key") (auto simp: number_at_def a_def)
  show ?thesis
  proof (cases x)
    case (VSet t)
    then show ?thesis using x lookup by (auto simp: incrDecrCommand_def not_string_def wrongtypeerr_def a_def [symmetric])
  next
    case (VString u)
    then have u: "str_ok u" using db_invD(2) [OF a x] by simp
    show ?thesis
    proof (cases "string2ll (str_text u)")
      case None
      then show ?thesis
        using x lookup VString getLongLongFromObject_ok [OF u]
        by (auto simp: incrDecrCommand_def not_string_def a_def [symmetric])
    next
      case (Some n)
      then have "int64 n" "\<not> int64 (n + i)" using no [of n] x VString by (simp_all add: number_at_def a_def string2ll_canonical)
      then have "incr_overflows i n" using incr_overflows_iff [OF _ i] by blast
      then show ?thesis
        using Some x lookup VString getLongLongFromObject_ok [OF u]
        by (auto simp: incrDecrCommand_def not_string_def a_def [symmetric])
    qed
  qed
qed

lemma incrDecrCommand_answers:
  assumes "db_inv value_ok s" and "int64 i"
  shows "answers s (incrDecrCommand env cfg key i s)"
proof (cases "\<exists>n. number_at cfg s key = Some n \<and> int64 (n + i)")
  case True
  then show ?thesis using incrDecrCommand_number [OF assms(1) _ assms(2), of cfg key _ env] by (fastforce simp: answers_def)
next
  case False
  then obtain e where "incrDecrCommand env cfg key i s = Some (addReply (ReplyError e) (access cfg key s))"
    using incrDecrCommand_refuses [OF assms] by blast
  then show ?thesis using assms(1) by (simp add: answers_reply [where rs = "[]"])
qed

lemma wrap64_range: "int64 (wrap64 n)"
  by (simp add: wrap64_def int64_def)

lemma appendCommand_ok:
  assumes inv: "db_inv value_ok s" and t: "text_at cfg s key = Some t"
    and len: "db_dict (access cfg key s) key = None \<or> wrap64 (int (length t + length arg)) \<le> st_max_bulk_len env \<or> c_is_master c"
    and mem: "st_alloc env (length t + length arg)"
  shows "\<exists>s' v. appendCommand env cfg c key arg s = Some s' \<and> db_inv value_ok s' \<and>
    db_dict s' = (db_dict (access cfg key s))(key \<mapsto> VString v) \<and> str_text v = t @ arg \<and>
    db_expires s' = db_expires (access cfg key s) \<and> s_reply s' = s_reply s @ [ReplyInt (int (length (t @ arg)))] \<and> s_dirty s' = s_dirty s + 1"
proof -
  define a where "a = access cfg key s"
  have a: "db_inv value_ok a" "s_reply a = s_reply s" "s_dirty a = s_dirty s" using inv by (simp_all add: a_def)
  have lookup: "lookupKeyWrite cfg key s = Some (a, db_dict a key)" using lookupKeyWrite_ok [OF inv] by (simp add: a_def)
  show ?thesis
  proof (cases "db_dict a key")
    case None
    let ?v = "tryObjectEncoding (st_shared_ok env) 1 (createStringObject arg)"
    have v: "str_text ?v = arg" "str_ok ?v" by (simp_all add: tryObjectEncoding_text)
    let ?s = "emit (EvReady key) (a\<lparr>db_dict := (db_dict a)(key \<mapsto> VString ?v)\<rparr>)"
    have "db_inv value_ok ?s" by (rule db_inv_upd [OF a(1), of _ key "VString ?v"]) (use v in auto)
    moreover have "t = []" using t None by (simp add: text_at_def a_def)
    ultimately show ?thesis
      using None v lookup a unfolding a_def [symmetric]
      by (intro exI [of _ "addReply _ (add_dirty 1 (emit _ (emit _ ?s)))"] exI [of _ ?v]) (simp add: appendCommand_def dbAdd_def Let_def)
  next
    case (Some x)
    then obtain u where u: "x = VString u" "t = str_text u" "str_ok u"
      using t db_invD(2) [OF a(1) Some] by (cases x) (auto simp: text_at_def a_def)
    obtain s1 where s1: "dbUnshareStringValue key u a = Some (s1, t)" "\<And>t. put_string key t s1 = put_string key t a"
      using unshare_ok [OF u(3), of a key] Some u by auto
    have chk: "checkStringLength env c (wrap64 (int (length t) + int (length arg))) a = (a, True)"
      using len Some by (auto simp: checkStringLength_def a_def [symmetric])
    show ?thesis
      using Some u s1 lookup chk mem a unfolding a_def [symmetric]
      by (intro exI [of _ "addReply _ (add_dirty 1 (emit _ (emit _ (put_string key (t @ arg) a))))"] exI [of _ "STR_RAW (t @ arg)"])
         (simp add: appendCommand_def Let_def)
  qed
qed


lemma appendCommand_answers:
  assumes inv: "db_inv value_ok s" and mem: "\<And>n. st_alloc env n"
  shows "answers s (appendCommand env cfg c key arg s)"
proof (cases "\<exists>t. text_at cfg s key = Some t \<and> (db_dict (access cfg key s) key = None \<or>
    wrap64 (int (length t + length arg)) \<le> st_max_bulk_len env \<or> c_is_master c)")
  case True
  then show ?thesis using appendCommand_ok [OF inv _ _ mem] by (fastforce simp: answers_def)
next
  case False
  define a where "a = access cfg key s"
  have a: "db_inv value_ok a" "s_reply a = s_reply s @ []" using inv by (simp_all add: a_def)
  have lookup: "lookupKeyWrite cfg key s = Some (a, db_dict a key)" using lookupKeyWrite_ok [OF inv] by (simp add: a_def)
  have "str_ok v" if "db_dict a key = Some (VString v)" for v using db_invD(2) [OF a(1) that] by simp
  then show ?thesis
    using False lookup answers_reply [OF a]
    by (cases "db_dict a key")
       (auto simp: appendCommand_def checkStringLength_def text_at_def a_def [symmetric] Let_def split: rdb_value.splits)
qed

lemma strlenCommand_ok:
  assumes "db_inv value_ok s"
  shows "\<exists>s'. strlenCommand cfg key s = Some s' \<and> db_inv value_ok s' \<and>
    s_reply s' = s_reply s @ [case visible cfg s key of
        None \<Rightarrow> ReplyInt 0 | Some (VString v) \<Rightarrow> ReplyInt (int (length (str_text v))) | Some (VSet _) \<Rightarrow> wrongtypeerr]"
proof -
  obtain s1 where s1: "lookupKeyReadOrReply cfg key (ReplyInt 0) s = Some (s1, visible cfg s key)" "db_inv value_ok s1"
      "s_reply s1 = s_reply s @ (if visible cfg s key = None then [ReplyInt 0] else [])"
    using lookupKeyReadOrReply_ok [OF assms] by blast
  then show ?thesis
    using visible_value [OF assms, of cfg key] by (auto simp: strlenCommand_def split: option.splits rdb_value.splits)
qed

section \<open>Properties\<close>

datatype string_command =
  CmdSet key "byte list" "byte list list"
| CmdSetnx key "byte list"
| CmdSetex key "byte list" "byte list"
| CmdPsetex key "byte list" "byte list"
| CmdGet key
| CmdGetex key "byte list list"
| CmdGetdel key
| CmdGetset key "byte list"
| CmdSetrange key "byte list" "byte list"
| CmdGetrange key "byte list" "byte list"
| CmdMget "key list"
| CmdMset "byte list list"
| CmdMsetnx "byte list list"
| CmdIncr key
| CmdDecr key
| CmdIncrby key "byte list"
| CmdDecrby key "byte list"
| CmdAppend key "byte list"
| CmdStrlen key

fun run_string :: "string_env \<Rightarrow> config \<Rightarrow> client \<Rightarrow> string_command \<Rightarrow> vserver \<Rightarrow> vserver option" where
  "run_string env cfg c (CmdSet k v args) = setCommand env cfg c k v args"
| "run_string env cfg c (CmdSetnx k v) = setnxCommand env cfg c k v"
| "run_string env cfg c (CmdSetex k t v) = setexCommand env cfg c k t v"
| "run_string env cfg c (CmdPsetex k t v) = psetexCommand env cfg c k t v"
| "run_string env cfg c (CmdGet k) = getCommand cfg k"
| "run_string env cfg c (CmdGetex k args) = getexCommand cfg c k args"
| "run_string env cfg c (CmdGetdel k) = getdelCommand cfg k"
| "run_string env cfg c (CmdGetset k v) = getsetCommand env cfg k v"
| "run_string env cfg c (CmdSetrange k off v) = setrangeCommand env cfg c k off v"
| "run_string env cfg c (CmdGetrange k a b) = getrangeCommand cfg k a b"
| "run_string env cfg c (CmdMget ks) = mgetCommand cfg ks"
| "run_string env cfg c (CmdMset args) = msetCommand env cfg args"
| "run_string env cfg c (CmdMsetnx args) = msetnxCommand env cfg args"
| "run_string env cfg c (CmdIncr k) = incrCommand env cfg k"
| "run_string env cfg c (CmdDecr k) = decrCommand env cfg k"
| "run_string env cfg c (CmdIncrby k n) = incrbyCommand env cfg k n"
| "run_string env cfg c (CmdDecrby k n) = decrbyCommand env cfg k n"
| "run_string env cfg c (CmdAppend k v) = appendCommand env cfg c k v"
| "run_string env cfg c (CmdStrlen k) = strlenCommand cfg k"

lemma incrby_answers:
  assumes "db_inv value_ok s"
  shows "answers s (incrbyCommand env cfg k arg s)" "answers s (decrbyCommand env cfg k arg s)"
proof -
  have "int64 n" if "string2ll arg = Some n" for n using that by (simp add: string2ll_canonical)
  then show "answers s (incrbyCommand env cfg k arg s)" "answers s (decrbyCommand env cfg k arg s)"
    using assms by (cases "string2ll arg"; simp add: incrbyCommand_def decrbyCommand_def getLongLongFromObjectOrReply_def
        incrDecrCommand_answers wrap64_range answers_reply [where rs = "[]"])+
qed

lemma set_variants_answer:
  assumes "db_inv value_ok s"
  shows "answers s (setCommand env cfg c k v args s)" "answers s (setnxCommand env cfg c k v s)"
    "answers s (setexCommand env cfg c k t v s)" "answers s (psetexCommand env cfg c k t v s)"
proof -
  show "answers s (setCommand env cfg c k v args s)"
    using assms by (cases "parseExtendedStringArguments True args no_opts")
      (simp_all add: setCommand_def setGenericCommand_answers answers_reply [where rs = "[]"])
qed (simp_all only: setnxCommand_def setexCommand_def psetexCommand_def setGenericCommand_answers assms)

lemma incr_answers:
  assumes "db_inv value_ok s"
  shows "answers s (incrCommand env cfg k s)" "answers s (decrCommand env cfg k s)"
  using assms by (simp_all add: incrCommand_def decrCommand_def incrDecrCommand_answers int64_def)

lemma mset_answers:
  assumes "db_inv value_ok s"
  shows "answers s (msetCommand env cfg args s)" "answers s (msetnxCommand env cfg args s)"
  using assms by (simp_all add: msetCommand_def msetnxCommand_def msetGenericCommand_answers)

lemma strlenCommand_answers: "db_inv value_ok s \<Longrightarrow> answers s (strlenCommand cfg key s)"
  using strlenCommand_ok [of s cfg key] by (auto simp: answers_def)

lemmas string_answers = set_variants_answer getCommand_answers getexCommand_answers getdelCommand_answers getsetCommand_answers
  setrangeCommand_answers getrangeCommand_answers mgetCommand_answers mset_answers incr_answers incrby_answers
  appendCommand_answers strlenCommand_answers



text \<open>Key \<open>a\<close> holds the number 5, key \<open>b\<close> the text \<open>hi\<close>.\<close>

definition ex_strings :: vserver where
  "ex_strings = empty_server\<lparr>db_dict := [[97] \<mapsto> VString (STR_INT 5), [98] \<mapsto> VString (STR_EMBSTR [104, 105])]\<rparr>"

definition ex_string_env :: string_env where
  "ex_string_env = \<lparr>st_shared_ok = True, st_max_bulk_len = 536870912, st_alloc = (\<lambda>_. True), st_fresh = (\<lambda>_. 0)\<rparr>"

lemma ex_strings_ok: "db_inv value_ok ex_strings" "s_reply ex_strings = []" "db_expires ex_strings = Map.empty"
  by (auto simp: db_inv_def ex_strings_def empty_server_def int64_def split: if_splits)


text \<open>
  C16: After \<open>SET\<close> without \<open>NX\<close>, \<open>XX\<close>, \<open>GET\<close> and \<open>KEEPTTL\<close>, with or without a deadline that has not passed,
  whatever the key held, \<open>SET\<close> replies OK, \<open>GET\<close> replies exactly the bytes given (also those that are stored as
  numbers), the key has the deadline asked for or none, and the other keys are as before.\<close>

theorem set_get_roundtrip:
  assumes inv: "db_inv value_ok s" and opts: "parseExtendedStringArguments True args no_opts = Some f"
    and plain: "\<not> so_nx f" "\<not> so_xx f" "\<not> so_get f" "\<not> so_keepttl f"
    and time: "expire_option cfg ''set'' f s = (s, Some deadline)" "\<forall>ms when. deadline = Some (ms, when) \<longrightarrow> expiry_now cfg \<le> when"
  shows "\<exists>s1 s2. setCommand env cfg c key val args s = Some s1 \<and> s_reply s1 = s_reply s @ [ReplyOk] \<and>
    getCommand cfg key s1 = Some s2 \<and> s_reply s2 = s_reply s @ [ReplyOk, ReplyBulk val] \<and>
    db_expires s1 key = map_option snd deadline \<and> (\<forall>k. k \<noteq> key \<longrightarrow> db_dict s1 k = db_dict s k \<and> db_expires s1 k = db_expires s k)"
proof -
  obtain v where v: "arg_value env val = VString v" "str_text v = val" using arg_value_ok by blast
  obtain s1 where s1: "set_finish env cfg c ''set'' f key val args ReplyOk deadline s = Some s1" "db_inv value_ok s1"
      "db_dict s1 = (db_dict s)(key \<mapsto> VString v)"
      "db_expires s1 = (case deadline of Some (_, when) \<Rightarrow> (db_expires s)(key \<mapsto> when) | None \<Rightarrow> (db_expires s)(key := None))"
      "s_reply s1 = s_reply s @ [ReplyOk]"
    using set_finish_ok [OF inv, of env cfg c "''set''" f key val args ReplyOk deadline] plain v(1) by (auto split: option.splits)
  have run: "setCommand env cfg c key val args s = Some s1"
    using opts plain time(1) s1(1) by (simp add: setCommand_def setGenericCommand_def set_forbidden_def)
  have "\<not> is_expired cfg s1 key" using time(2) s1(4) by (auto simp: is_expired_def split: option.splits)
  then have "visible cfg s1 key = Some (VString v)" using s1(3) by (simp add: visible_def)
  then obtain s2 where "getCommand cfg key s1 = Some s2" "s_reply s2 = s_reply s1 @ [ReplyBulk val]"
    using getGenericCommand_ok [OF s1(2), of cfg key] v(2) by (auto simp: getCommand_def)
  then show ?thesis using run s1 by (auto split: option.splits)
qed

lemma ex_option: "case_equal [69, 88] ''ex''" "\<not> case_equal [69, 88] ''nx''" "\<not> case_equal [69, 88] ''xx''"
  "\<not> case_equal [69, 88] ''get''" "\<not> case_equal [69, 88] ''keepttl''" "\<not> case_equal [69, 88] ''persist''"
  by code_simp+

theorem set_get_roundtrip_witness:
  "\<exists>s1 s2. setCommand ex_string_env ex_config ex_client [98] [48, 55] [[69, 88], [50]] ex_strings = Some s1 \<and>
    getCommand ex_config [98] s1 = Some s2 \<and> s_reply s2 = [ReplyOk, ReplyBulk [48, 55]] \<and> db_expires s1 [98] = Some 2150"
proof -
  let ?f = "no_opts\<lparr>so_ex := True, so_expire := Some [50]\<rparr>"
  have opts: "parseExtendedStringArguments True [[69, 88], [50]] no_opts = Some ?f"
    by (simp add: parse_option_def ex_option no_opts_def)
  have "string2ll [50] = Some 2" by (simp add: string2ll_canonical int64_def dec_int_def dec_nat.simps)
  then have time: "expire_option ex_config ''set'' ?f ex_strings = (ex_strings, Some (Some (2000, 2150)))"
    by (simp add: expire_option_def getLongLongFromObjectOrReply_def no_opts_def ex_config_def wrap64_def)
  show ?thesis
    using set_get_roundtrip [OF ex_strings_ok(1) opts _ _ _ _ time, of ex_string_env ex_client "[98]" "[48, 55]"] ex_strings_ok(2)
    by (auto simp: no_opts_def expiry_now_def ex_config_def)
qed


text \<open>
  C17: \<open>INCRBY\<close> computes with the exact number: when the sum is a 64 bit integer it is stored and replied,
  otherwise, and for values that are no such numbers, an error is replied and nothing is changed.\<close>

theorem incrbyCommand_correct:
  assumes inv: "db_inv value_ok s" and arg: "string2ll arg = Some i"
  shows "case number_at cfg s key of
      Some n \<Rightarrow> if int64 (n + i)
        then \<exists>s' v. incrbyCommand env cfg key arg s = Some s' \<and> db_dict s' = (db_dict (access cfg key s))(key \<mapsto> VString v) \<and>
          str_text v = dec_int (n + i) \<and> db_expires s' = db_expires (access cfg key s) \<and> s_reply s' = s_reply s @ [ReplyInt (n + i)]
        else \<exists>e. incrbyCommand env cfg key arg s = Some (addReply (ReplyError e) (access cfg key s))
    | None \<Rightarrow> \<exists>e. incrbyCommand env cfg key arg s = Some (addReply (ReplyError e) (access cfg key s))"
proof -
  have i: "int64 i" using arg by (simp add: string2ll_canonical)
  have run: "incrbyCommand env cfg key arg s = incrDecrCommand env cfg key i s"
    using arg by (simp add: incrbyCommand_def getLongLongFromObjectOrReply_def)
  show ?thesis
  proof (cases "\<exists>n. number_at cfg s key = Some n \<and> int64 (n + i)")
    case True
    then obtain n where n: "number_at cfg s key = Some n" "int64 (n + i)" by blast
    then show ?thesis using incrDecrCommand_number [OF inv n(1) i n(2), of env] unfolding run by (auto simp del: access_sel(1,2))
  next
    case False
    then show ?thesis
      using incrDecrCommand_refuses [OF inv i, of cfg key env] unfolding run by (auto split: option.splits)
  qed
qed

theorem incrbyCommand_correct_witness:
  "\<exists>s' v. incrbyCommand ex_string_env ex_config [97] [45, 55] ex_strings = Some s' \<and> db_dict s' [97] = Some (VString v) \<and>
    str_text v = dec_int (-2) \<and> s_reply s' = [ReplyInt (-2)]"
proof -
  have arg: "string2ll [45, 55] = Some (-7)" by (simp add: string2ll_canonical int64_def dec_int_def dec_nat.simps)
  have "string2ll (dec_int 5) = Some 5" by (simp add: string2ll_canonical int64_def)
  then have n: "number_at ex_config ex_strings [97] = Some 5"
    by (simp add: number_at_def is_expired_def ex_strings_ok) (simp add: ex_strings_def)
  show ?thesis
    using incrbyCommand_correct [OF ex_strings_ok(1) arg, where cfg = ex_config and key = "[97]" and env = ex_string_env] n ex_strings_ok(2)
    by (auto simp: int64_def)
qed

text \<open>
  C23: \<open>DECRBY\<close> negates its argument without a test: for the least integer the negation wraps, and the
  number is decreased by \<open>2 ^ 63\<close> where it should be increased beyond the range and refused.\<close>

theorem decrby_min_wraps:
  assumes inv: "db_inv value_ok s" and n: "number_at cfg s key = Some n" "0 \<le> n"
  shows "\<exists>s' v. decrbyCommand env cfg key (dec_int (-9223372036854775808)) s = Some s' \<and>
    db_dict s' = (db_dict (access cfg key s))(key \<mapsto> VString v) \<and> str_text v = dec_int (n - 9223372036854775808) \<and>
    s_reply s' = s_reply s @ [ReplyInt (n - 9223372036854775808)]"
proof -
  have "string2ll (dec_int (-9223372036854775808)) = Some (-9223372036854775808)" by (simp add: string2ll_canonical int64_def)
  then have run: "decrbyCommand env cfg key (dec_int (-9223372036854775808)) s = incrDecrCommand env cfg key (-9223372036854775808) s"
    by (simp add: decrbyCommand_def getLongLongFromObjectOrReply_def wrap64_def)
  have "int64 n" using n(1) by (auto simp: number_at_def string2ll_canonical int64_def split: option.splits rdb_value.splits)
  then have "int64 (-9223372036854775808)" "int64 (n + -9223372036854775808)" using n(2) by (auto simp: int64_def)
  then show ?thesis
    using incrDecrCommand_number [OF inv n(1), of "-9223372036854775808" env] unfolding run by (auto simp del: access_sel(1,2))
qed

theorem decrby_min_wraps_witness:
  "\<exists>s'. decrbyCommand ex_string_env ex_config [99] (dec_int (-9223372036854775808)) ex_strings = Some s' \<and>
    s_reply s' = [ReplyInt (-9223372036854775808)]"
proof -
  have "number_at ex_config ex_strings [99] = Some 0" by (simp add: number_at_def is_expired_def ex_strings_ok) (simp add: ex_strings_def)
  then show ?thesis
    using decrby_min_wraps [OF ex_strings_ok(1), where cfg = ex_config and key = "[99]" and n = 0 and env = ex_string_env] ex_strings_ok(2) by auto
qed


text \<open>
  C18: \<open>SETRANGE\<close> within the length limit writes the bytes at the position, behind the old text with zeros in
  between, keeps all other bytes of it and replies the new length; \<open>GETRANGE\<close> of that range replies the bytes.\<close>

theorem setrange_getrange:
  assumes inv: "db_inv value_ok s" and t: "text_at cfg s key = Some t" and ne: "value \<noteq> []"
    and off: "string2ll sa = Some (int i)" "string2ll ea = Some (int (i + length value - 1))"
    and len: "int (i + length value) \<le> st_max_bulk_len env" "st_max_bulk_len env < 9223372036854775808" and mem: "st_alloc env (i + length value)"
    and live: "\<not> is_expired cfg (access cfg key s) key"
  shows "\<exists>s1 s2. setrangeCommand env cfg c key sa value s = Some s1 \<and>
    s_reply s1 = s_reply s @ [ReplyInt (int (max (length t) (i + length value)))] \<and>
    (\<exists>u. db_dict s1 key = Some (VString u) \<and> length (str_text u) = max (length t) (i + length value) \<and>
      (\<forall>j < length (str_text u). str_text u ! j
        = (if i \<le> j \<and> j < i + length value then value ! (j - i) else if j < length t then t ! j else 0))) \<and>
    getrangeCommand cfg key sa ea s1 = Some s2 \<and> s_reply s2 = s_reply s1 @ [ReplyBulk value]"
proof -
  let ?u = "range_text t i value"
  have "wrap64 (int i + int (length value)) \<le> st_max_bulk_len env \<or> c_is_master c" using len by (simp add: wrap64_def)
  then obtain s1 where s1: "setrangeCommand env cfg c key sa value s = Some s1" "db_inv value_ok s1"
      "db_dict s1 = (db_dict (access cfg key s))(key \<mapsto> VString (STR_RAW ?u))" "db_expires s1 = db_expires (access cfg key s)"
      "s_reply s1 = s_reply s @ [ReplyInt (int (max (length t) (i + length value)))]"
    using setrange_value [OF inv t off(1) ne _ mem] by blast
  have "is_expired cfg s1 key = is_expired cfg (access cfg key s) key" using s1(4) by (simp only: is_expired_def)
  then have vis: "visible cfg s1 key = Some (VString (STR_RAW ?u))" using live s1(3) by (simp add: visible_def)
  obtain m where m: "length value = Suc m" using ne by (cases "value") auto
  have l: "length ?u = max (length t) (i + length value)" by (rule range_text_length)
  then have r: "substring_range (int (length ?u)) (int i) (int (i + length value - 1)) = Some (int i, int (i + length value - 1))"
    by (auto simp: substring_range_def Let_def m)
  have "int (i + length value - 1) - int i + 1 = int (length value)" by (simp add: m)
  then have "take (nat (int (i + length value - 1) - int i + 1)) (drop (nat (int i)) ?u) = value"
    by (simp add: range_text_def Let_def)
  then obtain s2 where "getrangeCommand cfg key sa ea s1 = Some s2" "s_reply s2 = s_reply s1 @ [ReplyBulk value]"
    using getrangeCommand_ok [OF s1(2) off, of cfg key] vis r by auto
  moreover have "?u ! j = (if i \<le> j \<and> j < i + length value then value ! (j - i) else if j < length t then t ! j else 0)"
    if "j < length ?u" for j
    using that l by (auto simp: range_text_def Let_def nth_append min_def)
  ultimately show ?thesis using s1 l by auto
qed

theorem setrange_getrange_witness:
  "\<exists>s1 s2 u. setrangeCommand ex_string_env ex_config ex_client [98] [51] [33] ex_strings = Some s1 \<and> s_reply s1 = [ReplyInt 4] \<and>
    db_dict s1 [98] = Some (VString u) \<and> length (str_text u) = 4 \<and>
    getrangeCommand ex_config [98] [51] [51] s1 = Some s2 \<and> s_reply s2 = [ReplyInt 4, ReplyBulk [33]]"
proof -
  have "string2ll [51] = Some 3" by (simp add: string2ll_canonical int64_def dec_int_def dec_nat.simps)
  moreover have "\<not> is_expired ex_config (access ex_config [98] ex_strings) [98]" by (simp add: is_expired_def ex_strings_ok)
  moreover have "text_at ex_config ex_strings [98] = Some [104, 105]"
    by (simp add: text_at_def is_expired_def ex_strings_ok) (simp add: ex_strings_def)
  ultimately show ?thesis
    using setrange_getrange [OF ex_strings_ok(1), of ex_config "[98]" "[104, 105]" "[33]" "[51]" 3 "[51]" ex_string_env ex_client] ex_strings_ok(2)
    by (auto simp: ex_string_env_def)
qed

text \<open>
  C22: The limit on the length of strings does not stop \<open>SETRANGE\<close> at the largest offset: the sum of offset and
  length is tested as a signed number, where it is negative, and the server then asks for memory of that
  size and aborts.\<close>

theorem setrange_offset_overflow:
  assumes inv: "db_inv value_ok s" and t: "text_at cfg s key = Some t" "length t < 9223372036854775807"
    and v: "value \<noteq> []" "length value < 4611686018427387904" and limit: "0 \<le> st_max_bulk_len env"
    and mem: "\<And>n. 9223372036854775808 \<le> n \<Longrightarrow> \<not> st_alloc env n"
  shows "setrangeCommand env cfg c key (dec_int 9223372036854775807) value s = None"
proof -
  define a where "a = access cfg key s"
  have a: "db_inv value_ok a" using inv by (simp add: a_def)
  have "string2ll (dec_int 9223372036854775807) = Some 9223372036854775807" by (simp add: string2ll_canonical int64_def)
  then have arg: "getLongFromObjectOrReply (dec_int 9223372036854775807) s = (s, Some 9223372036854775807)" by (rule getLong_arg)
  have lookup: "lookupKeyWrite cfg key s = Some (a, db_dict a key)" using lookupKeyWrite_ok [OF inv] by (simp add: a_def)
  obtain m where m: "length value = Suc m" using v(1) by (cases "value") auto
  have "(18446744073709551616 + int m) mod 18446744073709551616 = int m" using v(2) m by simp
  then have "wrap64 (9223372036854775807 + int (length value)) = int m - 9223372036854775808" by (simp add: wrap64_def m)
  then have chk: "checkStringLength env c (wrap64 (9223372036854775807 + int (length value))) a = (a, True)"
    using limit v(2) m by (simp add: checkStringLength_def)
  have big: "\<not> st_alloc env (nat (9223372036854775807 + int (length value)))" by (rule mem) (simp add: m)
  have big': "\<not> st_alloc env (9223372036854775807 + length value)" by (rule mem) (simp add: m)
  show ?thesis
  proof (cases "db_dict a key")
    case None
    then show ?thesis using arg lookup chk v(1) big by (simp add: setrangeCommand_def Let_def)
  next
    case (Some x)
    then obtain u where u: "x = VString u" "t = str_text u" "str_ok u"
      using t(1) db_invD(2) [OF a Some] by (cases x) (auto simp: text_at_def a_def)
    obtain s1 where s1: "dbUnshareStringValue key u a = Some (s1, t)" using unshare_ok [OF u(3), of a key] Some u by auto
    have "write_range env t 9223372036854775807 value = None"
      using big' t(2) by (simp add: write_range_def)
    then show ?thesis using Some u arg lookup chk v(1) s1 by (simp add: setrangeCommand_def setrange_store_def Let_def)
  qed
qed

theorem setrange_offset_overflow_witness:
  "setrangeCommand (ex_string_env\<lparr>st_alloc := \<lambda>n. n < 9223372036854775808\<rparr>) ex_config ex_client [98] (dec_int 9223372036854775807) [33] ex_strings
    = None"
proof -
  have "text_at ex_config ex_strings [98] = Some [104, 105]"
    by (simp add: text_at_def is_expired_def ex_strings_ok) (simp add: ex_strings_def)
  then show ?thesis
    using setrange_offset_overflow [OF ex_strings_ok(1), of ex_config "[98]" "[104, 105]" "[33]"
        "ex_string_env\<lparr>st_alloc := \<lambda>n. n < 9223372036854775808\<rparr>" ex_client]
    by (simp add: ex_string_env_def)
qed


section \<open>MSETNX\<close>

text \<open>The keys and values of the arguments; of a repeated key the last value counts.\<close>

fun pairs :: "byte list list \<Rightarrow> (key \<times> byte list) list" where
  "pairs (key # val # args) = (key, val) # pairs args"
| "pairs _ = []"

lemma access_frame:
  assumes "k' \<noteq> k"
  shows "db_dict (access cfg k s) k' = db_dict s k'" "db_expires (access cfg k s) k' = db_expires s k'"
  using assms by simp_all

lemma present_access: "present cfg (access cfg k s) k' = present cfg s k'"
proof (cases "k' = k")
  case True
  then show ?thesis by (simp only: present_def access_idem)
next
  case False
  have "is_expired cfg (access cfg k s) k' = is_expired cfg s k'" by (simp only: is_expired_def access_frame(2) [OF False])
  then show ?thesis by (simp only: present_iff access_frame(1) [OF False])
qed

lemma mset_exists_spec:
  "db_inv P s \<Longrightarrow> \<exists>s'. mset_exists cfg args s = Some (s', \<exists>k \<in> fst ` set (pairs args). present cfg s k) \<and> db_inv P s' \<and>
    s_reply s' = s_reply s \<and> (\<forall>k. visible cfg s' k = visible cfg s k)"
proof (induction cfg args s rule: mset_exists.induct)
  case (1 cfg key val args s)
  define a where "a = access cfg key s"
  have a: "db_inv P a" "s_reply a = s_reply s" "\<And>k. visible cfg a k = visible cfg s k" "\<And>k. present cfg a k = present cfg s k"
    using "1.prems" visible_access [of a cfg key s] by (simp_all add: a_def present_access)
  have lookup: "lookupKeyWrite cfg key s = Some (a, db_dict a key)" using lookupKeyWrite_ok [OF "1.prems"] by (simp add: a_def)
  have p: "db_dict a key \<noteq> None \<longleftrightarrow> present cfg s key" by (simp add: present_def a_def)
  show ?case
  proof (cases "present cfg s key")
    case True
    then show ?thesis using lookup p a by simp
  next
    case False
    then show ?thesis using "1.IH" [OF lookup refl _ a(1)] lookup p a by simp
  qed
qed auto

lemma mset_loop_spec:
  "db_inv value_ok s \<Longrightarrow> \<exists>s'. mset_loop env cfg args s = Some s' \<and> s_reply s' = s_reply s \<and>
    db_dict s' = db_dict s ++ (\<lambda>k. map_option (arg_value env) (map_of (rev (pairs args)) k)) \<and>
    db_expires s' = (\<lambda>k. if k \<in> fst ` set (pairs args) then None else db_expires s k)"
proof (induction env cfg args s rule: mset_loop.induct)
  case (1 env cfg key val args s)
  obtain s1 where s1: "setKey cfg key (arg_value env val) s = Some s1" "db_inv value_ok s1"
      "db_dict s1 = (db_dict s)(key \<mapsto> arg_value env val)" "db_expires s1 = (db_expires s)(key := None)" "s_reply s1 = s_reply s"
    using setKey_arg_ok [OF "1.prems"] by blast
  obtain s2 where s2: "mset_loop env cfg args (notifyKeyspaceEvent NOTIFY_STRING ''set'' key s1) = Some s2" "s_reply s2 = s_reply s"
      "db_dict s2 = db_dict s1 ++ (\<lambda>k. map_option (arg_value env) (map_of (rev (pairs args)) k))"
      "db_expires s2 = (\<lambda>k. if k \<in> fst ` set (pairs args) then None else db_expires s1 k)"
    using "1.IH" [OF s1(1), unfolded emit_sel db_inv_simps, OF s1(2)] s1(5) by auto
  have "db_dict s2 = db_dict s ++ (\<lambda>k. map_option (arg_value env) (map_of (rev (pairs (key # val # args))) k))"
    unfolding s2(3) s1(3) by (auto simp: fun_eq_iff map_add_def split: option.splits)
  moreover have "db_expires s2 = (\<lambda>k. if k \<in> fst ` set (pairs (key # val # args)) then None else db_expires s k)"
    unfolding s2(4) s1(4) by (auto simp: fun_eq_iff)
  ultimately show ?case using s1(1) s2(1,2) by simp
qed auto

text \<open>
  C19: \<open>MSETNX\<close> sets all of its keys or none: when one of them exists it replies 0 and nothing visible changes,
  otherwise it replies 1, every key is seen with its value (the last one given for it), and the other keys are
  seen as before.\<close>

theorem msetnx_all_or_nothing:
  assumes inv: "db_inv value_ok s" and args: "even (length args)"
  shows "\<exists>s'. msetnxCommand env cfg args s = Some s' \<and>
    (if \<exists>k \<in> fst ` set (pairs args). present cfg s k
     then s_reply s' = s_reply s @ [ReplyInt 0] \<and> (\<forall>k. visible cfg s' k = visible cfg s k)
     else s_reply s' = s_reply s @ [ReplyInt 1] \<and>
       (\<forall>k. visible cfg s' k = (case map_of (rev (pairs args)) k of Some v \<Rightarrow> Some (arg_value env v) | None \<Rightarrow> visible cfg s k)))"
proof -
  let ?e = "\<exists>k \<in> fst ` set (pairs args). present cfg s k"
  obtain s1 where s1: "mset_exists cfg args s = Some (s1, ?e)" "db_inv value_ok s1" "s_reply s1 = s_reply s"
      "\<And>k. visible cfg s1 k = visible cfg s k"
    using mset_exists_spec [OF inv] by blast
  show ?thesis
  proof (cases ?e)
    case True
    have "visible cfg (addReply (ReplyInt 0) s1) k = visible cfg s k" for k
      using s1(4) [of k] by (simp only: visible_def is_expired_def addReply_sel)
    then show ?thesis using True s1 args by (simp add: msetnxCommand_def msetGenericCommand_def)
  next
    case False
    obtain s2 where s2: "mset_loop env cfg args s1 = Some s2" "s_reply s2 = s_reply s"
        "db_dict s2 = db_dict s1 ++ (\<lambda>k. map_option (arg_value env) (map_of (rev (pairs args)) k))"
        "db_expires s2 = (\<lambda>k. if k \<in> fst ` set (pairs args) then None else db_expires s1 k)"
      using mset_loop_spec [OF s1(2), of env cfg args] s1(3) by auto
    let ?s = "addReply (ReplyInt 1) (add_dirty (int (length args div 2)) s2)"
    have "visible cfg ?s k = (case map_of (rev (pairs args)) k of Some v \<Rightarrow> Some (arg_value env v) | None \<Rightarrow> visible cfg s k)" for k
    proof (cases "map_of (rev (pairs args)) k")
      case None
      then have "k \<notin> fst ` set (pairs args)" by (simp add: map_of_eq_None_iff)
      then have "db_expires ?s k = db_expires s1 k" "db_dict ?s k = db_dict s1 k"
        using None s2(3,4) by (simp_all add: map_add_def)
      then have "visible cfg ?s k = visible cfg s1 k" by (simp only: visible_def is_expired_def)
      then show ?thesis using None s1(4) by simp
    next
      case (Some v)
      then have "k \<in> fst ` set (pairs args)" by (metis map_of_eq_None_iff option.distinct(1) set_rev)
      then have "db_expires ?s k = None" "db_dict ?s k = Some (arg_value env v)" using Some s2(3,4) by (simp_all add: map_add_def)
      then show ?thesis using Some by (simp add: visible_def is_expired_def)
    qed
    moreover have "msetnxCommand env cfg args s = Some ?s"
      using False s1(1) s2(1) args by (simp add: msetnxCommand_def msetGenericCommand_def)
    ultimately show ?thesis using False s2(2) by simp
  qed
qed

theorem msetnx_all_or_nothing_witness:
  "\<exists>s'. msetnxCommand ex_string_env ex_config [[99], [49], [97], [50]] ex_strings = Some s' \<and> s_reply s' = [ReplyInt 0] \<and>
    visible ex_config s' [99] = None"
proof -
  have "present ex_config ex_strings [97]" "visible ex_config ex_strings [99] = None"
    by (simp_all add: present_iff visible_def is_expired_def ex_strings_ok) (simp_all add: ex_strings_def)
  then show ?thesis
    using msetnx_all_or_nothing [OF ex_strings_ok(1), of "[[99], [49], [97], [50]]" ex_string_env ex_config] ex_strings_ok(2) by auto
qed

end
